(* ===== verification/Prelude.thy ===== *)
theory Prelude
  imports Main "HOL-Library.Word" "HOL-Library.Multiset"
begin

text \<open>
  Shared vocabulary of the development: names for the machine integers the C++ sources use,
  the parts of the C++ standard library that several components call (\<open>std::lower_bound\<close>,
  \<open>std::upper_bound\<close>, \<open>std::sort\<close>, \<open>std::unique\<close>, \<open>std::vector\<close> insertion and erasure),
  and the strict weak orders that the standard asks of every \<open>Compare\<close> argument.
  Iterators are positions (\<^typ>\<open>nat\<close>); the end iterator of \<open>xs\<close> is \<open>length xs\<close>.
\<close>

unbundle bit_operations_syntax

named_theorems vec_simps \<open>equations for the std::vector primitives\<close>
named_theorems order_intros \<open>introduction rules for sortedness\<close>

type_synonym u8 = "8 word"
type_synonym u16 = "16 word"
type_synonym u32 = "32 word"
type_synonym u64 = "64 word"
type_synonym byte_list = "8 word list"

section \<open>Vectors\<close>

definition insert_at :: "nat \<Rightarrow> 'a \<Rightarrow> 'a list \<Rightarrow> 'a list" where
  "insert_at i v xs = take i xs @ v # drop i xs"

definition erase_range :: "nat \<Rightarrow> nat \<Rightarrow> 'a list \<Rightarrow> 'a list" where
  "erase_range i j xs = take i xs @ drop j xs"

definition erase_at :: "nat \<Rightarrow> 'a list \<Rightarrow> 'a list" where
  "erase_at i xs = erase_range i (Suc i) xs"

definition swap_at :: "nat \<Rightarrow> nat \<Rightarrow> 'a list \<Rightarrow> 'a list" where
  "swap_at i j xs = xs[i := xs ! j, j := xs ! i]"

lemma length_insert_at [vec_simps, simp]: "length (insert_at i v xs) = Suc (length xs)"
  by (simp add: insert_at_def)

lemma set_insert_at [vec_simps, simp]: "set (insert_at i v xs) = insert v (set xs)"
  by (auto simp: insert_at_def dest: in_set_takeD in_set_dropD)
    (metis Un_iff append_take_drop_id set_append)

lemma mset_insert_at: "mset (insert_at i v xs) = add_mset v (mset xs)"
  unfolding insert_at_def
  by (metis append_take_drop_id mset.simps(2) mset_append union_mset_add_mset_right)

lemma length_swap_at [simp]: "length (swap_at i j xs) = length xs"
  by (simp add: swap_at_def)

lemma length_erase_at [vec_simps]:
  "i < length xs \<Longrightarrow> length (erase_at i xs) = length xs - 1"
  by (simp add: erase_at_def erase_range_def)

lemma erase_at_append [vec_simps]: "erase_at (length xs) (xs @ y # ys) = xs @ ys"
  by (simp add: erase_at_def erase_range_def)

lemma insert_at_append [vec_simps]: "insert_at (length xs) v (xs @ ys) = xs @ v # ys"
  by (simp add: insert_at_def)

section \<open>Searching, sorting and removing duplicates\<close>

text \<open>
  On a range partitioned by the comparison (the precondition the standard states) the binary
  searches return the partition point, which is what these definitions compute.
\<close>

definition lower_bound :: "('a \<Rightarrow> 'b \<Rightarrow> bool) \<Rightarrow> 'a list \<Rightarrow> 'b \<Rightarrow> nat" where
  "lower_bound cmp xs v = length (takeWhile (\<lambda>x. cmp x v) xs)"

definition upper_bound :: "('b \<Rightarrow> 'a \<Rightarrow> bool) \<Rightarrow> 'a list \<Rightarrow> 'b \<Rightarrow> nat" where
  "upper_bound cmp xs v = length (takeWhile (\<lambda>x. \<not> cmp v x) xs)"

text \<open>
  \<open>std::sort\<close> fixes the order up to equivalent elements; the model is a stable insertion sort,
  one of the permitted results.
\<close>

fun std_insort :: "('a \<Rightarrow> 'a \<Rightarrow> bool) \<Rightarrow> 'a \<Rightarrow> 'a list \<Rightarrow> 'a list" where
  "std_insort cmp x [] = [x]"
| "std_insort cmp x (y # ys) = (if cmp y x then y # std_insort cmp x ys else x # y # ys)"

definition std_sort :: "('a \<Rightarrow> 'a \<Rightarrow> bool) \<Rightarrow> 'a list \<Rightarrow> 'a list" where
  "std_sort cmp xs = foldr (std_insort cmp) xs []"

fun std_unique :: "('a \<Rightarrow> 'a \<Rightarrow> bool) \<Rightarrow> 'a list \<Rightarrow> 'a list" where
  "std_unique p [] = []"
| "std_unique p [x] = [x]"
| "std_unique p (x # y # ys) =
     (if p x y then std_unique p (x # ys) else x # std_unique p (y # ys))"

lemma takeWhile_split:
  "\<forall>y \<in> set ys. P y \<Longrightarrow> \<forall>z \<in> set zs. \<not> P z \<Longrightarrow> takeWhile P (ys @ zs) = ys"
  by (cases zs) simp_all

lemma lower_bound_le [simp]: "lower_bound cmp xs v \<le> length xs"
  by (simp add: lower_bound_def length_takeWhile_le)

lemma upper_bound_le [simp]: "upper_bound cmp xs v \<le> length xs"
  by (simp add: upper_bound_def length_takeWhile_le)

lemma take_lower_bound: "take (lower_bound cmp xs v) xs = takeWhile (\<lambda>x. cmp x v) xs"
  unfolding lower_bound_def by (rule takeWhile_eq_take [symmetric])

lemma drop_lower_bound: "drop (lower_bound cmp xs v) xs = dropWhile (\<lambda>x. cmp x v) xs"
  unfolding lower_bound_def by (rule dropWhile_eq_drop [symmetric])

lemma take_upper_bound: "take (upper_bound cmp xs v) xs = takeWhile (\<lambda>x. \<not> cmp v x) xs"
  unfolding upper_bound_def by (rule takeWhile_eq_take [symmetric])

lemma drop_upper_bound: "drop (upper_bound cmp xs v) xs = dropWhile (\<lambda>x. \<not> cmp v x) xs"
  unfolding upper_bound_def by (rule dropWhile_eq_drop [symmetric])

lemma lower_bound_Nil [simp]: "lower_bound cmp [] v = 0"
  by (simp add: lower_bound_def)

lemma lower_bound_below: "i < lower_bound cmp xs v \<Longrightarrow> cmp (xs ! i) v"
  unfolding lower_bound_def
  by (metis nth_mem set_takeWhileD takeWhile_nth)

lemma lower_bound_at:
  "lower_bound cmp xs v < length xs \<Longrightarrow> \<not> cmp (xs ! lower_bound cmp xs v) v"
  unfolding lower_bound_def by (rule nth_length_takeWhile)

lemma lower_bound_eqI:
  assumes "i \<le> length xs" "\<And>j. j < i \<Longrightarrow> cmp (xs ! j) v" "i < length xs \<Longrightarrow> \<not> cmp (xs ! i) v"
  shows "lower_bound cmp xs v = i"
proof -
  have "takeWhile (\<lambda>x. cmp x v) xs = take i xs"
    using assms by (intro takeWhile_eq_take_P_nth) auto
  then show ?thesis
    using assms(1) by (simp add: lower_bound_def)
qed

lemma upper_bound_below: "i < upper_bound cmp xs v \<Longrightarrow> \<not> cmp v (xs ! i)"
  unfolding upper_bound_def
  by (metis nth_mem set_takeWhileD takeWhile_nth)

lemma upper_bound_at:
  "upper_bound cmp xs v < length xs \<Longrightarrow> cmp v (xs ! upper_bound cmp xs v)"
  unfolding upper_bound_def using nth_length_takeWhile by fastforce

lemma mset_std_insort: "mset (std_insort cmp x xs) = add_mset x (mset xs)"
  by (induction xs) auto

lemma mset_std_sort [simp]: "mset (std_sort cmp xs) = mset xs"
  by (induction xs) (simp_all add: std_sort_def mset_std_insort)

lemma set_std_sort [simp]: "set (std_sort cmp xs) = set xs"
  by (metis mset_std_sort set_mset_mset)

lemma length_std_sort [simp]: "length (std_sort cmp xs) = length xs"
  by (metis mset_std_sort size_mset)

lemma set_std_unique_subset: "set (std_unique p xs) \<subseteq> set xs"
  by (induction p xs rule: std_unique.induct) auto

lemma std_unique_id: "sorted_wrt (\<lambda>a b. \<not> p a b) xs \<Longrightarrow> std_unique p xs = xs"
  by (induction p xs rule: std_unique.induct) auto

lemma hd_std_unique: "xs \<noteq> [] \<Longrightarrow> std_unique p xs \<noteq> [] \<and> hd (std_unique p xs) = hd xs"
  by (induction p xs rule: std_unique.induct) auto

section \<open>Compare arguments\<close>

text \<open>
  What the standard requires of a \<open>Compare\<close>: a strict weak order, given here by asymmetry and
  negative transitivity. The containers' own laws are proved once from these two.
\<close>

locale compare_order =
  fixes cmp :: "'a \<Rightarrow> 'a \<Rightarrow> bool"
  assumes asym: "cmp a b \<Longrightarrow> \<not> cmp b a"
    and cotrans: "cmp a c \<Longrightarrow> cmp a b \<or> cmp b c"
begin

lemma irrefl: "\<not> cmp a a"
  using asym by blast

lemma trans: "cmp a b \<Longrightarrow> cmp b c \<Longrightarrow> cmp a c"
  using asym cotrans by blast

lemma le_trans: "\<not> cmp b a \<Longrightarrow> \<not> cmp c b \<Longrightarrow> \<not> cmp c a"
  using cotrans by blast

lemma less_le_trans: "cmp a b \<Longrightarrow> \<not> cmp c b \<Longrightarrow> cmp a c"
  using cotrans by blast

lemma le_less_trans: "\<not> cmp b a \<Longrightarrow> cmp b c \<Longrightarrow> cmp a c"
  using cotrans by blast

lemma strict_imp_sorted: "sorted_wrt cmp xs \<Longrightarrow> sorted_wrt (\<lambda>a b. \<not> cmp b a) xs"
  by (rule sorted_wrt_mono_rel) (auto dest: asym)

lemma sorted_std_insort:
  "sorted_wrt (\<lambda>a b. \<not> cmp b a) xs \<Longrightarrow> sorted_wrt (\<lambda>a b. \<not> cmp b a) (std_insort cmp x xs)"
proof (induction xs)
  case Nil
  then show ?case by simp
next
  case (Cons y ys)
  have "set (std_insort cmp x ys) = insert x (set ys)"
    by (metis mset_std_insort set_mset_add_mset_insert set_mset_mset)
  moreover have "\<not> cmp z x" if "\<not> cmp y x" "z \<in> set ys" for z
    using that Cons.prems le_trans [of y x z] by auto
  ultimately show ?case
    using Cons by (auto dest: asym)
qed

lemma sorted_std_sort: "sorted_wrt (\<lambda>a b. \<not> cmp b a) (std_sort cmp xs)"
  by (induction xs) (auto simp: std_sort_def intro: sorted_std_insort)

lemma std_sort_id: "sorted_wrt cmp xs \<Longrightarrow> std_sort cmp xs = xs"
proof (induction xs)
  case (Cons x xs)
  then have "std_insort cmp x xs = x # xs"
    using asym by (cases xs) auto
  with Cons show ?case by (simp add: std_sort_def)
qed (simp add: std_sort_def)

lemma sorted_std_unique:
  "sorted_wrt (\<lambda>a b. \<not> cmp b a) xs \<Longrightarrow> sorted_wrt cmp (std_unique (\<lambda>a b. \<not> cmp a b) xs)"
proof (induction "\<lambda>a b. \<not> cmp a b" xs rule: std_unique.induct)
  case (3 x y ys)
  have sub: "z \<in> set (y # ys)" if "z \<in> set (std_unique (\<lambda>a b. \<not> cmp a b) (y # ys))" for z
    by (rule subsetD [OF set_std_unique_subset that])
  have "cmp x z" if "cmp x y" "z \<in> set (y # ys)" for z
    using that "3.prems" less_le_trans [of x y z] by auto
  with 3 sub show ?case by auto
qed auto

lemma std_unique_covers:
  "sorted_wrt (\<lambda>a b. \<not> cmp b a) xs \<Longrightarrow> v \<in> set xs \<Longrightarrow>
    \<exists>u \<in> set (std_unique (\<lambda>a b. \<not> cmp a b) xs). \<not> cmp u v \<and> \<not> cmp v u"
proof (induction "\<lambda>a b. \<not> cmp a b" xs arbitrary: v rule: std_unique.induct)
  case (2 x)
  then show ?case using irrefl by auto
next
  case (3 x y ys)
  show ?case
  proof (cases "cmp x y")
    case True
    with 3 show ?thesis using irrefl by auto
  next
    case False
    have eq: "\<not> cmp x y \<and> \<not> cmp y x"
      using False 3 by auto
    have IH: "\<exists>u \<in> set (std_unique (\<lambda>a b. \<not> cmp a b) (x # ys)). \<not> cmp u w \<and> \<not> cmp w u"
      if "w \<in> set (x # ys)" for w
      using "3.hyps"(1) [OF False, of w] "3.prems"(1) that by simp
    obtain w where w: "w \<in> set (x # ys)" "\<not> cmp w v" "\<not> cmp v w"
      using "3.prems"(2) eq irrefl by (cases "v = y") auto
    obtain u where "u \<in> set (std_unique (\<lambda>a b. \<not> cmp a b) (x # ys))" "\<not> cmp u w" "\<not> cmp w u"
      using IH [OF w(1)] by blast
    with w False show ?thesis
      using le_trans [of w u v] le_trans [of w v u] by (auto intro!: bexI [of _ u])
  qed
qed simp

lemma lower_bound_after:
  assumes "sorted_wrt (\<lambda>a b. \<not> cmp b a) xs" "lower_bound cmp xs v \<le> i" "i < length xs"
  shows "\<not> cmp (xs ! i) v"
proof -
  let ?l = "lower_bound cmp xs v"
  have "\<not> cmp (xs ! ?l) v"
    using assms lower_bound_at [of cmp xs v] by simp
  moreover have "?l = i \<or> \<not> cmp (xs ! i) (xs ! ?l)"
    using assms sorted_wrt_nth_less [OF assms(1), of ?l i] by (cases "?l = i") auto
  ultimately show ?thesis
    using le_trans [of "xs ! ?l" v "xs ! i"] by auto
qed

lemma upper_bound_after:
  assumes "sorted_wrt (\<lambda>a b. \<not> cmp b a) xs" "upper_bound cmp xs v \<le> i" "i < length xs"
  shows "cmp v (xs ! i)"
proof -
  let ?u = "upper_bound cmp xs v"
  have "cmp v (xs ! ?u)"
    using assms by (auto intro: upper_bound_at [of cmp xs v])
  moreover have "?u = i \<or> \<not> cmp (xs ! i) (xs ! ?u)"
    using assms sorted_wrt_nth_less [OF assms(1), of ?u i] by (cases "?u = i") auto
  ultimately show ?thesis
    using less_le_trans [of v "xs ! ?u" "xs ! i"] by auto
qed

lemma takeWhile_lower:
  "sorted_wrt (\<lambda>a b. \<not> cmp b a) xs \<Longrightarrow> x \<in> set (dropWhile (\<lambda>x. cmp x v) xs) \<Longrightarrow> \<not> cmp x v"
  by (induction xs) (auto split: if_splits dest: le_trans)

lemma takeWhile_upper:
  "sorted_wrt (\<lambda>a b. \<not> cmp b a) xs \<Longrightarrow> x \<in> set (dropWhile (\<lambda>x. \<not> cmp v x) xs) \<Longrightarrow> cmp v x"
  by (induction xs) (auto split: if_splits dest: less_le_trans)

end

text \<open>The two orders the program instantiates: \<open>std::less\<close> and \<open>std::greater\<close>.\<close>

interpretation less_cmp: compare_order "(<) :: 'a::linorder \<Rightarrow> 'a \<Rightarrow> bool"
  by unfold_locales auto

interpretation greater_cmp: compare_order "(>) :: 'a::linorder \<Rightarrow> 'a \<Rightarrow> bool"
  by unfold_locales auto

text \<open>A comparison of a projected field is again a strict weak order.\<close>

lemma compare_order_proj: "compare_order cmp \<Longrightarrow> compare_order (\<lambda>a b. cmp (f a) (f b))"
  by (simp add: compare_order_def)

end
