(* ===== verification/FlatSet.thy ===== *)
theory FlatSet
  imports Prelude
begin

text \<open>
  \<open>lib_base/base/flat_set.h\<close>: \<open>base::flat_multi_set\<close> and \<open>base::flat_set\<close>, sorted vectors with
  set operations. A container is the list of its elements in storage order; every operation takes
  the \<open>Compare\<close> argument first. Operations that hand out an iterator return a position, those that
  change the container return the changed list as well.
\<close>

section \<open>flat_multi_set\<close>

definition flat_multi_set_construct :: "('a \<Rightarrow> 'a \<Rightarrow> bool) \<Rightarrow> 'a list \<Rightarrow> 'a list" where
  "flat_multi_set_construct cmp items = std_sort cmp items"

definition flat_multi_set_insert :: "('a \<Rightarrow> 'a \<Rightarrow> bool) \<Rightarrow> 'a \<Rightarrow> 'a list \<Rightarrow> 'a list \<times> nat" where
  "flat_multi_set_insert cmp value xs =
     (if xs = [] \<or> \<not> cmp value (last xs) then (xs @ [value], length xs)
      else let where = upper_bound cmp xs value in (insert_at where value xs, where))"

text \<open>The early return shared by every lookup: nothing below the front or above the back.\<close>

definition out_of_span :: "('a \<Rightarrow> 'a \<Rightarrow> bool) \<Rightarrow> 'a \<Rightarrow> 'a list \<Rightarrow> bool" where
  "out_of_span cmp value xs \<longleftrightarrow> xs = [] \<or> cmp value (hd xs) \<or> cmp (last xs) value"

definition flat_multi_set_removeOne :: "('a \<Rightarrow> 'a \<Rightarrow> bool) \<Rightarrow> 'a \<Rightarrow> 'a list \<Rightarrow> 'a list \<times> bool" where
  "flat_multi_set_removeOne cmp value xs =
     (if out_of_span cmp value xs then (xs, False)
      else let where = lower_bound cmp xs value in
        if cmp value (xs ! where) then (xs, False) else (erase_at where xs, True))"

definition flat_multi_set_removeAll :: "('a \<Rightarrow> 'a \<Rightarrow> bool) \<Rightarrow> 'a \<Rightarrow> 'a list \<Rightarrow> 'a list \<times> nat" where
  "flat_multi_set_removeAll cmp value xs =
     (if out_of_span cmp value xs then (xs, 0)
      else let first = lower_bound cmp xs value; second = upper_bound cmp xs value in
        if first = second then (xs, 0) else (erase_range first second xs, second - first))"

definition flat_multi_set_findFirst :: "('a \<Rightarrow> 'a \<Rightarrow> bool) \<Rightarrow> 'a \<Rightarrow> 'a list \<Rightarrow> nat" where
  "flat_multi_set_findFirst cmp value xs =
     (if out_of_span cmp value xs then length xs
      else let where = lower_bound cmp xs value in
        if cmp value (xs ! where) then length xs else where)"

definition flat_multi_set_contains :: "('a \<Rightarrow> 'a \<Rightarrow> bool) \<Rightarrow> 'a \<Rightarrow> 'a list \<Rightarrow> bool" where
  "flat_multi_set_contains cmp value xs \<longleftrightarrow> flat_multi_set_findFirst cmp value xs \<noteq> length xs"

definition flat_multi_set_count :: "('a \<Rightarrow> 'a \<Rightarrow> bool) \<Rightarrow> 'a \<Rightarrow> 'a list \<Rightarrow> nat" where
  "flat_multi_set_count cmp value xs =
     (if out_of_span cmp value xs then 0
      else upper_bound cmp xs value - lower_bound cmp xs value)"

definition flat_multi_set_merge :: "('a \<Rightarrow> 'a \<Rightarrow> bool) \<Rightarrow> 'a list \<Rightarrow> 'a list \<Rightarrow> 'a list" where
  "flat_multi_set_merge cmp items xs = std_sort cmp (xs @ items)"

text \<open>
  The two loops of \<open>modify\<close>. Both compare with \<open>*which\<close> and swap into \<open>*which\<close>, the position the
  caller passed, which does not move along with the element.
\<close>

function multi_modify_up :: "('a \<Rightarrow> 'a \<Rightarrow> bool) \<Rightarrow> nat \<Rightarrow> nat \<Rightarrow> 'a list \<Rightarrow> 'a list" where
  "multi_modify_up cmp which i xs =
     (if i < length xs \<and> cmp (xs ! i) (xs ! which)
      then multi_modify_up cmp which (Suc i) (swap_at i which xs) else xs)"
  by pat_completeness auto
termination
  by (relation "measure (\<lambda>(cmp, which, i, xs). length xs - i)") auto

fun multi_modify_down :: "('a \<Rightarrow> 'a \<Rightarrow> bool) \<Rightarrow> nat \<Rightarrow> nat \<Rightarrow> 'a list \<Rightarrow> 'a list" where
  "multi_modify_down cmp which 0 xs = xs"
| "multi_modify_down cmp which (Suc i) xs =
     (if cmp (xs ! which) (xs ! i) then multi_modify_down cmp which i (swap_at i which xs) else xs)"

definition flat_multi_set_modify :: "('a \<Rightarrow> 'a \<Rightarrow> bool) \<Rightarrow> nat \<Rightarrow> ('a \<Rightarrow> 'a) \<Rightarrow> 'a list \<Rightarrow> 'a list" where
  "flat_multi_set_modify cmp which action xs =
     multi_modify_down cmp which which
       (multi_modify_up cmp which (Suc which) (xs[which := action (xs ! which)]))"

section \<open>flat_set\<close>

definition flat_set_finalize :: "('a \<Rightarrow> 'a \<Rightarrow> bool) \<Rightarrow> 'a list \<Rightarrow> 'a list" where
  "flat_set_finalize cmp xs = std_unique (\<lambda>a b. \<not> cmp a b) xs"

definition flat_set_construct :: "('a \<Rightarrow> 'a \<Rightarrow> bool) \<Rightarrow> 'a list \<Rightarrow> 'a list" where
  "flat_set_construct cmp items = flat_set_finalize cmp (flat_multi_set_construct cmp items)"

definition flat_set_insert :: "('a \<Rightarrow> 'a \<Rightarrow> bool) \<Rightarrow> 'a \<Rightarrow> 'a list \<Rightarrow> 'a list \<times> nat \<times> bool" where
  "flat_set_insert cmp value xs =
     (if xs = [] \<or> cmp (last xs) value then (xs @ [value], length xs, True)
      else let where = lower_bound cmp xs value in
        if cmp value (xs ! where) then (insert_at where value xs, where, True)
        else (xs, where, False))"

definition flat_set_remove :: "('a \<Rightarrow> 'a \<Rightarrow> bool) \<Rightarrow> 'a \<Rightarrow> 'a list \<Rightarrow> 'a list \<times> bool" where
  "flat_set_remove cmp value xs = flat_multi_set_removeOne cmp value xs"

definition flat_set_find :: "('a \<Rightarrow> 'a \<Rightarrow> bool) \<Rightarrow> 'a \<Rightarrow> 'a list \<Rightarrow> nat" where
  "flat_set_find cmp value xs = flat_multi_set_findFirst cmp value xs"

definition flat_set_merge :: "('a \<Rightarrow> 'a \<Rightarrow> bool) \<Rightarrow> 'a list \<Rightarrow> 'a list \<Rightarrow> 'a list" where
  "flat_set_merge cmp items xs = flat_set_finalize cmp (flat_multi_set_merge cmp items xs)"

text \<open>\<open>Inl\<close> is the early return after \<open>erase(which)\<close>.\<close>

function set_modify_up :: "('a \<Rightarrow> 'a \<Rightarrow> bool) \<Rightarrow> nat \<Rightarrow> nat \<Rightarrow> 'a list \<Rightarrow> 'a list + 'a list" where
  "set_modify_up cmp which i xs =
     (if i < length xs then
        (if cmp (xs ! i) (xs ! which) then set_modify_up cmp which (Suc i) (swap_at i which xs)
         else if \<not> cmp (xs ! which) (xs ! i) then Inl (erase_at which xs)
         else Inr xs)
      else Inr xs)"
  by pat_completeness auto
termination
  by (relation "measure (\<lambda>(cmp, which, i, xs). length xs - i)") auto

fun set_modify_down :: "('a \<Rightarrow> 'a \<Rightarrow> bool) \<Rightarrow> nat \<Rightarrow> nat \<Rightarrow> 'a list \<Rightarrow> 'a list" where
  "set_modify_down cmp which 0 xs = xs"
| "set_modify_down cmp which (Suc i) xs =
     (if cmp (xs ! which) (xs ! i) then set_modify_down cmp which i (swap_at i which xs)
      else if \<not> cmp (xs ! i) (xs ! which) then erase_at which xs
      else xs)"

definition flat_set_modify :: "('a \<Rightarrow> 'a \<Rightarrow> bool) \<Rightarrow> nat \<Rightarrow> ('a \<Rightarrow> 'a) \<Rightarrow> 'a list \<Rightarrow> 'a list" where
  "flat_set_modify cmp which action xs =
     (case set_modify_up cmp which (Suc which) (xs[which := action (xs ! which)]) of
        Inl ys \<Rightarrow> ys
      | Inr ys \<Rightarrow> set_modify_down cmp which which ys)"

declare multi_modify_up.simps [simp del] set_modify_up.simps [simp del]

lemmas flat_multi_set_defs =
  flat_multi_set_insert_def flat_multi_set_removeOne_def flat_multi_set_removeAll_def
  flat_multi_set_findFirst_def flat_multi_set_contains_def flat_multi_set_count_def

section \<open>Laws for every strict weak order\<close>

context compare_order
begin

lemma lower_bound_in_span:
  assumes "\<not> out_of_span cmp v xs"
  shows "lower_bound cmp xs v < length xs"
proof (rule ccontr)
  assume "\<not> ?thesis"
  then have eq: "lower_bound cmp xs v = length xs"
    using lower_bound_le [of cmp xs v] by simp
  have "xs \<noteq> []" and "\<not> cmp (last xs) v"
    using assms by (auto simp: out_of_span_def)
  then show False
    using eq lower_bound_below [of "length xs - 1" cmp xs v] by (simp add: last_conv_nth)
qed

lemma split_lower:
  assumes "sorted_wrt (\<lambda>a b. \<not> cmp b a) xs"
  obtains ys zs where "xs = ys @ zs" "lower_bound cmp xs v = length ys"
    "\<forall>y \<in> set ys. cmp y v" "\<forall>z \<in> set zs. \<not> cmp z v"
proof
  show "xs = takeWhile (\<lambda>x. cmp x v) xs @ dropWhile (\<lambda>x. cmp x v) xs" by simp
  show "lower_bound cmp xs v = length (takeWhile (\<lambda>x. cmp x v) xs)" by (simp add: lower_bound_def)
  show "\<forall>y \<in> set (takeWhile (\<lambda>x. cmp x v) xs). cmp y v" by (blast dest: set_takeWhileD)
  show "\<forall>z \<in> set (dropWhile (\<lambda>x. cmp x v) xs). \<not> cmp z v"
    using takeWhile_lower [OF assms] by blast
qed

lemma split_upper:
  assumes "sorted_wrt (\<lambda>a b. \<not> cmp b a) xs"
  obtains ys zs where "xs = ys @ zs" "upper_bound cmp xs v = length ys"
    "\<forall>y \<in> set ys. \<not> cmp v y" "\<forall>z \<in> set zs. cmp v z"
proof
  show "xs = takeWhile (\<lambda>x. \<not> cmp v x) xs @ dropWhile (\<lambda>x. \<not> cmp v x) xs" by simp
  show "upper_bound cmp xs v = length (takeWhile (\<lambda>x. \<not> cmp v x) xs)" by (simp add: upper_bound_def)
  show "\<forall>y \<in> set (takeWhile (\<lambda>x. \<not> cmp v x) xs). \<not> cmp v y" by (blast dest: set_takeWhileD)
  show "\<forall>z \<in> set (dropWhile (\<lambda>x. \<not> cmp v x) xs). cmp v z"
    using takeWhile_upper [OF assms] by blast
qed

lemma front_least:
  "sorted_wrt (\<lambda>a b. \<not> cmp b a) xs \<Longrightarrow> x \<in> set xs \<Longrightarrow> \<not> cmp x (hd xs)"
  by (cases xs) (auto simp: irrefl)

lemma back_greatest:
  "sorted_wrt (\<lambda>a b. \<not> cmp b a) xs \<Longrightarrow> x \<in> set xs \<Longrightarrow> \<not> cmp (last xs) x"
  by (induction xs rule: rev_induct) (auto simp: irrefl sorted_wrt_append)

lemma out_of_span_no_equiv:
  assumes "sorted_wrt (\<lambda>a b. \<not> cmp b a) xs" "out_of_span cmp v xs" "x \<in> set xs"
  shows "cmp v x \<or> cmp x v"
proof -
  from assms(3) have "xs \<noteq> []" by auto
  with assms(2) have "cmp v (hd xs) \<or> cmp (last xs) v"
    by (simp add: out_of_span_def)
  then show ?thesis
    using less_le_trans [of v "hd xs" x] le_less_trans [of "last xs" x v]
      front_least [OF assms(1,3)] back_greatest [OF assms(1,3)] by blast
qed

text \<open>
  In range, the lookup's position holds an equivalent element or there is none: the binary search
  never dereferences the end iterator.
\<close>

lemma lookup_position:
  assumes "sorted_wrt (\<lambda>a b. \<not> cmp b a) xs" "\<not> out_of_span cmp v xs"
  shows "cmp v (xs ! lower_bound cmp xs v) \<longleftrightarrow> (\<forall>x \<in> set xs. cmp v x \<or> cmp x v)"
proof -
  obtain ys zs where sp: "xs = ys @ zs" "lower_bound cmp xs v = length ys"
    "\<forall>y \<in> set ys. cmp y v" "\<forall>z \<in> set zs. \<not> cmp z v"
    using split_lower [OF assms(1)] .
  have "zs \<noteq> []"
    using lower_bound_in_span [OF assms(2)] sp by auto
  then obtain z zs' where z: "zs = z # zs'" by (cases zs) auto
  have "cmp v x" if "cmp v z" "x \<in> set zs'" for x
    using that assms(1) sp(1) z less_le_trans [of v z x] by (auto simp: sorted_wrt_append)
  with sp z show ?thesis by (auto simp: nth_append)
qed

lemma findFirst_found:
  assumes "sorted_wrt (\<lambda>a b. \<not> cmp b a) xs" "x \<in> set xs" "\<not> cmp v x" "\<not> cmp x v"
  shows "flat_multi_set_findFirst cmp v xs = lower_bound cmp xs v"
    "lower_bound cmp xs v < length xs"
    "\<not> cmp v (xs ! lower_bound cmp xs v)" "\<not> cmp (xs ! lower_bound cmp xs v) v"
proof -
  have sp: "\<not> out_of_span cmp v xs"
    using out_of_span_no_equiv [OF assms(1)] assms(2-4) by blast
  have nc: "\<not> cmp v (xs ! lower_bound cmp xs v)"
    using lookup_position [OF assms(1) sp] assms(2-4) by blast
  then show "flat_multi_set_findFirst cmp v xs = lower_bound cmp xs v"
    by (simp add: flat_multi_set_findFirst_def sp Let_def)
  show lt: "lower_bound cmp xs v < length xs" by (rule lower_bound_in_span [OF sp])
  show "\<not> cmp v (xs ! lower_bound cmp xs v)" by (rule nc)
  show "\<not> cmp (xs ! lower_bound cmp xs v) v" by (rule lower_bound_at [OF lt])
qed

lemma findFirst_missing:
  assumes "sorted_wrt (\<lambda>a b. \<not> cmp b a) xs" "\<forall>x \<in> set xs. cmp v x \<or> cmp x v"
  shows "flat_multi_set_findFirst cmp v xs = length xs"
  using assms lookup_position [OF assms(1)]
  by (auto simp: flat_multi_set_findFirst_def Let_def)

lemma contains_iff:
  assumes "sorted_wrt (\<lambda>a b. \<not> cmp b a) xs"
  shows "flat_multi_set_contains cmp v xs \<longleftrightarrow> (\<exists>x \<in> set xs. \<not> cmp v x \<and> \<not> cmp x v)"
  using findFirst_found [OF assms] findFirst_missing [OF assms, of v]
  by (auto simp: flat_multi_set_contains_def) (metis less_irrefl)

lemma multi_insert_sorted:
  assumes "sorted_wrt (\<lambda>a b. \<not> cmp b a) xs"
  shows "sorted_wrt (\<lambda>a b. \<not> cmp b a) (fst (flat_multi_set_insert cmp v xs))"
proof (cases "xs = [] \<or> \<not> cmp v (last xs)")
  case True
  then have "\<forall>x \<in> set xs. \<not> cmp v x"
    using back_greatest [OF assms] le_trans [of "last xs" _ v] by auto
  with True assms show ?thesis
    by (auto simp: flat_multi_set_insert_def sorted_wrt_append)
next
  case False
  obtain ys zs where sp: "xs = ys @ zs" "upper_bound cmp xs v = length ys"
    "\<forall>y \<in> set ys. \<not> cmp v y" "\<forall>z \<in> set zs. cmp v z"
    using split_upper [OF assms] .
  have "fst (flat_multi_set_insert cmp v xs) = ys @ v # zs"
    using False sp by (simp add: flat_multi_set_insert_def Let_def insert_at_def)
  with sp assms show ?thesis by (auto simp: sorted_wrt_append dest: asym)
qed

lemma multi_insert_mset: "mset (fst (flat_multi_set_insert cmp v xs)) = add_mset v (mset xs)"
  by (simp add: flat_multi_set_insert_def Let_def mset_insert_at)

lemma erase_equal_range:
  assumes "sorted_wrt (\<lambda>a b. \<not> cmp b a) xs"
  shows "erase_range (lower_bound cmp xs v) (upper_bound cmp xs v) xs
    = filter (\<lambda>x. cmp v x \<or> cmp x v) xs"
    "lower_bound cmp xs v \<le> upper_bound cmp xs v"
    "upper_bound cmp xs v - lower_bound cmp xs v
      = length (filter (\<lambda>x. \<not> cmp v x \<and> \<not> cmp x v) xs)"
proof -
  obtain ys zs where sp: "xs = ys @ zs" "lower_bound cmp xs v = length ys"
    "\<forall>y \<in> set ys. cmp y v" "\<forall>z \<in> set zs. \<not> cmp z v"
    using split_lower [OF assms] .
  have "sorted_wrt (\<lambda>a b. \<not> cmp b a) zs"
    using assms sp by (simp add: sorted_wrt_append)
  then obtain es gs where sp2: "zs = es @ gs" "upper_bound cmp zs v = length es"
    "\<forall>y \<in> set es. \<not> cmp v y" "\<forall>z \<in> set gs. cmp v z"
    by (rule split_upper)
  have up: "upper_bound cmp xs v = length ys + length es"
    using sp(1,3) sp2(2) asym by (auto simp: upper_bound_def)
  have f: "filter (\<lambda>x. cmp v x \<or> cmp x v) xs = ys @ gs"
    "filter (\<lambda>x. \<not> cmp v x \<and> \<not> cmp x v) xs = es"
    using sp sp2 by (auto simp: filter_empty_conv filter_id_conv)
  show "erase_range (lower_bound cmp xs v) (upper_bound cmp xs v) xs
    = filter (\<lambda>x. cmp v x \<or> cmp x v) xs"
    using sp sp2 f up by (simp add: erase_range_def)
  show "lower_bound cmp xs v \<le> upper_bound cmp xs v" using sp up by simp
  show "upper_bound cmp xs v - lower_bound cmp xs v
      = length (filter (\<lambda>x. \<not> cmp v x \<and> \<not> cmp x v) xs)"
    using sp up f by simp
qed

lemma removeAll_filter:
  assumes "sorted_wrt (\<lambda>a b. \<not> cmp b a) xs"
  shows "flat_multi_set_removeAll cmp v xs
    = (filter (\<lambda>x. cmp v x \<or> cmp x v) xs, length (filter (\<lambda>x. \<not> cmp v x \<and> \<not> cmp x v) xs))"
proof (cases "out_of_span cmp v xs")
  case True
  then have "\<forall>x \<in> set xs. cmp v x \<or> cmp x v"
    using out_of_span_no_equiv [OF assms] by blast
  with True show ?thesis
    by (auto simp: flat_multi_set_removeAll_def filter_id_conv filter_empty_conv)
next
  case False
  have "filter (\<lambda>x. cmp v x \<or> cmp x v) xs = xs"
    if "lower_bound cmp xs v = upper_bound cmp xs v"
    using erase_equal_range(1) [OF assms, of v] that by (simp add: erase_range_def)
  then show ?thesis
    using False erase_equal_range [OF assms, of v]
    by (auto simp: flat_multi_set_removeAll_def Let_def)
qed

lemma multi_count:
  assumes "sorted_wrt (\<lambda>a b. \<not> cmp b a) xs"
  shows "flat_multi_set_count cmp v xs = length (filter (\<lambda>x. \<not> cmp v x \<and> \<not> cmp x v) xs)"
  using removeAll_filter [OF assms, of v] erase_equal_range [OF assms, of v]
    out_of_span_no_equiv [OF assms, of v]
  by (auto simp: flat_multi_set_count_def filter_empty_conv)

lemma strict_no_equiv:
  assumes "sorted_wrt cmp (ys @ z # zs)" "\<not> cmp v z" "\<not> cmp z v" "x \<in> set (ys @ zs)"
  shows "cmp v x \<or> cmp x v"
proof -
  have "cmp x z \<or> cmp z x"
    using assms(1,4) by (auto simp: sorted_wrt_append)
  then show ?thesis
    using assms(2,3) less_le_trans [of x z v] le_less_trans [of z v x] by blast
qed

lemma removeOne_filter:
  assumes "sorted_wrt cmp xs"
  shows "flat_multi_set_removeOne cmp v xs
    = (filter (\<lambda>x. cmp v x \<or> cmp x v) xs, \<exists>x \<in> set xs. \<not> cmp v x \<and> \<not> cmp x v)"
proof -
  note le = strict_imp_sorted [OF assms]
  show ?thesis
  proof (cases "\<exists>x \<in> set xs. \<not> cmp v x \<and> \<not> cmp x v")
    case True
    then obtain x where x: "x \<in> set xs" "\<not> cmp v x" "\<not> cmp x v" by blast
    note found = findFirst_found [OF le x]
    let ?i = "lower_bound cmp xs v"
    have xs: "xs = take ?i xs @ xs ! ?i # drop (Suc ?i) xs"
      by (rule id_take_nth_drop [OF found(2)])
    have others: "\<forall>y \<in> set (take ?i xs @ drop (Suc ?i) xs). cmp v y \<or> cmp y v"
      using strict_no_equiv [of "take ?i xs" "xs ! ?i" "drop (Suc ?i) xs" v]
        assms xs found(3,4) by metis
    have "filter (\<lambda>x. cmp v x \<or> cmp x v) (take ?i xs @ xs ! ?i # drop (Suc ?i) xs)
      = take ?i xs @ drop (Suc ?i) xs"
      using others found(3,4) by (auto simp: filter_id_conv)
    then have "filter (\<lambda>x. cmp v x \<or> cmp x v) xs = erase_at ?i xs"
      using xs by (simp add: erase_at_def erase_range_def)
    moreover have "\<not> out_of_span cmp v xs"
      using out_of_span_no_equiv [OF le _ x(1)] x by blast
    ultimately show ?thesis
      using True found(3) by (simp add: flat_multi_set_removeOne_def Let_def)
  next
    case False
    then have all: "\<forall>x \<in> set xs. cmp v x \<or> cmp x v" by blast
    then have "flat_multi_set_removeOne cmp v xs = (xs, False)"
      using lookup_position [OF le] by (auto simp: flat_multi_set_removeOne_def Let_def)
    moreover have "filter (\<lambda>x. cmp v x \<or> cmp x v) xs = xs"
      using all by (simp add: filter_id_conv)
    ultimately show ?thesis using False by simp
  qed
qed

lemma set_insert_cases:
  assumes "sorted_wrt cmp xs"
  obtains (fresh) ys zs where "xs = ys @ zs" "\<forall>y \<in> set ys. cmp y v" "\<forall>z \<in> set zs. cmp v z"
      "flat_set_insert cmp v xs = (ys @ v # zs, length ys, True)"
  | (present) ys z zs where "xs = ys @ z # zs" "\<not> cmp v z" "\<not> cmp z v"
      "flat_set_insert cmp v xs = (xs, length ys, False)"
proof -
  note le = strict_imp_sorted [OF assms]
  obtain ys zs where sp: "xs = ys @ zs" "lower_bound cmp xs v = length ys"
    "\<forall>y \<in> set ys. cmp y v" "\<forall>z \<in> set zs. \<not> cmp z v"
    using split_lower [OF le] .
  show thesis
  proof (cases zs)
    case Nil
    then have "xs = [] \<or> cmp (last xs) v"
      using sp by (metis append_Nil2 last_in_set)
    with Nil sp show thesis
      by (intro fresh [of ys "[]"]) (auto simp: flat_set_insert_def)
  next
    case (Cons z zs')
    have lst: "\<not> (xs = [] \<or> cmp (last xs) v)"
      using Cons sp by (auto simp: last_append split: if_splits)
    have nth: "xs ! length ys = z" using Cons sp by (simp add: nth_append)
    show thesis
    proof (cases "cmp v z")
      case True
      have "\<forall>u \<in> set zs. cmp v u"
        using True Cons sp(1) assms trans [of v z] by (auto simp: sorted_wrt_append)
      then show thesis
        using True Cons sp lst nth
        by (intro fresh [of ys zs]) (auto simp: flat_set_insert_def Let_def insert_at_def)
    next
      case False
      then show thesis
        using Cons sp lst nth
        by (intro present [of ys z zs']) (auto simp: flat_set_insert_def Let_def)
    qed
  qed
qed

lemma set_insert_sorted:
  assumes "sorted_wrt cmp xs"
  shows "sorted_wrt cmp (fst (flat_set_insert cmp v xs))"
  using assms
  by (cases rule: set_insert_cases [OF assms, of v])
    (auto simp: sorted_wrt_append intro: trans)

lemma set_construct_sorted: "sorted_wrt cmp (flat_set_construct cmp items)"
  unfolding flat_set_construct_def flat_multi_set_construct_def flat_set_finalize_def
  by (intro sorted_std_unique sorted_std_sort)

lemma set_merge_sorted: "sorted_wrt cmp (flat_set_merge cmp items xs)"
  unfolding flat_set_merge_def flat_multi_set_merge_def flat_set_finalize_def
  by (intro sorted_std_unique sorted_std_sort)

lemma set_merge_empty: "sorted_wrt cmp items \<Longrightarrow> flat_set_merge cmp items [] = items"
  by (simp add: flat_set_merge_def flat_multi_set_merge_def flat_set_finalize_def std_sort_id
      std_unique_id)

lemma set_merge_covers:
  "set (flat_set_merge cmp items xs) \<subseteq> set xs \<union> set items"
  "x \<in> set xs \<union> set items \<Longrightarrow> \<exists>u \<in> set (flat_set_merge cmp items xs). \<not> cmp u x \<and> \<not> cmp x u"
proof -
  show "set (flat_set_merge cmp items xs) \<subseteq> set xs \<union> set items"
    unfolding flat_set_merge_def flat_multi_set_merge_def flat_set_finalize_def
    using set_std_unique_subset by (metis set_append set_std_sort)
  show "x \<in> set xs \<union> set items \<Longrightarrow> \<exists>u \<in> set (flat_set_merge cmp items xs). \<not> cmp u x \<and> \<not> cmp x u"
    unfolding flat_set_merge_def flat_multi_set_merge_def flat_set_finalize_def
    by (rule std_unique_covers [OF sorted_std_sort]) simp
qed

text \<open>
  \<open>modify\<close> is the plain assignment as long as the changed element keeps its place between its
  neighbours, which is how every caller in the program uses it.
\<close>

lemma modify_in_place:
  assumes "which < length xs"
    and "Suc which < length xs \<Longrightarrow> cmp (action (xs ! which)) (xs ! Suc which)"
    and "0 < which \<Longrightarrow> cmp (xs ! (which - 1)) (action (xs ! which))"
  shows "flat_set_modify cmp which action xs = xs[which := action (xs ! which)]"
proof -
  let ?ys = "xs[which := action (xs ! which)]"
  have up: "set_modify_up cmp which (Suc which) ?ys = Inr ?ys"
    using assms(1,2) asym [OF assms(2)] by (subst set_modify_up.simps) auto
  have "set_modify_down cmp which which ?ys = ?ys"
  proof (cases which)
    case (Suc j)
    then have "cmp (?ys ! j) (?ys ! which)" using assms(1,3) by simp
    then show ?thesis using Suc asym by fastforce
  qed simp
  with up show ?thesis by (simp add: flat_set_modify_def)
qed

end

section \<open>The set interface\<close>

text \<open>
  Under a total comparison (\<open>std::less\<close> on a linear order) equivalence is equality and the flat set
  implements a finite set; the clients below use these laws only.
\<close>

locale ordered_set =
  fixes invar :: "'s \<Rightarrow> bool"
    and elems :: "'s \<Rightarrow> 'a set"
    and ins :: "'a \<Rightarrow> 's \<Rightarrow> 's"
    and del :: "'a \<Rightarrow> 's \<Rightarrow> 's"
    and mem :: "'a \<Rightarrow> 's \<Rightarrow> bool"
    and mrg :: "'a list \<Rightarrow> 's \<Rightarrow> 's"
    and emp :: 's
  assumes invar_emp: "invar emp" and elems_emp: "elems emp = {}"
    and invar_ins: "invar s \<Longrightarrow> invar (ins x s)"
    and elems_ins: "invar s \<Longrightarrow> elems (ins x s) = insert x (elems s)"
    and invar_del: "invar s \<Longrightarrow> invar (del x s)"
    and elems_del: "invar s \<Longrightarrow> elems (del x s) = elems s - {x}"
    and mem_elems: "invar s \<Longrightarrow> mem x s \<longleftrightarrow> x \<in> elems s"
    and invar_mrg: "invar (mrg xs s)"
    and elems_mrg: "elems (mrg xs s) = elems s \<union> set xs"
begin

lemma mem_ins: "invar s \<Longrightarrow> mem y (ins x s) \<longleftrightarrow> y = x \<or> mem y s"
  by (auto simp: mem_elems invar_ins elems_ins)

lemma mem_del: "invar s \<Longrightarrow> mem y (del x s) \<longleftrightarrow> y \<noteq> x \<and> mem y s"
  by (auto simp: mem_elems invar_del elems_del)

lemma mem_mrg: "invar s \<Longrightarrow> mem y (mrg xs s) \<longleftrightarrow> y \<in> set xs \<or> mem y s"
  by (auto simp: mem_elems invar_mrg elems_mrg)

lemma mrg_as_ins: "invar s \<Longrightarrow> elems (fold ins xs s) = elems (mrg xs s) \<and> invar (fold ins xs s)"
  by (induction xs arbitrary: s) (auto simp: elems_mrg elems_ins invar_ins)

end

interpretation flat_set_less: ordered_set
  "sorted_wrt ((<) :: 'a::linorder \<Rightarrow> 'a \<Rightarrow> bool)" set
  "\<lambda>x xs. fst (flat_set_insert (<) x xs)" "\<lambda>x xs. fst (flat_set_remove (<) x xs)"
  "flat_multi_set_contains (<)" "flat_set_merge (<)" "[]"
proof (unfold_locales, goal_cases)
  case (3 xs x)
  then show ?case by (rule less_cmp.set_insert_sorted)
next
  case (4 xs x)
  show ?case by (cases rule: less_cmp.set_insert_cases [OF 4, of x]) auto
next
  case (5 xs x)
  then show ?case
    by (simp add: flat_set_remove_def less_cmp.removeOne_filter sorted_wrt_filter)
next
  case (6 xs x)
  then show ?case
    by (auto simp: flat_set_remove_def less_cmp.removeOne_filter)
next
  case (7 xs x)
  then show ?case
    using less_cmp.contains_iff [OF less_cmp.strict_imp_sorted, of xs x] by auto
next
  case (8 ys xs)
  show ?case by (rule less_cmp.set_merge_sorted)
next
  case (9 ys xs)
  show ?case
    using less_cmp.set_merge_covers [where items = ys and xs = xs]
    by (auto simp: not_less) (metis antisym)+
qed simp_all

section \<open>Properties\<close>

text \<open>
  C5. On a flat set in order, insertion, removal, merge and construction keep the order and act on
  the elements as the set operations do; \<open>insert\<close> reports whether the value was new, \<open>remove\<close> whether
  it was there, and \<open>find\<close> and \<open>contains\<close> find exactly the elements.
\<close>

theorem flat_set_refines_set:
  fixes xs :: "'a::linorder list"
  assumes srt: "sorted_wrt (<) xs"
  shows "sorted_wrt (<) (fst (flat_set_insert (<) x xs))
      \<and> set (fst (flat_set_insert (<) x xs)) = insert x (set xs)
      \<and> snd (snd (flat_set_insert (<) x xs)) = (x \<notin> set xs)
    \<and> sorted_wrt (<) (fst (flat_set_remove (<) x xs))
      \<and> set (fst (flat_set_remove (<) x xs)) = set xs - {x}
      \<and> snd (flat_set_remove (<) x xs) = (x \<in> set xs)
    \<and> sorted_wrt (<) (flat_set_merge (<) ys xs) \<and> set (flat_set_merge (<) ys xs) = set xs \<union> set ys
    \<and> flat_multi_set_contains (<) x xs = (x \<in> set xs)
    \<and> (if x \<in> set xs then xs ! flat_set_find (<) x xs = x \<and> flat_set_find (<) x xs < length xs
       else flat_set_find (<) x xs = length xs)"
proof -
  note le = less_cmp.strict_imp_sorted [OF srt]
  have "snd (snd (flat_set_insert (<) x xs)) = (x \<notin> set xs)"
    by (cases rule: less_cmp.set_insert_cases [OF srt, of x]) auto
  moreover have "snd (flat_set_remove (<) x xs) = (x \<in> set xs)"
    by (auto simp: flat_set_remove_def less_cmp.removeOne_filter [OF srt] not_less intro: antisym)
  moreover have "xs ! flat_set_find (<) x xs = x \<and> flat_set_find (<) x xs < length xs" if "x \<in> set xs"
    using less_cmp.findFirst_found [OF le that, of x]
    by (auto simp: flat_set_find_def not_less intro: antisym)
  moreover have "flat_set_find (<) x xs = length xs" if "x \<notin> set xs"
    unfolding flat_set_find_def
    using that by (intro less_cmp.findFirst_missing [OF le]) (metis linorder_less_linear)
  ultimately show ?thesis
    using flat_set_less.invar_ins [OF srt] flat_set_less.elems_ins [OF srt]
      flat_set_less.invar_del [OF srt] flat_set_less.elems_del [OF srt]
      flat_set_less.invar_mrg [of ys xs] flat_set_less.elems_mrg [of ys xs]
      flat_set_less.mem_elems [OF srt] by simp
qed

theorem flat_set_refines_set_witness:
  "set (fst (flat_set_insert (<) 4 [1, 3, 7 :: nat])) = {1, 3, 4, 7}"
  using flat_set_refines_set [of "[1, 3, 7 :: nat]" 4 "[]"] by auto

text \<open>
  On a flat multiset in order, under any strict weak order: \<open>insert\<close> adds exactly the value and
  keeps the order, \<open>removeAll\<close> drops exactly the elements equivalent to the value and returns their
  number, and \<open>count\<close> is that number.
\<close>

theorem flat_multi_set_laws:
  assumes "compare_order cmp" and srt: "sorted_wrt (\<lambda>a b. \<not> cmp b a) xs"
  shows "sorted_wrt (\<lambda>a b. \<not> cmp b a) (fst (flat_multi_set_insert cmp v xs))
    \<and> mset (fst (flat_multi_set_insert cmp v xs)) = add_mset v (mset xs)
    \<and> flat_multi_set_removeAll cmp v xs
      = (filter (\<lambda>x. cmp v x \<or> cmp x v) xs, flat_multi_set_count cmp v xs)
    \<and> flat_multi_set_count cmp v xs = length (filter (\<lambda>x. \<not> cmp v x \<and> \<not> cmp x v) xs)"
proof -
  note laws = compare_order.multi_insert_sorted [OF assms] compare_order.multi_insert_mset [OF assms(1)]
    compare_order.removeAll_filter [OF assms] compare_order.multi_count [OF assms]
  show ?thesis using laws by simp
qed

theorem flat_multi_set_laws_witness:
  "flat_multi_set_removeAll (>) 5 [9, 5, 5, 2 :: nat] = ([9, 2], 2)"
  using flat_multi_set_laws [OF greater_cmp.compare_order_axioms, of "[9, 5, 5, 2 :: nat]" 5] by simp

text \<open>
  \<open>modify\<close> keeps a flat set in order, with just the one element replaced, whenever the new value
  still belongs between the neighbours of the old one.
\<close>

theorem flat_set_modify_in_order:
  fixes xs :: "'a::linorder list"
  assumes "sorted_wrt (<) xs" "which < length xs"
    and "Suc which < length xs \<longrightarrow> action (xs ! which) < xs ! Suc which"
    and "0 < which \<longrightarrow> xs ! (which - 1) < action (xs ! which)"
  shows "flat_set_modify (<) which action xs = xs[which := action (xs ! which)]
    \<and> sorted_wrt (<) (flat_set_modify (<) which action xs)"
proof -
  have eq: "flat_set_modify (<) which action xs = xs[which := action (xs ! which)]"
    using assms by (intro less_cmp.modify_in_place) auto
  let ?ys = "take which xs" and ?v = "action (xs ! which)" and ?zs = "drop (Suc which) xs"
  have split: "xs = ?ys @ xs ! which # ?zs" by (rule id_take_nth_drop [OF assms(2)])
  have srt: "sorted_wrt (<) (?ys @ xs ! which # ?zs)" using assms(1) split by metis
  have "y < ?v" if y: "y \<in> set ?ys" for y
  proof -
    obtain j where j: "j < which" "y = xs ! j"
      using y assms(2) by (auto simp: in_set_conv_nth)
    then have "xs ! j \<le> xs ! (which - 1)"
      using sorted_wrt_nth_less [OF assms(1), of j "which - 1"] assms(2)
      by (cases "j = which - 1") (simp_all add: less_imp_le)
    with j assms(4) show ?thesis by auto
  qed
  moreover have "?v < z" if z: "z \<in> set ?zs" for z
  proof -
    obtain j where "j < length ?zs" "z = ?zs ! j" using z by (auto simp: in_set_conv_nth)
    then have j: "Suc which + j < length xs" "z = xs ! (Suc which + j)" by auto
    then have "xs ! Suc which \<le> z"
      using sorted_wrt_nth_less [OF assms(1), of "Suc which" "Suc which + j"] by (cases j) auto
    with j assms(3) show ?thesis by auto
  qed
  moreover have "xs[which := ?v] = ?ys @ ?v # ?zs" by (rule upd_conv_take_nth_drop [OF assms(2)])
  ultimately show ?thesis using eq srt by (auto simp: sorted_wrt_append)
qed

theorem flat_set_modify_in_order_witness:
  "flat_set_modify (<) 1 (\<lambda>x. x + 2) [1, 3, 7 :: nat] = [1, 5, 7]"
  using flat_set_modify_in_order [of "[1, 3, 7 :: nat]" 1 "\<lambda>x. x + 2"] by simp

text \<open>
  When the new value belongs further away, \<open>modify\<close> does not restore the order: both loops keep
  comparing with and swapping into the position they were given, instead of following the element.
\<close>

theorem flat_set_modify_loses_order:
  "flat_set_modify (<) 0 (\<lambda>_. 5) [1, 2, 3, 7 :: nat] = [2, 5, 3, 7]
    \<and> \<not> sorted_wrt (<) (flat_set_modify (<) 0 (\<lambda>_. 5) [1, 2, 3, 7 :: nat])
    \<and> \<not> flat_multi_set_contains (<) 3 (flat_set_modify (<) 0 (\<lambda>_. 5) [1, 2, 3, 7 :: nat])"
  by code_simp

end
