(* ===== verification/FlatMap.thy ===== *)
theory FlatMap
  imports FlatSet
begin

text \<open>
  \<open>lib_base/base/flat_map.h\<close>: \<open>base::flat_multi_map\<close> and \<open>base::flat_map\<close>, vectors of key-value
  pairs sorted by key. The layout follows \<open>flat_set.h\<close>; the comparison argument orders the keys.
\<close>

section \<open>flat_multi_map\<close>

definition flat_multi_map_construct ::
    "('k \<Rightarrow> 'k \<Rightarrow> bool) \<Rightarrow> ('k \<times> 'v) list \<Rightarrow> ('k \<times> 'v) list" where
  "flat_multi_map_construct cmp items = std_sort (\<lambda>a b. cmp (fst a) (fst b)) items"

definition flat_multi_map_insert ::
    "('k \<Rightarrow> 'k \<Rightarrow> bool) \<Rightarrow> 'k \<times> 'v \<Rightarrow> ('k \<times> 'v) list \<Rightarrow> ('k \<times> 'v) list \<times> nat" where
  "flat_multi_map_insert cmp value m =
     (if m = [] \<or> \<not> cmp (fst value) (fst (last m)) then (m @ [value], length m)
      else let where = upper_bound (\<lambda>k p. cmp k (fst p)) m (fst value)
        in (insert_at where value m, where))"

definition key_out_of_span :: "('k \<Rightarrow> 'k \<Rightarrow> bool) \<Rightarrow> 'k \<Rightarrow> ('k \<times> 'v) list \<Rightarrow> bool" where
  "key_out_of_span cmp key m \<longleftrightarrow> m = [] \<or> cmp key (fst (hd m)) \<or> cmp (fst (last m)) key"

definition key_lower_bound :: "('k \<Rightarrow> 'k \<Rightarrow> bool) \<Rightarrow> ('k \<times> 'v) list \<Rightarrow> 'k \<Rightarrow> nat" where
  "key_lower_bound cmp m key = lower_bound (\<lambda>p k. cmp (fst p) k) m key"

definition key_upper_bound :: "('k \<Rightarrow> 'k \<Rightarrow> bool) \<Rightarrow> ('k \<times> 'v) list \<Rightarrow> 'k \<Rightarrow> nat" where
  "key_upper_bound cmp m key = upper_bound (\<lambda>k p. cmp k (fst p)) m key"

definition flat_multi_map_removeOne ::
    "('k \<Rightarrow> 'k \<Rightarrow> bool) \<Rightarrow> 'k \<Rightarrow> ('k \<times> 'v) list \<Rightarrow> ('k \<times> 'v) list \<times> bool" where
  "flat_multi_map_removeOne cmp key m =
     (if key_out_of_span cmp key m then (m, False)
      else let where = key_lower_bound cmp m key in
        if cmp key (fst (m ! where)) then (m, False) else (erase_at where m, True))"

definition flat_multi_map_removeAll ::
    "('k \<Rightarrow> 'k \<Rightarrow> bool) \<Rightarrow> 'k \<Rightarrow> ('k \<times> 'v) list \<Rightarrow> ('k \<times> 'v) list \<times> nat" where
  "flat_multi_map_removeAll cmp key m =
     (if key_out_of_span cmp key m then (m, 0)
      else let first = key_lower_bound cmp m key; second = key_upper_bound cmp m key in
        if first = second then (m, 0) else (erase_range first second m, second - first))"

text \<open>The loop of \<open>remove(key, value)\<close>, from the first pair with that key on.\<close>

function remove_pair_from ::
    "('k \<Rightarrow> 'k \<Rightarrow> bool) \<Rightarrow> 'k \<Rightarrow> 'v \<Rightarrow> nat \<Rightarrow> ('k \<times> 'v) list \<Rightarrow> ('k \<times> 'v) list \<times> bool" where
  "remove_pair_from cmp key val where m =
     (if where < length m \<and> \<not> cmp key (fst (m ! where))
      then if snd (m ! where) = val then (erase_at where m, True)
        else remove_pair_from cmp key val (Suc where) m
      else (m, False))"
  by pat_completeness auto
termination
  by (relation "measure (\<lambda>(cmp, key, val, i, m). length m - i)") auto

declare remove_pair_from.simps [simp del]

definition flat_multi_map_remove ::
    "('k \<Rightarrow> 'k \<Rightarrow> bool) \<Rightarrow> 'k \<Rightarrow> 'v \<Rightarrow> ('k \<times> 'v) list \<Rightarrow> ('k \<times> 'v) list \<times> bool" where
  "flat_multi_map_remove cmp key val m =
     (if key_out_of_span cmp key m then (m, False)
      else remove_pair_from cmp key val (key_lower_bound cmp m key) m)"

definition flat_multi_map_findFirst ::
    "('k \<Rightarrow> 'k \<Rightarrow> bool) \<Rightarrow> 'k \<Rightarrow> ('k \<times> 'v) list \<Rightarrow> nat" where
  "flat_multi_map_findFirst cmp key m =
     (if key_out_of_span cmp key m then length m
      else let where = key_lower_bound cmp m key in
        if cmp key (fst (m ! where)) then length m else where)"

definition flat_multi_map_contains ::
    "('k \<Rightarrow> 'k \<Rightarrow> bool) \<Rightarrow> 'k \<Rightarrow> ('k \<times> 'v) list \<Rightarrow> bool" where
  "flat_multi_map_contains cmp key m \<longleftrightarrow> flat_multi_map_findFirst cmp key m \<noteq> length m"

definition flat_multi_map_count ::
    "('k \<Rightarrow> 'k \<Rightarrow> bool) \<Rightarrow> 'k \<Rightarrow> ('k \<times> 'v) list \<Rightarrow> nat" where
  "flat_multi_map_count cmp key m =
     (if key_out_of_span cmp key m then 0
      else key_upper_bound cmp m key - key_lower_bound cmp m key)"

section \<open>flat_map\<close>

definition flat_map_finalize ::
    "('k \<Rightarrow> 'k \<Rightarrow> bool) \<Rightarrow> ('k \<times> 'v) list \<Rightarrow> ('k \<times> 'v) list" where
  "flat_map_finalize cmp m = std_unique (\<lambda>a b. \<not> cmp (fst a) (fst b)) m"

definition flat_map_construct ::
    "('k \<Rightarrow> 'k \<Rightarrow> bool) \<Rightarrow> ('k \<times> 'v) list \<Rightarrow> ('k \<times> 'v) list" where
  "flat_map_construct cmp items = flat_map_finalize cmp (flat_multi_map_construct cmp items)"

definition flat_map_insert ::
    "('k \<Rightarrow> 'k \<Rightarrow> bool) \<Rightarrow> 'k \<times> 'v \<Rightarrow> ('k \<times> 'v) list \<Rightarrow> ('k \<times> 'v) list \<times> nat \<times> bool" where
  "flat_map_insert cmp value m =
     (if m = [] \<or> cmp (fst (last m)) (fst value) then (m @ [value], length m, True)
      else let where = key_lower_bound cmp m (fst value) in
        if cmp (fst value) (fst (m ! where)) then (insert_at where value m, where, True)
        else (m, where, False))"

definition flat_map_emplace ::
    "('k \<Rightarrow> 'k \<Rightarrow> bool) \<Rightarrow> 'k \<Rightarrow> 'v \<Rightarrow> ('k \<times> 'v) list \<Rightarrow> ('k \<times> 'v) list \<times> nat \<times> bool" where
  "flat_map_emplace cmp key val m = flat_map_insert cmp (key, val) m"

definition flat_map_insert_or_assign ::
    "('k \<Rightarrow> 'k \<Rightarrow> bool) \<Rightarrow> 'k \<Rightarrow> 'v \<Rightarrow> ('k \<times> 'v) list \<Rightarrow> ('k \<times> 'v) list \<times> nat \<times> bool" where
  "flat_map_insert_or_assign cmp key val m =
     (if m = [] \<or> cmp (fst (last m)) key then (m @ [(key, val)], length m, True)
      else let where = key_lower_bound cmp m key in
        if cmp key (fst (m ! where)) then (insert_at where (key, val) m, where, True)
        else (m[where := (fst (m ! where), val)], where, False))"

definition flat_map_try_emplace ::
    "('k \<Rightarrow> 'k \<Rightarrow> bool) \<Rightarrow> 'k \<Rightarrow> 'v \<Rightarrow> ('k \<times> 'v) list \<Rightarrow> ('k \<times> 'v) list \<times> nat \<times> bool" where
  "flat_map_try_emplace cmp key val m =
     (if m = [] \<or> cmp (fst (last m)) key then (m @ [(key, val)], length m, True)
      else let where = key_lower_bound cmp m key in
        if cmp key (fst (m ! where)) then (insert_at where (key, val) m, where, True)
        else (m, where, False))"

definition flat_map_remove ::
    "('k \<Rightarrow> 'k \<Rightarrow> bool) \<Rightarrow> 'k \<Rightarrow> ('k \<times> 'v) list \<Rightarrow> ('k \<times> 'v) list \<times> bool" where
  "flat_map_remove cmp key m = flat_multi_map_removeOne cmp key m"

definition flat_map_find :: "('k \<Rightarrow> 'k \<Rightarrow> bool) \<Rightarrow> 'k \<Rightarrow> ('k \<times> 'v) list \<Rightarrow> nat" where
  "flat_map_find cmp key m = flat_multi_map_findFirst cmp key m"

text \<open>\<open>operator[]\<close> returns the position of the value it refers to, \<open>dflt\<close> stands for \<open>Type()\<close>.\<close>

definition flat_map_subscript ::
    "('k \<Rightarrow> 'k \<Rightarrow> bool) \<Rightarrow> 'v \<Rightarrow> 'k \<Rightarrow> ('k \<times> 'v) list \<Rightarrow> ('k \<times> 'v) list \<times> nat" where
  "flat_map_subscript cmp dflt key m =
     (if m = [] \<or> cmp (fst (last m)) key then (m @ [(key, dflt)], length m)
      else let where = key_lower_bound cmp m key in
        if cmp key (fst (m ! where)) then (insert_at where (key, dflt) m, where)
        else (m, where))"

definition flat_map_take ::
    "('k \<Rightarrow> 'k \<Rightarrow> bool) \<Rightarrow> 'k \<Rightarrow> ('k \<times> 'v) list \<Rightarrow> ('k \<times> 'v) list \<times> 'v option" where
  "flat_map_take cmp key m =
     (let it = flat_map_find cmp key m in
      if it = length m then (m, None) else (erase_at it m, Some (snd (m ! it))))"

text \<open>What a lookup followed by a dereference yields.\<close>

definition flat_map_get :: "('k \<Rightarrow> 'k \<Rightarrow> bool) \<Rightarrow> 'k \<Rightarrow> ('k \<times> 'v) list \<Rightarrow> 'v option" where
  "flat_map_get cmp key m =
     (let it = flat_map_find cmp key m in if it = length m then None else Some (snd (m ! it)))"

section \<open>Reduction to the set operations\<close>

text \<open>
  A flat map is a flat set of pairs under the comparison of the keys; the laws of \<open>flat_set\<close> carry
  over through these equations.
\<close>

abbreviation key_cmp :: "('k \<Rightarrow> 'k \<Rightarrow> bool) \<Rightarrow> 'k \<times> 'v \<Rightarrow> 'k \<times> 'v \<Rightarrow> bool" where
  "key_cmp cmp \<equiv> \<lambda>a b. cmp (fst a) (fst b)"

lemma key_out_of_span_set: "key_out_of_span cmp key m = out_of_span (key_cmp cmp) (key, val) m"
  by (simp add: key_out_of_span_def out_of_span_def)

lemma key_lower_bound_set: "key_lower_bound cmp m key = lower_bound (key_cmp cmp) m (key, val)"
  by (simp add: key_lower_bound_def lower_bound_def)

lemma key_upper_bound_set: "key_upper_bound cmp m key = upper_bound (key_cmp cmp) m (key, val)"
  by (simp add: key_upper_bound_def upper_bound_def)

lemma map_removeOne_set:
  "flat_multi_map_removeOne cmp key m = flat_multi_set_removeOne (key_cmp cmp) (key, val) m"
  by (simp add: flat_multi_map_removeOne_def flat_multi_set_removeOne_def
      key_out_of_span_set [of _ _ _ val] key_lower_bound_set [of _ _ _ val])

lemma map_removeAll_set:
  "flat_multi_map_removeAll cmp key m = flat_multi_set_removeAll (key_cmp cmp) (key, val) m"
  by (simp add: flat_multi_map_removeAll_def flat_multi_set_removeAll_def
      key_out_of_span_set [of _ _ _ val] key_lower_bound_set [of _ _ _ val]
      key_upper_bound_set [of _ _ _ val])

lemma map_findFirst_set:
  "flat_multi_map_findFirst cmp key m = flat_multi_set_findFirst (key_cmp cmp) (key, val) m"
  by (simp add: flat_multi_map_findFirst_def flat_multi_set_findFirst_def
      key_out_of_span_set [of _ _ _ val] key_lower_bound_set [of _ _ _ val])

lemma map_insert_set: "flat_map_insert cmp p m = flat_set_insert (key_cmp cmp) p m"
  by (cases p) (simp add: flat_map_insert_def flat_set_insert_def key_lower_bound_def lower_bound_def)

lemma map_try_emplace_insert: "flat_map_try_emplace cmp k v m = flat_map_insert cmp (k, v) m"
  by (simp add: flat_map_try_emplace_def flat_map_insert_def)

lemma map_subscript_insert:
  "flat_map_subscript cmp d k m = (let (m', i, b) = flat_map_insert cmp (k, d) m in (m', i))"
  by (simp add: flat_map_subscript_def flat_map_insert_def Let_def)

lemma map_construct_set: "flat_map_construct cmp items = flat_set_construct (key_cmp cmp) items"
  by (simp add: flat_map_construct_def flat_set_construct_def flat_map_finalize_def
      flat_set_finalize_def flat_multi_map_construct_def flat_multi_set_construct_def)

lemma map_of_middle:
  "k \<notin> fst ` set ys \<Longrightarrow> map_of (ys @ (k, v) # zs) = (map_of (ys @ zs))(k \<mapsto> v)"
  by (induction ys) (auto simp: fun_eq_iff)

lemma map_of_filter_key: "map_of (filter (\<lambda>p. fst p \<noteq> k) m) = (map_of m)(k := None)"
  by (induction m) (auto simp: fun_eq_iff)

text \<open>The map invariant: keys strictly increasing.\<close>

abbreviation key_sorted :: "('k \<Rightarrow> 'k \<Rightarrow> bool) \<Rightarrow> ('k \<times> 'v) list \<Rightarrow> bool" where
  "key_sorted cmp m \<equiv> sorted_wrt (key_cmp cmp) m"

locale compare_total = compare_order +
  assumes total: "\<not> cmp a b \<Longrightarrow> \<not> cmp b a \<Longrightarrow> a = b"
begin

lemma keys_order: "compare_order (key_cmp cmp)"
  by (rule compare_order_proj) (rule compare_order_axioms)

lemma key_sorted_distinct: "key_sorted cmp m \<Longrightarrow> distinct (map fst m)"
  by (induction m) (auto simp: irrefl)

lemma insert_cases:
  assumes "key_sorted cmp m"
  obtains (fresh) ys zs where "m = ys @ zs" "k \<notin> dom (map_of m)" "k \<notin> fst ` set ys"
      "flat_map_insert cmp (k, v) m = (ys @ (k, v) # zs, length ys, True)"
  | (present) ys w zs where "m = ys @ (k, w) # zs" "k \<notin> fst ` set ys"
      "flat_map_insert cmp (k, v) m = (m, length ys, False)"
proof (cases rule: compare_order.set_insert_cases [OF keys_order assms, where v = "(k, v)"])
  case (1 ys zs)
  then have "k \<notin> fst ` set ys" "k \<notin> fst ` set zs" using irrefl by auto
  with 1 show thesis by (intro fresh [of ys zs]) (auto simp: map_insert_set dom_map_of_conv_image_fst)
next
  case (2 ys z zs)
  then have "fst z = k" using total [of "fst z" k] by simp
  moreover have "k \<notin> fst ` set ys"
    using 2(1) \<open>fst z = k\<close> key_sorted_distinct [OF assms] by auto
  ultimately show thesis
    using 2 by (intro present [of ys "snd z" zs]) (auto simp: map_insert_set)
qed

lemma insert_sorted:
  "key_sorted cmp m \<Longrightarrow> key_sorted cmp (fst (flat_map_insert cmp p m))"
  unfolding map_insert_set by (rule compare_order.set_insert_sorted [OF keys_order])

lemma insert_lookup:
  assumes "key_sorted cmp m"
  shows "map_of (fst (flat_map_insert cmp (k, v) m)) =
    (if k \<in> dom (map_of m) then map_of m else (map_of m)(k \<mapsto> v))"
proof (cases rule: insert_cases [OF assms, of k v])
  case (1 ys zs)
  then show ?thesis using map_of_middle [of k ys v zs] by simp
next
  case (2 ys w zs)
  then show ?thesis using map_of_middle [of k ys w zs] by simp
qed

lemma lower_bound_present:
  assumes "key_sorted cmp (ys @ (k, w) # zs)"
  shows "key_lower_bound cmp (ys @ (k, w) # zs) k = length ys"
proof -
  have "\<forall>y \<in> set ys. cmp (fst y) k" using assms by (auto simp: sorted_wrt_append)
  then show ?thesis
    by (auto simp: key_lower_bound_def lower_bound_def irrefl takeWhile_append)
qed

lemma find_get:
  assumes "key_sorted cmp m"
  shows "flat_map_get cmp k m = map_of m k"
proof (cases "map_of m k")
  case None
  then have "\<forall>p \<in> set m. cmp k (fst p) \<or> cmp (fst p) k"
    using total [of k] by (auto simp: map_of_eq_None_iff image_iff)
  then have "flat_map_find cmp k m = length m"
    using compare_order.findFirst_missing
      [OF keys_order compare_order.strict_imp_sorted [OF keys_order assms], of "(k, undefined)"]
    by (simp add: flat_map_find_def map_findFirst_set [of _ _ _ undefined])
  with None show ?thesis by (simp add: flat_map_get_def)
next
  case (Some w)
  then obtain ys zs where m: "m = ys @ (k, w) # zs"
    using map_of_SomeD split_list by metis
  have i: "flat_map_find cmp k m = length ys"
    using compare_order.findFirst_found(1)
      [OF keys_order compare_order.strict_imp_sorted [OF keys_order assms], of "(k, w)" "(k, w)"]
      lower_bound_present [of ys k w zs] assms m irrefl
    by (simp add: flat_map_find_def map_findFirst_set [of _ _ _ w] key_lower_bound_set [of _ _ _ w])
  show ?thesis using i m Some by (simp add: flat_map_get_def)
qed

lemma remove_filter:
  assumes "key_sorted cmp m"
  shows "flat_map_remove cmp k m = (filter (\<lambda>p. fst p \<noteq> k) m, k \<in> dom (map_of m))"
proof -
  have eq: "cmp k (fst p) \<or> cmp (fst p) k \<longleftrightarrow> fst p \<noteq> k" for p :: "'a \<times> 'b"
    using total [of "fst p" k] irrefl by auto
  have eq2: "\<not> cmp k (fst p) \<and> \<not> cmp (fst p) k \<longleftrightarrow> fst p = k" for p :: "'a \<times> 'b"
    using eq by blast
  have "flat_map_remove cmp k m = (filter (\<lambda>p. cmp k (fst p) \<or> cmp (fst p) k) m,
      \<exists>p \<in> set m. \<not> cmp k (fst p) \<and> \<not> cmp (fst p) k)"
    using compare_order.removeOne_filter [OF keys_order assms, of "(k, undefined)"]
    by (simp add: flat_map_remove_def map_removeOne_set [of _ _ _ undefined])
  then show ?thesis
    unfolding eq eq2 by (auto simp: dom_map_of_conv_image_fst)
qed

lemma insert_or_assign_lookup:
  assumes "key_sorted cmp m"
  shows "key_sorted cmp (fst (flat_map_insert_or_assign cmp k v m))"
    "map_of (fst (flat_map_insert_or_assign cmp k v m)) = (map_of m)(k \<mapsto> v)"
proof -
  have *: "key_sorted cmp (fst (flat_map_insert_or_assign cmp k v m)) \<and>
    map_of (fst (flat_map_insert_or_assign cmp k v m)) = (map_of m)(k \<mapsto> v)"
  proof (cases rule: insert_cases [OF assms, of k v])
    case (1 ys zs)
    have "snd (snd (flat_map_insert cmp (k, v) m))" using 1 by simp
    then have "flat_map_insert_or_assign cmp k v m = flat_map_insert cmp (k, v) m"
      by (auto simp: flat_map_insert_or_assign_def flat_map_insert_def Let_def split: if_splits)
    with 1 show ?thesis
      using insert_sorted [OF assms, of "(k, v)"] insert_lookup [OF assms, of k v] by simp
  next
    case (2 ys w zs)
    have lb: "key_lower_bound cmp m k = length ys"
      using lower_bound_present assms 2(1) by simp
    have "flat_map_insert_or_assign cmp k v m = (ys @ (k, v) # zs, length ys, False)"
      using 2 lb by (auto simp: flat_map_insert_or_assign_def flat_map_insert_def Let_def irrefl split: if_splits)
    moreover have "key_sorted cmp (ys @ (k, v) # zs)"
      using assms 2(1) by (simp add: sorted_wrt_append)
    ultimately show ?thesis
      using 2 map_of_middle [of k ys _ zs] by simp
  qed
  then show "key_sorted cmp (fst (flat_map_insert_or_assign cmp k v m))"
    "map_of (fst (flat_map_insert_or_assign cmp k v m)) = (map_of m)(k \<mapsto> v)" by auto
qed

lemma take_spec:
  assumes "key_sorted cmp m"
  shows "flat_map_take cmp k m = (filter (\<lambda>p. fst p \<noteq> k) m, map_of m k)"
proof (cases "map_of m k")
  case None
  then have "flat_map_get cmp k m = None" by (simp add: find_get [OF assms])
  then have "flat_map_take cmp k m = (m, None)"
    by (auto simp: flat_map_get_def flat_map_take_def Let_def split: if_splits)
  moreover have "filter (\<lambda>p. fst p \<noteq> k) m = m"
    using None by (auto simp: map_of_eq_None_iff filter_id_conv)
  ultimately show ?thesis using None by simp
next
  case (Some w)
  have rm: "flat_map_remove cmp k m = (filter (\<lambda>p. fst p \<noteq> k) m, True)"
    using remove_filter [OF assms, of k] Some by auto
  have "flat_map_find cmp k m \<noteq> length m" "Some (snd (m ! flat_map_find cmp k m)) = Some w"
    using find_get [OF assms, of k] Some by (auto simp: flat_map_get_def Let_def split: if_splits)
  with rm Some show ?thesis
    by (auto simp: flat_map_take_def flat_map_remove_def flat_multi_map_removeOne_def flat_map_find_def
        flat_multi_map_findFirst_def Let_def split: if_splits)
qed

end

interpretation less_total: compare_total "(<) :: 'a::linorder \<Rightarrow> 'a \<Rightarrow> bool"
  by unfold_locales auto

interpretation greater_total: compare_total "(>) :: 'a::linorder \<Rightarrow> 'a \<Rightarrow> bool"
  by unfold_locales auto

section \<open>The map interface\<close>

text \<open>What the clients of a flat map rely on: lookups after each operation.\<close>

locale ordered_map =
  fixes invar :: "'m \<Rightarrow> bool"
    and lookup :: "'m \<Rightarrow> 'k \<Rightarrow> 'v option"
    and emplace :: "'k \<Rightarrow> 'v \<Rightarrow> 'm \<Rightarrow> 'm"
    and assign :: "'k \<Rightarrow> 'v \<Rightarrow> 'm \<Rightarrow> 'm"
    and delete :: "'k \<Rightarrow> 'm \<Rightarrow> 'm"
    and emp :: 'm
  assumes invar_emp: "invar emp" and lookup_emp: "lookup emp = Map.empty"
    and invar_emplace: "invar m \<Longrightarrow> invar (emplace k v m)"
    and lookup_emplace: "invar m \<Longrightarrow> lookup (emplace k v m) =
      (if lookup m k = None then (lookup m)(k \<mapsto> v) else lookup m)"
    and invar_assign: "invar m \<Longrightarrow> invar (assign k v m)"
    and lookup_assign: "invar m \<Longrightarrow> lookup (assign k v m) = (lookup m)(k \<mapsto> v)"
    and invar_delete: "invar m \<Longrightarrow> invar (delete k m)"
    and lookup_delete: "invar m \<Longrightarrow> lookup (delete k m) = (lookup m)(k := None)"
begin

lemma assign_all:
  "invar m \<Longrightarrow> invar (fold (\<lambda>(k, v). assign k v) kvs m)
    \<and> lookup (fold (\<lambda>(k, v). assign k v) kvs m) = lookup m ++ map_of (rev kvs)"
  by (induction kvs arbitrary: m) (auto simp: invar_assign lookup_assign)

lemma delete_assign: "invar m \<Longrightarrow> lookup m k = None \<Longrightarrow> lookup (delete k (assign k v m)) = lookup m"
  by (auto simp: invar_assign lookup_delete lookup_assign)

end

lemma flat_map_ordered:
  assumes "compare_total cmp"
  shows "ordered_map (key_sorted cmp) (\<lambda>m k. flat_map_get cmp k m)
    (\<lambda>k v m. fst (flat_map_emplace cmp k v m))
    (\<lambda>k v m. fst (flat_map_insert_or_assign cmp k v m))
    (\<lambda>k m. fst (flat_map_remove cmp k m)) []"
proof -
  note get = compare_total.find_get [OF assms]
  have emplace: "key_sorted cmp (fst (flat_map_emplace cmp k v m))"
    "map_of (fst (flat_map_emplace cmp k v m)) =
      (if map_of m k = None then (map_of m)(k \<mapsto> v) else map_of m)"
    if "key_sorted cmp m" for k v m
    using compare_total.insert_sorted [OF assms that] compare_total.insert_lookup [OF assms that]
    by (auto simp: flat_map_emplace_def domIff)
  have delete: "key_sorted cmp (fst (flat_map_remove cmp k m))"
    "map_of (fst (flat_map_remove cmp k m)) = (map_of m)(k := None)"
    if "key_sorted cmp m" for k m
    using that by (simp_all add: compare_total.remove_filter [OF assms that] sorted_wrt_filter
        map_of_filter_key)
  note assign = compare_total.insert_or_assign_lookup [OF assms]
  show ?thesis
    by unfold_locales (auto simp: get emplace delete assign fun_eq_iff)
qed

interpretation less_map: ordered_map "key_sorted ((<) :: 'k::linorder \<Rightarrow> 'k \<Rightarrow> bool)"
  "\<lambda>m k. flat_map_get (<) k m" "\<lambda>k v m. fst (flat_map_emplace (<) k v m)"
  "\<lambda>k v m. fst (flat_map_insert_or_assign (<) k v m)" "\<lambda>k m. fst (flat_map_remove (<) k m)" "[]"
  by (rule flat_map_ordered [OF less_total.compare_total_axioms])

section \<open>Properties\<close>

text \<open>
  C6. On a flat map with keys in order, every operation keeps them in order and acts as the map
  operation of its name: \<open>emplace\<close> never overwrites, \<open>insert_or_assign\<close> always does, \<open>remove\<close> and
  \<open>take\<close> delete (and \<open>take\<close> returns the old value), and a lookup returns what the map holds.
\<close>

theorem flat_map_refines_map:
  fixes m :: "('k::linorder \<times> 'v) list"
  assumes srt: "key_sorted (<) m"
  shows "key_sorted (<) (fst (flat_map_emplace (<) k v m))
      \<and> map_of (fst (flat_map_emplace (<) k v m)) = map_of m ++ (if k \<in> dom (map_of m) then Map.empty else [k \<mapsto> v])
    \<and> key_sorted (<) (fst (flat_map_insert_or_assign (<) k v m))
      \<and> map_of (fst (flat_map_insert_or_assign (<) k v m)) = (map_of m)(k \<mapsto> v)
    \<and> key_sorted (<) (fst (flat_map_remove (<) k m))
      \<and> map_of (fst (flat_map_remove (<) k m)) = (map_of m)(k := None)
    \<and> map_of (fst (flat_map_take (<) k m)) = (map_of m)(k := None)
      \<and> snd (flat_map_take (<) k m) = map_of m k
    \<and> flat_map_get (<) k m = map_of m k"
proof -
  note laws = less_total.insert_sorted [OF srt] less_total.insert_lookup [OF srt]
    less_total.insert_or_assign_lookup [OF srt] less_total.remove_filter [OF srt]
    less_total.take_spec [OF srt] less_total.find_get [OF srt]
  show ?thesis
    using srt laws by (simp add: flat_map_emplace_def sorted_wrt_filter map_of_filter_key)
qed

theorem flat_map_refines_map_witness:
  "map_of (fst (flat_map_insert_or_assign (<) 3 ''new'' [(1, ''a''), (3 :: nat, ''old'')])) 3 = Some ''new''"
  using flat_map_refines_map [of "[(1, ''a''), (3 :: nat, ''old'')]" 3 "''new''"] by simp

end
