(* ===== verification/Ids.thy ===== *)
theory Ids
  imports Prelude
begin

text \<open>
  Identifiers: \<open>data/data_peer_id.h\<close>, \<open>data/data_peer_id.cpp\<close>, \<open>data/data_msg_id.h\<close> and the
  message positions of \<open>data/data_messages.h\<close>. A \<open>PeerId\<close> packs the kind of peer and its bare id
  into one 64-bit value; a \<open>MsgId\<close> is a signed 64-bit value, here an \<^typ>\<open>int\<close> (none of the
  arithmetic on message ids below leaves the 64-bit range). Full ids and positions carry the
  comparison operators of the source as their linear orders.
\<close>

section \<open>Peer ids\<close>

datatype PeerId = PeerId (peer_value: u64)

definition kReservedBit :: u64 where "kReservedBit = 0x80"
definition kChatTypeMask :: u64 where "kChatTypeMask = 0xFFFFFFFFFFFF"

definition UserShift :: u64 where "UserShift = 0"
definition ChatShift :: u64 where "ChatShift = 1"
definition ChannelShift :: u64 where "ChannelShift = 2"
definition FakeChatShift :: u64 where "FakeChatShift = 0x7F"

definition peerFrom :: "u64 \<Rightarrow> u64 \<Rightarrow> PeerId" where
  "peerFrom shift bare = PeerId (bare OR push_bit 48 shift)"

definition peerIs :: "u64 \<Rightarrow> PeerId \<Rightarrow> bool" where
  "peerIs shift p \<longleftrightarrow> drop_bit 48 (peer_value p) AND 0xFF = shift"

definition peerTo :: "u64 \<Rightarrow> PeerId \<Rightarrow> u64" where
  "peerTo shift p = (if peerIs shift p then peer_value p AND kChatTypeMask else 0)"

definition peerFromUser :: "u64 \<Rightarrow> PeerId" where "peerFromUser = peerFrom UserShift"
definition peerFromChat :: "u64 \<Rightarrow> PeerId" where "peerFromChat = peerFrom ChatShift"
definition peerFromChannel :: "u64 \<Rightarrow> PeerId" where "peerFromChannel = peerFrom ChannelShift"

definition peerIsUser :: "PeerId \<Rightarrow> bool" where "peerIsUser = peerIs UserShift"
definition peerIsChat :: "PeerId \<Rightarrow> bool" where "peerIsChat = peerIs ChatShift"
definition peerIsChannel :: "PeerId \<Rightarrow> bool" where "peerIsChannel = peerIs ChannelShift"

definition peerToUser :: "PeerId \<Rightarrow> u64" where "peerToUser = peerTo UserShift"
definition peerToChat :: "PeerId \<Rightarrow> u64" where "peerToChat = peerTo ChatShift"
definition peerToChannel :: "PeerId \<Rightarrow> u64" where "peerToChannel = peerTo ChannelShift"

definition peerToBareMTPInt :: "PeerId \<Rightarrow> u64" where
  "peerToBareMTPInt p = peer_value p AND kChatTypeMask"

datatype MTPPeer = MTPDpeerUser u64 | MTPDpeerChat u64 | MTPDpeerChannel u64

fun peerFromMTP :: "MTPPeer \<Rightarrow> PeerId" where
  "peerFromMTP (MTPDpeerUser user_id) = peerFromUser user_id"
| "peerFromMTP (MTPDpeerChat chat_id) = peerFromChat chat_id"
| "peerFromMTP (MTPDpeerChannel channel_id) = peerFromChannel channel_id"

definition peerToMTP :: "PeerId \<Rightarrow> MTPPeer" where
  "peerToMTP p =
     (if peerIsUser p then MTPDpeerUser (peerToBareMTPInt p)
      else if peerIsChat p then MTPDpeerChat (peerToBareMTPInt p)
      else if peerIsChannel p then MTPDpeerChannel (peerToBareMTPInt p)
      else MTPDpeerUser 0)"

definition DeserializePeerId :: "u64 \<Rightarrow> PeerId" where
  "DeserializePeerId serialized =
     (let flag = push_bit 48 kReservedBit in
      if serialized AND flag \<noteq> 0 then PeerId (serialized AND NOT flag)
      else let ty = serialized AND 0xF00000000; bare = serialized AND 0xFFFFFFFF in
        if ty = 0x000000000 then peerFromUser bare
        else if ty = 0x100000000 then peerFromChat bare
        else if ty = 0x200000000 then peerFromChannel bare
        else if ty = 0xF00000000 then peerFrom FakeChatShift bare
        else PeerId 0)"

text \<open>\<open>None\<close> is the failed \<open>Expects\<close>.\<close>

definition SerializePeerId :: "PeerId \<Rightarrow> u64 option" where
  "SerializePeerId p =
     (if peer_value p AND push_bit 48 kReservedBit = 0
      then Some (peer_value p OR push_bit 48 kReservedBit) else None)"

lemmas peer_kind_defs = peerFromUser_def peerFromChat_def peerFromChannel_def
  peerIsUser_def peerIsChat_def peerIsChannel_def peerToUser_def peerToChat_def peerToChannel_def

lemmas peer_shift_defs = UserShift_def ChatShift_def ChannelShift_def FakeChatShift_def

lemma word_less_exp_bits:
  assumes "(x :: 'a::len word) < 2 ^ k" "k \<le> n"
  shows "\<not> bit x n"
proof -
  have "x AND mask k = x" by (rule less_mask_eq [OF assms(1)])
  then have "bit x n \<Longrightarrow> bit (mask k :: 'a word) n" by (metis bit_and_iff)
  with assms(2) show ?thesis by (auto simp: bit_simps)
qed

lemma bare_id_bits: "(x :: u64) < 0x1000000000000 \<Longrightarrow> 48 \<le> n \<Longrightarrow> \<not> bit x n"
  using word_less_exp_bits [of x 48 n] by simp

lemma shift_bits: "(s :: u64) < 0x100 \<Longrightarrow> 8 \<le> n \<Longrightarrow> \<not> bit s n"
  using word_less_exp_bits [of s 8 n] by simp

lemma mask_FF: "(0xFF :: u64) = mask 8"
  by (simp add: mask_eq_exp_minus_1)

lemma mask_48: "kChatTypeMask = mask 48"
  by (simp add: kChatTypeMask_def mask_eq_exp_minus_1)

lemma peerFrom_kind:
  assumes "(bare :: u64) < 0x1000000000000" "s < 0x100"
  shows "drop_bit 48 (bare OR push_bit 48 s) AND 0xFF = s"
  unfolding mask_FF
proof (rule bit_word_eqI)
  fix n assume "n < LENGTH(64)"
  then show "bit (drop_bit 48 (bare OR push_bit 48 s) AND mask 8) n = bit s n"
    using bare_id_bits [OF assms(1), of "48 + n"] shift_bits [OF assms(2), of n]
    by (cases "n < 8") (auto simp: bit_simps not_less)
qed

lemma peerFrom_bare:
  assumes "(bare :: u64) < 0x1000000000000"
  shows "(bare OR push_bit 48 s) AND kChatTypeMask = bare"
  unfolding mask_48
proof (rule bit_word_eqI)
  fix n assume "n < LENGTH(64)"
  then show "bit ((bare OR push_bit 48 s) AND mask 48) n = bit bare n"
    using bare_id_bits [OF assms, of n] by (cases "n < 48") (auto simp: bit_simps)
qed

lemma peerIs_peerFrom:
  "bare < 0x1000000000000 \<Longrightarrow> s < 0x100 \<Longrightarrow> peerIs s' (peerFrom s bare) \<longleftrightarrow> s = s'"
  unfolding peerIs_def peerFrom_def by (simp only: PeerId.sel peerFrom_kind)

lemma peerTo_peerFrom:
  "bare < 0x1000000000000 \<Longrightarrow> s < 0x100 \<Longrightarrow>
    peerTo s' (peerFrom s bare) = (if s = s' then bare else 0)"
  by (simp only: peerTo_def peerIs_peerFrom) (simp only: peerFrom_def PeerId.sel peerFrom_bare)

text \<open>The comparison operators of \<open>PeerId\<close> compare the packed values.\<close>

instantiation PeerId :: linorder
begin

definition less_PeerId :: "PeerId \<Rightarrow> PeerId \<Rightarrow> bool" where
  "less_PeerId a b \<longleftrightarrow> peer_value a < peer_value b"

definition less_eq_PeerId :: "PeerId \<Rightarrow> PeerId \<Rightarrow> bool" where
  "less_eq_PeerId a b \<longleftrightarrow> peer_value a \<le> peer_value b"

instance
  by standard (auto simp: less_PeerId_def less_eq_PeerId_def PeerId.expand)

end

section \<open>Message ids\<close>

type_synonym MsgId = int

definition ServerMaxMsgId :: MsgId where "ServerMaxMsgId = 2 ^ 56"
definition StartClientMsgId :: MsgId where "StartClientMsgId = 1 - 2 ^ 58"
definition EndClientMsgId :: MsgId where "EndClientMsgId = - (2 ^ 57)"

definition IsClientMsgId :: "MsgId \<Rightarrow> bool" where
  "IsClientMsgId i \<longleftrightarrow> StartClientMsgId \<le> i \<and> i < EndClientMsgId"

definition IsServerMsgId :: "MsgId \<Rightarrow> bool" where
  "IsServerMsgId i \<longleftrightarrow> 0 < i \<and> i < ServerMaxMsgId"

datatype FullMsgId = FullMsgId (fm_peer: PeerId) (fm_msg: MsgId)

instantiation FullMsgId :: linorder
begin

definition less_FullMsgId :: "FullMsgId \<Rightarrow> FullMsgId \<Rightarrow> bool" where
  "less_FullMsgId a b \<longleftrightarrow>
     (if fm_peer a < fm_peer b then True
      else if fm_peer a > fm_peer b then False
      else fm_msg a < fm_msg b)"

definition less_eq_FullMsgId :: "FullMsgId \<Rightarrow> FullMsgId \<Rightarrow> bool" where
  "less_eq_FullMsgId a b \<longleftrightarrow> \<not> (b < a)"

instance
  by standard
    (auto simp: less_FullMsgId_def less_eq_FullMsgId_def FullMsgId.expand split: if_splits)

end

datatype GlobalMsgId = GlobalMsgId (gm_itemId: FullMsgId) (gm_sessionUniqueId: u64)

instantiation GlobalMsgId :: linorder
begin

definition less_GlobalMsgId :: "GlobalMsgId \<Rightarrow> GlobalMsgId \<Rightarrow> bool" where
  "less_GlobalMsgId a b \<longleftrightarrow>
     (if gm_itemId a < gm_itemId b then True
      else if gm_itemId a > gm_itemId b then False
      else gm_sessionUniqueId a < gm_sessionUniqueId b)"

definition less_eq_GlobalMsgId :: "GlobalMsgId \<Rightarrow> GlobalMsgId \<Rightarrow> bool" where
  "less_eq_GlobalMsgId a b \<longleftrightarrow> \<not> (b < a)"

instance
  by standard
    (auto simp: less_GlobalMsgId_def less_eq_GlobalMsgId_def GlobalMsgId.expand split: if_splits)

end

section \<open>Message positions\<close>

datatype MessagePosition = MessagePosition (mp_fullId: FullMsgId) (mp_date: int)

instantiation MessagePosition :: linorder
begin

definition less_MessagePosition :: "MessagePosition \<Rightarrow> MessagePosition \<Rightarrow> bool" where
  "less_MessagePosition a b \<longleftrightarrow>
     (if mp_date a < mp_date b then True
      else if mp_date b < mp_date a then False
      else mp_fullId a < mp_fullId b)"

definition less_eq_MessagePosition :: "MessagePosition \<Rightarrow> MessagePosition \<Rightarrow> bool" where
  "less_eq_MessagePosition a b \<longleftrightarrow> \<not> (b < a)"

instance
  by standard
    (auto simp: less_MessagePosition_def less_eq_MessagePosition_def MessagePosition.expand
      split: if_splits)

end

definition MaxDate :: int where "MaxDate = 2 ^ 31 - 1"

definition MinMessagePosition :: MessagePosition where
  "MinMessagePosition = MessagePosition (FullMsgId (PeerId 0) 1) 0"

definition MaxMessagePosition :: MessagePosition where
  "MaxMessagePosition = MessagePosition (FullMsgId (PeerId 0) (ServerMaxMsgId - 1)) MaxDate"

definition mp_valid :: "MessagePosition \<Rightarrow> bool" where
  "mp_valid p \<longleftrightarrow> fm_msg (mp_fullId p) \<noteq> 0"

section \<open>Properties\<close>

lemma or_and_same: "((x :: 'a::len word) OR f) AND f = f"
  by (rule bit_eqI) (auto simp: bit_simps)

lemma or_and_not_same:
  assumes "(x :: 'a::len word) AND f = 0"
  shows "(x OR f) AND NOT f = x"
proof (rule bit_eqI)
  fix n
  have "\<not> bit (x AND f) n" using assms by simp
  then show "bit ((x OR f) AND NOT f) n = bit x n" by (auto simp: bit_simps dest: bit_imp_le_length)
qed

lemma bare_peerFrom:
  "bare < 0x1000000000000 \<Longrightarrow> peerToBareMTPInt (peerFrom s bare) = bare"
  by (simp only: peerToBareMTPInt_def peerFrom_def PeerId.sel peerFrom_bare)

text \<open>
  C7. Packing a bare id below \<open>2^48\<close> keeps the kinds apart: exactly the right test holds, the right
  projection gives the id back and the other two give zero.
\<close>

theorem peer_kinds_roundtrip:
  assumes "bare < 0x1000000000000"
  shows "peerIsUser (peerFromUser bare) \<and> \<not> peerIsChat (peerFromUser bare)
      \<and> \<not> peerIsChannel (peerFromUser bare) \<and> peerToUser (peerFromUser bare) = bare
      \<and> peerIsChat (peerFromChat bare) \<and> \<not> peerIsUser (peerFromChat bare)
      \<and> \<not> peerIsChannel (peerFromChat bare) \<and> peerToChat (peerFromChat bare) = bare
      \<and> peerIsChannel (peerFromChannel bare) \<and> \<not> peerIsUser (peerFromChannel bare)
      \<and> \<not> peerIsChat (peerFromChannel bare) \<and> peerToChannel (peerFromChannel bare) = bare
      \<and> peerToUser (peerFromChannel bare) = 0 \<and> peerToChannel (peerFromUser bare) = 0"
  unfolding peer_kind_defs peer_shift_defs
  by (simp add: peerIs_peerFrom [OF assms] peerTo_peerFrom [OF assms])

theorem peer_kinds_roundtrip_witness:
  "peerToChannel (peerFromChannel 1234567890) = 1234567890"
  using peer_kinds_roundtrip [of 1234567890] by simp

text \<open>
  Serializing is defined for every peer id without the reserved bit, always sets that bit, and
  deserializing gives the same peer id back.
\<close>

theorem peer_serialize_roundtrip:
  assumes ser: "SerializePeerId p = Some s"
  shows "s AND push_bit 48 kReservedBit \<noteq> 0 \<and> DeserializePeerId s = p"
proof -
  have z: "peer_value p AND push_bit 48 kReservedBit = 0"
    and s: "s = peer_value p OR push_bit 48 kReservedBit"
    using ser by (auto simp: SerializePeerId_def split: if_splits)
  have "push_bit 48 kReservedBit \<noteq> 0" by (simp add: kReservedBit_def)
  then show ?thesis
    using or_and_same [of "peer_value p" "push_bit 48 kReservedBit"] or_and_not_same [OF z]
    by (simp add: s DeserializePeerId_def Let_def)
qed

theorem peer_serialize_roundtrip_witness:
  "DeserializePeerId (0x8000000000007B) = peerFromUser 123"
  using peer_serialize_roundtrip [of "peerFromUser 123" "0x8000000000007B"]
  by (simp add: SerializePeerId_def peerFromUser_def peerFrom_def UserShift_def kReservedBit_def)

text \<open>
  A server peer whose bare id fits goes to a peer id and back unchanged, and a peer id of one of
  the three kinds goes to a server peer and back unchanged.
\<close>

theorem peer_MTP_roundtrip:
  assumes "bare < 0x1000000000000"
  shows "peerToMTP (peerFromMTP (MTPDpeerUser bare)) = MTPDpeerUser bare
    \<and> peerToMTP (peerFromMTP (MTPDpeerChat bare)) = MTPDpeerChat bare
    \<and> peerToMTP (peerFromMTP (MTPDpeerChannel bare)) = MTPDpeerChannel bare"
  unfolding peerToMTP_def peerFromMTP.simps peer_kind_defs peer_shift_defs
  by (simp add: peerIs_peerFrom [OF assms] bare_peerFrom [OF assms])

theorem peer_MTP_roundtrip_witness:
  "peerToMTP (peerFromMTP (MTPDpeerChat 77)) = MTPDpeerChat 77"
  using peer_MTP_roundtrip [of 77] by simp

end
