(* ===== verification/SliceList.thy ===== *)
theory SliceList
  imports FlatMap Ids
begin

text \<open>
  The part that \<open>storage/storage_sparse_ids_list.cpp\<close> and \<open>data/data_messages.cpp\<close> share line by
  line: a list of slices, each a set of positions together with a range in which nothing is
  missing. Positions are any linear order (\<open>MsgId\<close> or \<open>MessagePosition\<close>). A failed \<open>Expects\<close> is
  the result \<open>None\<close>.
\<close>

record 'p slice =
  messages :: "'p list"
  sl_from :: 'p
  sl_till :: 'p

record 'p slice_update =
  su_messages :: "'p list option"
  su_from :: 'p
  su_till :: 'p
  su_count :: "int option"

definition slice_less :: "('p::linorder) slice \<Rightarrow> 'p slice \<Rightarrow> bool" where
  "slice_less a b \<longleftrightarrow> sl_from a < sl_from b"

definition Slice_merge :: "'p list \<Rightarrow> 'p \<Rightarrow> 'p \<Rightarrow> ('p::linorder) slice \<Rightarrow> 'p slice option" where
  "Slice_merge ms f t s =
     (if f \<le> sl_till s \<and> sl_from s \<le> t
      then Some \<lparr>messages = flat_set_merge (<) ms (messages s),
                 sl_from = min (sl_from s) f, sl_till = max (sl_till s) t\<rparr>
      else None)"

definition slices_merge_at ::
    "nat \<Rightarrow> 'p list \<Rightarrow> 'p \<Rightarrow> 'p \<Rightarrow> ('p::linorder) slice list \<Rightarrow> 'p slice list option" where
  "slices_merge_at i ms f t slices =
     (case Slice_merge ms f t (slices ! i) of
        None \<Rightarrow> None
      | Some s \<Rightarrow> Some (flat_set_modify slice_less i (\<lambda>_. s) slices))"

function unite_loop ::
    "nat \<Rightarrow> nat \<Rightarrow> nat \<Rightarrow> ('p::linorder) slice list \<Rightarrow> 'p slice list option" where
  "unite_loop uniteFrom it uniteTill slices =
     (if it < uniteTill then
        (case slices_merge_at uniteFrom (messages (slices ! it))
            (sl_from (slices ! it)) (sl_till (slices ! it)) slices of
           None \<Rightarrow> None
         | Some slices' \<Rightarrow> unite_loop uniteFrom (Suc it) uniteTill slices')
      else Some slices)"
  by pat_completeness auto
termination
  by (relation "measure (\<lambda>(f, i, t, s). t - i)") auto

declare unite_loop.simps [simp del]

text \<open>Returns the slices, the update (without the count) and the number of new messages.\<close>

definition uniteAndAdd ::
    "nat \<Rightarrow> nat \<Rightarrow> 'p list \<Rightarrow> 'p \<Rightarrow> 'p \<Rightarrow> ('p::linorder) slice list
      \<Rightarrow> ('p slice list \<times> 'p slice_update \<times> int) option" where
  "uniteAndAdd uniteFrom uniteTill ms f t slices =
     (case slices_merge_at uniteFrom ms f t slices of
        None \<Rightarrow> None
      | Some s1 \<Rightarrow>
        (case unite_loop uniteFrom (Suc uniteFrom) uniteTill s1 of
           None \<Rightarrow> None
         | Some s2 \<Rightarrow>
           let s3 = erase_range (Suc uniteFrom) uniteTill s2;
               sl = s3 ! uniteFrom
           in Some (s3,
                \<lparr>su_messages = Some (messages sl), su_from = sl_from sl, su_till = sl_till sl,
                 su_count = None\<rparr>,
                int (length (messages sl)) - int (length (messages (slices ! uniteFrom))))))"

definition find_unite_from :: "('p::linorder) slice list \<Rightarrow> 'p \<Rightarrow> nat" where
  "find_unite_from slices f = lower_bound (\<lambda>s p. sl_till s < p) slices f"

definition find_unite_till :: "('p::linorder) slice list \<Rightarrow> 'p \<Rightarrow> nat" where
  "find_unite_till slices t = upper_bound (\<lambda>p s. p < sl_from s) slices t"

definition add_slice_or_unite ::
    "'p list \<Rightarrow> 'p \<Rightarrow> 'p \<Rightarrow> ('p::linorder) slice list
      \<Rightarrow> ('p slice list \<times> 'p slice_update \<times> int) option" where
  "add_slice_or_unite ms f t slices =
     (let uniteFrom = find_unite_from slices f; uniteTill = find_unite_till slices t in
      if uniteFrom < uniteTill then uniteAndAdd uniteFrom uniteTill ms f t slices
      else let sliceMessages = flat_set_construct (<) ms;
               (slices', pos, _) = flat_set_insert slice_less
                  \<lparr>messages = sliceMessages, sl_from = f, sl_till = t\<rparr> slices;
               sl = slices' ! pos
           in Some (slices',
                \<lparr>su_messages = Some (messages sl), su_from = sl_from sl, su_till = sl_till sl,
                 su_count = None\<rparr>,
                int (length (messages sl))))"

text \<open>The slice that a position falls into: the first that ends at or after it, if it starts in time.\<close>

definition slice_around :: "('p::linorder) slice list \<Rightarrow> 'p \<Rightarrow> nat option" where
  "slice_around slices p =
     (let i = lower_bound (\<lambda>s q. sl_till s < q) slices p in
      if i < length slices \<and> sl_from (slices ! i) \<le> p then Some i else None)"

text \<open>\<open>removeOne\<close> and \<open>invalidateBottom\<close> on the slices; \<open>hi\<close> is the last position.\<close>

definition slices_removeOne :: "'p \<Rightarrow> ('p::linorder) slice list \<Rightarrow> 'p slice list" where
  "slices_removeOne p slices =
     (case slice_around slices p of
        None \<Rightarrow> slices
      | Some i \<Rightarrow> flat_set_modify slice_less i
          (\<lambda>s. s\<lparr>messages := fst (flat_set_remove (<) p (messages s))\<rparr>) slices)"

definition slices_invalidateBottom :: "'p \<Rightarrow> ('p::linorder) slice list \<Rightarrow> 'p slice list" where
  "slices_invalidateBottom hi slices =
     (if slices \<noteq> [] \<and> sl_till (last slices) = hi then
        flat_set_modify slice_less (length slices - 1)
          (\<lambda>s. s\<lparr>sl_till := if messages s = [] then sl_from s else last (messages s)\<rparr>) slices
      else slices)"

record 'p query_result =
  qr_count :: "int option"
  qr_skippedBefore :: "int option"
  qr_skippedAfter :: "int option"
  qr_messageIds :: "'p list"

definition empty_result :: "'p query_result" where
  "empty_result = \<lparr>qr_count = None, qr_skippedBefore = None, qr_skippedAfter = None,
     qr_messageIds = []\<rparr>"

text \<open>\<open>queryFromSlice\<close>; \<open>lo\<close> and \<open>hi\<close> are the first and the last position there can be.\<close>

definition slice_window :: "'p \<Rightarrow> int \<Rightarrow> int \<Rightarrow> ('p::linorder) list \<Rightarrow> 'p list" where
  "slice_window aroundId limitBefore limitAfter ids =
     (let position = int (lower_bound (<) ids aroundId);
          before = min position limitBefore;
          equalOrAfter = min (int (length ids) - position) (limitAfter + 1)
      in take (nat (before + equalOrAfter)) (drop (nat (position - before)) ids))"

definition queryFromSlice ::
    "'p \<Rightarrow> 'p \<Rightarrow> 'p \<Rightarrow> int \<Rightarrow> int \<Rightarrow> int option \<Rightarrow> ('p::linorder) slice \<Rightarrow> 'p query_result" where
  "queryFromSlice lo hi aroundId limitBefore limitAfter cnt sl =
     (let haveBefore = int (lower_bound (<) (messages sl) aroundId);
          haveEqualOrAfter = int (length (messages sl)) - haveBefore;
          before = min haveBefore limitBefore;
          equalOrAfter = min haveEqualOrAfter (limitAfter + 1);
          ids = flat_set_merge (<) (slice_window aroundId limitBefore limitAfter (messages sl)) [];
          skippedBefore = (if sl_from sl = lo then Some (haveBefore - before) else None);
          skippedAfter =
            (if sl_till sl = hi then Some (haveEqualOrAfter - equalOrAfter) else None);
          fill = (\<lambda>c other. Some (c - other - int (length ids)))
      in \<lparr>qr_count = cnt,
          qr_skippedBefore = (case (cnt, skippedBefore, skippedAfter) of
              (Some c, None, Some a) \<Rightarrow> fill c a | _ \<Rightarrow> skippedBefore),
          qr_skippedAfter = (case (cnt, skippedBefore, skippedAfter) of
              (Some c, Some b, None) \<Rightarrow> fill c b | _ \<Rightarrow> skippedAfter),
          qr_messageIds = ids\<rparr>)"

text \<open>A \<open>size_t\<close> compared with an \<open>int\<close>: the \<open>int\<close> is converted modulo \<open>2^64\<close>.\<close>

definition size_ge :: "nat \<Rightarrow> int \<Rightarrow> bool" where
  "size_ge n c \<longleftrightarrow> c mod 2 ^ 64 \<le> int n"

section \<open>The invariant and the abstraction\<close>

text \<open>
  Slices are in order and do not touch, ranges are not empty, and the messages of a slice are a
  flat set inside its range.
\<close>

definition slice_ok :: "('p::linorder) slice \<Rightarrow> bool" where
  "slice_ok s \<longleftrightarrow> sl_from s \<le> sl_till s \<and> sorted_wrt (<) (messages s)
     \<and> (\<forall>m \<in> set (messages s). sl_from s \<le> m \<and> m \<le> sl_till s)"

definition slices_ok :: "('p::linorder) slice list \<Rightarrow> bool" where
  "slices_ok slices \<longleftrightarrow> sorted_wrt (\<lambda>a b. sl_till a < sl_from b) slices \<and> list_all slice_ok slices"

text \<open>
  What the list knows: the positions about which it has complete knowledge, and the messages.
\<close>

definition covered :: "('p::linorder) slice list \<Rightarrow> 'p set" where
  "covered slices = (\<Union>s \<in> set slices. {sl_from s..sl_till s})"

definition known :: "('p::linorder) slice list \<Rightarrow> 'p set" where
  "known slices = (\<Union>s \<in> set slices. set (messages s))"

lemma covered_simps [simp]:
  "covered [] = {}" "covered (s # ss) = {sl_from s..sl_till s} \<union> covered ss"
  "covered (xs @ ys) = covered xs \<union> covered ys"
  by (auto simp: covered_def)

lemma known_simps [simp]:
  "known [] = {}" "known (s # ss) = set (messages s) \<union> known ss"
  "known (xs @ ys) = known xs \<union> known ys"
  by (auto simp: known_def)

lemma slices_ok_append:
  "slices_ok (xs @ ys) \<longleftrightarrow> slices_ok xs \<and> slices_ok ys
     \<and> (\<forall>x \<in> set xs. \<forall>y \<in> set ys. sl_till x < sl_from y)"
  by (auto simp: slices_ok_def sorted_wrt_append)

lemma slices_ok_Cons:
  "slices_ok (x # ys) \<longleftrightarrow> slice_ok x \<and> slices_ok ys \<and> (\<forall>y \<in> set ys. sl_till x < sl_from y)"
  by (auto simp: slices_ok_def)

lemma slices_ok_Nil [simp]: "slices_ok []"
  by (simp add: slices_ok_def)

lemma slices_okD: "slices_ok slices \<Longrightarrow> s \<in> set slices \<Longrightarrow> slice_ok s"
  by (simp add: slices_ok_def list_all_iff)

lemma slice_ok_range: "slice_ok s \<Longrightarrow> sl_from s \<le> sl_till s"
  by (simp add: slice_ok_def)

lemma known_covered: "slices_ok slices \<Longrightarrow> known slices \<subseteq> covered slices"
  by (induction slices) (auto simp: slices_ok_Cons slice_ok_def)

lemma slice_less_order: "compare_order (slice_less :: ('p::linorder) slice \<Rightarrow> 'p slice \<Rightarrow> bool)"
  using compare_order_proj [OF less_cmp.compare_order_axioms, of sl_from]
  by (simp add: slice_less_def [abs_def])

interpretation slice_cmp: compare_order "slice_less :: ('p::linorder) slice \<Rightarrow> 'p slice \<Rightarrow> bool"
  by (rule slice_less_order)

lemma slice_less_sorted: "slices_ok slices \<Longrightarrow> sorted_wrt slice_less slices"
proof (induction slices)
  case (Cons s ss)
  have "slice_less s y" if "y \<in> set ss" for y
    using Cons.prems that unfolding slices_ok_Cons slice_ok_def slice_less_def
    by (meson le_less_trans)
  then show ?case using Cons by (simp add: slices_ok_Cons)
qed simp

section \<open>Replacing a slice in place\<close>

text \<open>\<open>modify\<close> on a slice whose start stays between its neighbours is an assignment.\<close>

lemma slices_modify:
  assumes "\<forall>a \<in> set as. sl_from a < sl_from s'"
    and "\<forall>b \<in> set bs. sl_from s' < sl_from b"
  shows "flat_set_modify slice_less (length as) (\<lambda>_. s') (as @ s # bs) = as @ s' # bs"
proof -
  have "flat_set_modify slice_less (length as) (\<lambda>_. s') (as @ s # bs)
    = (as @ s # bs)[length as := s']"
  proof (rule slice_cmp.modify_in_place)
    show "Suc (length as) < length (as @ s # bs) \<Longrightarrow>
        slice_less s' ((as @ s # bs) ! Suc (length as))"
      using assms(2) by (simp add: slice_less_def nth_append)
    show "0 < length as \<Longrightarrow> slice_less ((as @ s # bs) ! (length as - 1)) s'"
      using assms(1) by (simp add: slice_less_def nth_append)
  qed simp
  then show ?thesis by simp
qed

lemma Slice_merge_ok:
  assumes "slice_ok s" "f \<le> sl_till s" "sl_from s \<le> t"
    and "\<forall>m \<in> set ms. f \<le> m \<and> m \<le> t"
  obtains s' where "Slice_merge ms f t s = Some s'" "slice_ok s'"
    "sl_from s' = min (sl_from s) f" "sl_till s' = max (sl_till s) t"
    "set (messages s') = set (messages s) \<union> set ms"
proof
  let ?s' = "\<lparr>messages = flat_set_merge (<) ms (messages s),
     sl_from = min (sl_from s) f, sl_till = max (sl_till s) t\<rparr>"
  show "Slice_merge ms f t s = Some ?s'" using assms(2,3) by (simp add: Slice_merge_def)
  show set: "set (messages ?s') = set (messages s) \<union> set ms"
    by (simp add: flat_set_less.elems_mrg)
  show "slice_ok ?s'"
    using assms set flat_set_less.invar_mrg [of ms "messages s"]
    by (auto simp: slice_ok_def min_le_iff_disj le_max_iff_disj)
qed simp_all

section \<open>Uniting slices\<close>

lemma slices_merge_at_ok:
  assumes "slice_ok s" "f \<le> sl_till s" "sl_from s \<le> t"
    and "\<forall>m \<in> set ms. f \<le> m \<and> m \<le> t"
    and "\<forall>a \<in> set as. sl_from a < min (sl_from s) f"
    and "\<forall>b \<in> set bs. sl_from s < sl_from b"
  obtains s' where "slices_merge_at (length as) ms f t (as @ s # bs) = Some (as @ s' # bs)"
    "slice_ok s'" "sl_from s' = min (sl_from s) f" "sl_till s' = max (sl_till s) t"
    "set (messages s') = set (messages s) \<union> set ms"
proof -
  obtain s' where s': "Slice_merge ms f t s = Some s'" "slice_ok s'"
    "sl_from s' = min (sl_from s) f" "sl_till s' = max (sl_till s) t"
    "set (messages s') = set (messages s) \<union> set ms"
    using Slice_merge_ok [OF assms(1-4)] .
  have "flat_set_modify slice_less (length as) (\<lambda>_. s') (as @ s # bs) = as @ s' # bs"
    using assms(5,6) s'(3) by (intro slices_modify) (auto simp: min_less_iff_disj)
  with s' that show thesis by (simp add: slices_merge_at_def)
qed

lemma unite_loop_ok:
  assumes "slice_ok s"
    and "\<forall>u \<in> set us. slice_ok u \<and> sl_from s < sl_from u \<and> sl_from u \<le> sl_till s"
    and "\<forall>a \<in> set as. sl_from a < sl_from s"
    and "\<forall>b \<in> set ds \<union> set bs. sl_from s < sl_from b"
  shows "\<exists>s'. unite_loop (length as) (Suc (length as + length ds))
      (Suc (length as + length ds + length us)) (as @ s # ds @ us @ bs)
      = Some (as @ s' # ds @ us @ bs)
    \<and> slice_ok s' \<and> sl_from s' = sl_from s
    \<and> {sl_from s'..sl_till s'} = {sl_from s..sl_till s} \<union> covered us
    \<and> set (messages s') = set (messages s) \<union> known us
    \<and> sl_till s' \<in> insert (sl_till s) (sl_till ` set us)"
  using assms
proof (induction us arbitrary: s ds)
  case Nil
  then show ?case by (subst unite_loop.simps) simp
next
  case (Cons u us)
  let ?i = "length as + length ds"
  have u: "slice_ok u" "sl_from s < sl_from u" "sl_from u \<le> sl_till s"
    using Cons.prems(2) by auto
  have inside: "\<forall>m \<in> set (messages u). sl_from u \<le> m \<and> m \<le> sl_till u"
    and leu: "sl_from s \<le> sl_till u"
    using u by (auto simp: slice_ok_def)
  obtain s1 where s1: "slices_merge_at (length as) (messages u) (sl_from u) (sl_till u)
      (as @ s # (ds @ u # us @ bs)) = Some (as @ s1 # (ds @ u # us @ bs))"
    "slice_ok s1" "sl_from s1 = min (sl_from s) (sl_from u)" "sl_till s1 = max (sl_till s) (sl_till u)"
    "set (messages s1) = set (messages s) \<union> set (messages u)"
    by (rule slices_merge_at_ok [OF Cons.prems(1) u(3) leu inside, of as "ds @ u # us @ bs"])
      (use Cons.prems u in auto)
  have from1: "sl_from s1 = sl_from s" using s1(3) u(2) by simp
  have nth: "(as @ s # ds @ u # us @ bs) ! Suc ?i = u" by (simp add: nth_append)
  have "\<exists>s'. unite_loop (length as) (Suc (length as + length (ds @ [u])))
      (Suc (length as + length (ds @ [u]) + length us)) (as @ s1 # (ds @ [u]) @ us @ bs)
      = Some (as @ s' # (ds @ [u]) @ us @ bs)
    \<and> slice_ok s' \<and> sl_from s' = sl_from s1
    \<and> {sl_from s'..sl_till s'} = {sl_from s1..sl_till s1} \<union> covered us
    \<and> set (messages s') = set (messages s1) \<union> known us
    \<and> sl_till s' \<in> insert (sl_till s1) (sl_till ` set us)"
  proof (rule Cons.IH [OF s1(2)])
    show "\<forall>v \<in> set us. slice_ok v \<and> sl_from s1 < sl_from v \<and> sl_from v \<le> sl_till s1"
      using Cons.prems(2) from1 s1(4) by (auto simp: le_max_iff_disj)
    show "\<forall>b \<in> set (ds @ [u]) \<union> set bs. sl_from s1 < sl_from b"
      using Cons.prems(4) from1 u(2) by auto
  qed (use Cons.prems(3) from1 in simp)
  then obtain s' where s': "unite_loop (length as) (Suc (Suc ?i))
      (Suc (?i + length (u # us))) (as @ s1 # ds @ u # us @ bs) = Some (as @ s' # ds @ u # us @ bs)"
    "slice_ok s'" "sl_from s' = sl_from s1"
    "{sl_from s'..sl_till s'} = {sl_from s1..sl_till s1} \<union> covered us"
    "set (messages s') = set (messages s1) \<union> known us"
    "sl_till s' \<in> insert (sl_till s1) (sl_till ` set us)" by auto
  have "unite_loop (length as) (Suc ?i) (Suc (?i + length (u # us))) (as @ s # ds @ u # us @ bs)
      = Some (as @ s' # ds @ u # us @ bs)"
    using s'(1) s1(1) nth by (subst unite_loop.simps) simp
  moreover have "{sl_from s1..sl_till s1} = {sl_from s..sl_till s} \<union> {sl_from u..sl_till u}"
    using u from1 s1(4) by (auto simp: le_max_iff_disj)
  moreover have "sl_till s' \<in> insert (sl_till s) (sl_till ` set (u # us))"
    using s'(6) s1(4) by (auto simp: max_def split: if_splits)
  ultimately show ?case
    using s' s1(5) from1 by (intro exI [of _ s']) (auto simp: Un_assoc)
qed

text \<open>
  The two binary searches split the slices into those wholly before the added range, those that
  meet it, and those wholly after it.
\<close>

lemma find_unite_split:
  assumes "slices_ok slices" "f \<le> t"
  obtains as us bs where "slices = as @ us @ bs"
    "find_unite_from slices f = length as"
    "\<forall>a \<in> set as. sl_till a < f" "\<forall>u \<in> set us. f \<le> sl_till u \<and> sl_from u \<le> t"
    "\<forall>b \<in> set bs. t < sl_from b"
    "find_unite_till slices t = length as + length us"
proof -
  let ?P = "\<lambda>s. sl_till s < f" and ?Q = "\<lambda>s. \<not> t < sl_from s"
  define as where "as = takeWhile ?P slices"
  define rest where "rest = dropWhile ?P slices"
  define us where "us = takeWhile ?Q rest"
  define bs where "bs = dropWhile ?Q rest"
  have eq: "slices = as @ us @ bs" by (simp add: as_def us_def bs_def rest_def)
  have ok: "slices_ok (as @ us @ bs)" using assms(1) eq by simp
  have as: "\<forall>a \<in> set as. sl_till a < f" by (auto simp: as_def dest: set_takeWhileD)
  have us: "\<forall>u \<in> set us. sl_from u \<le> t" by (auto simp: us_def dest: set_takeWhileD)
  have rest: "\<forall>r \<in> set rest. f \<le> sl_till r"
  proof (cases rest)
    case (Cons r rs)
    then have "f \<le> sl_till r" unfolding rest_def by (auto simp: dropWhile_eq_Cons_conv)
    moreover have "sl_till r < sl_till x" if "x \<in> set rs" for x
    proof -
      have "slices_ok (as @ r # rs)"
        using assms(1) Cons by (metis as_def rest_def takeWhile_dropWhile_id)
      then have "sl_till r < sl_from x" "slice_ok x"
        using that by (auto simp: slices_ok_append slices_ok_Cons dest: slices_okD)
      then show ?thesis by (auto simp: slice_ok_def)
    qed
    ultimately show ?thesis using Cons by (auto intro: order.trans less_imp_le)
  qed simp
  have bs: "\<forall>b \<in> set bs. t < sl_from b"
  proof (cases bs)
    case (Cons b bs')
    then have "t < sl_from b" unfolding bs_def by (auto simp: dropWhile_eq_Cons_conv)
    moreover have "sl_from b < sl_from x" if "x \<in> set bs'" for x
      using ok that unfolding Cons slices_ok_append slices_ok_Cons slice_ok_def
      by (meson le_less_trans)
    ultimately show ?thesis using Cons by (auto intro: order.strict_trans)
  qed simp
  have before: "\<forall>a \<in> set as. sl_from a \<le> t"
  proof
    fix a assume "a \<in> set as"
    then have "sl_from a \<le> sl_till a" "sl_till a < f"
      using as assms(1) eq slices_okD [of slices a] slice_ok_range [of a] by auto
    then show "sl_from a \<le> t" using assms(2) by simp
  qed
  have "takeWhile ?Q ((as @ us) @ bs) = as @ us"
    by (rule takeWhile_split) (use us bs before in auto)
  then have till: "find_unite_till slices t = length as + length us"
    using eq by (simp add: find_unite_till_def upper_bound_def)
  have "find_unite_from slices f = length as"
    by (simp add: find_unite_from_def lower_bound_def as_def)
  moreover have "\<forall>u \<in> set us. f \<le> sl_till u \<and> sl_from u \<le> t"
    using us rest by (auto simp: us_def dest: set_takeWhileD)
  ultimately show thesis using eq as bs till that by blast
qed

lemma insert_new_slice:
  assumes ok: "slices_ok (as @ bs)" and ft: "f \<le> t" and ms: "\<forall>m \<in> set ms. f \<le> m \<and> m \<le> t"
    and as: "\<forall>a \<in> set as. sl_till a < f" and bs: "\<forall>b \<in> set bs. t < sl_from b"
  defines "n \<equiv> \<lparr>messages = flat_set_construct (<) ms, sl_from = f, sl_till = t\<rparr>"
  shows "flat_set_insert slice_less n (as @ bs) = (as @ n # bs, length as, True)"
    "slices_ok (as @ n # bs)" "set (messages n) = set ms"
proof -
  have asf: "\<forall>a \<in> set as. sl_from a < f"
    using as ok by (auto simp: slices_ok_append dest!: slices_okD slice_ok_range)
  show setn: "set (messages n) = set ms"
    using flat_set_less.elems_mrg [of ms "[]"]
    by (simp add: n_def flat_set_construct_def flat_set_merge_def flat_multi_set_construct_def
        flat_multi_set_merge_def)
  then have "slice_ok n"
    using ft ms less_cmp.set_construct_sorted [of ms] by (auto simp: slice_ok_def n_def)
  then show "slices_ok (as @ n # bs)"
    using ok as bs by (auto simp: slices_ok_append slices_ok_Cons n_def)
  show "flat_set_insert slice_less n (as @ bs) = (as @ n # bs, length as, True)"
  proof (cases rule: slice_cmp.set_insert_cases [OF slice_less_sorted [OF ok], of n])
    case (1 ys zs)
    have "ys = takeWhile (\<lambda>s. sl_from s < f) (ys @ zs)"
      using 1(2,3) by (intro takeWhile_split [symmetric]) (auto simp: n_def slice_less_def)
    also have "\<dots> = takeWhile (\<lambda>s. sl_from s < f) (as @ bs)" using 1(1) by simp
    also have "\<dots> = as" using asf bs ft by (intro takeWhile_split) auto
    finally show ?thesis using 1 by simp
  next
    case (2 ys z zs)
    then have "sl_from z = f" "z \<in> set (as @ bs)" by (auto simp: n_def slice_less_def)
    then show ?thesis using asf bs ft by fastforce
  qed
qed

lemma unite_slices:
  assumes ok: "slices_ok (as @ u # us @ bs)" and ms: "\<forall>m \<in> set ms. f \<le> m \<and> m \<le> t"
    and as: "\<forall>a \<in> set as. sl_till a < f" and bs: "\<forall>b \<in> set bs. t < sl_from b"
    and us: "\<forall>x \<in> set (u # us). f \<le> sl_till x \<and> sl_from x \<le> t"
  obtains s where "uniteAndAdd (length as) (length as + length (u # us)) ms f t (as @ u # us @ bs)
      = Some (as @ s # bs, \<lparr>su_messages = Some (messages s), su_from = sl_from s,
          su_till = sl_till s, su_count = None\<rparr>,
          int (length (messages s)) - int (length (messages u)))"
    "slice_ok s" "{sl_from s..sl_till s} = {f..t} \<union> covered (u # us)"
    "set (messages s) = set ms \<union> known (u # us)" "sl_from s = min (sl_from u) f"
    "sl_till s \<in> insert t (sl_till ` set (u # us))"
proof -
  have asf: "\<forall>a \<in> set as. sl_from a < f \<and> sl_from a < sl_from u"
  proof
    fix a assume a: "a \<in> set as"
    then have "sl_from a \<le> sl_till a" "sl_till a < f" "sl_till a < sl_from u"
      using as ok slices_okD [of as a] slice_ok_range [of a] by (auto simp: slices_ok_append)
    then show "sl_from a < f \<and> sl_from a < sl_from u" by auto
  qed
  have u: "slice_ok u" "f \<le> sl_till u" "sl_from u \<le> t" and ut: "sl_from u \<le> sl_till u"
    and later: "\<forall>b \<in> set (us @ bs). sl_till u < sl_from b \<and> slice_ok b"
    using us ok by (auto simp: slices_ok_append slices_ok_Cons slice_ok_range dest: slices_okD)
  have laterf: "\<forall>b \<in> set (us @ bs). sl_from u < sl_from b"
    using later ut by (meson le_less_trans)
  obtain s1 where s1: "slices_merge_at (length as) ms f t (as @ u # (us @ bs))
      = Some (as @ s1 # (us @ bs))" "slice_ok s1" "sl_from s1 = min (sl_from u) f"
    "sl_till s1 = max (sl_till u) t" "set (messages s1) = set (messages u) \<union> set ms"
    by (rule slices_merge_at_ok [OF u ms, of as "us @ bs"]) (use asf laterf in auto)
  have "\<forall>x \<in> set us. slice_ok x \<and> sl_from s1 < sl_from x \<and> sl_from x \<le> sl_till s1"
    using later laterf us s1(3,4) by (auto simp: min_less_iff_disj le_max_iff_disj)
  moreover have "\<forall>b \<in> set bs. sl_from s1 < sl_from b" "\<forall>a \<in> set as. sl_from a < sl_from s1"
    using laterf s1(3) asf by (auto simp: min_less_iff_disj)
  ultimately obtain s2 where s2: "unite_loop (length as) (Suc (length as))
      (Suc (length as + length us)) (as @ s1 # us @ bs) = Some (as @ s2 # us @ bs)"
    "slice_ok s2" "sl_from s2 = sl_from s1"
    "{sl_from s2..sl_till s2} = {sl_from s1..sl_till s1} \<union> covered us"
    "set (messages s2) = set (messages s1) \<union> known us"
    "sl_till s2 \<in> insert (sl_till s1) (sl_till ` set us)"
    using unite_loop_ok [OF s1(2), of us as "[]" bs] by auto
  have "{sl_from s1..sl_till s1} = {sl_from u..sl_till u} \<union> {f..t}"
    using u s1(3,4) by (auto simp: min_le_iff_disj le_max_iff_disj)
  moreover have "sl_till s1 \<in> insert t (sl_till ` set (u # us))"
    using s1(4) by (auto simp: max_def)
  moreover have "uniteAndAdd (length as) (length as + length (u # us)) ms f t (as @ u # us @ bs)
      = Some (as @ s2 # bs, \<lparr>su_messages = Some (messages s2), su_from = sl_from s2,
          su_till = sl_till s2, su_count = None\<rparr>,
          int (length (messages s2)) - int (length (messages u)))"
    using s1(1) s2(1) by (simp add: uniteAndAdd_def erase_range_def nth_append)
  moreover have "sl_till s2 \<in> insert t (sl_till ` set (u # us))"
    using s2(6) s1(4) by (auto simp: max_def)
  ultimately show thesis
    using s1(3,5) s2(2-5) by (intro that [of s2]) (simp_all add: Un_assoc Un_left_commute Un_commute)
qed

text \<open>
  Adding a range of messages: no assertion fails, the invariant is kept, and the list knows what it
  knew before plus the new range and the new messages.
\<close>

lemma add_slice_or_unite_ok:
  assumes ok: "slices_ok slices" and ft: "f \<le> t" and ms: "\<forall>m \<in> set ms. f \<le> m \<and> m \<le> t"
  obtains as us bs s added where "slices = as @ us @ bs"
    "add_slice_or_unite ms f t slices = Some (as @ s # bs,
       \<lparr>su_messages = Some (messages s), su_from = sl_from s, su_till = sl_till s,
        su_count = None\<rparr>, added)"
    "slices_ok (as @ s # bs)" "covered (as @ s # bs) = covered slices \<union> {f..t}"
    "known (as @ s # bs) = known slices \<union> set ms"
    "sl_from s \<le> f" "t \<le> sl_till s" "0 \<le> added"
    "set (messages s) = set ms \<union> known us" "\<forall>u \<in> set us. f \<le> sl_till u \<and> sl_from u \<le> t"
    "added = int (length (messages s)) - (if us = [] then 0 else int (length (messages (hd us))))"
proof -
  obtain as us bs where eq: "slices = as @ us @ bs"
    and uf: "find_unite_from slices f = length as"
    and as: "\<forall>a \<in> set as. sl_till a < f"
    and us: "\<forall>u \<in> set us. f \<le> sl_till u \<and> sl_from u \<le> t"
    and bs: "\<forall>b \<in> set bs. t < sl_from b"
    and ut: "find_unite_till slices t = length as + length us"
    using find_unite_split [OF ok ft] .
  show thesis
  proof (cases us)
    case Nil
    have ok0: "slices_ok (as @ bs)" using ok eq Nil by simp
    let ?n = "\<lparr>messages = flat_set_construct (<) ms, sl_from = f, sl_till = t\<rparr>"
    note new = insert_new_slice [OF ok0 ft ms as bs]
    have "add_slice_or_unite ms f t slices = Some (as @ ?n # bs,
       \<lparr>su_messages = Some (messages ?n), su_from = sl_from ?n, su_till = sl_till ?n,
        su_count = None\<rparr>, int (length (messages ?n)))"
      using uf ut new(1) by (simp add: add_slice_or_unite_def Let_def eq Nil)
    then show thesis
      by (rule that [of as "[]" bs ?n, rotated]) (use new eq Nil in auto)
  next
    case (Cons u us')
    obtain s where s: "uniteAndAdd (length as) (length as + length (u # us')) ms f t
        (as @ u # us' @ bs) = Some (as @ s # bs, \<lparr>su_messages = Some (messages s),
          su_from = sl_from s, su_till = sl_till s, su_count = None\<rparr>,
          int (length (messages s)) - int (length (messages u)))"
      "slice_ok s" "{sl_from s..sl_till s} = {f..t} \<union> covered (u # us')"
      "set (messages s) = set ms \<union> known (u # us')" "sl_from s = min (sl_from u) f"
      "sl_till s \<in> insert t (sl_till ` set (u # us'))"
      by (rule unite_slices [of as u us' bs ms f t]) (use ok eq Cons ms as bs us in auto)
    have "\<forall>a \<in> set as. sl_till a < sl_from s" "\<forall>b \<in> set bs. sl_till s < sl_from b"
      using s(5,6) as bs ok eq Cons by (auto simp: slices_ok_append slices_ok_Cons)
    then have "slices_ok (as @ s # bs)"
      using ok eq s(2) by (auto simp: slices_ok_append slices_ok_Cons)
    moreover have "f \<in> {sl_from s..sl_till s}" "t \<in> {sl_from s..sl_till s}" using s(3) ft by auto
    moreover have "length (messages u) \<le> length (messages s)"
    proof -
      have "distinct (messages u)" "distinct (messages s)" "set (messages u) \<subseteq> set (messages s)"
        using s(2,4) ok eq Cons
        by (auto simp: slices_ok_append slices_ok_Cons slice_ok_def strict_sorted_iff)
      then show ?thesis by (metis List.finite_set card_mono distinct_card)
    qed
    ultimately show thesis
      using uf ut Cons eq s us
      by (intro that [of as us bs s]) (auto simp: add_slice_or_unite_def Let_def)
  qed
qed

text \<open>How both lists develop their count from the arguments of \<open>addRange\<close>.\<close>

definition counted :: "int option \<Rightarrow> bool \<Rightarrow> int option \<Rightarrow> int \<Rightarrow> int option" where
  "counted cnt incrementCount old added =
     (case cnt of Some c \<Rightarrow> Some c
      | None \<Rightarrow> (case old of
            Some c \<Rightarrow> Some (if incrementCount \<and> added > 0 then c + added else c)
          | None \<Rightarrow> None))"

section \<open>Agreement with the server\<close>

text \<open>
  \<open>T\<close> is the set of positions that exist on the server. The slices agree with it when they hold
  exactly the existing positions of the ranges they cover.
\<close>

definition slices_sound :: "('p::linorder) set \<Rightarrow> 'p slice list \<Rightarrow> bool" where
  "slices_sound T slices \<longleftrightarrow> slices_ok slices \<and> known slices = T \<inter> covered slices"

lemma slices_sound_add:
  assumes "slices_sound T slices" "f \<le> t" "T' = T \<union> set ms" "set ms = T' \<inter> {f..t}"
    and add: "add_slice_or_unite ms f t slices = Some (slices', upd, added)"
  shows "slices_sound T' slices'"
proof -
  have ok: "slices_ok slices" and ms: "\<forall>m \<in> set ms. f \<le> m \<and> m \<le> t"
    using assms(1,4) by (auto simp: slices_sound_def)
  have "slices_ok slices' \<and> known slices' = known slices \<union> set ms
    \<and> covered slices' = covered slices \<union> {f..t}"
    by (rule add_slice_or_unite_ok [OF ok assms(2) ms]) (use add in \<open>metis option.inject prod.inject\<close>)
  with assms(1,3,4) show ?thesis by (auto simp: slices_sound_def)
qed

text \<open>A position after all existing ones is counted once, however many slices it unites.\<close>

lemma added_fresh:
  assumes sound: "slices_sound T slices" and fresh: "\<forall>x \<in> T. x < m" and mt: "m \<le> t"
    and add: "add_slice_or_unite [m] m t slices = Some (slices', upd, added)"
  shows "added = 1"
proof -
  have ok: "slices_ok slices" and kn: "known slices \<subseteq> T"
    using sound by (auto simp: slices_sound_def)
  obtain as us bs s where eq: "slices = as @ us @ bs" and ok': "slices_ok (as @ s # bs)"
    and s: "set (messages s) = insert m (known us)" and us: "\<forall>u \<in> set us. m \<le> sl_till u"
    and added: "added = int (length (messages s)) - (if us = [] then 0 else int (length (messages (hd us))))"
    by (rule add_slice_or_unite_ok [OF ok mt, of "[m]"]) (use add mt in auto)
  have dist: "distinct (messages s)"
    using ok' by (auto simp: slices_ok_append slices_ok_Cons slice_ok_def strict_sorted_iff)
  show ?thesis
  proof (cases us)
    case Nil
    with s dist have "length (messages s) = 1" by (simp add: distinct_card [symmetric])
    with added Nil show ?thesis by simp
  next
    case (Cons u us')
    have "\<forall>v \<in> set us'. m < sl_from v \<and> slice_ok v"
      using ok us unfolding eq Cons slices_ok_append
      by (auto simp: slices_ok_Cons dest: slices_okD intro: le_less_trans)
    then have "x \<notin> known us'" if "x < m" for x
      using that by (fastforce simp: known_def slice_ok_def)
    moreover have "\<forall>x \<in> known us. x < m" using kn fresh by (auto simp: eq)
    ultimately have "known us' = {}" "m \<notin> set (messages u)" by (auto simp: Cons)
    moreover have "distinct (messages u)"
      using ok by (auto simp: eq Cons slices_ok_append slices_ok_Cons slice_ok_def strict_sorted_iff)
    ultimately have "length (messages s) = Suc (length (messages u))"
      using s dist by (simp add: Cons distinct_card [symmetric])
    with added Cons show ?thesis by simp
  qed
qed

section \<open>Looking a position up\<close>

lemma slice_around_Some:
  assumes ok: "slices_ok slices" and i: "slice_around slices p = Some i"
  obtains as s bs where "slices = as @ s # bs" "i = length as" "sl_from s \<le> p" "p \<le> sl_till s"
    "slice_ok s" "p \<notin> covered as" "p \<notin> covered bs"
proof -
  have lt: "i < length slices" and le: "sl_from (slices ! i) \<le> p"
    and ix: "i = lower_bound (\<lambda>s q. sl_till s < q) slices p"
    using i by (auto simp: slice_around_def Let_def split: if_splits)
  let ?as = "take i slices" and ?s = "slices ! i" and ?bs = "drop (Suc i) slices"
  have eq: "slices = ?as @ ?s # ?bs" by (rule id_take_nth_drop [OF lt])
  have ok': "slices_ok (?as @ ?s # ?bs)" using ok eq by metis
  have till: "p \<le> sl_till ?s"
    using lower_bound_at [of "\<lambda>s q. sl_till s < q" slices p] lt ix by simp
  have "\<forall>b \<in> set ?bs. p < sl_from b"
    using ok' till unfolding slices_ok_append slices_ok_Cons by (meson le_less_trans)
  then have "p \<notin> covered ?bs" by (auto simp: covered_def)
  moreover have "\<forall>a \<in> set ?as. sl_till a < p"
    using lower_bound_below [of _ "\<lambda>s q. sl_till s < q" slices p] ix
    by (auto simp: in_set_conv_nth)
  then have "p \<notin> covered ?as" by (auto simp: covered_def)
  ultimately show thesis
    using that [OF eq] lt le till ok' by (auto simp: slices_ok_append slices_ok_Cons)
qed

lemma slice_around_None:
  assumes ok: "slices_ok slices"
  shows "slice_around slices p = None \<longleftrightarrow> p \<notin> covered slices"
proof
  assume "p \<notin> covered slices"
  then show "slice_around slices p = None"
    by (cases "slice_around slices p") (auto elim: slice_around_Some [OF ok])
next
  let ?i = "lower_bound (\<lambda>s q. sl_till s < q) slices p"
  assume none: "slice_around slices p = None"
  show "p \<notin> covered slices"
  proof
    assume "p \<in> covered slices"
    then obtain j where j: "j < length slices" "sl_from (slices ! j) \<le> p" "p \<le> sl_till (slices ! j)"
      by (auto simp: covered_def in_set_conv_nth)
    then have "?i \<le> j"
      using lower_bound_below [of j "\<lambda>s q. sl_till s < q" slices p] by (meson leD leI)
    moreover have "?i \<noteq> j"
      using none j by (auto simp: slice_around_def Let_def)
    ultimately have lt: "?i < j" by simp
    then have "sl_till (slices ! ?i) < sl_from (slices ! j)"
      using ok j(1) sorted_wrt_nth_less [of "\<lambda>a b. sl_till a < sl_from b" slices ?i j]
      by (simp add: slices_ok_def)
    moreover have "p \<le> sl_till (slices ! ?i)"
      using lower_bound_at [of "\<lambda>s q. sl_till s < q" slices p] lt j(1) by simp
    ultimately show False using j(2) by simp
  qed
qed

lemma slices_modify_fun:
  assumes "\<forall>a \<in> set as. sl_from a < sl_from (g s)"
    and "\<forall>b \<in> set bs. sl_from (g s) < sl_from b"
  shows "flat_set_modify slice_less (length as) g (as @ s # bs) = as @ g s # bs"
  using slices_modify [OF assms] by (simp add: flat_set_modify_def)

lemma neighbours:
  assumes "slices_ok (as @ s # bs)"
  shows "\<forall>a \<in> set as. sl_from a < sl_from s" "\<forall>b \<in> set bs. sl_from s < sl_from b"
proof -
  have "sorted_wrt slice_less (as @ s # bs)" by (rule slice_less_sorted [OF assms])
  then show "\<forall>a \<in> set as. sl_from a < sl_from s" "\<forall>b \<in> set bs. sl_from s < sl_from b"
    by (auto simp: sorted_wrt_append slice_less_def)
qed

lemma slices_removeOne_ok:
  assumes ok: "slices_ok slices"
  shows "slices_ok (slices_removeOne p slices)"
    "covered (slices_removeOne p slices) = covered slices"
    "known (slices_removeOne p slices) = known slices - {p}"
proof -
  have "slices_ok (slices_removeOne p slices) \<and> covered (slices_removeOne p slices) = covered slices
    \<and> known (slices_removeOne p slices) = known slices - {p}"
  proof (cases "slice_around slices p")
    case None
    then have "p \<notin> known slices"
      using slice_around_None [OF ok] known_covered [OF ok] by auto
    with None ok show ?thesis by (simp add: slices_removeOne_def)
  next
    case (Some i)
    obtain as s bs where sp: "slices = as @ s # bs" "i = length as" "slice_ok s"
      "p \<notin> covered as" "p \<notin> covered bs"
      using slice_around_Some [OF ok Some] by metis
    let ?s = "s\<lparr>messages := fst (flat_set_remove (<) p (messages s))\<rparr>"
    have srt: "sorted_wrt (<) (messages s)" using sp(3) by (simp add: slice_ok_def)
    have eq: "slices_removeOne p slices = as @ ?s # bs"
      using slices_modify_fun [of as
          "\<lambda>s. s\<lparr>messages := fst (flat_set_remove (<) p (messages s))\<rparr>" s bs]
        neighbours [of as s bs] ok sp(1,2) Some
      by (simp add: slices_removeOne_def)
    have set: "set (messages ?s) = set (messages s) - {p}"
      using flat_set_less.elems_del [OF srt, of p] by simp
    have oks: "slice_ok ?s"
      using sp(3) set flat_set_less.invar_del [OF srt, of p] by (auto simp: slice_ok_def)
    have "p \<notin> known as" "p \<notin> known bs"
      using sp(4,5) known_covered [of as] known_covered [of bs] ok sp(1)
      by (auto simp: slices_ok_append slices_ok_Cons)
    then have "known (as @ ?s # bs) = known slices - {p}"
      using set sp(1) by auto
    moreover have "slices_ok (as @ ?s # bs)"
      using ok sp(1) oks by (simp add: slices_ok_append slices_ok_Cons)
    ultimately show ?thesis using eq sp(1) by simp
  qed
  then show "slices_ok (slices_removeOne p slices)"
    "covered (slices_removeOne p slices) = covered slices"
    "known (slices_removeOne p slices) = known slices - {p}" by auto
qed

lemma slices_invalidateBottom_ok:
  assumes ok: "slices_ok slices"
  shows "slices_ok (slices_invalidateBottom hi slices)"
    "known (slices_invalidateBottom hi slices) = known slices"
    "covered (slices_invalidateBottom hi slices) \<subseteq> covered slices"
proof -
  have "slices_ok (slices_invalidateBottom hi slices)
    \<and> known (slices_invalidateBottom hi slices) = known slices
    \<and> covered (slices_invalidateBottom hi slices) \<subseteq> covered slices"
  proof (cases "slices \<noteq> [] \<and> sl_till (last slices) = hi")
    case True
    then obtain as s where sp: "slices = as @ [s]" by (metis append_butlast_last_id)
    let ?g = "\<lambda>s. s\<lparr>sl_till := if messages s = [] then sl_from s else last (messages s)\<rparr>"
    have eq: "slices_invalidateBottom hi slices = as @ [?g s]"
      using slices_modify_fun [of as ?g s "[]"] neighbours [of as s "[]"] ok sp True
      by (simp add: slices_invalidateBottom_def)
    have "slice_ok s" using ok sp by (simp add: slices_ok_append slices_ok_Cons)
    then have g: "slice_ok (?g s)" "sl_till (?g s) \<le> sl_till s"
      using less_cmp.back_greatest [OF less_cmp.strict_imp_sorted, of "messages s"]
      by (auto simp: slice_ok_def not_less)
    then have "covered [?g s] \<subseteq> covered [s]" by auto
    with eq sp g ok show ?thesis
      by (auto simp: slices_ok_append slices_ok_Cons)
  qed (use ok in \<open>auto simp: slices_invalidateBottom_def\<close>)
  then show "slices_ok (slices_invalidateBottom hi slices)"
    "known (slices_invalidateBottom hi slices) = known slices"
    "covered (slices_invalidateBottom hi slices) \<subseteq> covered slices" by auto
qed

section \<open>The window of a query\<close>

lemma filter_split_sorted:
  assumes "sorted_wrt (<) (ids :: 'p::linorder list)"
  shows "take (lower_bound (<) ids a) ids = filter (\<lambda>m. m < a) ids"
    "drop (lower_bound (<) ids a) ids = filter (\<lambda>m. a \<le> m) ids"
    "lower_bound (<) ids a = length (filter (\<lambda>m. m < a) ids)"
proof -
  obtain ys zs where sp: "ids = ys @ zs" "lower_bound (<) ids a = length ys"
    "\<forall>y \<in> set ys. y < a" "\<forall>z \<in> set zs. \<not> z < a"
    using less_cmp.split_lower [OF less_cmp.strict_imp_sorted [OF assms]] .
  have "filter (\<lambda>m. m < a) ids = ys" "filter (\<lambda>m. a \<le> m) ids = zs"
    using sp by (auto simp: filter_id_conv filter_empty_conv not_less not_le)
  with sp show "take (lower_bound (<) ids a) ids = filter (\<lambda>m. m < a) ids"
    "drop (lower_bound (<) ids a) ids = filter (\<lambda>m. a \<le> m) ids"
    "lower_bound (<) ids a = length (filter (\<lambda>m. m < a) ids)" by simp_all
qed

text \<open>
  The window holds the last \<open>limitBefore\<close> ids below the position and the first \<open>limitAfter + 1\<close>
  from it on.
\<close>

lemma slice_window_spec:
  assumes "sorted_wrt (<) (ids :: 'p::linorder list)" "0 \<le> limitBefore" "0 \<le> limitAfter"
  shows "slice_window a limitBefore limitAfter ids =
    (let below = filter (\<lambda>m. m < a) ids; from_on = filter (\<lambda>m. a \<le> m) ids in
     drop (length below - nat limitBefore) below @ take (nat limitAfter + 1) from_on)"
proof -
  let ?p = "lower_bound (<) ids a"
  let ?b = "nat (min (int ?p) limitBefore)"
    and ?e = "nat (min (int (length ids) - int ?p) (limitAfter + 1))"
  have le: "?p \<le> length ids" by simp
  have b: "nat (int ?p - min (int ?p) limitBefore) = ?p - ?b"
    "nat (min (int ?p) limitBefore + min (int (length ids) - int ?p) (limitAfter + 1)) = ?b + ?e"
    using assms(2,3) le by linarith+
  have "take (?b + ?e) (drop (?p - ?b) ids) = drop (?p - ?b) (take ?p ids) @ take ?e (drop ?p ids)"
  proof -
    have "drop (?p - ?b) ids = drop (?p - ?b) (take ?p ids) @ drop ?p ids"
      using drop_append [of "?p - ?b" "take ?p ids" "drop ?p ids"] le by simp
    moreover have "length (drop (?p - ?b) (take ?p ids)) = ?b" using le by simp
    ultimately show ?thesis by simp
  qed
  moreover have "take ?e (drop ?p ids) = take (nat limitAfter + 1) (drop ?p ids)"
  proof -
    have "?e = min (length (drop ?p ids)) (nat limitAfter + 1)"
      using assms(3) le by (auto simp: min_def nat_diff_distrib)
    then show ?thesis by (metis (no_types) min_def take_all_iff le_refl)
  qed
  moreover have "?p - ?b = ?p - nat limitBefore" using assms(2) by linarith
  ultimately have "slice_window a limitBefore limitAfter ids
      = drop (?p - nat limitBefore) (take ?p ids) @ take (nat limitAfter + 1) (drop ?p ids)"
    unfolding slice_window_def Let_def b by (simp only:)
  then show ?thesis
    unfolding Let_def filter_split_sorted(1,2) [OF assms(1), symmetric]
    by (simp only: length_take min.absorb2 [OF le])
qed

lemma covered_disjoint_ranges:
  assumes "slices_ok (as @ s # bs)"
  shows "covered as \<inter> {sl_from s..sl_till s} = {}" "covered bs \<inter> {sl_from s..sl_till s} = {}"
  using assms by (fastforce simp: covered_def slices_ok_append slices_ok_Cons)+

lemma slice_messages_known:
  assumes ok: "slices_ok (as @ s # bs)"
  shows "set (messages s) = known (as @ s # bs) \<inter> {sl_from s..sl_till s}"
proof -
  have "known as \<subseteq> covered as" "known bs \<subseteq> covered bs" "slice_ok s"
    using ok known_covered [of as] known_covered [of bs]
    by (auto simp: slices_ok_append slices_ok_Cons)
  then show ?thesis
    using covered_disjoint_ranges [OF ok] by (auto simp: slice_ok_def)
qed

lemma sorted_filter_list_of_set:
  assumes "sorted_wrt (<) (xs :: 'p::linorder list)"
  shows "filter P xs = sorted_list_of_set {x \<in> set xs. P x}"
proof -
  have "sorted_wrt (<) (filter P xs)" using assms by (simp add: sorted_wrt_filter)
  then have "sorted (filter P xs)" "distinct (filter P xs)" by (auto simp: strict_sorted_iff)
  then show ?thesis
    by (metis set_filter sorted_list_of_set.idem_if_sorted_distinct)
qed

text \<open>The window in terms of what the list knows.\<close>

definition window_spec :: "'p set \<Rightarrow> 'p \<Rightarrow> 'p \<Rightarrow> ('p::linorder) \<Rightarrow> nat \<Rightarrow> nat \<Rightarrow> 'p list" where
  "window_spec ids f t a nbefore nafter =
     (let below = sorted_list_of_set {m \<in> ids. f \<le> m \<and> m < a};
          from_on = sorted_list_of_set {m \<in> ids. a \<le> m \<and> m \<le> t}
      in drop (length below - nbefore) below @ take nafter from_on)"

lemma queryFromSlice_window:
  assumes ok: "slices_ok slices" and i: "slice_around slices a = Some i"
    and lim: "0 \<le> limitBefore" "0 \<le> limitAfter"
  shows "qr_messageIds (queryFromSlice lo hi a limitBefore limitAfter cnt (slices ! i))
    = window_spec (known slices) (sl_from (slices ! i)) (sl_till (slices ! i)) a
        (nat limitBefore) (nat limitAfter + 1)"
proof -
  obtain as s bs where sp: "slices = as @ s # bs" "i = length as" "sl_from s \<le> a" "a \<le> sl_till s"
    "slice_ok s"
    using slice_around_Some [OF ok i] by metis
  have s: "slices ! i = s" using sp by simp
  have srt: "sorted_wrt (<) (messages s)" using sp(5) by (simp add: slice_ok_def)
  let ?w = "slice_window a limitBefore limitAfter (messages s)"
  have "sorted_wrt (<) ?w"
    unfolding slice_window_def Let_def using srt by (simp add: sorted_wrt_take sorted_wrt_drop)
  then have ids: "qr_messageIds (queryFromSlice lo hi a limitBefore limitAfter cnt s) = ?w"
    by (simp add: queryFromSlice_def Let_def less_cmp.set_merge_empty)
  have set: "set (messages s) = known slices \<inter> {sl_from s..sl_till s}"
    using slice_messages_known [of as s bs] ok sp(1) by simp
  have "filter (\<lambda>m. m < a) (messages s) = sorted_list_of_set {m \<in> known slices. sl_from s \<le> m \<and> m < a}"
    "filter (\<lambda>m. a \<le> m) (messages s) = sorted_list_of_set {m \<in> known slices. a \<le> m \<and> m \<le> sl_till s}"
    unfolding sorted_filter_list_of_set [OF srt] set
    by (rule arg_cong [of _ _ sorted_list_of_set]; use sp(3,4) in auto)+
  with ids s slice_window_spec [OF srt lim, of a] show ?thesis
    by (simp add: window_spec_def)
qed

lemma length_window:
  assumes "0 \<le> limitBefore" "0 \<le> limitAfter"
  shows "int (length (slice_window a limitBefore limitAfter ids))
    = min (int (lower_bound (<) ids a)) limitBefore
      + min (int (length ids) - int (lower_bound (<) ids a)) (limitAfter + 1)"
proof -
  define p n where "p = int (lower_bound (<) ids a)" and "n = int (length ids)"
  define b e where "b = min p limitBefore" and "e = min (n - p) (limitAfter + 1)"
  have "0 \<le> b" "b \<le> p" "0 \<le> e" "p + e \<le> n"
    using assms lower_bound_le [of "(<)" ids a] by (auto simp: p_def n_def b_def e_def)
  then have "nat (b + e) \<le> length ids - nat (p - b)" by (simp add: n_def)
  then have "int (length (take (nat (b + e)) (drop (nat (p - b)) ids))) = b + e"
    using \<open>0 \<le> b\<close> \<open>0 \<le> e\<close> by simp
  then show ?thesis
    unfolding slice_window_def Let_def p_def [symmetric] n_def [symmetric] b_def [symmetric]
      e_def [symmetric] .
qed

text \<open>
  The three numbers of a result add up: to the number of messages of a slice that is known from end
  to end, or to the reported count when only one end is known.
\<close>

lemma queryFromSlice_numbers:
  assumes "sorted_wrt (<) (messages s)" "0 \<le> limitBefore" "0 \<le> limitAfter"
    and r: "r = queryFromSlice lo hi a limitBefore limitAfter cnt s"
    and b: "qr_skippedBefore r = Some b" and e: "qr_skippedAfter r = Some e"
  shows "b + int (length (qr_messageIds r)) + e =
    (if sl_from s = lo \<and> sl_till s = hi then int (length (messages s)) else the cnt)"
proof -
  have srt: "sorted_wrt (<) (slice_window a limitBefore limitAfter (messages s))"
    unfolding slice_window_def Let_def using assms(1) by (simp add: sorted_wrt_take sorted_wrt_drop)
  have ids: "qr_messageIds r = slice_window a limitBefore limitAfter (messages s)"
    using srt by (simp add: r queryFromSlice_def Let_def less_cmp.set_merge_empty)
  show ?thesis
    using b e ids length_window [OF assms(2,3), of a "messages s"] srt
    unfolding r queryFromSlice_def Let_def
    by (auto simp: less_cmp.set_merge_empty split: option.splits if_splits)
qed

lemma window_split:
  assumes "0 \<le> limitBefore" "0 \<le> limitAfter"
  obtains pre post where "ids = pre @ slice_window a limitBefore limitAfter ids @ post"
    "int (length pre) = int (lower_bound (<) ids a) - min (int (lower_bound (<) ids a)) limitBefore"
    "int (length post) = (int (length ids) - int (lower_bound (<) ids a))
       - min (int (length ids) - int (lower_bound (<) ids a)) (limitAfter + 1)"
proof -
  define p where "p = int (lower_bound (<) ids a)"
  define i n where "i = nat (p - min p limitBefore)"
    and "n = nat (min p limitBefore + min (int (length ids) - p) (limitAfter + 1))"
  have w: "slice_window a limitBefore limitAfter ids = take n (drop i ids)"
    by (simp add: slice_window_def Let_def p_def i_def n_def)
  have "ids = take i ids @ take n (drop i ids) @ drop n (drop i ids)"
    by (metis append_take_drop_id)
  moreover have "p \<le> int (length ids)" "0 \<le> p" using lower_bound_le [of "(<)" ids a] by (simp_all add: p_def)
  ultimately show thesis
    using assms by (intro that [of "take i ids" "drop n (drop i ids)"])
      (auto simp: w p_def [symmetric] i_def n_def min_def)
qed

lemma sorted_list_of_set_split3:
  assumes "finite (T :: 'p::linorder set)" "f \<le> t"
  shows "sorted_list_of_set T = sorted_list_of_set (T \<inter> {..<f}) @ sorted_list_of_set (T \<inter> {f..t})
    @ sorted_list_of_set (T \<inter> {t<..})"
    (is "_ = ?a @ ?b @ ?c")
proof -
  have "sorted (?a @ ?b @ ?c)" "distinct (?a @ ?b @ ?c)"
    using assms by (fastforce simp: sorted_append)+
  moreover have "set (?a @ ?b @ ?c) = T" using assms by auto
  ultimately show ?thesis by (metis sorted_list_of_set.idem_if_sorted_distinct)
qed

text \<open>
  Whatever agrees with the server answers exactly: the ids of a result are consecutive among the
  existing ones, and the two numbers, when given, are how many come before and after.
\<close>

lemma query_exact:
  assumes sound: "slices_sound T slices" and fin: "finite T" and bounds: "T \<subseteq> {lo..hi}"
    and i: "slice_around slices a = Some i" and lim: "0 \<le> limitBefore" "0 \<le> limitAfter"
    and cnt: "cnt = None \<or> cnt = Some (int (card T))"
    and r: "r = queryFromSlice lo hi a limitBefore limitAfter cnt (slices ! i)"
  shows "\<exists>pre post. sorted_list_of_set T = pre @ qr_messageIds r @ post
    \<and> (\<forall>n. qr_skippedBefore r = Some n \<longrightarrow> n = int (length pre))
    \<and> (\<forall>n. qr_skippedAfter r = Some n \<longrightarrow> n = int (length post))"
proof -
  obtain as s bs where sp: "slices = as @ s # bs" "slices ! i = s" "slice_ok s"
    using slice_around_Some [OF _ i] sound by (metis nth_append_length slices_sound_def)
  have srt: "sorted_wrt (<) (messages s)" and ft: "sl_from s \<le> sl_till s"
    using sp(3) by (auto simp: slice_ok_def)
  have "set (messages s) = T \<inter> {sl_from s..sl_till s}"
    using slice_messages_known [of as s bs] sound sp(1) by (auto simp: slices_sound_def)
  then have ms: "messages s = sorted_list_of_set (T \<inter> {sl_from s..sl_till s})"
    using srt by (metis sorted_list_of_set.idem_if_sorted_distinct strict_sorted_iff)
  let ?w = "slice_window a limitBefore limitAfter (messages s)"
  let ?p = "int (lower_bound (<) (messages s) a)" and ?n = "int (length (messages s))"
  obtain u v where uv: "messages s = u @ ?w @ v"
    "int (length u) = ?p - min ?p limitBefore"
    "int (length v) = (?n - ?p) - min (?n - ?p) (limitAfter + 1)"
    using window_split [OF lim] .
  define pre post where "pre = sorted_list_of_set (T \<inter> {..<sl_from s}) @ u"
    and "post = v @ sorted_list_of_set (T \<inter> {sl_till s<..})"
  have all: "sorted_list_of_set T = pre @ ?w @ post"
    using sorted_list_of_set_split3 [OF fin ft] uv(1) ms by (simp add: pre_def post_def)
  have "sorted_wrt (<) ?w"
    unfolding slice_window_def Let_def using srt by (simp add: sorted_wrt_take sorted_wrt_drop)
  then have mg: "flat_set_merge (<) ?w [] = ?w" by (rule less_cmp.set_merge_empty)
  have ids: "qr_messageIds r = ?w" using mg by (simp add: r sp(2) queryFromSlice_def Let_def)
  have "length (sorted_list_of_set T) = card T" by simp
  then have len: "int (card T) = int (length pre) + int (length ?w) + int (length post)"
    unfolding all by simp
  have "sl_from s = lo \<Longrightarrow> T \<inter> {..<sl_from s} = {}" "sl_till s = hi \<Longrightarrow> T \<inter> {sl_till s<..} = {}"
    using bounds by (auto simp: subset_iff)
  then have b: "sl_from s = lo \<Longrightarrow> length pre = length u"
    and e: "sl_till s = hi \<Longrightarrow> length post = length v"
    by (simp_all add: pre_def post_def)
  have "\<forall>n. qr_skippedBefore r = Some n \<longrightarrow> n = int (length pre)"
    "\<forall>n. qr_skippedAfter r = Some n \<longrightarrow> n = int (length post)"
    unfolding r sp(2) queryFromSlice_def Let_def mg
    using cnt b e uv(2,3) len by (auto split: option.splits if_splits)
  with all ids show ?thesis by auto
qed

text \<open>Inside a range of one position there is at most one slice.\<close>

lemma added_single:
  assumes sound: "slices_sound T slices" and new: "m \<notin> T"
    and add: "add_slice_or_unite [m] m m slices = Some (slices', upd, added)"
  shows "added = 1"
proof -
  have ok: "slices_ok slices" and kn: "known slices \<subseteq> T"
    using sound by (auto simp: slices_sound_def)
  obtain as us bs s where eq: "slices = as @ us @ bs" and ok': "slices_ok (as @ s # bs)"
    and s: "set (messages s) = insert m (known us)" and us: "\<forall>u \<in> set us. m \<le> sl_till u \<and> sl_from u \<le> m"
    and added: "added = int (length (messages s)) - (if us = [] then 0 else int (length (messages (hd us))))"
    by (rule add_slice_or_unite_ok [OF ok order_refl, of "[m]" m]) (use add in auto)
  have dist: "distinct (messages s)"
    using ok' by (auto simp: slices_ok_append slices_ok_Cons slice_ok_def strict_sorted_iff)
  have m: "m \<notin> known us" using new kn by (auto simp: eq)
  show ?thesis
  proof (cases us)
    case Nil
    with s dist have "length (messages s) = 1" by (simp add: distinct_card [symmetric])
    with added Nil show ?thesis by simp
  next
    case (Cons u us')
    have "us' = []"
    proof (cases us')
      case (Cons v vs)
      then have "sl_till u < sl_from v"
        using ok by (simp add: eq \<open>us = u # us'\<close> slices_ok_append slices_ok_Cons)
      then show ?thesis using us by (auto simp: \<open>us = u # us'\<close> Cons)
    qed
    moreover have "distinct (messages u)"
      using ok by (auto simp: eq Cons slices_ok_append slices_ok_Cons slice_ok_def strict_sorted_iff)
    ultimately have "length (messages s) = Suc (length (messages u))"
      using s dist m by (simp add: Cons distinct_card [symmetric])
    with added Cons show ?thesis by simp
  qed
qed

lemma sound_full_slice:
  assumes "slices_sound T [s]" "T \<subseteq> {sl_from s..sl_till s}"
  shows "length (messages s) = card T"
proof -
  have "set (messages s) = T" "distinct (messages s)"
    using assms by (auto simp: slices_sound_def slices_ok_Cons slice_ok_def strict_sorted_iff)
  then show ?thesis by (metis distinct_card)
qed

end
