(* ===== verification/IdStore.thy ===== *)
theory IdStore
  imports SliceList
begin

text \<open>
  The interface that the rest of the application uses of a list of known ids, whichever list it is:
  reports come in, and the list stays in agreement with the server. A report is truthful when it
  says what the server has at that moment.
\<close>

datatype 'p report =
    NewMessage 'p
  | Page "'p list" 'p 'p "int option"
  | Deleted 'p
  | BottomInvalidated

fun after_report :: "'p report \<Rightarrow> 'p set \<Rightarrow> 'p set" where
  "after_report (NewMessage m) T = insert m T"
| "after_report (Page ms f t cnt) T = T"
| "after_report (Deleted m) T = T - {m}"
| "after_report BottomInvalidated T = T"

fun truthful :: "('p::linorder \<Rightarrow> bool) \<Rightarrow> 'p set \<Rightarrow> 'p report \<Rightarrow> bool" where
  "truthful in_range T (NewMessage m) \<longleftrightarrow> in_range m \<and> (\<forall>x \<in> T. x < m)"
| "truthful in_range T (Page ms f t cnt) \<longleftrightarrow> in_range f \<and> in_range t \<and> f \<le> t
     \<and> set ms = T \<inter> {f..t} \<and> (cnt = None \<or> cnt = Some (int (card T)))"
| "truthful in_range T (Deleted m) \<longleftrightarrow> m \<in> T"
| "truthful in_range T BottomInvalidated \<longleftrightarrow> True"

fun all_truthful :: "('p::linorder \<Rightarrow> bool) \<Rightarrow> 'p set \<Rightarrow> 'p report list \<Rightarrow> bool" where
  "all_truthful in_range T [] \<longleftrightarrow> True"
| "all_truthful in_range T (r # rs) \<longleftrightarrow>
     truthful in_range T r \<and> all_truthful in_range (after_report r T) rs"

fun apply_reports :: "('p report \<Rightarrow> 's \<Rightarrow> 's option) \<Rightarrow> 'p report list \<Rightarrow> 's \<Rightarrow> 's option" where
  "apply_reports ap [] l = Some l"
| "apply_reports ap (r # rs) l =
     (case ap r l of None \<Rightarrow> None | Some l' \<Rightarrow> apply_reports ap rs l')"

locale id_store =
  fixes ap :: "('p::linorder) report \<Rightarrow> 's \<Rightarrow> 's option"
    and in_range :: "'p \<Rightarrow> bool"
    and sound :: "'p set \<Rightarrow> 's \<Rightarrow> bool"
  assumes report_sound: "sound T l \<Longrightarrow> truthful in_range T r \<Longrightarrow>
    \<exists>l'. ap r l = Some l' \<and> sound (after_report r T) l'"
begin

lemma reports_sound:
  assumes "sound T l" "all_truthful in_range T rs"
  shows "\<exists>l'. apply_reports ap rs l = Some l' \<and> sound (fold after_report rs T) l'"
  using assms
proof (induction rs arbitrary: T l)
  case (Cons r rs)
  then obtain l' where "ap r l = Some l'" "sound (after_report r T) l'"
    using report_sound [of T l r] by auto
  with Cons show ?case by auto
qed simp

end

end
