(* ===== verification/SliceBuilder.thy ===== *)
theory SliceBuilder
  imports IdStore
begin

text \<open>
  The builders that turn results and updates of a list into the slice a view shows:
  \<open>MessagesSliceBuilder\<close> of \<open>data/data_messages.cpp\<close> and \<open>SparseIdsSliceBuilder\<close> of
  \<open>data/data_sparse_ids.cpp\<close>. They are the same code over two kinds of ids; what differs is the
  record \<open>id_kind\<close>. The events of \<open>_insufficientAround\<close> are collected in \<open>b_requests\<close>; a failed
  \<open>Assert\<close> is \<open>None\<close>. (\<open>MessagesSliceBuilder::_range\<close> is written once and never read.)
\<close>

datatype LoadDirection = Around | Before | After

datatype RequestDirection = RequestBefore | RequestAfter

text \<open>
  Whether a key is set, the default id, the value standing for a missing first or last id and the
  test against it, and the first and the last id there can be.
\<close>

record 'p id_kind =
  kd_set :: "'p \<Rightarrow> bool"
  kd_zero :: 'p
  kd_impossible :: 'p
  kd_was :: "'p \<Rightarrow> bool"
  kd_first :: 'p
  kd_last :: 'p

definition msg_id_kind :: "MsgId id_kind" where
  "msg_id_kind = \<lparr>kd_set = (\<lambda>m. m \<noteq> 0), kd_zero = 0, kd_impossible = -1, kd_was = (\<lambda>m. m \<ge> 0),
     kd_first = 0, kd_last = ServerMaxMsgId\<rparr>"

definition position_kind :: "MessagePosition id_kind" where
  "position_kind = \<lparr>kd_set = mp_valid, kd_zero = MessagePosition (FullMsgId (PeerId 0) 0) 0,
     kd_impossible = MessagePosition (FullMsgId (PeerId 0) 0) (-1),
     kd_was = (\<lambda>m. m \<noteq> MessagePosition (FullMsgId (PeerId 0) 0) (-1)),
     kd_first = MinMessagePosition, kd_last = MaxMessagePosition\<rparr>"

record 'p builder =
  b_key :: 'p
  b_ids :: "'p list"
  b_fullCount :: "int option"
  b_skippedBefore :: "int option"
  b_skippedAfter :: "int option"
  b_limitBefore :: int
  b_limitAfter :: int
  b_requests :: "('p \<times> LoadDirection) list"

definition builder_new :: "'p \<Rightarrow> int \<Rightarrow> int \<Rightarrow> 'p builder" where
  "builder_new key limitBefore limitAfter =
     \<lparr>b_key = key, b_ids = [], b_fullCount = None, b_skippedBefore = None, b_skippedAfter = None,
      b_limitBefore = limitBefore, b_limitAfter = limitAfter, b_requests = []\<rparr>"

definition builder_requestMessages :: "RequestDirection \<Rightarrow> 'p builder \<Rightarrow> 'p builder" where
  "builder_requestMessages direction b =
     b\<lparr>b_requests := b_requests b @
         [if b_ids b = [] then (b_key b, Around)
          else if direction = RequestBefore then (hd (b_ids b), Before)
          else (last (b_ids b), After)]\<rparr>"

definition builder_requestMessagesCount :: "'p id_kind \<Rightarrow> 'p builder \<Rightarrow> 'p builder" where
  "builder_requestMessagesCount kd b = b\<lparr>b_requests := b_requests b @ [(kd_zero kd, Around)]\<rparr>"

text \<open>\<open>!skipped || *skipped > 0\<close>: there may be more on that side.\<close>

definition maybe_more :: "int option \<Rightarrow> bool" where
  "maybe_more skipped = (case skipped of None \<Rightarrow> True | Some n \<Rightarrow> n > 0)"

text \<open>The two halves of \<open>sliceToLimits\<close>; the flag is \<open>requestedSomething\<close>.\<close>

definition builder_cutBegin :: "int \<Rightarrow> 'p builder \<Rightarrow> 'p builder \<times> bool" where
  "builder_cutBegin removeFromBegin b =
     (if removeFromBegin > 0 then
        (b\<lparr>b_ids := erase_range 0 (nat removeFromBegin) (b_ids b),
           b_skippedBefore := map_option (\<lambda>n. n + removeFromBegin) (b_skippedBefore b)\<rparr>, False)
      else if removeFromBegin < 0 \<and> maybe_more (b_skippedBefore b) then
        (builder_requestMessages RequestBefore b, True)
      else (b, False))"

definition builder_cutEnd :: "int \<Rightarrow> 'p builder \<Rightarrow> 'p builder \<times> bool" where
  "builder_cutEnd removeFromEnd b =
     (if removeFromEnd > 0 then
        (b\<lparr>b_ids := erase_range (length (b_ids b) - nat removeFromEnd) (length (b_ids b)) (b_ids b),
           b_skippedAfter := map_option (\<lambda>n. n + removeFromEnd) (b_skippedAfter b)\<rparr>, False)
      else if removeFromEnd < 0 \<and> maybe_more (b_skippedAfter b) then
        (builder_requestMessages RequestAfter b, True)
      else (b, False))"

definition builder_sliceToLimits :: "('p::linorder) id_kind \<Rightarrow> 'p builder \<Rightarrow> 'p builder" where
  "builder_sliceToLimits kd b =
     (if \<not> kd_set kd (b_key b) then
        (if b_fullCount b = None then builder_requestMessagesCount kd b else b)
      else
        let aroundIt = lower_bound (<) (b_ids b) (b_key b);
            removeFromBegin = int aroundIt - b_limitBefore b;
            removeFromEnd = int (length (b_ids b)) - int aroundIt - b_limitAfter b - 1;
            (b1, requested1) = builder_cutBegin removeFromBegin b;
            (b2, requested2) = builder_cutEnd removeFromEnd b1
        in if b_fullCount b2 = None \<and> \<not> (requested1 \<or> requested2)
           then builder_requestMessagesCount kd b2 else b2)"

definition builder_checkInsufficient :: "('p::linorder) id_kind \<Rightarrow> 'p builder \<Rightarrow> 'p builder" where
  "builder_checkInsufficient = builder_sliceToLimits"

definition builder_fillSkippedAndSliceToLimits :: "('p::linorder) id_kind \<Rightarrow> 'p builder \<Rightarrow> 'p builder" where
  "builder_fillSkippedAndSliceToLimits kd b =
     builder_sliceToLimits kd
       (case (b_fullCount b, b_skippedBefore b, b_skippedAfter b) of
          (Some c, Some before, None) \<Rightarrow>
            b\<lparr>b_skippedAfter := Some (c - before - int (length (b_ids b)))\<rparr>
        | (Some c, None, Some after) \<Rightarrow>
            b\<lparr>b_skippedBefore := Some (c - after - int (length (b_ids b)))\<rparr>
        | _ \<Rightarrow> b)"

definition adjustSkippedBefore :: "('p::linorder) list \<Rightarrow> 'p \<Rightarrow> int \<Rightarrow> int option" where
  "adjustSkippedBefore ids oldId oldSkippedBefore =
     (let it = flat_set_find (<) oldId ids in
      if it = length ids then None else Some (max (oldSkippedBefore - int it) 0))"

definition adjustSkippedAfter :: "('p::linorder) list \<Rightarrow> 'p \<Rightarrow> int \<Rightarrow> int option" where
  "adjustSkippedAfter ids oldId oldSkippedAfter =
     (let it = flat_set_find (<) oldId ids in
      if it = length ids then None
      else Some (max (oldSkippedAfter - (int (length ids) - int it - 1)) 0))"

text \<open>
  The choice between the argument, the old value and nothing; the outer option is the \<open>Assert\<close>.
\<close>

definition choose_skipped ::
    "('p \<Rightarrow> int \<Rightarrow> int option) \<Rightarrow> int option \<Rightarrow> 'p \<Rightarrow> bool \<Rightarrow> 'p \<Rightarrow> int option \<Rightarrow> int option option" where
  "choose_skipped adjust arg argId was wasId old =
     (case arg of
        Some n \<Rightarrow> map_option Some (adjust argId n)
      | None \<Rightarrow> (case old of
            Some n \<Rightarrow> if was then map_option Some (adjust wasId n) else Some None
          | None \<Rightarrow> Some None))"

definition builder_mergeSliceData ::
    "('p::linorder) id_kind \<Rightarrow> int option \<Rightarrow> 'p list \<Rightarrow> int option \<Rightarrow> int option \<Rightarrow> 'p builder
      \<Rightarrow> 'p builder option" where
  "builder_mergeSliceData kd cnt messageIds skippedBefore skippedAfter b =
     (if messageIds = [] then
        let b1 = (case cnt of
              Some c \<Rightarrow>
                if b_fullCount b \<noteq> Some c then
                  (if size_ge (length (b_ids b)) c
                   then b\<lparr>b_fullCount := Some (int (length (b_ids b))),
                          b_skippedBefore := Some 0, b_skippedAfter := Some 0\<rparr>
                   else b\<lparr>b_fullCount := Some c\<rparr>)
                else b
            | None \<Rightarrow> b)
        in Some (builder_fillSkippedAndSliceToLimits kd b1)
      else
        let b1 = (if cnt \<noteq> None then b\<lparr>b_fullCount := cnt\<rparr> else b);
            wasMinId = (if b_ids b = [] then kd_impossible kd else hd (b_ids b));
            wasMaxId = (if b_ids b = [] then kd_impossible kd else last (b_ids b));
            ids = flat_set_merge (<) messageIds (b_ids b)
        in case choose_skipped (adjustSkippedBefore ids) skippedBefore (hd messageIds)
              (kd_was kd wasMinId) wasMinId (b_skippedBefore b) of
             None \<Rightarrow> None
           | Some before \<Rightarrow>
             (case choose_skipped (adjustSkippedAfter ids) skippedAfter (last messageIds)
                 (kd_was kd wasMaxId) wasMaxId (b_skippedAfter b) of
                None \<Rightarrow> None
              | Some after \<Rightarrow>
                Some (builder_fillSkippedAndSliceToLimits kd
                  (b1\<lparr>b_ids := ids, b_skippedBefore := before, b_skippedAfter := after\<rparr>))))"

definition builder_applyInitial ::
    "('p::linorder) id_kind \<Rightarrow> 'p query_result \<Rightarrow> 'p builder \<Rightarrow> ('p builder \<times> bool) option" where
  "builder_applyInitial kd result b =
     map_option (\<lambda>b'. (b', True))
       (builder_mergeSliceData kd (qr_count result) (qr_messageIds result)
          (qr_skippedBefore result) (qr_skippedAfter result) b)"

definition builder_applyUpdate ::
    "('p::linorder) id_kind \<Rightarrow> 'p slice_update \<Rightarrow> 'p builder \<Rightarrow> ('p builder \<times> bool) option" where
  "builder_applyUpdate kd update b =
     (let lo = (if b_ids b = [] then b_key b else hd (b_ids b));
          hi = (if b_ids b = [] then b_key b else last (b_ids b));
          needMergeMessages = (su_messages update \<noteq> None
            \<and> su_from update \<le> hi \<and> lo \<le> su_till update)
      in if \<not> needMergeMessages \<and> su_count update = None then Some (b, False)
         else map_option (\<lambda>b'. (b', True))
           (builder_mergeSliceData kd (su_count update)
              (if needMergeMessages then the (su_messages update) else [])
              (if su_from update = kd_first kd then Some 0 else None)
              (if su_till update = kd_last kd then Some 0 else None) b))"

text \<open>The part of \<open>removeOne\<close> before the check of \<open>SparseIdsSliceBuilder\<close>.\<close>

definition builder_removeOne :: "'p \<Rightarrow> ('p::linorder) builder \<Rightarrow> 'p builder \<times> bool" where
  "builder_removeOne messageId b =
     (let (b1, changed1) = (case b_fullCount b of
            Some c \<Rightarrow> if c > 0 then (b\<lparr>b_fullCount := Some (c - 1)\<rparr>, True) else (b, False)
          | None \<Rightarrow> (b, False))
      in if flat_multi_set_contains (<) messageId (b_ids b1)
         then (b1\<lparr>b_ids := fst (flat_set_remove (<) messageId (b_ids b1))\<rparr>, True)
         else if b_ids b1 \<noteq> [] then
           (if hd (b_ids b1) > messageId \<and> b_skippedBefore b1 \<noteq> None \<and> the (b_skippedBefore b1) > 0
            then (b1\<lparr>b_skippedBefore := Some (the (b_skippedBefore b1) - 1)\<rparr>, True)
            else if last (b_ids b1) < messageId \<and> b_skippedAfter b1 \<noteq> None \<and> the (b_skippedAfter b1) > 0
            then (b1\<lparr>b_skippedAfter := Some (the (b_skippedAfter b1) - 1)\<rparr>, True)
            else (b1, changed1))
         else (b1, changed1))"

definition builder_removeAll :: "'p builder \<Rightarrow> 'p builder \<times> bool" where
  "builder_removeAll b =
     (b\<lparr>b_ids := [], b_fullCount := Some 0, b_skippedBefore := Some 0, b_skippedAfter := Some 0\<rparr>, True)"

definition builder_bottomInvalidated ::
    "('p::linorder) id_kind \<Rightarrow> 'p builder \<Rightarrow> 'p builder \<times> bool" where
  "builder_bottomInvalidated kd b =
     (builder_checkInsufficient kd (b\<lparr>b_fullCount := None, b_skippedAfter := None\<rparr>), True)"

definition builder_invalidated ::
    "('p::linorder) id_kind \<Rightarrow> 'p builder \<Rightarrow> 'p builder \<times> bool" where
  "builder_invalidated kd b =
     (builder_checkInsufficient kd (b\<lparr>b_ids := [], b_fullCount := None, b_skippedBefore := None,
        b_skippedAfter := None\<rparr>), False)"

section \<open>What a builder holds\<close>

text \<open>
  The ids are consecutive among the existing ones, and the numbers, when known, are right.
\<close>

definition segment :: "('p::linorder) set \<Rightarrow> 'p list \<Rightarrow> int option \<Rightarrow> int option \<Rightarrow> bool" where
  "segment T ids before after \<longleftrightarrow> (\<exists>pre post. sorted_list_of_set T = pre @ ids @ post
     \<and> (\<forall>n. before = Some n \<longrightarrow> n = int (length pre))
     \<and> (\<forall>n. after = Some n \<longrightarrow> n = int (length post)))"

definition builder_sound :: "('p::linorder) set \<Rightarrow> 'p builder \<Rightarrow> bool" where
  "builder_sound T b \<longleftrightarrow> finite T \<and> segment T (b_ids b) (b_skippedBefore b) (b_skippedAfter b)
     \<and> (\<forall>c. b_fullCount b = Some c \<longrightarrow> c = int (card T))"

lemma segmentI:
  "sorted_list_of_set T = pre @ ids @ post \<Longrightarrow> (\<And>n. before = Some n \<Longrightarrow> n = int (length pre)) \<Longrightarrow>
    (\<And>n. after = Some n \<Longrightarrow> n = int (length post)) \<Longrightarrow> segment T ids before after"
  unfolding segment_def by blast

lemma segment_None: "segment T ids before after \<Longrightarrow> segment T ids None None"
  by (auto simp: segment_def)

lemma segment_empty: "segment T [] None None"
  by (rule segmentI [of T "[]" _ "sorted_list_of_set T"]) auto

lemma segment_sorted: "segment T ids before after \<Longrightarrow> sorted_wrt (<) ids"
proof -
  assume "segment T ids before after"
  then obtain pre post where "sorted_list_of_set T = pre @ ids @ post" by (auto simp: segment_def)
  moreover have "sorted_wrt (<) (sorted_list_of_set T)" by simp
  ultimately show ?thesis by (metis sorted_wrt_append)
qed

lemma segment_erase_begin:
  assumes "segment T ids before after" "k \<le> length ids"
  shows "segment T (drop k ids) (map_option (\<lambda>n. n + int k) before) after"
proof -
  obtain pre post where s: "sorted_list_of_set T = pre @ ids @ post"
    "\<forall>n. before = Some n \<longrightarrow> n = int (length pre)" "\<forall>n. after = Some n \<longrightarrow> n = int (length post)"
    using assms(1) by (auto simp: segment_def)
  have "sorted_list_of_set T = (pre @ take k ids) @ drop k ids @ post" using s(1) by simp
  then show ?thesis by (rule segmentI) (use s assms(2) in auto)
qed

lemma segment_erase_end:
  assumes "segment T ids before after" "k \<le> length ids"
  shows "segment T (take (length ids - k) ids) before (map_option (\<lambda>n. n + int k) after)"
proof -
  obtain pre post where s: "sorted_list_of_set T = pre @ ids @ post"
    "\<forall>n. before = Some n \<longrightarrow> n = int (length pre)" "\<forall>n. after = Some n \<longrightarrow> n = int (length post)"
    using assms(1) by (auto simp: segment_def)
  have "sorted_list_of_set T = pre @ take (length ids - k) ids @ (drop (length ids - k) ids @ post)"
    using s(1) by simp
  then show ?thesis by (rule segmentI) (use s assms(2) in auto)
qed

lemma segment_length:
  assumes "segment T ids (Some n) (Some k)" "finite T"
  shows "n + int (length ids) + k = int (card T)"
proof -
  obtain pre post where s: "sorted_list_of_set T = pre @ ids @ post" "n = int (length pre)"
    "k = int (length post)" using assms(1) by (auto simp: segment_def)
  have "length (sorted_list_of_set T) = card T" by simp
  then show ?thesis unfolding s(1) using s(2,3) by simp
qed

section \<open>Cutting to the limits\<close>

lemma sound_requests [simp]: "builder_sound T (b\<lparr>b_requests := r\<rparr>) = builder_sound T b"
  by (simp add: builder_sound_def)

lemma sound_request [simp]:
  "builder_sound T (builder_requestMessages d b) = builder_sound T b"
  "builder_sound T (builder_requestMessagesCount kd b) = builder_sound T b"
  by (simp_all add: builder_requestMessages_def builder_requestMessagesCount_def)

lemma request_fields [simp]:
  "b_ids (builder_requestMessages d b) = b_ids b"
  "b_ids (builder_requestMessagesCount kd b) = b_ids b"
  "b_skippedBefore (builder_requestMessages d b) = b_skippedBefore b"
  "b_skippedAfter (builder_requestMessages d b) = b_skippedAfter b"
  "b_fullCount (builder_requestMessages d b) = b_fullCount b"
  "b_key (builder_requestMessages d b) = b_key b"
  "b_key (builder_requestMessagesCount kd b) = b_key b"
  by (simp_all add: builder_requestMessages_def builder_requestMessagesCount_def)

lemma cutBegin_ids: "b_ids (fst (builder_cutBegin k b)) = drop (nat k) (b_ids b)"
  by (simp add: builder_cutBegin_def erase_range_def)

lemma cutEnd_ids: "b_ids (fst (builder_cutEnd k b)) = take (length (b_ids b) - nat k) (b_ids b)"
  by (simp add: builder_cutEnd_def erase_range_def)

lemma cutBegin_sound:
  "builder_sound T b \<Longrightarrow> k \<le> int (length (b_ids b)) \<Longrightarrow> builder_sound T (fst (builder_cutBegin k b))"
  using segment_erase_begin [of T "b_ids b" "b_skippedBefore b" "b_skippedAfter b" "nat k"]
  by (auto simp: builder_cutBegin_def erase_range_def builder_sound_def)

lemma cutEnd_sound:
  "builder_sound T b \<Longrightarrow> k \<le> int (length (b_ids b)) \<Longrightarrow> builder_sound T (fst (builder_cutEnd k b))"
  using segment_erase_end [of T "b_ids b" "b_skippedBefore b" "b_skippedAfter b" "nat k"]
  by (auto simp: builder_cutEnd_def erase_range_def builder_sound_def)

lemma sliceToLimits_unfold:
  assumes "kd_set kd (b_key b)"
  defines "p \<equiv> int (lower_bound (<) (b_ids b) (b_key b))"
  defines "b1 \<equiv> fst (builder_cutBegin (p - b_limitBefore b) b)"
  defines "b2 \<equiv> fst (builder_cutEnd (int (length (b_ids b)) - p - b_limitAfter b - 1) b1)"
  shows "builder_sliceToLimits kd b = b2 \<or>
    builder_sliceToLimits kd b = builder_requestMessagesCount kd b2"
  unfolding builder_sliceToLimits_def Let_def b1_def b2_def p_def
  using assms(1) by (simp add: case_prod_beta)

lemma sliceToLimits_sound:
  assumes sound: "builder_sound T b" and lim: "0 \<le> b_limitBefore b" "0 \<le> b_limitAfter b"
  shows "builder_sound T (builder_sliceToLimits kd b)"
proof (cases "kd_set kd (b_key b)")
  case True
  define p where "p = int (lower_bound (<) (b_ids b) (b_key b))"
  have p: "0 \<le> p" "p \<le> int (length (b_ids b))"
    using lower_bound_le [of "(<)" "b_ids b" "b_key b"] by (simp_all add: p_def)
  define b1 where "b1 = fst (builder_cutBegin (p - b_limitBefore b) b)"
  have b1: "builder_sound T b1" "int (length (b_ids b1)) = int (length (b_ids b)) - max 0 (p - b_limitBefore b)"
    using cutBegin_sound [OF sound, of "p - b_limitBefore b"] p lim
    by (auto simp: b1_def cutBegin_ids)
  have "builder_sound T (fst (builder_cutEnd (int (length (b_ids b)) - p - b_limitAfter b - 1) b1))"
    using p lim b1(2) by (intro cutEnd_sound [OF b1(1)]) auto
  then show ?thesis
    using sliceToLimits_unfold [OF True] by (auto simp: p_def b1_def)
qed (use sound in \<open>auto simp: builder_sliceToLimits_def\<close>)

text \<open>After cutting, at most the limits are left on both sides of the key.\<close>

lemma sliceToLimits_bounded:
  assumes "kd_set kd (b_key b)" and lim: "0 \<le> b_limitBefore b" "0 \<le> b_limitAfter b"
  shows "int (length (b_ids (builder_sliceToLimits kd b))) \<le> b_limitBefore b + b_limitAfter b + 1"
proof -
  define p where "p = int (lower_bound (<) (b_ids b) (b_key b))"
  have p: "0 \<le> p" "p \<le> int (length (b_ids b))"
    using lower_bound_le [of "(<)" "b_ids b" "b_key b"] by (simp_all add: p_def)
  have "b_ids (builder_sliceToLimits kd b) =
    b_ids (fst (builder_cutEnd (int (length (b_ids b)) - p - b_limitAfter b - 1)
      (fst (builder_cutBegin (p - b_limitBefore b) b))))"
    using sliceToLimits_unfold [OF assms(1)] by (auto simp: p_def)
  then show ?thesis
    using p lim by (simp add: cutEnd_ids cutBegin_ids)
qed

lemma fillSkipped_sound:
  assumes sound: "builder_sound T b" and lim: "0 \<le> b_limitBefore b" "0 \<le> b_limitAfter b"
  shows "builder_sound T (builder_fillSkippedAndSliceToLimits kd b)"
proof -
  let ?b = "case (b_fullCount b, b_skippedBefore b, b_skippedAfter b) of
          (Some c, Some before, None) \<Rightarrow>
            b\<lparr>b_skippedAfter := Some (c - before - int (length (b_ids b)))\<rparr>
        | (Some c, None, Some after) \<Rightarrow>
            b\<lparr>b_skippedBefore := Some (c - after - int (length (b_ids b)))\<rparr>
        | _ \<Rightarrow> b"
  obtain pre post where s: "sorted_list_of_set T = pre @ b_ids b @ post"
    "\<forall>n. b_skippedBefore b = Some n \<longrightarrow> n = int (length pre)"
    "\<forall>n. b_skippedAfter b = Some n \<longrightarrow> n = int (length post)"
    using sound by (auto simp: builder_sound_def segment_def)
  have "length (sorted_list_of_set T) = card T" by simp
  then have len: "int (card T) = int (length pre) + int (length (b_ids b)) + int (length post)"
    unfolding s(1) by simp
  have "segment T (b_ids b) (Some (int (length pre))) (Some (int (length post)))"
    using s(1) by (rule segmentI) auto
  then have "builder_sound T ?b"
    using s(2,3) len sound
    by (cases "b_fullCount b"; cases "b_skippedBefore b"; cases "b_skippedAfter b")
      (simp_all add: builder_sound_def)
  moreover have "0 \<le> b_limitBefore ?b" "0 \<le> b_limitAfter ?b"
    using lim by (auto split: option.splits)
  ultimately show ?thesis
    unfolding builder_fillSkippedAndSliceToLimits_def by (rule sliceToLimits_sound)
qed

section \<open>Merging\<close>

lemma segment_bounds:
  assumes seg: "segment T ids before after" and ne: "ids \<noteq> []" and fin: "finite T"
  shows "set ids = T \<inter> {hd ids..last ids}"
    "\<And>n. before = Some n \<Longrightarrow> n = int (card {y \<in> T. y < hd ids})"
    "\<And>n. after = Some n \<Longrightarrow> n = int (card {y \<in> T. last ids < y})"
proof -
  obtain pre post where s: "sorted_list_of_set T = pre @ ids @ post"
    "\<forall>n. before = Some n \<longrightarrow> n = int (length pre)" "\<forall>n. after = Some n \<longrightarrow> n = int (length post)"
    using seg by (auto simp: segment_def)
  have srt: "sorted_wrt (<) (pre @ ids @ post)" using s(1) by (metis strict_sorted_list_of_set)
  have T: "T = set (pre @ ids @ post)" using s(1) fin by (metis set_sorted_list_of_set)
  have dist: "distinct pre" "distinct post"
    using srt by (auto simp: sorted_wrt_append strict_sorted_iff)
  have hl: "hd ids \<in> set ids" "last ids \<in> set ids" using ne by auto
  have ids: "sorted_wrt (<) ids" using srt by (auto simp: sorted_wrt_append)
  have in1: "hd ids \<le> x \<and> x \<le> last ids" if "x \<in> set ids" for x
    using less_cmp.front_least [OF less_cmp.strict_imp_sorted [OF ids] that]
      less_cmp.back_greatest [OF less_cmp.strict_imp_sorted [OF ids] that] by (simp add: not_less)
  have out: "\<forall>x \<in> set pre. x < hd ids" "\<forall>x \<in> set post. last ids < x"
    using srt hl by (auto simp: sorted_wrt_append)
  have hle: "hd ids \<le> last ids" using in1 hl by blast
  show "set ids = T \<inter> {hd ids..last ids}" using in1 out hle by (fastforce simp: T)
  have "{y \<in> T. y < hd ids} = set pre" using in1 out hle by (fastforce simp: T)
  then show "before = Some n \<Longrightarrow> n = int (card {y \<in> T. y < hd ids})" for n
    using s(2) dist by (simp add: distinct_card)
  have "{y \<in> T. last ids < y} = set post" using in1 out hle by (fastforce simp: T)
  then show "after = Some n \<Longrightarrow> n = int (card {y \<in> T. last ids < y})" for n
    using s(3) dist by (simp add: distinct_card)
qed

lemma segment_intro:
  assumes fin: "finite T" and srt: "sorted_wrt (<) ids" and ne: "ids \<noteq> []"
    and set: "set ids = T \<inter> {hd ids..last ids}"
    and b: "\<And>n. before = Some n \<Longrightarrow> n = int (card {y \<in> T. y < hd ids})"
    and a: "\<And>n. after = Some n \<Longrightarrow> n = int (card {y \<in> T. last ids < y})"
  shows "segment T ids before after"
proof -
  have "hd ids \<in> {hd ids..last ids}" using set ne by (metis IntD2 hd_in_set)
  then have "sorted_list_of_set T = sorted_list_of_set (T \<inter> {..<hd ids})
    @ sorted_list_of_set (T \<inter> {hd ids..last ids}) @ sorted_list_of_set (T \<inter> {last ids<..})"
    by (intro sorted_list_of_set_split3 [OF fin]) auto
  moreover have "sorted_list_of_set (T \<inter> {hd ids..last ids}) = ids"
    using srt set by (metis sorted_list_of_set.idem_if_sorted_distinct strict_sorted_iff)
  ultimately have eq: "sorted_list_of_set T = sorted_list_of_set (T \<inter> {..<hd ids})
    @ ids @ sorted_list_of_set (T \<inter> {last ids<..})" by simp
  have "T \<inter> {..<hd ids} = {y \<in> T. y < hd ids}" "T \<inter> {last ids<..} = {y \<in> T. last ids < y}" by auto
  then show ?thesis using a b by (intro segmentI [OF eq]) auto
qed

lemma find_index:
  assumes srt: "sorted_wrt (<) (xs :: 'p::linorder list)" and x: "x \<in> set xs"
  shows "int (flat_set_find (<) x xs) = int (card {y \<in> set xs. y < x})"
    "int (length xs) - int (flat_set_find (<) x xs) - 1 = int (card {y \<in> set xs. x < y})"
    "flat_set_find (<) x xs < length xs"
proof -
  note found = less_cmp.findFirst_found [OF less_cmp.strict_imp_sorted [OF srt] x]
  have lb: "flat_set_find (<) x xs = lower_bound (<) xs x"
    using found(1) [of x] by (simp add: flat_set_find_def)
  show lt: "flat_set_find (<) x xs < length xs" using found(2) [of x] lb by simp
  have d: "distinct xs" using srt by (simp add: strict_sorted_iff)
  have c: "length (filter P xs) = card {y \<in> set xs. P y}" for P
    using d by (metis distinct_card distinct_filter set_filter)
  have "length (take (lower_bound (<) xs x) xs) = card {y \<in> set xs. y < x}"
    unfolding filter_split_sorted(1) [OF srt] by (rule c)
  then show eq: "int (flat_set_find (<) x xs) = int (card {y \<in> set xs. y < x})"
    using lt lb by simp
  have "set xs = {y \<in> set xs. y < x} \<union> insert x {y \<in> set xs. x < y}" using x by auto
  then have "card (set xs) = card {y \<in> set xs. y < x} + card (insert x {y \<in> set xs. x < y})"
    by (metis (no_types, lifting) List.finite_set card_Un_disjoint disjoint_iff finite_Un insertE
        less_asym mem_Collect_eq order_less_irrefl)
  then show "int (length xs) - int (flat_set_find (<) x xs) - 1 = int (card {y \<in> set xs. x < y})"
    using d eq by (simp add: distinct_card)
qed

text \<open>How far an old neighbour is from the new end.\<close>

lemma adjust_exact:
  assumes fin: "finite T" and srt: "sorted_wrt (<) ids" and x: "x \<in> set ids"
    and set: "set ids = T \<inter> {hd ids..last ids}"
  shows "adjustSkippedBefore ids x (int (card {y \<in> T. y < x})) = Some (int (card {y \<in> T. y < hd ids}))"
    "adjustSkippedAfter ids x (int (card {y \<in> T. x < y})) = Some (int (card {y \<in> T. last ids < y}))"
proof -
  have hx: "hd ids \<le> x" "x \<le> last ids" using x set by auto
  have "{y \<in> T. y < x} = {y \<in> T. y < hd ids} \<union> {y \<in> set ids. y < x}"
    using hx unfolding set by auto
  moreover have "{y \<in> T. y < hd ids} \<inter> {y \<in> set ids. y < x} = {}" unfolding set by auto
  ultimately have b: "card {y \<in> T. y < x} = card {y \<in> T. y < hd ids} + card {y \<in> set ids. y < x}"
    using fin by (simp add: card_Un_disjoint)
  have "{y \<in> T. x < y} = {y \<in> T. last ids < y} \<union> {y \<in> set ids. x < y}"
    using hx unfolding set by auto
  moreover have "{y \<in> T. last ids < y} \<inter> {y \<in> set ids. x < y} = {}" unfolding set by auto
  ultimately have a: "card {y \<in> T. x < y} = card {y \<in> T. last ids < y} + card {y \<in> set ids. x < y}"
    using fin by (simp add: card_Un_disjoint)
  note ix = find_index [OF srt x]
  show "adjustSkippedBefore ids x (int (card {y \<in> T. y < x})) = Some (int (card {y \<in> T. y < hd ids}))"
    using ix b by (simp add: adjustSkippedBefore_def Let_def)
  show "adjustSkippedAfter ids x (int (card {y \<in> T. x < y})) = Some (int (card {y \<in> T. last ids < y}))"
    unfolding adjustSkippedAfter_def Let_def ix(2) using ix(3) a by simp
qed

lemma hd_last_interval:
  assumes "sorted_wrt (<) (ids :: 'p::linorder list)" "ids \<noteq> []" "set ids = T \<inter> {lo..hi}"
  shows "set ids = T \<inter> {hd ids..last ids}"
proof -
  note le = less_cmp.strict_imp_sorted [OF assms(1)]
  have "hd ids \<in> set ids" "last ids \<in> set ids" using assms(2) by auto
  then have "lo \<le> hd ids" "last ids \<le> hi" using assms(3) by auto
  moreover have "hd ids \<le> x \<and> x \<le> last ids" if "x \<in> set ids" for x
    using less_cmp.front_least [OF le that] less_cmp.back_greatest [OF le that]
    by (simp add: not_less)
  ultimately show ?thesis using assms(3) by (auto intro: order_trans)
qed

text \<open>
  Two pieces of the list of existing ids, each complete over its interval, that have a position in
  common: together they are complete over the whole.
\<close>

lemma merge_intervals:
  assumes srt: "sorted_wrt (<) ids1" "sorted_wrt (<) (ids2 :: 'p::linorder list)" and ne: "ids2 \<noteq> []"
    and s1: "set ids1 = T \<inter> {lo1..hi1}" and s2: "set ids2 = T \<inter> {lo2..hi2}"
    and int: "lo1 \<le> hi2" "lo2 \<le> hi1" "lo1 \<le> hi1" "lo2 \<le> hi2"
  defines "m \<equiv> flat_set_merge (<) ids2 ids1"
  shows "sorted_wrt (<) m" "m \<noteq> []" "set m = T \<inter> {hd m..last m}" "set ids1 \<union> set ids2 = set m"
proof -
  show srtm: "sorted_wrt (<) m" unfolding m_def by (rule flat_set_less.invar_mrg)
  have set: "set m = set ids1 \<union> set ids2" unfolding m_def by (rule flat_set_less.elems_mrg)
  then show nem: "m \<noteq> []" using ne by auto
  have "{lo1..hi1} \<union> {lo2..hi2} = {min lo1 lo2..max hi1 hi2}"
    using int by (auto simp: min_le_iff_disj le_max_iff_disj)
  then have "set m = T \<inter> {min lo1 lo2..max hi1 hi2}" using set s1 s2 by (metis Int_Un_distrib)
  then show "set m = T \<inter> {hd m..last m}" by (rule hd_last_interval [OF srtm nem])
  show "set ids1 \<union> set ids2 = set m" using set by simp
qed

lemma choose_exact:
  assumes "\<And>n. arg = Some n \<Longrightarrow> adjust argId n = Some r"
    "\<And>n. was \<Longrightarrow> old = Some n \<Longrightarrow> adjust wasId n = Some r"
  obtains res where "choose_skipped adjust arg argId was wasId old = Some res"
    "\<And>n. res = Some n \<Longrightarrow> n = r"
proof (cases arg)
  case None
  with that assms(2) show thesis by (cases old; cases was) (auto simp: choose_skipped_def)
next
  case (Some n)
  with that [of "Some r"] assms(1) show thesis by (simp add: choose_skipped_def)
qed

lemma mergeSliceData_sound:
  assumes sound: "builder_sound T b" and lim: "0 \<le> b_limitBefore b" "0 \<le> b_limitAfter b"
    and ne: "ms \<noteq> []" and srt: "sorted_wrt (<) ms" and ms: "set ms = T \<inter> {lo..hi}" "lo \<le> hi"
    and cnt: "cnt = None \<or> cnt = Some (int (card T))"
    and sb: "\<And>n. sb = Some n \<Longrightarrow> n = int (card {y \<in> T. y < hd ms})"
    and sa: "\<And>n. sa = Some n \<Longrightarrow> n = int (card {y \<in> T. last ms < y})"
    and meet: "b_ids b = [] \<or> lo \<le> last (b_ids b) \<and> hd (b_ids b) \<le> hi"
    and kd: "\<not> kd_was kd (kd_impossible kd)"
  shows "\<exists>b'. builder_mergeSliceData kd cnt ms sb sa b = Some b' \<and> builder_sound T b'"
proof -
  have fin: "finite T" and seg: "segment T (b_ids b) (b_skippedBefore b) (b_skippedAfter b)"
    and c: "\<forall>c. b_fullCount b = Some c \<longrightarrow> c = int (card T)"
    using sound by (auto simp: builder_sound_def)
  define m where "m = flat_set_merge (<) ms (b_ids b)"
  have m: "sorted_wrt (<) m" "m \<noteq> []" "set m = T \<inter> {hd m..last m}" "set (b_ids b) \<union> set ms = set m"
  proof -
    have "sorted_wrt (<) m \<and> m \<noteq> [] \<and> set m = T \<inter> {hd m..last m} \<and> set (b_ids b) \<union> set ms = set m"
    proof (cases "b_ids b = []")
      case True
      then have "m = ms" using less_cmp.set_merge_empty [OF srt] by (simp add: m_def)
      with True srt ne hd_last_interval [OF srt ne ms(1)] show ?thesis by simp
    next
      case False
      note sb' = segment_bounds(1) [OF seg False fin]
      have "hd (b_ids b) \<le> last (b_ids b)" using sb' hd_in_set [OF False] by auto
      then show ?thesis
        using merge_intervals [OF segment_sorted [OF seg] srt ne sb' ms(1)] meet False ms(2)
        by (simp add: m_def)
    qed
    then show "sorted_wrt (<) m" "m \<noteq> []" "set m = T \<inter> {hd m..last m}"
      "set (b_ids b) \<union> set ms = set m" by auto
  qed
  have adj: "adjustSkippedBefore m x (int (card {y \<in> T. y < x})) = Some (int (card {y \<in> T. y < hd m}))"
    "adjustSkippedAfter m x (int (card {y \<in> T. x < y})) = Some (int (card {y \<in> T. last m < y}))"
    if "x \<in> set (b_ids b) \<union> set ms" for x
    using adjust_exact [OF fin m(1) _ m(3), of x] that m(4) by auto
  let ?mn = "if b_ids b = [] then kd_impossible kd else hd (b_ids b)"
  let ?mx = "if b_ids b = [] then kd_impossible kd else last (b_ids b)"
  have b1: "adjustSkippedBefore m (hd ms) n = Some (int (card {y \<in> T. y < hd m}))" if "sb = Some n" for n
    using sb [OF that] adj(1) [of "hd ms"] ne by simp
  have b2: "adjustSkippedBefore m ?mn n = Some (int (card {y \<in> T. y < hd m}))"
    if "kd_was kd ?mn" "b_skippedBefore b = Some n" for n
    using that kd segment_bounds(2) [OF seg _ fin that(2)] adj(1) [of ?mn] by (auto split: if_splits)
  obtain before where before: "choose_skipped (adjustSkippedBefore m) sb (hd ms)
      (kd_was kd ?mn) ?mn (b_skippedBefore b) = Some before"
    "\<And>n. before = Some n \<Longrightarrow> n = int (card {y \<in> T. y < hd m})"
    using choose_exact [of sb "adjustSkippedBefore m" "hd ms"
        "int (card {y \<in> T. y < hd m})" "kd_was kd ?mn" "b_skippedBefore b" ?mn, OF b1 b2] by blast
  have a1: "adjustSkippedAfter m (last ms) n = Some (int (card {y \<in> T. last m < y}))" if "sa = Some n" for n
    using sa [OF that] adj(2) [of "last ms"] ne by simp
  have a2: "adjustSkippedAfter m ?mx n = Some (int (card {y \<in> T. last m < y}))"
    if "kd_was kd ?mx" "b_skippedAfter b = Some n" for n
    using that kd segment_bounds(3) [OF seg _ fin that(2)] adj(2) [of ?mx] by (auto split: if_splits)
  obtain after where after: "choose_skipped (adjustSkippedAfter m) sa (last ms)
      (kd_was kd ?mx) ?mx (b_skippedAfter b) = Some after"
    "\<And>n. after = Some n \<Longrightarrow> n = int (card {y \<in> T. last m < y})"
    using choose_exact [of sa "adjustSkippedAfter m" "last ms"
        "int (card {y \<in> T. last m < y})" "kd_was kd ?mx" "b_skippedAfter b" ?mx, OF a1 a2] by blast
  let ?b = "(if cnt \<noteq> None then b\<lparr>b_fullCount := cnt\<rparr> else b)
    \<lparr>b_ids := m, b_skippedBefore := before, b_skippedAfter := after\<rparr>"
  have "segment T m before after" by (rule segment_intro [OF fin m(1-3) before(2) after(2)])
  then have "builder_sound T ?b" using fin c cnt by (auto simp: builder_sound_def)
  then have "builder_sound T (builder_fillSkippedAndSliceToLimits kd ?b)"
    by (rule fillSkipped_sound) (use lim in auto)
  moreover have "builder_mergeSliceData kd cnt ms sb sa b
      = Some (builder_fillSkippedAndSliceToLimits kd ?b)"
    unfolding builder_mergeSliceData_def Let_def m_def [symmetric] using ne before(1) after(1) by simp
  ultimately show ?thesis by blast
qed

lemma mergeSliceData_empty_sound:
  assumes sound: "builder_sound T b" and lim: "0 \<le> b_limitBefore b" "0 \<le> b_limitAfter b"
    and cnt: "cnt = None \<or> cnt = Some (int (card T))" and small: "card T < 2 ^ 64"
  shows "\<exists>b'. builder_mergeSliceData kd cnt [] sb sa b = Some b' \<and> builder_sound T b'"
proof -
  let ?b = "case cnt of
      Some c \<Rightarrow> if b_fullCount b \<noteq> Some c then
          (if size_ge (length (b_ids b)) c
           then b\<lparr>b_fullCount := Some (int (length (b_ids b))),
                  b_skippedBefore := Some 0, b_skippedAfter := Some 0\<rparr>
           else b\<lparr>b_fullCount := Some c\<rparr>)
        else b
    | None \<Rightarrow> b"
  have fin: "finite T" and seg: "segment T (b_ids b) (b_skippedBefore b) (b_skippedAfter b)"
    using sound by (auto simp: builder_sound_def)
  obtain pre post where s: "sorted_list_of_set T = pre @ b_ids b @ post"
    using seg by (auto simp: segment_def)
  have "length (sorted_list_of_set T) = card T" by simp
  then have len: "card T = length pre + length (b_ids b) + length post" unfolding s by simp
  have "int (card T) < 2 ^ 64" using small by (simp add: zless_nat_eq_int_zless [symmetric])
  then have "size_ge (length (b_ids b)) (int (card T)) \<Longrightarrow> card T \<le> length (b_ids b)"
    by (simp add: size_ge_def)
  then have full: "segment T (b_ids b) (Some 0) (Some 0) \<and> length (b_ids b) = card T"
    if "size_ge (length (b_ids b)) (int (card T))"
    using that len s by (auto intro!: segmentI [of T "[]" _ "[]"])
  have "builder_sound T ?b"
  proof (cases "cnt = None \<or> b_fullCount b = cnt")
    case True
    then have "?b = b" by (cases cnt) auto
    with sound show ?thesis by simp
  next
    case False
    then have c: "cnt = Some (int (card T))" "b_fullCount b \<noteq> Some (int (card T))" using cnt by auto
    show ?thesis
    proof (cases "size_ge (length (b_ids b)) (int (card T))")
      case True
      with c full fin show ?thesis by (simp add: builder_sound_def)
    qed (use c fin seg in \<open>simp add: builder_sound_def\<close>)
  qed
  then have "builder_sound T (builder_fillSkippedAndSliceToLimits kd ?b)"
    by (rule fillSkipped_sound) (use lim in \<open>auto split: option.splits\<close>)
  then show ?thesis by (simp add: builder_mergeSliceData_def)
qed

text \<open>The keys and the limits never change.\<close>

definition builder_ready :: "('p::linorder) set \<Rightarrow> 'p builder \<Rightarrow> bool" where
  "builder_ready T b \<longleftrightarrow> builder_sound T b \<and> 0 \<le> b_limitBefore b \<and> 0 \<le> b_limitAfter b"

lemma cut_fields [simp]:
  "b_limitBefore (fst (builder_cutBegin k b)) = b_limitBefore b"
  "b_limitAfter (fst (builder_cutBegin k b)) = b_limitAfter b"
  "b_limitBefore (fst (builder_cutEnd k b)) = b_limitBefore b"
  "b_limitAfter (fst (builder_cutEnd k b)) = b_limitAfter b"
  "b_key (fst (builder_cutBegin k b)) = b_key b"
  "b_key (fst (builder_cutEnd k b)) = b_key b"
  by (simp_all add: builder_cutBegin_def builder_cutEnd_def builder_requestMessages_def)

lemma slice_fields [simp]:
  "b_limitBefore (builder_sliceToLimits kd b) = b_limitBefore b"
  "b_limitAfter (builder_sliceToLimits kd b) = b_limitAfter b"
  "b_key (builder_sliceToLimits kd b) = b_key b"
  by (auto simp: builder_sliceToLimits_def Let_def case_prod_beta builder_requestMessagesCount_def)

lemma fill_fields [simp]:
  "b_limitBefore (builder_fillSkippedAndSliceToLimits kd b) = b_limitBefore b"
  "b_limitAfter (builder_fillSkippedAndSliceToLimits kd b) = b_limitAfter b"
  "b_key (builder_fillSkippedAndSliceToLimits kd b) = b_key b"
  by (auto simp: builder_fillSkippedAndSliceToLimits_def split: option.splits)

lemma fill_bounded:
  assumes "kd_set kd (b_key b)" "0 \<le> b_limitBefore b" "0 \<le> b_limitAfter b"
  shows "int (length (b_ids (builder_fillSkippedAndSliceToLimits kd b)))
    \<le> b_limitBefore b + b_limitAfter b + 1"
proof -
  let ?b = "case (b_fullCount b, b_skippedBefore b, b_skippedAfter b) of
          (Some c, Some before, None) \<Rightarrow>
            b\<lparr>b_skippedAfter := Some (c - before - int (length (b_ids b)))\<rparr>
        | (Some c, None, Some after) \<Rightarrow>
            b\<lparr>b_skippedBefore := Some (c - after - int (length (b_ids b)))\<rparr>
        | _ \<Rightarrow> b"
  have same: "b_key ?b = b_key b" "b_limitBefore ?b = b_limitBefore b" "b_limitAfter ?b = b_limitAfter b"
    by (auto split: option.splits)
  show ?thesis
    unfolding builder_fillSkippedAndSliceToLimits_def
    using sliceToLimits_bounded [of kd ?b] assms by (simp only: same)
qed

text \<open>Every merge ends in \<open>fillSkippedAndSliceToLimits\<close> of a builder with the same key and limits.\<close>

lemma merge_result:
  assumes "builder_mergeSliceData kd cnt ms sb sa b = Some b'"
  shows "\<exists>b1. b' = builder_fillSkippedAndSliceToLimits kd b1 \<and> b_key b1 = b_key b
    \<and> b_limitBefore b1 = b_limitBefore b \<and> b_limitAfter b1 = b_limitAfter b"
proof (cases "ms = []")
  case True
  then show ?thesis using assms
    by (auto simp: builder_mergeSliceData_def Let_def split: option.splits if_splits)
next
  case False
  then show ?thesis using assms
    by (auto simp: builder_mergeSliceData_def Let_def split: option.splits if_splits)
qed

lemma merge_fields:
  assumes "builder_mergeSliceData kd cnt ms sb sa b = Some b'"
  shows "b_limitBefore b' = b_limitBefore b \<and> b_limitAfter b' = b_limitAfter b \<and> b_key b' = b_key b"
  using merge_result [OF assms] by auto

lemma merge_ready:
  assumes "builder_ready T b" "\<exists>b'. builder_mergeSliceData kd cnt ms sb sa b = Some b' \<and> builder_sound T b'"
  shows "\<exists>b'. builder_mergeSliceData kd cnt ms sb sa b = Some b' \<and> builder_ready T b' \<and> b_key b' = b_key b"
  using assms merge_fields unfolding builder_ready_def by metis

text \<open>A result of a query is merged into a fresh builder.\<close>

lemma applyInitial_ready:
  assumes ready: "builder_ready T b" and fresh: "b_ids b = []"
    and seg: "segment T (qr_messageIds r) (qr_skippedBefore r) (qr_skippedAfter r)"
    and cnt: "qr_count r = None \<or> qr_count r = Some (int (card T))"
    and small: "card T < 2 ^ 64" and kd: "\<not> kd_was kd (kd_impossible kd)"
  shows "\<exists>b'. builder_applyInitial kd r b = Some (b', True) \<and> builder_ready T b' \<and> b_key b' = b_key b"
proof -
  have fin: "finite T" and b: "builder_sound T b" "0 \<le> b_limitBefore b" "0 \<le> b_limitAfter b"
    using ready by (auto simp: builder_ready_def builder_sound_def)
  have "\<exists>b'. builder_mergeSliceData kd (qr_count r) (qr_messageIds r) (qr_skippedBefore r)
      (qr_skippedAfter r) b = Some b' \<and> builder_sound T b'"
  proof (cases "qr_messageIds r = []")
    case True
    then show ?thesis using mergeSliceData_empty_sound [OF b cnt small] by simp
  next
    case False
    note bounds = segment_bounds [OF seg False fin]
    have "hd (qr_messageIds r) \<le> last (qr_messageIds r)"
      using bounds(1) hd_in_set [OF False] by auto
    then show ?thesis
      using fresh by (intro mergeSliceData_sound [OF b False segment_sorted [OF seg] bounds(1) _ cnt
            bounds(2,3) _ kd]) auto
  qed
  from merge_ready [OF ready this] show ?thesis by (auto simp: builder_applyInitial_def)
qed

text \<open>An update is truthful when its messages are all that exist in its range.\<close>

definition update_sound :: "('p::linorder) set \<Rightarrow> 'p slice_update \<Rightarrow> bool" where
  "update_sound T u \<longleftrightarrow> su_from u \<le> su_till u
     \<and> (\<forall>ms. su_messages u = Some ms \<longrightarrow> sorted_wrt (<) ms \<and> set ms = T \<inter> {su_from u..su_till u})
     \<and> (su_count u = None \<or> su_count u = Some (int (card T)))"

lemma complete_ends:
  assumes srt: "sorted_wrt (<) (ms :: 'p::linorder list)" and ne: "ms \<noteq> []"
    and ms: "set ms = T \<inter> {f..t}" and bounds: "T \<subseteq> {lo..hi}"
  shows "f = lo \<Longrightarrow> card {y \<in> T. y < hd ms} = 0" "t = hi \<Longrightarrow> card {y \<in> T. last ms < y} = 0"
proof -
  note le = less_cmp.strict_imp_sorted [OF srt]
  have ends: "hd ms \<le> t" "f \<le> last ms" using ms hd_in_set [OF ne] last_in_set [OF ne] by auto
  have inside: "y \<in> set ms \<Longrightarrow> \<not> y < hd ms \<and> \<not> last ms < y" for y
    using less_cmp.front_least [OF le] less_cmp.back_greatest [OF le] by blast
  show "card {y \<in> T. y < hd ms} = 0" if "f = lo"
  proof -
    have "y \<in> set ms" if "y \<in> T" "y < hd ms" for y
      using that bounds \<open>f = lo\<close> ends ms by auto
    then have "{y \<in> T. y < hd ms} = {}" using inside by blast
    then show ?thesis by (simp only: card.empty)
  qed
  show "card {y \<in> T. last ms < y} = 0" if "t = hi"
  proof -
    have "y \<in> set ms" if "y \<in> T" "last ms < y" for y
      using that bounds \<open>t = hi\<close> ends ms by auto
    then have "{y \<in> T. last ms < y} = {}" using inside by blast
    then show ?thesis by (simp only: card.empty)
  qed
qed

lemma applyUpdate_ready:
  assumes ready: "builder_ready T b" and upd: "update_sound T u"
    and bounds: "T \<subseteq> {kd_first kd..kd_last kd}" and small: "card T < 2 ^ 64"
    and kd: "\<not> kd_was kd (kd_impossible kd)"
  shows "\<exists>b' ch. builder_applyUpdate kd u b = Some (b', ch) \<and> builder_ready T b' \<and> b_key b' = b_key b"
proof -
  have b: "builder_sound T b" "0 \<le> b_limitBefore b" "0 \<le> b_limitAfter b"
    using ready by (auto simp: builder_ready_def)
  have cnt: "su_count u = None \<or> su_count u = Some (int (card T))" and ft: "su_from u \<le> su_till u"
    using upd by (auto simp: update_sound_def)
  define need where "need \<longleftrightarrow> su_messages u \<noteq> None
    \<and> su_from u \<le> (if b_ids b = [] then b_key b else last (b_ids b))
    \<and> (if b_ids b = [] then b_key b else hd (b_ids b)) \<le> su_till u"
  define ms where "ms = (if need then the (su_messages u) else [])"
  let ?sb = "if su_from u = kd_first kd then Some 0 else None :: int option"
  let ?sa = "if su_till u = kd_last kd then Some 0 else None :: int option"
  have "\<exists>b'. builder_mergeSliceData kd (su_count u) ms ?sb ?sa b = Some b' \<and> builder_sound T b'"
  proof (cases "ms = []")
    case True
    then show ?thesis using mergeSliceData_empty_sound [OF b cnt small] by simp
  next
    case False
    then have need by (simp add: ms_def split: if_splits)
    then have "su_messages u = Some ms" unfolding need_def ms_def by auto
    with upd have ms: "sorted_wrt (<) ms" "set ms = T \<inter> {su_from u..su_till u}"
      unfolding update_sound_def by blast+
    note ends = complete_ends [OF ms(1) False ms(2) bounds]
    have meet: "b_ids b = [] \<or> su_from u \<le> last (b_ids b) \<and> hd (b_ids b) \<le> su_till u"
      using \<open>need\<close> by (auto simp: need_def)
    show ?thesis
      by (rule mergeSliceData_sound [OF b False ms ft cnt _ _ meet kd])
        (use ends in \<open>simp_all split: if_splits\<close>)
  qed
  from merge_ready [OF ready this] obtain b' where b':
    "builder_mergeSliceData kd (su_count u) ms ?sb ?sa b = Some b'" "builder_ready T b'" "b_key b' = b_key b"
    by blast
  have eq: "builder_applyUpdate kd u b = (if \<not> need \<and> su_count u = None then Some (b, False)
      else map_option (\<lambda>b'. (b', True)) (builder_mergeSliceData kd (su_count u) ms ?sb ?sa b))"
    unfolding builder_applyUpdate_def Let_def need_def ms_def by (rule refl)
  show ?thesis
    unfolding eq b'(1) using ready b'(2,3) by (cases "\<not> need \<and> su_count u = None") auto
qed

text \<open>Removing an existing id from a builder that shows something.\<close>

lemma flat_remove_remove1:
  assumes "sorted_wrt (<) (ids :: 'p::linorder list)"
  shows "fst (flat_set_remove (<) m ids) = remove1 m ids"
proof -
  have "(\<lambda>x. m < x \<or> x < m) = (\<lambda>x. m \<noteq> x)" by (auto simp: fun_eq_iff)
  then have "fst (flat_set_remove (<) m ids) = filter (\<lambda>x. m \<noteq> x) ids"
    by (simp add: flat_set_remove_def less_cmp.removeOne_filter [OF assms])
  also have "\<dots> = remove1 m ids"
    using assms by (simp add: strict_sorted_iff distinct_remove1_removeAll removeAll_filter_not_eq)
  finally show ?thesis .
qed

lemma length_remove1_int: "m \<in> set xs \<Longrightarrow> int (length (remove1 m xs)) = int (length xs) - 1"
  by (induction xs) auto

lemma segment_remove:
  assumes seg: "segment T ids before after" and fin: "finite T" and ne: "ids \<noteq> []" and m: "m \<in> T"
  shows "m \<in> set ids \<Longrightarrow> segment (T - {m}) (remove1 m ids) before after"
    "m \<notin> set ids \<Longrightarrow> m < hd ids \<Longrightarrow> segment (T - {m}) ids (map_option (\<lambda>n. n - 1) before) after
      \<and> (\<forall>n. before = Some n \<longrightarrow> n > 0)"
    "m \<notin> set ids \<Longrightarrow> last ids < m \<Longrightarrow> segment (T - {m}) ids before (map_option (\<lambda>n. n - 1) after)
      \<and> (\<forall>n. after = Some n \<longrightarrow> n > 0)"
    "m \<notin> set ids \<Longrightarrow> m < hd ids \<or> last ids < m"
proof -
  obtain pre post where s: "sorted_list_of_set T = pre @ ids @ post"
    "\<forall>n. before = Some n \<longrightarrow> n = int (length pre)" "\<forall>n. after = Some n \<longrightarrow> n = int (length post)"
    using seg by (auto simp: segment_def)
  have srt: "sorted_wrt (<) (pre @ ids @ post)" using s(1) by (metis strict_sorted_list_of_set)
  have mem: "m \<in> set (pre @ ids @ post)" using m fin s(1) by (metis set_sorted_list_of_set)
  have rm: "sorted_list_of_set (T - {m}) = remove1 m (pre @ ids @ post)"
    using sorted_list_of_set_remove [OF fin, of m] s(1) by simp
  have hl: "hd ids \<in> set ids" "last ids \<in> set ids" using ne by auto
  have sep: "\<forall>x \<in> set pre. \<forall>y \<in> set ids. x < y" "\<forall>x \<in> set ids. \<forall>y \<in> set post. x < y"
    "\<forall>x \<in> set pre. \<forall>y \<in> set post. x < y"
    using srt by (auto simp: sorted_wrt_append)
  show "segment (T - {m}) (remove1 m ids) before after" if "m \<in> set ids"
  proof -
    have "m \<notin> set pre" using sep(1) that by blast
    then have "sorted_list_of_set (T - {m}) = pre @ remove1 m ids @ post"
      using rm that by (simp add: remove1_append)
    then show ?thesis by (rule segmentI) (use s in auto)
  qed
  show "segment (T - {m}) ids (map_option (\<lambda>n. n - 1) before) after
      \<and> (\<forall>n. before = Some n \<longrightarrow> n > 0)" if "m \<notin> set ids" "m < hd ids"
  proof -
    have "m \<in> set pre" using mem that sep(2) hl by (auto dest: order.asym)
    then have "sorted_list_of_set (T - {m}) = remove1 m pre @ ids @ post" "0 < length pre"
      using rm by (auto simp: remove1_append)
    moreover have "int (length (remove1 m pre)) = int (length pre) - 1"
      using \<open>m \<in> set pre\<close> by (rule length_remove1_int)
    ultimately show ?thesis using s by (auto intro!: segmentI [of _ "remove1 m pre"])
  qed
  show "segment (T - {m}) ids before (map_option (\<lambda>n. n - 1) after)
      \<and> (\<forall>n. after = Some n \<longrightarrow> n > 0)" if "m \<notin> set ids" "last ids < m"
  proof -
    have "m \<notin> set pre" using that sep(1) hl by (auto dest: order.asym)
    with mem that have "m \<in> set post" by auto
    then have "sorted_list_of_set (T - {m}) = pre @ ids @ remove1 m post" "0 < length post"
      using rm that \<open>m \<notin> set pre\<close> by (auto simp: remove1_append)
    moreover have "int (length (remove1 m post)) = int (length post) - 1"
      using \<open>m \<in> set post\<close> by (rule length_remove1_int)
    ultimately show ?thesis using s by (auto intro!: segmentI [of _ pre _ "remove1 m post"])
  qed
  show "m < hd ids \<or> last ids < m" if "m \<notin> set ids"
    using mem that sep hl by auto
qed

lemma removeOne_ready:
  assumes ready: "builder_ready T b" and ne: "b_ids b \<noteq> []" and m: "m \<in> T"
  shows "builder_ready (T - {m}) (fst (builder_removeOne m b))"
proof -
  have fin: "finite T" and seg: "segment T (b_ids b) (b_skippedBefore b) (b_skippedAfter b)"
    and c: "\<forall>c. b_fullCount b = Some c \<longrightarrow> c = int (card T)"
    and lim: "0 \<le> b_limitBefore b" "0 \<le> b_limitAfter b"
    using ready by (auto simp: builder_ready_def builder_sound_def)
  have card: "int (card T) > 0" "int (card (T - {m})) = int (card T) - 1"
    using m fin card_gt_0_iff [of T] card_Suc_Diff1 [OF fin m] by auto
  define b1 where "b1 = (case b_fullCount b of
      Some c \<Rightarrow> if c > 0 then b\<lparr>b_fullCount := Some (c - 1)\<rparr> else b | None \<Rightarrow> b)"
  have b1: "b_ids b1 = b_ids b" "b_skippedBefore b1 = b_skippedBefore b"
    "b_skippedAfter b1 = b_skippedAfter b" "b_limitBefore b1 = b_limitBefore b"
    "b_limitAfter b1 = b_limitAfter b" "\<forall>c. b_fullCount b1 = Some c \<longrightarrow> c = int (card (T - {m}))"
    using c card by (auto simp: b1_def split: option.splits)
  have split: "(case b_fullCount b of Some c \<Rightarrow>
        if c > 0 then (b\<lparr>b_fullCount := Some (c - 1)\<rparr>, True) else (b, False) | None \<Rightarrow> (b, False))
      = (b1, b_fullCount b \<noteq> None \<and> the (b_fullCount b) > 0)"
    by (auto simp: b1_def split: option.splits)
  have srt: "sorted_wrt (<) (b_ids b)" by (rule segment_sorted [OF seg])
  note contains = flat_set_less.mem_elems [OF srt, of m]
  note rem = segment_remove [OF seg fin ne m]
  have res: "fst (builder_removeOne m b) =
    (if m \<in> set (b_ids b) then b1\<lparr>b_ids := remove1 m (b_ids b)\<rparr>
     else if m < hd (b_ids b) \<and> b_skippedBefore b \<noteq> None \<and> the (b_skippedBefore b) > 0
     then b1\<lparr>b_skippedBefore := Some (the (b_skippedBefore b) - 1)\<rparr>
     else if last (b_ids b) < m \<and> b_skippedAfter b \<noteq> None \<and> the (b_skippedAfter b) > 0
     then b1\<lparr>b_skippedAfter := Some (the (b_skippedAfter b) - 1)\<rparr> else b1)"
    unfolding builder_removeOne_def split Let_def prod.case b1(1-3) contains
      flat_remove_remove1 [OF srt] if_P [OF ne]
    by (simp only: if_distrib [of fst] fst_conv cong: if_cong)
  show ?thesis
  proof (cases "m \<in> set (b_ids b)")
    case True
    with rem(1) res b1 fin lim show ?thesis by (simp add: builder_ready_def builder_sound_def)
  next
    case False
    have le: "hd (b_ids b) \<le> last (b_ids b)"
      using segment_bounds(1) [OF seg ne fin] hd_in_set [OF ne] by auto
    show ?thesis
      using rem(4) [OF False]
    proof
      assume lt: "m < hd (b_ids b)"
      with le have "\<not> last (b_ids b) < m" by auto
      with lt rem(2) [OF False lt] res False b1 fin lim show ?thesis
        by (cases "b_skippedBefore b") (auto simp: builder_ready_def builder_sound_def)
    next
      assume lt: "last (b_ids b) < m"
      with le have "\<not> m < hd (b_ids b)" by auto
      with lt rem(3) [OF False lt] res False b1 fin lim show ?thesis
        by (cases "b_skippedAfter b") (auto simp: builder_ready_def builder_sound_def)
    qed
  qed
qed

lemma slice_ready:
  "builder_ready T b \<Longrightarrow> builder_ready T (builder_sliceToLimits kd b)"
  by (simp add: builder_ready_def sliceToLimits_sound)

lemma bottomInvalidated_ready:
  assumes "builder_ready T b"
  shows "builder_ready T (fst (builder_bottomInvalidated kd b))"
proof -
  have "builder_ready T (b\<lparr>b_fullCount := None, b_skippedAfter := None\<rparr>)"
    using assms by (auto simp: builder_ready_def builder_sound_def segment_def)
  then show ?thesis by (simp add: builder_bottomInvalidated_def builder_checkInsufficient_def slice_ready)
qed

lemma removeAll_ready:
  "builder_ready T b \<Longrightarrow> builder_ready {} (fst (builder_removeAll b))"
  by (simp add: builder_ready_def builder_sound_def builder_removeAll_def segment_def)

lemma new_ready:
  assumes "finite T" "0 \<le> limitBefore" "0 \<le> limitAfter"
  shows "builder_ready T (builder_new key limitBefore limitAfter)"
  using assms by (auto simp: builder_ready_def builder_sound_def builder_new_def segment_def)

section \<open>The source of a builder\<close>

text \<open>
  What a builder needs of the list behind it: the list takes reports, and what a query returns is an
  exact piece of what exists. A view built from any reported state is then exact too.
\<close>

locale exact_store = id_store ap in_range sound
  for ap :: "('p::linorder) report \<Rightarrow> 's \<Rightarrow> 's option"
    and in_range :: "'p \<Rightarrow> bool" and sound :: "'p set \<Rightarrow> 's \<Rightarrow> bool" +
  fixes look :: "'p \<Rightarrow> int \<Rightarrow> int \<Rightarrow> 's \<Rightarrow> 'p query_result"
    and kd :: "'p id_kind"
  assumes look_exact: "sound T l \<Longrightarrow> 0 \<le> limitBefore \<Longrightarrow> 0 \<le> limitAfter \<Longrightarrow>
      segment T (qr_messageIds (look a limitBefore limitAfter l))
        (qr_skippedBefore (look a limitBefore limitAfter l))
        (qr_skippedAfter (look a limitBefore limitAfter l))
      \<and> qr_count (look a limitBefore limitAfter l) \<in> {None, Some (int (card T))}"
    and sound_finite: "sound T l \<Longrightarrow> finite T"
    and kind: "\<not> kd_was kd (kd_impossible kd)"
begin

lemma view_ready:
  assumes "sound T l" "0 \<le> limitBefore" "0 \<le> limitAfter" "card T < 2 ^ 64"
  shows "\<exists>b. builder_applyInitial kd (look a limitBefore limitAfter l)
      (builder_new a limitBefore limitAfter) = Some (b, True) \<and> builder_ready T b \<and> b_key b = a"
proof -
  note look = look_exact [OF assms(1-3), of a]
  have "builder_ready T (builder_new a limitBefore limitAfter)"
    by (rule new_ready [OF sound_finite [OF assms(1)] assms(2,3)])
  from applyInitial_ready [OF this _ conjunct1 [OF look] _ assms(4) kind] look show ?thesis
    by (auto simp: builder_new_def)
qed

lemma reported_view_ready:
  assumes "sound T l" "all_truthful in_range T rs" "0 \<le> limitBefore" "0 \<le> limitAfter"
    and "card (fold after_report rs T) < 2 ^ 64"
  shows "\<exists>l' b. apply_reports ap rs l = Some l' \<and> builder_applyInitial kd
      (look a limitBefore limitAfter l') (builder_new a limitBefore limitAfter) = Some (b, True)
    \<and> builder_ready (fold after_report rs T) b \<and> b_key b = a"
  using reports_sound [OF assms(1,2)] view_ready [OF _ assms(3-5)] by blast

end

end
