(* ===== verification/MessagesList.thy ===== *)
theory MessagesList
  imports IdStore
begin

text \<open>
  \<open>data/data_messages.cpp\<close>: the list of known message positions of a chat feed. It differs from the
  sparse list of ids in its bounds, in that a page with no messages still counts as knowledge, in
  that the count never widens a range, and in \<open>addOne\<close>, \<open>removeLessThan\<close> and \<open>invalidate\<close>.
\<close>

record messages_list =
  ml_count :: "int option"
  ml_slices :: "MessagePosition slice list"

definition mlist_Slice_merge ::
    "MessagePosition list \<Rightarrow> MessagePosition \<Rightarrow> MessagePosition \<Rightarrow> MessagePosition slice
      \<Rightarrow> MessagePosition slice option" where
  "mlist_Slice_merge = Slice_merge"

definition mlist_uniteAndAdd ::
    "nat \<Rightarrow> nat \<Rightarrow> MessagePosition list \<Rightarrow> MessagePosition \<Rightarrow> MessagePosition
      \<Rightarrow> MessagePosition slice list
      \<Rightarrow> (MessagePosition slice list \<times> MessagePosition slice_update \<times> int) option" where
  "mlist_uniteAndAdd = uniteAndAdd"

definition mlist_addRangeItemsAndCountNew ::
    "MessagePosition list \<Rightarrow> MessagePosition \<Rightarrow> MessagePosition \<Rightarrow> MessagePosition slice list
      \<Rightarrow> (MessagePosition slice list \<times> MessagePosition slice_update \<times> int) option" where
  "mlist_addRangeItemsAndCountNew ms f t slices =
     (if f \<le> t then add_slice_or_unite ms f t slices else None)"

definition mlist_addRange ::
    "MessagePosition list \<Rightarrow> MessagePosition \<Rightarrow> MessagePosition \<Rightarrow> int option \<Rightarrow> bool
      \<Rightarrow> messages_list \<Rightarrow> (messages_list \<times> MessagePosition slice_update) option" where
  "mlist_addRange ms f t cnt incrementCount l =
     (if cnt \<noteq> None \<and> incrementCount then None
      else case mlist_addRangeItemsAndCountNew ms f t (ml_slices l) of
        None \<Rightarrow> None
      | Some (slices1, update, result) \<Rightarrow>
        let count1 = (case cnt of Some c \<Rightarrow> Some c
              | None \<Rightarrow> (case ml_count l of
                    Some c \<Rightarrow> Some (if incrementCount \<and> result > 0 then c + result else c)
                  | None \<Rightarrow> None));
            count2 = (if length slices1 = 1 \<and> sl_from (hd slices1) = MinMessagePosition
                  \<and> sl_till (hd slices1) = MaxMessagePosition
                then Some (int (length (messages (hd slices1)))) else count1)
        in Some (\<lparr>ml_count = count2, ml_slices = slices1\<rparr>, update\<lparr>su_count := count2\<rparr>))"

definition mlist_addOne ::
    "MessagePosition \<Rightarrow> messages_list \<Rightarrow> (messages_list \<times> MessagePosition slice_update) option" where
  "mlist_addOne messageId l = mlist_addRange [messageId] messageId messageId None True l"

definition mlist_addNew ::
    "MessagePosition \<Rightarrow> messages_list \<Rightarrow> (messages_list \<times> MessagePosition slice_update) option" where
  "mlist_addNew messageId l = mlist_addRange [messageId] messageId MaxMessagePosition None True l"

definition mlist_addSlice ::
    "MessagePosition list \<Rightarrow> MessagePosition \<Rightarrow> MessagePosition \<Rightarrow> int option
      \<Rightarrow> messages_list \<Rightarrow> (messages_list \<times> MessagePosition slice_update) option" where
  "mlist_addSlice messageIds f t cnt l = mlist_addRange messageIds f t cnt False l"

text \<open>The update is fired only when a slice covers the removed position.\<close>

definition mlist_removeOne ::
    "MessagePosition \<Rightarrow> messages_list \<Rightarrow> messages_list \<times> MessagePosition slice_update option" where
  "mlist_removeOne messageId l =
     (let slices' = slices_removeOne messageId (ml_slices l);
          count' = map_option (\<lambda>c. c - 1) (ml_count l);
          update = map_option (\<lambda>i. \<lparr>su_messages = Some (messages (slices' ! i)),
              su_from = sl_from (slices' ! i), su_till = sl_till (slices' ! i), su_count = count'\<rparr>)
            (slice_around (ml_slices l) messageId)
      in (\<lparr>ml_count = count', ml_slices = slices'\<rparr>, update))"

text \<open>
  The loop erases or modifies the first of the remaining slices, so it is a recursion on the list;
  it returns the slices and the number of removed messages.
\<close>

fun removeLessThan_loop ::
    "MessagePosition \<Rightarrow> MessagePosition slice list \<Rightarrow> MessagePosition slice list \<times> int" where
  "removeLessThan_loop p [] = ([], 0)"
| "removeLessThan_loop p (s # rest) =
     (if sl_till s \<le> p then
        (let (slices', removed) = removeLessThan_loop p rest
         in (slices', int (length (messages s)) + removed))
      else if sl_from s \<le> p then
        (let till = lower_bound (<) (messages s) p
         in (flat_set_modify slice_less 0
               (\<lambda>s. s\<lparr>sl_from := MinMessagePosition, messages := erase_range 0 till (messages s)\<rparr>)
               (s # rest),
             int till))
      else (s # rest, 0))"

definition mlist_removeLessThan :: "MessagePosition \<Rightarrow> messages_list \<Rightarrow> messages_list" where
  "mlist_removeLessThan messageId l =
     (let (slices', removed) = removeLessThan_loop messageId (ml_slices l)
      in \<lparr>ml_count = (if removed \<noteq> 0 then map_option (\<lambda>c. c - removed) (ml_count l) else ml_count l),
          ml_slices = slices'\<rparr>)"

definition mlist_invalidate :: "messages_list \<Rightarrow> messages_list" where
  "mlist_invalidate l = \<lparr>ml_count = None, ml_slices = []\<rparr>"

definition mlist_invalidateBottom :: "messages_list \<Rightarrow> messages_list" where
  "mlist_invalidateBottom l =
     \<lparr>ml_count = None, ml_slices = slices_invalidateBottom MaxMessagePosition (ml_slices l)\<rparr>"

definition mlist_queryFromSlice ::
    "MessagePosition \<Rightarrow> int \<Rightarrow> int \<Rightarrow> int option \<Rightarrow> MessagePosition slice
      \<Rightarrow> MessagePosition query_result" where
  "mlist_queryFromSlice = queryFromSlice MinMessagePosition MaxMessagePosition"

definition mlist_queryCurrent ::
    "MessagePosition \<Rightarrow> int \<Rightarrow> int \<Rightarrow> messages_list \<Rightarrow> MessagePosition query_result" where
  "mlist_queryCurrent aroundId limitBefore limitAfter l =
     (if \<not> mp_valid aroundId then empty_result
      else case slice_around (ml_slices l) aroundId of
        Some i \<Rightarrow> mlist_queryFromSlice aroundId limitBefore limitAfter (ml_count l) (ml_slices l ! i)
      | None \<Rightarrow> empty_result)"

text \<open>\<open>query\<close> and \<open>viewer\<close> emit only results that say something.\<close>

definition mlist_query ::
    "MessagePosition \<Rightarrow> int \<Rightarrow> int \<Rightarrow> messages_list \<Rightarrow> MessagePosition query_result list" where
  "mlist_query aroundId limitBefore limitAfter l =
     (let current = mlist_queryCurrent aroundId limitBefore limitAfter l in
      if qr_count current \<noteq> None \<or> qr_messageIds current \<noteq> [] then [current] else [])"

definition mlist_snapshot ::
    "MessagePosition \<Rightarrow> int \<Rightarrow> int \<Rightarrow> messages_list \<Rightarrow> MessagePosition query_result" where
  "mlist_snapshot = mlist_queryCurrent"

definition mlist_empty :: "messages_list \<Rightarrow> bool" where
  "mlist_empty l \<longleftrightarrow> list_all (\<lambda>s. messages s = []) (ml_slices l)"

text \<open>The values of a viewer while the list goes through the given states.\<close>

definition mlist_viewer ::
    "MessagePosition \<Rightarrow> int \<Rightarrow> int \<Rightarrow> messages_list \<Rightarrow> messages_list list
      \<Rightarrow> MessagePosition query_result list" where
  "mlist_viewer aroundId limitBefore limitAfter l updates =
     filter (\<lambda>v. qr_count v \<noteq> None \<or> qr_messageIds v \<noteq> [])
       (map (mlist_queryCurrent aroundId limitBefore limitAfter) (l # updates))"

section \<open>Agreement with the server\<close>

definition mlist_sound :: "MessagePosition set \<Rightarrow> messages_list \<Rightarrow> bool" where
  "mlist_sound T l \<longleftrightarrow> slices_sound T (ml_slices l) \<and> finite T
     \<and> T \<subseteq> {MinMessagePosition..MaxMessagePosition}
     \<and> (\<forall>c. ml_count l = Some c \<longrightarrow> c = int (card T))"

lemma mlist_addRange_sound:
  assumes sound: "mlist_sound T l" and T': "T' = T \<union> set ms" "set ms = T' \<inter> {f..t}"
    and range: "f \<le> t" "T' \<subseteq> {MinMessagePosition..MaxMessagePosition}"
    and cnt: "cnt = None \<and> (T' = T \<or> incrementCount)
      \<or> cnt = Some (int (card T')) \<and> \<not> incrementCount"
    and inc: "incrementCount \<Longrightarrow> ms = [f] \<and> (t = f \<and> f \<notin> T \<or> (\<forall>x \<in> T. x < f))"
  shows "\<exists>l' u. mlist_addRange ms f t cnt incrementCount l = Some (l', u) \<and> mlist_sound T' l'"
proof -
  have snd: "slices_sound T (ml_slices l)" and fin: "finite T"
    and c: "\<forall>c. ml_count l = Some c \<longrightarrow> c = int (card T)"
    using sound by (auto simp: mlist_sound_def)
  have ok: "slices_ok (ml_slices l)" and msin: "\<forall>m \<in> set ms. f \<le> m \<and> m \<le> t"
    using snd T' by (auto simp: slices_sound_def)
  obtain slices1 upd added where add: "add_slice_or_unite ms f t (ml_slices l) = Some (slices1, upd, added)"
    by (rule add_slice_or_unite_ok [OF ok range(1) msin])
  note snd1 = slices_sound_add [OF snd range(1) T' add]
  have one: "added = 1" "T' = insert f T" "f \<notin> T" if incrementCount
    using inc [OF that] T'(1) add added_fresh [OF snd _ range(1)] added_single [OF snd, of f] by auto
  define count1 where "count1 = counted cnt incrementCount (ml_count l) added"
  have count1: "\<forall>c. count1 = Some c \<longrightarrow> c = int (card T')"
  proof (cases incrementCount)
    case True
    with one cnt c fin show ?thesis by (auto simp: count1_def counted_def split: option.splits)
  qed (use cnt c in \<open>auto simp: count1_def counted_def split: option.splits\<close>)
  have full: "length (messages s) = card T'"
    if "slices1 = [s]" "sl_from s = MinMessagePosition" "sl_till s = MaxMessagePosition" for s
    using sound_full_slice [of T' s] snd1 range(2) that by simp
  have "cnt = None \<or> \<not> incrementCount" using cnt by auto
  then have "\<exists>u. mlist_addRange ms f t cnt incrementCount l = Some (\<lparr>ml_count =
      (if length slices1 = 1 \<and> sl_from (hd slices1) = MinMessagePosition
          \<and> sl_till (hd slices1) = MaxMessagePosition
        then Some (int (length (messages (hd slices1)))) else count1), ml_slices = slices1\<rparr>, u)"
    unfolding mlist_addRange_def mlist_addRangeItemsAndCountNew_def if_P [OF range(1)] add
      option.case prod.case Let_def counted_def [symmetric] count1_def [symmetric] by auto
  moreover have "finite T'" using fin T'(1) by simp
  ultimately show ?thesis
    using snd1 range(2) count1 full by (auto simp: mlist_sound_def length_Suc_conv)
qed

lemma mlist_addSlice_sound:
  assumes "mlist_sound T l" "f \<le> t" "set ms = T \<inter> {f..t}" "cnt = None \<or> cnt = Some (int (card T))"
  shows "\<exists>l' u. mlist_addSlice ms f t cnt l = Some (l', u) \<and> mlist_sound T l'"
proof -
  have "T \<subseteq> {MinMessagePosition..MaxMessagePosition}" using assms(1) by (simp add: mlist_sound_def)
  then show ?thesis
    unfolding mlist_addSlice_def using assms by (intro mlist_addRange_sound [OF assms(1)]) auto
qed

lemma mlist_addNew_sound:
  assumes sound: "mlist_sound T l" and m: "MinMessagePosition \<le> m" "m \<le> MaxMessagePosition"
    and fresh: "\<forall>x \<in> T. x < m"
  shows "\<exists>l' u. mlist_addNew m l = Some (l', u) \<and> mlist_sound (insert m T) l'"
proof -
  have "T \<inter> {m..MaxMessagePosition} = {}" using fresh by force
  moreover have "insert m T \<subseteq> {MinMessagePosition..MaxMessagePosition}"
    using sound m by (auto simp: mlist_sound_def)
  ultimately show ?thesis
    unfolding mlist_addNew_def using assms by (intro mlist_addRange_sound [OF sound]) auto
qed

lemma mlist_addOne_sound:
  assumes sound: "mlist_sound T l" and m: "MinMessagePosition \<le> m" "m \<le> MaxMessagePosition"
    and new: "m \<notin> T"
  shows "\<exists>l' u. mlist_addOne m l = Some (l', u) \<and> mlist_sound (insert m T) l'"
proof -
  have "insert m T \<subseteq> {MinMessagePosition..MaxMessagePosition}"
    using sound m by (auto simp: mlist_sound_def)
  then show ?thesis
    unfolding mlist_addOne_def using assms by (intro mlist_addRange_sound [OF sound]) auto
qed

lemma mlist_removeOne_sound:
  assumes sound: "mlist_sound T l" and m: "m \<in> T"
  shows "mlist_sound (T - {m}) (fst (mlist_removeOne m l))"
proof -
  have "slices_ok (ml_slices l)" "finite T"
    using sound by (auto simp: mlist_sound_def slices_sound_def)
  moreover from this(2) have "int (card (T - {m})) = int (card T) - 1"
    using m card_Suc_Diff1 [of T m] by simp
  ultimately show ?thesis
    using sound slices_removeOne_ok [of "ml_slices l" m]
    by (auto simp: mlist_sound_def mlist_removeOne_def slices_sound_def Let_def)
qed

lemma mlist_invalidateBottom_sound:
  assumes "mlist_sound T l"
  shows "mlist_sound T (mlist_invalidateBottom l)"
proof -
  have ok: "slices_ok (ml_slices l)" and eq: "known (ml_slices l) = T \<inter> covered (ml_slices l)"
    using assms by (auto simp: mlist_sound_def slices_sound_def)
  note inv = slices_invalidateBottom_ok [OF ok, of MaxMessagePosition]
  show ?thesis
    using assms inv eq known_covered [OF inv(1)]
    by (auto simp: mlist_sound_def mlist_invalidateBottom_def slices_sound_def)
qed

fun mlist_report :: "MessagePosition report \<Rightarrow> messages_list \<Rightarrow> messages_list option" where
  "mlist_report (NewMessage m) l = map_option fst (mlist_addNew m l)"
| "mlist_report (Page ms f t cnt) l = map_option fst (mlist_addSlice ms f t cnt l)"
| "mlist_report (Deleted m) l = Some (fst (mlist_removeOne m l))"
| "mlist_report BottomInvalidated l = Some (mlist_invalidateBottom l)"

abbreviation feed_position :: "MessagePosition \<Rightarrow> bool" where
  "feed_position m \<equiv> MinMessagePosition \<le> m \<and> m \<le> MaxMessagePosition"

interpretation mlist_store: id_store mlist_report feed_position mlist_sound
proof
  fix T l r
  assume sound: "mlist_sound T l" and tr: "truthful feed_position T r"
  show "\<exists>l'. mlist_report r l = Some l' \<and> mlist_sound (after_report r T) l'"
  proof (cases r)
    case (NewMessage m)
    with tr mlist_addNew_sound [OF sound, of m] show ?thesis by auto
  next
    case (Page ms f t cnt)
    with tr mlist_addSlice_sound [OF sound, of f t ms cnt] show ?thesis by auto
  qed (use tr sound mlist_removeOne_sound mlist_invalidateBottom_sound in auto)
qed

text \<open>\<open>removeLessThan\<close> follows a server that dropped everything before a position.\<close>

lemma removeLessThan_slice:
  assumes ok: "slices_ok (s # rest)" and s: "sl_from s \<le> p" "p < sl_till s" "MinMessagePosition \<le> sl_from s"
  shows "fst (removeLessThan_loop p (s # rest)) = s\<lparr>sl_from := MinMessagePosition,
      messages := filter (\<lambda>m. p \<le> m) (messages s)\<rparr> # rest"
proof -
  let ?g = "\<lambda>x. x\<lparr>sl_from := MinMessagePosition,
      messages := erase_range 0 (lower_bound (<) (messages s) p) (messages x)\<rparr>"
  have "\<forall>b \<in> set rest. MinMessagePosition < sl_from b"
    using neighbours(2) [of "[]" s rest] ok s(3) by (auto intro: le_less_trans)
  then have "flat_set_modify slice_less 0 ?g (s # rest) = ?g s # rest"
    using slices_modify_fun [of "[]" ?g s rest] by simp
  moreover have "sorted_wrt (<) (messages s)" using ok by (simp add: slices_ok_Cons slice_ok_def)
  then have "erase_range 0 (lower_bound (<) (messages s) p) (messages s) = filter (\<lambda>m. p \<le> m) (messages s)"
    by (simp add: erase_range_def filter_split_sorted(2))
  ultimately show ?thesis
    using s(1,2) by (auto simp: Let_def not_le [symmetric] cong: if_cong)
qed

lemma removeLessThan_sound:
  assumes "slices_sound T slices" "\<forall>x \<in> covered slices \<union> T. MinMessagePosition \<le> x"
  shows "slices_sound {x \<in> T. p \<le> x} (fst (removeLessThan_loop p slices))"
  using assms
proof (induction slices)
  case (Cons s rest)
  have ok: "slices_ok (s # rest)" and kn: "known (s # rest) = T \<inter> covered (s # rest)"
    using Cons.prems by (auto simp: slices_sound_def)
  have sok: "slice_ok s" and later: "\<forall>b \<in> set rest. sl_till s < sl_from b" and okr: "slices_ok rest"
    using ok by (auto simp: slices_ok_Cons)
  have ft: "sl_from s \<le> sl_till s" using sok by (rule slice_ok_range)
  have min: "MinMessagePosition \<le> sl_from s" using Cons.prems(2) ft by auto
  have disj: "x \<notin> covered rest" if "x \<le> sl_till s" for x
    using that later by (auto simp: covered_def dest: bspec)
  have ms: "set (messages s) = T \<inter> {sl_from s..sl_till s}"
    using slice_messages_known [of "[]" s rest] ok kn by auto
  have knr: "known rest = T \<inter> covered rest"
  proof
    have "known rest \<subseteq> T" using kn by auto
    then show "known rest \<subseteq> T \<inter> covered rest" using known_covered [OF okr] by auto
    show "T \<inter> covered rest \<subseteq> known rest"
    proof
      fix x assume x: "x \<in> T \<inter> covered rest"
      then have "x \<notin> set (messages s)" using ms disj by auto
      moreover have "x \<in> known (s # rest)" using kn x by auto
      ultimately show "x \<in> known rest" by simp
    qed
  qed
  have pos: "p < sl_from b" if "b \<in> set rest" "p < sl_till s" for b
    using that later by (meson less_trans)
  consider "sl_till s \<le> p" | "p < sl_till s" "sl_from s \<le> p" | "p < sl_from s" by fastforce
  then show ?case
  proof cases
    case 1
    have "slices_sound T rest" using okr knr by (simp add: slices_sound_def)
    with 1 Cons.IH Cons.prems(2) show ?thesis by (simp add: case_prod_beta Let_def)
  next
    case 2
    let ?s = "s\<lparr>sl_from := MinMessagePosition, messages := filter (\<lambda>m. p \<le> m) (messages s)\<rparr>"
    have oks: "slices_ok (?s # rest)"
      using sok ft min later okr unfolding slices_ok_Cons slice_ok_def
      by (auto simp: sorted_wrt_filter intro: order_trans)
    have "x \<in> covered rest \<Longrightarrow> p \<le> x" for x
      using 2 disj [of x] by (meson le_less_linear less_imp_le order_trans)
    then have "known (?s # rest) = {x \<in> T. p \<le> x} \<inter> covered (?s # rest)"
      using ms knr 2 Cons.prems(2) by (auto intro: order_trans)
    with oks show ?thesis
      unfolding removeLessThan_slice [OF ok 2(2,1) min] by (simp add: slices_sound_def)
  next
    case 3
    then have "x \<in> covered (s # rest) \<Longrightarrow> p \<le> x" for x
      using disj [of x] ft by (cases "x \<le> sl_till s") auto
    with 3 ft ok kn show ?thesis by (auto simp: slices_sound_def)
  qed
qed (simp add: slices_sound_def)

text \<open>
  C3. Any sequence of truthful reports (new messages, pages, deletions, bottom invalidations) is
  taken by the messages list without a failed assertion, and afterwards the list holds exactly the
  positions that exist in the ranges it covers, with the right count if it has one.
\<close>

theorem mlist_reports_sound:
  assumes "finite T" "T \<subseteq> {MinMessagePosition..MaxMessagePosition}"
    and "all_truthful feed_position T rs"
  shows "\<exists>l. apply_reports mlist_report rs (mlist_invalidate l0) = Some l
    \<and> known (ml_slices l) = fold after_report rs T \<inter> covered (ml_slices l)
    \<and> slices_ok (ml_slices l)
    \<and> (\<forall>c. ml_count l = Some c \<longrightarrow> c = int (card (fold after_report rs T)))"
proof -
  have "mlist_sound T (mlist_invalidate l0)"
    using assms by (simp add: mlist_sound_def mlist_invalidate_def slices_sound_def)
  from mlist_store.reports_sound [OF this assms(3)] show ?thesis
    by (auto simp: mlist_sound_def slices_sound_def)
qed

abbreviation feed_pos :: "MsgId \<Rightarrow> int \<Rightarrow> MessagePosition" where
  "feed_pos m d \<equiv> MessagePosition (FullMsgId (PeerId 42) m) d"

theorem mlist_reports_sound_witness:
  "\<exists>l. apply_reports mlist_report
     [Page [feed_pos 5 100] (feed_pos 4 90) (feed_pos 6 110) None, NewMessage (feed_pos 7 120),
      Deleted (feed_pos 5 100)] (mlist_invalidate \<lparr>ml_count = Some 3, ml_slices = []\<rparr>) = Some l
    \<and> slices_ok (ml_slices l)"
proof -
  have "all_truthful feed_position {feed_pos 5 100}
     [Page [feed_pos 5 100] (feed_pos 4 90) (feed_pos 6 110) None, NewMessage (feed_pos 7 120),
      Deleted (feed_pos 5 100)]"
    by (auto simp: less_eq_MessagePosition_def less_MessagePosition_def less_FullMsgId_def
        less_PeerId_def MinMessagePosition_def MaxMessagePosition_def MaxDate_def)
  moreover have "{feed_pos 5 100} \<subseteq> {MinMessagePosition..MaxMessagePosition}"
    by (auto simp: less_eq_MessagePosition_def less_MessagePosition_def less_FullMsgId_def
        less_PeerId_def MinMessagePosition_def MaxMessagePosition_def MaxDate_def)
  ultimately show ?thesis
    using mlist_reports_sound [of "{feed_pos 5 100}"
        "[Page [feed_pos 5 100] (feed_pos 4 90) (feed_pos 6 110) None, NewMessage (feed_pos 7 120),
          Deleted (feed_pos 5 100)]"
        "\<lparr>ml_count = Some 3, ml_slices = []\<rparr>"] by blast
qed

text \<open>
  A current query around a covered position is exact: the positions it returns are consecutive
  among all that exist, and the numbers it gives of skipped ones are right.
\<close>

theorem mlist_queryCurrent_exact:
  assumes "mlist_sound T l" "mp_valid a" "a \<in> covered (ml_slices l)" "0 \<le> limitBefore" "0 \<le> limitAfter"
    and r: "r = mlist_queryCurrent a limitBefore limitAfter l"
  shows "\<exists>pre post. sorted_list_of_set T = pre @ qr_messageIds r @ post
    \<and> (\<forall>n. qr_skippedBefore r = Some n \<longrightarrow> n = int (length pre))
    \<and> (\<forall>n. qr_skippedAfter r = Some n \<longrightarrow> n = int (length post))"
proof -
  have snd: "slices_sound T (ml_slices l)" "finite T" "T \<subseteq> {MinMessagePosition..MaxMessagePosition}"
    "ml_count l = None \<or> ml_count l = Some (int (card T))"
    using assms(1) by (cases "ml_count l"; auto simp: mlist_sound_def)+
  then obtain i where i: "slice_around (ml_slices l) a = Some i"
    using slice_around_None [of "ml_slices l" a] assms(3) by (auto simp: slices_sound_def)
  show ?thesis
    by (rule query_exact [OF snd(1-3) i assms(4,5) snd(4)])
      (use i assms(2) r in \<open>simp add: mlist_queryCurrent_def mlist_queryFromSlice_def\<close>)
qed


definition sample_feed :: messages_list where
  "sample_feed = \<lparr>ml_count = None, ml_slices = [\<lparr>messages = [feed_pos 5 100, feed_pos 6 105],
     sl_from = feed_pos 4 90, sl_till = feed_pos 6 110\<rparr>]\<rparr>"

lemmas position_order_simps = less_eq_MessagePosition_def less_MessagePosition_def
  less_FullMsgId_def less_PeerId_def MinMessagePosition_def MaxMessagePosition_def MaxDate_def

lemma sample_feed_sound: "mlist_sound {feed_pos 5 100, feed_pos 6 105} sample_feed"
  by (auto simp: mlist_sound_def sample_feed_def slices_sound_def slices_ok_Cons slice_ok_def
      position_order_simps)

theorem mlist_queryCurrent_exact_witness:
  "\<exists>pre post. sorted_list_of_set {feed_pos 5 100, feed_pos 6 105}
     = pre @ qr_messageIds (mlist_queryCurrent (feed_pos 5 100) 1 0 sample_feed) @ post"
proof -
  have "feed_pos 5 100 \<in> covered (ml_slices sample_feed)" "mp_valid (feed_pos 5 100)"
    by (simp_all add: sample_feed_def mp_valid_def position_order_simps)
  from mlist_queryCurrent_exact [OF sample_feed_sound this(2,1) _ _ refl, of 1 0]
  show ?thesis by (simp only: zero_le_one order_refl simp_thms) blast
qed


end
