(* ===== verification/MessagesSlice.thy ===== *)
theory MessagesSlice
  imports SliceBuilder MessagesList
begin

text \<open>
  \<open>MessagesSliceBuilder\<close> of \<open>data/data_messages.cpp\<close>: the builder over message positions, and the
  slice it hands to a view.
\<close>

record messages_slice =
  ms_ids :: "FullMsgId list"
  ms_nearestToAround :: FullMsgId
  ms_skippedBefore :: "int option"
  ms_skippedAfter :: "int option"
  ms_fullCount :: "int option"

definition mbuilder_new :: "MessagePosition \<Rightarrow> int \<Rightarrow> int \<Rightarrow> MessagePosition builder" where
  "mbuilder_new = builder_new"

definition mbuilder_applyInitial ::
    "MessagePosition query_result \<Rightarrow> MessagePosition builder \<Rightarrow> (MessagePosition builder \<times> bool) option" where
  "mbuilder_applyInitial = builder_applyInitial position_kind"

definition mbuilder_applyUpdate ::
    "MessagePosition slice_update \<Rightarrow> MessagePosition builder \<Rightarrow> (MessagePosition builder \<times> bool) option" where
  "mbuilder_applyUpdate = builder_applyUpdate position_kind"

definition mbuilder_removeOne ::
    "MessagePosition \<Rightarrow> MessagePosition builder \<Rightarrow> MessagePosition builder \<times> bool" where
  "mbuilder_removeOne = builder_removeOne"

definition mbuilder_removeAll :: "MessagePosition builder \<Rightarrow> MessagePosition builder \<times> bool" where
  "mbuilder_removeAll = builder_removeAll"

definition mbuilder_invalidated :: "MessagePosition builder \<Rightarrow> MessagePosition builder \<times> bool" where
  "mbuilder_invalidated = builder_invalidated position_kind"

definition mbuilder_bottomInvalidated :: "MessagePosition builder \<Rightarrow> MessagePosition builder \<times> bool" where
  "mbuilder_bottomInvalidated = builder_bottomInvalidated position_kind"

definition mbuilder_mergeSliceData ::
    "int option \<Rightarrow> MessagePosition list \<Rightarrow> int option \<Rightarrow> int option \<Rightarrow> MessagePosition builder
      \<Rightarrow> MessagePosition builder option" where
  "mbuilder_mergeSliceData = builder_mergeSliceData position_kind"

definition mbuilder_fillSkippedAndSliceToLimits :: "MessagePosition builder \<Rightarrow> MessagePosition builder" where
  "mbuilder_fillSkippedAndSliceToLimits = builder_fillSkippedAndSliceToLimits position_kind"

definition mbuilder_sliceToLimits :: "MessagePosition builder \<Rightarrow> MessagePosition builder" where
  "mbuilder_sliceToLimits = builder_sliceToLimits position_kind"

text \<open>\<open>nearestToAround\<close>: the first position not before the key, else the last one.\<close>

definition mbuilder_snapshot :: "MessagePosition builder \<Rightarrow> messages_slice" where
  "mbuilder_snapshot b =
     \<lparr>ms_ids = map mp_fullId (b_ids b),
      ms_nearestToAround =
        (case find (\<lambda>p. p \<ge> b_key b) (b_ids b) of
           Some p \<Rightarrow> mp_fullId p
         | None \<Rightarrow> if b_ids b = [] then FullMsgId (PeerId 0) 0 else mp_fullId (last (b_ids b))),
      ms_skippedBefore = b_skippedBefore b, ms_skippedAfter = b_skippedAfter b,
      ms_fullCount = b_fullCount b\<rparr>"

lemma position_kind_was: "\<not> kd_was position_kind (kd_impossible position_kind)"
  by (simp add: position_kind_def)

lemma mlist_look_exact:
  assumes sound: "mlist_sound T l" and lim: "0 \<le> limitBefore" "0 \<le> limitAfter"
  shows "segment T (qr_messageIds (mlist_snapshot a limitBefore limitAfter l))
        (qr_skippedBefore (mlist_snapshot a limitBefore limitAfter l))
        (qr_skippedAfter (mlist_snapshot a limitBefore limitAfter l))
      \<and> qr_count (mlist_snapshot a limitBefore limitAfter l) \<in> {None, Some (int (card T))}"
proof -
  have snd: "slices_sound T (ml_slices l)" "finite T" "T \<subseteq> {MinMessagePosition..MaxMessagePosition}"
    "ml_count l = None \<or> ml_count l = Some (int (card T))"
    using sound by (cases "ml_count l"; auto simp: mlist_sound_def)+
  show ?thesis
  proof (cases "mp_valid a \<and> slice_around (ml_slices l) a \<noteq> None")
    case True
    then obtain i where i: "slice_around (ml_slices l) a = Some i" by auto
    have eq: "mlist_snapshot a limitBefore limitAfter l
        = queryFromSlice MinMessagePosition MaxMessagePosition a limitBefore limitAfter (ml_count l) (ml_slices l ! i)"
      using True i by (simp add: mlist_snapshot_def mlist_queryCurrent_def mlist_queryFromSlice_def)
    have "qr_count (mlist_snapshot a limitBefore limitAfter l) = ml_count l"
      unfolding eq by (simp add: queryFromSlice_def Let_def)
    then show ?thesis
      using query_exact [OF snd(1-3) i lim snd(4) eq] snd(4) by (auto simp: segment_def)
  next
    case False
    then have "mlist_snapshot a limitBefore limitAfter l = empty_result"
      by (auto simp: mlist_snapshot_def mlist_queryCurrent_def)
    then show ?thesis by (simp add: empty_result_def segment_empty)
  qed
qed

interpretation feed_view: exact_store mlist_report feed_position mlist_sound mlist_snapshot position_kind
proof (unfold_locales, goal_cases)
  case (1 T l limitBefore limitAfter a)
  then show ?case by (rule mlist_look_exact)
next
  case (2 T l)
  then show ?case by (simp add: mlist_sound_def)
next
  case 3
  show ?case by (rule position_kind_was)
qed

section \<open>Properties\<close>

text \<open>
  C13. A view opened on the feed after any sequence of truthful reports is exact: the builder takes
  the current query without a failed assertion, its ids are consecutive among the existing
  positions, and its skipped numbers and full count, when known, are right.
\<close>

theorem feed_view_exact:
  assumes "finite T" "T \<subseteq> {MinMessagePosition..MaxMessagePosition}"
    and "all_truthful feed_position T rs" "0 \<le> limitBefore" "0 \<le> limitAfter"
    and "card (fold after_report rs T) < 2 ^ 64"
  shows "\<exists>l b. apply_reports mlist_report rs (mlist_invalidate l0) = Some l
    \<and> mbuilder_applyInitial (mlist_snapshot a limitBefore limitAfter l)
        (mbuilder_new a limitBefore limitAfter) = Some (b, True)
    \<and> segment (fold after_report rs T) (b_ids b) (b_skippedBefore b) (b_skippedAfter b)
    \<and> (\<forall>c. b_fullCount b = Some c \<longrightarrow> c = int (card (fold after_report rs T)))"
proof -
  have "mlist_sound T (mlist_invalidate l0)"
    using assms by (simp add: mlist_sound_def mlist_invalidate_def slices_sound_def)
  from feed_view.reported_view_ready [OF this assms(3-6), of a] show ?thesis
    by (auto simp: builder_ready_def builder_sound_def mbuilder_applyInitial_def mbuilder_new_def)
qed

theorem feed_view_exact_witness:
  "\<exists>l b. apply_reports mlist_report [Page [feed_pos 5 100] (feed_pos 4 90) (feed_pos 6 110) None]
      (mlist_invalidate \<lparr>ml_count = None, ml_slices = []\<rparr>) = Some l
    \<and> mbuilder_applyInitial (mlist_snapshot (feed_pos 5 100) 1 1 l)
        (mbuilder_new (feed_pos 5 100) 1 1) = Some (b, True)
    \<and> segment {feed_pos 5 100} (b_ids b) (b_skippedBefore b) (b_skippedAfter b)"
proof -
  have "all_truthful feed_position {feed_pos 5 100}
      [Page [feed_pos 5 100] (feed_pos 4 90) (feed_pos 6 110) None]"
    "{feed_pos 5 100} \<subseteq> {MinMessagePosition..MaxMessagePosition}"
    by (auto simp: position_order_simps)
  then show ?thesis
    using feed_view_exact [of "{feed_pos 5 100}"
        "[Page [feed_pos 5 100] (feed_pos 4 90) (feed_pos 6 110) None]" 1 1
        "\<lparr>ml_count = None, ml_slices = []\<rparr>" "feed_pos 5 100"] by fastforce
qed

text \<open>
  An update that carries all existing messages of its range keeps an exact builder exact: no
  assertion fails, whichever way the range meets the ids shown.
\<close>

theorem mbuilder_update_exact:
  assumes "builder_ready T b" "update_sound T u" "T \<subseteq> {MinMessagePosition..MaxMessagePosition}"
    "card T < 2 ^ 64"
  shows "\<exists>b' changed. mbuilder_applyUpdate u b = Some (b', changed) \<and> builder_ready T b'"
  using applyUpdate_ready [OF assms(1,2) _ assms(4) position_kind_was] assms(3)
  unfolding mbuilder_applyUpdate_def by (auto simp: position_kind_def)

theorem mbuilder_update_exact_witness:
  "\<exists>b' changed. mbuilder_applyUpdate \<lparr>su_messages = Some [feed_pos 5 100], su_from = feed_pos 4 90,
      su_till = feed_pos 6 110, su_count = None\<rparr> (mbuilder_new (feed_pos 5 100) 2 3) = Some (b', changed)
    \<and> builder_ready {feed_pos 5 100} b'"
proof -
  have "update_sound {feed_pos 5 100} \<lparr>su_messages = Some [feed_pos 5 100], su_from = feed_pos 4 90,
      su_till = feed_pos 6 110, su_count = None\<rparr>"
    "{feed_pos 5 100} \<subseteq> {MinMessagePosition..MaxMessagePosition}"
    by (auto simp: update_sound_def position_order_simps)
  moreover have "builder_ready {feed_pos 5 100} (mbuilder_new (feed_pos 5 100) 2 3)"
    unfolding mbuilder_new_def by (rule new_ready) auto
  ultimately show ?thesis using mbuilder_update_exact by simp
qed

text \<open>
  Once the key is set, a builder never shows more than its limits allow around the key.
\<close>

theorem mbuilder_within_limits:
  assumes "mp_valid (b_key b)" "0 \<le> b_limitBefore b" "0 \<le> b_limitAfter b"
    and "mbuilder_mergeSliceData cnt ms sb sa b = Some b'"
  shows "int (length (b_ids b')) \<le> b_limitBefore b + b_limitAfter b + 1"
proof -
  obtain b1 where b1: "b' = builder_fillSkippedAndSliceToLimits position_kind b1"
    "b_key b1 = b_key b" "b_limitBefore b1 = b_limitBefore b" "b_limitAfter b1 = b_limitAfter b"
    using merge_result [of position_kind cnt ms sb sa b b'] assms(4)
    by (auto simp: mbuilder_mergeSliceData_def)
  have "kd_set position_kind (b_key b)" using assms(1) by (simp add: position_kind_def)
  with fill_bounded [of position_kind b1] b1 assms(2,3) show ?thesis by simp
qed

theorem mbuilder_within_limits_witness:
  "int (length (b_ids (the (mbuilder_mergeSliceData (Some 3)
      [feed_pos 1 10, feed_pos 2 20, feed_pos 3 30] None None (mbuilder_new (feed_pos 2 20) 0 0))))) \<le> 1"
proof -
  let ?b = "mbuilder_new (feed_pos 2 20) 0 0"
  let ?r = "mbuilder_mergeSliceData (Some 3) [feed_pos 1 10, feed_pos 2 20, feed_pos 3 30] None None ?b"
  have r: "?r = Some (the ?r)"
    by (simp add: mbuilder_mergeSliceData_def builder_mergeSliceData_def choose_skipped_def
        mbuilder_new_def builder_new_def Let_def)
  have "mp_valid (b_key ?b)" "b_limitBefore ?b = 0" "b_limitAfter ?b = 0"
    by (simp_all add: mp_valid_def mbuilder_new_def builder_new_def)
  with mbuilder_within_limits [OF _ _ _ r] show ?thesis by simp
qed

text \<open>
  Removing an existing position from an exact builder that shows something leaves it exact for
  the positions that remain, wherever the removed one lies.
\<close>

theorem mbuilder_removeOne_exact:
  assumes "builder_ready T b" "b_ids b \<noteq> []" "m \<in> T"
  shows "builder_ready (T - {m}) (fst (mbuilder_removeOne m b))"
  unfolding mbuilder_removeOne_def by (rule removeOne_ready [OF assms])

theorem mbuilder_removeOne_exact_witness:
  "builder_ready ({feed_pos 1 10, feed_pos 2 20} - {feed_pos 1 10}) (fst (mbuilder_removeOne (feed_pos 1 10)
     ((mbuilder_new (feed_pos 2 20) 0 0)\<lparr>b_ids := [feed_pos 2 20], b_skippedBefore := Some 1\<rparr>)))"
proof -
  let ?T = "{feed_pos 1 10, feed_pos 2 20}"
  have lt: "feed_pos 1 10 < feed_pos 2 20" by (simp add: position_order_simps)
  then have "sorted_list_of_set ?T = [feed_pos 1 10, feed_pos 2 20]"
    by (simp add: insort_key.simps less_imp_le)
  then have "segment ?T [feed_pos 2 20] (Some 1) None"
    by (intro segmentI [of _ "[feed_pos 1 10]" _ "[]"]) auto
  then have "builder_ready ?T ((mbuilder_new (feed_pos 2 20) 0 0)
      \<lparr>b_ids := [feed_pos 2 20], b_skippedBefore := Some 1\<rparr>)"
    by (simp add: builder_ready_def builder_sound_def mbuilder_new_def builder_new_def)
  then show ?thesis by (rule mbuilder_removeOne_exact) simp_all
qed

end
