(* ===== verification/SparseIdsList.thy ===== *)
theory SparseIdsList
  imports IdStore
begin

text \<open>
  \<open>storage/storage_sparse_ids_list.cpp\<close>: the message ids known for one shared media list, as slices
  without gaps plus the total count when the server has told it. Operations return the new list
  and, where the code fires \<open>_sliceUpdated\<close>, the update; \<open>None\<close> is a failed \<open>Expects\<close>.
\<close>

record sparse_list =
  sp_count :: "int option"
  sp_slices :: "MsgId slice list"

definition emptySparse :: sparse_list where
  "emptySparse = \<lparr>sp_count = None, sp_slices = []\<rparr>"

definition no_update :: "'p \<Rightarrow> 'p slice_update" where
  "no_update z = \<lparr>su_messages = None, su_from = z, su_till = z, su_count = None\<rparr>"

definition sparse_addRangeItemsAndCountNew ::
    "MsgId list \<Rightarrow> MsgId \<Rightarrow> MsgId \<Rightarrow> MsgId slice list
      \<Rightarrow> (MsgId slice list \<times> MsgId slice_update \<times> int) option" where
  "sparse_addRangeItemsAndCountNew ms f t slices =
     (if \<not> f \<le> t then None
      else if f = t \<and> ms = [] then Some (slices, no_update 0, 0)
      else add_slice_or_unite ms f t slices)"

definition sparse_addRange ::
    "MsgId list \<Rightarrow> MsgId \<Rightarrow> MsgId \<Rightarrow> int option \<Rightarrow> bool \<Rightarrow> sparse_list
      \<Rightarrow> (sparse_list \<times> MsgId slice_update) option" where
  "sparse_addRange ms f t cnt incrementCount l =
     (if cnt \<noteq> None \<and> incrementCount then None
      else case sparse_addRangeItemsAndCountNew ms f t (sp_slices l) of
        None \<Rightarrow> None
      | Some (slices1, update, added) \<Rightarrow>
        let count1 = (case cnt of Some c \<Rightarrow> Some c
              | None \<Rightarrow> (case sp_count l of
                    Some c \<Rightarrow> Some (if incrementCount \<and> added > 0 then c + added else c)
                  | None \<Rightarrow> None));
            slices2 = (if length slices1 = 1 then
                (case count1 of
                   Some c \<Rightarrow> if size_ge (length (messages (hd slices1))) c
                     then flat_set_modify slice_less 0
                        (\<lambda>s. s\<lparr>sl_from := 0, sl_till := ServerMaxMsgId\<rparr>) slices1
                     else slices1
                 | None \<Rightarrow> slices1)
              else slices1);
            count2 = (if length slices2 = 1 \<and> sl_from (hd slices2) = 0
                  \<and> sl_till (hd slices2) = ServerMaxMsgId
                then Some (int (length (messages (hd slices2)))) else count1);
            count3 = (case (count2, su_messages update) of
                (Some c, Some ids) \<Rightarrow> Some (max c (int (length ids))) | _ \<Rightarrow> count2)
        in Some (\<lparr>sp_count = count3, sp_slices = slices2\<rparr>, update\<lparr>su_count := count3\<rparr>))"

definition sparse_addNew :: "MsgId \<Rightarrow> sparse_list \<Rightarrow> (sparse_list \<times> MsgId slice_update) option" where
  "sparse_addNew messageId l = sparse_addRange [messageId] messageId ServerMaxMsgId None True l"

definition sparse_addExisting ::
    "MsgId \<Rightarrow> MsgId \<Rightarrow> MsgId \<Rightarrow> sparse_list \<Rightarrow> (sparse_list \<times> MsgId slice_update) option" where
  "sparse_addExisting messageId f t l = sparse_addRange [messageId] f t None False l"

definition sparse_addSlice ::
    "MsgId list \<Rightarrow> MsgId \<Rightarrow> MsgId \<Rightarrow> int option \<Rightarrow> sparse_list
      \<Rightarrow> (sparse_list \<times> MsgId slice_update) option" where
  "sparse_addSlice messageIds f t cnt l = sparse_addRange messageIds f t cnt False l"

definition sparse_removeOne :: "MsgId \<Rightarrow> sparse_list \<Rightarrow> sparse_list" where
  "sparse_removeOne messageId l =
     \<lparr>sp_count = map_option (\<lambda>c. c - 1) (sp_count l),
      sp_slices = slices_removeOne messageId (sp_slices l)\<rparr>"

definition sparse_removeAll :: "sparse_list \<Rightarrow> sparse_list" where
  "sparse_removeAll l =
     \<lparr>sp_count = Some 0,
      sp_slices = fst (flat_set_insert slice_less
        \<lparr>messages = [], sl_from = 0, sl_till = ServerMaxMsgId\<rparr> [])\<rparr>"

definition sparse_invalidateBottom :: "sparse_list \<Rightarrow> sparse_list" where
  "sparse_invalidateBottom l =
     \<lparr>sp_count = None, sp_slices = slices_invalidateBottom ServerMaxMsgId (sp_slices l)\<rparr>"

definition sparse_snapshot :: "MsgId \<Rightarrow> int \<Rightarrow> int \<Rightarrow> sparse_list \<Rightarrow> MsgId query_result" where
  "sparse_snapshot aroundId limitBefore limitAfter l =
     (case (if aroundId \<noteq> 0 then slice_around (sp_slices l) aroundId else None) of
        Some i \<Rightarrow> queryFromSlice 0 ServerMaxMsgId aroundId limitBefore limitAfter (sp_count l)
            (sp_slices l ! i)
      | None \<Rightarrow> empty_result\<lparr>qr_count := sp_count l\<rparr>)"

text \<open>\<open>query\<close> is a producer: the values it emits before it is done.\<close>

definition sparse_query :: "MsgId \<Rightarrow> int \<Rightarrow> int \<Rightarrow> sparse_list \<Rightarrow> MsgId query_result list" where
  "sparse_query aroundId limitBefore limitAfter l =
     (case (if aroundId \<noteq> 0 then slice_around (sp_slices l) aroundId else None) of
        Some i \<Rightarrow> [queryFromSlice 0 ServerMaxMsgId aroundId limitBefore limitAfter (sp_count l)
            (sp_slices l ! i)]
      | None \<Rightarrow> (if sp_count l \<noteq> None then [empty_result\<lparr>qr_count := sp_count l\<rparr>] else []))"

definition sparse_empty :: "sparse_list \<Rightarrow> bool" where
  "sparse_empty l \<longleftrightarrow> list_all (\<lambda>s. messages s = []) (sp_slices l)"

section \<open>Invariant\<close>

definition sparse_ok :: "sparse_list \<Rightarrow> bool" where
  "sparse_ok l \<longleftrightarrow> slices_ok (sp_slices l) \<and> covered (sp_slices l) \<subseteq> {0..ServerMaxMsgId}"

definition msgs_in :: "MsgId list \<Rightarrow> MsgId \<Rightarrow> MsgId \<Rightarrow> bool" where
  "msgs_in ms f t \<longleftrightarrow> 0 \<le> f \<and> f \<le> t \<and> t \<le> ServerMaxMsgId \<and> (\<forall>m \<in> set ms. f \<le> m \<and> m \<le> t)"

lemma modify_single: "flat_set_modify slice_less 0 g [s] = [g s]"
  using slices_modify_fun [of "[]" g s "[]"] by simp

text \<open>The extension of a single slice to the full range once it holds the reported count.\<close>

definition widen_single :: "int option \<Rightarrow> MsgId slice list \<Rightarrow> MsgId slice list" where
  "widen_single cnt slices =
     (case (slices, cnt) of
        ([s], Some c) \<Rightarrow> if size_ge (length (messages s)) c
          then [s\<lparr>sl_from := 0, sl_till := ServerMaxMsgId\<rparr>] else [s]
      | _ \<Rightarrow> slices)"

lemma widen_single_eq:
  "(if length slices = 1 then
      (case cnt of Some c \<Rightarrow> if size_ge (length (messages (hd slices))) c
           then flat_set_modify slice_less 0
              (\<lambda>s. s\<lparr>sl_from := 0, sl_till := ServerMaxMsgId\<rparr>) slices
           else slices
       | None \<Rightarrow> slices)
    else slices) = widen_single cnt slices"
  by (cases slices rule: remdups_adj.cases)
    (auto simp: widen_single_def modify_single split: option.splits)

lemma widen_single_ok:
  assumes "slices_ok slices" "covered slices \<subseteq> {0..ServerMaxMsgId}"
  shows "slices_ok (widen_single cnt slices)"
    "covered (widen_single cnt slices) \<subseteq> {0..ServerMaxMsgId}"
    "known (widen_single cnt slices) = known slices"
    "covered slices \<subseteq> covered (widen_single cnt slices)"
    "covered (widen_single cnt slices) = covered slices
      \<or> covered (widen_single cnt slices) = {0..ServerMaxMsgId}"
  using assms
  by (auto simp: widen_single_def slices_ok_Cons slice_ok_def ServerMaxMsgId_def
      split: list.splits option.splits) (auto simp: subset_iff)

text \<open>The count after a complete slice and the update have been looked at.\<close>

definition settled :: "int option \<Rightarrow> MsgId slice list \<Rightarrow> MsgId list option \<Rightarrow> int option" where
  "settled cnt slices ids =
     (let count2 = (if length slices = 1 \<and> sl_from (hd slices) = 0
            \<and> sl_till (hd slices) = ServerMaxMsgId
          then Some (int (length (messages (hd slices)))) else cnt)
      in case (count2, ids) of
          (Some c, Some is) \<Rightarrow> Some (max c (int (length is))) | _ \<Rightarrow> count2)"

lemma addRange_unfold:
  assumes "cnt = None \<or> \<not> incrementCount"
    "sparse_addRangeItemsAndCountNew ms f t (sp_slices l) = Some (slices1, update, added)"
  defines "count1 \<equiv> counted cnt incrementCount (sp_count l) added"
  defines "slices2 \<equiv> widen_single count1 slices1"
  defines "count3 \<equiv> settled count1 slices2 (su_messages update)"
  shows "sparse_addRange ms f t cnt incrementCount l
    = Some (\<lparr>sp_count = count3, sp_slices = slices2\<rparr>, update\<lparr>su_count := count3\<rparr>)"
  unfolding sparse_addRange_def assms(2) option.case prod.case Let_def widen_single_eq
    counted_def [symmetric] count1_def [symmetric] slices2_def [symmetric]
  using assms(1) by (auto simp: count3_def settled_def Let_def)

lemma settled_bounds: "settled cnt slices (Some ids) = Some n \<Longrightarrow> int (length ids) \<le> n"
  by (auto simp: settled_def Let_def split: option.splits if_splits)

text \<open>
  \<open>addRange\<close> with messages inside their range: no assertion fails, the invariant is kept and the
  list learns exactly the new messages and the new range (or, once complete, the full range).
\<close>

lemma addRange_ok:
  assumes ok: "sparse_ok l" and ms: "msgs_in ms f t" and c: "cnt = None \<or> \<not> incrementCount"
  shows "\<exists>l' u. sparse_addRange ms f t cnt incrementCount l = Some (l', u) \<and> sparse_ok l'
    \<and> known (sp_slices l') = known (sp_slices l) \<union> set ms
    \<and> covered (sp_slices l) \<subseteq> covered (sp_slices l')
    \<and> (f < t \<or> ms \<noteq> [] \<longrightarrow> {f..t} \<subseteq> covered (sp_slices l'))
    \<and> (covered (sp_slices l') \<subseteq> covered (sp_slices l) \<union> {f..t}
        \<or> covered (sp_slices l') = {0..ServerMaxMsgId})
    \<and> su_count u = sp_count l'
    \<and> (\<forall>ids n. su_messages u = Some ids \<longrightarrow> sp_count l' = Some n \<longrightarrow> int (length ids) \<le> n)"
proof -
  have sl: "slices_ok (sp_slices l)" "covered (sp_slices l) \<subseteq> {0..ServerMaxMsgId}"
    and ft: "f \<le> t" "0 \<le> f" "t \<le> ServerMaxMsgId" and msin: "\<forall>m \<in> set ms. f \<le> m \<and> m \<le> t"
    using ok ms by (auto simp: sparse_ok_def msgs_in_def)
  obtain slices1 update added where
    new: "sparse_addRangeItemsAndCountNew ms f t (sp_slices l) = Some (slices1, update, added)"
    and ok1: "slices_ok slices1" and known1: "known slices1 = known (sp_slices l) \<union> set ms"
    and cov1: "covered slices1 = covered (sp_slices l) \<union> (if f < t \<or> ms \<noteq> [] then {f..t} else {})"
  proof (cases "f = t \<and> ms = []")
    case True
    then show thesis
      using that [of "sp_slices l"] sl by (simp add: sparse_addRangeItemsAndCountNew_def)
  next
    case False
    then have ne: "f < t \<or> ms \<noteq> []" using ft(1) by auto
    obtain as bs s upd n where "add_slice_or_unite ms f t (sp_slices l) = Some (as @ s # bs, upd, n)"
      "slices_ok (as @ s # bs)" "covered (as @ s # bs) = covered (sp_slices l) \<union> {f..t}"
      "known (as @ s # bs) = known (sp_slices l) \<union> set ms"
      using add_slice_or_unite_ok [OF sl(1) ft(1) msin] by metis
    with False ne ft(1) that show thesis by (auto simp: sparse_addRangeItemsAndCountNew_def)
  qed
  define count1 where "count1 = counted cnt incrementCount (sp_count l) added"
  have "covered slices1 \<subseteq> {0..ServerMaxMsgId}" using cov1 sl ft by (auto split: if_splits)
  note w = widen_single_ok [OF ok1 this, of count1]
  show ?thesis
    unfolding addRange_unfold [OF c new] count1_def [symmetric] sparse_ok_def
    using w cov1 known1 settled_bounds [of count1 "widen_single count1 slices1"] by auto
qed

section \<open>Agreement with the server\<close>

definition sparse_sound :: "MsgId set \<Rightarrow> sparse_list \<Rightarrow> bool" where
  "sparse_sound T l \<longleftrightarrow> slices_sound T (sp_slices l) \<and> covered (sp_slices l) \<subseteq> {0..ServerMaxMsgId}
     \<and> T \<subseteq> {0..ServerMaxMsgId} \<and> (\<forall>c. sp_count l = Some c \<longrightarrow> c = int (card T))"

lemma truth_finite: "T \<subseteq> {0..ServerMaxMsgId} \<Longrightarrow> finite T"
  by (rule finite_subset) auto

lemma truth_small:
  assumes "T \<subseteq> {0..ServerMaxMsgId}"
  shows "int (card T) mod 2 ^ 64 = int (card T)"
proof -
  have "card T \<le> card {0..ServerMaxMsgId}" using assms by (intro card_mono) auto
  then have "int (card T) < 2 ^ 64" by (simp add: ServerMaxMsgId_def)
  then show ?thesis by simp
qed

lemma sound_slice_card:
  assumes "slices_sound T slices" "s \<in> set slices" "finite T"
  shows "int (length (messages s)) \<le> int (card T)" "set (messages s) \<subseteq> T"
    "length (messages s) = card T \<Longrightarrow> set (messages s) = T"
proof -
  have "slice_ok s" using assms by (auto simp: slices_sound_def dest: slices_okD)
  then have d: "length (messages s) = card (set (messages s))"
    by (simp add: slice_ok_def strict_sorted_iff distinct_card)
  show sub: "set (messages s) \<subseteq> T" using assms(1,2) by (auto simp: slices_sound_def known_def)
  show "int (length (messages s)) \<le> int (card T)" using d card_mono [OF assms(3) sub] by simp
  show "set (messages s) = T" if "length (messages s) = card T"
    using that d sub card_subset_eq [OF assms(3) sub] by simp
qed

text \<open>A single slice with as many messages as there are really is the whole list.\<close>

lemma widen_single_sound:
  assumes sound: "slices_sound T slices" and T: "T \<subseteq> {0..ServerMaxMsgId}"
    and cov: "covered slices \<subseteq> {0..ServerMaxMsgId}" and cnt: "cnt = None \<or> cnt = Some (int (card T))"
  shows "slices_sound T (widen_single cnt slices)"
proof (cases "widen_single cnt slices = slices")
  case False
  then obtain s where s: "slices = [s]" "int (card T) \<le> int (length (messages s))"
    using cnt truth_small [OF T]
    by (auto simp: widen_single_def size_ge_def split: list.splits option.splits if_splits)
  then have "set (messages s) = T"
    using sound_slice_card [OF sound _ truth_finite [OF T], of s] by force
  moreover have "covered (widen_single cnt slices) = {0..ServerMaxMsgId}"
    using False s by (auto simp: widen_single_def split: list.splits option.splits if_splits)
  moreover have "slices_ok slices" using sound by (simp add: slices_sound_def)
  ultimately show ?thesis
    using widen_single_ok [OF _ cov, of cnt] s(1) T by (auto simp: slices_sound_def)
qed (use sound in simp)

lemma settled_sound:
  assumes sound: "slices_sound T slices" and T: "T \<subseteq> {0..ServerMaxMsgId}"
    and cnt: "cnt = None \<or> cnt = Some (int (card T))"
    and ids: "ids = None \<or> (\<exists>s \<in> set slices. ids = Some (messages s))"
    and c: "settled cnt slices ids = Some c"
  shows "c = int (card T)"
proof -
  note fin = truth_finite [OF T]
  have full: "length (messages s) = card T"
    if "slices = [s]" "sl_from s = 0" "sl_till s = ServerMaxMsgId" for s
  proof -
    have "set (messages s) = T" and "distinct (messages s)"
      using sound T that by (auto simp: slices_sound_def slices_ok_Cons slice_ok_def strict_sorted_iff)
    then show ?thesis by (metis distinct_card)
  qed
  have le: "int (length is) \<le> int (card T)" if "ids = Some is" for "is"
    using that ids sound_slice_card(1) [OF sound _ fin] by auto
  show ?thesis
  proof (cases "length slices = 1 \<and> sl_from (hd slices) = 0 \<and> sl_till (hd slices) = ServerMaxMsgId")
    case True
    then obtain s where "slices = [s]" by (auto simp: length_Suc_conv)
    with True full le c show ?thesis
      by (auto simp: settled_def Let_def max_def split: option.splits)
  next
    case False
    with le c cnt show ?thesis
      by (auto simp: settled_def Let_def max_def split: option.splits)
  qed
qed

text \<open>The update's messages are those of a slice of the result.\<close>

lemma addRangeItems_cases:
  assumes sound: "slices_sound T slices" and ft: "f \<le> t"
    and T': "T' = T \<union> set ms" "set ms = T' \<inter> {f..t}"
  obtains slices1 update added where
    "sparse_addRangeItemsAndCountNew ms f t slices = Some (slices1, update, added)"
    "slices_sound T' slices1"
    "su_messages update = None \<or> (\<exists>s \<in> set slices1. su_messages update = Some (messages s))"
    "covered slices1 \<subseteq> covered slices \<union> {f..t}"
    "\<And>m. ms = [m] \<Longrightarrow> f = m \<Longrightarrow> \<forall>x \<in> T. x < m \<Longrightarrow> added = 1"
proof (cases "f = t \<and> ms = []")
  case True
  with sound T' show thesis
    by (intro that [of slices]) (auto simp: sparse_addRangeItemsAndCountNew_def no_update_def)
next
  case False
  have ms: "\<forall>m \<in> set ms. f \<le> m \<and> m \<le> t" and ok: "slices_ok slices"
    using T' sound by (auto simp: slices_sound_def)
  obtain as bs s upd added where add: "add_slice_or_unite ms f t slices = Some (as @ s # bs, upd, added)"
    "covered (as @ s # bs) = covered slices \<union> {f..t}" "su_messages upd = Some (messages s)"
    by (rule add_slice_or_unite_ok [OF ok ft ms]) auto
  note snd = slices_sound_add [OF sound ft T' add(1)]
  have "sparse_addRangeItemsAndCountNew ms f t slices = Some (as @ s # bs, upd, added)"
    using False ft add(1) by (auto simp: sparse_addRangeItemsAndCountNew_def)
  then show thesis
    by (rule that) (use snd add added_fresh [OF sound _ _, of _ t] ft in auto)
qed

text \<open>What an update says of the range of its slice.\<close>

lemma addRangeItems_update:
  assumes sound: "slices_sound T slices" and ft: "f \<le> t"
    and T': "T' = T \<union> set ms" "set ms = T' \<inter> {f..t}"
  obtains slices1 update added where
    "sparse_addRangeItemsAndCountNew ms f t slices = Some (slices1, update, added)"
    "slices_sound T' slices1"
    "update = no_update 0 \<or> (\<exists>s \<in> set slices1. su_messages update = Some (messages s)
      \<and> su_from update = sl_from s \<and> su_till update = sl_till s)"
proof (cases "f = t \<and> ms = []")
  case True
  with sound T' show thesis
    by (intro that [of slices]) (auto simp: sparse_addRangeItemsAndCountNew_def)
next
  case False
  have ms: "\<forall>m \<in> set ms. f \<le> m \<and> m \<le> t" and ok: "slices_ok slices"
    using T' sound by (auto simp: slices_sound_def)
  obtain as bs s upd added where add: "add_slice_or_unite ms f t slices = Some (as @ s # bs, upd, added)"
    "su_messages upd = Some (messages s)" "su_from upd = sl_from s" "su_till upd = sl_till s"
    by (rule add_slice_or_unite_ok [OF ok ft ms]) auto
  have "sparse_addRangeItemsAndCountNew ms f t slices = Some (as @ s # bs, upd, added)"
    using False ft add(1) by (auto simp: sparse_addRangeItemsAndCountNew_def)
  with slices_sound_add [OF sound ft T' add(1)] add that show thesis by auto
qed

lemma sound_slice:
  assumes "slices_sound T slices" "s \<in> set slices"
  shows "sl_from s \<le> sl_till s \<and> sorted_wrt (<) (messages s)
    \<and> set (messages s) = T \<inter> {sl_from s..sl_till s}"
proof -
  obtain as bs where sp: "slices = as @ s # bs" using assms(2) by (meson split_list)
  have "slice_ok s" using assms by (auto simp: slices_sound_def dest: slices_okD)
  moreover have "set (messages s) = T \<inter> {sl_from s..sl_till s}"
    using slice_messages_known [of as s bs] assms(1) sp by (auto simp: slices_sound_def)
  ultimately show ?thesis by (simp add: slice_ok_def)
qed

lemma addRange_sound:
  assumes sound: "sparse_sound T l" and T': "T' = T \<union> set ms" "set ms = T' \<inter> {f..t}"
    and range: "0 \<le> f" "f \<le> t" "t \<le> ServerMaxMsgId"
    and cnt: "cnt = None \<and> (T' = T \<or> incrementCount)
      \<or> cnt = Some (int (card T')) \<and> \<not> incrementCount"
    and inc: "incrementCount \<Longrightarrow> ms = [f] \<and> (\<forall>x \<in> T. x < f)"
  shows "\<exists>l' u. sparse_addRange ms f t cnt incrementCount l = Some (l', u) \<and> sparse_sound T' l'"
proof -
  have snd: "slices_sound T (sp_slices l)" and cov: "covered (sp_slices l) \<subseteq> {0..ServerMaxMsgId}"
    and T: "T \<subseteq> {0..ServerMaxMsgId}" and c: "\<forall>c. sp_count l = Some c \<longrightarrow> c = int (card T)"
    using sound by (auto simp: sparse_sound_def)
  obtain slices1 update added where
    new: "sparse_addRangeItemsAndCountNew ms f t (sp_slices l) = Some (slices1, update, added)"
    and snd1: "slices_sound T' slices1" and upd: "su_messages update = None
      \<or> (\<exists>s \<in> set slices1. su_messages update = Some (messages s))"
    and cov1: "covered slices1 \<subseteq> covered (sp_slices l) \<union> {f..t}"
    and one: "\<And>m. ms = [m] \<Longrightarrow> f = m \<Longrightarrow> \<forall>x \<in> T. x < m \<Longrightarrow> added = 1"
    using addRangeItems_cases [OF snd range(2) T'] by metis
  have T'in: "T' \<subseteq> {0..ServerMaxMsgId}" using T T' range by auto
  have cov1': "covered slices1 \<subseteq> {0..ServerMaxMsgId}" using cov1 cov range by auto
  define count1 where "count1 = counted cnt incrementCount (sp_count l) added"
  have count1: "count1 = None \<or> count1 = Some (int (card T'))"
  proof (cases incrementCount)
    case True
    then have "added = 1" "f \<notin> T" "T' = insert f T" using one inc T'(1) by auto
    then show ?thesis
      using True cnt c truth_finite [OF T] by (auto simp: count1_def counted_def split: option.splits)
  qed (use cnt c in \<open>auto simp: count1_def counted_def split: option.splits\<close>)
  note w = widen_single_sound [OF snd1 T'in cov1' count1]
    and wcov = widen_single_ok(2) [OF _ cov1', of count1]
  have upd': "su_messages update = None
      \<or> (\<exists>s \<in> set (widen_single count1 slices1). su_messages update = Some (messages s))"
    using upd by (auto simp: widen_single_def split: list.splits option.splits)
  have "cnt = None \<or> \<not> incrementCount" using cnt by auto
  from addRange_unfold [OF this new] show ?thesis
    using w wcov T'in snd1 settled_sound [OF w T'in count1 upd']
    by (auto simp: sparse_sound_def count1_def [symmetric] slices_sound_def)
qed

lemma sparse_addSlice_sound:
  assumes "sparse_sound T l" "0 \<le> f" "f \<le> t" "t \<le> ServerMaxMsgId" "set ms = T \<inter> {f..t}"
    "cnt = None \<or> cnt = Some (int (card T))"
  shows "\<exists>l' u. sparse_addSlice ms f t cnt l = Some (l', u) \<and> sparse_sound T l'"
  unfolding sparse_addSlice_def using assms by (intro addRange_sound) auto

lemma sparse_addExisting_sound:
  assumes "sparse_sound T l" "0 \<le> f" "f \<le> t" "t \<le> ServerMaxMsgId" "T \<inter> {f..t} = {m}"
  shows "\<exists>l' u. sparse_addExisting m f t l = Some (l', u) \<and> sparse_sound T l'"
  unfolding sparse_addExisting_def using assms by (intro addRange_sound) auto

lemma sparse_addNew_sound:
  assumes "sparse_sound T l" "0 \<le> m" "m \<le> ServerMaxMsgId" "\<forall>x \<in> T. x < m"
  shows "\<exists>l' u. sparse_addNew m l = Some (l', u) \<and> sparse_sound (insert m T) l'"
proof -
  have "T \<inter> {m..ServerMaxMsgId} = {}" using assms(4) by force
  then show ?thesis
    unfolding sparse_addNew_def using assms by (intro addRange_sound [OF assms(1)]) auto
qed

lemma sparse_removeOne_sound:
  assumes sound: "sparse_sound T l" and m: "m \<in> T"
  shows "sparse_sound (T - {m}) (sparse_removeOne m l)"
proof -
  have "slices_ok (sp_slices l)" "finite T"
    using sound truth_finite by (auto simp: sparse_sound_def slices_sound_def)
  moreover from this(2) have "int (card (T - {m})) = int (card T) - 1"
    using m card_Suc_Diff1 [of T m] by simp
  ultimately show ?thesis
    using sound slices_removeOne_ok [of "sp_slices l" m]
    by (auto simp: sparse_sound_def sparse_removeOne_def slices_sound_def)
qed

lemma sparse_removeAll_sound: "sparse_sound {} (sparse_removeAll l)"
  by (simp add: sparse_removeAll_def sparse_sound_def slices_sound_def flat_set_insert_def
      slices_ok_Cons slice_ok_def out_of_span_def ServerMaxMsgId_def insert_at_def)

lemma sparse_invalidateBottom_sound:
  assumes "sparse_sound T l"
  shows "sparse_sound T (sparse_invalidateBottom l)"
proof -
  have ok: "slices_ok (sp_slices l)" and eq: "known (sp_slices l) = T \<inter> covered (sp_slices l)"
    using assms by (auto simp: sparse_sound_def slices_sound_def)
  note inv = slices_invalidateBottom_ok [OF ok, of ServerMaxMsgId]
  show ?thesis
    using assms inv eq known_covered [OF inv(1)]
    by (auto simp: sparse_sound_def sparse_invalidateBottom_def slices_sound_def)
qed

text \<open>
  The list next to the server. \<open>T\<close> is what exists there. The application reports what it hears:
  new messages, pages of the history with all their messages, deletions. While the bottom is
  invalidated (no count known) the server may change outside of what the list covers.
\<close>

inductive sparse_step :: "MsgId set \<times> sparse_list \<Rightarrow> MsgId set \<times> sparse_list \<Rightarrow> bool" where
  addNew: "\<lbrakk>0 \<le> m; m \<le> ServerMaxMsgId; \<forall>x \<in> T. x < m; sparse_addNew m l = Some (l', u)\<rbrakk>
    \<Longrightarrow> sparse_step (T, l) (insert m T, l')"
| addExisting: "\<lbrakk>0 \<le> f; f \<le> t; t \<le> ServerMaxMsgId; T \<inter> {f..t} = {m};
    sparse_addExisting m f t l = Some (l', u)\<rbrakk> \<Longrightarrow> sparse_step (T, l) (T, l')"
| addSlice: "\<lbrakk>0 \<le> f; f \<le> t; t \<le> ServerMaxMsgId; set ms = T \<inter> {f..t};
    cnt = None \<or> cnt = Some (int (card T));
    sparse_addSlice ms f t cnt l = Some (l', u)\<rbrakk> \<Longrightarrow> sparse_step (T, l) (T, l')"
| removeOne: "m \<in> T \<Longrightarrow> sparse_step (T, l) (T - {m}, sparse_removeOne m l)"
| removeAll: "sparse_step (T, l) ({}, sparse_removeAll l)"
| invalidateBottom: "sparse_step (T, l) (T, sparse_invalidateBottom l)"
| server: "\<lbrakk>sp_count l = None; T' \<subseteq> {0..ServerMaxMsgId};
    T' \<inter> covered (sp_slices l) = T \<inter> covered (sp_slices l)\<rbrakk> \<Longrightarrow> sparse_step (T, l) (T', l)"

inductive sparse_reach :: "MsgId set \<times> sparse_list \<Rightarrow> bool" where
  start: "T \<subseteq> {0..ServerMaxMsgId} \<Longrightarrow> sparse_reach (T, emptySparse)"
| step: "\<lbrakk>sparse_reach s; sparse_step s s'\<rbrakk> \<Longrightarrow> sparse_reach s'"

lemma sparse_step_sound:
  assumes step: "sparse_step (T, l) (T', l')" and sound: "sparse_sound T l"
  shows "sparse_sound T' l'"
  using step
proof (cases rule: sparse_step.cases)
  case addNew
  then show ?thesis using sparse_addNew_sound [OF sound] by fastforce
next
  case addExisting
  then show ?thesis using sparse_addExisting_sound [OF sound] by fastforce
next
  case addSlice
  then show ?thesis using sparse_addSlice_sound [OF sound] by fastforce
next
  case server
  then show ?thesis using sound by (auto simp: sparse_sound_def slices_sound_def)
qed (use sound sparse_removeOne_sound sparse_removeAll_sound sparse_invalidateBottom_sound in auto)

lemma reach_sound: "sparse_reach s \<Longrightarrow> sparse_sound (fst s) (snd s)"
proof (induction rule: sparse_reach.induct)
  case (start T)
  then show ?case by (simp add: sparse_sound_def slices_sound_def emptySparse_def)
next
  case (step s s')
  then show ?case using sparse_step_sound [of "fst s" "snd s" "fst s'" "snd s'"] by simp
qed

text \<open>
  C1. Whatever the order of reports, in every reachable state the list holds exactly the messages
  that exist in the ranges it covers, in disjoint ordered slices, and the count it reports (if any)
  is the number of messages that exist.
\<close>

theorem sparse_reachable_sound:
  assumes "sparse_reach (T, l)"
  shows "slices_ok (sp_slices l) \<and> known (sp_slices l) = T \<inter> covered (sp_slices l)
    \<and> (\<forall>c. sp_count l = Some c \<longrightarrow> c = int (card T))"
  using reach_sound [OF assms] by (auto simp: sparse_sound_def slices_sound_def)

text \<open>
  No report makes an assertion of the list fail: in a reachable state a new message, a page with
  exactly the existing messages of its range, and a single message alone in its range are all
  taken, whichever slices they touch.
\<close>

theorem sparse_reports_taken:
  assumes "sparse_reach (T, l)" "0 \<le> f" "f \<le> t" "t \<le> ServerMaxMsgId"
  shows "(set ms = T \<inter> {f..t} \<and> cnt \<in> {None, Some (int (card T))} \<longrightarrow>
      (\<exists>l' u. sparse_addSlice ms f t cnt l = Some (l', u)))
    \<and> (T \<inter> {f..t} = {m} \<longrightarrow> (\<exists>l' u. sparse_addExisting m f t l = Some (l', u)))
    \<and> ((\<forall>x \<in> T. x < f) \<longrightarrow> (\<exists>l' u. sparse_addNew f l = Some (l', u)))"
  using reach_sound [OF assms(1)] assms sparse_addSlice_sound [of T l f t ms cnt]
    sparse_addExisting_sound [of T l f t m] sparse_addNew_sound [of T l f] by auto

text \<open>
  C2. A snapshot around a covered id is exact: its ids are consecutive among all existing ones, and
  when it says how many it skipped before or after, that is their number.
\<close>

theorem sparse_snapshot_exact:
  assumes "sparse_reach (T, l)" "a \<noteq> 0" "a \<in> covered (sp_slices l)" "0 \<le> limitBefore" "0 \<le> limitAfter"
    and r: "r = sparse_snapshot a limitBefore limitAfter l"
  shows "\<exists>pre post. sorted_list_of_set T = pre @ qr_messageIds r @ post
    \<and> (\<forall>n. qr_skippedBefore r = Some n \<longrightarrow> n = int (length pre))
    \<and> (\<forall>n. qr_skippedAfter r = Some n \<longrightarrow> n = int (length post))"
proof -
  have snd: "slices_sound T (sp_slices l)" "T \<subseteq> {0..ServerMaxMsgId}"
    "sp_count l = None \<or> sp_count l = Some (int (card T))"
    using reach_sound [OF assms(1)] by (cases "sp_count l"; auto simp: sparse_sound_def)+
  then obtain i where i: "slice_around (sp_slices l) a = Some i"
    using slice_around_None [of "sp_slices l" a] assms(3) by (auto simp: slices_sound_def)
  show ?thesis
    by (rule query_exact [OF snd(1) truth_finite [OF snd(2)] snd(2) i assms(4,5) snd(3)])
      (use i assms(2) r in \<open>simp add: sparse_snapshot_def\<close>)
qed

text \<open>A concrete run: two pages that meet, then a new message.\<close>

definition sample_run :: "MsgId set \<times> sparse_list" where
  "sample_run = ({5, 7, 9}, \<lparr>sp_count = None, sp_slices =
     [\<lparr>messages = [5, 7], sl_from = 4, sl_till = 8\<rparr>,
      \<lparr>messages = [9], sl_from = 9, sl_till = ServerMaxMsgId\<rparr>]\<rparr>)"

lemma sample_page: "sparse_addSlice [7, 5] 4 8 None emptySparse = Some (\<lparr>sp_count = None,
    sp_slices = [\<lparr>messages = [5, 7], sl_from = 4, sl_till = 8\<rparr>]\<rparr>,
    \<lparr>su_messages = Some [5, 7], su_from = 4, su_till = 8, su_count = None\<rparr>)"
  by code_simp

lemma sample_new: "sparse_addNew 9 \<lparr>sp_count = None,
    sp_slices = [\<lparr>messages = [5, 7], sl_from = 4, sl_till = 8\<rparr>]\<rparr> = Some (snd sample_run,
    \<lparr>su_messages = Some [9], su_from = 9, su_till = ServerMaxMsgId, su_count = None\<rparr>)"
  by code_simp

lemma sample_reach: "sparse_reach sample_run"
proof -
  let ?l = "\<lparr>sp_count = None, sp_slices = [\<lparr>messages = [5, 7], sl_from = 4, sl_till = 8\<rparr>]\<rparr>"
  have "sparse_reach ({5, 7}, emptySparse)"
    by (rule sparse_reach.start) (simp add: ServerMaxMsgId_def)
  moreover have "sparse_step ({5, 7}, emptySparse) ({5, 7}, ?l)"
    by (rule sparse_step.addSlice [OF _ _ _ _ _ sample_page]) (auto simp: ServerMaxMsgId_def)
  ultimately have "sparse_reach ({5, 7}, ?l)" by (rule sparse_reach.step)
  moreover have "sparse_step ({5, 7}, ?l) (insert 9 {5, 7}, snd sample_run)"
    by (rule sparse_step.addNew [OF _ _ _ sample_new]) (auto simp: ServerMaxMsgId_def)
  ultimately have "sparse_reach (insert 9 {5, 7}, snd sample_run)" by (rule sparse_reach.step)
  then show ?thesis by (simp add: sample_run_def insert_commute)
qed

theorem sparse_reachable_sound_witness:
  "known (sp_slices (snd sample_run)) = {5, 7, 9} \<inter> covered (sp_slices (snd sample_run))"
  using sparse_reachable_sound [of "fst sample_run" "snd sample_run"] sample_reach
  by (simp add: sample_run_def)

theorem sparse_reports_taken_witness:
  "\<exists>l' u. sparse_addSlice [7] 6 8 None (snd sample_run) = Some (l', u)"
  using sparse_reports_taken [of "fst sample_run" "snd sample_run" 6 8 "[7]" None 0] sample_reach
  by (auto simp: sample_run_def ServerMaxMsgId_def)

theorem sparse_snapshot_exact_witness:
  "\<exists>pre post. sorted_list_of_set {5, 7, 9} =
     pre @ qr_messageIds (sparse_snapshot 7 1 1 (snd sample_run)) @ post"
proof -
  have "(7::int) \<in> covered (sp_slices (snd sample_run))" by (simp add: sample_run_def)
  with sparse_snapshot_exact [of "fst sample_run" "snd sample_run" 7 1 1, OF _ _ _ _ _ refl]
    sample_reach show ?thesis by (fastforce simp: sample_run_def)
qed

section \<open>The interface\<close>

fun sparse_report :: "MsgId report \<Rightarrow> sparse_list \<Rightarrow> sparse_list option" where
  "sparse_report (NewMessage m) l = map_option fst (sparse_addNew m l)"
| "sparse_report (Page ms f t cnt) l = map_option fst (sparse_addSlice ms f t cnt l)"
| "sparse_report (Deleted m) l = Some (sparse_removeOne m l)"
| "sparse_report BottomInvalidated l = Some (sparse_invalidateBottom l)"

interpretation sparse_store: id_store sparse_report "\<lambda>m. 0 \<le> m \<and> m \<le> ServerMaxMsgId" sparse_sound
proof
  fix T l r
  assume sound: "sparse_sound T l" and tr: "truthful (\<lambda>m. 0 \<le> m \<and> m \<le> ServerMaxMsgId) T r"
  show "\<exists>l'. sparse_report r l = Some l' \<and> sparse_sound (after_report r T) l'"
  proof (cases r)
    case (NewMessage m)
    with tr sparse_addNew_sound [OF sound, of m] show ?thesis by auto
  next
    case (Page ms f t cnt)
    with tr sparse_addSlice_sound [OF sound, of f t ms cnt] show ?thesis by auto
  qed (use tr sound sparse_removeOne_sound sparse_invalidateBottom_sound in auto)
qed

end
