(* ===== verification/SparseIds.thy ===== *)
theory SparseIds
  imports SliceBuilder SparseIdsList
begin

text \<open>
  \<open>data/data_sparse_ids.cpp\<close>, \<open>data/data_sparse_ids.h\<close> and \<open>data/data_abstract_sparse_ids.h\<close>: the
  builder over message ids, the slice it hands out, and the merged slice of a supergroup together
  with the group it was migrated from.
\<close>

section \<open>The builder\<close>

definition sbuilder_new :: "MsgId \<Rightarrow> int \<Rightarrow> int \<Rightarrow> MsgId builder" where
  "sbuilder_new = builder_new"

definition sbuilder_applyInitial ::
    "MsgId query_result \<Rightarrow> MsgId builder \<Rightarrow> (MsgId builder \<times> bool) option" where
  "sbuilder_applyInitial = builder_applyInitial msg_id_kind"

definition sbuilder_applyUpdate ::
    "MsgId slice_update \<Rightarrow> MsgId builder \<Rightarrow> (MsgId builder \<times> bool) option" where
  "sbuilder_applyUpdate = builder_applyUpdate msg_id_kind"

definition sbuilder_mergeSliceData ::
    "int option \<Rightarrow> MsgId list \<Rightarrow> int option \<Rightarrow> int option \<Rightarrow> MsgId builder \<Rightarrow> MsgId builder option" where
  "sbuilder_mergeSliceData = builder_mergeSliceData msg_id_kind"

definition sbuilder_fillSkippedAndSliceToLimits :: "MsgId builder \<Rightarrow> MsgId builder" where
  "sbuilder_fillSkippedAndSliceToLimits = builder_fillSkippedAndSliceToLimits msg_id_kind"

definition sbuilder_sliceToLimits :: "MsgId builder \<Rightarrow> MsgId builder" where
  "sbuilder_sliceToLimits = builder_sliceToLimits msg_id_kind"

text \<open>Unlike the messages builder, a change is followed by \<open>checkInsufficient\<close>.\<close>

definition sbuilder_removeOne :: "MsgId \<Rightarrow> MsgId builder \<Rightarrow> MsgId builder \<times> bool" where
  "sbuilder_removeOne messageId b =
     (let (b', changed) = builder_removeOne messageId b
      in (if changed then builder_checkInsufficient msg_id_kind b' else b', changed))"

definition sbuilder_removeAll :: "MsgId builder \<Rightarrow> MsgId builder \<times> bool" where
  "sbuilder_removeAll = builder_removeAll"

definition sbuilder_invalidateBottom :: "MsgId builder \<Rightarrow> MsgId builder \<times> bool" where
  "sbuilder_invalidateBottom = builder_bottomInvalidated msg_id_kind"

section \<open>The slice\<close>

record 'i ids_slice =
  is_ids :: "'i list"
  is_fullCount :: "int option"
  is_skippedBefore :: "int option"
  is_skippedAfter :: "int option"

definition empty_slice :: "'i ids_slice" where
  "empty_slice = \<lparr>is_ids = [], is_fullCount = None, is_skippedBefore = None, is_skippedAfter = None\<rparr>"

definition sbuilder_snapshot :: "MsgId builder \<Rightarrow> MsgId ids_slice" where
  "sbuilder_snapshot b =
     \<lparr>is_ids = b_ids b, is_fullCount = b_fullCount b, is_skippedBefore = b_skippedBefore b,
      is_skippedAfter = b_skippedAfter b\<rparr>"

definition slice_indexOf :: "'i \<Rightarrow> 'i ids_slice \<Rightarrow> int option" where
  "slice_indexOf i s =
     (let it = length (takeWhile (\<lambda>x. x \<noteq> i) (is_ids s)) in
      if it \<noteq> length (is_ids s) then Some (int it) else None)"

definition slice_size :: "'i ids_slice \<Rightarrow> int" where
  "slice_size s = int (length (is_ids s))"

definition slice_at :: "int \<Rightarrow> 'i ids_slice \<Rightarrow> 'i option" where
  "slice_at index s =
     (if 0 \<le> index \<and> index < slice_size s then Some (is_ids s ! nat index) else None)"

definition slice_distance :: "'i \<Rightarrow> 'i \<Rightarrow> 'i ids_slice \<Rightarrow> int option" where
  "slice_distance a b s =
     (case slice_indexOf a s of
        Some i \<Rightarrow> (case slice_indexOf b s of Some j \<Rightarrow> Some (j - i) | None \<Rightarrow> None)
      | None \<Rightarrow> None)"

definition slice_nearest :: "'i \<Rightarrow> ('i::linorder) ids_slice \<Rightarrow> 'i option" where
  "slice_nearest i s =
     (let it = lower_bound (<) (is_ids s) i in
      if it \<noteq> length (is_ids s) then Some (is_ids s ! it)
      else if is_ids s = [] then None
      else Some (last (is_ids s)))"

definition slice_reverse :: "'i ids_slice \<Rightarrow> 'i ids_slice" where
  "slice_reverse s = s\<lparr>is_ids := rev (is_ids s), is_skippedBefore := is_skippedAfter s,
     is_skippedAfter := is_skippedBefore s\<rparr>"

section \<open>The merged slice\<close>

record merged_key =
  mk_peerId :: PeerId
  mk_scheduled :: bool
  mk_migratedPeerId :: PeerId
  mk_universalId :: MsgId

definition merged_key_new :: "PeerId \<Rightarrow> PeerId \<Rightarrow> MsgId \<Rightarrow> bool \<Rightarrow> merged_key" where
  "merged_key_new peerId migratedPeerId universalId scheduled =
     \<lparr>mk_peerId = peerId, mk_scheduled = scheduled,
      mk_migratedPeerId = (if scheduled then PeerId 0 else migratedPeerId),
      mk_universalId = universalId\<rparr>"

text \<open>
  An empty \<open>std::optional\<close> that is dereferenced is undefined behaviour in the source; here it is
  \<open>the None\<close>, of which nothing is known.
\<close>

record merged_slice =
  mg_key :: merged_key
  mg_part :: "MsgId ids_slice"
  mg_migrated :: "MsgId ids_slice option"
  mg_unsorted :: "MsgId ids_slice option"

definition PartKey :: "merged_key \<Rightarrow> MsgId" where
  "PartKey key = (if mk_universalId key < 0 then 1 else mk_universalId key)"

definition MigratedKey :: "merged_key \<Rightarrow> MsgId" where
  "MigratedKey key =
     (if mk_universalId key < 0 then ServerMaxMsgId + mk_universalId key
      else if mk_universalId key > 0 then ServerMaxMsgId - 1 else 0)"

definition MigratedSlice :: "merged_key \<Rightarrow> MsgId ids_slice option" where
  "MigratedSlice key = (if mk_migratedPeerId key \<noteq> PeerId 0 then Some empty_slice else None)"

definition merged_new :: "merged_key \<Rightarrow> MsgId ids_slice \<Rightarrow> MsgId ids_slice option \<Rightarrow> merged_slice" where
  "merged_new key part migrated =
     \<lparr>mg_key = key, mg_part = part, mg_migrated = migrated, mg_unsorted = None\<rparr>"

definition merged_empty :: "merged_key \<Rightarrow> merged_slice" where
  "merged_empty key = merged_new key empty_slice (MigratedSlice key)"

definition merged_unsorted :: "merged_key \<Rightarrow> MsgId ids_slice \<Rightarrow> merged_slice" where
  "merged_unsorted key unsorted =
     \<lparr>mg_key = key, mg_part = empty_slice, mg_migrated = None, mg_unsorted = Some unsorted\<rparr>"

definition IsFromSlice :: "PeerId \<Rightarrow> FullMsgId \<Rightarrow> bool" where
  "IsFromSlice peerId fullId \<longleftrightarrow> peerId = fm_peer fullId"

definition ComputeId :: "PeerId \<Rightarrow> MsgId \<Rightarrow> FullMsgId" where
  "ComputeId peerId msgId = FullMsgId peerId msgId"

definition ComputeKeyId :: "merged_key \<Rightarrow> FullMsgId" where
  "ComputeKeyId key =
     (if mk_universalId key \<ge> 0 then ComputeId (mk_peerId key) (mk_universalId key)
      else ComputeId (mk_migratedPeerId key) (ServerMaxMsgId + mk_universalId key))"

definition merged_Add :: "int option \<Rightarrow> int option \<Rightarrow> int option" where
  "merged_Add a b = (case (a, b) of (Some x, Some y) \<Rightarrow> Some (x + y) | _ \<Rightarrow> None)"

definition isolatedInPart :: "merged_slice \<Rightarrow> bool" where
  "isolatedInPart m \<longleftrightarrow> IsServerMsgId (mk_universalId (mg_key m))
     \<and> (mg_migrated m = None \<or> is_skippedBefore (mg_part m) \<noteq> Some 0)"

definition isolatedInMigrated :: "merged_slice \<Rightarrow> bool" where
  "isolatedInMigrated m \<longleftrightarrow> IsServerMsgId (ServerMaxMsgId + mk_universalId (mg_key m))
     \<and> is_skippedAfter (the (mg_migrated m)) \<noteq> Some 0"

definition isFromPart :: "FullMsgId \<Rightarrow> merged_slice \<Rightarrow> bool" where
  "isFromPart fullId m = IsFromSlice (mk_peerId (mg_key m)) fullId"

definition isFromMigrated :: "FullMsgId \<Rightarrow> merged_slice \<Rightarrow> bool" where
  "isFromMigrated fullId m =
     (mg_migrated m \<noteq> None \<and> IsFromSlice (mk_migratedPeerId (mg_key m)) fullId)"

definition migratedSize :: "merged_slice \<Rightarrow> int" where
  "migratedSize m = (if isolatedInPart m then 0 else slice_size (the (mg_migrated m)))"

definition merged_fullCount :: "merged_slice \<Rightarrow> int option" where
  "merged_fullCount m =
     (case mg_unsorted m of
        Some u \<Rightarrow> is_fullCount u
      | None \<Rightarrow> merged_Add (is_fullCount (mg_part m))
          (case mg_migrated m of Some g \<Rightarrow> is_fullCount g | None \<Rightarrow> Some 0))"

definition merged_skippedBefore :: "merged_slice \<Rightarrow> int option" where
  "merged_skippedBefore m =
     (case mg_unsorted m of
        Some u \<Rightarrow> is_skippedBefore u
      | None \<Rightarrow> merged_Add
          (if isolatedInMigrated m then Some 0 else is_skippedBefore (mg_part m))
          (case mg_migrated m of
             Some g \<Rightarrow> if isolatedInPart m then is_fullCount g else is_skippedBefore g
           | None \<Rightarrow> Some 0))"

definition merged_skippedAfter :: "merged_slice \<Rightarrow> int option" where
  "merged_skippedAfter m =
     (case mg_unsorted m of
        Some u \<Rightarrow> is_skippedAfter u
      | None \<Rightarrow> merged_Add
          (if isolatedInMigrated m then is_fullCount (mg_part m) else is_skippedAfter (mg_part m))
          (if isolatedInPart m then Some 0 else is_skippedAfter (the (mg_migrated m))))"

definition merged_indexOf :: "FullMsgId \<Rightarrow> merged_slice \<Rightarrow> int option" where
  "merged_indexOf fullId m =
     (case mg_unsorted m of
        Some u \<Rightarrow> slice_indexOf (fm_msg fullId) u
      | None \<Rightarrow>
        if isFromPart fullId m
        then map_option (\<lambda>i. i + migratedSize m) (slice_indexOf (fm_msg fullId) (mg_part m))
        else if isolatedInPart m then None
        else if isFromMigrated fullId m then slice_indexOf (fm_msg fullId) (the (mg_migrated m))
        else None)"

definition merged_size :: "merged_slice \<Rightarrow> int" where
  "merged_size m =
     (case mg_unsorted m of
        Some u \<Rightarrow> slice_size u
      | None \<Rightarrow> (if isolatedInPart m then 0 else migratedSize m)
          + (if isolatedInMigrated m then 0 else slice_size (mg_part m)))"

definition merged_at :: "int \<Rightarrow> merged_slice \<Rightarrow> FullMsgId option" where
  "merged_at index m =
     (if \<not> (0 \<le> index \<and> index < merged_size m) then None
      else case mg_unsorted m of
        Some u \<Rightarrow> map_option (ComputeId (mk_peerId (mg_key m))) (slice_at index u)
      | None \<Rightarrow>
        if migratedSize m \<noteq> 0 \<and> index < migratedSize m
        then map_option (ComputeId (mk_migratedPeerId (mg_key m))) (slice_at index (the (mg_migrated m)))
        else map_option (ComputeId (mk_peerId (mg_key m)))
          (slice_at (index - migratedSize m) (mg_part m)))"

definition merged_distance :: "merged_key \<Rightarrow> merged_key \<Rightarrow> merged_slice \<Rightarrow> int option" where
  "merged_distance a b m =
     (case merged_indexOf (ComputeKeyId a) m of
        Some i \<Rightarrow> (case merged_indexOf (ComputeKeyId b) m of Some j \<Rightarrow> Some (j - i) | None \<Rightarrow> None)
      | None \<Rightarrow> None)"

definition merged_nearest :: "MsgId \<Rightarrow> merged_slice \<Rightarrow> FullMsgId option" where
  "merged_nearest i m =
     (case mg_unsorted m of
        Some u \<Rightarrow>
          (if slice_indexOf i u \<noteq> None then Some (ComputeId (mk_peerId (mg_key m)) i)
           else if slice_size u \<noteq> 0
           then map_option (ComputeId (mk_peerId (mg_key m))) (slice_at (slice_size u div 2) u)
           else None)
      | None \<Rightarrow>
        let fromPart = ComputeId (mk_peerId (mg_key m));
            fromMigrated = ComputeId (mk_migratedPeerId (mg_key m)) in
        if IsServerMsgId i then
          (case slice_nearest i (mg_part m) of
             Some n \<Rightarrow> Some (fromPart n)
           | None \<Rightarrow> if isolatedInPart m then None
               else map_option fromMigrated
                 (slice_nearest (ServerMaxMsgId - 1) (the (mg_migrated m))))
        else
          (case (case mg_migrated m of
                Some g \<Rightarrow> slice_nearest (i + ServerMaxMsgId) g | None \<Rightarrow> None) of
             Some n \<Rightarrow> Some (fromMigrated n)
           | None \<Rightarrow> if isolatedInMigrated m then None
               else map_option fromPart (slice_nearest 0 (mg_part m))))"

text \<open>
  \<open>CreateViewer\<close>: the merged slice for the latest values of the two simple viewers, which are given
  as a function of the peer, the simple key and the limits; \<open>None\<close> is a failed \<open>Expects\<close>.
\<close>

definition merged_CreateViewer ::
    "merged_key \<Rightarrow> int \<Rightarrow> int \<Rightarrow> (PeerId \<Rightarrow> MsgId \<Rightarrow> int \<Rightarrow> int \<Rightarrow> MsgId ids_slice)
      \<Rightarrow> merged_slice option" where
  "merged_CreateViewer key limitBefore limitAfter simpleViewer =
     (if \<not> (IsServerMsgId (mk_universalId key) \<or> mk_universalId key = 0
          \<or> IsServerMsgId (ServerMaxMsgId + mk_universalId key) \<and> mk_migratedPeerId key \<noteq> PeerId 0)
      then None
      else if \<not> (mk_universalId key \<noteq> 0 \<or> limitBefore = 0 \<and> limitAfter = 0) then None
      else let part = simpleViewer (mk_peerId key) (PartKey key) limitBefore limitAfter in
        if mk_migratedPeerId key = PeerId 0 then Some (merged_new key part None)
        else Some (merged_new key part
          (Some (simpleViewer (mk_migratedPeerId key) (MigratedKey key) limitBefore limitAfter))))"

section \<open>The builder and the list\<close>

lemma msg_id_kind_was: "\<not> kd_was msg_id_kind (kd_impossible msg_id_kind)"
  by (simp add: msg_id_kind_def)

lemma sparse_look_exact:
  assumes sound: "sparse_sound T l" and lim: "0 \<le> limitBefore" "0 \<le> limitAfter"
  shows "segment T (qr_messageIds (sparse_snapshot a limitBefore limitAfter l))
        (qr_skippedBefore (sparse_snapshot a limitBefore limitAfter l))
        (qr_skippedAfter (sparse_snapshot a limitBefore limitAfter l))
      \<and> qr_count (sparse_snapshot a limitBefore limitAfter l) \<in> {None, Some (int (card T))}"
proof -
  have snd: "slices_sound T (sp_slices l)" "T \<subseteq> {0..ServerMaxMsgId}"
    "sp_count l = None \<or> sp_count l = Some (int (card T))"
    using sound by (cases "sp_count l"; auto simp: sparse_sound_def)+
  show ?thesis
  proof (cases "a \<noteq> 0 \<and> slice_around (sp_slices l) a \<noteq> None")
    case True
    then obtain i where i: "slice_around (sp_slices l) a = Some i" by auto
    have eq: "sparse_snapshot a limitBefore limitAfter l
        = queryFromSlice 0 ServerMaxMsgId a limitBefore limitAfter (sp_count l) (sp_slices l ! i)"
      using True i by (simp add: sparse_snapshot_def)
    have "qr_count (sparse_snapshot a limitBefore limitAfter l) = sp_count l"
      unfolding eq by (simp add: queryFromSlice_def Let_def)
    then show ?thesis
      using query_exact [OF snd(1) truth_finite [OF snd(2)] snd(2) i lim snd(3) eq] snd(3)
      by (auto simp: segment_def)
  next
    case False
    then have "sparse_snapshot a limitBefore limitAfter l = empty_result\<lparr>qr_count := sp_count l\<rparr>"
      by (auto simp: sparse_snapshot_def)
    with snd(3) show ?thesis by (auto simp: empty_result_def segment_empty)
  qed
qed

interpretation sparse_view: exact_store sparse_report "\<lambda>m. 0 \<le> m \<and> m \<le> ServerMaxMsgId" sparse_sound
  sparse_snapshot msg_id_kind
proof (unfold_locales, goal_cases)
  case (1 T l limitBefore limitAfter a)
  then show ?case by (rule sparse_look_exact)
next
  case (2 T l)
  then show ?case by (auto simp: sparse_sound_def dest: truth_finite)
next
  case 3
  show ?case by (rule msg_id_kind_was)
qed

lemma truth_card: "T \<subseteq> {0..ServerMaxMsgId} \<Longrightarrow> card T < 2 ^ 64"
proof -
  assume "T \<subseteq> {0..ServerMaxMsgId}"
  then have "card T \<le> card {0..ServerMaxMsgId}" by (intro card_mono) auto
  then show ?thesis by (simp add: ServerMaxMsgId_def)
qed

text \<open>The update that a page fires carries all messages of its range.\<close>

lemma addSlice_update:
  assumes sound: "sparse_sound T l" and range: "0 \<le> f" "f \<le> t" "t \<le> ServerMaxMsgId"
    and ms: "set ms = T \<inter> {f..t}" and cnt: "cnt = None \<or> cnt = Some (int (card T))"
  shows "\<exists>l' u. sparse_addSlice ms f t cnt l = Some (l', u) \<and> sparse_sound T l' \<and> update_sound T u"
proof -
  obtain l' u where lu: "sparse_addSlice ms f t cnt l = Some (l', u)" "sparse_sound T l'"
    using sparse_addSlice_sound [OF sound range ms cnt] by auto
  have snd: "slices_sound T (sp_slices l)" using sound by (simp add: sparse_sound_def)
  have T: "T = T \<union> set ms" using ms by auto
  obtain slices1 update added where
    new: "sparse_addRangeItemsAndCountNew ms f t (sp_slices l) = Some (slices1, update, added)"
    and snd1: "slices_sound T slices1"
    and upd: "update = no_update 0 \<or> (\<exists>s \<in> set slices1. su_messages update = Some (messages s)
      \<and> su_from update = sl_from s \<and> su_till update = sl_till s)"
    using addRangeItems_update [OF snd range(2) T ms] by metis
  have "u = update\<lparr>su_count := sp_count l'\<rparr>"
    using addRange_unfold [OF _ new, of cnt False] lu(1) by (auto simp: sparse_addSlice_def)
  moreover have "sp_count l' = None \<or> sp_count l' = Some (int (card T))"
    using lu(2) by (cases "sp_count l'") (auto simp: sparse_sound_def)
  moreover have "sl_from s \<le> sl_till s \<and> sorted_wrt (<) (messages s)
      \<and> set (messages s) = T \<inter> {sl_from s..sl_till s}" if "s \<in> set slices1" for s
    using sound_slice [OF snd1 that] by simp
  ultimately have "update_sound T u"
    using upd by (auto simp: update_sound_def no_update_def)
  with lu show ?thesis by blast
qed

section \<open>Properties\<close>



text \<open>
  Removing an existing message from an exact view that shows something keeps it exact for the
  messages that remain, and the view asks for more when it has become too small.
\<close>

theorem sbuilder_removeOne_exact:
  assumes "builder_ready T b" "b_ids b \<noteq> []" "m \<in> T"
  shows "builder_ready (T - {m}) (fst (sbuilder_removeOne m b))"
  using removeOne_ready [OF assms]
  by (simp add: sbuilder_removeOne_def case_prod_beta Let_def builder_checkInsufficient_def slice_ready)

theorem sbuilder_removeOne_exact_witness:
  "builder_ready ({5, 7} - {7}) (fst (sbuilder_removeOne 7
     ((sbuilder_new 5 1 1)\<lparr>b_ids := [5, 7], b_fullCount := Some 2\<rparr>)))"
proof -
  have "segment {5, 7 :: MsgId} [5, 7] None None" by (rule segmentI [of _ "[]" _ "[]"]) simp_all
  then have "builder_ready {5, 7} ((sbuilder_new 5 1 1)\<lparr>b_ids := [5, 7], b_fullCount := Some 2\<rparr>)"
    by (simp add: builder_ready_def builder_sound_def sbuilder_new_def builder_new_def)
  then show ?thesis by (rule sbuilder_removeOne_exact) simp_all
qed

definition gap_list :: sparse_list where
  "gap_list = \<lparr>sp_count = Some 2, sp_slices = [\<lparr>messages = [5], sl_from = 0, sl_till = 6\<rparr>]\<rparr>"

definition gap_view :: "MsgId builder" where
  "gap_view = fst (the (sbuilder_applyInitial (sparse_snapshot 5 0 0 gap_list) (sbuilder_new 5 0 0)))"

text \<open>
  A new message that arrives outside of the ids a view shows leaves the view with numbers that
  no longer add up: the full count grows, both skipped numbers stay as they were.
\<close>

theorem sparse_view_new_message_gap:
  "b_ids gap_view = [5] \<and> b_skippedBefore gap_view = Some 0 \<and> b_skippedAfter gap_view = Some 1
    \<and> b_fullCount gap_view = Some 2
    \<and> map_option (\<lambda>(l, u). map_option (\<lambda>(b, _). (length (b_ids b), b_skippedBefore b, b_skippedAfter b,
        b_fullCount b)) (sbuilder_applyUpdate u gap_view)) (sparse_addNew 30 gap_list)
      = Some (Some (1, Some 0, Some 1, Some 3))"
  by code_simp

section \<open>Indices\<close>

lemma takeWhile_neq_index:
  assumes "distinct xs" "i < length xs"
  shows "length (takeWhile (\<lambda>x. x \<noteq> xs ! i) xs) = i"
proof -
  have "takeWhile (\<lambda>x. x \<noteq> xs ! i) xs = take i xs"
  proof (rule takeWhile_eq_take_P_nth)
    show "xs ! j \<noteq> xs ! i" if "j < i" "j < length xs" for j
      using that assms by (simp add: nth_eq_iff_index_eq)
  qed simp
  with assms(2) show ?thesis by simp
qed

lemma slice_index_at:
  assumes "distinct (is_ids s)" "slice_at i s = Some x"
  shows "slice_indexOf x s = Some i"
proof -
  have i: "0 \<le> i" "nat i < length (is_ids s)" "x = is_ids s ! nat i"
    using assms(2) by (auto simp: slice_at_def slice_size_def split: if_splits)
  with takeWhile_neq_index [OF assms(1) i(2)] show ?thesis by (simp add: slice_indexOf_def)
qed

lemma slice_at_index:
  assumes "slice_indexOf x s = Some i"
  shows "slice_at i s = Some x"
proof -
  let ?it = "length (takeWhile (\<lambda>y. y \<noteq> x) (is_ids s))"
  have i: "i = int ?it" "?it \<noteq> length (is_ids s)"
    using assms by (auto simp: slice_indexOf_def Let_def split: if_splits)
  then have lt: "?it < length (is_ids s)"
    using length_takeWhile_le [of "\<lambda>y. y \<noteq> x" "is_ids s"] by linarith
  then have "is_ids s ! ?it = x" using nth_length_takeWhile by blast
  with lt i show ?thesis by (simp add: slice_at_def slice_size_def)
qed

text \<open>
  A merged slice can be asked for its ids when it is unsorted, around an id of the new chat, or has
  the part of the old chat; both parts hold distinct ids and the two chats differ.
\<close>

definition merged_ok :: "merged_slice \<Rightarrow> bool" where
  "merged_ok m \<longleftrightarrow>
     (case mg_unsorted m of
        Some u \<Rightarrow> distinct (is_ids u)
      | None \<Rightarrow> (IsServerMsgId (mk_universalId (mg_key m)) \<or> mg_migrated m \<noteq> None)
          \<and> distinct (is_ids (mg_part m))
          \<and> (\<forall>g. mg_migrated m = Some g \<longrightarrow> distinct (is_ids g)
              \<and> mk_peerId (mg_key m) \<noteq> mk_migratedPeerId (mg_key m)))"

lemmas merged_id_defs = ComputeId_def isFromPart_def isFromMigrated_def IsFromSlice_def

lemma slice_at_range: "slice_at i s = Some x \<Longrightarrow> 0 \<le> i \<and> i < slice_size s"
  by (simp add: slice_at_def split: if_splits)

lemma not_isolated_migrated:
  assumes "merged_ok m" "mg_unsorted m = None" "\<not> isolatedInPart m"
  obtains g where "mg_migrated m = Some g" "distinct (is_ids g)"
    "mk_peerId (mg_key m) \<noteq> mk_migratedPeerId (mg_key m)"
  using assms by (auto simp: merged_ok_def isolatedInPart_def)

text \<open>
  In a merged slice the position of an id and the id at a position are inverse to each other, in
  the part of the new chat, in the part of the old chat and in an unsorted slice.
\<close>

theorem merged_index_roundtrip:
  assumes ok: "merged_ok m" and at: "merged_at i m = Some x"
  shows "merged_indexOf x m = Some i"
proof (cases "mg_unsorted m")
  case (Some u)
  then have "distinct (is_ids u)" using ok by (simp add: merged_ok_def)
  with Some at slice_index_at [of u i] show ?thesis
    by (auto simp: merged_at_def merged_indexOf_def ComputeId_def split: if_splits)
next
  case None
  have dist: "distinct (is_ids (mg_part m))" using ok None by (simp add: merged_ok_def)
  show ?thesis
  proof (cases "migratedSize m \<noteq> 0 \<and> i < migratedSize m")
    case True
    then have "\<not> isolatedInPart m" by (auto simp: migratedSize_def)
    then obtain g where g: "mg_migrated m = Some g" "distinct (is_ids g)"
      "mk_peerId (mg_key m) \<noteq> mk_migratedPeerId (mg_key m)"
      using not_isolated_migrated [OF ok None] by blast
    then obtain y where "slice_at i g = Some y" "x = ComputeId (mk_migratedPeerId (mg_key m)) y"
      using at True None by (auto simp: merged_at_def split: if_splits)
    with None g \<open>\<not> isolatedInPart m\<close> slice_index_at [OF g(2)] show ?thesis
      by (auto simp: merged_indexOf_def merged_id_defs)
  next
    case False
    then obtain y where "slice_at (i - migratedSize m) (mg_part m) = Some y"
      "x = ComputeId (mk_peerId (mg_key m)) y"
      using at None by (auto simp: merged_at_def split: if_splits)
    with None slice_index_at [OF dist] show ?thesis
      by (auto simp: merged_indexOf_def merged_id_defs)
  qed
qed

definition sample_merged :: merged_slice where
  "sample_merged = merged_new (merged_key_new (PeerId 9) (PeerId 4) 20 False)
     \<lparr>is_ids = [10, 20], is_fullCount = Some 2, is_skippedBefore = Some 0, is_skippedAfter = Some 0\<rparr>
     (Some \<lparr>is_ids = [7, 8], is_fullCount = Some 5, is_skippedBefore = Some 3, is_skippedAfter = Some 0\<rparr>)"

theorem merged_index_roundtrip_witness:
  "merged_indexOf (FullMsgId (PeerId 4) 8) sample_merged = Some 1"
proof -
  have "merged_at 1 sample_merged = Some (FullMsgId (PeerId 4) 8)" by code_simp
  moreover have "merged_ok sample_merged"
    by (simp add: merged_ok_def sample_merged_def merged_new_def merged_key_new_def)
  ultimately show ?thesis by (rule merged_index_roundtrip [rotated])
qed

definition adds_up :: "int option \<Rightarrow> int \<Rightarrow> int option \<Rightarrow> int option \<Rightarrow> bool" where
  "adds_up before shown after full \<longleftrightarrow>
     (\<forall>b a f. before = Some b \<longrightarrow> after = Some a \<longrightarrow> full = Some f \<longrightarrow> b + shown + a = f)"

definition slice_adds_up :: "'i ids_slice \<Rightarrow> bool" where
  "slice_adds_up s \<longleftrightarrow> adds_up (is_skippedBefore s) (slice_size s) (is_skippedAfter s) (is_fullCount s)"

text \<open>
  The numbers of a merged slice add up whenever those of its parts do: skipped before, shown and
  skipped after are together the full count, in all three ways the parts can be joined.
\<close>

theorem merged_adds_up:
  assumes ok: "merged_ok m" and part: "slice_adds_up (mg_part m)"
    and mig: "\<forall>g. mg_migrated m = Some g \<longrightarrow> slice_adds_up g"
    and uns: "\<forall>u. mg_unsorted m = Some u \<longrightarrow> slice_adds_up u"
  shows "adds_up (merged_skippedBefore m) (merged_size m) (merged_skippedAfter m) (merged_fullCount m)"
proof (cases "mg_unsorted m")
  case (Some u)
  with uns show ?thesis
    by (simp add: merged_skippedBefore_def merged_skippedAfter_def merged_size_def merged_fullCount_def
        slice_adds_up_def)
next
  case None
  have excl: "\<not> (isolatedInPart m \<and> isolatedInMigrated m)"
    by (auto simp: isolatedInPart_def isolatedInMigrated_def IsServerMsgId_def)
  show ?thesis
  proof (cases "mg_migrated m")
    case None': None
    then have "isolatedInPart m" using ok None by (simp add: merged_ok_def isolatedInPart_def)
    with None None' excl part show ?thesis
      by (auto simp: merged_skippedBefore_def merged_skippedAfter_def merged_size_def
          merged_fullCount_def merged_Add_def adds_up_def slice_adds_up_def split: option.splits)
  next
    case (Some g)
    with None excl part mig show ?thesis
      by (auto simp: merged_skippedBefore_def merged_skippedAfter_def merged_size_def migratedSize_def
          merged_fullCount_def merged_Add_def adds_up_def slice_adds_up_def split: option.splits if_splits)
  qed
qed

theorem merged_adds_up_witness:
  "adds_up (merged_skippedBefore sample_merged) (merged_size sample_merged)
     (merged_skippedAfter sample_merged) (merged_fullCount sample_merged)"
  by (rule merged_adds_up)
    (simp_all add: merged_ok_def sample_merged_def merged_new_def merged_key_new_def slice_adds_up_def
      adds_up_def slice_size_def)

text \<open>
  \<open>CreateViewer\<close> accepts exactly the keys it is meant for, and what it emits for a key other than
  zero is a slice whose ids can be asked for, as long as the simple viewers give distinct ids and
  the two chats differ.
\<close>

theorem merged_viewer_ok:
  assumes "merged_CreateViewer key limitBefore limitAfter simple = Some m" "mk_universalId key \<noteq> 0"
    and "\<And>p k. distinct (is_ids (simple p k limitBefore limitAfter))"
    and "mk_peerId key \<noteq> mk_migratedPeerId key"
  shows "merged_ok m"
  using assms
  by (auto simp: merged_CreateViewer_def merged_new_def merged_ok_def Let_def split: if_splits)

theorem merged_viewer_ok_witness:
  "merged_ok (the (merged_CreateViewer (merged_key_new (PeerId 9) (PeerId 4) (-3) False) 1 1
     (\<lambda>_ k _ _. \<lparr>is_ids = [k], is_fullCount = None, is_skippedBefore = None, is_skippedAfter = None\<rparr>)))"
proof -
  let ?k = "merged_key_new (PeerId 9) (PeerId 4) (-3) False"
  let ?v = "\<lambda>_ k _ _. \<lparr>is_ids = [k :: MsgId], is_fullCount = None, is_skippedBefore = None, is_skippedAfter = None\<rparr>"
  have "merged_CreateViewer ?k 1 1 ?v = Some (the (merged_CreateViewer ?k 1 1 ?v))"
    by (simp add: merged_CreateViewer_def merged_key_new_def IsServerMsgId_def ServerMaxMsgId_def Let_def)
  then show ?thesis by (rule merged_viewer_ok) (simp_all add: merged_key_new_def)
qed

end
