(* ===== verification/SharedMedia.thy ===== *)
theory SharedMedia
  imports SparseIdsList
begin

text \<open>
  \<open>storage/storage_shared_media.cpp\<close>: one sparse list of message ids for every peer and every kind of
  media. An operation returns the new state and the events it fires, in order; \<open>None\<close> is a failed
  \<open>Expects\<close> (here or in a list). The \<open>std::array\<close> indexed by the kind is a function of the kind.
\<close>

datatype SharedMediaType =
    Photo | Video | PhotoVideo | MusicFile | File | VoiceFile | Link | ChatPhoto | RoundVoiceFile
  | GIF | RoundFile | Pinned | TypeCount

definition all_types :: "SharedMediaType list" where
  "all_types = [Photo, Video, PhotoVideo, MusicFile, File, VoiceFile, Link, ChatPhoto, RoundVoiceFile,
     GIF, RoundFile, Pinned]"

definition IsValidSharedMediaType :: "SharedMediaType \<Rightarrow> bool" where
  "IsValidSharedMediaType ty \<longleftrightarrow> ty \<noteq> TypeCount"

type_synonym types_mask = "SharedMediaType \<Rightarrow> bool"
type_synonym media_lists = "SharedMediaType \<Rightarrow> sparse_list"
type_synonym media_state = "PeerId \<rightharpoonup> media_lists"

datatype media_event =
    SliceUpdated PeerId SharedMediaType "MsgId slice_update"
  | OneRemoved PeerId types_mask MsgId
  | AllRemoved PeerId types_mask
  | BottomInvalidatedFor PeerId

definition enforceLists :: "PeerId \<Rightarrow> media_state \<Rightarrow> media_state" where
  "enforceLists peer st =
     (case st peer of Some _ \<Rightarrow> st | None \<Rightarrow> st(peer \<mapsto> (\<lambda>_. emptySparse)))"

text \<open>The loop over the kinds, with an operation of a list that fires an update.\<close>

fun for_types ::
    "(sparse_list \<Rightarrow> (sparse_list \<times> MsgId slice_update) option) \<Rightarrow> types_mask \<Rightarrow> PeerId
      \<Rightarrow> SharedMediaType list \<Rightarrow> media_lists \<Rightarrow> (media_lists \<times> media_event list) option" where
  "for_types operation types peer [] mls = Some (mls, [])"
| "for_types operation types peer (ty # rest) mls =
     (if types ty then
        (case operation (mls ty) of
           None \<Rightarrow> None
         | Some (l, update) \<Rightarrow>
           map_option (\<lambda>(mls', events). (mls', SliceUpdated peer ty update # events))
             (for_types operation types peer rest (mls(ty := l))))
      else for_types operation types peer rest mls)"

definition media_addNew ::
    "PeerId \<Rightarrow> types_mask \<Rightarrow> MsgId \<Rightarrow> media_state \<Rightarrow> (media_state \<times> media_event list) option" where
  "media_addNew peer types messageId st =
     (let st' = enforceLists peer st in
      map_option (\<lambda>(mls, events). (st'(peer \<mapsto> mls), events))
        (for_types (sparse_addNew messageId) types peer all_types (the (st' peer))))"

definition media_addExisting ::
    "PeerId \<Rightarrow> types_mask \<Rightarrow> MsgId \<Rightarrow> MsgId \<Rightarrow> MsgId \<Rightarrow> media_state
      \<Rightarrow> (media_state \<times> media_event list) option" where
  "media_addExisting peer types messageId f t st =
     (let st' = enforceLists peer st in
      map_option (\<lambda>(mls, events). (st'(peer \<mapsto> mls), events))
        (for_types (sparse_addExisting messageId f t) types peer all_types (the (st' peer))))"

definition media_addSlice ::
    "PeerId \<Rightarrow> SharedMediaType \<Rightarrow> MsgId list \<Rightarrow> MsgId \<Rightarrow> MsgId \<Rightarrow> int option \<Rightarrow> media_state
      \<Rightarrow> (media_state \<times> media_event list) option" where
  "media_addSlice peer ty messageIds f t cnt st =
     (if \<not> IsValidSharedMediaType ty then None
      else let st' = enforceLists peer st; mls = the (st' peer) in
        map_option (\<lambda>(l, update). (st'(peer \<mapsto> mls(ty := l)), [SliceUpdated peer ty update]))
          (sparse_addSlice messageIds f t cnt (mls ty)))"

definition media_removeOne ::
    "PeerId \<Rightarrow> types_mask \<Rightarrow> MsgId \<Rightarrow> media_state \<Rightarrow> media_state \<times> media_event list" where
  "media_removeOne peer types messageId st =
     (case st peer of
        None \<Rightarrow> (st, [])
      | Some mls \<Rightarrow>
        (st(peer \<mapsto> fold (\<lambda>ty ls. if types ty then ls(ty := sparse_removeOne messageId (ls ty)) else ls)
             all_types mls), [OneRemoved peer types messageId]))"

definition media_removeAll ::
    "PeerId \<Rightarrow> types_mask \<Rightarrow> media_state \<Rightarrow> media_state \<times> media_event list" where
  "media_removeAll peer types st =
     (case st peer of
        None \<Rightarrow> (st, [])
      | Some mls \<Rightarrow>
        (st(peer \<mapsto> fold (\<lambda>ty ls. if types ty then ls(ty := sparse_removeAll (ls ty)) else ls)
             all_types mls), [AllRemoved peer types]))"

definition media_invalidate :: "PeerId \<Rightarrow> media_state \<Rightarrow> media_state \<times> media_event list" where
  "media_invalidate peer st =
     (case st peer of
        None \<Rightarrow> (st, [])
      | Some mls \<Rightarrow>
        (st(peer \<mapsto> fold (\<lambda>ty ls. ls(ty := sparse_invalidateBottom (ls ty))) all_types mls),
         [BottomInvalidatedFor peer]))"

definition media_query ::
    "PeerId \<Rightarrow> SharedMediaType \<Rightarrow> MsgId \<Rightarrow> int \<Rightarrow> int \<Rightarrow> media_state \<Rightarrow> MsgId query_result list option" where
  "media_query peer ty messageId limitBefore limitAfter st =
     (if \<not> IsValidSharedMediaType ty then None
      else case st peer of
        Some mls \<Rightarrow> Some (sparse_query messageId limitBefore limitAfter (mls ty))
      | None \<Rightarrow> Some [])"

definition media_snapshot ::
    "PeerId \<Rightarrow> SharedMediaType \<Rightarrow> MsgId \<Rightarrow> int \<Rightarrow> int \<Rightarrow> media_state \<Rightarrow> MsgId query_result option" where
  "media_snapshot peer ty messageId limitBefore limitAfter st =
     (if \<not> IsValidSharedMediaType ty then None
      else case st peer of
        Some mls \<Rightarrow> Some (sparse_snapshot messageId limitBefore limitAfter (mls ty))
      | None \<Rightarrow> Some empty_result)"

definition media_empty :: "PeerId \<Rightarrow> SharedMediaType \<Rightarrow> media_state \<Rightarrow> bool option" where
  "media_empty peer ty st =
     (if \<not> IsValidSharedMediaType ty then None
      else case st peer of Some mls \<Rightarrow> Some (sparse_empty (mls ty)) | None \<Rightarrow> Some True)"

section \<open>What the loop does\<close>

lemma all_types_distinct: "distinct all_types"
  by (simp add: all_types_def)

lemma all_types_valid: "ty \<in> set all_types \<longleftrightarrow> IsValidSharedMediaType ty"
  by (cases ty) (simp_all add: all_types_def IsValidSharedMediaType_def)

lemma for_types_pointwise:
  assumes "distinct tys" "\<forall>ty \<in> set tys. types ty \<longrightarrow> operation (mls ty) = Some (new ty, upd ty)"
  shows "for_types operation types peer tys mls =
    Some (\<lambda>ty. if ty \<in> set tys \<and> types ty then new ty else mls ty,
          map (\<lambda>ty. SliceUpdated peer ty (upd ty)) (filter types tys))"
  using assms
proof (induction tys arbitrary: mls)
  case (Cons ty tys)
  show ?case
  proof (cases "types ty")
    case True
    have "\<forall>t \<in> set tys. types t \<longrightarrow> operation ((mls(ty := new ty)) t) = Some (new t, upd t)"
      using Cons.prems by auto
    then have ih: "for_types operation types peer tys (mls(ty := new ty)) =
        Some (\<lambda>t. if t \<in> set tys \<and> types t then new t else (mls(ty := new ty)) t,
          map (\<lambda>ty. SliceUpdated peer ty (upd ty)) (filter types tys))"
      using Cons.prems(1) by (intro Cons.IH) auto
    have fe: "(\<lambda>t. if t \<in> set tys \<and> types t then new t else (mls(ty := new ty)) t)
        = (\<lambda>t. if t \<in> set (ty # tys) \<and> types t then new t else mls t)"
      using True by (auto simp: fun_eq_iff)
    have "operation (mls ty) = Some (new ty, upd ty)" using Cons.prems(2) True by simp
    then show ?thesis
      using True unfolding for_types.simps(2) by (simp only: ih fe option.case prod.case if_True
          option.map filter.simps list.map)
  next
    case False
    with Cons show ?thesis by (auto simp: fun_eq_iff)
  qed
qed simp

lemma fold_types_pointwise:
  assumes "distinct tys"
  shows "fold (\<lambda>ty ls. if types ty then ls(ty := g (ls ty)) else ls) tys mls =
    (\<lambda>ty. if ty \<in> set tys \<and> types ty then g (mls ty) else mls ty)"
  using assms by (induction tys arbitrary: mls) (auto simp: fun_eq_iff)

section \<open>Agreement with the server\<close>

text \<open>\<open>T peer ty\<close> is what exists on the server; peers without lists know nothing.\<close>

definition media_sound :: "(PeerId \<Rightarrow> SharedMediaType \<Rightarrow> MsgId set) \<Rightarrow> media_state \<Rightarrow> bool" where
  "media_sound T st \<longleftrightarrow> (\<forall>peer ty. T peer ty \<subseteq> {0..ServerMaxMsgId})
     \<and> (\<forall>peer mls ty. st peer = Some mls \<longrightarrow> IsValidSharedMediaType ty \<longrightarrow>
          sparse_sound (T peer ty) (mls ty))"

lemma empty_sparse_sound: "T \<subseteq> {0..ServerMaxMsgId} \<Longrightarrow> sparse_sound T emptySparse"
  by (simp add: sparse_sound_def slices_sound_def emptySparse_def)

lemma enforce_sound:
  assumes "media_sound T st"
  shows "media_sound T (enforceLists peer st)"
    "\<exists>mls. enforceLists peer st peer = Some mls"
    "\<And>p. p \<noteq> peer \<Longrightarrow> enforceLists peer st p = st p"
  using assms empty_sparse_sound
  by (auto simp: enforceLists_def media_sound_def split: option.splits)

definition in_types :: "(MsgId set \<Rightarrow> MsgId set) \<Rightarrow> types_mask \<Rightarrow> PeerId
    \<Rightarrow> (PeerId \<Rightarrow> SharedMediaType \<Rightarrow> MsgId set) \<Rightarrow> PeerId \<Rightarrow> SharedMediaType \<Rightarrow> MsgId set" where
  "in_types change types peer T p ty = (if p = peer \<and> types ty then change (T p ty) else T p ty)"

text \<open>An operation of a list that is right for each kind in the mask is right for the whole store.\<close>

lemma for_types_sound:
  assumes sound: "media_sound T st"
    and op: "\<And>l ty. types ty \<Longrightarrow> IsValidSharedMediaType ty \<Longrightarrow> sparse_sound (T peer ty) l \<Longrightarrow>
      \<exists>l' u. operation l = Some (l', u) \<and> sparse_sound (change (T peer ty)) l'"
    and range: "\<And>ty. types ty \<Longrightarrow> change (T peer ty) \<subseteq> {0..ServerMaxMsgId}"
  defines "st1 \<equiv> enforceLists peer st"
  shows "\<exists>mls events. for_types operation types peer all_types (the (st1 peer)) = Some (mls, events)
    \<and> media_sound (in_types change types peer T) (st1(peer \<mapsto> mls))
    \<and> map (\<lambda>e. case e of SliceUpdated p ty u \<Rightarrow> (p, ty)) events
        = map (Pair peer) (filter types all_types)"
proof -
  obtain mls where mls: "st1 peer = Some mls"
    using enforce_sound(2) [OF sound, of peer] by (auto simp: st1_def)
  have snd1: "media_sound T st1" unfolding st1_def by (rule enforce_sound(1) [OF sound])
  have each: "sparse_sound (T peer ty) (mls ty)" if "IsValidSharedMediaType ty" for ty
    using snd1 mls that by (auto simp: media_sound_def)
  define out where "out ty = the (operation (mls ty))" for ty
  have out: "operation (mls ty) = Some (fst (out ty), snd (out ty))"
    "sparse_sound (change (T peer ty)) (fst (out ty))" if "types ty" "IsValidSharedMediaType ty" for ty
    using op [OF that each [OF that(2)]] by (auto simp: out_def)
  have res: "for_types operation types peer all_types mls =
    Some (\<lambda>ty. if ty \<in> set all_types \<and> types ty then fst (out ty) else mls ty,
          map (\<lambda>ty. SliceUpdated peer ty (snd (out ty))) (filter types all_types))"
    by (rule for_types_pointwise [OF all_types_distinct]) (use out(1) in \<open>auto simp: all_types_valid\<close>)
  have "media_sound (in_types change types peer T)
      (st1(peer \<mapsto> (\<lambda>ty. if ty \<in> set all_types \<and> types ty then fst (out ty) else mls ty)))"
    using snd1 each out(2) range
    by (auto simp: media_sound_def in_types_def all_types_valid)
  with res mls show ?thesis by (auto simp: comp_def)
qed

section \<open>Properties\<close>



text \<open>
  A page of one kind is taken by that list alone, and the store stays in agreement with the
  server; a page for the count marker of the kinds is refused.
\<close>

theorem media_addSlice_sound:
  assumes sound: "media_sound T st" and ty: "IsValidSharedMediaType ty"
    and page: "0 \<le> f" "f \<le> t" "t \<le> ServerMaxMsgId" "set ms = T peer ty \<inter> {f..t}"
      "cnt = None \<or> cnt = Some (int (card (T peer ty)))"
  shows "\<exists>st' u. media_addSlice peer ty ms f t cnt st = Some (st', [SliceUpdated peer ty u])
    \<and> media_sound T st' \<and> media_addSlice peer TypeCount ms f t cnt st = None"
proof -
  obtain mls where mls: "enforceLists peer st peer = Some mls"
    using enforce_sound(2) [OF sound] by blast
  note snd1 = enforce_sound(1) [OF sound, of peer]
  have "sparse_sound (T peer ty) (mls ty)" using snd1 mls ty by (auto simp: media_sound_def)
  from sparse_addSlice_sound [OF this page] obtain l' u where
    "sparse_addSlice ms f t cnt (mls ty) = Some (l', u)" "sparse_sound (T peer ty) l'" by blast
  with mls snd1 ty show ?thesis
    by (auto simp: media_addSlice_def Let_def media_sound_def IsValidSharedMediaType_def)
qed

theorem media_addSlice_sound_witness:
  "\<exists>st' u. media_addSlice (PeerId 5) Link [4] 0 9 (Some 1) Map.empty
      = Some (st', [SliceUpdated (PeerId 5) Link u])"
proof -
  have "media_sound (\<lambda>_ _. {4}) Map.empty" by (simp add: media_sound_def ServerMaxMsgId_def)
  from media_addSlice_sound [OF this, where ty = Link and f = 0 and t = 9 and ms = "[4]"
      and peer = "PeerId 5" and cnt = "Some 1"]
  show ?thesis by (auto simp: IsValidSharedMediaType_def ServerMaxMsgId_def)
qed

text \<open>
  Removals and invalidation keep the store in agreement with the server and fire one event when
  the peer is known, none and no change otherwise.
\<close>

theorem media_removals_sound:
  assumes sound: "media_sound T st" and m: "\<forall>ty. types ty \<longrightarrow> m \<in> T peer ty"
  shows "media_sound (in_types (\<lambda>S. S - {m}) types peer T) (fst (media_removeOne peer types m st))
    \<and> media_sound (in_types (\<lambda>_. {}) types peer T) (fst (media_removeAll peer types st))
    \<and> media_sound T (fst (media_invalidate peer st))
    \<and> (st peer = None \<longrightarrow> media_removeOne peer types m st = (st, [])
        \<and> media_removeAll peer types st = (st, []) \<and> media_invalidate peer st = (st, []))"
proof (cases "st peer")
  case None
  then show ?thesis
    using sound by (auto simp: media_removeOne_def media_removeAll_def media_invalidate_def media_sound_def
        in_types_def)
next
  case (Some mls)
  have each: "sparse_sound (T peer ty) (mls ty)" if "IsValidSharedMediaType ty" for ty
    using sound Some that by (auto simp: media_sound_def)
  note pw = fold_types_pointwise [OF all_types_distinct]
  have "media_sound (in_types (\<lambda>S. S - {m}) types peer T) (fst (media_removeOne peer types m st))"
    unfolding media_removeOne_def Some option.case fst_conv pw
    using sound each m sparse_removeOne_sound by (fastforce simp: media_sound_def in_types_def all_types_valid)
  moreover have "media_sound (in_types (\<lambda>_. {}) types peer T) (fst (media_removeAll peer types st))"
    unfolding media_removeAll_def Some option.case fst_conv pw
    using sound each sparse_removeAll_sound by (fastforce simp: media_sound_def in_types_def all_types_valid)
  moreover have "media_sound T (fst (media_invalidate peer st))"
    unfolding media_invalidate_def Some option.case fst_conv pw [where types = "\<lambda>_. True", simplified]
    using sound each sparse_invalidateBottom_sound by (fastforce simp: media_sound_def all_types_valid)
  ultimately show ?thesis using Some by simp
qed

theorem media_removals_sound_witness:
  "media_sound (in_types (\<lambda>S. S - {4}) (\<lambda>ty. ty = Link) (PeerId 5) (\<lambda>_ _. {4}))
     (fst (media_removeOne (PeerId 5) (\<lambda>ty. ty = Link) 4 [PeerId 5 \<mapsto> (\<lambda>_. emptySparse)]))"
proof -
  have "media_sound (\<lambda>_ _. {4}) [PeerId 5 \<mapsto> (\<lambda>_. emptySparse)]"
    by (auto simp: media_sound_def ServerMaxMsgId_def intro!: empty_sparse_sound)
  from media_removals_sound [OF this, of "\<lambda>ty. ty = Link" 4 "PeerId 5"] show ?thesis by simp
qed

end
