(* ===== verification/UserPhotos.thy ===== *)
theory UserPhotos
  imports SparseIds
begin

text \<open>
  \<open>storage/storage_user_photos.cpp\<close> and \<open>data/data_user_photos.cpp\<close>: the profile photos of users as
  they are loaded (the newest at the end), and the builder of the slice a viewer shows.
\<close>

section \<open>The list of one user\<close>

record photos_list =
  ph_count :: "int option"
  ph_ids :: "u64 list"

definition emptyPhotos :: photos_list where
  "emptyPhotos = \<lparr>ph_count = None, ph_ids = []\<rparr>"

text \<open>An update carries the ids and the count of the list.\<close>

definition photos_sendUpdate :: "photos_list \<Rightarrow> u64 list \<times> int option" where
  "photos_sendUpdate l = (ph_ids l, ph_count l)"

definition photos_addNew :: "u64 \<Rightarrow> photos_list \<Rightarrow> photos_list \<times> (u64 list \<times> int option) option" where
  "photos_addNew photoId l =
     (if photoId \<notin> set (ph_ids l) then
        let l' = \<lparr>ph_count = map_option (\<lambda>c. c + 1) (ph_count l), ph_ids = ph_ids l @ [photoId]\<rparr>
        in (l', Some (photos_sendUpdate l'))
      else (l, None))"

fun push_missing :: "u64 list \<Rightarrow> u64 list \<Rightarrow> u64 list" where
  "push_missing [] ids = ids"
| "push_missing (photoId # rest) ids =
     push_missing rest (if photoId \<in> set ids then ids else photoId # ids)"

definition photos_addSlice ::
    "u64 list \<Rightarrow> int \<Rightarrow> photos_list \<Rightarrow> photos_list \<times> (u64 list \<times> int option) option" where
  "photos_addSlice photoIds cnt l =
     (let ids = push_missing photoIds (ph_ids l);
          l' = \<lparr>ph_count = (if cnt mod 2 ^ 64 < int (length ids) \<or> photoIds = []
                   then Some (int (length ids)) else Some cnt),
                ph_ids = ids\<rparr>
      in (l', Some (photos_sendUpdate l')))"

definition photo_position :: "u64 \<Rightarrow> u64 list \<Rightarrow> nat" where
  "photo_position photoId ids = length (takeWhile (\<lambda>x. x \<noteq> photoId) ids)"

definition photos_removeOne :: "u64 \<Rightarrow> photos_list \<Rightarrow> photos_list \<times> (u64 list \<times> int option) option" where
  "photos_removeOne photoId l =
     (let position = photo_position photoId (ph_ids l);
          l' = (if position = length (ph_ids l) then l\<lparr>ph_count := None\<rparr>
                else \<lparr>ph_count = map_option (\<lambda>c. c - 1) (ph_count l),
                      ph_ids = erase_at position (ph_ids l)\<rparr>)
      in (l', Some (photos_sendUpdate l')))"

definition photos_removeAfter :: "u64 \<Rightarrow> photos_list \<Rightarrow> photos_list \<times> (u64 list \<times> int option) option" where
  "photos_removeAfter photoId l =
     (let position = photo_position photoId (ph_ids l);
          l' = (if position = length (ph_ids l) then \<lparr>ph_count = None, ph_ids = []\<rparr>
                else \<lparr>ph_count = map_option (\<lambda>c. c - (int (length (ph_ids l)) - int position)) (ph_count l),
                      ph_ids = erase_range position (length (ph_ids l)) (ph_ids l)\<rparr>)
      in (l', Some (photos_sendUpdate l')))"

record photos_result =
  pr_count :: "int option"
  pr_skippedBefore :: "int option"
  pr_skippedAfter :: int
  pr_photoIds :: "u64 list"

text \<open>
  \<open>query\<close>: the values it emits. The first of the two assignments to \<open>skippedBefore\<close>, from the count,
  is overwritten by the second.
\<close>

definition photos_query :: "u64 \<Rightarrow> int \<Rightarrow> int \<Rightarrow> photos_list \<Rightarrow> photos_result list" where
  "photos_query photoId limitBefore limitAfter l =
     (let position = photo_position photoId (ph_ids l) in
      if position \<noteq> length (ph_ids l) then
        let haveBefore = int position;
            haveEqualOrAfter = int (length (ph_ids l)) - int position;
            before = min haveBefore limitBefore;
            equalOrAfter = min haveEqualOrAfter (limitAfter + 1)
        in [\<lparr>pr_count = ph_count l, pr_skippedBefore = Some (haveBefore - before),
             pr_skippedAfter = haveEqualOrAfter - equalOrAfter,
             pr_photoIds = take (nat (before + equalOrAfter)) (drop (nat (haveBefore - before)) (ph_ids l))\<rparr>]
      else if ph_count l \<noteq> None then
        [\<lparr>pr_count = ph_count l, pr_skippedBefore = None, pr_skippedAfter = 0, pr_photoIds = []\<rparr>]
      else [])"

section \<open>The lists of all users\<close>

type_synonym photos_state = "u64 \<rightharpoonup> photos_list"
type_synonym photos_event = "u64 \<times> u64 list \<times> int option"

definition photos_enforceLists :: "u64 \<Rightarrow> photos_state \<Rightarrow> photos_state" where
  "photos_enforceLists user st =
     (case st user of Some _ \<Rightarrow> st | None \<Rightarrow> st(user \<mapsto> emptyPhotos))"

text \<open>An update of a list is fired again with the user.\<close>

definition with_user :: "u64 \<Rightarrow> (u64 list \<times> int option) option \<Rightarrow> photos_event list" where
  "with_user user update = (case update of Some (ids, cnt) \<Rightarrow> [(user, ids, cnt)] | None \<Rightarrow> [])"

definition userPhotos_addNew :: "u64 \<Rightarrow> u64 \<Rightarrow> photos_state \<Rightarrow> photos_state \<times> photos_event list" where
  "userPhotos_addNew user photoId st =
     (let st' = photos_enforceLists user st; (l, update) = photos_addNew photoId (the (st' user))
      in (st'(user \<mapsto> l), with_user user update))"

definition userPhotos_addSlice ::
    "u64 \<Rightarrow> u64 list \<Rightarrow> int \<Rightarrow> photos_state \<Rightarrow> photos_state \<times> photos_event list" where
  "userPhotos_addSlice user photoIds cnt st =
     (let st' = photos_enforceLists user st; (l, update) = photos_addSlice photoIds cnt (the (st' user))
      in (st'(user \<mapsto> l), with_user user update))"

definition userPhotos_removeOne :: "u64 \<Rightarrow> u64 \<Rightarrow> photos_state \<Rightarrow> photos_state \<times> photos_event list" where
  "userPhotos_removeOne user photoId st =
     (case st user of
        Some l \<Rightarrow> let (l', update) = photos_removeOne photoId l in (st(user \<mapsto> l'), with_user user update)
      | None \<Rightarrow> (st, []))"

definition userPhotos_removeAfter :: "u64 \<Rightarrow> u64 \<Rightarrow> photos_state \<Rightarrow> photos_state \<times> photos_event list" where
  "userPhotos_removeAfter user photoId st =
     (case st user of
        Some l \<Rightarrow> let (l', update) = photos_removeAfter photoId l in (st(user \<mapsto> l'), with_user user update)
      | None \<Rightarrow> (st, []))"

definition userPhotos_query :: "u64 \<Rightarrow> u64 \<Rightarrow> int \<Rightarrow> int \<Rightarrow> photos_state \<Rightarrow> photos_result list" where
  "userPhotos_query user photoId limitBefore limitAfter st =
     (case st user of Some l \<Rightarrow> photos_query photoId limitBefore limitAfter l | None \<Rightarrow> [])"

section \<open>The builder\<close>

record photos_builder =
  pb_userId :: u64
  pb_photoId :: u64
  pb_ids :: "u64 list"
  pb_fullCount :: "int option"
  pb_skippedBefore :: "int option"
  pb_skippedAfter :: int
  pb_limitBefore :: int
  pb_limitAfter :: int
  pb_requests :: "u64 list"

definition pbuilder_new :: "u64 \<Rightarrow> u64 \<Rightarrow> int \<Rightarrow> int \<Rightarrow> photos_builder" where
  "pbuilder_new user photoId limitBefore limitAfter =
     \<lparr>pb_userId = user, pb_photoId = photoId, pb_ids = [], pb_fullCount = None, pb_skippedBefore = None,
      pb_skippedAfter = 0, pb_limitBefore = limitBefore, pb_limitAfter = limitAfter, pb_requests = []\<rparr>"

definition pbuilder_sliceToLimits :: "photos_builder \<Rightarrow> photos_builder" where
  "pbuilder_sliceToLimits b =
     (let aroundIt = photo_position (pb_photoId b) (pb_ids b);
          removeFromBegin = int aroundIt - pb_limitBefore b;
          removeFromEnd = int (length (pb_ids b)) - int aroundIt - pb_limitAfter b - 1;
          b1 = (if removeFromEnd > 0
            then b\<lparr>pb_ids := erase_range (length (pb_ids b) - nat removeFromEnd) (length (pb_ids b)) (pb_ids b),
                   pb_skippedAfter := pb_skippedAfter b + removeFromEnd\<rparr>
            else b)
      in if removeFromBegin > 0
         then b1\<lparr>pb_ids := erase_range 0 (nat removeFromBegin) (pb_ids b1),
                 pb_skippedBefore := map_option (\<lambda>n. n + removeFromBegin) (pb_skippedBefore b1)\<rparr>
         else if removeFromBegin < 0 \<and> maybe_more (pb_skippedBefore b1)
         then b1\<lparr>pb_requests := pb_requests b1 @ [if pb_ids b1 = [] then 0 else hd (pb_ids b1)]\<rparr>
         else b1)"

definition pbuilder_mergeSliceData ::
    "int option \<Rightarrow> u64 list \<Rightarrow> int option \<Rightarrow> int \<Rightarrow> photos_builder \<Rightarrow> photos_builder" where
  "pbuilder_mergeSliceData cnt photoIds skippedBefore skippedAfter b =
     pbuilder_sliceToLimits
       (if photoIds = [] then
          (if pb_fullCount b \<noteq> cnt then
             (case cnt of
                Some c \<Rightarrow> if size_ge (length (pb_ids b)) c
                  then b\<lparr>pb_fullCount := Some (int (length (pb_ids b))), pb_skippedBefore := Some 0,
                         pb_skippedAfter := 0\<rparr>
                  else b\<lparr>pb_fullCount := cnt\<rparr>
              | None \<Rightarrow> b\<lparr>pb_fullCount := None\<rparr>)
           else b)
        else
          (let b1 = (if cnt \<noteq> None then b\<lparr>pb_fullCount := cnt\<rparr> else b)
                 \<lparr>pb_skippedAfter := skippedAfter, pb_ids := photoIds\<rparr>
           in case pb_fullCount b1 of
                Some c \<Rightarrow> b1\<lparr>pb_skippedBefore := Some (c - skippedAfter - int (length photoIds))\<rparr>
              | None \<Rightarrow> b1))"

definition pbuilder_applyResult :: "photos_result \<Rightarrow> photos_builder \<Rightarrow> photos_builder \<times> bool" where
  "pbuilder_applyResult update b =
     (pbuilder_mergeSliceData (pr_count update) (pr_photoIds update) (pr_skippedBefore update)
        (pr_skippedAfter update) b, True)"

definition pbuilder_applyUpdate :: "photos_event \<Rightarrow> photos_builder \<Rightarrow> photos_builder \<times> bool" where
  "pbuilder_applyUpdate update b =
     (case update of (user, photoIds, cnt) \<Rightarrow>
        if user \<noteq> pb_userId b then (b, False)
        else (pbuilder_mergeSliceData cnt photoIds
                (map_option (\<lambda>c. c + - int (length photoIds)) cnt) 0 b, True))"

definition pbuilder_snapshot :: "photos_builder \<Rightarrow> u64 ids_slice" where
  "pbuilder_snapshot b =
     \<lparr>is_ids = pb_ids b, is_fullCount = pb_fullCount b, is_skippedBefore = pb_skippedBefore b,
      is_skippedAfter = Some (pb_skippedAfter b)\<rparr>"

definition photos_slice_distance ::
    "u64 \<Rightarrow> u64 \<times> u64 \<Rightarrow> u64 \<times> u64 \<Rightarrow> u64 ids_slice \<Rightarrow> int option" where
  "photos_slice_distance user a b s =
     (if fst a \<noteq> user \<or> fst b \<noteq> user then None
      else case slice_indexOf (snd a) s of
        Some i \<Rightarrow> (case slice_indexOf (snd b) s of Some j \<Rightarrow> Some (j - i) | None \<Rightarrow> None)
      | None \<Rightarrow> None)"

section \<open>Properties\<close>

text \<open>No photo twice, and a known count covers at least the loaded ones.\<close>

definition photos_ok :: "photos_list \<Rightarrow> bool" where
  "photos_ok l \<longleftrightarrow> distinct (ph_ids l) \<and> (\<forall>c. ph_count l = Some c \<longrightarrow> int (length (ph_ids l)) \<le> c)"

lemma push_missing_distinct: "distinct ids \<Longrightarrow> distinct (push_missing new ids)"
  by (induction new arbitrary: ids) auto

lemma push_missing_set: "set (push_missing new ids) = set new \<union> set ids"
  by (induction new arbitrary: ids) auto

lemma photo_position_le: "photo_position p ids \<le> length ids"
  by (simp add: photo_position_def length_takeWhile_le)

lemma takeWhile_first: "p \<notin> set as \<Longrightarrow> takeWhile (\<lambda>x. x \<noteq> p) (as @ p # bs) = as"
  by (subst takeWhile_append2) auto

lemma photo_position_found: "photo_position p ids \<noteq> length ids \<longleftrightarrow> p \<in> set ids"
proof (cases "p \<in> set ids")
  case True
  then obtain as bs where "ids = as @ p # bs" "p \<notin> set as" using split_list_first by metis
  with True show ?thesis by (simp add: photo_position_def takeWhile_first)
next
  case False
  then have "takeWhile (\<lambda>x. x \<noteq> p) ids = ids" by (auto simp: takeWhile_eq_all_conv)
  then show ?thesis using False by (simp only: photo_position_def simp_thms)
qed

lemma photo_split:
  assumes "p \<in> set ids" "distinct ids"
  obtains as bs where "ids = as @ p # bs" "photo_position p ids = length as" "p \<notin> set as" "p \<notin> set bs"
proof -
  obtain as bs where s: "ids = as @ p # bs" "p \<notin> set as" using split_list_first [OF assms(1)] by blast
  have "takeWhile (\<lambda>x. x \<noteq> p) ids = as" unfolding s(1) by (rule takeWhile_first [OF s(2)])
  with s assms(2) that show thesis by (auto simp: photo_position_def)
qed

text \<open>
  C25. Every operation on the photos of a user keeps them distinct and the count at least as large as
  what is loaded, and changes the loaded set as it should: \<open>addNew\<close> and \<open>addSlice\<close> add, \<open>removeOne\<close>
  removes one, \<open>removeAfter\<close> keeps what comes before.
\<close>

theorem photos_operations_ok:
  assumes ok: "photos_ok l" and cnt: "0 \<le> cnt" "cnt < 2 ^ 64"
  shows "photos_ok (fst (photos_addNew p l)) \<and> set (ph_ids (fst (photos_addNew p l))) = insert p (set (ph_ids l))
    \<and> photos_ok (fst (photos_addSlice ps cnt l))
      \<and> set (ph_ids (fst (photos_addSlice ps cnt l))) = set ps \<union> set (ph_ids l)
    \<and> photos_ok (fst (photos_removeOne p l)) \<and> set (ph_ids (fst (photos_removeOne p l))) = set (ph_ids l) - {p}
    \<and> photos_ok (fst (photos_removeAfter p l))
      \<and> (p \<in> set (ph_ids l) \<longrightarrow> ph_ids (fst (photos_removeAfter p l)) = takeWhile (\<lambda>x. x \<noteq> p) (ph_ids l))"
proof -
  have d: "distinct (ph_ids l)" using ok by (simp add: photos_ok_def)
  have addNew: "photos_ok (fst (photos_addNew p l)) \<and>
    set (ph_ids (fst (photos_addNew p l))) = insert p (set (ph_ids l))"
    using ok by (auto simp: photos_addNew_def photos_ok_def Let_def)
  have addSlice: "photos_ok (fst (photos_addSlice ps cnt l))"
    "set (ph_ids (fst (photos_addSlice ps cnt l))) = set ps \<union> set (ph_ids l)"
    using cnt push_missing_distinct [OF d, of ps] push_missing_set [of ps "ph_ids l"]
    by (auto simp: photos_addSlice_def photos_ok_def Let_def)
  show ?thesis
  proof (cases "p \<in> set (ph_ids l)")
    case True
    obtain as bs where s: "ph_ids l = as @ p # bs" "photo_position p (ph_ids l) = length as"
      "p \<notin> set as" "p \<notin> set bs" by (rule photo_split [OF True d])
    have pos: "photo_position p (as @ p # bs) = length as" using s(1,2) by simp
    have tw: "takeWhile (\<lambda>x. x \<noteq> p) (as @ p # bs) = as" by (rule takeWhile_first [OF s(3)])
    have "photos_ok (fst (photos_removeOne p l)) \<and> set (ph_ids (fst (photos_removeOne p l))) = set (ph_ids l) - {p}"
      using ok s(3,4) d by (auto simp: photos_removeOne_def photos_ok_def Let_def s(1) pos erase_at_def erase_range_def)
    moreover have "photos_ok (fst (photos_removeAfter p l)) \<and> ph_ids (fst (photos_removeAfter p l)) = as"
      using ok d by (auto simp: photos_removeAfter_def photos_ok_def Let_def s(1) pos erase_range_def)
    ultimately show ?thesis using addNew addSlice tw s(1) by simp
  next
    case False
    then have "photo_position p (ph_ids l) = length (ph_ids l)" using photo_position_found by blast
    with False addNew addSlice ok show ?thesis
      by (auto simp: photos_removeOne_def photos_removeAfter_def photos_ok_def Let_def)
  qed
qed

theorem photos_operations_ok_witness:
  "ph_ids (fst (photos_removeAfter 5 \<lparr>ph_count = Some 9, ph_ids = [3, 4, 5, 6]\<rparr>)) = [3, 4]"
proof -
  have "photos_ok \<lparr>ph_count = Some 9, ph_ids = [3, 4, 5, 6]\<rparr>" by (simp add: photos_ok_def)
  from photos_operations_ok [OF this, of 9 5 "[]"] show ?thesis by simp
qed

text \<open>
  A query around a loaded photo returns a window of the loaded ones with the photo in it, with
  exactly \<open>skippedBefore\<close> loaded photos before it and \<open>skippedAfter\<close> after it.
\<close>

theorem photos_query_window:
  assumes ok: "photos_ok l" and p: "p \<in> set (ph_ids l)" and lim: "0 \<le> limitBefore" "0 \<le> limitAfter"
  shows "\<exists>r pre post. photos_query p limitBefore limitAfter l = [r] \<and> p \<in> set (pr_photoIds r)
    \<and> ph_ids l = pre @ pr_photoIds r @ post \<and> pr_skippedBefore r = Some (int (length pre))
    \<and> pr_skippedAfter r = int (length post)
    \<and> int (length (pr_photoIds r)) \<le> limitBefore + limitAfter + 1"
proof -
  obtain as bs where s: "ph_ids l = as @ p # bs" "photo_position p (ph_ids l) = length as"
    "p \<notin> set as" "p \<notin> set bs"
    using photo_split [OF p] ok by (auto simp: photos_ok_def)
  define b e where "b = min (int (length as)) limitBefore"
    and "e = min (int (length bs) + 1) (limitAfter + 1)"
  define i n where "i = nat (int (length as) - b)" and "n = nat (b + e)"
  have be: "0 \<le> b" "b \<le> int (length as)" "1 \<le> e" "e \<le> int (length bs) + 1" "b \<le> limitBefore" "e \<le> limitAfter + 1"
    using lim by (auto simp: b_def e_def)
  let ?ids = "as @ p # bs"
  have r: "photos_query p limitBefore limitAfter l = [\<lparr>pr_count = ph_count l,
      pr_skippedBefore = Some (int (length as) - b), pr_skippedAfter = int (length bs) + 1 - e,
      pr_photoIds = take n (drop i ?ids)\<rparr>]"
    using s by (simp add: photos_query_def Let_def b_def e_def i_def n_def algebra_simps)
  have split: "?ids = take i ?ids @ take n (drop i ?ids) @ drop n (drop i ?ids)"
    by (metis append_take_drop_id)
  have "i \<le> length as" "length as < i + n" using be by (auto simp: i_def n_def)
  then have "take n (drop i ?ids) = drop i as @ p # take (n - (length as - i) - 1) bs"
    by (cases "n - (length as - i)") auto
  then have "p \<in> set (take n (drop i ?ids))" by simp
  then show ?thesis
    using split be s(1)
    by (intro exI [of _ "hd (photos_query p limitBefore limitAfter l)"] exI [of _ "take i ?ids"]
        exI [of _ "drop n (drop i ?ids)"]) (auto simp: r i_def n_def)
qed

theorem photos_query_window_witness:
  "\<exists>r pre post. photos_query 4 1 0 \<lparr>ph_count = Some 9, ph_ids = [2, 3, 4, 5]\<rparr> = [r]
    \<and> [2, 3, 4, 5] = pre @ pr_photoIds r @ post \<and> pr_skippedBefore r = Some (int (length pre))"
proof -
  have "photos_ok \<lparr>ph_count = Some 9, ph_ids = [2, 3, 4, 5]\<rparr>" by (simp add: photos_ok_def)
  from photos_query_window [OF this, of 4 1 0] show ?thesis by fastforce
qed

text \<open>
  When more photos exist than are loaded, a query around the first loaded one says that none are
  skipped before it: the number computed from the count is overwritten.
\<close>

theorem photos_query_undercounts:
  "map pr_skippedBefore (photos_query 4 1 0 \<lparr>ph_count = Some 9, ph_ids = [4, 5]\<rparr>) = [Some 0]"
  by code_simp

text \<open>
  Once photos are merged into a builder that knows the full count, skipped before, shown and
  skipped after add up to it, also after cutting to the limits.
\<close>

theorem pbuilder_adds_up:
  fixes sb :: "int option" and sa :: int
  assumes "ps \<noteq> []" "pb_fullCount b = Some c \<and> cnt = None \<or> cnt = Some c"
    "0 \<le> pb_limitBefore b" "0 \<le> pb_limitAfter b"
  defines "b' \<equiv> pbuilder_mergeSliceData cnt ps sb sa b"
  shows "pb_fullCount b' = Some c \<and>
    (\<exists>s. pb_skippedBefore b' = Some s \<and> s + int (length (pb_ids b')) + pb_skippedAfter b' = c)"
proof -
  have slice: "pb_fullCount (pbuilder_sliceToLimits x) = Some c \<and>
      (\<exists>s. pb_skippedBefore (pbuilder_sliceToLimits x) = Some s
        \<and> s + int (length (pb_ids (pbuilder_sliceToLimits x))) + pb_skippedAfter (pbuilder_sliceToLimits x) = c)"
    if "pb_fullCount x = Some c" "pb_skippedBefore x = Some s"
      "s + int (length (pb_ids x)) + pb_skippedAfter x = c" "0 \<le> pb_limitBefore x" "0 \<le> pb_limitAfter x"
    for x s
    using that photo_position_le [of "pb_photoId x" "pb_ids x"]
    by (auto simp: pbuilder_sliceToLimits_def Let_def erase_range_def maybe_more_def min_def)
  define x where "x = (if cnt \<noteq> None then b\<lparr>pb_fullCount := cnt\<rparr> else b)\<lparr>pb_skippedAfter := sa, pb_ids := ps\<rparr>"
  have x: "pb_fullCount x = Some c" "pb_skippedAfter x = sa" "pb_ids x = ps"
    "0 \<le> pb_limitBefore x" "0 \<le> pb_limitAfter x"
    using assms(2-4) by (auto simp: x_def)
  have "b' = pbuilder_sliceToLimits (x\<lparr>pb_skippedBefore := Some (c - sa - int (length ps))\<rparr>)"
    unfolding b'_def pbuilder_mergeSliceData_def Let_def x_def [symmetric] using assms(1) x(1) by simp
  with slice [of "x\<lparr>pb_skippedBefore := Some (c - sa - int (length ps))\<rparr>"] x show ?thesis by simp
qed

theorem pbuilder_adds_up_witness:
  "\<exists>s. pb_skippedBefore (pbuilder_mergeSliceData (Some 9) [4, 5, 6] None 0 (pbuilder_new 1 5 0 0)) = Some s
    \<and> s + int (length (pb_ids (pbuilder_mergeSliceData (Some 9) [4, 5, 6] None 0 (pbuilder_new 1 5 0 0))))
      + pb_skippedAfter (pbuilder_mergeSliceData (Some 9) [4, 5, 6] None 0 (pbuilder_new 1 5 0 0)) = 9"
  using pbuilder_adds_up [of "[4, 5, 6]" "pbuilder_new 1 5 0 0" 9 "Some 9" None 0]
  by (simp add: pbuilder_new_def)

end
