(* ===== verification/ReceivedIds.thy ===== *)
theory ReceivedIds
  imports FlatMap
begin

text \<open>
  \<open>mtproto/details/mtproto_received_ids_manager.cpp\<close>: the ids of the messages received lately in an
  MTProto session, with whether they need an acknowledgement. It is what refuses a message that is
  delivered twice.
\<close>

definition kIdsBufferSize :: nat where "kIdsBufferSize = 400"

datatype ack_state = NotFound | NeedsAck | NoAckNeeded

datatype register_result = Success | Duplicate | TooOld

type_synonym received_ids = "(u64 \<times> bool) list"

definition received_min :: "received_ids \<Rightarrow> u64" where
  "received_min m = (if m = [] then 0 else fst (hd m))"

definition received_max :: "received_ids \<Rightarrow> u64" where
  "received_max m = (if m = [] then 0 else fst (last m))"

definition registerMsgId :: "u64 \<Rightarrow> bool \<Rightarrow> received_ids \<Rightarrow> received_ids \<times> register_result" where
  "registerMsgId msgId needAck m =
     (if flat_map_find (<) msgId m \<noteq> length m then (m, Duplicate)
      else if length m < kIdsBufferSize \<or> msgId > received_min m
      then (fst (flat_map_emplace (<) msgId needAck m), Success)
      else (m, TooOld))"

definition received_lookup :: "u64 \<Rightarrow> received_ids \<Rightarrow> ack_state" where
  "received_lookup msgId m =
     (let i = flat_map_find (<) msgId m in
      if i = length m then NotFound else if snd (m ! i) then NeedsAck else NoAckNeeded)"

text \<open>The loop of \<open>shrink\<close>: \<open>size\<close> is compared before it is decremented.\<close>

fun shrink_loop :: "nat \<Rightarrow> received_ids \<Rightarrow> received_ids" where
  "shrink_loop sz m =
     (if sz > kIdsBufferSize then shrink_loop (sz - 1) (erase_at 0 m) else m)"

declare shrink_loop.simps [simp del]

definition received_shrink :: "received_ids \<Rightarrow> received_ids" where
  "received_shrink m = shrink_loop (length m) m"

definition received_clear :: "received_ids \<Rightarrow> received_ids" where
  "received_clear m = []"

section \<open>Laws\<close>

lemma find_present:
  assumes "key_sorted (<) (m :: ('k::linorder \<times> 'v) list)"
  shows "flat_map_find (<) k m \<noteq> length m \<longleftrightarrow> k \<in> fst ` set m"
  using less_total.find_get [OF assms, of k]
  by (cases "flat_map_find (<) k m = length m")
    (auto simp: flat_map_get_def Let_def map_of_eq_None_iff dom_map_of_conv_image_fst [symmetric]
      dest: sym)

lemma shrink_drop: "shrink_loop (length m) m = drop (length m - kIdsBufferSize) m"
proof (induction m)
  case Nil
  show ?case by (subst shrink_loop.simps) simp
next
  case (Cons a m)
  show ?case
  proof (cases "length (a # m) > kIdsBufferSize")
    case True
    then have "length (a # m) - kIdsBufferSize = Suc (length m - kIdsBufferSize)" by simp
    with True Cons show ?thesis
      by (subst shrink_loop.simps) (simp add: erase_at_def erase_range_def)
  qed (subst shrink_loop.simps, simp)
qed

lemma emplace_keys:
  assumes "key_sorted (<) (m :: ('k::linorder \<times> 'v) list)"
  shows "fst ` set (fst (flat_map_emplace (<) k v m)) = insert k (fst ` set m)"
proof -
  have "dom (map_of (fst (flat_map_emplace (<) k v m))) = insert k (dom (map_of m))"
    using less_total.insert_lookup [OF assms, of k v] by (auto simp: flat_map_emplace_def)
  then show ?thesis by (simp add: dom_map_of_conv_image_fst)
qed

lemma min_least: "key_sorted (<) m \<Longrightarrow> x \<in> fst ` set m \<Longrightarrow> received_min m \<le> x"
  by (cases m) (auto simp: received_min_def)

section \<open>No message twice\<close>

text \<open>
  A session together with the set of ids it has accepted since it was last cleared; messages arrive
  in any order and the buffer is shrunk at any time.
\<close>

inductive received_reach :: "u64 set \<Rightarrow> received_ids \<Rightarrow> bool" where
  cleared: "received_reach {} (received_clear m)"
| accepted: "received_reach H m \<Longrightarrow> registerMsgId msgId needAck m = (m', Success) \<Longrightarrow>
    received_reach (insert msgId H) m'"
| refused: "received_reach H m \<Longrightarrow> registerMsgId msgId needAck m = (m', r) \<Longrightarrow> r \<noteq> Success \<Longrightarrow>
    received_reach H m'"
| shrunk: "received_reach H m \<Longrightarrow> received_reach H (received_shrink m)"

definition remembers :: "u64 set \<Rightarrow> received_ids \<Rightarrow> bool" where
  "remembers H m \<longleftrightarrow> key_sorted (<) m
     \<and> (\<forall>x \<in> H. x \<in> fst ` set m \<or> kIdsBufferSize \<le> length m \<and> x < received_min m)"

lemma register_remembers:
  assumes "remembers H m" "registerMsgId msgId needAck m = (m', Success)"
  shows "remembers (insert msgId H) m'"
proof -
  have srt: "key_sorted (<) m" using assms(1) by (simp add: remembers_def)
  have m': "m' = fst (flat_map_emplace (<) msgId needAck m)"
    and acc: "length m < kIdsBufferSize \<or> msgId > received_min m"
    using assms(2) by (auto simp: registerMsgId_def split: if_splits)
  have srt': "key_sorted (<) m'" unfolding m' by (rule less_map.invar_emplace [OF srt])
  have keys: "fst ` set m' = insert msgId (fst ` set m)" unfolding m' by (rule emplace_keys [OF srt])
  have len: "length m \<le> length m'"
    by (cases rule: less_total.insert_cases [OF srt, of msgId needAck])
      (auto simp: m' flat_map_emplace_def)
  have "x \<in> fst ` set m' \<or> kIdsBufferSize \<le> length m' \<and> x < received_min m'" if x: "x \<in> H" for x
  proof (cases "x \<in> fst ` set m")
    case False
    then have old: "kIdsBufferSize \<le> length m" "x < received_min m"
      using assms(1) x by (auto simp: remembers_def)
    then have "m \<noteq> []" by (auto simp: kIdsBufferSize_def)
    have "y > x" if "y \<in> fst ` set m'" for y
      using that keys old acc min_least [OF srt, of y] by (auto intro: less_le_trans less_trans)
    moreover have "received_min m' \<in> fst ` set m'"
      using keys by (cases m') (auto simp: received_min_def)
    ultimately show ?thesis using old len by auto
  qed (simp add: keys)
  then show ?thesis using srt' keys by (auto simp: remembers_def)
qed

lemma shrink_remembers:
  assumes "remembers H m"
  shows "remembers H (received_shrink m)"
proof -
  let ?k = "length m - kIdsBufferSize"
  have srt: "key_sorted (<) m" using assms by (simp add: remembers_def)
  have eq: "received_shrink m = drop ?k m" unfolding received_shrink_def by (rule shrink_drop)
  have split: "m = take ?k m @ drop ?k m" by simp
  have ord: "\<forall>a \<in> set (take ?k m). \<forall>b \<in> set (drop ?k m). fst a < fst b"
  proof -
    have "key_sorted (<) (take ?k m @ drop ?k m)" using srt by simp
    then show ?thesis unfolding sorted_wrt_append by blast
  qed
  show ?thesis
  proof (cases "?k = 0")
    case False
    then have len: "length (drop ?k m) = kIdsBufferSize" by simp
    then have ne: "drop ?k m \<noteq> []" by (auto simp: kIdsBufferSize_def)
    have "x < received_min (drop ?k m)" if "x \<in> fst ` set m" "x \<notin> fst ` set (drop ?k m)" for x
    proof -
      have "x \<in> fst ` set (take ?k m)" using that split by (metis UnE image_Un set_append)
      then show ?thesis using ord ne hd_in_set [OF ne] by (auto simp: received_min_def)
    qed
    moreover have "x < received_min (drop ?k m)" if "x < received_min m" for x
    proof -
      have "received_min (drop ?k m) \<in> fst ` set m"
        using ne hd_in_set [OF ne] in_set_dropD by (fastforce simp: received_min_def)
      from min_least [OF srt this] that show ?thesis by (rule less_le_trans [rotated])
    qed
    ultimately have "\<forall>x \<in> H. x \<in> fst ` set (drop ?k m) \<or> x < received_min (drop ?k m)"
      using assms unfolding remembers_def by blast
    then show ?thesis using len srt unfolding remembers_def eq by (simp add: sorted_wrt_drop)
  qed (use assms eq in simp)
qed

lemma reach_remembers: "received_reach H m \<Longrightarrow> remembers H m"
proof (induction rule: received_reach.induct)
  case (refused H m msgId needAck m' r)
  then have "m' = m" by (auto simp: registerMsgId_def split: if_splits)
  with refused show ?case by simp
qed (auto simp: register_remembers shrink_remembers, simp add: remembers_def received_clear_def)

section \<open>Properties\<close>

text \<open>
  C12. Between two clears no message id is ever accepted twice, however messages are ordered and
  whenever the buffer is shrunk to its last 400 ids: an id that was forgotten is too old.
\<close>

theorem received_no_replay:
  assumes "received_reach H m" "msgId \<in> H"
  shows "snd (registerMsgId msgId needAck m) \<noteq> Success \<and> fst (registerMsgId msgId needAck m) = m"
proof -
  have rem: "remembers H m" by (rule reach_remembers [OF assms(1)])
  then have srt: "key_sorted (<) m" by (simp add: remembers_def)
  have "msgId \<in> fst ` set m \<or> kIdsBufferSize \<le> length m \<and> msgId < received_min m"
    using rem assms(2) by (auto simp: remembers_def)
  then show ?thesis
    using find_present [OF srt, of msgId] by (auto simp: registerMsgId_def)
qed

theorem received_no_replay_witness:
  "snd (registerMsgId 7 True (fst (registerMsgId 7 False []))) \<noteq> Success"
proof -
  have "registerMsgId 7 False (received_clear []) = (fst (registerMsgId 7 False []), Success)"
    by code_simp
  from received_reach.accepted [OF received_reach.cleared this]
  have "received_reach {7} (fst (registerMsgId 7 False []))" .
  from received_no_replay [OF this, of 7 True] show ?thesis by simp
qed

text \<open>
  A fresh id is accepted exactly when the buffer has room or the id is newer than the oldest one
  kept; then a lookup finds it with its acknowledgement flag and every other id as before.
\<close>

theorem received_register_lookup:
  assumes srt: "key_sorted (<) m" and new: "msgId \<notin> fst ` set m"
  shows "(snd (registerMsgId msgId needAck m) = Success \<longleftrightarrow>
      length m < 400 \<or> received_min m < msgId)
    \<and> (snd (registerMsgId msgId needAck m) = Success \<longrightarrow>
        received_lookup msgId (fst (registerMsgId msgId needAck m)) = (if needAck then NeedsAck else NoAckNeeded)
        \<and> (\<forall>x. x \<noteq> msgId \<longrightarrow> received_lookup x (fst (registerMsgId msgId needAck m)) = received_lookup x m))"
proof -
  have look: "received_lookup x k = (case flat_map_get (<) x k of None \<Rightarrow> NotFound
      | Some a \<Rightarrow> if a then NeedsAck else NoAckNeeded)" for x k
    by (simp add: received_lookup_def flat_map_get_def Let_def)
  have fresh: "flat_map_get (<) msgId m = None"
    using new by (simp add: less_total.find_get [OF srt] map_of_eq_None_iff)
  have "flat_map_find (<) msgId m = length m" using find_present [OF srt, of msgId] new by auto
  then have reg: "registerMsgId msgId needAck m =
      (if length m < 400 \<or> received_min m < msgId
       then (fst (flat_map_emplace (<) msgId needAck m), Success) else (m, TooOld))"
    by (simp add: registerMsgId_def kIdsBufferSize_def)
  have "(\<lambda>k. flat_map_get (<) k (fst (flat_map_emplace (<) msgId needAck m)))
      = (\<lambda>k. flat_map_get (<) k m)(msgId \<mapsto> needAck)"
    using less_map.lookup_emplace [OF srt, of msgId needAck] fresh by simp
  then have upd: "flat_map_get (<) k (fst (flat_map_emplace (<) msgId needAck m))
      = (if k = msgId then Some needAck else flat_map_get (<) k m)" for k
    by (auto simp: fun_eq_iff split: if_splits)
  show ?thesis
  proof (cases "length m < 400 \<or> received_min m < msgId")
    case True
    then have eq: "registerMsgId msgId needAck m = (fst (flat_map_emplace (<) msgId needAck m), Success)"
      using reg by simp
    show ?thesis unfolding eq fst_conv snd_conv look upd using True by (simp split del: if_split)
  next
    case False
    then show ?thesis using reg by simp
  qed
qed

theorem received_register_lookup_witness:
  "received_lookup 5 (fst (registerMsgId 5 True [(3, False)])) = NeedsAck"
  using received_register_lookup [of "[(3, False)]" 5 True] by simp

end
