(* ===== verification/PtsWaiter.thy ===== *)
theory PtsWaiter
  imports FlatMap
begin

text \<open>
  \<open>data/data_pts_waiter.cpp\<close>: the order in which updates of a channel (or of the common sequence) are
  applied. Updates carry \<open>pts\<close>, the value of a server counter after them, and how much they add to
  it; an update that comes too early is kept until the gap is filled. The types of updates are
  parameters, with their default values \<open>du\<close> and \<open>ds\<close> where the code may default-construct one. What
  the owner (\<open>Api::Updates\<close>) is asked to do is the list of events of an operation. The counters are
  \<^typ>\<open>int\<close>: overflow of the \<open>int32\<close> counters is undefined in the source.
\<close>

datatype PtsSkippedQueue = SkippedUpdate | SkippedUpdates

datatype ('c, 'u, 's) pts_event =
    StartTimer 'c int
  | ApplyUpdate 'u
  | ApplyUpdates 's

record ('u, 's) pts_waiter =
  pw_queue :: "(u64 \<times> PtsSkippedQueue) list"
  pw_updateQueue :: "(u64 \<times> 'u) list"
  pw_updatesQueue :: "(u64 \<times> 's) list"
  pw_good :: int
  pw_last :: int
  pw_count :: int
  pw_applySkippedLevel :: int
  pw_requesting :: bool
  pw_waitingForSkipped :: bool
  pw_waitingForShortPoll :: bool
  pw_skippedKey :: u32

definition kWaitForSkippedTimeout :: int where "kWaitForSkippedTimeout = 1000"

definition pts_new :: "('u, 's) pts_waiter" where
  "pts_new = \<lparr>pw_queue = [], pw_updateQueue = [], pw_updatesQueue = [], pw_good = 0, pw_last = 0,
     pw_count = 0, pw_applySkippedLevel = 0, pw_requesting = False, pw_waitingForSkipped = False,
     pw_waitingForShortPoll = False, pw_skippedKey = 0\<rparr>"

definition clearSkippedUpdates :: "('u, 's) pts_waiter \<Rightarrow> ('u, 's) pts_waiter" where
  "clearSkippedUpdates w = w\<lparr>pw_queue := [], pw_updateQueue := [], pw_updatesQueue := [],
     pw_applySkippedLevel := 0\<rparr>"

definition pts_init :: "int \<Rightarrow> ('u, 's) pts_waiter \<Rightarrow> ('u, 's) pts_waiter" where
  "pts_init pts w = clearSkippedUpdates (w\<lparr>pw_good := pts, pw_last := pts, pw_count := pts\<rparr>)"

definition pts_inited :: "('u, 's) pts_waiter \<Rightarrow> bool" where
  "pts_inited w \<longleftrightarrow> pw_good w > 0"

definition setRequesting :: "bool \<Rightarrow> ('u, 's) pts_waiter \<Rightarrow> ('u, 's) pts_waiter" where
  "setRequesting isRequesting w =
     (let w' = w\<lparr>pw_requesting := isRequesting\<rparr> in
      if isRequesting then clearSkippedUpdates w' else w')"

definition pts_key :: "int \<Rightarrow> u32 \<Rightarrow> u64" where
  "pts_key pts skipped = push_bit 32 (ucast (word_of_int pts :: u32)) OR ucast skipped"

definition ptsKey :: "PtsSkippedQueue \<Rightarrow> int \<Rightarrow> ('u, 's) pts_waiter \<Rightarrow> ('u, 's) pts_waiter \<times> u64" where
  "ptsKey queue pts w =
     (let skipped = pw_skippedKey w + 1;
          (m, pos, _) = flat_map_emplace (<) (pts_key pts skipped) queue (pw_queue w)
      in (w\<lparr>pw_skippedKey := skipped, pw_queue := m\<rparr>, fst (m ! pos)))"

definition checkForWaiting ::
    "'c \<Rightarrow> ('u, 's) pts_waiter \<Rightarrow> ('u, 's) pts_waiter \<times> ('c, 'u, 's) pts_event list" where
  "checkForWaiting channel w =
     (w, if \<not> pw_waitingForSkipped w \<and> \<not> pw_waitingForShortPoll w then [StartTimer channel (-1)] else [])"

definition setWaitingForSkipped ::
    "'c \<Rightarrow> int \<Rightarrow> ('u, 's) pts_waiter \<Rightarrow> ('u, 's) pts_waiter \<times> ('c, 'u, 's) pts_event list" where
  "setWaitingForSkipped channel ms w =
     (if ms \<ge> 0 then (w\<lparr>pw_waitingForSkipped := True\<rparr>, [StartTimer channel ms])
      else checkForWaiting channel (w\<lparr>pw_waitingForSkipped := False\<rparr>))"

definition setWaitingForShortPoll ::
    "'c \<Rightarrow> int \<Rightarrow> ('u, 's) pts_waiter \<Rightarrow> ('u, 's) pts_waiter \<times> ('c, 'u, 's) pts_event list" where
  "setWaitingForShortPoll channel ms w =
     (if ms \<ge> 0 then (w\<lparr>pw_waitingForShortPoll := True\<rparr>, [StartTimer channel ms])
      else checkForWaiting channel (w\<lparr>pw_waitingForShortPoll := False\<rparr>))"

text \<open>The loop over \<open>_queue\<close>; \<open>operator[]\<close> inserts a default update under a missing key.\<close>

fun apply_skipped_loop ::
    "'u \<Rightarrow> 's \<Rightarrow> (u64 \<times> PtsSkippedQueue) list \<Rightarrow> ('u, 's) pts_waiter
      \<Rightarrow> ('u, 's) pts_waiter \<times> ('c, 'u, 's) pts_event list" where
  "apply_skipped_loop du ds [] w = (w, [])"
| "apply_skipped_loop du ds ((key, kind) # rest) w =
     (case kind of
        SkippedUpdate \<Rightarrow>
          (let (m, i) = flat_map_subscript (<) du key (pw_updateQueue w);
               (w', events) = apply_skipped_loop du ds rest (w\<lparr>pw_updateQueue := m\<rparr>)
           in (w', ApplyUpdate (snd (m ! i)) # events))
      | SkippedUpdates \<Rightarrow>
          (let (m, i) = flat_map_subscript (<) ds key (pw_updatesQueue w);
               (w', events) = apply_skipped_loop du ds rest (w\<lparr>pw_updatesQueue := m\<rparr>)
           in (w', ApplyUpdates (snd (m ! i)) # events)))"

definition applySkippedUpdates ::
    "'u \<Rightarrow> 's \<Rightarrow> 'c \<Rightarrow> ('u, 's) pts_waiter \<Rightarrow> ('u, 's) pts_waiter \<times> ('c, 'u, 's) pts_event list" where
  "applySkippedUpdates du ds channel w =
     (if \<not> pw_waitingForSkipped w then (w, [])
      else let (w1, events1) = setWaitingForSkipped channel (-1) w in
        if pw_queue w1 = [] then (w1, events1)
        else let (w2, events2) = apply_skipped_loop du ds (pw_queue w1)
                   (w1\<lparr>pw_applySkippedLevel := pw_applySkippedLevel w1 + 1\<rparr>)
             in (clearSkippedUpdates (w2\<lparr>pw_applySkippedLevel := pw_applySkippedLevel w2 - 1\<rparr>),
                 events1 @ events2))"

text \<open>\<open>check\<close> returns false when the update has to be kept and applied later.\<close>

definition pts_check ::
    "'c \<Rightarrow> int \<Rightarrow> int \<Rightarrow> ('u, 's) pts_waiter \<Rightarrow> ('u, 's) pts_waiter \<times> bool \<times> ('c, 'u, 's) pts_event list" where
  "pts_check channel pts cnt w =
     (if \<not> pts_inited w then (pts_init pts w, True, [])
      else let w1 = w\<lparr>pw_last := max (pw_last w) pts, pw_count := pw_count w + cnt\<rparr> in
        if pw_last w1 = pw_count w1 then (w1\<lparr>pw_good := pw_last w1\<rparr>, True, [])
        else let (w2, events) = setWaitingForSkipped channel
                   (if pw_last w1 < pw_count w1 then 1 else kWaitForSkippedTimeout) w1
             in (w2, cnt = 0, events))"

definition updated_plain ::
    "'c \<Rightarrow> int \<Rightarrow> int \<Rightarrow> ('u, 's) pts_waiter \<Rightarrow> ('u, 's) pts_waiter \<times> bool \<times> ('c, 'u, 's) pts_event list" where
  "updated_plain channel pts cnt w =
     (if pw_requesting w \<or> pw_applySkippedLevel w \<noteq> 0 then (w, True, [])
      else if pts \<le> pw_good w \<and> cnt > 0 then (w, False, [])
      else pts_check channel pts cnt w)"

definition updated_update ::
    "'c \<Rightarrow> int \<Rightarrow> int \<Rightarrow> 'u \<Rightarrow> ('u, 's) pts_waiter
      \<Rightarrow> ('u, 's) pts_waiter \<times> bool \<times> ('c, 'u, 's) pts_event list" where
  "updated_update channel pts cnt update w =
     (if pw_requesting w \<or> pw_applySkippedLevel w \<noteq> 0 then (w, True, [])
      else if pts \<le> pw_good w \<and> cnt > 0 then (w, False, [])
      else let (w1, ok, events) = pts_check channel pts cnt w in
        if ok then (w1, True, events)
        else let (w2, key) = ptsKey SkippedUpdate pts w1 in
          (w2\<lparr>pw_updateQueue := fst (flat_map_emplace (<) key update (pw_updateQueue w2))\<rparr>, False, events))"

definition updated_updates ::
    "'c \<Rightarrow> int \<Rightarrow> int \<Rightarrow> 's \<Rightarrow> ('u, 's) pts_waiter
      \<Rightarrow> ('u, 's) pts_waiter \<times> bool \<times> ('c, 'u, 's) pts_event list" where
  "updated_updates channel pts cnt updates w =
     (if pw_requesting w \<or> pw_applySkippedLevel w \<noteq> 0 then (w, True, [])
      else if pts \<le> pw_good w \<and> cnt > 0 then (w, False, [])
      else let (w1, ok, events) = pts_check channel pts cnt w in
        if ok then (w1, True, events)
        else let (w2, key) = ptsKey SkippedUpdates pts w1 in
          (w2\<lparr>pw_updatesQueue := fst (flat_map_emplace (<) key updates (pw_updatesQueue w2))\<rparr>, False, events))"

definition updateAndApply_plain ::
    "'u \<Rightarrow> 's \<Rightarrow> 'c \<Rightarrow> int \<Rightarrow> int \<Rightarrow> ('u, 's) pts_waiter
      \<Rightarrow> ('u, 's) pts_waiter \<times> bool \<times> ('c, 'u, 's) pts_event list" where
  "updateAndApply_plain du ds channel pts cnt w =
     (let (w1, ok, events1) = updated_plain channel pts cnt w in
      if \<not> ok then (w1, False, events1)
      else let (w2, events2) = applySkippedUpdates du ds channel w1 in (w2, True, events1 @ events2))"

definition updateAndApply_update ::
    "'u \<Rightarrow> 's \<Rightarrow> 'c \<Rightarrow> int \<Rightarrow> int \<Rightarrow> 'u \<Rightarrow> ('u, 's) pts_waiter
      \<Rightarrow> ('u, 's) pts_waiter \<times> bool \<times> ('c, 'u, 's) pts_event list" where
  "updateAndApply_update du ds channel pts cnt update w =
     (let (w1, ok, events1) = updated_update channel pts cnt update w in
      if \<not> ok then (w1, False, events1)
      else if \<not> pw_waitingForSkipped w1 \<or> pw_queue w1 = [] then (w1, True, events1 @ [ApplyUpdate update])
      else let (w2, key) = ptsKey SkippedUpdate pts w1;
               w3 = w2\<lparr>pw_updateQueue := fst (flat_map_emplace (<) key update (pw_updateQueue w2))\<rparr>;
               (w4, events2) = applySkippedUpdates du ds channel w3
           in (w4, True, events1 @ events2))"

definition updateAndApply_updates ::
    "'u \<Rightarrow> 's \<Rightarrow> 'c \<Rightarrow> int \<Rightarrow> int \<Rightarrow> 's \<Rightarrow> ('u, 's) pts_waiter
      \<Rightarrow> ('u, 's) pts_waiter \<times> bool \<times> ('c, 'u, 's) pts_event list" where
  "updateAndApply_updates du ds channel pts cnt updates w =
     (let (w1, ok, events1) = updated_updates channel pts cnt updates w in
      if \<not> ok then (w1, False, events1)
      else if \<not> pw_waitingForSkipped w1 \<or> pw_queue w1 = [] then (w1, True, events1 @ [ApplyUpdates updates])
      else let (w2, key) = ptsKey SkippedUpdates pts w1;
               w3 = w2\<lparr>pw_updatesQueue := fst (flat_map_emplace (<) key updates (pw_updatesQueue w2))\<rparr>;
               (w4, events2) = applySkippedUpdates du ds channel w3
           in (w4, True, events1 @ events2))"

section \<open>Keys\<close>

lemma pts_key_value: "uint (pts_key pts skipped) = take_bit 32 pts * 2 ^ 32 + uint skipped"
proof -
  have lt: "uint skipped < 2 ^ 32" using uint_lt2p [of skipped] by simp
  have [simp]: "take_bit 64 (uint skipped) = uint skipped"
    using lt by (intro take_bit_int_eq_self) simp_all
  have "uint (pts_key pts skipped) = push_bit 32 (take_bit 32 pts) OR uint skipped"
    by (simp add: pts_key_def unsigned_or_eq unsigned_push_bit_eq unsigned_ucast_eq uint_word_of_int_eq
        take_bit_push_bit)
  also have "\<dots> = push_bit 32 (take_bit 32 pts) + uint skipped"
  proof (rule disjunctive_add [symmetric])
    fix n
    have "\<not> bit (uint skipped) n" if "32 \<le> n"
      using that by (simp add: bit_uint_iff)
    then show "\<not> bit (push_bit 32 (take_bit 32 pts)) n \<or> \<not> bit (uint skipped) n"
      by (cases "32 \<le> n") (auto simp: bit_push_bit_iff)
  qed
  finally show ?thesis by (simp add: push_bit_eq_mult)
qed

text \<open>Keys are ordered by \<open>pts\<close> first, then by arrival.\<close>

lemma pts_key_less:
  assumes "0 \<le> p" "p < q" "q < 2 ^ 31"
  shows "pts_key p x < pts_key q y"
proof -
  have x: "uint x < 2 ^ 32" using uint_lt2p [of x] by simp
  have y: "0 \<le> uint y" by simp
  have bits: "take_bit 32 p = p" "take_bit 32 q = q"
    using assms by (auto intro!: take_bit_int_eq_self)
  have "p * 2 ^ 32 + uint x < (p + 1) * 2 ^ 32" using x by (simp add: algebra_simps)
  also have "\<dots> \<le> q * 2 ^ 32" using assms by (intro mult_right_mono) simp_all
  also have "\<dots> \<le> q * 2 ^ 32 + uint y" using y by simp
  finally show ?thesis unfolding word_less_def pts_key_value bits .
qed

lemma pts_key_less_iff:
  assumes "0 \<le> p" "p < 2 ^ 31" "0 \<le> q" "q < 2 ^ 31" "p \<noteq> q"
  shows "pts_key p x < pts_key q y \<longleftrightarrow> p < q"
  using assms pts_key_less [of p q x y] pts_key_less [of q p y x] by (cases "p < q") (auto dest: order_less_asym)

section \<open>Emplacing into the queues\<close>

lemma insert_key: "key_sorted (<) m \<Longrightarrow> (case flat_map_insert (<) (k, v) m of (m', i, b) \<Rightarrow> fst (m' ! i)) = (k :: 'k::linorder)"
  by (cases rule: less_total.insert_cases [of m k v]) auto

lemma insert_fresh_filter:
  fixes k :: "'k::linorder"
  assumes srt: "key_sorted (<) m" and k: "k \<notin> fst ` set m"
  shows "fst (flat_map_insert (<) (k, v) m) = filter (\<lambda>p. fst p < k) m @ (k, v) # filter (\<lambda>p. k < fst p) m"
proof (cases rule: less_total.insert_cases [OF srt, of k v])
  case (1 ys zs)
  have "key_sorted (<) (ys @ (k, v) # zs)" using less_total.insert_sorted [OF srt, of "(k, v)"] 1 by simp
  then have "\<forall>p \<in> set ys. fst p < k" "\<forall>p \<in> set zs. k < fst p" by (auto simp: sorted_wrt_append)
  then have "filter (\<lambda>p. fst p < k) m = ys" "filter (\<lambda>p. k < fst p) m = zs"
    using 1(1) by (auto simp: filter_id_conv filter_empty_conv dest: order_less_asym)
  then show ?thesis using 1 by simp
next
  case (2 ys w zs)
  with k show ?thesis by auto
qed

lemma ptsKey_eq:
  assumes "key_sorted (<) (pw_queue w)"
  shows "ptsKey q pts w =
    (w\<lparr>pw_skippedKey := pw_skippedKey w + 1,
       pw_queue := fst (flat_map_insert (<) (pts_key pts (pw_skippedKey w + 1), q) (pw_queue w))\<rparr>,
     pts_key pts (pw_skippedKey w + 1))"
  using insert_key [OF assms, of "pts_key pts (pw_skippedKey w + 1)" q]
  by (simp add: ptsKey_def Let_def flat_map_emplace_def split: prod.splits)

section \<open>The invariant of the queues\<close>

text \<open>
  The three maps have their keys in order and every key of \<open>_queue\<close> has its update in the map its kind
  names, so that \<open>operator[]\<close> never makes a default update.
\<close>

definition pts_ok :: "('u, 's) pts_waiter \<Rightarrow> bool" where
  "pts_ok w \<longleftrightarrow> key_sorted (<) (pw_queue w) \<and> key_sorted (<) (pw_updateQueue w)
     \<and> key_sorted (<) (pw_updatesQueue w)
     \<and> (\<forall>p \<in> set (pw_queue w). snd p = SkippedUpdate \<longrightarrow> fst p \<in> fst ` set (pw_updateQueue w))
     \<and> (\<forall>p \<in> set (pw_queue w). snd p = SkippedUpdates \<longrightarrow> fst p \<in> fst ` set (pw_updatesQueue w))"

text \<open>What is stored, in the order of the keys.\<close>

definition pts_stored :: "('u, 's) pts_waiter \<Rightarrow> ('c, 'u, 's) pts_event list" where
  "pts_stored w = map (\<lambda>(k, kind). case kind of
       SkippedUpdate \<Rightarrow> ApplyUpdate (the (map_of (pw_updateQueue w) k))
     | SkippedUpdates \<Rightarrow> ApplyUpdates (the (map_of (pw_updatesQueue w) k))) (pw_queue w)"

lemma subscript_present:
  fixes k :: "'k::linorder"
  assumes "key_sorted (<) m" "k \<in> fst ` set m"
  shows "\<exists>i. flat_map_subscript (<) d k m = (m, i) \<and> snd (m ! i) = the (map_of m k)"
proof (cases rule: less_total.insert_cases [OF assms(1), of k d])
  case (1 ys zs)
  then have "k \<notin> fst ` set m" by (simp add: dom_map_of_conv_image_fst image_Un)
  with assms(2) show ?thesis by blast
next
  case (2 ys w zs)
  then have "map_of m k = Some w" using map_of_middle [of k ys w zs] by simp
  with 2 show ?thesis by (auto simp: map_subscript_insert)
qed

lemma apply_skipped_loop_stored:
  assumes "key_sorted (<) (pw_updateQueue w)" "key_sorted (<) (pw_updatesQueue w)"
    "\<forall>p \<in> set rest. snd p = SkippedUpdate \<longrightarrow> fst p \<in> fst ` set (pw_updateQueue w)"
    "\<forall>p \<in> set rest. snd p = SkippedUpdates \<longrightarrow> fst p \<in> fst ` set (pw_updatesQueue w)"
  shows "apply_skipped_loop du ds rest w = (w, map (\<lambda>(k, kind). case kind of
       SkippedUpdate \<Rightarrow> ApplyUpdate (the (map_of (pw_updateQueue w) k))
     | SkippedUpdates \<Rightarrow> ApplyUpdates (the (map_of (pw_updatesQueue w) k))) rest)"
  using assms(3,4)
proof (induction rest)
  case (Cons p rest)
  obtain key kind where p: "p = (key, kind)" by (cases p)
  show ?case
  proof (cases kind)
    case SkippedUpdate
    then have "key \<in> fst ` set (pw_updateQueue w)" using Cons.prems p by simp
    from subscript_present [OF assms(1) this, of du] show ?thesis
      using Cons p SkippedUpdate by auto
  next
    case SkippedUpdates
    then have "key \<in> fst ` set (pw_updatesQueue w)" using Cons.prems p by simp
    from subscript_present [OF assms(2) this, of ds] show ?thesis
      using Cons p SkippedUpdates by auto
  qed
qed simp

lemma setWaiting_queues:
  "pw_queue (fst (setWaitingForSkipped channel ms w)) = pw_queue w"
  "pw_updateQueue (fst (setWaitingForSkipped channel ms w)) = pw_updateQueue w"
  "pw_updatesQueue (fst (setWaitingForSkipped channel ms w)) = pw_updatesQueue w"
  "pw_queue (fst (setWaitingForShortPoll channel ms w)) = pw_queue w"
  "pw_updateQueue (fst (setWaitingForShortPoll channel ms w)) = pw_updateQueue w"
  "pw_updatesQueue (fst (setWaitingForShortPoll channel ms w)) = pw_updatesQueue w"
  by (simp_all add: setWaitingForSkipped_def setWaitingForShortPoll_def checkForWaiting_def)

lemma applySkipped_eq:
  fixes channel :: 'c and w :: "('u, 's) pts_waiter"
  assumes "pts_ok w"
  shows "applySkippedUpdates du ds channel w =
    (if pw_waitingForSkipped w
     then (let w' = w\<lparr>pw_waitingForSkipped := False\<rparr> in
           if pw_queue w = [] then w' else clearSkippedUpdates w',
           (if pw_waitingForShortPoll w then [] else [StartTimer channel (-1)]) @ pts_stored w)
     else (w, []))"
proof -
  have "apply_skipped_loop du ds (pw_queue w) (w\<lparr>pw_waitingForSkipped := False,
      pw_applySkippedLevel := l\<rparr>) = (w\<lparr>pw_waitingForSkipped := False, pw_applySkippedLevel := l\<rparr>,
      pts_stored w :: ('c, 'u, 's) pts_event list)" for l
    using assms apply_skipped_loop_stored [of "w\<lparr>pw_waitingForSkipped := False, pw_applySkippedLevel := l\<rparr>" "pw_queue w" du ds]
    by (simp add: pts_ok_def pts_stored_def)
  then show ?thesis
    by (auto simp: applySkippedUpdates_def setWaitingForSkipped_def checkForWaiting_def Let_def
        clearSkippedUpdates_def pts_stored_def)
qed


lemma insert_keys:
  fixes k :: "'k::linorder"
  assumes "key_sorted (<) m"
  shows "fst ` set (fst (flat_map_insert (<) (k, v) m)) = insert k (fst ` set m)"
  by (cases rule: less_total.insert_cases [OF assms, of k v]) auto

lemma insert_entries:
  fixes k :: "'k::linorder"
  assumes "key_sorted (<) m"
  shows "set (fst (flat_map_insert (<) (k, v) m)) \<subseteq> insert (k, v) (set m)"
  by (cases rule: less_total.insert_cases [OF assms, of k v]) auto

lemma pts_ok_cong:
  "pw_queue w' = pw_queue w \<Longrightarrow> pw_updateQueue w' = pw_updateQueue w
    \<Longrightarrow> pw_updatesQueue w' = pw_updatesQueue w \<Longrightarrow> pts_ok w' = pts_ok w"
  by (simp add: pts_ok_def)

lemma pts_ok_clear [simp]: "pts_ok (clearSkippedUpdates w)"
  by (simp add: pts_ok_def clearSkippedUpdates_def)

text \<open>Putting an update into the queue, as \<open>updated\<close> and \<open>updateAndApply\<close> do.\<close>

definition pts_store_update :: "int \<Rightarrow> 'u \<Rightarrow> ('u, 's) pts_waiter \<Rightarrow> ('u, 's) pts_waiter" where
  "pts_store_update pts update w =
     (let (w2, key) = ptsKey SkippedUpdate pts w
      in w2\<lparr>pw_updateQueue := fst (flat_map_emplace (<) key update (pw_updateQueue w2))\<rparr>)"

definition pts_store_updates :: "int \<Rightarrow> 's \<Rightarrow> ('u, 's) pts_waiter \<Rightarrow> ('u, 's) pts_waiter" where
  "pts_store_updates pts updates w =
     (let (w2, key) = ptsKey SkippedUpdates pts w
      in w2\<lparr>pw_updatesQueue := fst (flat_map_emplace (<) key updates (pw_updatesQueue w2))\<rparr>)"

lemma pts_ok_store_update:
  assumes ok: "pts_ok w"
  shows "pts_ok (pts_store_update pts u w)"
proof -
  let ?k = "pts_key pts (pw_skippedKey w + 1)"
  have srt: "key_sorted (<) (pw_queue w)" "key_sorted (<) (pw_updateQueue w)"
    using ok by (auto simp: pts_ok_def)
  let ?q = "fst (flat_map_insert (<) (?k, SkippedUpdate) (pw_queue w))"
  have sub: "p = (?k, SkippedUpdate) \<or> p \<in> set (pw_queue w)" if "p \<in> set ?q" for p
    using insert_entries [OF srt(1), of ?k SkippedUpdate] that by auto
  have in_queue: "fst p \<in> insert ?k (fst ` set (pw_updateQueue w))" if "p \<in> set ?q" "snd p = SkippedUpdate" for p
    using sub [OF that(1)] ok that(2) by (auto simp: pts_ok_def)
  have in_other: "fst p \<in> fst ` set (pw_updatesQueue w)" if "p \<in> set ?q" "snd p = SkippedUpdates" for p
    using sub [OF that(1)] ok that(2) by (auto simp: pts_ok_def)
  show ?thesis
    using ok in_queue in_other
    by (simp add: pts_ok_def pts_store_update_def ptsKey_eq [OF srt(1)] flat_map_emplace_def
        less_total.insert_sorted insert_keys [OF srt(2)])
qed

lemma pts_ok_store_updates:
  assumes ok: "pts_ok w"
  shows "pts_ok (pts_store_updates pts s w)"
proof -
  let ?k = "pts_key pts (pw_skippedKey w + 1)"
  have srt: "key_sorted (<) (pw_queue w)" "key_sorted (<) (pw_updatesQueue w)"
    using ok by (auto simp: pts_ok_def)
  let ?q = "fst (flat_map_insert (<) (?k, SkippedUpdates) (pw_queue w))"
  have sub: "p = (?k, SkippedUpdates) \<or> p \<in> set (pw_queue w)" if "p \<in> set ?q" for p
    using insert_entries [OF srt(1), of ?k SkippedUpdates] that by auto
  have in_queue: "fst p \<in> insert ?k (fst ` set (pw_updatesQueue w))" if "p \<in> set ?q" "snd p = SkippedUpdates" for p
    using sub [OF that(1)] ok that(2) by (auto simp: pts_ok_def)
  have in_other: "fst p \<in> fst ` set (pw_updateQueue w)" if "p \<in> set ?q" "snd p = SkippedUpdate" for p
    using sub [OF that(1)] ok that(2) by (auto simp: pts_ok_def)
  show ?thesis
    using ok in_queue in_other
    by (simp add: pts_ok_def pts_store_updates_def ptsKey_eq [OF srt(1)] flat_map_emplace_def
        less_total.insert_sorted insert_keys [OF srt(2)])
qed

lemma pts_ok_check: "pts_ok w \<Longrightarrow> pts_ok (fst (pts_check channel pts cnt w))"
  by (auto simp: pts_check_def pts_init_def Let_def setWaitingForSkipped_def checkForWaiting_def
      kWaitForSkippedTimeout_def pts_ok_def clearSkippedUpdates_def)

lemma pts_ok_applySkipped:
  assumes "pts_ok w"
  shows "pts_ok (fst (applySkippedUpdates du ds channel w))"
  unfolding applySkipped_eq [OF assms] using assms pts_ok_cong [of "w\<lparr>pw_waitingForSkipped := False\<rparr>" w]
  by (auto simp: Let_def)

lemma updated_update_store:
  "updated_update channel pts cnt u w =
    (let (w1, ok, events) = updated_plain channel pts cnt w in
     if ok \<or> pw_requesting w \<or> pw_applySkippedLevel w \<noteq> 0 \<or> pts \<le> pw_good w \<and> cnt > 0
     then (w1, ok, events) else (pts_store_update pts u w1, False, events))"
  by (auto simp: updated_update_def updated_plain_def pts_store_update_def Let_def split: prod.splits)

lemma updated_updates_store:
  "updated_updates channel pts cnt s w =
    (let (w1, ok, events) = updated_plain channel pts cnt w in
     if ok \<or> pw_requesting w \<or> pw_applySkippedLevel w \<noteq> 0 \<or> pts \<le> pw_good w \<and> cnt > 0
     then (w1, ok, events) else (pts_store_updates pts s w1, False, events))"
  by (auto simp: updated_updates_def updated_plain_def pts_store_updates_def Let_def split: prod.splits)

lemma pts_ok_updated:
  assumes "pts_ok w"
  shows "pts_ok (fst (updated_plain channel pts cnt w))"
    "pts_ok (fst (updated_update channel pts cnt u w))"
    "pts_ok (fst (updated_updates channel pts cnt s w))"
proof -
  show plain: "pts_ok (fst (updated_plain channel pts cnt w))"
    using assms pts_ok_check by (auto simp: updated_plain_def)
  show "pts_ok (fst (updated_update channel pts cnt u w))"
    using plain pts_ok_store_update by (auto simp: updated_update_store Let_def split: prod.splits)
  show "pts_ok (fst (updated_updates channel pts cnt s w))"
    using plain pts_ok_store_updates by (auto simp: updated_updates_store Let_def split: prod.splits)
qed

lemma updateAndApply_update_store:
  "updateAndApply_update du ds channel pts cnt u w =
    (let (w1, ok, events1) = updated_update channel pts cnt u w in
     if \<not> ok then (w1, False, events1)
     else if \<not> pw_waitingForSkipped w1 \<or> pw_queue w1 = [] then (w1, True, events1 @ [ApplyUpdate u])
     else let (w4, events2) = applySkippedUpdates du ds channel (pts_store_update pts u w1)
          in (w4, True, events1 @ events2))"
  by (simp add: updateAndApply_update_def pts_store_update_def Let_def split: prod.splits)

lemma updateAndApply_updates_store:
  "updateAndApply_updates du ds channel pts cnt s w =
    (let (w1, ok, events1) = updated_updates channel pts cnt s w in
     if \<not> ok then (w1, False, events1)
     else if \<not> pw_waitingForSkipped w1 \<or> pw_queue w1 = [] then (w1, True, events1 @ [ApplyUpdates s])
     else let (w4, events2) = applySkippedUpdates du ds channel (pts_store_updates pts s w1)
          in (w4, True, events1 @ events2))"
  by (simp add: updateAndApply_updates_def pts_store_updates_def Let_def split: prod.splits)

lemma pts_ok_updateAndApply:
  assumes "pts_ok w"
  shows "pts_ok (fst (updateAndApply_plain du ds channel pts cnt w))"
    "pts_ok (fst (updateAndApply_update du ds channel pts cnt u w))"
    "pts_ok (fst (updateAndApply_updates du ds channel pts cnt s w))"
proof -
  note ok = pts_ok_updated [OF assms, of channel pts cnt]
  show "pts_ok (fst (updateAndApply_plain du ds channel pts cnt w))"
    using ok(1) pts_ok_applySkipped [of "fst (updated_plain channel pts cnt w)" du ds channel]
    by (auto simp: updateAndApply_plain_def Let_def split: prod.splits)
  show "pts_ok (fst (updateAndApply_update du ds channel pts cnt u w))"
    using ok(2) [of u] pts_ok_applySkipped [OF pts_ok_store_update [OF ok(2) [of u]], of du ds channel pts u]
    by (auto simp: updateAndApply_update_store Let_def split: prod.splits)
  show "pts_ok (fst (updateAndApply_updates du ds channel pts cnt s w))"
    using ok(3) [of s] pts_ok_applySkipped [OF pts_ok_store_updates [OF ok(3) [of s]], of du ds channel pts s]
    by (auto simp: updateAndApply_updates_store Let_def split: prod.splits)
qed

section \<open>Reachable waiters\<close>

inductive pts_reach :: "'u \<Rightarrow> 's \<Rightarrow> 'c \<Rightarrow> ('u, 's) pts_waiter \<Rightarrow> bool" for du ds channel where
  reach_new: "pts_reach du ds channel pts_new"
| reach_init: "pts_reach du ds channel w \<Longrightarrow> pts_reach du ds channel (pts_init pts w)"
| reach_requesting: "pts_reach du ds channel w \<Longrightarrow> pts_reach du ds channel (setRequesting b w)"
| reach_skipped: "pts_reach du ds channel w
    \<Longrightarrow> pts_reach du ds channel (fst (setWaitingForSkipped channel ms w))"
| reach_shortPoll: "pts_reach du ds channel w
    \<Longrightarrow> pts_reach du ds channel (fst (setWaitingForShortPoll channel ms w))"
| reach_updated: "pts_reach du ds channel w \<Longrightarrow> pts_reach du ds channel (fst (updated_plain channel pts cnt w))"
| reach_updated_update: "pts_reach du ds channel w
    \<Longrightarrow> pts_reach du ds channel (fst (updated_update channel pts cnt u w))"
| reach_updated_updates: "pts_reach du ds channel w
    \<Longrightarrow> pts_reach du ds channel (fst (updated_updates channel pts cnt s w))"
| reach_apply: "pts_reach du ds channel w
    \<Longrightarrow> pts_reach du ds channel (fst (updateAndApply_plain du ds channel pts cnt w))"
| reach_apply_update: "pts_reach du ds channel w
    \<Longrightarrow> pts_reach du ds channel (fst (updateAndApply_update du ds channel pts cnt u w))"
| reach_apply_updates: "pts_reach du ds channel w
    \<Longrightarrow> pts_reach du ds channel (fst (updateAndApply_updates du ds channel pts cnt s w))"
| reach_flush: "pts_reach du ds channel w
    \<Longrightarrow> pts_reach du ds channel (fst (applySkippedUpdates du ds channel w))"
| reach_clear: "pts_reach du ds channel w \<Longrightarrow> pts_reach du ds channel (clearSkippedUpdates w)"

lemma pts_reach_ok: "pts_reach du ds channel w \<Longrightarrow> pts_ok w"
proof (induction rule: pts_reach.induct)
  case reach_new
  show ?case by (simp add: pts_ok_def pts_new_def)
next
  case (reach_skipped w ms)
  then show ?case using pts_ok_cong setWaiting_queues by metis
next
  case (reach_shortPoll w ms)
  then show ?case using pts_ok_cong setWaiting_queues by metis
next
  case (reach_requesting w b)
  then show ?case using pts_ok_cong [of "w\<lparr>pw_requesting := b\<rparr>" w] by (auto simp: setRequesting_def Let_def)
qed (simp_all add: pts_init_def pts_ok_updated pts_ok_updateAndApply pts_ok_applySkipped)

section \<open>Consecutive updates in any order\<close>

text \<open>
  A run of updates that starts at \<open>pts = g\<close>: each adds its count, which is positive. An item is
  \<open>(pts, count, update)\<close>.
\<close>

fun pts_chain :: "int \<Rightarrow> (int \<times> int \<times> 'u) list \<Rightarrow> bool" where
  "pts_chain g [] = True"
| "pts_chain g ((p, c, u) # rest) = (p = g + c \<and> c > 0 \<and> pts_chain p rest)"

fun chain_end :: "int \<Rightarrow> (int \<times> int \<times> 'u) list \<Rightarrow> int" where
  "chain_end g [] = g"
| "chain_end g ((p, c, u) # rest) = chain_end p rest"

fun pts_deliver :: "'u \<Rightarrow> 's \<Rightarrow> 'c \<Rightarrow> (int \<times> int \<times> 'u) list \<Rightarrow> ('u, 's) pts_waiter
    \<Rightarrow> ('u, 's) pts_waiter \<times> ('c, 'u, 's) pts_event list" where
  "pts_deliver du ds channel [] w = (w, [])"
| "pts_deliver du ds channel ((p, c, u) # rest) w =
     (let (w1, _, events1) = updateAndApply_update du ds channel p c u w;
          (w2, events2) = pts_deliver du ds channel rest w1
      in (w2, events1 @ events2))"

fun applied :: "('c, 'u, 's) pts_event list \<Rightarrow> 'u list" where
  "applied [] = []"
| "applied (ApplyUpdate u # es) = u # applied es"
| "applied (e # es) = applied es"

lemma applied_append [simp]: "applied (xs @ ys) = applied xs @ applied ys"
  by (induction xs rule: applied.induct) auto

lemma applied_updates [simp]: "applied (map (\<lambda>x. ApplyUpdate (f x)) xs) = map f xs"
  by (induction xs) auto

abbreviation item_pts :: "int \<times> int \<times> 'u \<Rightarrow> int" where "item_pts \<equiv> fst"
abbreviation item_count :: "int \<times> int \<times> 'u \<Rightarrow> int" where "item_count \<equiv> \<lambda>d. fst (snd d)"
abbreviation item_update :: "int \<times> int \<times> 'u \<Rightarrow> 'u" where "item_update \<equiv> \<lambda>d. snd (snd d)"
abbreviation by_pts :: "(int \<times> int \<times> 'u) list \<Rightarrow> bool" where
  "by_pts \<equiv> sorted_wrt (\<lambda>a b. fst a < fst b)"

lemma chain_end_ge: "pts_chain g us \<Longrightarrow> g \<le> chain_end g us"
  by (induction g us rule: pts_chain.induct) auto

lemma chain_bounds:
  "pts_chain g us \<Longrightarrow> d \<in> set us \<Longrightarrow> g < item_pts d \<and> item_pts d \<le> chain_end g us \<and> item_count d > 0"
proof (induction g us rule: pts_chain.induct)
  case (2 g p c u rest)
  then show ?case using chain_end_ge [of p rest] by auto
qed simp

lemma chain_end_sum: "pts_chain g us \<Longrightarrow> chain_end g us = g + sum_list (map item_count us)"
  by (induction us arbitrary: g) auto

lemma chain_append: "pts_chain g (xs @ ys) \<longleftrightarrow> pts_chain g xs \<and> pts_chain (chain_end g xs) ys"
  by (induction g xs rule: pts_chain.induct) auto

lemma chain_end_append [simp]: "chain_end g (xs @ ys) = chain_end (chain_end g xs) ys"
  by (induction g xs rule: pts_chain.induct) auto

lemma chain_by_pts: "pts_chain g us \<Longrightarrow> by_pts us"
proof (induction us arbitrary: g)
  case (Cons e us)
  obtain p c u where e: "e = (p, c, u)" by (cases e)
  then show ?case using Cons chain_bounds [of p us] by auto
qed simp

lemma by_pts_unique: "by_pts xs \<Longrightarrow> by_pts ys \<Longrightarrow> set xs = set ys \<Longrightarrow> xs = ys"
proof (induction xs arbitrary: ys)
  case (Cons x xs)
  then obtain y ys' where ys: "ys = y # ys'" by (cases ys) auto
  have "x = y"
  proof (rule ccontr)
    assume "x \<noteq> y"
    then have "x \<in> set ys'" "y \<in> set xs" using Cons.prems ys by auto
    then show False using Cons.prems ys by fastforce
  qed
  moreover have "set xs = set ys'"
    using Cons.prems ys \<open>x = y\<close> by fastforce
  ultimately show ?case using Cons ys by auto
qed simp

text \<open>Items of a run whose counts add up to the largest \<open>pts\<close> among them are its beginning.\<close>

lemma sum_counts_whole:
  assumes "\<forall>d \<in> set xs. item_count d > 0" "set ys \<subseteq> set xs" "distinct xs" "distinct ys"
    "sum_list (map item_count ys) = sum_list (map item_count xs)"
  shows "set ys = set xs"
proof (rule ccontr)
  assume "set ys \<noteq> set xs"
  then obtain d where d: "d \<in> set xs" "d \<notin> set ys" using assms(2) by blast
  have "sum item_count (set ys) < sum item_count (set xs)"
    using assms(1,2) d by (intro sum_strict_mono2 [where b = d]) (auto intro: less_imp_le)
  then show False using assms(3-5) by (simp add: sum_list_distinct_conv_sum_set)
qed

lemma by_pts_distinct: "by_pts xs \<Longrightarrow> distinct xs"
  by (induction xs) auto

lemma by_pts_last:
  assumes "by_pts ys" "d \<in> set ys"
  shows "item_pts d \<le> item_pts (last ys)"
proof -
  have ne: "ys \<noteq> []" using assms by auto
  then have "by_pts (butlast ys @ [last ys])" "d \<in> set (butlast ys @ [last ys])" using assms by simp_all
  then show ?thesis by (auto simp: sorted_wrt_append simp del: append_butlast_last_id)
qed

lemma run_beginning:
  assumes chain: "pts_chain g us" and ys: "by_pts ys" "set ys \<subseteq> set us" "ys \<noteq> []"
    and sum: "item_pts (last ys) = g + sum_list (map item_count ys)"
  shows "\<exists>rest. us = ys @ rest \<and> pts_chain (item_pts (last ys)) rest"
proof -
  have "last ys \<in> set us" using ys by auto
  then obtain A B where us: "us = A @ last ys # B" by (meson split_list)
  let ?X = "A @ [last ys]"
  have chX: "pts_chain g ?X" "pts_chain (chain_end g ?X) B"
    using chain us chain_append [of g ?X B] by simp_all
  have endX: "chain_end g ?X = item_pts (last ys)" by (cases "last ys") simp
  have max: "item_pts d \<le> item_pts (last ys)" if "d \<in> set ys" for d
    by (rule by_pts_last [OF ys(1) that])
  have "set ys \<subseteq> set ?X"
    using ys(2) us max chain_bounds [OF chX(2)] endX by fastforce
  moreover have "sum_list (map item_count ys) = sum_list (map item_count ?X)"
    using chain_end_sum [OF chX(1)] endX sum by simp
  ultimately have "set ys = set ?X"
    using chain_bounds [OF chX(1)] by_pts_distinct [OF chain_by_pts [OF chX(1)]] by_pts_distinct [OF ys(1)]
    by (intro sum_counts_whole) blast+
  then have "ys = ?X" by (rule by_pts_unique [OF ys(1) chain_by_pts [OF chX(1)]])
  then show ?thesis using us chX(2) endX by (intro exI [of _ B]) simp
qed


text \<open>
  The waiter after some items of the run past \<open>g\<close> have come: \<open>held\<close> are those it keeps, each under a
  key made of its \<open>pts\<close>.
\<close>

definition pts_queued :: "(u64 \<times> int \<times> int \<times> 'u) list \<Rightarrow> ('u, 's) pts_waiter \<Rightarrow> bool" where
  "pts_queued held w \<longleftrightarrow>
     pw_queue w = map (\<lambda>e. (fst e, SkippedUpdate)) held
     \<and> pw_updateQueue w = map (\<lambda>e. (fst e, item_update (snd e))) held \<and> pw_updatesQueue w = []
     \<and> key_sorted (<) held \<and> by_pts (map snd held)
     \<and> (\<forall>e \<in> set held. 0 \<le> item_pts (snd e) \<and> item_pts (snd e) < 2 ^ 31 \<and> (\<exists>x. fst e = pts_key (item_pts (snd e)) x))"

definition pts_holds :: "int \<Rightarrow> (u64 \<times> int \<times> int \<times> 'u) list \<Rightarrow> ('u, 's) pts_waiter \<Rightarrow> bool" where
  "pts_holds g held w \<longleftrightarrow> pts_queued held w
     \<and> pw_good w = g \<and> pw_last w = (if held = [] then g else item_pts (last (map snd held)))
     \<and> pw_count w = g + sum_list (map item_count (map snd held))
     \<and> \<not> pw_requesting w \<and> pw_applySkippedLevel w = 0 \<and> (held \<noteq> [] \<longrightarrow> pw_waitingForSkipped w)"

lemma pts_queued_ok: "pts_queued held w \<Longrightarrow> pts_ok w"
  by (auto simp: pts_queued_def pts_ok_def sorted_wrt_map image_image)

lemma queued_stored:
  fixes w :: "('u, 's) pts_waiter"
  assumes "pts_queued held w"
  shows "applied (pts_stored w :: ('c, 'u, 's) pts_event list) = map item_update (map snd held)"
proof -
  have dist: "distinct (map fst held)"
    using assms less_total.key_sorted_distinct [of held] by (simp add: pts_queued_def)
  have "map_of (map (\<lambda>e. (fst e, item_update (snd e))) held) (fst e) = Some (item_update (snd e))"
    if "e \<in> set held" for e
    using that dist by (intro map_of_is_SomeI) (auto simp: comp_def)
  then have "(pts_stored w :: ('c, 'u, 's) pts_event list) = map (\<lambda>e. ApplyUpdate (item_update (snd e))) held"
    using assms by (simp add: pts_stored_def pts_queued_def)
  then show ?thesis by (simp add: comp_def)
qed

definition hold :: "u64 \<Rightarrow> int \<times> int \<times> 'u \<Rightarrow> (u64 \<times> int \<times> int \<times> 'u) list \<Rightarrow> (u64 \<times> int \<times> int \<times> 'u) list" where
  "hold k d held = filter (\<lambda>e. fst e < k) held @ (k, d) # filter (\<lambda>e. k < fst e) held"

lemma insert_hold:
  assumes "key_sorted (<) held" "k \<notin> fst ` set held"
  shows "fst (flat_map_insert (<) (k, f d) (map (\<lambda>e. (fst e, f (snd e))) held)) = map (\<lambda>e. (fst e, f (snd e))) (hold k d held)"
proof -
  have "key_sorted (<) (map (\<lambda>e. (fst e, f (snd e))) held)" using assms(1) by (simp add: sorted_wrt_map)
  moreover have "k \<notin> fst ` set (map (\<lambda>e. (fst e, f (snd e))) held)" using assms(2) by (simp add: image_image)
  ultimately show ?thesis
    by (simp add: insert_fresh_filter hold_def filter_map comp_def)
qed

lemma hold_set: "key_sorted (<) held \<Longrightarrow> k \<notin> fst ` set held \<Longrightarrow> set (hold k d held) = insert (k, d) (set held)"
  by (auto simp: hold_def) (metis fst_conv image_eqI linorder_neqE)

lemma hold_sum:
  assumes "k \<notin> fst ` set held"
  shows "sum_list (map f (map snd (hold k d held))) = f d + sum_list (map f (map snd held) :: int list)"
  using assms
proof (induction held)
  case (Cons e held)
  then show ?case by (cases "fst e" k rule: linorder_cases) (auto simp: hold_def)
qed (simp add: hold_def)

lemma by_pts_Max: "by_pts ys \<Longrightarrow> ys \<noteq> [] \<Longrightarrow> item_pts (last ys) = Max (item_pts ` set ys)"
  using by_pts_last by (intro Max_eqI [symmetric]) auto

lemma hold_by_pts:
  assumes "by_pts (map snd held)" "\<forall>e \<in> set held. 0 \<le> item_pts (snd e) \<and> item_pts (snd e) < 2 ^ 31 \<and> (\<exists>x. fst e = pts_key (item_pts (snd e)) x)"
    "0 \<le> item_pts d" "item_pts d < 2 ^ 31" "item_pts d \<notin> item_pts ` snd ` set held"
  shows "by_pts (map snd (hold (pts_key (item_pts d) x) d held)) \<and> pts_key (item_pts d) x \<notin> fst ` set held"
proof -
  have lt: "fst e < pts_key (item_pts d) x \<longleftrightarrow> item_pts (snd e) < item_pts d"
    "pts_key (item_pts d) x < fst e \<longleftrightarrow> item_pts d < item_pts (snd e)" if e: "e \<in> set held" for e
  proof -
    obtain y where y: "fst e = pts_key (item_pts (snd e)) y" using assms(2) e by blast
    have ne: "item_pts (snd e) \<noteq> item_pts d" using assms(5) e by (metis image_eqI)
    show "fst e < pts_key (item_pts d) x \<longleftrightarrow> item_pts (snd e) < item_pts d"
      "pts_key (item_pts d) x < fst e \<longleftrightarrow> item_pts d < item_pts (snd e)"
      unfolding y using assms(2,3,4) e ne by (auto simp: pts_key_less_iff)
  qed
  have srt: "by_pts (map snd (filter P held))" for P
    using assms(1) by (simp add: sorted_wrt_map sorted_wrt_filter)
  have "pts_key (item_pts d) x \<noteq> fst e" if "e \<in> set held" for e
  proof -
    have "item_pts (snd e) \<noteq> item_pts d" using assms(5) that by (metis image_eqI)
    with lt [OF that] show ?thesis by auto
  qed
  then show ?thesis
    unfolding hold_def using srt lt by (auto simp: sorted_wrt_append) 
qed


lemma queued_store:
  assumes q: "pts_queued held w" and d: "0 \<le> p" "p < 2 ^ 31" "p \<notin> item_pts ` snd ` set held"
  defines "k \<equiv> pts_key p (pw_skippedKey w + 1)"
  shows "pts_queued (hold k (p, c, u) held) (pts_store_update p u w) \<and> k \<notin> fst ` set held"
proof -
  have srt: "key_sorted (<) held" and ok: "pts_ok w"
    using q pts_queued_ok by (auto simp: pts_queued_def)
  have ord: "by_pts (map snd (hold k (p, c, u) held))" and k: "k \<notin> fst ` set held"
    using hold_by_pts [of held "(p, c, u)" "pw_skippedKey w + 1"] q d by (simp_all add: pts_queued_def k_def)
  have ks: "key_sorted (<) (hold k (p, c, u) held)"
    using less_total.insert_sorted [OF srt, of "(k, (p, c, u))"] insert_fresh_filter [OF srt k, of "(p, c, u)"]
    by (simp add: hold_def)
  have "pw_queue (pts_store_update p u w) = map (\<lambda>e. (fst e, SkippedUpdate)) (hold k (p, c, u) held)"
    "pw_updateQueue (pts_store_update p u w) = map (\<lambda>e. (fst e, item_update (snd e))) (hold k (p, c, u) held)"
    "pw_updatesQueue (pts_store_update p u w) = []"
    using q ok insert_hold [OF srt k, of "\<lambda>_. SkippedUpdate" "(p, c, u)"] insert_hold [OF srt k, of item_update "(p, c, u)"]
    by (simp_all add: pts_ok_def pts_queued_def pts_store_update_def ptsKey_eq flat_map_emplace_def k_def)
  then show ?thesis
    using q ord ks k d hold_set [OF srt k, of "(p, c, u)"] by (auto simp: pts_queued_def k_def)
qed

lemma store_fields [simp]:
  "key_sorted (<) (pw_queue w) \<Longrightarrow> pw_good (pts_store_update p u w) = pw_good w"
  "key_sorted (<) (pw_queue w) \<Longrightarrow> pw_last (pts_store_update p u w) = pw_last w"
  "key_sorted (<) (pw_queue w) \<Longrightarrow> pw_count (pts_store_update p u w) = pw_count w"
  "key_sorted (<) (pw_queue w) \<Longrightarrow> pw_requesting (pts_store_update p u w) = pw_requesting w"
  "key_sorted (<) (pw_queue w) \<Longrightarrow> pw_applySkippedLevel (pts_store_update p u w) = pw_applySkippedLevel w"
  "key_sorted (<) (pw_queue w) \<Longrightarrow> pw_waitingForSkipped (pts_store_update p u w) = pw_waitingForSkipped w"
  by (simp_all add: pts_store_update_def ptsKey_eq)

lemma pts_queued_cong:
  "pw_queue w' = pw_queue w \<Longrightarrow> pw_updateQueue w' = pw_updateQueue w
    \<Longrightarrow> pw_updatesQueue w' = pw_updatesQueue w \<Longrightarrow> pts_queued held w' = pts_queued held w"
  by (simp add: pts_queued_def)

lemma hold_last:
  assumes "by_pts (map snd held)" "by_pts (map snd (hold k d held))" "key_sorted (<) held" "k \<notin> fst ` set held"
    "g < item_pts d"
  shows "item_pts (last (map snd (hold k d held))) = max (if held = [] then g else item_pts (last (map snd held))) (item_pts d)"
proof -
  have ne: "hold k d held \<noteq> []" by (simp add: hold_def)
  have new: "item_pts (last (map snd (hold k d held))) = Max (insert (item_pts d) (item_pts ` snd ` set held))"
    using by_pts_Max [OF assms(2)] ne hold_set [OF assms(3,4), of d] by (simp add: image_image)
  show ?thesis
  proof (cases "held = []")
    case True
    then show ?thesis using assms(5) by (simp add: hold_def)
  next
    case False
    then have "item_pts (last (map snd held)) = Max (item_pts ` snd ` set held)"
      using by_pts_Max [OF assms(1)] by simp
    with new False show ?thesis by (simp add: max.commute)
  qed
qed

text \<open>One delivery: the item completes the beginning of the run, or it is kept.\<close>

lemma deliver_step:
  fixes w :: "('u, 's) pts_waiter" and channel :: 'c
  assumes h: "pts_holds g held w" and d: "0 < g" "g < p" "p < 2 ^ 31" "0 < c" "p \<notin> item_pts ` snd ` set held"
  obtains (flush) w' e ys where
      "updateAndApply_update du ds channel p c u w = (w', True, e)" "by_pts ys"
      "set ys = insert (p, c, u) (set (map snd held))"
      "item_pts (last ys) = g + sum_list (map item_count ys)"
      "applied e = map item_update ys" "pts_holds (item_pts (last ys)) [] w'"
  | (keep) w' e held' where
      "updateAndApply_update du ds channel p c u w = (w', False, e)"
      "set (map snd held') = insert (p, c, u) (set (map snd held))"
      "item_pts (last (map snd held')) \<noteq> g + sum_list (map item_count (map snd held'))"
      "applied e = []" "pts_holds g held' w'" "held' \<noteq> []"
proof -
  let ?k = "pts_key p (pw_skippedKey w + 1)"
  let ?held = "hold ?k (p, c, u) held"
  let ?last = "item_pts (last (map snd ?held))" and ?sum = "g + sum_list (map item_count (map snd ?held))"
  have q: "pts_queued held w" and srt: "key_sorted (<) held" "by_pts (map snd held)"
    using h by (auto simp: pts_holds_def pts_queued_def)
  have st: "pts_queued ?held (pts_store_update p u w)" "?k \<notin> fst ` set held"
    using queued_store [OF q, of p c u] d by auto
  have ord: "by_pts (map snd ?held)" using st(1) by (simp add: pts_queued_def)
  have sum: "?sum = pw_count w + c"
    using h hold_sum [OF st(2), of item_count "(p, c, u)"] by (simp add: pts_holds_def)
  have last: "?last = max (pw_last w) p"
    using h hold_last [OF srt(2) ord srt(1) st(2), of g] d by (simp add: pts_holds_def)
  have set: "set (map snd ?held) = insert (p, c, u) (set (map snd held))"
    using hold_set [OF srt(1) st(2)] by simp
  show thesis
  proof (cases "?last = ?sum")
    case True
    define w1 where "w1 = w\<lparr>pw_last := max (pw_last w) p, pw_count := pw_count w + c, pw_good := max (pw_last w) p\<rparr>"
    have eq: "max (pw_last w) p = pw_count w + c" using True last sum by simp
    have ready: "\<not> pw_requesting w" "pw_applySkippedLevel w = 0" "pw_good w = g"
      using h by (simp_all add: pts_holds_def)
    have up: "updated_update channel p c u w = (w1, True, [])"
      using ready d eq by (simp add: updated_update_def pts_check_def pts_inited_def Let_def w1_def)
    have q1: "pts_queued held w1" using q pts_queued_cong [of w1 w held] by (simp add: w1_def)
    show thesis
    proof (cases "held = []")
      case True': True
      show thesis
      proof (rule flush [OF _ ord set True])
        show "updateAndApply_update du ds channel p c u w = (w1, True, [ApplyUpdate u])"
          using up q1 True' by (simp add: updateAndApply_update_def pts_queued_def)
        show "applied [ApplyUpdate u] = map item_update (map snd ?held)"
          using True' by (simp add: hold_def)
        show "pts_holds ?last [] w1"
          using q1 True' ready eq unfolding last by (simp add: pts_holds_def w1_def)
      qed
    next
      case False
      let ?w2 = "pts_store_update p u w1"
      have q2: "pts_queued ?held ?w2"
        using queued_store [OF q1, of p c u] d by (simp add: w1_def)
      have wait: "pw_waitingForSkipped w1" "pw_queue w1 \<noteq> []"
        using h False q1 by (auto simp: pts_holds_def w1_def pts_queued_def)
      have flushed: "pw_waitingForSkipped ?w2" "pw_queue ?w2 \<noteq> []"
        using wait q1 q2 by (auto simp: pts_queued_def sorted_wrt_map hold_def)
      show thesis
      proof (rule flush [OF _ ord set True])
        show "updateAndApply_update du ds channel p c u w =
            (clearSkippedUpdates (?w2\<lparr>pw_waitingForSkipped := False\<rparr>), True,
             (if pw_waitingForShortPoll ?w2 then [] else [StartTimer channel (-1)]) @ pts_stored ?w2)"
          using up wait flushed by (simp add: updateAndApply_update_store applySkipped_eq [OF pts_queued_ok [OF q2]])
        show "applied ((if pw_waitingForShortPoll ?w2 then [] else [StartTimer channel (-1)]) @ pts_stored ?w2
            :: ('c, 'u, 's) pts_event list) = map item_update (map snd ?held)"
          using queued_stored [OF q2] by simp
        show "pts_holds ?last [] (clearSkippedUpdates (?w2\<lparr>pw_waitingForSkipped := False\<rparr>))"
          using q1 ready eq unfolding last
          by (simp add: pts_holds_def w1_def clearSkippedUpdates_def pts_queued_def sorted_wrt_map)
      qed
    qed
  next
    case False
    let ?ms = "if max (pw_last w) p < pw_count w + c then 1 else kWaitForSkippedTimeout"
    define w1 where "w1 = w\<lparr>pw_last := max (pw_last w) p, pw_count := pw_count w + c, pw_waitingForSkipped := True\<rparr>"
    have ne: "max (pw_last w) p \<noteq> pw_count w + c" using False last sum by simp
    have ready: "\<not> pw_requesting w" "pw_applySkippedLevel w = 0" "pw_good w = g"
      using h by (simp_all add: pts_holds_def)
    have up: "updated_update channel p c u w = (pts_store_update p u w1, False, [StartTimer channel ?ms])"
      using ready d ne by (simp add: updated_update_def pts_check_def pts_inited_def Let_def
          setWaitingForSkipped_def kWaitForSkippedTimeout_def pts_store_update_def split_def w1_def)
    have q1: "pts_queued held w1" using q pts_queued_cong [of w1 w held] by (simp add: w1_def)
    have q2: "pts_queued ?held (pts_store_update p u w1)"
      using queued_store [OF q1, of p c u] d by (simp add: w1_def)
    show thesis
    proof (rule keep [OF _ set False])
      show "updateAndApply_update du ds channel p c u w = (pts_store_update p u w1, False, [StartTimer channel ?ms])"
        using up by (simp add: updateAndApply_update_def)
      show "pts_holds g ?held (pts_store_update p u w1)"
        using q1 q2 ready last sum by (simp add: pts_holds_def w1_def pts_queued_def sorted_wrt_map hold_def)
    qed (simp_all add: hold_def)
  qed
qed

lemma by_pts_inj: "by_pts xs \<Longrightarrow> a \<in> set xs \<Longrightarrow> b \<in> set xs \<Longrightarrow> item_pts a = item_pts b \<Longrightarrow> a = b"
  by (induction xs) fastforce+

lemma chain_end_last: "pts_chain g us \<Longrightarrow> us \<noteq> [] \<Longrightarrow> chain_end g us = item_pts (last us)"
  by (induction g us rule: pts_chain.induct) auto

lemma deliver_run:
  fixes w :: "('u, 's) pts_waiter" and channel :: 'c
  assumes "pts_holds g held w" "pts_chain g us" "0 < g" "chain_end g us < 2 ^ 31"
    "distinct order" "set us = set (map snd held) \<union> set order" "set (map snd held) \<inter> set order = {}"
    "held \<noteq> [] \<Longrightarrow> item_pts (last (map snd held)) \<noteq> g + sum_list (map item_count (map snd held))"
  shows "\<exists>w' e. pts_deliver du ds channel order w = (w', e) \<and> applied e = map item_update us
    \<and> pts_holds (chain_end g us) [] w'"
  using assms
proof (induction order arbitrary: g held w us)
  case Nil
  have "us = map snd held"
    using Nil chain_by_pts by (intro by_pts_unique) (auto simp: pts_holds_def pts_queued_def)
  moreover have "held = []"
    using calculation Nil.prems(8) chain_end_last [OF Nil.prems(2)] chain_end_sum [OF Nil.prems(2)] by auto
  ultimately show ?case using Nil.prems(1) by simp
next
  case (Cons d order)
  obtain p c u where d: "d = (p, c, u)" by (cases d)
  have "d \<in> set us" using Cons.prems by simp
  then have b: "g < p" "p < 2 ^ 31" "0 < c"
    using chain_bounds [OF Cons.prems(2)] Cons.prems(4) d by fastforce+
  have fresh: "p \<notin> item_pts ` snd ` set held"
  proof
    assume "p \<in> item_pts ` snd ` set held"
    then obtain e where "e \<in> set (map snd held)" "item_pts e = item_pts d" using d by auto
    moreover have "e \<in> set us" "e \<noteq> d" using calculation Cons.prems(6,7) by auto
    ultimately show False using by_pts_inj [OF chain_by_pts [OF Cons.prems(2)]] \<open>d \<in> set us\<close> by metis
  qed
  show ?case
  proof (cases rule: deliver_step [OF Cons.prems(1,3) b fresh, of du ds channel u])
    case (1 w' e ys)
    have ne: "ys \<noteq> []" using 1(3) by auto
    obtain rest where rest: "us = ys @ rest" "pts_chain (item_pts (last ys)) rest"
      using run_beginning [OF Cons.prems(2) 1(2) _ ne 1(4)] 1(3) Cons.prems(6) d by auto
    have "distinct us" using by_pts_distinct [OF chain_by_pts [OF Cons.prems(2)]] .
    then have "set rest = set us - set ys" using rest(1) by auto
    moreover have "set order = set us - set ys" using 1(3) Cons.prems(5,6,7) d by auto
    moreover have end_eq: "chain_end g us = chain_end (item_pts (last ys)) rest"
      using rest(1) chain_end_last [of g ys] Cons.prems(2) ne by (auto simp: chain_append)
    moreover have "0 < item_pts (last ys)"
      using ne rest(1) chain_bounds [OF Cons.prems(2), of "last ys"] Cons.prems(3) by auto
    ultimately have "\<exists>w'' e'. pts_deliver du ds channel order w' = (w'', e') \<and> applied e' = map item_update rest
        \<and> pts_holds (chain_end g us) [] w''"
      using Cons.IH [OF 1(6) rest(2)] Cons.prems(4,5) by simp
    then show ?thesis using 1(1,5) d rest(1) by auto
  next
    case (2 w' e held')
    then have "\<exists>w'' e'. pts_deliver du ds channel order w' = (w'', e') \<and> applied e' = map item_update us
        \<and> pts_holds (chain_end g us) [] w''"
      using Cons.IH [OF 2(5) Cons.prems(2,3,4)] Cons.prems(5,6,7) d by auto
    then show ?thesis using 2(1,4) d by auto
  qed
qed

section \<open>Properties\<close>

text \<open>
  C11. Whatever operations led to a waiter, when it applies what it has kept it hands over exactly the
  kept updates, in the order of their keys, none of them default-constructed, and forgets them; when it is
  not waiting for skipped updates nothing happens.
\<close>

theorem pts_flush_exact:
  fixes channel :: 'c and w :: "('u, 's) pts_waiter"
  assumes "pts_reach du ds channel w"
  shows "applySkippedUpdates du' ds' channel w =
    (if pw_waitingForSkipped w
     then (let w' = w\<lparr>pw_waitingForSkipped := False\<rparr> in
           if pw_queue w = [] then w' else clearSkippedUpdates w',
           (if pw_waitingForShortPoll w then [] else [StartTimer channel (-1)]) @ pts_stored w)
     else (w, []))
    \<and> (\<forall>(k, kind) \<in> set (pw_queue w). case kind of
          SkippedUpdate \<Rightarrow> k \<in> dom (map_of (pw_updateQueue w))
        | SkippedUpdates \<Rightarrow> k \<in> dom (map_of (pw_updatesQueue w)))"
proof
  note ok = pts_reach_ok [OF assms]
  show "applySkippedUpdates du' ds' channel w =
    (if pw_waitingForSkipped w
     then (let w' = w\<lparr>pw_waitingForSkipped := False\<rparr> in
           if pw_queue w = [] then w' else clearSkippedUpdates w',
           (if pw_waitingForShortPoll w then [] else [StartTimer channel (-1)]) @ pts_stored w)
     else (w, []))" by (rule applySkipped_eq [OF ok])
  show "\<forall>(k, kind) \<in> set (pw_queue w). case kind of
          SkippedUpdate \<Rightarrow> k \<in> dom (map_of (pw_updateQueue w))
        | SkippedUpdates \<Rightarrow> k \<in> dom (map_of (pw_updatesQueue w))"
    using ok by (force simp: pts_ok_def dom_map_of_conv_image_fst split: PtsSkippedQueue.splits)
qed

theorem pts_flush_exact_witness:
  "snd (applySkippedUpdates ''?'' () () (fst (updated_update () 12 1 ''b'' (pts_init 10 pts_new))))
    = [StartTimer () (-1), ApplyUpdate ''b'']"
  using pts_flush_exact [of "''?''" "()" "()" "fst (updated_update () 12 1 ''b'' (pts_init 10 pts_new))" "''?''" "()",
      OF reach_updated_update [OF reach_init [OF reach_new]]]
  by (simp add: updated_update_def pts_check_def pts_inited_def pts_init_def pts_new_def Let_def
      clearSkippedUpdates_def setWaitingForSkipped_def kWaitForSkippedTimeout_def ptsKey_def
      flat_map_emplace_def flat_map_insert_def pts_stored_def)

text \<open>
  C10. Updates of one run, delivered in any order to a waiter that is in sync at \<open>g\<close>, are all applied,
  each once and in the order of their \<open>pts\<close>, and the waiter ends in sync at the end of the run with
  nothing kept. (The values of \<open>pts\<close> fit the \<open>int32\<close> of the source.)
\<close>

theorem pts_any_order_applies_in_order:
  fixes w :: "('u, 's) pts_waiter" and channel :: 'c
  assumes "pts_chain g us" "mset order = mset us" "0 < g" "chain_end g us < 2 ^ 31"
    "pw_queue w = []" "pw_updateQueue w = []" "pw_updatesQueue w = []"
    "pw_good w = g" "pw_last w = g" "pw_count w = g" "\<not> pw_requesting w" "pw_applySkippedLevel w = 0"
  shows "applied (snd (pts_deliver du ds channel order w)) = map item_update us
    \<and> pw_good (fst (pts_deliver du ds channel order w)) = chain_end g us
    \<and> pw_queue (fst (pts_deliver du ds channel order w)) = []
    \<and> pw_last (fst (pts_deliver du ds channel order w)) = pw_count (fst (pts_deliver du ds channel order w))"
proof -
  have "pts_holds g [] w" using assms by (simp add: pts_holds_def pts_queued_def)
  moreover have "distinct order" "set us = set order"
    using mset_eq_imp_distinct_iff [OF assms(2)] mset_eq_setD [OF assms(2)]
      by_pts_distinct [OF chain_by_pts [OF assms(1)]] by simp_all
  ultimately obtain w' e where "pts_deliver du ds channel order w = (w', e)" "applied e = map item_update us"
    "pts_holds (chain_end g us) [] w'"
    using deliver_run [of g "[]" w us order du ds channel] assms(1,3,4) by auto
  then show ?thesis by (simp add: pts_holds_def pts_queued_def)
qed

theorem pts_any_order_applies_in_order_witness:
  "applied (snd (pts_deliver ''?'' () () [(14, 1, ''c''), (11, 1, ''a''), (13, 2, ''b'')] (pts_init 10 pts_new)))
    = [''a'', ''b'', ''c'']"
  using pts_any_order_applies_in_order [of 10 "[(11, 1, ''a''), (13, 2, ''b''), (14, 1, ''c'')]"
      "[(14, 1, ''c''), (11, 1, ''a''), (13, 2, ''b'')]" "pts_init 10 pts_new" "''?''" "()" "()"]
  by (simp add: pts_init_def pts_new_def clearSkippedUpdates_def)

text \<open>
  Every call of \<open>updated\<close> falls into one of these cases: while a difference is requested or skipped
  updates are being applied the caller may apply the update and nothing changes; an update already covered
  is refused and nothing changes; a waiter not yet started takes the \<open>pts\<close> as its position; the next
  update is applied and moves the position; any other update that counts is refused, kept under its key and
  a timer starts.
\<close>

theorem pts_updated_cases:
  fixes channel :: 'c and w :: "('u, 's) pts_waiter"
  assumes "pts_ok w"
  shows "(pw_requesting w \<or> pw_applySkippedLevel w \<noteq> 0 \<longrightarrow> updated_update channel pts cnt u w = (w, True, []))
    \<and> (\<not> pw_requesting w \<and> pw_applySkippedLevel w = 0 \<longrightarrow>
       (pts \<le> pw_good w \<and> 0 < cnt \<longrightarrow> updated_update channel pts cnt u w = (w, False, []))
     \<and> (pw_good w \<le> 0 \<and> 0 < pts \<longrightarrow> (case updated_update channel pts cnt u w of
          (w', ok, events) \<Rightarrow> ok \<and> events = [] \<and> pts_inited w' \<and> pw_good w' = pts \<and> pw_queue w' = []))
     \<and> (0 < pw_good w \<and> pw_good w = pw_last w \<and> pw_last w = pw_count w \<and> pts = pw_good w + cnt \<and> 0 \<le> cnt
        \<longrightarrow> updated_update channel pts cnt u w = (w\<lparr>pw_last := pts, pw_count := pts, pw_good := pts\<rparr>, True, []))
     \<and> (0 < pw_good w \<and> pw_good w < pts \<and> 0 < cnt \<and> max (pw_last w) pts \<noteq> pw_count w + cnt
        \<longrightarrow> (case updated_update channel pts cnt u w of (w', ok, events) \<Rightarrow> \<not> ok
            \<and> pw_good w' = pw_good w \<and> pw_waitingForSkipped w'
            \<and> pts_key pts (pw_skippedKey w + 1) \<in> dom (map_of (pw_queue w'))
            \<and> (\<exists>ms. 0 < ms \<and> events = [StartTimer channel ms]))))"
proof -
  have srt: "key_sorted (<) (pw_queue w)" using assms by (simp add: pts_ok_def)
  have key: "pts_key pts (pw_skippedKey w + 1) \<in>
      dom (map_of (fst (flat_map_insert (<) (pts_key pts (pw_skippedKey w + 1), SkippedUpdate) (pw_queue w))))"
    using insert_keys [OF srt] by (simp add: dom_map_of_conv_image_fst)
  show ?thesis
    using key by (auto simp: updated_update_def pts_check_def pts_inited_def pts_init_def Let_def
        clearSkippedUpdates_def setWaitingForSkipped_def kWaitForSkippedTimeout_def ptsKey_eq srt)
qed

theorem pts_updated_cases_witness:
  "updated_update () 10 1 ''old'' (pts_init 10 pts_new :: (string, unit) pts_waiter) = (pts_init 10 pts_new, False, [])"
  using pts_updated_cases [of "pts_init 10 pts_new :: (string, unit) pts_waiter" "()" 10 1 "''old''"]
  by (simp add: pts_ok_def pts_init_def pts_new_def clearSkippedUpdates_def)

end
