(* ===== verification/Bytes.thy ===== *)
theory Bytes
  imports Prelude
begin

text \<open>
  Objects as bytes, for the components that cast between them: 32-bit and 64-bit integers in
  little-endian order, spans (\<open>gsl::span\<close>) and the copies of \<open>lib_base/base/bytes.h\<close>. A span out of range
  is \<open>None\<close>.
\<close>

section \<open>Bytes and ints\<close>

definition word_bytes :: "u32 \<Rightarrow> byte_list" where
  "word_bytes w = [ucast w, ucast (drop_bit 8 w), ucast (drop_bit 16 w), ucast (drop_bit 24 w)]"

definition bytes_word :: "byte_list \<Rightarrow> u32" where
  "bytes_word bs = ucast (bs ! 0) OR push_bit 8 (ucast (bs ! 1)) OR push_bit 16 (ucast (bs ! 2))
     OR push_bit 24 (ucast (bs ! 3))"

definition buffer_bytes :: "u32 list \<Rightarrow> byte_list" where
  "buffer_bytes buffer = concat (map word_bytes buffer)"

fun bytes_ints :: "byte_list \<Rightarrow> u32 list" where
  "bytes_ints (a # b # c # d # rest) = bytes_word [a, b, c, d] # bytes_ints rest"
| "bytes_ints _ = []"

text \<open>\<open>gsl::span::subspan\<close> and \<open>bytes::copy\<close>, with the checks they make.\<close>

definition subspan :: "nat \<Rightarrow> nat \<Rightarrow> 'a list \<Rightarrow> 'a list option" where
  "subspan offset n xs = (if offset + n \<le> length xs then Some (take n (drop offset xs)) else None)"

definition bytes_copy :: "'a list \<Rightarrow> 'a list \<Rightarrow> 'a list option" where
  "bytes_copy destination source =
     (if length source \<le> length destination then Some (source @ drop (length source) destination) else None)"

section \<open>64-bit integers\<close>

definition dword_bytes :: "u64 \<Rightarrow> byte_list" where
  "dword_bytes w = word_bytes (ucast w) @ word_bytes (ucast (drop_bit 32 w))"

definition bytes_dword :: "byte_list \<Rightarrow> u64" where
  "bytes_dword bs = ucast (bytes_word bs) OR push_bit 32 (ucast (bytes_word (drop 4 bs)))"

section \<open>Lemmas\<close>

lemma word_bytes_length [simp]: "length (word_bytes w) = 4"
  by (simp add: word_bytes_def)

lemma bytes_word_word_bytes: "bytes_word (word_bytes w @ rest) = w"
proof (rule bit_word_eqI)
  fix n
  assume "n < LENGTH(32)"
  then consider "n < 8" | "8 \<le> n" "n < 16" | "16 \<le> n" "n < 24" | "24 \<le> n" "n < 32" by fastforce
  then show "bit (bytes_word (word_bytes w @ rest)) n = bit w n"
    by cases (auto simp: bytes_word_def word_bytes_def bit_simps)
qed

lemma buffer_bytes_Cons [simp]: "buffer_bytes (w # ws) = word_bytes w @ buffer_bytes ws"
  and buffer_bytes_Nil [simp]: "buffer_bytes [] = []"
  and buffer_bytes_append [simp]: "buffer_bytes (us @ vs) = buffer_bytes us @ buffer_bytes vs"
  by (simp_all add: buffer_bytes_def)

lemma buffer_bytes_length [simp]: "length (buffer_bytes ws) = 4 * length ws"
  by (induction ws) simp_all

lemma bytes_ints_step: "length w = 4 \<Longrightarrow> bytes_ints (w @ rest) = bytes_word w # bytes_ints rest"
  by (cases w rule: bytes_ints.cases) auto

lemma bytes_ints_buffer: "length tail < 4 \<Longrightarrow> bytes_ints (buffer_bytes ws @ tail) = ws"
proof (induction ws)
  case Nil
  then show ?case by (cases tail rule: bytes_ints.cases) auto
next
  case (Cons w ws)
  then show ?case
    using bytes_word_word_bytes [of w "[]"] by (simp add: bytes_ints_step)
qed

lemma bytes_ints_length: "length (bytes_ints bs) = length bs div 4"
  by (induction bs rule: bytes_ints.induct) auto

lemma subspan_Some [simp]: "subspan i n xs = Some ys \<longleftrightarrow> i + n \<le> length xs \<and> ys = take n (drop i xs)"
  by (auto simp: subspan_def)

lemma bytes_word_append: "4 \<le> length p \<Longrightarrow> bytes_word (p @ q) = bytes_word p"
  by (auto simp: bytes_word_def nth_append)

lemma dword_bytes_length [simp]: "length (dword_bytes w) = 8"
  by (simp add: dword_bytes_def)

lemma bytes_dword_dword_bytes: "bytes_dword (dword_bytes w @ rest) = w"
proof -
  have "bytes_word (dword_bytes w @ rest) = ucast w" "bytes_word (drop 4 (dword_bytes w @ rest)) = ucast (drop_bit 32 w)"
    by (simp_all add: dword_bytes_def bytes_word_word_bytes)
  then have eq: "bytes_dword (dword_bytes w @ rest) = ucast (ucast w :: u32) OR push_bit 32 (ucast (ucast (drop_bit 32 w) :: u32))"
    by (simp add: bytes_dword_def)
  show ?thesis unfolding eq
  proof (rule bit_word_eqI)
    fix n
    assume "n < LENGTH(64)"
    then consider "n < 32" | "32 \<le> n" "n < 64" by fastforce
    then show "bit (ucast (ucast w :: u32) OR push_bit 32 (ucast (ucast (drop_bit 32 w) :: u32)) :: u64) n = bit w n"
      by cases (auto simp: bit_simps)
  qed
qed

lemma word_bytes_eq_iff [simp]: "word_bytes a = word_bytes b \<longleftrightarrow> a = b"
  by (metis append_Nil2 bytes_word_word_bytes)

end
