(* ===== verification/TcpProtocol.thy ===== *)
theory TcpProtocol
  imports Bytes
begin

text \<open>
  \<open>mtproto/connection_tcp.cpp\<close>, first part: the three transport protocols that frame packets on a TCP
  stream. Memory is little-endian, as the casts of the source suppose; a failed \<open>Expects\<close>, \<open>Assert\<close> or a
  span out of range is \<open>None\<close>. Random values and \<open>openssl::Sha256\<close> are arguments.
\<close>

section \<open>The protocols\<close>

datatype protocol = Version0 | Version1 byte_list | VersionD byte_list

definition kPacketSizeMax :: int where "kPacketSizeMax = 0x01000000 * 4"
definition kUnknownSize :: int where "kUnknownSize = -1"
definition kInvalidSize :: int where "kInvalidSize = -2"

definition protocol_Create :: "byte_list \<Rightarrow> protocol option" where
  "protocol_Create secret =
     (if length secret \<ge> 21 \<and> secret ! 0 = 0xEE \<or> length secret = 17 \<and> secret ! 0 = 0xDD
      then map_option VersionD (subspan 1 16 secret)
      else if length secret = 16 then Some (Version1 secret)
      else if secret = [] then Some Version0
      else None)"

definition protocol_id :: "protocol \<Rightarrow> u32" where
  "protocol_id p = (case p of VersionD _ \<Rightarrow> 0xDDDDDDDD | _ \<Rightarrow> 0xEFEFEFEF)"

definition supportsArbitraryLength :: "protocol \<Rightarrow> bool" where
  "supportsArbitraryLength p = (case p of VersionD _ \<Rightarrow> True | _ \<Rightarrow> False)"

definition prepareKey ::
    "(byte_list \<Rightarrow> byte_list) \<Rightarrow> protocol \<Rightarrow> byte_list \<Rightarrow> byte_list \<Rightarrow> byte_list option" where
  "prepareKey sha256 p key source =
     (case p of
        Version0 \<Rightarrow> bytes_copy key source
      | Version1 secret \<Rightarrow> bytes_copy key (sha256 (source @ secret))
      | VersionD secret \<Rightarrow> bytes_copy key (sha256 (source @ secret)))"

text \<open>\<open>finalizePacket\<close> writes into the buffer and returns a span of it: both are results.\<close>

definition v0_finalizePacket :: "u32 list \<Rightarrow> (byte_list \<times> byte_list) option" where
  "v0_finalizePacket buffer =
     (if \<not> (length buffer > 2 \<and> length buffer < 0x1000003) then None
      else let intsSize = of_nat (length buffer - 2) :: u32;
               bytesSize = unat intsSize * 4;
               data = buffer_bytes buffer;
               (data', added) =
                 (if intsSize < 0x7F then (data[7 := ucast intsSize], 1)
                  else (data[4 := 0x7F, 5 := ucast (intsSize AND 0xFF),
                             6 := ucast (drop_bit 8 intsSize AND 0xFF),
                             7 := ucast (drop_bit 16 intsSize AND 0xFF)], 4))
           in map_option (\<lambda>packet. (data', packet)) (subspan (8 - added) (added + bytesSize) data'))"

definition v0_readPacketLength :: "byte_list \<Rightarrow> int" where
  "v0_readPacketLength bs =
     (if bs = [] then kUnknownSize
      else let first = sint (bs ! 0) in
        if first = 0x7F then
          if length bs < 4 then kUnknownSize
          else let ints = ucast (bs ! 1) OR push_bit 8 (ucast (bs ! 2)) OR push_bit 16 (ucast (bs ! 3)) :: u32
               in if ints \<ge> 0x7F then sint (push_bit 2 ints) + 4 else kInvalidSize
        else if first > 0 \<and> first < 0x7F then
          let ints = word_of_int first :: u32 in sint (push_bit 2 ints) + 1
        else kInvalidSize)"

definition v0_readPacket :: "byte_list \<Rightarrow> byte_list option" where
  "v0_readPacket bs =
     (let size = v0_readPacketLength bs in
      if size \<noteq> kUnknownSize \<and> size \<noteq> kInvalidSize \<and> size \<le> int (length bs)
      then let sizeLength = (if sint (bs ! 0) = 0x7F then 4 else 1)
           in subspan sizeLength (nat (size - int sizeLength)) bs
      else None)"

text \<open>The random values of \<open>VersionD::finalizePacket\<close>: the first gives the padding, \<open>fill\<close> the ints pushed.\<close>

function push_padding :: "nat \<Rightarrow> nat \<Rightarrow> (nat \<Rightarrow> u32) \<Rightarrow> u32 list \<Rightarrow> u32 list" where
  "push_padding added padding fill buffer =
     (if added < padding then push_padding (added + 4) padding (\<lambda>i. fill (Suc i)) (buffer @ [fill 0])
      else buffer)"
  by pat_completeness auto
termination
  by (relation "measure (\<lambda>(added, padding, fill, buffer). padding - added)") auto

declare push_padding.simps [simp del]

definition vd_finalizePacket ::
    "u32 \<Rightarrow> (nat \<Rightarrow> u32) \<Rightarrow> u32 list \<Rightarrow> (u32 list \<times> byte_list) option" where
  "vd_finalizePacket random fill buffer =
     (if \<not> (length buffer > 2 \<and> length buffer < 0x1000003) then None
      else let intsSize = of_nat (length buffer - 2) :: u32;
               padding = random AND 0x0F;
               bytesSize = unat intsSize * 4 + unat padding;
               buffer' = push_padding 0 (unat padding) fill (buffer[1 := of_nat bytesSize])
           in map_option (\<lambda>packet. (buffer', packet)) (subspan 4 (4 + bytesSize) (buffer_bytes buffer')))"

definition vd_readPacketLength :: "byte_list \<Rightarrow> int" where
  "vd_readPacketLength bs =
     (if length bs < 4 then kUnknownSize
      else let val = bytes_word bs + 4 in
        if val \<ge> 8 \<and> uint val < kPacketSizeMax then sint val else kInvalidSize)"

definition vd_readPacket :: "byte_list \<Rightarrow> byte_list option" where
  "vd_readPacket bs =
     (let size = vd_readPacketLength bs in
      if size \<noteq> kUnknownSize \<and> size \<noteq> kInvalidSize \<and> size \<le> int (length bs)
      then subspan 4 (nat (size - 4)) bs
      else None)"

definition readPacketLength :: "protocol \<Rightarrow> byte_list \<Rightarrow> int" where
  "readPacketLength p = (case p of VersionD _ \<Rightarrow> vd_readPacketLength | _ \<Rightarrow> v0_readPacketLength)"

definition readPacket :: "protocol \<Rightarrow> byte_list \<Rightarrow> byte_list option" where
  "readPacket p = (case p of VersionD _ \<Rightarrow> vd_readPacket | _ \<Rightarrow> v0_readPacket)"


definition finalizePacket ::
    "protocol \<Rightarrow> u32 \<Rightarrow> (nat \<Rightarrow> u32) \<Rightarrow> u32 list \<Rightarrow> byte_list option" where
  "finalizePacket p random fill buffer =
     (case p of VersionD _ \<Rightarrow> map_option snd (vd_finalizePacket random fill buffer)
      | _ \<Rightarrow> map_option snd (v0_finalizePacket buffer))"

section \<open>Lemmas\<close>

lemma push_padding_append:
  "\<exists>extra. push_padding added padding fill buffer = buffer @ extra
    \<and> padding \<le> added + 4 * length extra \<and> (added < padding \<longrightarrow> 4 * length extra < padding - added + 4)
    \<and> (padding \<le> added \<longrightarrow> extra = [])"
proof (induction added padding fill buffer rule: push_padding.induct)
  case (1 added padding fill buffer)
  show ?case
  proof (cases "added < padding")
    case True
    then obtain extra where "push_padding (added + 4) padding (\<lambda>i. fill (Suc i)) (buffer @ [fill 0]) = (buffer @ [fill 0]) @ extra"
      "padding \<le> added + 4 + 4 * length extra"
      "added + 4 < padding \<longrightarrow> 4 * length extra < padding - (added + 4) + 4"
      "padding \<le> added + 4 \<longrightarrow> extra = []" using 1 by blast
    with True show ?thesis
      by (intro exI [of _ "fill 0 # extra"]) (auto simp: push_padding.simps [of added])
  next
    case False
    then show ?thesis by (simp add: push_padding.simps [of added])
  qed
qed

section \<open>Lengths\<close>

lemma sint_small:
  assumes "uint (w :: u32) < 2 ^ 31"
  shows "sint w = uint w"
proof -
  have "- (2 ^ 31) \<le> uint w" using uint_ge_0 [of w] by (rule order_trans [rotated]) simp
  with assms show ?thesis unfolding sint_uint by (intro signed_take_bit_int_eq_self) simp_all
qed

lemma sint_u8: "sint (w :: u8) = (if uint w < 128 then uint w else uint w - 256)"
proof -
  have "sint w = (uint w + 128) mod 256 - 128"
    by (simp add: sint_uint signed_take_bit_eq_take_bit_shift take_bit_eq_mod)
  moreover have "0 \<le> uint w" "uint w < 256" using uint_lt2p [of w] by simp_all
  ultimately show ?thesis by (auto simp: mod_pos_pos_trivial mod_add_if_z)
qed

lemma v0_length_long:
  assumes "length bs \<ge> 4" "bs ! 0 = 0x7F"
  shows "v0_readPacketLength bs =
    (let n = uint (bs ! 1) + 256 * uint (bs ! 2) + 65536 * uint (bs ! 3)
     in if n \<ge> 0x7F then 4 * n + 4 else kInvalidSize)"
proof -
  let ?a = "ucast (bs ! 1) :: u32" and ?b = "push_bit 8 (ucast (bs ! 2)) :: u32" and ?c = "push_bit 16 (ucast (bs ! 3)) :: u32"
  let ?n = "uint (bs ! 1) + 256 * uint (bs ! 2) + 65536 * uint (bs ! 3)"
  have b: "uint (bs ! 1) < 256" "uint (bs ! 2) < 256" "uint (bs ! 3) < 256"
    using uint_lt2p [of "bs ! 1"] uint_lt2p [of "bs ! 2"] uint_lt2p [of "bs ! 3"] by simp_all
  have "?a OR ?b OR ?c = ?a + (?b + ?c)"
  proof -
    have "?b OR ?c = ?b + ?c"
      by (rule disjunctive_add [symmetric]) (auto simp: bit_simps dest: bit_imp_le_length)
    moreover have "?a OR (?b OR ?c) = ?a + (?b OR ?c)"
      by (rule disjunctive_add [symmetric]) (auto simp: bit_simps dest: bit_imp_le_length)
    ultimately show ?thesis by (simp add: or.assoc)
  qed
  also have "uint \<dots> = ?n"
    using b by (simp add: push_bit_eq_mult uint_word_ariths unsigned_ucast_eq take_bit_eq_mod)
  finally have n: "uint (?a OR ?b OR ?c) = ?n" .
  have "uint (push_bit 2 (?a OR ?b OR ?c)) = 4 * ?n"
    using b n by (simp add: push_bit_eq_mult uint_word_ariths)
  then have s: "sint (push_bit 2 (?a OR ?b OR ?c)) = 4 * ?n"
    using b by (subst sint_small) simp_all
  have t: "sint (0x7F :: u8) = 0x7F" by simp
  have "(0x7F \<le> ?a OR ?b OR ?c) = (0x7F \<le> ?n)"
    unfolding word_le_def n by simp
  then show ?thesis
    using assms s t by (auto simp: v0_readPacketLength_def Let_def)
qed

lemma v0_length_short:
  assumes "bs \<noteq> []" "0 < uint (bs ! 0)" "uint (bs ! 0) < 0x7F"
  shows "v0_readPacketLength bs = 4 * uint (bs ! 0) + 1"
proof -
  have s: "sint (bs ! 0) = uint (bs ! 0)"
    using assms unfolding sint_uint by (intro signed_take_bit_int_eq_self) simp_all
  let ?i = "word_of_int (uint (bs ! 0)) :: u32"
  have "uint (push_bit 2 ?i) = 4 * uint (bs ! 0)"
    using assms by (simp add: push_bit_eq_mult uint_word_ariths unsigned_ucast_eq take_bit_eq_mod)
  then have "sint (push_bit 2 ?i) = 4 * uint (bs ! 0)"
    using assms by (subst sint_small) simp_all
  then show ?thesis
    using assms s by (simp add: v0_readPacketLength_def Let_def)
qed

lemma vd_length:
  assumes "length bs \<ge> 4"
  shows "vd_readPacketLength bs =
    (let n = (uint (bytes_word bs) + 4) mod 2 ^ 32
     in if 8 \<le> n \<and> n < kPacketSizeMax then n else kInvalidSize)"
proof -
  have n: "uint (bytes_word bs + 4) = (uint (bytes_word bs) + 4) mod 2 ^ 32"
    by (simp add: uint_word_ariths)
  have "sint (bytes_word bs + 4) = uint (bytes_word bs + 4)" if "uint (bytes_word bs + 4) < kPacketSizeMax"
    using that by (intro sint_small) (simp add: kPacketSizeMax_def)
  then show ?thesis
    using assms unfolding vd_readPacketLength_def Let_def word_le_def n by auto
qed

lemma v0_length_cases:
  obtains (unknown) "v0_readPacketLength bs = kUnknownSize" "length bs < 4" "bs = [] \<or> bs ! 0 = 0x7F"
  | (invalid) "v0_readPacketLength bs = kInvalidSize" "bs \<noteq> []"
  | (short) "bs \<noteq> []" "0 < uint (bs ! 0)" "uint (bs ! 0) < 0x7F" "v0_readPacketLength bs = 4 * uint (bs ! 0) + 1"
  | (long) n where "4 \<le> length bs" "bs ! 0 = 0x7F" "0x7F \<le> n" "n < 0x1000000" "v0_readPacketLength bs = 4 * n + 4"
proof -
  have "uint (bs ! 0) = uint (0x7F :: u8) \<longleftrightarrow> bs ! 0 = 0x7F" by (rule word_uint_eq_iff [symmetric])
  then have sev: "sint (bs ! 0) = 0x7F \<longleftrightarrow> bs ! 0 = 0x7F" using uint_lt2p [of "bs ! 0"] by (auto simp: sint_u8)
  consider "bs = []" | "bs \<noteq> []" "bs ! 0 = 0x7F" "length bs < 4" | "bs ! 0 = 0x7F" "4 \<le> length bs"
    | "bs \<noteq> []" "0 < uint (bs ! 0)" "uint (bs ! 0) < 0x7F"
    | "bs \<noteq> []" "bs ! 0 \<noteq> 0x7F" "\<not> (0 < uint (bs ! 0) \<and> uint (bs ! 0) < 0x7F)" by linarith
  then show thesis
  proof cases
    case 1
    then show ?thesis by (intro unknown) (simp_all add: v0_readPacketLength_def)
  next
    case 2
    then show ?thesis by (intro unknown) (simp_all add: v0_readPacketLength_def)
  next
    case 3
    let ?n = "uint (bs ! 1) + 256 * uint (bs ! 2) + 65536 * uint (bs ! 3)"
    have "uint (bs ! 1) < 256" "uint (bs ! 2) < 256" "uint (bs ! 3) < 256"
      using uint_lt2p [of "bs ! 1"] uint_lt2p [of "bs ! 2"] uint_lt2p [of "bs ! 3"] by simp_all
    then have "?n < 0x1000000" by linarith
    moreover have "bs \<noteq> []" using 3 by auto
    ultimately show ?thesis
      using 3 v0_length_long [OF 3(2,1)] long [of ?n] invalid by (cases "0x7F \<le> ?n") auto
  next
    case 4
    then show ?thesis using v0_length_short short by blast
  next
    case 5
    then have "\<not> (0 < sint (bs ! 0) \<and> sint (bs ! 0) < 0x7F)"
      using uint_lt2p [of "bs ! 0"] by (auto simp: sint_u8)
    with 5 sev show ?thesis by (intro invalid) (auto simp: v0_readPacketLength_def Let_def)
  qed
qed


section \<open>Framing\<close>

text \<open>What the reader of the stream relies on, whatever the protocol.\<close>

locale packet_framing =
  fixes len :: "byte_list \<Rightarrow> int"
  assumes len_unknown: "len p = kUnknownSize \<Longrightarrow> length p < 4"
    and len_empty: "len [] = kUnknownSize"
    and len_more: "len p \<noteq> kUnknownSize \<Longrightarrow> len (p @ q) = len p"
    and len_range: "len p = kUnknownSize \<or> len p = kInvalidSize \<or> 4 < len p \<and> len p < kPacketSizeMax + 4"
begin

lemma frame_start:
  assumes "len f = int (length f)" "f @ rest = q @ more"
  shows "len q = kUnknownSize \<and> length q < 4 \<or> len q = int (length f)"
proof (cases "len q = kUnknownSize")
  case True
  then show ?thesis using len_unknown by blast
next
  case False
  have "len f \<noteq> kUnknownSize" using assms(1) by (simp add: kUnknownSize_def)
  then have "len (f @ rest) = len f" by (rule len_more)
  then show ?thesis using len_more [OF False, of more] assms by simp
qed

lemma frame_long: "len f = int (length f) \<Longrightarrow> 4 < length f"
  using len_range [of f] by (auto simp: kUnknownSize_def kInvalidSize_def)

end

interpretation v0_framing: packet_framing v0_readPacketLength
proof
  fix p q :: byte_list
  show "v0_readPacketLength [] = kUnknownSize" by (simp add: v0_readPacketLength_def)
  show "v0_readPacketLength p = kUnknownSize \<Longrightarrow> length p < 4"
    by (cases rule: v0_length_cases [of p]) (auto simp: kUnknownSize_def kInvalidSize_def)
  show "v0_readPacketLength p = kUnknownSize \<or> v0_readPacketLength p = kInvalidSize
      \<or> 4 < v0_readPacketLength p \<and> v0_readPacketLength p < kPacketSizeMax + 4"
    by (cases rule: v0_length_cases [of p]) (auto simp: kPacketSizeMax_def)
  assume known: "v0_readPacketLength p \<noteq> kUnknownSize"
  then have ne: "p \<noteq> []" by (auto simp: v0_readPacketLength_def)
  show "v0_readPacketLength (p @ q) = v0_readPacketLength p"
  proof (cases "sint (p ! 0) = 0x7F")
    case True
    then have "4 \<le> length p" using known ne by (simp add: v0_readPacketLength_def split: if_splits)
    then have "(p @ q) ! 0 = p ! 0" "(p @ q) ! 1 = p ! 1" "(p @ q) ! 2 = p ! 2" "(p @ q) ! 3 = p ! 3"
      using ne by (simp_all add: nth_append)
    then show ?thesis using ne \<open>4 \<le> length p\<close> by (simp add: v0_readPacketLength_def Let_def)
  next
    case False
    moreover have "(p @ q) ! 0 = p ! 0" using ne by (simp add: nth_append)
    ultimately show ?thesis using ne by (simp add: v0_readPacketLength_def)
  qed
qed

interpretation vd_framing: packet_framing vd_readPacketLength
proof
  fix p q :: byte_list
  show "vd_readPacketLength [] = kUnknownSize" by (simp add: vd_readPacketLength_def)
  show "vd_readPacketLength p = kUnknownSize \<Longrightarrow> length p < 4"
    using vd_length [of p] by (cases "length p < 4") (auto simp: kUnknownSize_def kInvalidSize_def Let_def split: if_splits)
  show "vd_readPacketLength p = kUnknownSize \<or> vd_readPacketLength p = kInvalidSize
      \<or> 4 < vd_readPacketLength p \<and> vd_readPacketLength p < kPacketSizeMax + 4"
    using vd_length [of p] by (cases "length p < 4") (auto simp: vd_readPacketLength_def Let_def)
  assume "vd_readPacketLength p \<noteq> kUnknownSize"
  then have "4 \<le> length p" by (simp add: vd_readPacketLength_def split: if_splits)
  then show "vd_readPacketLength (p @ q) = vd_readPacketLength p"
    by (simp add: vd_readPacketLength_def bytes_word_append)
qed

interpretation framing: packet_framing "readPacketLength p" for p
  using v0_framing.packet_framing_axioms vd_framing.packet_framing_axioms
  by (cases p) (simp_all add: readPacketLength_def)


section \<open>Round trips\<close>

lemma v0_finalize_eq:
  assumes "length buffer > 2" "length buffer < 0x1000003"
  shows "map_option snd (v0_finalizePacket buffer) =
    Some ((let n = length buffer - 2 in
       if n < 0x7F then [of_nat n]
       else [0x7F, of_nat n, of_nat (n div 256), of_nat (n div 65536)]) @ buffer_bytes (drop 2 buffer))"
proof -
  obtain a b rest where buf: "buffer = a # b # rest" using assms(1)
    by (metis One_nat_def Suc_1 length_Cons less_nat_zero_code list.exhaust list.size(3) not_less_eq)
  obtain a0 a1 a2 a3 b0 b1 b2 b3 where "word_bytes a = [a0, a1, a2, a3]" "word_bytes b = [b0, b1, b2, b3]"
    by (simp add: word_bytes_def)
  then have data: "buffer_bytes buffer = [a0, a1, a2, a3, b0, b1, b2, b3] @ buffer_bytes rest" using buf by simp
  have drp: "drop 2 buffer = rest" using buf by simp
  define n where "n = length rest"
  have n: "length buffer - 2 = n" "n < 0x1000001" using assms buf by (auto simp: n_def)
  have un: "unat (of_nat n :: u32) = n" using n(2) by (simp add: unat_of_nat take_bit_nat_eq_self)
  have small: "(of_nat n :: u32) < 0x7F \<longleftrightarrow> n < 0x7F" using un by (simp add: word_less_nat_alt)
  have b: "ucast (of_nat n AND 0xFF :: u32) = (of_nat n :: u8)"
    "ucast (drop_bit 8 (of_nat n) AND 0xFF :: u32) = (of_nat (n div 256) :: u8)"
    "ucast (drop_bit 16 (of_nat n) AND 0xFF :: u32) = (of_nat (n div 65536) :: u8)"
    "ucast (of_nat n :: u32) = (of_nat n :: u8)"
  proof -
    have m: "(0xFF :: u32) = mask 8" by (simp add: mask_eq_exp_minus_1)
    have low: "ucast (w AND 0xFF) = (ucast w :: u8)" for w :: u32
      unfolding m take_bit_eq_mask [symmetric] by (rule bit_word_eqI) (simp add: bit_simps)
    have shift: "ucast (drop_bit k (of_nat n :: u32)) = (of_nat (n div 2 ^ k) :: u8)" for k
    proof -
      have "unat (drop_bit k (of_nat n :: u32)) = n div 2 ^ k"
        unfolding unat_drop_bit_eq un by (rule drop_bit_eq_div)
      then show ?thesis by (simp add: word_unat_eq_iff unsigned_ucast_eq unat_of_nat take_bit_eq_mod)
    qed
    show "ucast (of_nat n AND 0xFF :: u32) = (of_nat n :: u8)"
      "ucast (drop_bit 8 (of_nat n) AND 0xFF :: u32) = (of_nat (n div 256) :: u8)"
      "ucast (drop_bit 16 (of_nat n) AND 0xFF :: u32) = (of_nat (n div 65536) :: u8)"
      "ucast (of_nat n :: u32) = (of_nat n :: u8)"
      using shift [of 0] shift [of 8] shift [of 16] by (simp_all add: low)
  qed
  show ?thesis
    using assms n un small b data drp
    by (simp add: v0_finalizePacket_def Let_def subspan_def n_def)
qed


lemma v0_read_short:
  assumes "n = length ws" "0 < n" "n < 0x7F"
  shows "v0_readPacketLength (of_nat n # buffer_bytes ws @ rest) = int (4 * n + 1)"
    "v0_readPacket (of_nat n # buffer_bytes ws @ rest) = Some (buffer_bytes ws)"
proof -
  have u: "uint (of_nat n :: u8) = int n" using assms by (simp add: uint_nat unat_of_nat)
  show len: "v0_readPacketLength (of_nat n # buffer_bytes ws @ rest) = int (4 * n + 1)"
    using assms v0_length_short [of "of_nat n # buffer_bytes ws @ rest"] u by simp
  have "sint (of_nat n :: u8) \<noteq> 0x7F" using u assms by (simp add: sint_u8)
  then show "v0_readPacket (of_nat n # buffer_bytes ws @ rest) = Some (buffer_bytes ws)"
    using assms len by (simp add: v0_readPacket_def kUnknownSize_def kInvalidSize_def Let_def)
qed

lemma digits_256:
  fixes n :: nat
  assumes "n < 0x1000000"
  shows "n mod 256 + 256 * (n div 256 mod 256) + 65536 * (n div 65536 mod 256) = n"
proof -
  define q where "q = n div 256"
  have hi: "n div 65536 mod 256 = q div 256"
    using assms by (simp add: q_def div_mult2_eq [symmetric])
  have n: "n = 256 * q + n mod 256" unfolding q_def by (rule mult_div_mod_eq [symmetric])
  have q: "q = 256 * (q div 256) + q mod 256" by (rule mult_div_mod_eq [symmetric])
  have "n mod 256 + 256 * (q mod 256) + 65536 * (q div 256) = n" using n q by linarith
  then show ?thesis unfolding hi q_def .
qed

lemma v0_read_long:
  assumes "0x7F \<le> n" "n < 0x1000000" "n = length ws"
  shows "v0_readPacketLength ([0x7F, of_nat n, of_nat (n div 256), of_nat (n div 65536)] @ buffer_bytes ws @ rest) = int (4 * n + 4)"
    "v0_readPacket ([0x7F, of_nat n, of_nat (n div 256), of_nat (n div 65536)] @ buffer_bytes ws @ rest) = Some (buffer_bytes ws)"
proof -
  let ?p = "[0x7F, of_nat n, of_nat (n div 256), of_nat (n div 65536)] @ buffer_bytes ws @ rest"
  have "uint (?p ! 1) + 256 * uint (?p ! 2) + 65536 * uint (?p ! 3) =
      int (n mod 256 + 256 * (n div 256 mod 256) + 65536 * (n div 65536 mod 256))"
    by (simp add: uint_nat unat_of_nat zmod_int zdiv_int)
  also have "\<dots> = int n" unfolding digits_256 [OF assms(2)] ..
  finally show len: "v0_readPacketLength ?p = int (4 * n + 4)"
    using assms v0_length_long [of ?p] by simp
  have "sint (?p ! 0) = 0x7F" by simp
  then show "v0_readPacket ?p = Some (buffer_bytes ws)"
    using assms(3) unfolding v0_readPacket_def len
    by (simp add: kUnknownSize_def kInvalidSize_def Let_def)
qed

lemma v0_read_overflow:
  "v0_readPacketLength ([0x7F, of_nat 0x1000000, of_nat (0x1000000 div 256), of_nat (0x1000000 div 65536)] @ rest) = kInvalidSize"
  by (subst v0_length_long) (simp_all add: Let_def)


lemma vd_finalize_eq:
  fixes random :: u32
  assumes "length buffer > 2" "length buffer < 0x1000003"
  defines "padding \<equiv> unat (random AND 0x0F)"
  defines "whole \<equiv> 4 * (length buffer - 2) + padding"
  shows "\<exists>extra. map_option snd (vd_finalizePacket random fill buffer) =
      Some (word_bytes (of_nat whole) @ buffer_bytes (drop 2 buffer) @ take padding (buffer_bytes extra))
    \<and> padding \<le> 4 * length extra"
proof -
  obtain a b rest where buf: "buffer = a # b # rest" using assms(1)
    by (metis One_nat_def Suc_1 length_Cons less_nat_zero_code list.exhaust list.size(3) not_less_eq)
  obtain extra where ex: "push_padding 0 padding fill (a # of_nat whole # rest) = (a # of_nat whole # rest) @ extra"
    "padding \<le> 4 * length extra" using push_padding_append [of 0 padding fill "a # of_nat whole # rest"] by auto
  have un: "unat (of_nat (length rest) :: u32) = length rest"
    using assms(2) buf by (simp add: unat_of_nat take_bit_nat_eq_self)
  have "map_option snd (vd_finalizePacket random fill buffer) =
      Some (word_bytes (of_nat whole) @ buffer_bytes rest @ take padding (buffer_bytes extra))"
  proof -
    have w: "unat (of_nat (length buffer - 2) :: u32) * 4 + padding = whole"
      using un buf by (simp add: whole_def)
    have "buffer[1 := of_nat whole] = a # of_nat whole # rest" using buf by simp
    moreover have "whole = 4 * length rest + padding" using buf by (simp add: whole_def)
    ultimately show ?thesis
      using assms(1,2) ex unfolding vd_finalizePacket_def Let_def padding_def [symmetric] w
      by (simp add: subspan_def)
  qed
  then show ?thesis using ex(2) buf by auto
qed


lemma vd_read_length:
  assumes "n < 2 ^ 31"
  shows "vd_readPacketLength (word_bytes (of_nat n) @ rest) =
    (if 4 \<le> n \<and> int n + 4 < kPacketSizeMax then int n + 4 else kInvalidSize)"
proof -
  have "uint (of_nat n :: u32) = int n" using assms by (simp add: uint_nat unat_of_nat take_bit_nat_eq_self)
  then show ?thesis
    using assms by (subst vd_length) (auto simp: bytes_word_word_bytes Let_def)
qed

lemma vd_read:
  assumes "4 \<le> length payload" "int (length payload) + 4 < kPacketSizeMax"
  shows "vd_readPacketLength (word_bytes (of_nat (length payload)) @ payload @ rest) = int (4 + length payload)"
    "vd_readPacket (word_bytes (of_nat (length payload)) @ payload @ rest) = Some payload"
proof -
  show len: "vd_readPacketLength (word_bytes (of_nat (length payload)) @ payload @ rest) = int (4 + length payload)"
    using assms by (subst vd_read_length) (auto simp: kPacketSizeMax_def)
  then show "vd_readPacket (word_bytes (of_nat (length payload)) @ payload @ rest) = Some payload"
    by (simp add: vd_readPacket_def kUnknownSize_def kInvalidSize_def Let_def)
qed

lemma padding_bound: "unat (random AND 0x0F :: u32) \<le> 15"
  using word_and_le1 [of random "0x0F"] by (simp add: word_le_nat_alt)

lemma v0_roundtrip:
  assumes "2 < length buffer" "length buffer < 0x1000002"
  shows "\<exists>packet. map_option snd (v0_finalizePacket buffer) = Some packet
    \<and> (\<forall>rest. v0_readPacketLength (packet @ rest) = int (length packet)
        \<and> v0_readPacket (packet @ rest) = Some (buffer_bytes (drop 2 buffer)))"
proof -
  define ws n where "ws = drop 2 buffer" and "n = length buffer - 2"
  have n: "n = length ws" "0 < n" "n < 0x1000000" using assms by (auto simp: ws_def n_def)
  let ?head = "if n < 0x7F then [of_nat n] else [0x7F, of_nat n, of_nat (n div 256), of_nat (n div 65536)]"
  have fin: "map_option snd (v0_finalizePacket buffer) = Some (?head @ buffer_bytes ws)"
    using v0_finalize_eq [of buffer] assms unfolding Let_def ws_def [symmetric] n_def [symmetric] by simp
  have "v0_readPacketLength ((?head @ buffer_bytes ws) @ rest) = int (length (?head @ buffer_bytes ws))
      \<and> v0_readPacket ((?head @ buffer_bytes ws) @ rest) = Some (buffer_bytes ws)" for rest
    using v0_read_short [OF n(1,2), of rest] v0_read_long [OF _ n(3,1), of rest] n(1) by simp
  with fin show ?thesis unfolding ws_def [symmetric] by blast
qed

section \<open>Properties\<close>

text \<open>
  A packet that \<open>finalizePacket\<close> has framed is read back: whatever follows it on the stream, its
  length is recognised and \<open>readPacket\<close> returns the data of the buffer, followed in \<open>VersionD\<close> by at most
  15 bytes of padding.
\<close>

theorem tcp_packet_roundtrip:
  assumes "2 < length buffer" "4 * int (length buffer) + 11 < kPacketSizeMax"
  shows "\<exists>packet tail. finalizePacket p random fill buffer = Some packet
    \<and> length tail \<le> 15 \<and> (\<not> supportsArbitraryLength p \<longrightarrow> tail = [])
    \<and> (\<forall>rest. readPacketLength p (packet @ rest) = int (length packet)
        \<and> readPacket p (packet @ rest) = Some (buffer_bytes (drop 2 buffer) @ tail))"
proof -
  let ?ws = "drop 2 buffer" and ?n = "length buffer - 2"
  have size: "length buffer < 0x1000002" using assms(2) by (simp add: kPacketSizeMax_def)
  have v0: "\<exists>packet. map_option snd (v0_finalizePacket buffer) = Some packet
    \<and> (\<forall>rest. v0_readPacketLength (packet @ rest) = int (length packet)
        \<and> v0_readPacket (packet @ rest) = Some (buffer_bytes ?ws))"
    by (rule v0_roundtrip) (use assms(1) size in simp_all)
  obtain extra where ex: "map_option snd (vd_finalizePacket random fill buffer) =
      Some (word_bytes (of_nat (4 * ?n + unat (random AND 0x0F))) @ buffer_bytes ?ws
        @ take (unat (random AND 0x0F)) (buffer_bytes extra))" "unat (random AND 0x0F) \<le> 4 * length extra"
    using vd_finalize_eq [of buffer random fill] assms(1) size by auto
  define tail where "tail = take (unat (random AND 0x0F)) (buffer_bytes extra)"
  define payload where "payload = buffer_bytes ?ws @ tail"
  have tail: "length tail = unat (random AND 0x0F)" using ex(2) by (simp add: tail_def)
  then have len: "length payload = 4 * ?n + unat (random AND 0x0F)" by (simp add: payload_def)
  have "4 \<le> length payload" "int (length payload) + 4 < kPacketSizeMax"
    using len padding_bound [of random] assms by linarith+
  note read = vd_read [OF this]
  have vd: "map_option snd (vd_finalizePacket random fill buffer) = Some (word_bytes (of_nat (length payload)) @ payload)"
    using ex(1) unfolding len unfolding payload_def tail_def .
  show ?thesis
  proof (cases p)
    case (VersionD secret)
    show ?thesis
      using vd read tail padding_bound [of random] unfolding VersionD
      by (intro exI [of _ "word_bytes (of_nat (length payload)) @ payload"] exI [of _ tail])
        (simp add: finalizePacket_def readPacketLength_def readPacket_def supportsArbitraryLength_def payload_def)
  qed (use v0 in \<open>auto simp: finalizePacket_def readPacketLength_def readPacket_def supportsArbitraryLength_def\<close>)
qed

theorem tcp_packet_roundtrip_witness:
  "\<exists>packet tail. finalizePacket (VersionD []) 6 (\<lambda>_. 9) [0, 0, 1, 2] = Some packet \<and> length tail \<le> 15
    \<and> readPacket (VersionD []) (packet @ [7]) = Some (buffer_bytes [1, 2] @ tail)"
  using tcp_packet_roundtrip [of "[0, 0, 1, 2]" "VersionD []" 6 "\<lambda>_. 9"]
  by (auto simp: kPacketSizeMax_def)

text \<open>
  C26. Near the largest size \<open>finalizePacket\<close> accepts, it frames packets that the reader refuses: with
  \<open>0x1000000\<close> ints of data the three length bytes of \<open>Version0\<close> are zero, and \<open>VersionD\<close> passes the limit
  of the reader already with one int less.
\<close>

theorem tcp_packet_too_long:
  "(length buffer = 0x1000002 \<longrightarrow> (\<exists>packet. finalizePacket Version0 random fill buffer = Some packet
      \<and> readPacketLength Version0 (packet @ rest) = kInvalidSize))
    \<and> (0x1000001 \<le> length buffer \<and> length buffer \<le> 0x1000002 \<longrightarrow>
      (\<exists>packet. finalizePacket (VersionD secret) random fill buffer = Some packet
        \<and> readPacketLength (VersionD secret) (packet @ rest) = kInvalidSize))"
proof (intro conjI impI)
  assume len: "length buffer = 0x1000002"
  show "\<exists>packet. finalizePacket Version0 random fill buffer = Some packet
      \<and> readPacketLength Version0 (packet @ rest) = kInvalidSize"
    using v0_finalize_eq [of buffer] v0_read_overflow [of "buffer_bytes (drop 2 buffer) @ rest"]
    by (intro exI [of _ "[0x7F, of_nat 0x1000000, of_nat (0x1000000 div 256), of_nat (0x1000000 div 65536)]
          @ buffer_bytes (drop 2 buffer)"])
      (simp add: finalizePacket_def readPacketLength_def len Let_def)
next
  assume len: "0x1000001 \<le> length buffer \<and> length buffer \<le> 0x1000002"
  let ?n = "4 * (length buffer - 2) + unat (random AND 0x0F)"
  obtain extra where "map_option snd (vd_finalizePacket random fill buffer) =
      Some (word_bytes (of_nat ?n) @ buffer_bytes (drop 2 buffer) @ take (unat (random AND 0x0F)) (buffer_bytes extra))"
    using vd_finalize_eq [of buffer random fill] len by auto
  moreover have "?n < 2 ^ 31" "\<not> int ?n + 4 < kPacketSizeMax"
    using len padding_bound [of random] unfolding kPacketSizeMax_def by (auto simp del: of_nat_add of_nat_mult)
  ultimately show "\<exists>packet. finalizePacket (VersionD secret) random fill buffer = Some packet
        \<and> readPacketLength (VersionD secret) (packet @ rest) = kInvalidSize"
    using vd_read_length [of ?n]
    by (intro exI [of _ "word_bytes (of_nat ?n) @ buffer_bytes (drop 2 buffer)
          @ take (unat (random AND 0x0F)) (buffer_bytes extra)"])
      (simp add: finalizePacket_def readPacketLength_def)
qed

theorem tcp_packet_too_long_witness:
  "\<exists>packet. finalizePacket Version0 0 (\<lambda>_. 0) (replicate 0x1000002 1) = Some packet
    \<and> readPacketLength Version0 (packet @ []) = kInvalidSize"
  using tcp_packet_too_long [of "replicate 0x1000002 1" 0 "\<lambda>_. 0" "[]"] by (simp only: length_replicate simp_thms)

end
