(* ===== verification/TcpConnection.thy ===== *)
theory TcpConnection
  imports TcpProtocol
begin

text \<open>
  \<open>mtproto/connection_tcp.cpp\<close>, second part: how bytes read from a socket become packets, and what is sent.
  The socket (\<open>sock\<close>: how much a read returns, \<open>None\<close> for an error), the cipher \<open>CRYPTO_ctr128_encrypt\<close>
  (\<open>ctr128\<close>), the parser of the fake \<open>req_pq\<close> answer and whether the socket is still connected after the
  signals emitted so far (\<open>alive\<close>) are arguments. Spans keep pointing into the buffer they were made
  from when the buffer changes under them, as in the source.
\<close>

datatype tcp_status = Waiting | Ready | Finished

datatype tcp_event = TcpError int | Connected | ReceivedData

record ctr_state =
  ct_ivec :: byte_list
  ct_num :: u32
  ct_ecount :: byte_list

record 'n tcp =
  tc_protocol :: protocol
  tc_connectionStarted :: bool
  tc_offsetBytes :: nat
  tc_readBytes :: nat
  tc_leftBytes :: nat
  tc_smallBuffer :: byte_list
  tc_largeBuffer :: byte_list
  tc_usingLargeBuffer :: bool
  tc_sendKey :: byte_list
  tc_sendState :: ctr_state
  tc_receiveKey :: byte_list
  tc_receiveState :: ctr_state
  tc_protocolDcId :: u16
  tc_status :: tcp_status
  tc_checkNonce :: 'n
  tc_receivedQueue :: "u32 list list"
  tc_events :: "tcp_event list"
  tc_receivedSome :: nat

type_synonym cipher = "byte_list \<Rightarrow> ctr_state \<Rightarrow> byte_list \<Rightarrow> byte_list \<times> ctr_state"

definition kSmallBufferSize :: nat where "kSmallBufferSize = 256 * 1024"
definition kMinPacketBuffer :: nat where "kMinPacketBuffer = 256"
definition kErrorCodeOther :: int where "kErrorCodeOther = -499"

definition aesCtrEncrypt :: "cipher \<Rightarrow> byte_list \<Rightarrow> byte_list \<Rightarrow> ctr_state \<Rightarrow> byte_list \<times> ctr_state" where
  "aesCtrEncrypt ctr128 data key state = ctr128 key state data"

definition tcp_emit :: "tcp_event \<Rightarrow> 'n tcp \<Rightarrow> 'n tcp" where
  "tcp_emit e s = s\<lparr>tc_events := tc_events s @ [e]\<rparr>"

definition tcp_buffer :: "bool \<Rightarrow> 'n tcp \<Rightarrow> byte_list" where
  "tcp_buffer large s = (if large then tc_largeBuffer s else tc_smallBuffer s)"

definition write_at :: "nat \<Rightarrow> 'a list \<Rightarrow> 'a list \<Rightarrow> 'a list" where
  "write_at pos bs xs = take pos xs @ bs @ drop (pos + length bs) xs"

section \<open>Packets\<close>

definition parsePacket :: "protocol \<Rightarrow> byte_list \<Rightarrow> u32 list option" where
  "parsePacket p bs =
     (case readPacket p bs of
        None \<Rightarrow> None
      | Some packet \<Rightarrow>
          let ints = bytes_ints packet in
          if ints = [] then None
          else if length ints < 3 then Some [ints ! 0]
          else Some ints)"

definition socketPacket :: "(u32 list \<Rightarrow> 'n option) \<Rightarrow> byte_list \<Rightarrow> 'n tcp \<Rightarrow> 'n tcp option" where
  "socketPacket readPQFakeReply bs s =
     (case parsePacket (tc_protocol s) bs of
        None \<Rightarrow> None
      | Some data \<Rightarrow>
          if length data = 1 then
            Some (if data ! 0 \<noteq> 0 then tcp_emit (TcpError (sint (data ! 0))) s else s)
          else if tc_status s = Ready then
            Some (tcp_emit ReceivedData (s\<lparr>tc_receivedQueue := tc_receivedQueue s @ [data]\<rparr>))
          else if tc_status s = Waiting then
            (case readPQFakeReply data of
               Some nonce \<Rightarrow>
                 if nonce = tc_checkNonce s then Some (tcp_emit Connected (s\<lparr>tc_status := Ready\<rparr>))
                 else Some (tcp_emit (TcpError kErrorCodeOther) s)
             | None \<Rightarrow> Some (tcp_emit (TcpError kErrorCodeOther) s))
          else Some s)"

section \<open>The receive buffers\<close>

definition ensureAvailableInBuffer :: "nat \<Rightarrow> 'n tcp \<Rightarrow> 'n tcp option" where
  "ensureAvailableInBuffer amount s =
     (let buffer = tcp_buffer (tc_usingLargeBuffer s) s in
      if length buffer < tc_offsetBytes s then None
      else let full = drop (tc_offsetBytes s) buffer in
        if length full \<ge> amount then Some s
        else case subspan 0 (tc_readBytes s) full of
          None \<Rightarrow> None
        | Some read \<Rightarrow>
            if amount \<le> length (tc_smallBuffer s) then
              map_option (\<lambda>small. (if tc_usingLargeBuffer s
                  then s\<lparr>tc_usingLargeBuffer := False, tc_largeBuffer := []\<rparr> else s)
                \<lparr>tc_smallBuffer := small, tc_offsetBytes := 0\<rparr>) (bytes_copy (tc_smallBuffer s) read)
            else if amount \<le> length (tc_largeBuffer s) then
              if \<not> tc_usingLargeBuffer s then None
              else map_option (\<lambda>large. s\<lparr>tc_largeBuffer := large, tc_offsetBytes := 0\<rparr>)
                (bytes_copy (tc_largeBuffer s) read)
            else map_option (\<lambda>enough. s\<lparr>tc_largeBuffer := enough, tc_usingLargeBuffer := True,
                tc_offsetBytes := 0\<rparr>) (bytes_copy (replicate amount 0) read))"

text \<open>
  The loop over the packets that have come; \<open>available\<close> is the span of length \<open>len\<close> at \<open>off\<close> of the
  buffer \<open>large\<close>. The second result tells that \<open>socketRead\<close> returns.
\<close>

function packets_loop ::
    "(tcp_event list \<Rightarrow> bool) \<Rightarrow> (u32 list \<Rightarrow> 'n option) \<Rightarrow> bool \<Rightarrow> nat \<Rightarrow> nat \<Rightarrow> 'n tcp \<Rightarrow> ('n tcp \<times> bool) option" where
  "packets_loop alive readPQ large off len s =
     (if tc_readBytes s = 0 then Some (s, False)
      else case subspan off len (tcp_buffer large s) of
        None \<Rightarrow> None
      | Some available \<Rightarrow>
          let packetSize = readPacketLength (tc_protocol s) available in
          if packetSize = kUnknownSize then Some (s, False)
          else if packetSize \<le> 0 then Some (tcp_emit (TcpError kErrorCodeOther) s, True)
          else if int len \<ge> packetSize then
            (case socketPacket readPQ (take (nat packetSize) available) s of
               None \<Rightarrow> None
             | Some s1 \<Rightarrow>
                 if \<not> alive (tc_events s1) then Some (s1, True)
                 else (case ensureAvailableInBuffer kMinPacketBuffer
                         (s1\<lparr>tc_offsetBytes := tc_offsetBytes s1 + nat packetSize,
                             tc_readBytes := tc_readBytes s1 - nat packetSize\<rparr>) of
                     None \<Rightarrow> None
                   | Some s2 \<Rightarrow>
                       packets_loop alive readPQ large (off + nat packetSize) (len - nat packetSize) s2))
          else
            (case ensureAvailableInBuffer (nat packetSize) (s\<lparr>tc_leftBytes := nat packetSize - len\<rparr>) of
               None \<Rightarrow> None
             | Some s1 \<Rightarrow> Some (s1\<lparr>tc_receivedSome := tc_receivedSome s1 + 1\<rparr>, False)))"
  by pat_completeness auto
termination
  by (relation "measure (\<lambda>(alive, readPQ, large, off, len, s). len)") auto

declare packets_loop.simps [simp del]

text \<open>What follows a successful read of \<open>readCount\<close> bytes that are already in the buffer.\<close>

definition bytes_arrived ::
    "(tcp_event list \<Rightarrow> bool) \<Rightarrow> (u32 list \<Rightarrow> 'n option) \<Rightarrow> nat \<Rightarrow> 'n tcp \<Rightarrow> ('n tcp \<times> bool) option" where
  "bytes_arrived alive readPQ readCount s0 =
     (let s = s0\<lparr>tc_readBytes := tc_readBytes s0 + readCount\<rparr>;
          large = tc_usingLargeBuffer s in
      if tc_leftBytes s > 0 then
        if readCount > tc_leftBytes s then None
        else let s1 = s\<lparr>tc_leftBytes := tc_leftBytes s - readCount\<rparr> in
          if tc_leftBytes s1 = 0 then
            (case subspan (tc_offsetBytes s1) (tc_readBytes s1) (tcp_buffer large s1) of
               None \<Rightarrow> None
             | Some packet \<Rightarrow>
                 (case socketPacket readPQ packet s1 of
                    None \<Rightarrow> None
                  | Some s2 \<Rightarrow>
                      if \<not> alive (tc_events s2) then Some (s2, True)
                      else Some (s2\<lparr>tc_usingLargeBuffer := False, tc_largeBuffer := [],
                                    tc_offsetBytes := 0, tc_readBytes := 0\<rparr>, False)))
          else Some (s1\<lparr>tc_receivedSome := tc_receivedSome s1 + 1\<rparr>, False)
      else packets_loop alive readPQ large (tc_offsetBytes s) (tc_readBytes s) s)"

function read_loop ::
    "(tcp_event list \<Rightarrow> bool) \<Rightarrow> (u32 list \<Rightarrow> 'n option) \<Rightarrow> (nat \<Rightarrow> byte_list \<Rightarrow> byte_list option) \<Rightarrow> cipher
      \<Rightarrow> byte_list \<Rightarrow> 'n tcp \<Rightarrow> 'n tcp option" where
  "read_loop alive readPQ sock ctr128 avail s =
     (let large = tc_usingLargeBuffer s;
          readLimit = (if tc_leftBytes s > 0 then tc_leftBytes s
            else kSmallBufferSize - tc_offsetBytes s - tc_readBytes s)
      in if readLimit = 0 then None
         else if length (tcp_buffer large s) < tc_offsetBytes s + tc_readBytes s + readLimit then None
         else case sock readLimit avail of
           None \<Rightarrow> Some (tcp_emit (TcpError kErrorCodeOther) s)
         | Some bs \<Rightarrow>
             if bs = [] then Some s
             else let (plain, st) = aesCtrEncrypt ctr128 bs (tc_receiveKey s) (tc_receiveState s);
                      buffer = write_at (tc_offsetBytes s + tc_readBytes s) plain (tcp_buffer large s);
                      s1 = (if large then s\<lparr>tc_largeBuffer := buffer\<rparr> else s\<lparr>tc_smallBuffer := buffer\<rparr>)
                        \<lparr>tc_receiveState := st\<rparr>
                  in case bytes_arrived alive readPQ (length bs) s1 of
                       None \<Rightarrow> None
                     | Some (s2, returned) \<Rightarrow>
                         if returned \<or> \<not> alive (tc_events s2) \<or> drop (length bs) avail = [] then Some s2
                         else read_loop alive readPQ sock ctr128 (drop (length bs) avail) s2)"
  by pat_completeness auto
termination
  by (relation "measure (\<lambda>(alive, readPQ, sock, ctr128, avail, s). length avail)") (auto intro!: diff_less)

declare read_loop.simps [simp del]

definition socketRead ::
    "(tcp_event list \<Rightarrow> bool) \<Rightarrow> (u32 list \<Rightarrow> 'n option) \<Rightarrow> (nat \<Rightarrow> byte_list \<Rightarrow> byte_list option) \<Rightarrow> cipher
      \<Rightarrow> byte_list \<Rightarrow> 'n tcp \<Rightarrow> 'n tcp option" where
  "socketRead alive readPQ sock ctr128 avail s =
     (if \<not> (tc_leftBytes s > 0 \<or> \<not> tc_usingLargeBuffer s) then None
      else if \<not> alive (tc_events s) then Some (tcp_emit (TcpError kErrorCodeOther) s)
      else read_loop alive readPQ sock ctr128 avail
        (if tc_smallBuffer s = [] then s\<lparr>tc_smallBuffer := replicate kSmallBufferSize 0\<rparr> else s))"


section \<open>Packets reach \<open>socketPacket\<close>\<close>

text \<open>The part of the state that packets change, and a packet on it.\<close>

definition same_core :: "'n tcp \<Rightarrow> 'n tcp \<Rightarrow> bool" where
  "same_core s t \<longleftrightarrow> tc_protocol s = tc_protocol t \<and> tc_checkNonce s = tc_checkNonce t \<and> tc_status s = tc_status t
     \<and> tc_receivedQueue s = tc_receivedQueue t \<and> tc_events s = tc_events t"

lemma same_core_refl [simp]: "same_core s s"
  by (simp add: same_core_def)

lemma socketPacket_core:
  assumes "same_core s t" "socketPacket readPQ f s = Some s'"
  shows "\<exists>t'. socketPacket readPQ f t = Some t' \<and> same_core s' t'"
  using assms
  by (auto simp: socketPacket_def same_core_def tcp_emit_def split: option.splits if_splits)

text \<open>A packet leaves the buffers alone.\<close>

definition same_buffers :: "'n tcp \<Rightarrow> 'n tcp \<Rightarrow> bool" where
  "same_buffers s t \<longleftrightarrow> tc_protocol s = tc_protocol t \<and> tc_offsetBytes s = tc_offsetBytes t
     \<and> tc_readBytes s = tc_readBytes t \<and> tc_leftBytes s = tc_leftBytes t
     \<and> tc_smallBuffer s = tc_smallBuffer t \<and> tc_largeBuffer s = tc_largeBuffer t
     \<and> tc_usingLargeBuffer s = tc_usingLargeBuffer t
     \<and> tc_receiveKey s = tc_receiveKey t \<and> tc_receiveState s = tc_receiveState t"

lemma socketPacket_buffers: "socketPacket readPQ f s = Some s' \<Longrightarrow> same_buffers s s'"
  by (auto simp: socketPacket_def same_buffers_def tcp_emit_def split: option.splits if_splits)

lemma v0_frame_payload:
  assumes "v0_readPacketLength f = int (length f)"
  shows "\<exists>d. v0_readPacket f = Some d \<and> 4 \<le> length d"
proof (cases rule: v0_length_cases [of f])
  case unknown
  then show ?thesis using assms by (simp add: kUnknownSize_def)
next
  case invalid
  then show ?thesis using assms by (simp add: kInvalidSize_def)
next
  case short
  then have "sint (f ! 0) \<noteq> 0x7F" by (auto simp: sint_u8)
  then show ?thesis
    using short assms by (auto simp: v0_readPacket_def kUnknownSize_def kInvalidSize_def subspan_def Let_def)
next
  case (long n)
  then show ?thesis
    using assms by (auto simp: v0_readPacket_def kUnknownSize_def kInvalidSize_def subspan_def Let_def)
qed

lemma frame_payload:
  assumes "readPacketLength p f = int (length f)"
  shows "\<exists>d. readPacket p f = Some d \<and> 4 \<le> length d"
proof (cases p)
  case (VersionD secret)
  then have len: "vd_readPacketLength f = int (length f)" using assms by (simp add: readPacketLength_def)
  have "8 \<le> length f"
    using len vd_length [of f] by (cases "length f < 4") (auto simp: vd_readPacketLength_def kUnknownSize_def kInvalidSize_def Let_def split: if_splits)
  then show ?thesis
    using len VersionD by (auto simp: readPacket_def vd_readPacket_def kUnknownSize_def kInvalidSize_def subspan_def Let_def)
qed (use assms v0_frame_payload in \<open>auto simp: readPacketLength_def readPacket_def\<close>)

lemma frame_packet:
  assumes "readPacketLength (tc_protocol s) f = int (length f)"
  shows "\<exists>s'. socketPacket readPQ f s = Some s'"
proof -
  obtain d where "readPacket (tc_protocol s) f = Some d" "4 \<le> length d" using frame_payload [OF assms] by blast
  moreover have "bytes_ints d \<noteq> []" using calculation bytes_ints_length [of d] by auto
  ultimately show ?thesis
    by (auto simp: socketPacket_def parsePacket_def Let_def split: option.splits)
qed

section \<open>The stream is cut into its packets\<close>

text \<open>What should happen: the packets, one after the other.\<close>

fun deliver :: "(u32 list \<Rightarrow> 'n option) \<Rightarrow> byte_list list \<Rightarrow> 'n tcp \<Rightarrow> 'n tcp option" where
  "deliver readPQ [] s = Some s"
| "deliver readPQ (f # fs) s = (case socketPacket readPQ f s of None \<Rightarrow> None | Some s1 \<Rightarrow> deliver readPQ fs s1)"

text \<open>The socket stays connected while they are handled.\<close>

fun alive_along ::
    "(tcp_event list \<Rightarrow> bool) \<Rightarrow> (u32 list \<Rightarrow> 'n option) \<Rightarrow> byte_list list \<Rightarrow> 'n tcp \<Rightarrow> bool" where
  "alive_along alive readPQ [] s = alive (tc_events s)"
| "alive_along alive readPQ (f # fs) s = (alive (tc_events s)
     \<and> (case socketPacket readPQ f s of None \<Rightarrow> True | Some s1 \<Rightarrow> alive_along alive readPQ fs s1))"

lemma same_core_trans: "same_core s t \<Longrightarrow> same_core t u \<Longrightarrow> same_core s u"
  and same_core_sym: "same_core s t \<Longrightarrow> same_core t s"
  by (simp_all add: same_core_def)

lemma deliver_core: "same_core s t \<Longrightarrow> deliver readPQ fs s = Some s' \<Longrightarrow> \<exists>t'. deliver readPQ fs t = Some t' \<and> same_core s' t'"
  by (induction fs arbitrary: s t) (auto split: option.splits dest: socketPacket_core)

lemma deliver_append: "deliver readPQ (fs @ gs) s = (case deliver readPQ fs s of None \<Rightarrow> None | Some t \<Rightarrow> deliver readPQ gs t)"
  by (induction fs arbitrary: s) (auto split: option.splits)

lemma alive_along_core: "same_core s t \<Longrightarrow> alive_along alive readPQ fs s \<Longrightarrow> alive_along alive readPQ fs t"
proof (induction fs arbitrary: s t)
  case Nil
  then show ?case by (simp add: same_core_def)
next
  case (Cons f fs)
  have "tc_events s = tc_events t" using Cons.prems by (simp add: same_core_def)
  then show ?case
    using Cons socketPacket_core [OF same_core_sym [OF Cons.prems(1)], of readPQ f]
    by (auto split: option.splits dest: same_core_sym)
qed

lemma alive_along_append:
  "alive_along alive readPQ (fs @ gs) s \<Longrightarrow> deliver readPQ fs s = Some t \<Longrightarrow> alive_along alive readPQ gs t"
  by (induction fs arbitrary: s) (auto split: option.splits)

lemma alive_along_alive: "alive_along alive readPQ fs s \<Longrightarrow> alive (tc_events s)"
  by (cases fs) auto

lemmas buffer_sizes = kSmallBufferSize_def kMinPacketBuffer_def

lemma ensure_small:
  assumes "\<not> tc_usingLargeBuffer s" "tc_largeBuffer s = []" "length (tc_smallBuffer s) = kSmallBufferSize"
    "tc_offsetBytes s + tc_readBytes s \<le> kSmallBufferSize"
    "take (tc_readBytes s) (drop (tc_offsetBytes s) (tc_smallBuffer s)) = c"
    "0 < amount" "amount \<le> kSmallBufferSize \<or> tc_readBytes s \<le> amount"
  shows "ensureAvailableInBuffer amount s = Some
    (if amount \<le> kSmallBufferSize - tc_offsetBytes s then s
     else if amount \<le> kSmallBufferSize then s\<lparr>tc_smallBuffer := c @ drop (tc_readBytes s) (tc_smallBuffer s), tc_offsetBytes := 0\<rparr>
     else s\<lparr>tc_largeBuffer := c @ replicate (amount - tc_readBytes s) 0, tc_usingLargeBuffer := True, tc_offsetBytes := 0\<rparr>)"
proof -
  have len: "length c = tc_readBytes s" using assms(3,4,5) by auto
  then show ?thesis
    using assms by (auto simp: ensureAvailableInBuffer_def tcp_buffer_def subspan_def bytes_copy_def Let_def)
qed

text \<open>
  Between two reads: the bytes \<open>pend\<close> of an unfinished packet are in the buffer in use, which has room
  for what is missing; when nothing is known to be missing, the length is not known yet.
\<close>

definition tcp_inv :: "byte_list \<Rightarrow> 'n tcp \<Rightarrow> bool" where
  "tcp_inv pend s \<longleftrightarrow>
     (let buffer = tcp_buffer (tc_usingLargeBuffer s) s in
      length (tc_smallBuffer s) = kSmallBufferSize
      \<and> (\<not> tc_usingLargeBuffer s \<longrightarrow> tc_largeBuffer s = [])
      \<and> tc_offsetBytes s + tc_readBytes s \<le> length buffer
      \<and> take (tc_readBytes s) (drop (tc_offsetBytes s) buffer) = pend
      \<and> (if tc_leftBytes s = 0
         then \<not> tc_usingLargeBuffer s \<and> tc_offsetBytes s + kMinPacketBuffer \<le> kSmallBufferSize
           \<and> readPacketLength (tc_protocol s) pend = kUnknownSize
         else readPacketLength (tc_protocol s) pend = int (tc_readBytes s + tc_leftBytes s)
           \<and> tc_offsetBytes s + tc_readBytes s + tc_leftBytes s \<le> length buffer))"


text \<open>
  Inside of the loop over packets: the unread bytes \<open>c\<close> are in the buffer, and also where the span
  \<open>available\<close> points, which is another place once the buffer was moved to its start.
\<close>

definition loop_inv :: "nat \<Rightarrow> byte_list \<Rightarrow> 'n tcp \<Rightarrow> bool" where
  "loop_inv off c s \<longleftrightarrow> tc_leftBytes s = 0 \<and> \<not> tc_usingLargeBuffer s \<and> tc_largeBuffer s = []
     \<and> length (tc_smallBuffer s) = kSmallBufferSize
     \<and> tc_offsetBytes s + kMinPacketBuffer \<le> kSmallBufferSize
     \<and> tc_offsetBytes s + tc_readBytes s \<le> kSmallBufferSize \<and> length c = tc_readBytes s
     \<and> take (length c) (drop (tc_offsetBytes s) (tc_smallBuffer s)) = c
     \<and> off + length c \<le> kSmallBufferSize \<and> take (length c) (drop off (tc_smallBuffer s)) = c
     \<and> (off = tc_offsetBytes s \<or> tc_offsetBytes s + tc_readBytes s \<le> kMinPacketBuffer)"

lemma take_drop_tail: "take (length (f @ c)) (drop i xs) = f @ c \<Longrightarrow> take (length c) (drop (i + length f) xs) = c"
  by (metis add.commute add_diff_cancel_left' append_eq_conv_conj drop_drop drop_take length_append)

lemma loop_consume:
  assumes inv: "loop_inv off (f @ c) s" and same: "same_buffers s s1"
  shows "\<exists>s2. ensureAvailableInBuffer kMinPacketBuffer
      (s1\<lparr>tc_offsetBytes := tc_offsetBytes s1 + length f, tc_readBytes := tc_readBytes s1 - length f\<rparr>) = Some s2
    \<and> loop_inv (off + length f) c s2 \<and> same_core s1 s2
    \<and> tc_receiveKey s2 = tc_receiveKey s \<and> tc_receiveState s2 = tc_receiveState s"
proof -
  let ?s = "s1\<lparr>tc_offsetBytes := tc_offsetBytes s1 + length f, tc_readBytes := tc_readBytes s1 - length f\<rparr>"
  let ?small = "tc_smallBuffer s" and ?o = "tc_offsetBytes s + length f"
  have eqs: "tc_offsetBytes ?s = ?o" "tc_readBytes ?s = length c" "tc_smallBuffer ?s = ?small"
    "\<not> tc_usingLargeBuffer ?s" "tc_largeBuffer ?s = []" "tc_leftBytes ?s = 0" "length ?small = kSmallBufferSize"
    "?o + length c \<le> kSmallBufferSize" "off + length f + length c \<le> kSmallBufferSize"
    "off = tc_offsetBytes s \<or> ?o + length c \<le> kMinPacketBuffer"
    using inv same by (auto simp: loop_inv_def same_buffers_def)
  have at: "take (length c) (drop ?o ?small) = c" "take (length c) (drop (off + length f) ?small) = c"
    using inv take_drop_tail by (auto simp: loop_inv_def)
  have ens: "ensureAvailableInBuffer kMinPacketBuffer ?s = Some (if kMinPacketBuffer \<le> kSmallBufferSize - ?o then ?s
      else ?s\<lparr>tc_smallBuffer := c @ drop (length c) ?small, tc_offsetBytes := 0\<rparr>)"
    using ensure_small [of ?s c kMinPacketBuffer] eqs at by (simp add: buffer_sizes)
  show ?thesis
  proof (cases "kMinPacketBuffer \<le> kSmallBufferSize - ?o")
    case True
    then have "loop_inv (off + length f) c ?s"
      using eqs at unfolding loop_inv_def by (auto simp: buffer_sizes)
    with ens True same show ?thesis by (auto simp: same_core_def same_buffers_def)
  next
    case False
    let ?t = "?s\<lparr>tc_smallBuffer := c @ drop (length c) ?small, tc_offsetBytes := 0\<rparr>"
    have c: "length c < kMinPacketBuffer" "off = tc_offsetBytes s" "length c \<le> ?o"
      using False eqs by (auto simp: buffer_sizes)
    have "drop ?o (c @ drop (length c) ?small) = drop ?o ?small" using c(3) by simp
    then have "loop_inv (off + length f) c ?t"
      using eqs at c unfolding loop_inv_def by (auto simp: buffer_sizes)
    with ens False same show ?thesis by (auto simp: same_core_def same_buffers_def)
  qed
qed

lemma loop_wait:
  assumes inv: "loop_inv off c s" and len: "readPacketLength (tc_protocol s) c = int n" "length c < n"
  shows "\<exists>s1. ensureAvailableInBuffer n (s\<lparr>tc_leftBytes := n - length c\<rparr>) = Some s1
    \<and> (\<forall>k. tcp_inv c (s1\<lparr>tc_receivedSome := k\<rparr>)) \<and> same_core s1 s
    \<and> tc_receiveKey s1 = tc_receiveKey s \<and> tc_receiveState s1 = tc_receiveState s"
proof -
  let ?s = "s\<lparr>tc_leftBytes := n - length c\<rparr>" and ?o = "tc_offsetBytes s"
  have f: "\<not> tc_usingLargeBuffer s" "tc_largeBuffer s = []" "length (tc_smallBuffer s) = kSmallBufferSize"
    "?o + length c \<le> kSmallBufferSize" "tc_readBytes s = length c"
    "take (length c) (drop ?o (tc_smallBuffer s)) = c"
    using inv by (auto simp: loop_inv_def)
  have ens: "ensureAvailableInBuffer n ?s = Some
    (if n \<le> kSmallBufferSize - ?o then ?s
     else if n \<le> kSmallBufferSize then ?s\<lparr>tc_smallBuffer := c @ drop (length c) (tc_smallBuffer s), tc_offsetBytes := 0\<rparr>
     else ?s\<lparr>tc_largeBuffer := c @ replicate (n - length c) 0, tc_usingLargeBuffer := True, tc_offsetBytes := 0\<rparr>)"
    using ensure_small [of ?s c n] f len(2) by simp
  show ?thesis
  proof (intro exI conjI allI)
    fix k
    show "tcp_inv c ((if n \<le> kSmallBufferSize - ?o then ?s
     else if n \<le> kSmallBufferSize then ?s\<lparr>tc_smallBuffer := c @ drop (length c) (tc_smallBuffer s), tc_offsetBytes := 0\<rparr>
     else ?s\<lparr>tc_largeBuffer := c @ replicate (n - length c) 0, tc_usingLargeBuffer := True, tc_offsetBytes := 0\<rparr>)
       \<lparr>tc_receivedSome := k\<rparr>)"
      using f len by (auto simp: tcp_inv_def tcp_buffer_def Let_def)
  qed (use ens in \<open>auto simp: same_core_def\<close>)
qed

lemma loop_stop:
  assumes "loop_inv off c s" "readPacketLength (tc_protocol s) c = kUnknownSize"
  shows "tcp_inv c s"
  using assms by (auto simp: loop_inv_def tcp_inv_def tcp_buffer_def Let_def)


definition frames_ok :: "protocol \<Rightarrow> byte_list list \<Rightarrow> bool" where
  "frames_ok p fs \<longleftrightarrow> (\<forall>f \<in> set fs. readPacketLength p f = int (length f))"

lemma deliver_ok: "frames_ok (tc_protocol s) fs \<Longrightarrow> \<exists>t. deliver readPQ fs s = Some t \<and> tc_protocol t = tc_protocol s"
proof (induction fs arbitrary: s)
  case (Cons f fs)
  obtain s1 where "socketPacket readPQ f s = Some s1"
    using frame_packet [of s f readPQ] Cons.prems by (auto simp: frames_ok_def)
  moreover have "tc_protocol s1 = tc_protocol s"
    using socketPacket_buffers [OF calculation] by (simp add: same_buffers_def)
  ultimately show ?case using Cons.IH [of s1] Cons.prems by (auto simp: frames_ok_def)
qed simp

lemma packets_loop_ok:
  assumes "loop_inv off c s" "frames_ok (tc_protocol s) frames" "c @ rest = concat frames"
    "alive_along alive readPQ frames s"
  shows "\<exists>s' fs1 fs2 t pend. packets_loop alive readPQ False off (length c) s = Some (s', False)
    \<and> frames = fs1 @ fs2 \<and> deliver readPQ fs1 s = Some t \<and> same_core s' t
    \<and> tcp_inv pend s' \<and> pend @ rest = concat fs2
    \<and> tc_receiveKey s' = tc_receiveKey s \<and> tc_receiveState s' = tc_receiveState s"
  using assms
proof (induction frames arbitrary: off c s)
  case Nil
  then have "packets_loop alive readPQ False off (length c) s = Some (s, False)"
    by (simp add: packets_loop.simps [of _ _ _ off] loop_inv_def)
  moreover have "tcp_inv [] s" using Nil loop_stop framing.len_empty by fastforce
  ultimately show ?case using Nil.prems by (intro exI [of _ s] exI [of _ "[]"]) auto
next
  case (Cons f fs)
  let ?len = "readPacketLength (tc_protocol s)"
  have f: "?len f = int (length f)" using Cons.prems by (simp add: frames_ok_def)
  have av: "subspan off (length c) (tcp_buffer False s) = Some c"
    using Cons.prems(1) by (auto simp: loop_inv_def tcp_buffer_def)
  have read: "tc_readBytes s = length c" using Cons.prems(1) by (simp add: loop_inv_def)
  note unfold = packets_loop.simps [of alive readPQ False off "length c" s] av
  have stop: ?case if "packets_loop alive readPQ False off (length c) s = Some (s', False)" "tcp_inv c s'" "same_core s' s"
      "tc_receiveKey s' = tc_receiveKey s" "tc_receiveState s' = tc_receiveState s" for s'
    by (intro exI conjI, rule that(1), rule append_Nil [symmetric], rule deliver.simps(1), rule that(3),
        rule that(2), rule Cons.prems(3), rule that(4), rule that(5))
  consider (empty) "c = []" | (unknown) "c \<noteq> []" "?len c = kUnknownSize"
    | (whole) "c \<noteq> []" "?len c = int (length f)" "length f \<le> length c"
    | (part) "c \<noteq> []" "?len c = int (length f)" "length c < length f"
    using framing.frame_start [OF f, of "concat fs" c rest] Cons.prems(3) by fastforce
  then show ?case
  proof cases
    case empty
    then show ?thesis
      using loop_stop [OF Cons.prems(1)] framing.len_empty read
      by (intro stop [of s]) (simp_all add: packets_loop.simps [of _ _ _ off])
  next
    case unknown
    then show ?thesis
      using loop_stop [OF Cons.prems(1)] read by (intro stop [of s]) (simp_all add: unfold)
  next
    case whole
    define c' where "c' = drop (length f) c"
    have "take (length f) (c @ rest) = f" using Cons.prems(3) by simp
    then have c1: "c = f @ c'" using whole(3) append_take_drop_id [of "length f" c] by (simp add: c'_def)
    then have c: "c = f @ c'" "c' @ rest = concat fs" using Cons.prems(3) by simp_all
    obtain s1 where s1: "socketPacket readPQ f s = Some s1" using frame_packet [OF f] by blast
    have alive1: "alive_along alive readPQ fs s1" using Cons.prems(4) s1 by simp
    obtain s2 where s2: "ensureAvailableInBuffer kMinPacketBuffer
        (s1\<lparr>tc_offsetBytes := tc_offsetBytes s1 + length f, tc_readBytes := tc_readBytes s1 - length f\<rparr>) = Some s2"
      "loop_inv (off + length f) c' s2" "same_core s1 s2"
      "tc_receiveKey s2 = tc_receiveKey s" "tc_receiveState s2 = tc_receiveState s"
      using loop_consume [of off f c' s s1] Cons.prems(1) c(1) socketPacket_buffers [OF s1] by auto
    have proto: "tc_protocol s2 = tc_protocol s"
      using s2(3) socketPacket_buffers [OF s1] by (simp add: same_core_def same_buffers_def)
    have step: "packets_loop alive readPQ False off (length c) s =
        packets_loop alive readPQ False (off + length f) (length c') s2"
    proof -
      have "take (length f) c = f" "length c - length f = length c'" "f \<noteq> []"
        using c(1) framing.frame_long [OF f] by auto
      then show ?thesis
        using whole s1 s2(1) alive_along_alive [OF alive1] read by (simp add: unfold kUnknownSize_def)
    qed
    obtain s' fs1 fs2 t pend where ih: "packets_loop alive readPQ False (off + length f) (length c') s2 = Some (s', False)"
      "fs = fs1 @ fs2" "deliver readPQ fs1 s2 = Some t" "same_core s' t" "tcp_inv pend s'" "pend @ rest = concat fs2"
      "tc_receiveKey s' = tc_receiveKey s2" "tc_receiveState s' = tc_receiveState s2"
      using Cons.IH [OF s2(2) _ c(2) alive_along_core [OF s2(3) alive1]] Cons.prems(2) proto
      by (auto simp: frames_ok_def)
    obtain t' where "deliver readPQ fs1 s1 = Some t'" "same_core t t'"
      using deliver_core [OF same_core_sym [OF s2(3)] ih(3)] by blast
    then show ?thesis
      using step ih s1 s2(4,5) same_core_trans
      by (intro exI [of _ s'] exI [of _ "f # fs1"] exI [of _ fs2] exI [of _ t'] exI [of _ pend]) auto
  next
    case part
    obtain s1 where "ensureAvailableInBuffer (length f) (s\<lparr>tc_leftBytes := length f - length c\<rparr>) = Some s1"
      "tcp_inv c (s1\<lparr>tc_receivedSome := tc_receivedSome s1 + 1\<rparr>)" "same_core s1 s"
      "tc_receiveKey s1 = tc_receiveKey s" "tc_receiveState s1 = tc_receiveState s"
      using loop_wait [OF Cons.prems(1) part(2,3)] by blast
    moreover have "f \<noteq> []" using part by auto
    ultimately show ?thesis
      using part read
      by (intro stop [of "s1\<lparr>tc_receivedSome := tc_receivedSome s1 + 1\<rparr>"])
        (simp_all add: unfold kUnknownSize_def same_core_def Let_def)
  qed
qed


definition tcp_written :: "byte_list \<Rightarrow> ctr_state \<Rightarrow> 'n tcp \<Rightarrow> 'n tcp" where
  "tcp_written plain st s =
     (let buffer = write_at (tc_offsetBytes s + tc_readBytes s) plain (tcp_buffer (tc_usingLargeBuffer s) s)
      in (if tc_usingLargeBuffer s then s\<lparr>tc_largeBuffer := buffer\<rparr> else s\<lparr>tc_smallBuffer := buffer\<rparr>)
        \<lparr>tc_receiveState := st\<rparr>)"

definition read_limit :: "'n tcp \<Rightarrow> nat" where
  "read_limit s = (if tc_leftBytes s > 0 then tc_leftBytes s
     else kSmallBufferSize - tc_offsetBytes s - tc_readBytes s)"

lemma write_at_length: "pos + length bs \<le> length xs \<Longrightarrow> length (write_at pos bs xs) = length xs"
  by (simp add: write_at_def)

lemma write_at_content:
  assumes "i + r + length bs \<le> length xs" "take r (drop i xs) = c"
  shows "take (r + length bs) (drop i (write_at (i + r) bs xs)) = c @ bs"
proof -
  have "drop i (write_at (i + r) bs xs) = drop i (take (i + r) xs) @ bs @ drop (i + r + length bs) xs"
    using assms(1) by (simp add: write_at_def)
  also have "drop i (take (i + r) xs) = c" using assms(2) by (simp add: drop_take)
  finally show ?thesis using assms by auto
qed

lemma written_same:
  "same_core (tcp_written plain st s) s"
  "tc_receiveKey (tcp_written plain st s) = tc_receiveKey s"
  "tc_receiveState (tcp_written plain st s) = st"
  "tc_leftBytes (tcp_written plain st s) = tc_leftBytes s"
  "tc_usingLargeBuffer (tcp_written plain st s) = tc_usingLargeBuffer s"
  "tc_offsetBytes (tcp_written plain st s) = tc_offsetBytes s"
  "tc_readBytes (tcp_written plain st s) = tc_readBytes s"
  by (simp_all add: tcp_written_def same_core_def Let_def)

lemma written_buffer:
  "tcp_buffer (tc_usingLargeBuffer s) (tcp_written plain st s) =
    write_at (tc_offsetBytes s + tc_readBytes s) plain (tcp_buffer (tc_usingLargeBuffer s) s)"
  "tc_usingLargeBuffer s \<Longrightarrow> tc_smallBuffer (tcp_written plain st s) = tc_smallBuffer s"
  "\<not> tc_usingLargeBuffer s \<Longrightarrow> tc_largeBuffer (tcp_written plain st s) = tc_largeBuffer s"
  by (simp_all add: tcp_written_def tcp_buffer_def Let_def)

lemma inv_room:
  assumes "tcp_inv pend s"
  shows "0 < read_limit s"
    "tc_offsetBytes s + tc_readBytes s + read_limit s \<le> length (tcp_buffer (tc_usingLargeBuffer s) s)"
    "length pend = tc_readBytes s"
proof -
  show pend: "length pend = tc_readBytes s" using assms by (auto simp: tcp_inv_def Let_def)
  have short: "tc_leftBytes s = 0 \<Longrightarrow> length pend < 4"
    using assms framing.len_unknown by (auto simp: tcp_inv_def Let_def)
  show "0 < read_limit s"
    using assms pend short by (auto simp: read_limit_def tcp_inv_def Let_def buffer_sizes)
  show "tc_offsetBytes s + tc_readBytes s + read_limit s \<le> length (tcp_buffer (tc_usingLargeBuffer s) s)"
    using assms by (auto simp: read_limit_def tcp_inv_def Let_def tcp_buffer_def split: if_splits)
qed

lemma arrived_header:
  assumes inv: "tcp_inv pend s" "tc_leftBytes s = 0" and plain: "length plain \<le> read_limit s"
    and fr: "frames_ok (tc_protocol s) frames" "pend @ plain @ rest = concat frames" "alive_along alive readPQ frames s"
  shows "\<exists>s' fs1 fs2 t pend'. bytes_arrived alive readPQ (length plain) (tcp_written plain st s) = Some (s', False)
    \<and> frames = fs1 @ fs2 \<and> deliver readPQ fs1 s = Some t \<and> same_core s' t \<and> tcp_inv pend' s'
    \<and> pend' @ rest = concat fs2 \<and> tc_receiveKey s' = tc_receiveKey s \<and> tc_receiveState s' = st"
proof -
  let ?o = "tc_offsetBytes s" and ?r = "tc_readBytes s"
  let ?w = "(tcp_written plain st s)\<lparr>tc_readBytes := ?r + length plain\<rparr>"
  have small: "\<not> tc_usingLargeBuffer s" "tc_largeBuffer s = []" "length (tc_smallBuffer s) = kSmallBufferSize"
    "?o + kMinPacketBuffer \<le> kSmallBufferSize" "take ?r (drop ?o (tc_smallBuffer s)) = pend" "length pend = ?r"
    using inv inv_room(3) [OF inv(1)] by (auto simp: tcp_inv_def tcp_buffer_def Let_def)
  have room: "?o + ?r + length plain \<le> kSmallBufferSize"
    using inv_room(2) [OF inv(1)] plain small by (simp add: tcp_buffer_def)
  have buf: "tc_smallBuffer ?w = write_at (?o + ?r) plain (tc_smallBuffer s)"
    using small by (simp add: tcp_written_def tcp_buffer_def)
  have "take (?r + length plain) (drop ?o (write_at (?o + ?r) plain (tc_smallBuffer s))) = pend @ plain"
    using write_at_content [OF _ small(5), of plain] room small by simp
  then have linv: "loop_inv ?o (pend @ plain) ?w"
    using small room inv(2) buf
    by (auto simp: loop_inv_def written_same written_buffer write_at_length)
  have core: "same_core s ?w" using written_same(1) [of plain st s] by (simp add: same_core_def)
  obtain s' fs1 fs2 t pend' where
    "packets_loop alive readPQ False ?o (length (pend @ plain)) ?w = Some (s', False)"
    "frames = fs1 @ fs2" "deliver readPQ fs1 ?w = Some t" "same_core s' t" "tcp_inv pend' s'"
    "pend' @ rest = concat fs2" "tc_receiveKey s' = tc_receiveKey ?w" "tc_receiveState s' = tc_receiveState ?w"
    using packets_loop_ok [OF linv, of frames rest alive readPQ] fr alive_along_core [OF core] core
    by (auto simp: same_core_def)
  moreover obtain t' where "deliver readPQ fs1 s = Some t'" "same_core t t'"
    using deliver_core [OF same_core_sym [OF core]] calculation(3) by blast
  moreover have "bytes_arrived alive readPQ (length plain) (tcp_written plain st s)
      = packets_loop alive readPQ False ?o (length (pend @ plain)) ?w"
    using inv(2) small by (simp add: bytes_arrived_def Let_def written_same)
  ultimately show ?thesis
    using same_core_trans written_same(2,3) by (auto intro!: exI)
qed


lemma arrived_rest:
  assumes inv: "tcp_inv pend s" "0 < tc_leftBytes s" and plain: "0 < length plain" "length plain \<le> read_limit s"
    and fr: "frames_ok (tc_protocol s) frames" "pend @ plain @ rest = concat frames" "alive_along alive readPQ frames s"
  shows "\<exists>s' fs1 fs2 t pend'. bytes_arrived alive readPQ (length plain) (tcp_written plain st s) = Some (s', False)
    \<and> frames = fs1 @ fs2 \<and> deliver readPQ fs1 s = Some t \<and> same_core s' t \<and> tcp_inv pend' s'
    \<and> pend' @ rest = concat fs2 \<and> tc_receiveKey s' = tc_receiveKey s \<and> tc_receiveState s' = st"
proof -
  let ?o = "tc_offsetBytes s" and ?r = "tc_readBytes s" and ?l = "tc_leftBytes s" and ?n = "length plain"
  let ?buffer = "tcp_buffer (tc_usingLargeBuffer s) s"
  let ?w = "tcp_written plain st s"
  obtain f fs where frames: "frames = f # fs" using fr(2) plain(1) by (cases frames) auto
  have f: "readPacketLength (tc_protocol s) f = int (length f)" using fr(1) frames by (simp add: frames_ok_def)
  have lim: "?n \<le> ?l" "?o + ?r + ?l \<le> length ?buffer"
    using plain(2) inv(2) inv_room(2) [OF inv(1)] by (auto simp: read_limit_def)
  have pend: "readPacketLength (tc_protocol s) pend = int (?r + ?l)" "length pend = ?r"
    "take ?r (drop ?o ?buffer) = pend" "length (tc_smallBuffer s) = kSmallBufferSize"
    using inv inv_room(3) [OF inv(1)] by (auto simp: tcp_inv_def Let_def)
  have flen: "length f = ?r + ?l"
    using framing.frame_start [OF f, of "concat fs" pend "plain @ rest"] fr(2) frames pend(1)
    by (auto simp: kUnknownSize_def)
  have content: "take (?r + ?n) (drop ?o (write_at (?o + ?r) plain ?buffer)) = pend @ plain"
    using write_at_content [OF _ pend(3), of plain] lim by simp
  have wlen: "length (write_at (?o + ?r) plain ?buffer) = length ?buffer"
    using lim by (intro write_at_length) simp
  have small: "length (tc_smallBuffer ?w) = kSmallBufferSize"
    using pend(4) wlen written_buffer(2) [of s plain st] by (cases "tc_usingLargeBuffer s") (auto simp: tcp_written_def tcp_buffer_def)
  show ?thesis
  proof (cases "?n = ?l")
    case True
    let ?s1 = "?w\<lparr>tc_readBytes := ?r + ?n, tc_leftBytes := 0\<rparr>"
    have "take (length f) (pend @ plain @ rest) = f" using fr(2) frames by simp
    then have whole: "pend @ plain = f" using True flen pend(2) by simp
    have core: "same_core s ?s1" using written_same(1) [of plain st s] by (simp add: same_core_def)
    obtain t where t: "socketPacket readPQ f s = Some t" using frame_packet [OF f] by blast
    obtain s2 where s2: "socketPacket readPQ f ?s1 = Some s2" "same_core t s2" using socketPacket_core [OF core t] by blast
    have buf: "same_buffers ?s1 s2" by (rule socketPacket_buffers [OF s2(1)])
    have "alive (tc_events t)" using fr(3) frames t alive_along_alive by auto
    then have "alive (tc_events s2)" using s2(2) by (simp add: same_core_def)
    moreover have "subspan ?o (?r + ?n) (write_at (?o + ?r) plain ?buffer) = Some f"
      using content whole wlen lim by simp
    moreover have "tcp_buffer (tc_usingLargeBuffer s) ?s1 = write_at (?o + ?r) plain ?buffer"
      using written_buffer(1) [of s plain st] by (auto simp: tcp_buffer_def)
    ultimately have arr: "bytes_arrived alive readPQ ?n ?w = Some (s2\<lparr>tc_usingLargeBuffer := False, tc_largeBuffer := [],
        tc_offsetBytes := 0, tc_readBytes := 0\<rparr>, False)"
      using inv(2) True s2(1) by (simp add: bytes_arrived_def Let_def written_same del: subspan_Some)
    show ?thesis
    proof (intro exI conjI)
      show "bytes_arrived alive readPQ ?n ?w = Some (s2\<lparr>tc_usingLargeBuffer := False, tc_largeBuffer := [],
        tc_offsetBytes := 0, tc_readBytes := 0\<rparr>, False)" by (rule arr)
      show "frames = [f] @ fs" using frames by simp
      show "deliver readPQ [f] s = Some t" using t by simp
      show "[] @ rest = concat fs" using fr(2) frames whole by auto
    qed (use s2(2) buf small framing.len_empty in
        \<open>auto simp: same_core_def same_buffers_def tcp_inv_def tcp_buffer_def buffer_sizes written_same\<close>)
  next
    case False
    let ?s1 = "?w\<lparr>tc_readBytes := ?r + ?n, tc_leftBytes := ?l - ?n, tc_receivedSome := tc_receivedSome ?w + 1\<rparr>"
    have "readPacketLength (tc_protocol s) (pend @ plain) = int (?r + ?l)"
      using framing.len_more [of "tc_protocol s" pend plain] pend(1) by (simp add: kUnknownSize_def)
    moreover have bw: "tcp_buffer (tc_usingLargeBuffer ?s1) ?s1 = write_at (?o + ?r) plain ?buffer"
      using written_buffer(1) [of s plain st] by (auto simp: tcp_buffer_def written_same)
    moreover have "tc_protocol ?s1 = tc_protocol s" "\<not> tc_usingLargeBuffer s \<Longrightarrow> tc_largeBuffer ?s1 = []"
      using written_same(1) [of plain st s] written_buffer(3) [of s plain st] inv(1)
      by (simp_all add: same_core_def tcp_inv_def Let_def)
    moreover have "?l - ?n \<noteq> 0" "?r + ?n + (?l - ?n) = ?r + ?l" using lim False by auto
    ultimately have "tcp_inv (pend @ plain) ?s1"
      using content wlen small lim unfolding tcp_inv_def Let_def bw by (simp add: written_same)
    moreover have "bytes_arrived alive readPQ ?n ?w = Some (?s1, False)"
      using inv(2) False lim by (simp add: bytes_arrived_def Let_def written_same)
    moreover have "same_core ?s1 s" using written_same(1) [of plain st s] by (simp add: same_core_def)
    ultimately show ?thesis
      using fr(2) written_same(2,3) [of plain st s]
      by (intro exI [of _ ?s1] exI [of _ "[] :: byte_list list"] exI [of _ frames] exI [of _ s] exI [of _ "pend @ plain"]) auto
  qed
qed


text \<open>What the code relies on: a read of a socket that has bytes returns some of them, and the cipher works byte by byte.\<close>

definition socket_reads :: "(nat \<Rightarrow> byte_list \<Rightarrow> byte_list option) \<Rightarrow> bool" where
  "socket_reads sock \<longleftrightarrow> (\<forall>n avail. 0 < n \<and> avail \<noteq> [] \<longrightarrow> (\<exists>k. 0 < k \<and> k \<le> n \<and> sock n avail = Some (take k avail)))"

definition stream_cipher :: "cipher \<Rightarrow> bool" where
  "stream_cipher ctr128 \<longleftrightarrow> (\<forall>key st xs ys. length (fst (ctr128 key st xs)) = length xs
     \<and> ctr128 key st (xs @ ys) = (let (xs', st1) = ctr128 key st xs; (ys', st2) = ctr128 key st1 ys in (xs' @ ys', st2)))"

lemma read_loop_eq:
  "read_loop alive readPQ sock ctr128 avail s =
     (if read_limit s = 0 then None
      else if length (tcp_buffer (tc_usingLargeBuffer s) s) < tc_offsetBytes s + tc_readBytes s + read_limit s then None
      else case sock (read_limit s) avail of
        None \<Rightarrow> Some (tcp_emit (TcpError kErrorCodeOther) s)
      | Some bs \<Rightarrow>
          if bs = [] then Some s
          else case ctr128 (tc_receiveKey s) (tc_receiveState s) bs of (plain, st) \<Rightarrow>
            (case bytes_arrived alive readPQ (length bs) (tcp_written plain st s) of
               None \<Rightarrow> None
             | Some (s2, returned) \<Rightarrow>
                 if returned \<or> \<not> alive (tc_events s2) \<or> drop (length bs) avail = [] then Some s2
                 else read_loop alive readPQ sock ctr128 (drop (length bs) avail) s2))"
  unfolding read_loop.simps [of alive readPQ sock ctr128 avail s] Let_def read_limit_def aesCtrEncrypt_def tcp_written_def
  by (rule refl)

lemma read_loop_ok:
  assumes sock: "socket_reads sock" and ctr: "stream_cipher ctr128"
    and "tcp_inv pend s" "avail \<noteq> []" "frames_ok (tc_protocol s) frames"
    "pend @ fst (ctr128 (tc_receiveKey s) (tc_receiveState s) avail) @ rest = concat frames"
    "alive_along alive readPQ frames s"
  shows "\<exists>s' fs1 fs2 t pend'. read_loop alive readPQ sock ctr128 avail s = Some s'
    \<and> frames = fs1 @ fs2 \<and> deliver readPQ fs1 s = Some t \<and> same_core s' t \<and> tcp_inv pend' s'
    \<and> pend' @ rest = concat fs2 \<and> tc_receiveKey s' = tc_receiveKey s
    \<and> tc_receiveState s' = snd (ctr128 (tc_receiveKey s) (tc_receiveState s) avail)"
  using assms(3-)
proof (induction "length avail" arbitrary: avail s pend frames rule: less_induct)
  case less
  let ?key = "tc_receiveKey s"
  have room: "0 < read_limit s" "\<not> length (tcp_buffer (tc_usingLargeBuffer s) s) < tc_offsetBytes s + tc_readBytes s + read_limit s"
    using inv_room [OF less.prems(1)] by auto
  obtain k where k: "0 < k" "k \<le> read_limit s" "sock (read_limit s) avail = Some (take k avail)"
    using sock room(1) less.prems(2) by (auto simp: socket_reads_def)
  define bs where "bs = take k avail"
  define later where "later = drop (length bs) avail"
  have avail: "avail = bs @ later" "bs \<noteq> []" "length bs \<le> read_limit s"
    using k less.prems(2) by (cases "k \<le> length avail"; auto simp: bs_def later_def)+
  obtain plain st where pl: "ctr128 ?key (tc_receiveState s) bs = (plain, st)" by (cases "ctr128 ?key (tc_receiveState s) bs")
  obtain plain2 st2 where pl2: "ctr128 ?key st later = (plain2, st2)" by (cases "ctr128 ?key st later")
  have all: "ctr128 ?key (tc_receiveState s) avail = (plain @ plain2, st2)"
    using ctr pl pl2 unfolding avail(1) stream_cipher_def by (simp add: Let_def)
  have len: "length plain = length bs" using ctr pl unfolding stream_cipher_def by (metis fst_conv)
  have stream: "pend @ plain @ (plain2 @ rest) = concat frames" using less.prems(4) all by simp
  have "\<exists>s' fs1 fs2 t pend'. bytes_arrived alive readPQ (length plain) (tcp_written plain st s) = Some (s', False)
    \<and> frames = fs1 @ fs2 \<and> deliver readPQ fs1 s = Some t \<and> same_core s' t \<and> tcp_inv pend' s'
    \<and> pend' @ plain2 @ rest = concat fs2 \<and> tc_receiveKey s' = ?key \<and> tc_receiveState s' = st"
    using arrived_header [OF less.prems(1) _ _ less.prems(3) stream less.prems(5)]
      arrived_rest [OF less.prems(1) _ _ _ less.prems(3) stream less.prems(5)] avail len
    by (cases "tc_leftBytes s = 0") auto
  then obtain s1 fs1 fs2 t pend' where a: "bytes_arrived alive readPQ (length bs) (tcp_written plain st s) = Some (s1, False)"
    "frames = fs1 @ fs2" "deliver readPQ fs1 s = Some t" "same_core s1 t" "tcp_inv pend' s1"
    "pend' @ plain2 @ rest = concat fs2" "tc_receiveKey s1 = ?key" "tc_receiveState s1 = st"
    using len by auto
  have alive2: "alive_along alive readPQ fs2 s1"
    using alive_along_append [of alive readPQ fs1 fs2 s t] less.prems(5) a(2,3) alive_along_core [OF same_core_sym [OF a(4)]]
    by blast
  have step: "read_loop alive readPQ sock ctr128 avail s =
      (if later = [] then Some s1 else read_loop alive readPQ sock ctr128 later s1)"
    using room k(3) avail(2) pl a(1) alive_along_alive [OF alive2]
    unfolding read_loop_eq [of _ _ _ _ avail] bs_def [symmetric] by (simp add: later_def)
  show ?case
  proof (cases "later = []")
    case True
    then have "plain2 = []" "st2 = st" using all pl avail(1) by auto
    then show ?thesis using step True a all by (intro exI) auto
  next
    case False
    have "length later < length avail" using avail by simp
    moreover have "frames_ok (tc_protocol s1) fs2"
      using less.prems(3) a(2,3,4) deliver_ok [of s fs1 readPQ] by (auto simp: frames_ok_def same_core_def)
    ultimately obtain s' gs1 gs2 t' pend'' where "read_loop alive readPQ sock ctr128 later s1 = Some s'"
      "fs2 = gs1 @ gs2" "deliver readPQ gs1 s1 = Some t'" "same_core s' t'" "tcp_inv pend'' s'"
      "pend'' @ rest = concat gs2" "tc_receiveKey s' = ?key" "tc_receiveState s' = st2"
      using less.hyps [OF _ a(5) False _ _ alive2] a(6,7,8) pl2 by auto
    moreover obtain t2 where "deliver readPQ gs1 t = Some t2" "same_core t' t2"
      using deliver_core [OF a(4)] calculation(3) by blast
    ultimately show ?thesis
      using step False a(2,3) all same_core_trans
      by (intro exI [of _ s'] exI [of _ "fs1 @ gs1"] exI [of _ gs2] exI [of _ t2] exI [of _ pend''])
        (auto simp: deliver_append)
  qed
qed

fun tcp_feed ::
    "(tcp_event list \<Rightarrow> bool) \<Rightarrow> (u32 list \<Rightarrow> 'n option) \<Rightarrow> (nat \<Rightarrow> byte_list \<Rightarrow> byte_list option) \<Rightarrow> cipher
      \<Rightarrow> byte_list list \<Rightarrow> 'n tcp \<Rightarrow> 'n tcp option" where
  "tcp_feed alive readPQ sock ctr128 [] s = Some s"
| "tcp_feed alive readPQ sock ctr128 (chunk # chunks) s =
     (case socketRead alive readPQ sock ctr128 chunk s of
        None \<Rightarrow> None | Some s1 \<Rightarrow> tcp_feed alive readPQ sock ctr128 chunks s1)"

lemma socketRead_inv:
  assumes "tcp_inv pend s" "alive (tc_events s)"
  shows "socketRead alive readPQ sock ctr128 avail s = read_loop alive readPQ sock ctr128 avail s"
  using assms by (auto simp: socketRead_def tcp_inv_def Let_def buffer_sizes split: if_splits)

lemma inv_complete:
  assumes inv: "tcp_inv (concat frames) s" and ok: "frames_ok (tc_protocol s) frames"
  shows "frames = [] \<and> tc_readBytes s = 0 \<and> tc_leftBytes s = 0"
proof -
  have len: "length (concat frames) = tc_readBytes s" by (rule inv_room(3) [OF inv])
  have "frames = []"
  proof (rule ccontr)
    assume "frames \<noteq> []"
    then obtain f fs where frames: "frames = f # fs" by (cases frames) auto
    have f: "readPacketLength (tc_protocol s) f = int (length f)" using ok frames by (simp add: frames_ok_def)
    then have "readPacketLength (tc_protocol s) (concat frames) = int (length f)"
      using framing.len_more [of "tc_protocol s" f "concat fs"] frames by (simp add: kUnknownSize_def)
    with inv len frames show False by (auto simp: tcp_inv_def Let_def kUnknownSize_def split: if_splits)
  qed
  moreover have "tc_leftBytes s = 0"
    using inv calculation framing.len_empty by (auto simp: tcp_inv_def Let_def kUnknownSize_def split: if_splits)
  ultimately show ?thesis using len by simp
qed

lemma feed_ok:
  assumes sock: "socket_reads sock" and ctr: "stream_cipher ctr128"
    and "tcp_inv pend s" "[] \<notin> set chunks" "frames_ok (tc_protocol s) frames"
    "pend @ fst (ctr128 (tc_receiveKey s) (tc_receiveState s) (concat chunks)) = concat frames"
    "alive_along alive readPQ frames s"
  shows "\<exists>s' t. tcp_feed alive readPQ sock ctr128 chunks s = Some s' \<and> deliver readPQ frames s = Some t
    \<and> same_core s' t \<and> tc_readBytes s' = 0 \<and> tc_leftBytes s' = 0"
  using assms(3-)
proof (induction chunks arbitrary: s pend frames)
  case Nil
  have "length (fst (ctr128 (tc_receiveKey s) (tc_receiveState s) [])) = length ([] :: byte_list)"
    using ctr unfolding stream_cipher_def by blast
  then show ?case using Nil inv_complete [of frames s] by simp
next
  case (Cons chunk chunks)
  let ?key = "tc_receiveKey s"
  obtain p1 st1 where p1: "ctr128 ?key (tc_receiveState s) chunk = (p1, st1)" by (cases "ctr128 ?key (tc_receiveState s) chunk")
  obtain p2 st2 where p2: "ctr128 ?key st1 (concat chunks) = (p2, st2)" by (cases "ctr128 ?key st1 (concat chunks)")
  have "fst (ctr128 ?key (tc_receiveState s) (concat (chunk # chunks))) = p1 @ p2"
    using ctr p1 p2 unfolding stream_cipher_def by (simp add: Let_def)
  then have stream: "pend @ fst (ctr128 ?key (tc_receiveState s) chunk) @ p2 = concat frames" using Cons.prems(4) p1 by simp
  obtain s1 fs1 fs2 t pend' where r: "read_loop alive readPQ sock ctr128 chunk s = Some s1"
    "frames = fs1 @ fs2" "deliver readPQ fs1 s = Some t" "same_core s1 t" "tcp_inv pend' s1" "pend' @ p2 = concat fs2"
    "tc_receiveKey s1 = ?key" "tc_receiveState s1 = st1"
    using read_loop_ok [OF sock ctr Cons.prems(1) _ Cons.prems(3) stream Cons.prems(5)] Cons.prems(2) p1 by auto
  have read: "socketRead alive readPQ sock ctr128 chunk s = Some s1"
    using socketRead_inv [OF Cons.prems(1)] alive_along_alive [OF Cons.prems(5)] r(1) by simp
  have alive: "alive_along alive readPQ fs2 s1"
    using alive_along_append [of alive readPQ fs1 fs2 s t] Cons.prems(5) r(2,3) alive_along_core [OF same_core_sym [OF r(4)]]
    by blast
  have "frames_ok (tc_protocol s1) fs2"
    using Cons.prems(3) r(2,3,4) deliver_ok [of s fs1 readPQ] by (auto simp: frames_ok_def same_core_def)
  then obtain s' t' where "tcp_feed alive readPQ sock ctr128 chunks s1 = Some s'" "deliver readPQ fs2 s1 = Some t'"
    "same_core s' t'" "tc_readBytes s' = 0" "tc_leftBytes s' = 0"
    using Cons.IH [OF r(5) _ _ _ alive] Cons.prems(2) r(6,7,8) p2 by auto
  moreover obtain t2 where "deliver readPQ fs2 t = Some t2" "same_core t' t2"
    using deliver_core [OF r(4)] calculation(2) by blast
  ultimately show ?case using read r(2,3) same_core_trans by (auto simp: deliver_append)
qed

section \<open>Properties\<close>

text \<open>
  C8. However the network cuts a stream of packets into reads, the connection hands exactly these packets,
  in order, to \<open>socketPacket\<close>: no assertion fails, both receive buffers suffice, moving unread bytes to the
  start of a buffer loses nothing, and in the end nothing is left over. The hypotheses say that a read
  returns some of the available bytes, that the cipher is a stream cipher, and that the socket stays
  connected.
\<close>

theorem tcp_stream_reassembled:
  fixes s :: "'n tcp"
  assumes "socket_reads sock" "stream_cipher ctr128" "frames_ok (tc_protocol s) frames" "[] \<notin> set chunks"
    "fst (ctr128 (tc_receiveKey s) (tc_receiveState s) (concat chunks)) = concat frames"
    "alive_along alive readPQ frames s"
    "tc_offsetBytes s = 0" "tc_readBytes s = 0" "tc_leftBytes s = 0" "\<not> tc_usingLargeBuffer s"
    "tc_largeBuffer s = []" "tc_smallBuffer s = [] \<or> length (tc_smallBuffer s) = kSmallBufferSize"
  shows "\<exists>s' t. tcp_feed alive readPQ sock ctr128 chunks s = Some s' \<and> deliver readPQ frames s = Some t
    \<and> tc_status s' = tc_status t \<and> tc_receivedQueue s' = tc_receivedQueue t \<and> tc_events s' = tc_events t
    \<and> tc_readBytes s' = 0 \<and> tc_leftBytes s' = 0"
proof (cases chunks)
  case Nil
  have "length (fst (ctr128 (tc_receiveKey s) (tc_receiveState s) [])) = length ([] :: byte_list)"
    using assms(2) unfolding stream_cipher_def by blast
  then have none: "concat frames = []" using assms(5) Nil by simp
  have "frames = []"
  proof (cases frames)
    case (Cons f fs)
    then have "4 < length f" using framing.frame_long [of "tc_protocol s" f] assms(3) by (simp add: frames_ok_def)
    with none Cons show ?thesis by simp
  qed simp
  with Nil assms show ?thesis by simp
next
  case (Cons chunk rest)
  define r where "r = (if tc_smallBuffer s = [] then s\<lparr>tc_smallBuffer := replicate kSmallBufferSize 0\<rparr> else s)"
  have core: "same_core s r" by (simp add: r_def same_core_def)
  have "tcp_inv [] r"
    using assms(7-) framing.len_empty by (auto simp: r_def tcp_inv_def tcp_buffer_def buffer_sizes)
  moreover have "tcp_feed alive readPQ sock ctr128 chunks s = tcp_feed alive readPQ sock ctr128 chunks r"
    using Cons alive_along_alive [OF assms(6)] by (simp add: socketRead_def r_def buffer_sizes)
  moreover have "tc_receiveKey r = tc_receiveKey s" "tc_receiveState r = tc_receiveState s" "tc_protocol r = tc_protocol s"
    by (simp_all add: r_def)
  ultimately obtain s' t where "tcp_feed alive readPQ sock ctr128 chunks s = Some s'" "deliver readPQ frames r = Some t"
    "same_core s' t" "tc_readBytes s' = 0" "tc_leftBytes s' = 0"
    using feed_ok [of sock ctr128 "[]" r chunks frames alive readPQ] assms(1-5) alive_along_core [OF core assms(6)] by auto
  moreover obtain t' where "deliver readPQ frames s = Some t'" "same_core t t'"
    using deliver_core [OF same_core_sym [OF core]] calculation(2) by blast
  ultimately show ?thesis by (auto simp: same_core_def)
qed

definition tcp_sample :: "nat tcp" where
  "tcp_sample = \<lparr>tc_protocol = Version0, tc_connectionStarted = True, tc_offsetBytes = 0, tc_readBytes = 0,
     tc_leftBytes = 0, tc_smallBuffer = [], tc_largeBuffer = [], tc_usingLargeBuffer = False,
     tc_sendKey = [], tc_sendState = \<lparr>ct_ivec = [], ct_num = 0, ct_ecount = []\<rparr>,
     tc_receiveKey = [], tc_receiveState = \<lparr>ct_ivec = [], ct_num = 0, ct_ecount = []\<rparr>, tc_protocolDcId = 2,
     tc_status = Ready, tc_checkNonce = 0, tc_receivedQueue = [], tc_events = [], tc_receivedSome = 0\<rparr>"

theorem tcp_stream_reassembled_witness:
  "\<exists>s'. tcp_feed (\<lambda>_. True) (\<lambda>_. None) (\<lambda>n avail. Some (take n avail)) (\<lambda>key st bs. (bs, st))
      [[3, 1, 0], [0, 0, 2, 0, 0, 0, 3], [0, 0, 0, 1, 7, 0], [0, 0]] tcp_sample = Some s'
    \<and> tc_receivedQueue s' = [[1, 2, 3]] \<and> tc_events s' = [ReceivedData, TcpError 7]"
proof -
  let ?f = "[3, 1, 0, 0, 0, 2, 0, 0, 0, 3, 0, 0, 0] :: byte_list" and ?g = "[1, 7, 0, 0, 0] :: byte_list"
  have reads: "socket_reads (\<lambda>n avail. Some (take n avail))" unfolding socket_reads_def by blast
  have cipher: "stream_cipher (\<lambda>key st bs. (bs, st))" by (simp add: stream_cipher_def)
  have ok: "frames_ok (tc_protocol tcp_sample) [?f, ?g]"
    by (simp add: frames_ok_def tcp_sample_def readPacketLength_def v0_length_short)
  have alive: "alive_along (\<lambda>_. True) (\<lambda>_. None) fs s" for fs and s :: "nat tcp"
    by (induction fs arbitrary: s) (auto split: option.splits)
  have "deliver (\<lambda>_. None) [?f, ?g] tcp_sample = Some (tcp_sample\<lparr>tc_receivedQueue := [[1, 2, 3]], tc_events := [ReceivedData, TcpError 7]\<rparr>)"
    by (simp add: socketPacket_def parsePacket_def readPacket_def v0_readPacket_def v0_length_short kUnknownSize_def
        kInvalidSize_def Let_def subspan_def bytes_word_def tcp_sample_def tcp_emit_def)
  with tcp_stream_reassembled [OF reads cipher ok _ _ alive,
      of "[[3, 1, 0], [0, 0, 2, 0, 0, 0, 3], [0, 0, 0, 1, 7, 0], [0, 0]]" ]
  show ?thesis by (auto simp: tcp_sample_def)
qed

end
