(* ===== verification/TcpSend.thy ===== *)
theory TcpSend
  imports TcpConnection
begin

text \<open>
  The sending side of \<open>mtproto/connection_tcp.cpp\<close> with \<open>mtproto/details/mtproto_tcp_socket.cpp\<close>: the 64
  bytes that start a connection and carry the keys, and the packets after them. The candidates for the
  start nonce are an argument (a list of random 64-byte values).
\<close>

definition isGoodStartNonce :: "byte_list \<Rightarrow> bool" where
  "isGoodStartNonce nonce =
     (let zero = nonce ! 0; first = bytes_word nonce; second = bytes_word (drop 4 nonce) in
      zero \<noteq> 0xEF \<and> first \<noteq> 0x44414548 \<and> first \<noteq> 0x54534F50 \<and> first \<noteq> 0x20544547
      \<and> first \<noteq> 0xEEEEEEEE \<and> first \<noteq> 0xDDDDDDDD \<and> first \<noteq> 0x02010316 \<and> second \<noteq> 0)"

text \<open>The loop that draws nonces; \<open>None\<close> when the candidates do not suffice.\<close>

fun draw_nonce :: "byte_list list \<Rightarrow> byte_list option" where
  "draw_nonce [] = None"
| "draw_nonce (nonce # candidates) = (if isGoodStartNonce nonce then Some nonce else draw_nonce candidates)"

definition half_bytes :: "u16 \<Rightarrow> byte_list" where
  "half_bytes w = [ucast w, ucast (drop_bit 8 w)]"

definition prepareConnectionStartPrefix ::
    "(byte_list \<Rightarrow> byte_list) \<Rightarrow> cipher \<Rightarrow> byte_list list \<Rightarrow> 'n tcp \<Rightarrow> (byte_list \<times> 'n tcp) option" where
  "prepareConnectionStartPrefix sha256 ctr128 candidates s =
     (if tc_connectionStarted s then Some ([], s)
      else case draw_nonce candidates of
        None \<Rightarrow> None
      | Some nonce \<Rightarrow>
          let reversed = rev (take 48 (drop 8 nonce)) in
          (case (prepareKey sha256 (tc_protocol s) (tc_sendKey s) (take 32 (drop 8 nonce)),
                 bytes_copy (ct_ivec (tc_sendState s)) (take 16 (drop 40 nonce)),
                 prepareKey sha256 (tc_protocol s) (tc_receiveKey s) (take 32 reversed),
                 bytes_copy (ct_ivec (tc_receiveState s)) (take 16 (drop 32 reversed))) of
             (Some sendKey, Some sendIvec, Some receiveKey, Some receiveIvec) \<Rightarrow>
               let nonce' = write_at 60 (half_bytes (tc_protocolDcId s))
                     (write_at 56 (word_bytes (protocol_id (tc_protocol s))) nonce);
                   (encrypted, state) = aesCtrEncrypt ctr128 nonce' sendKey ((tc_sendState s)\<lparr>ct_ivec := sendIvec\<rparr>)
               in Some (take 56 nonce' @ drop 56 encrypted,
                  s\<lparr>tc_connectionStarted := True, tc_sendKey := sendKey, tc_sendState := state,
                    tc_receiveKey := receiveKey,
                    tc_receiveState := (tc_receiveState s)\<lparr>ct_ivec := receiveIvec\<rparr>\<rparr>)
           | _ \<Rightarrow> None))"

text \<open>\<open>sendData\<close> returns what is written to the socket.\<close>

definition sendData ::
    "(byte_list \<Rightarrow> byte_list) \<Rightarrow> cipher \<Rightarrow> byte_list list \<Rightarrow> u32 \<Rightarrow> (nat \<Rightarrow> u32) \<Rightarrow> u32 list \<Rightarrow> 'n tcp
      \<Rightarrow> (byte_list \<times> 'n tcp) option" where
  "sendData sha256 ctr128 candidates random fill buffer s =
     (if \<not> length buffer > 2 then None
      else case prepareConnectionStartPrefix sha256 ctr128 candidates s of
        None \<Rightarrow> None
      | Some (prefix, s1) \<Rightarrow>
          (case finalizePacket (tc_protocol s1) random fill buffer of
             None \<Rightarrow> None
           | Some packet \<Rightarrow>
               let (encrypted, state) = aesCtrEncrypt ctr128 packet (tc_sendKey s1) (tc_sendState s1)
               in Some (prefix @ encrypted, s1\<lparr>tc_sendState := state\<rparr>)))"

section \<open>What the other side reads\<close>

text \<open>
  The receiver of the stream takes the key and the counter from the first 56 bytes, which are in
  clear, and decrypts everything with them.
\<close>

definition other_side ::
    "(byte_list \<Rightarrow> byte_list) \<Rightarrow> cipher \<Rightarrow> protocol \<Rightarrow> byte_list \<Rightarrow> byte_list option" where
  "other_side sha256 ctr128 p stream =
     map_option (\<lambda>key. fst (ctr128 key \<lparr>ct_ivec = take 16 (drop 40 stream), ct_num = 0, ct_ecount = replicate 16 0\<rparr> stream))
       (prepareKey sha256 p (replicate 32 0) (take 32 (drop 8 stream)))"

fun send_all ::
    "(byte_list \<Rightarrow> byte_list) \<Rightarrow> cipher \<Rightarrow> byte_list list \<Rightarrow> (u32 \<times> (nat \<Rightarrow> u32) \<times> u32 list) list \<Rightarrow> 'n tcp
      \<Rightarrow> (byte_list \<times> 'n tcp) option" where
  "send_all sha256 ctr128 candidates [] s = Some ([], s)"
| "send_all sha256 ctr128 candidates ((random, fill, buffer) # later) s =
     (case sendData sha256 ctr128 candidates random fill buffer s of
        None \<Rightarrow> None
      | Some (bs, s1) \<Rightarrow> map_option (\<lambda>(bs', s'). (bs @ bs', s')) (send_all sha256 ctr128 candidates later s1))"

definition involutive :: "cipher \<Rightarrow> bool" where
  "involutive ctr128 \<longleftrightarrow> (\<forall>key st xs. ctr128 key st (fst (ctr128 key st xs)) = (xs, snd (ctr128 key st xs)))"


lemma ctr_append:
  "stream_cipher ctr128 \<Longrightarrow> ctr128 key st (xs @ ys) =
    (fst (ctr128 key st xs) @ fst (ctr128 key (snd (ctr128 key st xs)) ys), snd (ctr128 key (snd (ctr128 key st xs)) ys))"
  unfolding stream_cipher_def by (metis (no_types, lifting) Let_def case_prod_beta prod.collapse)

lemma ctr_length: "stream_cipher ctr128 \<Longrightarrow> length (fst (ctr128 key st xs)) = length xs"
  unfolding stream_cipher_def by blast

lemma ctr_Nil: "stream_cipher ctr128 \<Longrightarrow> fst (ctr128 key st []) = []"
  using ctr_length [of ctr128 key st "[]"] by simp

definition framed :: "protocol \<Rightarrow> (u32 \<times> (nat \<Rightarrow> u32) \<times> u32 list) list \<Rightarrow> byte_list list option" where
  "framed p items = those (map (\<lambda>(random, fill, buffer). finalizePacket p random fill buffer) items)"

lemma framed_Cons:
  "framed p ((r, f, b) # items) = (case finalizePacket p r f b of None \<Rightarrow> None
    | Some packet \<Rightarrow> map_option ((#) packet) (framed p items))"
  by (simp add: framed_def split: option.splits)

lemma finalize_some: "finalizePacket p r f b = Some packet \<Longrightarrow> 2 < length b"
  by (auto simp: finalizePacket_def v0_finalizePacket_def vd_finalizePacket_def split: protocol.splits if_splits)

lemma send_started:
  assumes "stream_cipher ctr128" "tc_connectionStarted s" "framed (tc_protocol s) items = Some packets"
  shows "\<exists>s'. send_all sha256 ctr128 candidates items s =
    Some (fst (ctr128 (tc_sendKey s) (tc_sendState s) (concat packets)), s')"
  using assms(2,3)
proof (induction items arbitrary: s packets)
  case Nil
  then show ?case by (simp add: framed_def ctr_Nil [OF assms(1)])
next
  case (Cons item items)
  obtain r f b where item: "item = (r, f, b)" by (cases item)
  obtain packet ps where p: "finalizePacket (tc_protocol s) r f b = Some packet" "framed (tc_protocol s) items = Some ps"
    "packets = packet # ps"
    using Cons.prems(2) item by (auto simp: framed_Cons split: option.splits)
  let ?s1 = "s\<lparr>tc_sendState := snd (ctr128 (tc_sendKey s) (tc_sendState s) packet)\<rparr>"
  have "sendData sha256 ctr128 candidates r f b s = Some (fst (ctr128 (tc_sendKey s) (tc_sendState s) packet), ?s1)"
    using Cons.prems(1) p(1) finalize_some [OF p(1)]
    by (simp add: sendData_def prepareConnectionStartPrefix_def aesCtrEncrypt_def case_prod_beta Let_def)
  moreover obtain s' where "send_all sha256 ctr128 candidates items ?s1 =
      Some (fst (ctr128 (tc_sendKey s) (tc_sendState ?s1) (concat ps)), s')"
    using Cons.IH [of ?s1 ps] Cons.prems(1) p(2) by auto
  ultimately show ?case
    using item p(3) ctr_append [OF assms(1), of "tc_sendKey s" "tc_sendState s" packet "concat ps"] by simp
qed

lemma draw_nonce_ok: "draw_nonce candidates = Some nonce \<Longrightarrow> nonce \<in> set candidates \<and> isGoodStartNonce nonce"
  by (induction candidates) (auto split: if_splits)

lemma write_at_over: "pos + length bs \<le> length xs \<Longrightarrow> take pos (write_at pos bs xs) = take pos xs
    \<and> drop (pos + length bs) (write_at pos bs xs) = drop (pos + length bs) xs"
  by (simp add: write_at_def)

definition start_nonce :: "'n tcp \<Rightarrow> byte_list \<Rightarrow> byte_list" where
  "start_nonce s nonce = write_at 60 (half_bytes (tc_protocolDcId s))
     (write_at 56 (word_bytes (protocol_id (tc_protocol s))) nonce)"

lemma start_nonce_eq:
  assumes "length nonce = 64"
  shows "start_nonce s nonce = take 56 nonce @ word_bytes (protocol_id (tc_protocol s))
    @ half_bytes (tc_protocolDcId s) @ drop 62 nonce"
  using assms by (simp add: start_nonce_def write_at_def half_bytes_def word_bytes_def min_def)

lemma prepareKey_ok:
  assumes "\<forall>x. length (sha256 x) = 32" "length key = 32" "length source = 32"
  shows "prepareKey sha256 p key source = Some (case p of Version0 \<Rightarrow> source
    | Version1 secret \<Rightarrow> sha256 (source @ secret) | VersionD secret \<Rightarrow> sha256 (source @ secret))"
  using assms by (simp add: prepareKey_def bytes_copy_def split: protocol.splits)

lemma first_send:
  fixes s :: "'n tcp"
  assumes ctr: "stream_cipher ctr128" and sha: "\<forall>x. length (sha256 x) = 32"
    and st: "\<not> tc_connectionStarted s" "length (tc_sendKey s) = 32" "length (tc_receiveKey s) = 32"
      "tc_sendState s = \<lparr>ct_ivec = ivec, ct_num = 0, ct_ecount = replicate 16 0\<rparr>" "length ivec = 16"
      "length (ct_ivec (tc_receiveState s)) = 16"
    and nonce: "draw_nonce candidates = Some nonce" "length nonce = 64"
  shows "\<exists>s1 key. prepareKey sha256 (tc_protocol s) (replicate 32 0) (take 32 (drop 8 nonce)) = Some key
    \<and> prepareConnectionStartPrefix sha256 ctr128 candidates s =
      Some (take 56 nonce @ drop 56 (fst (ctr128 key \<lparr>ct_ivec = take 16 (drop 40 nonce), ct_num = 0, ct_ecount = replicate 16 0\<rparr>
          (start_nonce s nonce))), s1)
    \<and> tc_connectionStarted s1 \<and> tc_sendKey s1 = key \<and> tc_protocol s1 = tc_protocol s
    \<and> tc_sendState s1 = snd (ctr128 key \<lparr>ct_ivec = take 16 (drop 40 nonce), ct_num = 0, ct_ecount = replicate 16 0\<rparr>
          (start_nonce s nonce))"
proof -
  have "length (take 32 (drop 8 nonce)) = 32" "length (take 32 (rev (take 48 (drop 8 nonce)))) = 32"
    using nonce(2) by simp_all
  then have keys: "\<exists>key. prepareKey sha256 (tc_protocol s) (tc_sendKey s) (take 32 (drop 8 nonce)) = Some key
      \<and> prepareKey sha256 (tc_protocol s) (replicate 32 0) (take 32 (drop 8 nonce)) = Some key"
    "\<exists>key. prepareKey sha256 (tc_protocol s) (tc_receiveKey s) (take 32 (rev (take 48 (drop 8 nonce)))) = Some key"
    using prepareKey_ok [OF sha] st by simp_all
  then obtain key rkey where k: "prepareKey sha256 (tc_protocol s) (tc_sendKey s) (take 32 (drop 8 nonce)) = Some key"
    "prepareKey sha256 (tc_protocol s) (replicate 32 0) (take 32 (drop 8 nonce)) = Some key"
    "prepareKey sha256 (tc_protocol s) (tc_receiveKey s) (take 32 (rev (take 48 (drop 8 nonce)))) = Some rkey" by blast
  have "bytes_copy ivec (take 16 (drop 40 nonce)) = Some (take 16 (drop 40 nonce))"
    "\<exists>riv. bytes_copy (ct_ivec (tc_receiveState s)) (take 16 (drop 32 (rev (take 48 (drop 8 nonce))))) = Some riv"
    using st nonce(2) by (simp_all add: bytes_copy_def)
  then obtain riv where iv: "bytes_copy ivec (take 16 (drop 40 nonce)) = Some (take 16 (drop 40 nonce))"
    "bytes_copy (ct_ivec (tc_receiveState s)) (take 16 (drop 32 (rev (take 48 (drop 8 nonce))))) = Some riv" by blast
  have clear: "take 56 (start_nonce s nonce) = take 56 nonce" using start_nonce_eq [OF nonce(2), of s] nonce(2) by simp
  show ?thesis
    using st(1,4) nonce(1) k iv clear
    by (simp add: prepareConnectionStartPrefix_def start_nonce_def [symmetric] aesCtrEncrypt_def case_prod_beta Let_def)
qed


lemma send_prefix:
  assumes "prepareConnectionStartPrefix sha256 ctr128 candidates s = Some (prefix, s1)" "tc_connectionStarted s1" "items \<noteq> []"
  shows "send_all sha256 ctr128 candidates items s =
    map_option (\<lambda>(bs, s'). (prefix @ bs, s')) (send_all sha256 ctr128 candidates items s1)"
proof -
  obtain r f b later where it: "items = (r, f, b) # later" using assms(3) by (cases items) auto
  have "prepareConnectionStartPrefix sha256 ctr128 candidates s1 = Some ([], s1)"
    using assms(2) by (simp add: prepareConnectionStartPrefix_def)
  then have "sendData sha256 ctr128 candidates r f b s =
      map_option (\<lambda>(bs, s'). (prefix @ bs, s')) (sendData sha256 ctr128 candidates r f b s1)"
    using assms(1) by (auto simp: sendData_def case_prod_beta Let_def split: option.splits)
  then show ?thesis
    using it by (auto simp: option.map_comp comp_def split_def split: option.splits)
qed

section \<open>Properties\<close>

text \<open>
  C9. What a new connection sends can be read by the other side: with the key and the counter taken
  from the clear part of the first 64 bytes, the stream decrypts to the protocol and data centre ids at
  their places and, from byte 64 on, to the framed packets in the order they were sent. The first bytes are
  those of a nonce that passed the check for reserved values. The hypotheses on \<open>ctr128\<close> are those of the
  counter mode (byte by byte, its own inverse), and a hash has 32 bytes.
\<close>

theorem tcp_send_readable:
  fixes s :: "'n tcp"
  assumes ctr: "stream_cipher ctr128" "involutive ctr128" and sha: "\<forall>x. length (sha256 x) = 32"
    and st: "\<not> tc_connectionStarted s" "length (tc_sendKey s) = 32" "length (tc_receiveKey s) = 32"
      "tc_sendState s = \<lparr>ct_ivec = ivec, ct_num = 0, ct_ecount = replicate 16 0\<rparr>" "length ivec = 16"
      "length (ct_ivec (tc_receiveState s)) = 16"
    and nonce: "draw_nonce candidates = Some nonce" "length nonce = 64"
    and items: "items \<noteq> []" "framed (tc_protocol s) items = Some packets"
  shows "\<exists>stream s' plain. send_all sha256 ctr128 candidates items s = Some (stream, s')
    \<and> other_side sha256 ctr128 (tc_protocol s) stream = Some plain
    \<and> take 4 (drop 56 plain) = word_bytes (protocol_id (tc_protocol s))
    \<and> take 2 (drop 60 plain) = half_bytes (tc_protocolDcId s)
    \<and> drop 64 plain = concat packets \<and> take 56 stream = take 56 nonce \<and> isGoodStartNonce nonce"
proof -
  let ?st = "\<lparr>ct_ivec = take 16 (drop 40 nonce), ct_num = 0, ct_ecount = replicate 16 0\<rparr>"
  define b where "b = word_bytes (protocol_id (tc_protocol s)) @ half_bytes (tc_protocolDcId s) @ drop 62 nonce"
  obtain s1 key where k: "prepareKey sha256 (tc_protocol s) (replicate 32 0) (take 32 (drop 8 nonce)) = Some key"
    "prepareConnectionStartPrefix sha256 ctr128 candidates s =
      Some (take 56 nonce @ drop 56 (fst (ctr128 key ?st (start_nonce s nonce))), s1)"
    "tc_connectionStarted s1" "tc_sendKey s1 = key" "tc_protocol s1 = tc_protocol s"
    "tc_sendState s1 = snd (ctr128 key ?st (start_nonce s nonce))"
    using first_send [OF ctr(1) sha st nonce] by blast
  define st1 where "st1 = snd (ctr128 key ?st (take 56 nonce))"
  define st2 where "st2 = snd (ctr128 key st1 b)"
  have enc: "ctr128 key ?st (start_nonce s nonce) = (fst (ctr128 key ?st (take 56 nonce)) @ fst (ctr128 key st1 b), st2)"
    unfolding start_nonce_eq [OF nonce(2)] b_def [symmetric] by (simp add: ctr_append [OF ctr(1)] st1_def st2_def)
  have dr: "drop 56 (fst (ctr128 key ?st (start_nonce s nonce))) = fst (ctr128 key st1 b)"
    using enc ctr_length [OF ctr(1), of key ?st "take 56 nonce"] nonce(2) by simp
  let ?head = "take 56 nonce @ fst (ctr128 key st1 b)"
  obtain s' where send: "send_all sha256 ctr128 candidates items s1 = Some (fst (ctr128 key st2 (concat packets)), s')"
    using send_started [OF ctr(1) k(3), of items packets] items(2) k(4,5,6) enc by auto
  have one: "send_all sha256 ctr128 candidates items s =
      Some (?head @ fst (ctr128 key st2 (concat packets)), s')"
    using send_prefix [OF k(2,3) items(1)] send dr by simp
  define stream where "stream = ?head @ fst (ctr128 key st2 (concat packets))"
  have "take 32 (drop 8 stream) = take 32 (drop 8 nonce)" "take 16 (drop 40 stream) = take 16 (drop 40 nonce)"
    "take 56 stream = take 56 nonce"
    using nonce(2) by (simp_all add: stream_def drop_take)
  moreover have "fst (ctr128 key ?st stream) = fst (ctr128 key ?st (take 56 nonce)) @ b @ concat packets"
    using ctr(2) by (simp add: stream_def ctr_append [OF ctr(1)] st1_def [symmetric] st2_def [symmetric] involutive_def)
  ultimately have "other_side sha256 ctr128 (tc_protocol s) stream =
      Some (fst (ctr128 key ?st (take 56 nonce)) @ b @ concat packets)"
    using k(1) by (simp add: other_side_def)
  then show ?thesis
    using one draw_nonce_ok [OF nonce(1)] ctr_length [OF ctr(1), of key ?st "take 56 nonce"] nonce(2)
      \<open>take 56 stream = take 56 nonce\<close> unfolding stream_def [symmetric]
    by (intro exI conjI) (assumption | simp add: b_def half_bytes_def)+
qed


definition send_sample :: "nat tcp" where
  "send_sample = tcp_sample\<lparr>tc_connectionStarted := False, tc_sendKey := replicate 32 0, tc_receiveKey := replicate 32 0,
     tc_sendState := \<lparr>ct_ivec = replicate 16 0, ct_num = 0, ct_ecount = replicate 16 0\<rparr>,
     tc_receiveState := \<lparr>ct_ivec = replicate 16 0, ct_num = 0, ct_ecount = replicate 16 0\<rparr>\<rparr>"

theorem tcp_send_readable_witness:
  "\<exists>stream s' plain. send_all (\<lambda>_. replicate 32 7) (\<lambda>key st bs. (map (\<lambda>b. b XOR 0x5A) bs, st)) [replicate 64 0xEF, replicate 64 1]
      [(0, \<lambda>_. 0, [0, 0, 5])] send_sample = Some (stream, s')
    \<and> other_side (\<lambda>_. replicate 32 7) (\<lambda>key st bs. (map (\<lambda>b. b XOR 0x5A) bs, st)) Version0 stream = Some plain
    \<and> drop 64 plain = [1, 5, 0, 0, 0]"
proof -
  let ?ctr = "\<lambda>(key :: byte_list) (st :: ctr_state) (bs :: byte_list). (map (\<lambda>b. b XOR 0x5A) bs, st)"
  have ctr: "stream_cipher ?ctr" "involutive ?ctr"
    by (simp_all add: stream_cipher_def involutive_def comp_def xor.assoc)
  have nonce: "draw_nonce [replicate 64 0xEF, replicate 64 1] = Some (replicate 64 1 :: byte_list)"
    by (simp add: isGoodStartNonce_def bytes_word_def)
  have items: "framed (tc_protocol send_sample) [(0, \<lambda>_. 0, [0, 0, 5])] = Some [[1, 5, 0, 0, 0]]"
    by (simp add: framed_def send_sample_def tcp_sample_def finalizePacket_def v0_finalizePacket_def Let_def
        subspan_def word_bytes_def)
  show ?thesis
    using tcp_send_readable [OF ctr, of "\<lambda>_. replicate 32 7" send_sample "replicate 16 0"
        "[replicate 64 0xEF, replicate 64 1]" "replicate 64 1" "[(0, \<lambda>_. 0, [0, 0, 5])]" "[[1, 5, 0, 0, 0]]"]
      nonce items by (auto simp: send_sample_def tcp_sample_def)
qed

end
