(* ===== verification/CacheTypes.thy ===== *)
theory CacheTypes
  imports Prelude
begin

text \<open>
  \<open>lib_storage/storage/cache/storage_cache_types.{h,cpp}\<close>: the keys, the settings, the records of the
  journal (\<open>binlog\<close>) and the packed integers they contain. \<open>size_type\<close> and \<open>int64\<close> are \<^typ>\<open>int\<close>; the
  unsigned fields keep their width. A failed \<open>Expects\<close> is \<open>None\<close>.
\<close>

section \<open>Keys and errors\<close>

datatype cache_key = Key (key_high: u64) (key_low: u64)

definition key_valid :: "cache_key \<Rightarrow> bool" where
  "key_valid k \<longleftrightarrow> key_high k \<noteq> 0 \<or> key_low k \<noteq> 0"

instantiation cache_key :: linorder
begin

definition less_cache_key :: "cache_key \<Rightarrow> cache_key \<Rightarrow> bool" where
  "less_cache_key a b \<longleftrightarrow>
     key_high a < key_high b \<or> \<not> key_high b < key_high a \<and> key_low a < key_low b"

definition less_eq_cache_key :: "cache_key \<Rightarrow> cache_key \<Rightarrow> bool" where
  "less_eq_cache_key a b \<longleftrightarrow> \<not> (b < a)"

instance
  by standard (auto simp: less_cache_key_def less_eq_cache_key_def cache_key.expand)

end

datatype cache_error = NoError | IOError string | WrongKeyError string | LockFailedError string

section \<open>Packed integers\<close>

fun pack_bytes :: "nat \<Rightarrow> int \<Rightarrow> byte_list" where
  "pack_bytes 0 cnt = []"
| "pack_bytes (Suc n) cnt = word_of_int (cnt AND 0xFF) # pack_bytes n (drop_bit 8 cnt)"

definition ReadTo :: "nat \<Rightarrow> int \<Rightarrow> byte_list option" where
  "ReadTo n cnt = (if 0 \<le> cnt \<and> cnt < push_bit (n * 8) 1 then Some (pack_bytes n cnt) else None)"

definition ReadFrom :: "byte_list \<Rightarrow> int" where
  "ReadFrom packed = fold (\<lambda>element result. push_bit 8 result OR uint element) (rev packed) 0"

definition ValidateStrictCount :: "byte_list \<Rightarrow> int" where
  "ValidateStrictCount packed = (let result = ReadFrom packed in if result \<noteq> 0 then result else -1)"

definition kBundledRecordsLimit :: int where "kBundledRecordsLimit = push_bit (3 * 8) 1"
definition kDataSizeLimit :: int where "kDataSizeLimit = push_bit (3 * 8) 1"
definition kRecordSizeUnknown :: int where "kRecordSizeUnknown = -1"
definition kRecordSizeInvalid :: int where "kRecordSizeInvalid = -2"

section \<open>Settings\<close>

record cache_settings =
  st_maxBundledRecords :: nat
  st_readBlockSize :: nat
  st_maxDataSize :: int
  st_writeBundleDelay :: int
  st_staleRemoveChunk :: nat
  st_compactAfterExcess :: int
  st_compactAfterFullSize :: int
  st_compactChunkSize :: nat
  st_trackEstimatedTime :: bool
  st_totalSizeLimit :: int
  st_totalTimeLimit :: int
  st_pruneTimeout :: int
  st_maxPruneCheckTimeout :: int
  st_clearOnWrongKey :: bool

definition default_settings :: cache_settings where
  "default_settings = \<lparr>st_maxBundledRecords = 16 * 1024, st_readBlockSize = 8 * 1024 * 1024,
     st_maxDataSize = kDataSizeLimit - 1, st_writeBundleDelay = 15 * 60 * 1000,
     st_staleRemoveChunk = 256, st_compactAfterExcess = 8 * 1024 * 1024,
     st_compactAfterFullSize = 0, st_compactChunkSize = 16 * 1024,
     st_trackEstimatedTime = True, st_totalSizeLimit = 1024 * 1024 * 1024,
     st_totalTimeLimit = 31 * 24 * 60 * 60, st_pruneTimeout = 5 * 1000,
     st_maxPruneCheckTimeout = 3600 * 1000, st_clearOnWrongKey = False\<rparr>"

section \<open>Time points\<close>

record time_point =
  tp_relative1 :: u32
  tp_relative2 :: u32
  tp_system :: u32

definition no_time :: time_point where
  "no_time = \<lparr>tp_relative1 = 0, tp_relative2 = 0, tp_system = 0\<rparr>"

definition setRelative :: "u64 \<Rightarrow> time_point \<Rightarrow> time_point" where
  "setRelative val t = t\<lparr>tp_relative1 := ucast (val AND 0xFFFFFFFF),
     tp_relative2 := ucast (drop_bit 32 val AND 0xFFFFFFFF)\<rparr>"

definition getRelative :: "time_point \<Rightarrow> u64" where
  "getRelative t = ucast (tp_relative1 t) OR push_bit 32 (ucast (tp_relative2 t))"

section \<open>Records of the journal\<close>

record store =
  sr_tag :: u8
  sr_size :: byte_list
  sr_place :: byte_list
  sr_checksum :: u32
  sr_key :: cache_key
  sr_time :: time_point

text \<open>
  \<open>Store\<close> and \<open>StoreWithTime\<close> share one record type; the time of a plain \<open>Store\<close> is never read. The
  heads of the multi-records carry the packed number of their parts.
\<close>

definition empty_store :: store where
  "empty_store = \<lparr>sr_tag = 0, sr_size = [0, 0, 0], sr_place = replicate 7 0, sr_checksum = 0,
     sr_key = Key 0 0, sr_time = no_time\<rparr>"

definition store_setSize :: "int \<Rightarrow> store \<Rightarrow> store option" where
  "store_setSize sz r = map_option (\<lambda>packed. r\<lparr>sr_size := packed\<rparr>) (ReadTo 3 sz)"

definition store_getSize :: "store \<Rightarrow> int" where
  "store_getSize r = ReadFrom (sr_size r)"

datatype binlog_record =
    StoreRecord store
  | MultiStore "store list"
  | MultiRemove "cache_key list"
  | MultiAccess time_point "cache_key list"

text \<open>The constructors of the heads expect a count that the three bytes can hold.\<close>

definition multi_count_ok :: "nat \<Rightarrow> bool" where
  "multi_count_ok n \<longleftrightarrow> int n < kBundledRecordsLimit"

section \<open>Laws\<close>

lemma mask8: "(0xFF :: int) = mask 8"
  by (simp add: mask_eq_exp_minus_1)

lemma word_of_int_mask8: "word_of_int (c AND 0xFF) = (word_of_int c :: u8)"
  by (rule bit_word_eqI) (simp add: bit_simps mask8)

lemma int_split8: "push_bit 8 (drop_bit 8 c) OR (c AND 0xFF) = c" for c :: int
  by (rule bit_eqI) (auto simp: bit_simps mask8)

lemma ReadFrom_Cons: "ReadFrom (b # bs) = push_bit 8 (ReadFrom bs) OR uint b"
  by (simp add: ReadFrom_def)

lemma pack_bytes_length [simp]: "length (pack_bytes n c) = n"
  by (induction n arbitrary: c) simp_all

lemma ReadFrom_pack: "0 \<le> c \<Longrightarrow> c < 2 ^ (8 * n) \<Longrightarrow> ReadFrom (pack_bytes n c) = c"
proof (induction n arbitrary: c)
  case 0
  then show ?case by (simp add: ReadFrom_def)
next
  case (Suc n)
  have "drop_bit 8 c < 2 ^ (8 * n)"
  proof -
    have "c < 2 ^ (8 * n) * 256" using Suc.prems by (simp add: power_add mult.commute)
    then have "c div 256 < 2 ^ (8 * n)" by linarith
    then show ?thesis by (simp add: drop_bit_eq_div)
  qed
  with Suc.prems have "ReadFrom (pack_bytes n (drop_bit 8 c)) = drop_bit 8 c"
    by (intro Suc.IH) simp_all
  moreover have "uint (word_of_int c :: u8) = c AND 0xFF"
    by (simp add: uint_word_of_int_eq mask8 take_bit_eq_mask)
  ultimately show ?case by (simp add: ReadFrom_Cons word_of_int_mask8 int_split8)
qed

lemma ReadFrom_ReadTo: "ReadTo n c = Some packed \<Longrightarrow> ReadFrom packed = c \<and> length packed = n"
  by (auto simp: ReadTo_def push_bit_eq_mult mult.commute ReadFrom_pack split: if_splits)

lemma getRelative_setRelative [simp]: "getRelative (setRelative val t) = val"
proof (rule bit_word_eqI)
  fix n
  assume n: "n < LENGTH(64)"
  have m: "(0xFFFFFFFF :: u64) = mask 32" by (simp add: mask_eq_exp_minus_1)
  show "bit (getRelative (setRelative val t)) n = bit val n"
    using n by (auto simp: getRelative_def setRelative_def bit_simps m)
qed

lemma system_setRelative [simp]: "tp_system (setRelative val t) = tp_system t"
  by (simp add: setRelative_def)

end
