(* ===== verification/CacheMap.thy ===== *)
theory CacheMap
  imports FlatMap CacheTypes "HOL-Library.Monad_Syntax"
begin

text \<open>
  \<open>storage_cache_database_object.{h,cpp}\<close>, first part: the state of \<open>DatabaseObject\<close>, the map of entries
  with the statistics kept beside it, the estimated time, and the handlers that replay the records of
  the journal. A failed \<open>Assert\<close> or \<open>Expects\<close> is \<open>None\<close>. The iteration order of \<open>std::unordered_map\<close> is
  not specified, so the map is a partial function and every loop over it takes the order as an argument.
\<close>

section \<open>State\<close>

type_synonym place_id = byte_list

record entry =
  en_useTime :: u64
  en_size :: int
  en_checksum :: u32
  en_place :: place_id
  en_tag :: u8

definition empty_entry :: entry where
  "empty_entry = \<lparr>en_useTime = 0, en_size = 0, en_checksum = 0, en_place = replicate 7 0, en_tag = 0\<rparr>"

record tagged_summary =
  ts_count :: int
  ts_totalSize :: int

definition empty_summary :: tagged_summary where
  "empty_summary = \<lparr>ts_count = 0, ts_totalSize = 0\<rparr>"

text \<open>
  The journal is the system time of its header, if there is a journal, and the list of its records; the
  value files are their plain contents by place. The two
  timers hold the time they fire at, the compactor the excess length it started with.
\<close>

record database =
  db_settings :: cache_settings
  db_base :: string
  db_path :: string
  db_open :: bool
  db_header :: "u32 option"
  db_binlog :: "binlog_record list"
  db_files :: "place_id \<rightharpoonup> byte_list"
  db_map :: "cache_key \<rightharpoonup> entry"
  db_removing :: "cache_key set"
  db_accessed :: "cache_key set"
  db_stale :: "cache_key list"
  db_time :: time_point
  db_excess :: int
  db_totalSize :: int
  db_minimal :: u64
  db_minimalCount :: int
  db_tagged :: "(u8 \<times> tagged_summary) list"
  db_clearingStale :: bool
  db_bundlesTimer :: "int option"
  db_pruneTimer :: "int option"
  db_compactor :: "int option"
  db_nextAttempt :: int
  db_delayAfterFailure :: int

text \<open>The state that \<open>clearState\<close> leaves, with an empty journal.\<close>

definition fresh_database :: "cache_settings \<Rightarrow> string \<Rightarrow> string \<Rightarrow> database" where
  "fresh_database st base path =
     \<lparr>db_settings = st, db_base = base, db_path = path, db_open = False, db_header = None, db_binlog = [], db_files = Map.empty,
      db_map = Map.empty, db_removing = {}, db_accessed = {}, db_stale = [], db_time = no_time, db_excess = 0,
      db_totalSize = 0, db_minimal = 0, db_minimalCount = 0, db_tagged = [], db_clearingStale = False,
      db_bundlesTimer = None, db_pruneTimer = None, db_compactor = None, db_nextAttempt = 0, db_delayAfterFailure = 10 * 1000\<rparr>"

definition store_length :: "database \<Rightarrow> int" where
  "store_length db = (if st_trackEstimatedTime (db_settings db) then 48 else 32)"

definition checkSettings :: "cache_settings \<Rightarrow> bool" where
  "checkSettings st \<longleftrightarrow>
     st_staleRemoveChunk st > 0
     \<and> st_maxDataSize st > 0 \<and> st_maxDataSize st < kDataSizeLimit
     \<and> st_maxBundledRecords st > 0 \<and> int (st_maxBundledRecords st) < kBundledRecordsLimit
     \<and> (st_totalTimeLimit st = 0 \<or> st_totalTimeLimit st > 0)
     \<and> (st_totalSizeLimit st = 0 \<or> st_totalSizeLimit st > st_maxDataSize st)"

section \<open>Statistics\<close>

definition add_summary ::
    "u8 \<Rightarrow> int \<Rightarrow> int \<Rightarrow> (u8 \<times> tagged_summary) list \<Rightarrow> (u8 \<times> tagged_summary) list" where
  "add_summary tag cnt sz m =
     (let (m', i) = flat_map_subscript (<) empty_summary tag m;
          s = snd (m' ! i)
      in m'[i := (fst (m' ! i), \<lparr>ts_count = ts_count s + cnt, ts_totalSize = ts_totalSize s + sz\<rparr>)])"

definition present :: "entry \<Rightarrow> int" where
  "present e = (if en_size e \<noteq> 0 then 1 else 0)"

definition updateStats :: "entry \<Rightarrow> entry \<Rightarrow> database \<Rightarrow> database" where
  "updateStats was now db =
     (let tagged = (if en_tag now = en_tag was
            then if en_tag now \<noteq> 0
              then add_summary (en_tag now) (present now - present was) (en_size now - en_size was) (db_tagged db)
              else db_tagged db
            else let m = (if en_tag now \<noteq> 0
                   then add_summary (en_tag now) (present now) (en_size now) (db_tagged db) else db_tagged db)
              in if en_tag was \<noteq> 0 then add_summary (en_tag was) (- present was) (- en_size was) m else m)
      in db\<lparr>db_totalSize := db_totalSize db + (en_size now - en_size was), db_tagged := tagged\<rparr>)"

text \<open>One entry fewer has the minimal time; the minimal time is forgotten with the last of them.\<close>

definition drop_minimal :: "database \<Rightarrow> database option" where
  "drop_minimal db =
     (if db_minimalCount db > 0
      then Some (if db_minimalCount db - 1 = 0
        then db\<lparr>db_minimalCount := 0, db_minimal := 0\<rparr>
        else db\<lparr>db_minimalCount := db_minimalCount db - 1\<rparr>)
      else None)"

definition count_minimal :: "u64 \<Rightarrow> u64 \<Rightarrow> database \<Rightarrow> database option" where
  "count_minimal was now db =
     (if now \<noteq> 0 \<and> (now < db_minimal db \<or> db_minimal db = 0)
      then Some (db\<lparr>db_minimal := now, db_minimalCount := 1\<rparr>)
      else if db_minimal db \<noteq> 0 \<and> was \<noteq> now
      then if now = db_minimal db
        then if db_minimalCount db > 0 then Some (db\<lparr>db_minimalCount := db_minimalCount db + 1\<rparr>) else None
        else if was = db_minimal db then drop_minimal db
        else Some db
      else Some db)"

definition setMapEntry :: "cache_key \<Rightarrow> entry \<Rightarrow> database \<Rightarrow> database option" where
  "setMapEntry key entry db =
     do {
       let already = (case db_map db key of Some e \<Rightarrow> e | None \<Rightarrow> empty_entry);
       let db1 = updateStats already entry db;
       let db2 = (if en_size already \<noteq> 0 then db1\<lparr>db_excess := db_excess db1 + store_length db1\<rparr> else db1);
       db3 \<leftarrow> count_minimal (en_useTime already) (en_useTime entry) db2;
       Some (db3\<lparr>db_map := (db_map db3)(key \<mapsto> entry)\<rparr>)
     }"

definition eraseMapEntry :: "cache_key \<Rightarrow> database \<Rightarrow> database option" where
  "eraseMapEntry key db =
     (case db_map db key of
        None \<Rightarrow> Some db
      | Some entry \<Rightarrow>
          do {
            let db1 = updateStats entry empty_entry db;
            db2 \<leftarrow> (if db_minimal db1 \<noteq> 0 \<and> en_useTime entry = db_minimal db1 then drop_minimal db1 else Some db1);
            Some (db2\<lparr>db_map := (db_map db2)(key := None)\<rparr>)
          })"

section \<open>Estimated time\<close>

text \<open>\<open>unixtime\<close> is what \<open>time(nullptr)\<close> returns at the call.\<close>

definition GetUnixtime :: "int \<Rightarrow> int" where "GetUnixtime unixtime = max unixtime 1"

definition countRelativeTime :: "int \<Rightarrow> database \<Rightarrow> u64" where
  "countRelativeTime unixtime db =
     (let delta = max (GetUnixtime unixtime - uint (tp_system (db_time db))) 0
      in getRelative (db_time db) + word_of_int delta)"

definition countTimePoint :: "int \<Rightarrow> database \<Rightarrow> time_point" where
  "countTimePoint unixtime db =
     (let now = GetUnixtime unixtime;
          delta = max (now - uint (tp_system (db_time db))) 0
      in setRelative (getRelative (db_time db) + word_of_int delta) (no_time\<lparr>tp_system := word_of_int now\<rparr>))"

definition applyTimePoint :: "time_point \<Rightarrow> database \<Rightarrow> database" where
  "applyTimePoint time db =
     (if getRelative time > getRelative (db_time db) then db\<lparr>db_time := time\<rparr> else db)"

section \<open>Replay of the journal\<close>

definition processRecordStore :: "store \<Rightarrow> database \<Rightarrow> (database \<times> bool) option" where
  "processRecordStore record db =
     (let sz = store_getSize record in
      if sz \<le> 0 \<or> sz > st_maxDataSize (db_settings db) then Some (db, False)
      else
        let entry = \<lparr>en_useTime = getRelative (db_time db), en_size = sz, en_checksum = sr_checksum record,
              en_place = sr_place record, en_tag = sr_tag record\<rparr>;
            (db1, entry1) = (if st_trackEstimatedTime (db_settings db)
              then (applyTimePoint (sr_time record) db, entry\<lparr>en_useTime := getRelative (sr_time record)\<rparr>)
              else (db, entry))
        in map_option (\<lambda>db2. (db2, True)) (setMapEntry (sr_key record) entry1 db1))"

fun processRecordMultiStore :: "store list \<Rightarrow> database \<Rightarrow> (database \<times> bool) option" where
  "processRecordMultiStore [] db = Some (db, True)"
| "processRecordMultiStore (record # rest) db =
     do {
       (db1, good) \<leftarrow> processRecordStore record db;
       if good then processRecordMultiStore rest db1 else Some (db1, False)
     }"

fun erase_keys :: "cache_key list \<Rightarrow> database \<Rightarrow> database option" where
  "erase_keys [] db = Some db"
| "erase_keys (key # rest) db =
     do {
       db1 \<leftarrow> eraseMapEntry key (db\<lparr>db_excess := db_excess db + 16\<rparr>);
       erase_keys rest db1
     }"

definition processRecordMultiRemove :: "cache_key list \<Rightarrow> database \<Rightarrow> (database \<times> bool) option" where
  "processRecordMultiRemove keys db =
     map_option (\<lambda>db1. (db1, True)) (erase_keys keys (db\<lparr>db_excess := db_excess db + 16\<rparr>))"

fun touch_keys :: "u64 \<Rightarrow> cache_key list \<Rightarrow> (cache_key \<rightharpoonup> entry) \<Rightarrow> (cache_key \<rightharpoonup> entry)" where
  "touch_keys relative [] m = m"
| "touch_keys relative (key # rest) m =
     touch_keys relative rest
       (case m key of Some e \<Rightarrow> m(key \<mapsto> e\<lparr>en_useTime := relative\<rparr>) | None \<Rightarrow> m)"

definition processRecordMultiAccess ::
    "time_point \<Rightarrow> cache_key list \<Rightarrow> database \<Rightarrow> (database \<times> bool) option" where
  "processRecordMultiAccess time keys db =
     (if \<not> st_trackEstimatedTime (db_settings db) then None
      else let db1 = applyTimePoint time db
        in Some (db1\<lparr>db_excess := db_excess db1 + 16 + 16 * int (length keys),
             db_map := touch_keys (getRelative time) keys (db_map db1)\<rparr>, True))"

definition handle_record :: "binlog_record \<Rightarrow> database \<Rightarrow> (database \<times> bool) option" where
  "handle_record record db =
     (case record of
        StoreRecord r \<Rightarrow> processRecordStore r db
      | MultiStore rs \<Rightarrow> processRecordMultiStore rs db
      | MultiRemove keys \<Rightarrow> processRecordMultiRemove keys db
      | MultiAccess time keys \<Rightarrow> processRecordMultiAccess time keys db)"

text \<open>The loop of \<open>readBinlogHelper\<close> over the records that the reader delivers.\<close>

fun handle_records :: "binlog_record list \<Rightarrow> database \<Rightarrow> (database \<times> bool) option" where
  "handle_records [] db = Some (db, True)"
| "handle_records (record # rest) db =
     do {
       (db1, good) \<leftarrow> handle_record record db;
       if good then handle_records rest db1 else Some (db1, False)
     }"

section \<open>Sums over the map\<close>

definition map_sum :: "(entry \<Rightarrow> int) \<Rightarrow> (cache_key \<rightharpoonup> entry) \<Rightarrow> int" where
  "map_sum f m = (\<Sum>k \<in> dom m. f (the (m k)))"

lemma map_sum_empty [simp]: "map_sum f Map.empty = 0"
  by (simp add: map_sum_def)

lemma map_sum_remove: "finite (dom m) \<Longrightarrow> map_sum f m = map_sum f (m(k := None)) + (case m k of Some e \<Rightarrow> f e | None \<Rightarrow> 0)"
proof (cases "m k")
  case (Some e)
  assume "finite (dom m)"
  then have "map_sum f m = f (the (m k)) + (\<Sum>k' \<in> dom m - {k}. f (the (m k')))"
    unfolding map_sum_def using Some by (intro sum.remove) auto
  also have "(\<Sum>k' \<in> dom m - {k}. f (the (m k'))) = map_sum f (m(k := None))"
    unfolding map_sum_def by (rule sum.cong) auto
  finally show ?thesis using Some by simp
next
  case None
  then have "m(k := None) = m" by auto
  with None show ?thesis by simp
qed

lemma map_sum_update:
  "finite (dom m) \<Longrightarrow> map_sum f (m(k \<mapsto> e)) = map_sum f m + f e - (case m k of Some e' \<Rightarrow> f e' | None \<Rightarrow> 0)"
  using map_sum_remove [of m f k] map_sum_remove [of "m(k \<mapsto> e)" f k] by simp

lemma map_sum_cong: "dom m = dom m' \<Longrightarrow> (\<And>k e e'. m k = Some e \<Longrightarrow> m' k = Some e' \<Longrightarrow> f e = f e') \<Longrightarrow> map_sum f m = map_sum f m'"
  unfolding map_sum_def
proof (rule sum.cong)
  fix k
  assume eq: "dom m = dom m'" and f: "\<And>k e e'. m k = Some e \<Longrightarrow> m' k = Some e' \<Longrightarrow> f e = f e'"
    and "k \<in> dom m'"
  then obtain e e' where "m k = Some e" "m' k = Some e'" by blast
  with f show "f (the (m k)) = f (the (m' k))" by simp
qed

lemma map_sum_mono: "(\<And>k e. m k = Some e \<Longrightarrow> 0 \<le> f e) \<Longrightarrow> 0 \<le> map_sum f m"
  unfolding map_sum_def by (rule sum_nonneg) auto

section \<open>The statistics are exact\<close>

definition tag_size :: "u8 \<Rightarrow> entry \<Rightarrow> int" where
  "tag_size tag e = (if en_tag e = tag then en_size e else 0)"

definition tag_present :: "u8 \<Rightarrow> entry \<Rightarrow> int" where
  "tag_present tag e = (if en_tag e = tag then 1 else 0)"

definition summary_of :: "u8 \<Rightarrow> (u8 \<times> tagged_summary) list \<Rightarrow> tagged_summary" where
  "summary_of tag m = (case flat_map_get (<) tag m of Some s \<Rightarrow> s | None \<Rightarrow> empty_summary)"

definition stats_ok :: "database \<Rightarrow> bool" where
  "stats_ok db \<longleftrightarrow> finite (dom (db_map db))
     \<and> (\<forall>k e. db_map db k = Some e \<longrightarrow> 0 < en_size e)
     \<and> db_totalSize db = map_sum en_size (db_map db)
     \<and> key_sorted (<) (db_tagged db)
     \<and> (\<forall>tag. tag \<noteq> 0 \<longrightarrow> ts_count (summary_of tag (db_tagged db)) = map_sum (tag_present tag) (db_map db)
         \<and> ts_totalSize (summary_of tag (db_tagged db)) = map_sum (tag_size tag) (db_map db))
     \<and> (db_minimal db \<noteq> 0 \<longrightarrow> 0 < db_minimalCount db)"

lemma add_summary_ok:
  assumes "key_sorted (<) m"
  shows "key_sorted (<) (add_summary tag c s m) \<and> summary_of t (add_summary tag c s m) =
    (if t = tag then \<lparr>ts_count = ts_count (summary_of t m) + c, ts_totalSize = ts_totalSize (summary_of t m) + s\<rparr>
     else summary_of t m)"
proof -
  obtain ys w zs where eq: "flat_map_subscript (<) empty_summary tag m = (ys @ (tag, w) # zs, length ys)"
    and look: "map_of (ys @ (tag, w) # zs) = (map_of m)(tag \<mapsto> summary_of tag m)"
    and srt: "key_sorted (<) (ys @ (tag, w) # zs)" and fresh: "tag \<notin> fst ` set ys"
  proof (cases rule: less_total.insert_cases [OF assms, of tag empty_summary])
    case (1 ys zs)
    have get: "summary_of tag m = empty_summary"
      using 1(2) by (auto simp: summary_of_def less_total.find_get [OF assms] split: option.splits)
    show thesis
      using 1 that [of ys empty_summary zs] less_total.insert_lookup [OF assms, of tag empty_summary]
        less_total.insert_sorted [OF assms, of "(tag, empty_summary)"] get
      by (simp add: map_subscript_insert)
  next
    case (2 ys w zs)
    have "map_of m tag = Some w" using 2 map_of_middle [of tag ys w zs] by simp
    then have get: "summary_of tag m = w" by (simp add: summary_of_def less_total.find_get [OF assms])
    show thesis
      using 2 that [of ys w zs] \<open>map_of m tag = Some w\<close> get assms
      by (simp add: map_subscript_insert fun_upd_idem)
  qed
  let ?s' = "\<lparr>ts_count = ts_count w + c, ts_totalSize = ts_totalSize w + s\<rparr>"
  have w: "w = summary_of tag m" using look map_of_middle [OF fresh, of w zs] by (simp add: fun_eq_iff split: if_splits)
  have new: "add_summary tag c s m = ys @ (tag, ?s') # zs"
    by (simp add: add_summary_def eq)
  have srt': "key_sorted (<) (ys @ (tag, ?s') # zs)" using srt by (simp add: sorted_wrt_append)
  have "map_of (ys @ (tag, ?s') # zs) = (map_of m)(tag \<mapsto> ?s')"
    using look unfolding map_of_middle [OF fresh] by (metis fun_upd_upd)
  then have "summary_of t (add_summary tag c s m) = (if t = tag then ?s' else summary_of t m)"
    unfolding new summary_of_def less_total.find_get [OF srt'] less_total.find_get [OF assms] by simp
  then show ?thesis using srt' w new by simp
qed

lemma updateStats_fields [simp]:
  "db_map (updateStats was now db) = db_map db"
  "db_minimal (updateStats was now db) = db_minimal db"
  "db_minimalCount (updateStats was now db) = db_minimalCount db"
  "db_totalSize (updateStats was now db) = db_totalSize db + (en_size now - en_size was)"
  "db_settings (updateStats was now db) = db_settings db"
  "db_time (updateStats was now db) = db_time db"
  by (simp_all add: updateStats_def Let_def)

lemma updateStats_tagged:
  assumes "key_sorted (<) (db_tagged db)"
  shows "key_sorted (<) (db_tagged (updateStats was now db))"
    and "tag \<noteq> 0 \<Longrightarrow> ts_totalSize (summary_of tag (db_tagged (updateStats was now db)))
      = ts_totalSize (summary_of tag (db_tagged db)) + tag_size tag now - tag_size tag was"
    and "tag \<noteq> 0 \<Longrightarrow> ts_count (summary_of tag (db_tagged (updateStats was now db)))
      = ts_count (summary_of tag (db_tagged db)) + (if en_tag now = tag then present now else 0)
        - (if en_tag was = tag then present was else 0)"
  using assms
  by (auto simp: updateStats_def Let_def add_summary_ok tag_size_def)

text \<open>What the operations on the map leave alone.\<close>

definition frame :: "database \<Rightarrow> database" where
  "frame db = db\<lparr>db_map := Map.empty, db_totalSize := 0, db_tagged := [], db_excess := 0, db_minimal := 0,
     db_minimalCount := 0\<rparr>"

lemma frame_fields:
  assumes "frame db' = frame db"
  shows "db_settings db' = db_settings db" "db_base db' = db_base db" "db_path db' = db_path db"
    "db_open db' = db_open db" "db_header db' = db_header db" "db_binlog db' = db_binlog db" "db_files db' = db_files db"
    "db_removing db' = db_removing db" "db_accessed db' = db_accessed db" "db_stale db' = db_stale db"
    "db_time db' = db_time db" "db_bundlesTimer db' = db_bundlesTimer db" "db_pruneTimer db' = db_pruneTimer db"
    "db_compactor db' = db_compactor db" "db_nextAttempt db' = db_nextAttempt db"
    "db_clearingStale db' = db_clearingStale db"
  by ((insert assms, cases db, cases db', simp add: frame_def)+)

lemma frame_updates [simp]:
  "frame (db\<lparr>db_map := m\<rparr>) = frame db" "frame (db\<lparr>db_excess := x\<rparr>) = frame db"
  "frame (db\<lparr>db_minimal := t\<rparr>) = frame db" "frame (db\<lparr>db_minimalCount := x\<rparr>) = frame db"
  "frame (db\<lparr>db_totalSize := x\<rparr>) = frame db" "frame (db\<lparr>db_tagged := g\<rparr>) = frame db"
  "frame (updateStats was now db) = frame db"
  by (simp_all add: frame_def updateStats_def Let_def)

lemma stats_ok_excess [simp]: "stats_ok (db\<lparr>db_excess := x\<rparr>) = stats_ok db"
  by (simp add: stats_ok_def)

lemma stats_ok_frameless:
  assumes "db_map db' = db_map db" "db_totalSize db' = db_totalSize db" "db_tagged db' = db_tagged db"
    "db_minimal db' = db_minimal db" "db_minimalCount db' = db_minimalCount db"
  shows "stats_ok db' = stats_ok db"
  using assms by (simp add: stats_ok_def)

text \<open>Statistics that were exact are exact for the map after one entry is replaced.\<close>

lemma stats_replace:
  assumes ok: "stats_ok db"
    and m': "m' = (case now of Some e \<Rightarrow> (db_map db)(key \<mapsto> e) | None \<Rightarrow> (db_map db)(key := None))"
    and was_e: "was_e = (case db_map db key of Some e \<Rightarrow> e | None \<Rightarrow> empty_entry)"
    and now_e: "now_e = (case now of Some e \<Rightarrow> e | None \<Rightarrow> empty_entry)"
    and pos: "\<And>e. now = Some e \<Longrightarrow> 0 < en_size e"
    and db': "db_map db' = m'" "db_totalSize db' = db_totalSize (updateStats was_e now_e db)"
      "db_tagged db' = db_tagged (updateStats was_e now_e db)" "db_minimal db' \<noteq> 0 \<longrightarrow> 0 < db_minimalCount db'"
  shows "stats_ok db'"
proof -
  have fin: "finite (dom (db_map db))" and srt: "key_sorted (<) (db_tagged db)"
    and p: "\<And>k e. db_map db k = Some e \<Longrightarrow> 0 < en_size e" using ok by (auto simp: stats_ok_def)
  have sums: "map_sum f m' = map_sum f (db_map db) + f now_e - f was_e" if "f empty_entry = 0" for f
    using map_sum_remove [OF fin, of f key] map_sum_update [OF fin, of f key] that m' was_e now_e
    by (cases now; cases "db_map db key") simp_all
  have e0: "en_size empty_entry = 0" "en_tag empty_entry = 0" by (simp_all add: empty_entry_def)
  have pres: "0 < en_size now_e \<or> now_e = empty_entry" "0 < en_size was_e \<or> was_e = empty_entry"
    using pos now_e was_e p by (auto split: option.splits)
  have "finite (dom m')" using fin m' by (auto split: option.splits)
  moreover have "0 < en_size e" if "m' k = Some e" for k e
    using that m' p pos by (auto split: option.splits if_splits)
  moreover have "(if en_tag now_e = tag then present now_e else 0) = tag_present tag now_e"
    "(if en_tag was_e = tag then present was_e else 0) = tag_present tag was_e" if "tag \<noteq> 0" for tag
    using pres that e0 by (auto simp: present_def tag_present_def)
  moreover have "tag_present tag empty_entry = 0" "tag_size tag empty_entry = 0" if "tag \<noteq> 0" for tag
    using that e0 by (simp_all add: tag_present_def tag_size_def)
  ultimately show ?thesis
    using ok updateStats_tagged [OF srt, where was = was_e and now = now_e] db' e0 sums by (simp add: stats_ok_def)
qed

lemma drop_minimal_some:
  "db_minimal db \<noteq> 0 \<longrightarrow> 0 < db_minimalCount db \<Longrightarrow> db_minimal db \<noteq> 0 \<Longrightarrow>
    \<exists>t c. drop_minimal db = Some (db\<lparr>db_minimal := t, db_minimalCount := c\<rparr>) \<and> (t \<noteq> 0 \<longrightarrow> 0 < c)"
  by (cases db) (auto simp: drop_minimal_def)

lemma count_minimal_some:
  assumes "db_minimal db \<noteq> 0 \<longrightarrow> 0 < db_minimalCount db"
  shows "\<exists>t c. count_minimal was now db = Some (db\<lparr>db_minimal := t, db_minimalCount := c\<rparr>) \<and> (t \<noteq> 0 \<longrightarrow> 0 < c)"
proof -
  have id: "db = db\<lparr>db_minimal := db_minimal db, db_minimalCount := db_minimalCount db\<rparr>"
    "db\<lparr>db_minimalCount := c\<rparr> = db\<lparr>db_minimal := db_minimal db, db_minimalCount := c\<rparr>" for c
    by (cases db, simp)+
  show ?thesis
  proof (cases "now \<noteq> 0 \<and> (now < db_minimal db \<or> db_minimal db = 0)")
    case True
    then have "count_minimal was now db = Some (db\<lparr>db_minimal := now, db_minimalCount := 1\<rparr>)"
      unfolding count_minimal_def by (rule if_P)
    then show ?thesis by (meson zero_less_one)
  next
    case F: False
    show ?thesis
    proof (cases "db_minimal db \<noteq> 0 \<and> was \<noteq> now \<and> (now = db_minimal db \<or> was = db_minimal db)")
      case True
      show ?thesis
      proof (cases "now = db_minimal db")
        case T: True
        then have "count_minimal was now db = Some (db\<lparr>db_minimalCount := db_minimalCount db + 1\<rparr>)"
          unfolding count_minimal_def if_not_P [OF F] using True assms by simp
        with id(2) assms T show ?thesis by (metis add_pos_pos zero_less_one True)
      next
        case False
        then have "count_minimal was now db = drop_minimal db"
          unfolding count_minimal_def if_not_P [OF F] using True by simp
        with drop_minimal_some [OF assms] True show ?thesis by simp
      qed
    next
      case False
      then have "count_minimal was now db = Some db"
        unfolding count_minimal_def if_not_P [OF F] by auto
      then show ?thesis using id(1) assms by metis
    qed
  qed
qed

lemma setMapEntry_ok:
  assumes ok: "stats_ok db" and pos: "0 < en_size entry"
  shows "\<exists>db'. setMapEntry key entry db = Some db' \<and> stats_ok db' \<and> frame db' = frame db
    \<and> db_map db' = (db_map db)(key \<mapsto> entry)"
proof -
  let ?already = "case db_map db key of Some e \<Rightarrow> e | None \<Rightarrow> empty_entry"
  let ?db1 = "updateStats ?already entry db"
  define db2 where "db2 = (if en_size ?already \<noteq> 0 then ?db1\<lparr>db_excess := db_excess ?db1 + store_length ?db1\<rparr> else ?db1)"
  have fields: "db_map db2 = db_map db" "db_totalSize db2 = db_totalSize ?db1" "db_tagged db2 = db_tagged ?db1"
    "frame db2 = frame db" by (auto simp: db2_def)
  have "db_minimal db2 \<noteq> 0 \<longrightarrow> 0 < db_minimalCount db2" using ok by (simp add: db2_def stats_ok_def)
  from count_minimal_some [OF this, of "en_useTime ?already" "en_useTime entry"] obtain t c where
    cm: "count_minimal (en_useTime ?already) (en_useTime entry) db2 = Some (db2\<lparr>db_minimal := t, db_minimalCount := c\<rparr>)"
    and tc: "t \<noteq> 0 \<longrightarrow> 0 < c" by blast
  have eq: "setMapEntry key entry db = Some (db2\<lparr>db_minimal := t, db_minimalCount := c, db_map := (db_map db)(key \<mapsto> entry)\<rparr>)"
    using fields(1) cm by (simp add: setMapEntry_def Let_def flip: db2_def)
  show ?thesis
    unfolding eq using fields tc
    by (auto intro!: stats_replace [OF ok refl refl refl, where now = "Some entry" and key = key] simp: pos)
qed

lemma eraseMapEntry_ok:
  assumes ok: "stats_ok db"
  shows "\<exists>db'. eraseMapEntry key db = Some db' \<and> stats_ok db' \<and> frame db' = frame db
    \<and> db_map db' = (db_map db)(key := None)"
proof (cases "db_map db key")
  case None
  then have "(db_map db)(key := None) = db_map db" by auto
  with None ok show ?thesis by (simp add: eraseMapEntry_def)
next
  case (Some e)
  let ?db1 = "updateStats e empty_entry db"
  have min: "db_minimal ?db1 \<noteq> 0 \<longrightarrow> 0 < db_minimalCount ?db1" using ok by (simp add: stats_ok_def)
  have "\<exists>t c. eraseMapEntry key db = Some (?db1\<lparr>db_minimal := t, db_minimalCount := c, db_map := (db_map db)(key := None)\<rparr>)
    \<and> (t \<noteq> 0 \<longrightarrow> 0 < c)"
  proof (cases "db_minimal ?db1 \<noteq> 0 \<and> en_useTime e = db_minimal ?db1")
    case True
    then show ?thesis using drop_minimal_some [OF min] Some by (fastforce simp: eraseMapEntry_def)
  next
    case False
    then have "eraseMapEntry key db = Some (?db1\<lparr>db_map := (db_map db)(key := None)\<rparr>)"
      using Some by (auto simp: eraseMapEntry_def)
    moreover have "?db1\<lparr>db_map := (db_map db)(key := None)\<rparr> = ?db1\<lparr>db_minimal := db_minimal ?db1,
        db_minimalCount := db_minimalCount ?db1, db_map := (db_map db)(key := None)\<rparr>"
      by (cases ?db1) simp
    ultimately show ?thesis using min by metis
  qed
  then obtain t c where eq: "eraseMapEntry key db = Some (?db1\<lparr>db_minimal := t, db_minimalCount := c, db_map := (db_map db)(key := None)\<rparr>)"
    and tc: "t \<noteq> 0 \<longrightarrow> 0 < c" by blast
  show ?thesis
    unfolding eq using tc Some
    by (auto intro!: stats_replace [OF ok refl refl refl, where now = None and key = key])
qed

section \<open>What a replayed record does to the map\<close>

text \<open>The entry a store record describes; without estimated times its use time is \<open>relative\<close>.\<close>

definition entry_of :: "bool \<Rightarrow> u64 \<Rightarrow> store \<Rightarrow> entry" where
  "entry_of track relative r =
     \<lparr>en_useTime = (if track then getRelative (sr_time r) else relative), en_size = store_getSize r,
      en_checksum = sr_checksum r, en_place = sr_place r, en_tag = sr_tag r\<rparr>"

definition store_ok :: "cache_settings \<Rightarrow> store \<Rightarrow> bool" where
  "store_ok st r \<longleftrightarrow> 0 < store_getSize r \<and> store_getSize r \<le> st_maxDataSize st
     \<and> length (sr_size r) = 3 \<and> length (sr_place r) = 7"

definition record_ok :: "cache_settings \<Rightarrow> binlog_record \<Rightarrow> bool" where
  "record_ok st record \<longleftrightarrow>
     (case record of
        StoreRecord r \<Rightarrow> store_ok st r
      | MultiStore rs \<Rightarrow> rs \<noteq> [] \<and> length rs \<le> st_maxBundledRecords st \<and> list_all (store_ok st) rs
      | MultiRemove ks \<Rightarrow> ks \<noteq> [] \<and> length ks \<le> st_maxBundledRecords st
      | MultiAccess t ks \<Rightarrow> st_trackEstimatedTime st \<and> length ks \<le> st_maxBundledRecords st)"

definition replay_record ::
    "bool \<Rightarrow> u64 \<Rightarrow> binlog_record \<Rightarrow> (cache_key \<rightharpoonup> entry) \<Rightarrow> (cache_key \<rightharpoonup> entry)" where
  "replay_record track relative record m =
     (case record of
        StoreRecord r \<Rightarrow> m(sr_key r \<mapsto> entry_of track relative r)
      | MultiStore rs \<Rightarrow> fold (\<lambda>r m. m(sr_key r \<mapsto> entry_of track relative r)) rs m
      | MultiRemove ks \<Rightarrow> m |` (- set ks)
      | MultiAccess t ks \<Rightarrow> touch_keys (getRelative t) ks m)"

lemma touch_keys_apply:
  "touch_keys t ks m k = map_option (\<lambda>e. if k \<in> set ks then e\<lparr>en_useTime := t\<rparr> else e) (m k)"
proof (induction ks arbitrary: m)
  case Nil
  then show ?case by (cases "m k") simp_all
next
  case (Cons a ks)
  then show ?case by (cases "m a"; cases "m k"; cases "k = a") auto
qed

lemma stats_ok_touch:
  assumes "stats_ok db"
  shows "stats_ok (db\<lparr>db_map := touch_keys t ks (db_map db)\<rparr>)"
proof -
  let ?m = "touch_keys t ks (db_map db)"
  have d: "dom ?m = dom (db_map db)" by (auto simp: touch_keys_apply dom_def)
  have "map_sum f ?m = map_sum f (db_map db)" if "\<And>e. f (e\<lparr>en_useTime := t\<rparr>) = f e" for f
    by (rule map_sum_cong [OF d]) (auto simp: touch_keys_apply that)
  moreover have "0 < en_size e" if "?m k = Some e" for k e
    using that assms by (auto simp: touch_keys_apply stats_ok_def split: if_splits)
  ultimately show ?thesis
    using assms d by (simp add: stats_ok_def tag_size_def tag_present_def)
qed

text \<open>What replaying may change: the map with its statistics, and the time where times are tracked.\<close>

definition replayed :: "database \<Rightarrow> database \<Rightarrow> bool" where
  "replayed db db' \<longleftrightarrow> stats_ok db' \<and> frame (db'\<lparr>db_time := no_time\<rparr>) = frame (db\<lparr>db_time := no_time\<rparr>)
     \<and> (\<not> st_trackEstimatedTime (db_settings db) \<longrightarrow> db_time db' = db_time db)"

lemma frame_time: "frame db' = frame db \<Longrightarrow> frame (db'\<lparr>db_time := t\<rparr>) = frame (db\<lparr>db_time := t\<rparr>)"
  by (cases db; cases db') (simp add: frame_def)

lemma replayed_refl: "stats_ok db \<Longrightarrow> replayed db db"
  by (simp add: replayed_def)

lemma replayed_settings: "replayed db db' \<Longrightarrow> db_settings db' = db_settings db"
  using frame_fields(1) [of "db'\<lparr>db_time := no_time\<rparr>" "db\<lparr>db_time := no_time\<rparr>"] by (simp add: replayed_def)

lemma replayed_trans: "replayed db db' \<Longrightarrow> replayed db' db'' \<Longrightarrow> replayed db db''"
  using replayed_settings [of db db'] by (simp add: replayed_def)

lemma replayed_frame:
  assumes "stats_ok db'" "frame db' = frame db"
  shows "replayed db db'"
  using assms frame_time [OF assms(2)] frame_fields(11) [OF assms(2)] by (simp add: replayed_def)

lemma replayed_applyTimePoint:
  "st_trackEstimatedTime (db_settings db) \<Longrightarrow> stats_ok db \<Longrightarrow> replayed db (applyTimePoint t db)"
  by (auto simp: replayed_def applyTimePoint_def stats_ok_def)

lemma applyTimePoint_map [simp]: "db_map (applyTimePoint t db) = db_map db"
  "db_settings (applyTimePoint t db) = db_settings db"
  by (simp_all add: applyTimePoint_def)

lemma processRecordStore_ok:
  assumes ok: "stats_ok db"
  shows "\<exists>db' good. processRecordStore r db = Some (db', good) \<and> replayed db db'
    \<and> good = (0 < store_getSize r \<and> store_getSize r \<le> st_maxDataSize (db_settings db))
    \<and> (good \<longrightarrow> db_map db' = (db_map db)
        (sr_key r \<mapsto> entry_of (st_trackEstimatedTime (db_settings db)) (getRelative (db_time db)) r))"
proof (cases "0 < store_getSize r \<and> store_getSize r \<le> st_maxDataSize (db_settings db)")
  case False
  then have "processRecordStore r db = Some (db, False)" by (auto simp: processRecordStore_def Let_def)
  with False ok show ?thesis by (auto simp: replayed_refl)
next
  case True
  let ?e = "entry_of (st_trackEstimatedTime (db_settings db)) (getRelative (db_time db)) r"
  let ?db1 = "if st_trackEstimatedTime (db_settings db) then applyTimePoint (sr_time r) db else db"
  have r1: "replayed db ?db1" using ok replayed_applyTimePoint replayed_refl by simp
  then have "stats_ok ?db1" by (simp add: replayed_def)
  from setMapEntry_ok [OF this, of ?e "sr_key r"] True obtain db' where
    db': "setMapEntry (sr_key r) ?e ?db1 = Some db'" "stats_ok db'" "frame db' = frame ?db1"
      "db_map db' = (db_map ?db1)(sr_key r \<mapsto> ?e)" by (auto simp: entry_of_def)
  have "processRecordStore r db = map_option (\<lambda>db2. (db2, True)) (setMapEntry (sr_key r) ?e ?db1)"
    using True by (auto simp: processRecordStore_def Let_def entry_of_def)
  with db' True show ?thesis
    using replayed_trans [OF r1 replayed_frame [OF db'(2,3)]] by (auto split: if_splits)
qed

lemma entry_of_replayed:
  "replayed db db' \<Longrightarrow> entry_of (st_trackEstimatedTime (db_settings db)) (getRelative (db_time db'))
    = entry_of (st_trackEstimatedTime (db_settings db)) (getRelative (db_time db))"
  by (auto simp: replayed_def entry_of_def fun_eq_iff)

lemma replay_record_replayed:
  "replayed db db' \<Longrightarrow> replay_record (st_trackEstimatedTime (db_settings db)) (getRelative (db_time db'))
    = replay_record (st_trackEstimatedTime (db_settings db)) (getRelative (db_time db))"
  by (simp add: replay_record_def [abs_def] entry_of_replayed cong: binlog_record.case_cong)

lemma processRecordMultiStore_ok:
  assumes "stats_ok db"
  shows "\<exists>db' good. processRecordMultiStore rs db = Some (db', good) \<and> replayed db db'
    \<and> (list_all (store_ok (db_settings db)) rs \<longrightarrow> good
      \<and> db_map db' = replay_record (st_trackEstimatedTime (db_settings db)) (getRelative (db_time db)) (MultiStore rs) (db_map db))"
  using assms
proof (induction rs arbitrary: db)
  case Nil
  then show ?case by (auto simp: replayed_refl replay_record_def)
next
  case (Cons r rs)
  from processRecordStore_ok [OF Cons.prems, of r] obtain db1 good where
    1: "processRecordStore r db = Some (db1, good)" "replayed db db1"
      "good = (0 < store_getSize r \<and> store_getSize r \<le> st_maxDataSize (db_settings db))"
      "good \<longrightarrow> db_map db1 = (db_map db)(sr_key r \<mapsto> entry_of (st_trackEstimatedTime (db_settings db)) (getRelative (db_time db)) r)"
    by blast
  show ?case
  proof (cases good)
    case False
    then have "processRecordMultiStore (r # rs) db = Some (db1, False)" "\<not> store_ok (db_settings db) r"
      using 1(1,3) by (auto simp: store_ok_def)
    with 1(2) show ?thesis by (intro exI [of _ db1] exI [of _ False]) simp
  next
    case True
    have ok1: "stats_ok db1" and st: "db_settings db1 = db_settings db"
      using 1(2) replayed_settings [OF 1(2)] by (simp_all add: replayed_def)
    from Cons.IH [OF ok1] obtain db2 good2 where
      2: "processRecordMultiStore rs db1 = Some (db2, good2)" "replayed db1 db2"
        "list_all (store_ok (db_settings db)) rs \<longrightarrow> good2 \<and> db_map db2 =
          replay_record (st_trackEstimatedTime (db_settings db)) (getRelative (db_time db1)) (MultiStore rs) (db_map db1)"
      unfolding st by blast
    note t = entry_of_replayed [OF 1(2)]
    show ?thesis
      using 1 2 True replayed_trans [OF 1(2) 2(2)] by (auto simp: replay_record_def t)
  qed
qed

lemma erase_keys_ok:
  assumes "stats_ok db"
  shows "\<exists>db'. erase_keys ks db = Some db' \<and> stats_ok db' \<and> frame db' = frame db
    \<and> db_map db' = db_map db |` (- set ks)"
  using assms
proof (induction ks arbitrary: db)
  case Nil
  then show ?case by (simp add: restrict_map_def)
next
  case (Cons k ks)
  let ?db = "db\<lparr>db_excess := db_excess db + 16\<rparr>"
  from eraseMapEntry_ok [of ?db k] Cons.prems obtain db1 where
    1: "eraseMapEntry k ?db = Some db1" "stats_ok db1" "frame db1 = frame db" "db_map db1 = (db_map db)(k := None)"
    by auto
  from Cons.IH [OF 1(2)] obtain db2 where
    2: "erase_keys ks db1 = Some db2" "stats_ok db2" "frame db2 = frame db1" "db_map db2 = db_map db1 |` (- set ks)" by blast
  have "(db_map db)(k := None) |` (- set ks) = db_map db |` (- set (k # ks))"
    by (auto simp: restrict_map_def fun_eq_iff)
  with 1 2 show ?case by simp
qed

lemma handle_record_ok:
  assumes ok: "stats_ok db" and acc: "\<And>t ks. rc = MultiAccess t ks \<Longrightarrow> st_trackEstimatedTime (db_settings db)"
  shows "\<exists>db' good. handle_record rc db = Some (db', good) \<and> replayed db db'
    \<and> (record_ok (db_settings db) rc \<longrightarrow> good \<and> db_map db' =
        replay_record (st_trackEstimatedTime (db_settings db)) (getRelative (db_time db)) rc (db_map db))"
proof (cases rc)
  case (StoreRecord r)
  with processRecordStore_ok [OF ok, of r] show ?thesis
    by (auto simp: handle_record_def record_ok_def store_ok_def replay_record_def)
next
  case (MultiStore rs)
  with processRecordMultiStore_ok [OF ok, of rs] show ?thesis
    by (auto simp: handle_record_def record_ok_def)
next
  case (MultiRemove ks)
  let ?db = "db\<lparr>db_excess := db_excess db + 16\<rparr>"
  from erase_keys_ok [of ?db ks] ok obtain db' where
    "erase_keys ks ?db = Some db'" "stats_ok db'" "frame db' = frame db" "db_map db' = db_map db |` (- set ks)" by auto
  with MultiRemove show ?thesis
    by (auto simp: handle_record_def processRecordMultiRemove_def replay_record_def intro: replayed_frame)
next
  case (MultiAccess t ks)
  let ?db1 = "applyTimePoint t db"
  let ?db2 = "?db1\<lparr>db_excess := db_excess ?db1 + 16 + 16 * int (length ks), db_map := touch_keys (getRelative t) ks (db_map ?db1)\<rparr>"
  have tr: "st_trackEstimatedTime (db_settings db)" using acc MultiAccess by blast
  have 1: "replayed db ?db1" using replayed_applyTimePoint [OF tr ok] .
  have "stats_ok (?db1\<lparr>db_excess := db_excess ?db1 + 16 + 16 * int (length ks)\<rparr>)" using 1 by (simp add: replayed_def)
  from stats_ok_touch [OF this, of "getRelative t" ks] have "replayed ?db1 ?db2"
    by (intro replayed_frame) simp_all
  from replayed_trans [OF 1 this] tr MultiAccess show ?thesis
    by (auto simp: handle_record_def processRecordMultiAccess_def Let_def replay_record_def)
qed

lemma handle_records_ok:
  assumes "stats_ok db" "\<forall>t ks. MultiAccess t ks \<in> set records \<longrightarrow> st_trackEstimatedTime (db_settings db)"
  shows "\<exists>db' good. handle_records records db = Some (db', good) \<and> replayed db db'
    \<and> (list_all (record_ok (db_settings db)) records \<longrightarrow> good \<and> db_map db' =
        fold (replay_record (st_trackEstimatedTime (db_settings db)) (getRelative (db_time db))) records (db_map db))"
  using assms
proof (induction records arbitrary: db)
  case Nil
  then show ?case by (auto simp: replayed_refl)
next
  case (Cons r records)
  from handle_record_ok [OF Cons.prems(1), of r] Cons.prems(2) obtain db1 good where
    1: "handle_record r db = Some (db1, good)" "replayed db db1"
      "record_ok (db_settings db) r \<longrightarrow> good \<and> db_map db1 =
        replay_record (st_trackEstimatedTime (db_settings db)) (getRelative (db_time db)) r (db_map db)"
    by (auto; blast)
  show ?case
  proof (cases good)
    case False
    then have "handle_records (r # records) db = Some (db1, False)" "\<not> record_ok (db_settings db) r"
      using 1(1,3) by auto
    with 1(2) show ?thesis by (intro exI [of _ db1] exI [of _ False]) simp
  next
    case True
    have ok1: "stats_ok db1" and st: "db_settings db1 = db_settings db"
      using 1(2) replayed_settings [OF 1(2)] by (simp_all add: replayed_def)
    have "\<forall>t ks. MultiAccess t ks \<in> set records \<longrightarrow> st_trackEstimatedTime (db_settings db1)"
      using Cons.prems(2) st by simp
    from Cons.IH [OF ok1 this] obtain db2 good2 where
      2: "handle_records records db1 = Some (db2, good2)" "replayed db1 db2"
        "list_all (record_ok (db_settings db)) records \<longrightarrow> good2 \<and> db_map db2 =
          fold (replay_record (st_trackEstimatedTime (db_settings db)) (getRelative (db_time db1))) records (db_map db1)"
      unfolding st by blast
    note t = replay_record_replayed [OF 1(2)]
    show ?thesis
      using 1 2 True replayed_trans [OF 1(2) 2(2)] by (auto simp: t)
  qed
qed

end
