(* ===== verification/CachePrune.thy ===== *)
theory CachePrune
  imports CacheMap
begin

text \<open>
  \<open>storage_cache_database_object.cpp\<close>, second part: what \<open>prune\<close> selects. \<open>collectTimeStale\<close> takes the
  entries that were not used for too long, \<open>collectSizeStale\<close> the least recently used entries that have
  to go to bring the total size under its limit. The order of the loops over the map is an argument;
  the first element of an empty container is \<open>None\<close>.
\<close>

section \<open>Definitions\<close>

definition pruneBeforeTime :: "int \<Rightarrow> database \<Rightarrow> u64" where
  "pruneBeforeTime unixtime db =
     (let relative = countRelativeTime unixtime db;
          limit = st_totalTimeLimit (db_settings db)
      in if limit \<noteq> 0 \<and> relative > word_of_int limit then relative - word_of_int limit else 0)"

fun time_stale_loop ::
    "u64 \<Rightarrow> (cache_key \<rightharpoonup> entry) \<Rightarrow> cache_key list \<Rightarrow> cache_key list \<times> int \<times> u64 \<times> int
      \<Rightarrow> cache_key list \<times> int \<times> u64 \<times> int" where
  "time_stale_loop before m [] acc = acc"
| "time_stale_loop before m (key # rest) (stale, ttl, minimal, cnt) =
     time_stale_loop before m rest
       (case m key of
          None \<Rightarrow> (stale, ttl, minimal, cnt)
        | Some e \<Rightarrow>
            if en_useTime e \<le> before then (fst (flat_set_insert (<) key stale), ttl + en_size e, minimal, cnt)
            else if minimal = 0 \<or> minimal > en_useTime e then (stale, ttl, en_useTime e, 1)
            else if minimal = en_useTime e then (stale, ttl, minimal, cnt + 1)
            else (stale, ttl, minimal, cnt))"

definition collectTimeStale ::
    "int \<Rightarrow> cache_key list \<Rightarrow> cache_key list \<times> int \<Rightarrow> database \<Rightarrow> (cache_key list \<times> int) \<times> database" where
  "collectTimeStale unixtime order stale db =
     (if st_totalTimeLimit (db_settings db) = 0 then (stale, db)
      else let before = pruneBeforeTime unixtime db in
        if db_minimal db = 0 \<or> db_minimal db > before then (stale, db)
        else let (keys, ttl, minimal, cnt) =
               time_stale_loop before (db_map db) order (fst stale, snd stale, 0, 0)
          in ((keys, ttl), db\<lparr>db_minimal := minimal, db_minimalCount := cnt\<rparr>))"

type_synonym bucket = "cache_key \<times> entry"

definition canRemoveFirst :: "int \<Rightarrow> entry \<Rightarrow> entry \<Rightarrow> int \<Rightarrow> bool" where
  "canRemoveFirst removeSize adding first oldestTotal \<longleftrightarrow>
     en_useTime adding \<le> en_useTime first \<and> oldestTotal + en_size adding - removeSize \<ge> en_size first"

fun remove_newest :: "int \<Rightarrow> entry \<Rightarrow> (int \<times> bucket) list \<Rightarrow> int \<Rightarrow> (int \<times> bucket) list \<times> int" where
  "remove_newest removeSize adding [] ttl = ([], ttl)"
| "remove_newest removeSize adding ((t, key, first) # rest) ttl =
     (if canRemoveFirst removeSize adding first ttl
      then remove_newest removeSize adding rest (ttl - en_size first)
      else ((t, key, first) # rest, ttl))"

fun size_stale_loop ::
    "int \<Rightarrow> cache_key list \<Rightarrow> (cache_key \<rightharpoonup> entry) \<Rightarrow> cache_key list \<Rightarrow> (int \<times> bucket) list \<times> int
      \<Rightarrow> ((int \<times> bucket) list \<times> int) option" where
  "size_stale_loop removeSize stale m [] acc = Some acc"
| "size_stale_loop removeSize stale m (key # rest) (oldest, ttl) =
     (case m key of
        None \<Rightarrow> size_stale_loop removeSize stale m rest (oldest, ttl)
      | Some e \<Rightarrow>
          if flat_multi_set_contains (<) key stale then size_stale_loop removeSize stale m rest (oldest, ttl)
          else if \<not> ttl < removeSize \<and> oldest = [] then None
          else if \<not> (if ttl < removeSize then True else en_useTime e < en_useTime (snd (snd (hd oldest))))
          then size_stale_loop removeSize stale m rest (oldest, ttl)
          else let (oldest1, ttl1) = remove_newest removeSize e oldest ttl
            in size_stale_loop removeSize stale m rest
                 (fst (flat_multi_map_insert (>) (sint (en_useTime e), key, e) oldest1), ttl1 + en_size e))"

definition collectSizeStale ::
    "cache_key list \<Rightarrow> cache_key list \<times> int \<Rightarrow> database \<Rightarrow> (cache_key list \<times> int) option" where
  "collectSizeStale order stale db =
     (let removeSize = (if st_totalSizeLimit (db_settings db) > 0
            then db_totalSize db - snd stale - st_totalSizeLimit (db_settings db) else 0)
      in if removeSize \<le> 0 then Some stale
         else do {
           (oldest, oldestTotal) \<leftarrow> size_stale_loop removeSize (fst stale) (db_map db) order ([], 0);
           Some (fold (\<lambda>p keys. fst (flat_set_insert (<) (fst (snd p)) keys)) oldest (fst stale),
             snd stale + oldestTotal)
         })"

section \<open>The least recently used entries\<close>

abbreviation b_key :: "int \<times> bucket \<Rightarrow> cache_key" where "b_key p \<equiv> fst (snd p)"
abbreviation b_time :: "int \<times> bucket \<Rightarrow> u64" where "b_time p \<equiv> en_useTime (snd (snd p))"
abbreviation b_size :: "int \<times> bucket \<Rightarrow> int" where "b_size p \<equiv> en_size (snd (snd p))"

lemma remove_newest_spec:
  assumes "\<forall>p \<in> set L. 0 < b_size p" "remove_newest R e L t = (L', t')"
  obtains pre where "L = pre @ L'" "t' = t - sum_list (map b_size pre)"
    "\<forall>p \<in> set pre. en_useTime e \<le> b_time p" "pre \<noteq> [] \<longrightarrow> R \<le> t' + en_size e"
    "L' \<noteq> [] \<longrightarrow> \<not> canRemoveFirst R e (snd (snd (hd L'))) t'"
proof -
  have "\<exists>pre. L = pre @ L' \<and> t' = t - sum_list (map b_size pre) \<and> (\<forall>p \<in> set pre. en_useTime e \<le> b_time p)
    \<and> (pre \<noteq> [] \<longrightarrow> R \<le> t' + en_size e) \<and> (L' \<noteq> [] \<longrightarrow> \<not> canRemoveFirst R e (snd (snd (hd L'))) t')"
    using assms
  proof (induction R e L t rule: remove_newest.induct)
    case (1 R e t)
    then show ?case by simp
  next
    case (2 R e t0 k first rest t)
    show ?case
    proof (cases "canRemoveFirst R e first t")
      case True
      from 2(1) [OF True] 2(2,3) True obtain pre where
        pre: "rest = pre @ L'" "t' = t - en_size first - sum_list (map b_size pre)"
          "\<forall>p \<in> set pre. en_useTime e \<le> b_time p" "pre \<noteq> [] \<longrightarrow> R \<le> t' + en_size e"
          "L' \<noteq> [] \<longrightarrow> \<not> canRemoveFirst R e (snd (snd (hd L'))) t'" by auto
      then show ?thesis
        using True by (intro exI [of _ "(t0, k, first) # pre"]) (cases "pre = []"; auto simp: canRemoveFirst_def)
    next
      case False
      with 2(3) show ?thesis by (intro exI [of _ "[]"]) auto
    qed
  qed
  with that show thesis by blast
qed

lemma multi_insert_descending:
  fixes L :: "(int \<times> 'v) list"
  assumes "sorted_wrt (\<lambda>a b. fst b \<le> fst a) L"
  obtains ys zs where "L = ys @ zs" "fst (flat_multi_map_insert (>) v L) = ys @ v # zs"
    "\<forall>y \<in> set ys. fst v \<le> fst y" "\<forall>z \<in> set zs. fst z < fst v"
proof (cases "L = [] \<or> fst v \<le> fst (last L)")
  case True
  have "fst v \<le> fst y" if y: "y \<in> set L" for y
  proof -
    obtain as x where L: "L = as @ [x]" using y by (cases L rule: rev_cases) auto
    then show ?thesis using True assms y by (auto simp: sorted_wrt_append intro: order_trans)
  qed
  with True that [of L "[]"] show thesis by (auto simp: flat_multi_map_insert_def)
next
  case False
  let ?P = "\<lambda>p. \<not> fst p < fst v"
  have d: "\<forall>z \<in> set (dropWhile ?P L). fst z < fst v"
  proof (cases "dropWhile ?P L")
    case Nil
    then show ?thesis unfolding Nil by simp
  next
    case (Cons z zs)
    then have "fst z < fst v" by (metis hd_dropWhile list.distinct(1) list.sel(1))
    moreover have "sorted_wrt (\<lambda>a b. fst b \<le> fst a) (takeWhile ?P L @ z # zs)"
      using assms Cons by (metis takeWhile_dropWhile_id)
    ultimately show ?thesis unfolding Cons by (auto simp: sorted_wrt_append)
  qed
  have "fst (flat_multi_map_insert (>) v L) = insert_at (length (takeWhile ?P L)) v L"
    using False by (simp add: flat_multi_map_insert_def upper_bound_def Let_def)
  also have "\<dots> = takeWhile ?P L @ v # dropWhile ?P L"
    by (simp add: insert_at_def takeWhile_eq_take [symmetric] dropWhile_eq_drop [symmetric])
  finally have ins: "fst (flat_multi_map_insert (>) v L) = takeWhile ?P L @ v # dropWhile ?P L" .
  have "\<forall>y \<in> set (takeWhile ?P L). fst v \<le> fst y" using set_takeWhileD [of _ ?P L] by fastforce
  then show thesis by (rule that [OF takeWhile_dropWhile_id [symmetric] ins _ d])
qed

text \<open>
  After the loop has seen the keys \<open>seen\<close>: the chosen buckets are sorted from the newest, every entry
  left out is at least as new as every chosen one, and without the newest the chosen would be too few.
\<close>

definition lru_inv ::
    "int \<Rightarrow> cache_key set \<Rightarrow> (cache_key \<rightharpoonup> entry) \<Rightarrow> cache_key set \<Rightarrow> (int \<times> bucket) list \<Rightarrow> int \<Rightarrow> bool" where
  "lru_inv R S m seen L t \<longleftrightarrow>
     (\<forall>p \<in> set L. m (b_key p) = Some (snd (snd p)) \<and> fst p = sint (b_time p) \<and> b_key p \<in> seen - S)
     \<and> distinct (map b_key L) \<and> sorted_wrt (\<lambda>a b. b_time b \<le> b_time a) L \<and> t = sum_list (map b_size L)
     \<and> (\<forall>k \<in> seen - S. k \<notin> b_key ` set L \<longrightarrow> R \<le> t \<and> (\<forall>p \<in> set L. b_time p \<le> en_useTime (the (m k))))
     \<and> (R \<le> t \<longrightarrow> L \<noteq> [] \<and> t - b_size (hd L) < R)"

lemma sint_mono: "a < 2 ^ 63 \<Longrightarrow> b < 2 ^ 63 \<Longrightarrow> sint a \<le> sint b \<longleftrightarrow> a \<le> b" for a b :: u64
proof -
  have "sint w = uint w" if "w < 2 ^ 63" for w :: u64
  proof -
    have "uint w < 2 ^ 63" using that by (simp add: word_less_def)
    moreover have "- (2 ^ 63) \<le> uint w" using uint_ge_0 [of w] by (rule order_trans [rotated]) simp
    ultimately show ?thesis unfolding sint_uint by (intro signed_take_bit_int_eq_self) simp_all
  qed
  then show "a < 2 ^ 63 \<Longrightarrow> b < 2 ^ 63 \<Longrightarrow> sint a \<le> sint b \<longleftrightarrow> a \<le> b" by (simp add: word_le_def)
qed

lemma sum_list_sizes_nonneg: "\<forall>p \<in> set L. 0 < b_size p \<Longrightarrow> 0 \<le> sum_list (map b_size L)"
  by (induction L) auto

lemma lru_skip:
  assumes "lru_inv R S m seen L t" "R \<le> t" "b_time (hd L) \<le> en_useTime (the (m k))"
  shows "lru_inv R S m (insert k seen) L t"
proof -
  have "\<forall>p \<in> set L. b_time p \<le> b_time (hd L)" using assms(1) by (cases L) (auto simp: lru_inv_def)
  with assms show ?thesis by (auto simp: lru_inv_def intro: order_trans)
qed

lemma lru_add:
  assumes inv: "lru_inv R S m seen L t" and R: "0 < R" and k: "k \<notin> seen" "k \<notin> S" "m k = Some e"
    and pos: "\<And>k e. m k = Some e \<Longrightarrow> 0 < en_size e \<and> en_useTime e < 2 ^ 63"
    and adds: "t < R \<or> en_useTime e < b_time (hd L)"
    and rem: "remove_newest R e L t = (L1, t1)"
  shows "lru_inv R S m (insert k seen) (fst (flat_multi_map_insert (>) (sint (en_useTime e), k, e) L1)) (t1 + en_size e)"
proof -
  have szs: "\<forall>p \<in> set L. 0 < b_size p \<and> b_time p < 2 ^ 63 \<and> fst p = sint (b_time p)" using inv pos by (auto simp: lru_inv_def)
  then have "\<forall>p \<in> set L. 0 < b_size p" by blast
  from remove_newest_spec [OF this rem] obtain pre where
    pre: "L = pre @ L1" "t1 = t - sum_list (map b_size pre)" "\<forall>p \<in> set pre. en_useTime e \<le> b_time p"
      "pre \<noteq> [] \<longrightarrow> R \<le> t1 + en_size e" "L1 \<noteq> [] \<longrightarrow> \<not> canRemoveFirst R e (snd (snd (hd L1))) t1" by blast
  have srt: "sorted_wrt (\<lambda>a b. b_time b \<le> b_time a) L1" "\<forall>p \<in> set pre. \<forall>q \<in> set L1. b_time q \<le> b_time p"
    using inv pre(1) by (auto simp: lru_inv_def sorted_wrt_append)
  have "sorted_wrt (\<lambda>a b. fst b \<le> fst a) L1"
    by (rule sorted_wrt_mono_rel [OF _ srt(1)]) (use szs pre(1) in \<open>auto simp: sint_mono\<close>)
  then obtain ys zs where split: "L1 = ys @ zs"
    "fst (flat_multi_map_insert (>) (sint (en_useTime e), k, e) L1) = ys @ (sint (en_useTime e), k, e) # zs"
    "\<forall>y \<in> set ys. sint (en_useTime e) \<le> fst y" "\<forall>z \<in> set zs. fst z < sint (en_useTime e)"
    by (rule multi_insert_descending [where v = "(sint (en_useTime e), k, e)"]) auto
  let ?x = "(sint (en_useTime e), k, e)"
  let ?L = "ys @ ?x # zs"
  have et: "en_useTime e < 2 ^ 63" "0 < en_size e" using pos k(3) by auto
  have ys: "\<forall>y \<in> set ys. en_useTime e \<le> b_time y" and zs: "\<forall>z \<in> set zs. b_time z < en_useTime e"
    using split(3,4) szs et sint_mono [of "en_useTime e"] sint_mono [of _ "en_useTime e"] pre(1) split(1)
    by (auto simp: not_le [symmetric])
  have t1: "t1 = sum_list (map b_size L1)" "t1 \<le> t" "t = sum_list (map b_size pre) + t1"
    using inv pre(1,2) szs sum_list_sizes_nonneg [of pre] by (auto simp: lru_inv_def)
  have newest: "L1 \<noteq> []" "hd ?L = hd L1" "en_useTime e \<le> b_time (hd L1)" if "ys \<noteq> []"
    using that split(1) ys by (auto simp: hd_append)
  have short: "t1 < R" if "ys = []"
  proof (cases "t < R")
    case False
    then have "en_useTime e < b_time (hd L)" "t - b_size (hd L) < R" "L \<noteq> []"
      using adds inv by (auto simp: lru_inv_def)
    moreover from this have "pre \<noteq> []" using pre(1) split(1) zs that by (cases zs) auto
    ultimately show ?thesis
      using pre(1) t1(3) szs sum_list_sizes_nonneg [of "tl pre"] by (cases pre) auto
  qed (use t1(2) in simp)
  have "t1 + en_size e - b_size (hd ?L) < R"
  proof (cases "ys = []")
    case False
    with newest pre(5) show ?thesis by (auto simp: canRemoveFirst_def)
  qed (use short in simp)
  moreover have "R \<le> t1 + en_size e \<and> (\<forall>p \<in> set ?L. b_time p \<le> en_useTime (the (m k')))"
    if k': "k' \<in> insert k seen - S" "k' \<notin> b_key ` set ?L" for k'
  proof (cases "k' \<in> b_key ` set pre")
    case True
    then obtain p where p: "p \<in> set pre" "k' = b_key p" by blast
    then have "m k' = Some (snd (snd p))" using inv pre(1) by (auto simp: lru_inv_def)
    then show ?thesis using p pre(3,4) srt(2) split(1) by auto
  next
    case False
    then have *: "k' \<in> seen - S" "k' \<notin> b_key ` set L" using k' pre(1) split(1) by auto
    then have "R \<le> t" "\<forall>p \<in> set L. b_time p \<le> en_useTime (the (m k'))" using inv by (auto simp: lru_inv_def)
    moreover have "L \<noteq> []" using calculation(1) inv by (simp add: lru_inv_def)
    ultimately have "b_time (hd L) \<le> en_useTime (the (m k'))" "en_useTime e < b_time (hd L)" using adds by auto
    then have "en_useTime e \<le> en_useTime (the (m k'))" by order
    moreover have "R \<le> t1 + en_size e" using \<open>R \<le> t\<close> pre(2,4) et by (cases "pre = []") auto
    moreover note \<open>\<forall>p \<in> set L. b_time p \<le> en_useTime (the (m k'))\<close>
    ultimately show ?thesis using pre(1) split(1) by auto
  qed
  moreover have "distinct (map b_key ?L)" "\<forall>p \<in> set ?L. m (b_key p) = Some (snd (snd p)) \<and> fst p = sint (b_time p) \<and> b_key p \<in> insert k seen - S"
    using inv pre(1) split(1) k by (auto simp: lru_inv_def)
  moreover have "sorted_wrt (\<lambda>a b. b_time b \<le> b_time a) ?L"
    using srt(1) split(1) ys zs by (auto simp: sorted_wrt_append less_imp_le)
  moreover have "t1 + en_size e = sum_list (map b_size ?L)" using t1(1) split(1) by simp
  moreover have "?L \<noteq> []" by simp
  ultimately show ?thesis unfolding split(2) lru_inv_def by blast
qed

lemma size_stale_loop_ok:
  assumes "lru_inv R (set stale) m seen L t" "0 < R" "sorted_wrt (<) stale"
    and pos: "\<forall>k e. m k = Some e \<longrightarrow> 0 < en_size e \<and> en_useTime e < 2 ^ 63"
    and "distinct order" "set order \<inter> seen = {}" "set order \<subseteq> dom m"
  shows "\<exists>L' t'. size_stale_loop R stale m order (L, t) = Some (L', t') \<and> lru_inv R (set stale) m (seen \<union> set order) L' t'"
  using assms(1,5-)
proof (induction order arbitrary: seen L t)
  case Nil
  then show ?case by simp
next
  case (Cons k rest)
  obtain e where e: "m k = Some e" using Cons.prems(4) by auto
  have st: "flat_multi_set_contains (<) k stale \<longleftrightarrow> k \<in> set stale"
    using flat_set_less.mem_elems [OF assms(3)] by simp
  have next_ok: "\<exists>L' t'. size_stale_loop R stale m rest (L1, t1) = Some (L', t') \<and> lru_inv R (set stale) m (seen \<union> set (k # rest)) L' t'"
    if "lru_inv R (set stale) m (insert k seen) L1 t1" for L1 t1
    using Cons.IH [OF that] Cons.prems(2-) by auto
  consider (stale) "k \<in> set stale" | (skip) "k \<notin> set stale" "R \<le> t" "b_time (hd L) \<le> en_useTime e"
    | (add) "k \<notin> set stale" "t < R \<or> en_useTime e < b_time (hd L)" by force
  then show ?case
  proof cases
    case stale
    then have "lru_inv R (set stale) m (insert k seen) L t" using Cons.prems(1) by (auto simp: lru_inv_def)
    with next_ok stale e st show ?thesis by simp
  next
    case skip
    have "L \<noteq> []" using skip Cons.prems(1) by (simp add: lru_inv_def)
    with lru_skip [OF Cons.prems(1) skip(2), of k] skip next_ok e st show ?thesis
      by (simp add: not_less [symmetric])
  next
    case add
    obtain L1 t1 where rem: "remove_newest R e L t = (L1, t1)" by (cases "remove_newest R e L t")
    have "t < R \<or> L \<noteq> []" using Cons.prems(1) by (auto simp: lru_inv_def)
    moreover have "lru_inv R (set stale) m (insert k seen) (fst (flat_multi_map_insert (>) (sint (en_useTime e), k, e) L1)) (t1 + en_size e)"
      by (rule lru_add [OF Cons.prems(1) assms(2) _ add(1) e _ add(2) rem]) (use Cons.prems(3) pos in auto)
    ultimately show ?thesis using next_ok add e st rem by auto
  qed
qed

text \<open>The summed sizes of a set of entries.\<close>

definition keys_size :: "(cache_key \<rightharpoonup> entry) \<Rightarrow> cache_key set \<Rightarrow> int" where
  "keys_size m K = (\<Sum>k \<in> K. en_size (the (m k)))"

lemma keys_size_dom: "keys_size m (dom m) = map_sum en_size m"
  by (simp add: keys_size_def map_sum_def)

lemma keys_size_Un: "finite A \<Longrightarrow> finite B \<Longrightarrow> A \<inter> B = {} \<Longrightarrow> keys_size m (A \<union> B) = keys_size m A + keys_size m B"
  unfolding keys_size_def by (rule sum.union_disjoint)

lemma keys_size_buckets:
  "distinct (map b_key L) \<Longrightarrow> \<forall>p \<in> set L. m (b_key p) = Some (snd (snd p)) \<Longrightarrow>
    keys_size m (b_key ` set L) = sum_list (map b_size L)"
  by (induction L) (auto simp: keys_size_def image_iff)

lemma insert_keys_set:
  "sorted_wrt (<) stale \<Longrightarrow>
    sorted_wrt (<) (fold (\<lambda>p keys. fst (flat_set_insert (<) (b_key p) keys)) L stale)
    \<and> set (fold (\<lambda>p keys. fst (flat_set_insert (<) (b_key p) keys)) L stale) = set stale \<union> b_key ` set L"
  by (induction L arbitrary: stale) (auto simp: flat_set_less.invar_ins flat_set_less.elems_ins)

lemma collectSizeStale_chosen:
  assumes ok: "stats_ok db" and times: "\<And>k e. db_map db k = Some e \<Longrightarrow> en_useTime e < 2 ^ 63"
    and order: "distinct order" "set order = dom (db_map db)"
    and stale: "sorted_wrt (<) stale" "set stale \<subseteq> dom (db_map db)"
    and R: "R = db_totalSize db - keys_size (db_map db) (set stale) - st_totalSizeLimit (db_settings db)"
      "0 < R" "0 < st_totalSizeLimit (db_settings db)"
  obtains L t where
    "collectSizeStale order (stale, keys_size (db_map db) (set stale)) db =
      Some (fold (\<lambda>p keys. fst (flat_set_insert (<) (b_key p) keys)) L stale, keys_size (db_map db) (set stale) + t)"
    "lru_inv R (set stale) (db_map db) (dom (db_map db)) L t" "R \<le> t" "t = keys_size (db_map db) (b_key ` set L)"
proof -
  have fin: "finite (dom (db_map db))" and pos: "\<forall>k e. db_map db k = Some e \<longrightarrow> 0 < en_size e \<and> en_useTime e < 2 ^ 63"
    and tot: "db_totalSize db = keys_size (db_map db) (dom (db_map db))"
    using ok times by (auto simp: stats_ok_def keys_size_dom)
  have "lru_inv R (set stale) (db_map db) {} [] 0" using R(2) by (simp add: lru_inv_def)
  from size_stale_loop_ok [OF this R(2) stale(1) pos order(1)] order(2) obtain L t where
    L: "size_stale_loop R stale (db_map db) order ([], 0) = Some (L, t)"
      "lru_inv R (set stale) (db_map db) (dom (db_map db)) L t" by auto
  have keys: "b_key ` set L \<subseteq> dom (db_map db) - set stale" and sz: "t = keys_size (db_map db) (b_key ` set L)"
    using L(2) keys_size_buckets [of L "db_map db"] by (auto simp: lru_inv_def)
  have "R \<le> t"
  proof (rule ccontr)
    assume "\<not> R \<le> t"
    with L(2) keys have "b_key ` set L = dom (db_map db) - set stale" unfolding lru_inv_def by blast
    moreover have "keys_size (db_map db) (dom (db_map db)) =
        keys_size (db_map db) (set stale) + keys_size (db_map db) (dom (db_map db) - set stale)"
      using keys_size_Un [of "set stale" "dom (db_map db) - set stale" "db_map db"] fin stale(2) by (simp add: Un_absorb1)
    ultimately show False using \<open>\<not> R \<le> t\<close> sz R tot by simp
  qed
  with that [OF _ L(2) _ sz] L(1) R show thesis by (auto simp: collectSizeStale_def)
qed

section \<open>What is pruned\<close>

lemma keys_size_remove:
  "finite K \<Longrightarrow> k \<in> K \<Longrightarrow> keys_size m (K - {k}) = keys_size m K - en_size (the (m k))"
  unfolding keys_size_def by (subst sum.remove [of K k]) simp_all

lemma lru_newest:
  assumes "lru_inv R S m D L t" "R \<le> t"
  shows "\<exists>k \<in> b_key ` set L. t - en_size (the (m k)) < R
    \<and> (\<forall>k' \<in> b_key ` set L. en_useTime (the (m k')) \<le> en_useTime (the (m k)))"
proof -
  have L: "L \<noteq> []" "t - b_size (hd L) < R" "sorted_wrt (\<lambda>a b. b_time b \<le> b_time a) L"
    and ent: "\<And>p. p \<in> set L \<Longrightarrow> m (b_key p) = Some (snd (snd p))" using assms by (auto simp: lru_inv_def)
  have "b_time p \<le> b_time (hd L)" if "p \<in> set L" for p using L(3) that by (cases L) auto
  with L(1,2) ent show ?thesis by (intro bexI [of _ "b_key (hd L)"]) auto
qed

lemma lru_kept:
  assumes "lru_inv R S m (dom m) L t" "k \<in> b_key ` set L" "k' \<in> dom m - S" "k' \<notin> b_key ` set L"
  shows "en_useTime (the (m k)) \<le> en_useTime (the (m k'))"
proof -
  obtain p where p: "p \<in> set L" "k = b_key p" using assms(2) by blast
  then have "the (m k) = snd (snd p)" using assms(1) by (auto simp: lru_inv_def)
  moreover have "b_time p \<le> en_useTime (the (m k'))" using assms(1,3,4) p(1) by (simp add: lru_inv_def)
  ultimately show ?thesis by simp
qed

lemma prune_size_chosen:
  assumes "stats_ok db" "\<forall>k e. db_map db k = Some e \<longrightarrow> en_useTime e < 2 ^ 63"
    and "distinct order" "set order = dom (db_map db)"
    and "sorted_wrt (<) stale" "set stale \<subseteq> dom (db_map db)" "0 < st_totalSizeLimit (db_settings db)"
  shows "\<exists>stale'. collectSizeStale order (stale, keys_size (db_map db) (set stale)) db
        = Some (stale', keys_size (db_map db) (set stale'))
      \<and> set stale \<subseteq> set stale' \<and> set stale' \<subseteq> dom (db_map db)
      \<and> db_totalSize db - keys_size (db_map db) (set stale') \<le> st_totalSizeLimit (db_settings db)
      \<and> (\<forall>k \<in> set stale' - set stale. \<forall>k' \<in> dom (db_map db) - set stale'.
          en_useTime (the (db_map db k)) \<le> en_useTime (the (db_map db k')))
      \<and> (set stale' \<noteq> set stale \<longrightarrow> (\<exists>k \<in> set stale' - set stale.
          (\<forall>k' \<in> set stale' - set stale. en_useTime (the (db_map db k')) \<le> en_useTime (the (db_map db k)))
          \<and> st_totalSizeLimit (db_settings db) < db_totalSize db - keys_size (db_map db) (set stale' - {k})))"
    (is "\<exists>stale'. ?P stale'")
proof -
  define R where "R = db_totalSize db - keys_size (db_map db) (set stale) - st_totalSizeLimit (db_settings db)"
  show ?thesis
  proof (cases "0 < R")
    case False
    then have "?P stale" using assms(6,7) by (simp add: collectSizeStale_def R_def)
    then show ?thesis ..
  next
    case True
    obtain L t where L: "collectSizeStale order (stale, keys_size (db_map db) (set stale)) db =
        Some (fold (\<lambda>p keys. fst (flat_set_insert (<) (b_key p) keys)) L stale, keys_size (db_map db) (set stale) + t)"
      "lru_inv R (set stale) (db_map db) (dom (db_map db)) L t" "R \<le> t" "t = keys_size (db_map db) (b_key ` set L)"
      using collectSizeStale_chosen [OF assms(1) _ assms(3-6) R_def True assms(7)] assms(2) by blast
    define stale' where "stale' = fold (\<lambda>p keys. fst (flat_set_insert (<) (b_key p) keys)) L stale"
    have set': "set stale' = set stale \<union> b_key ` set L"
      using insert_keys_set [OF assms(5)] by (simp add: stale'_def)
    have keys: "b_key ` set L \<subseteq> dom (db_map db) - set stale" using L(2) by (auto simp: lru_inv_def)
    have size': "keys_size (db_map db) (set stale') = keys_size (db_map db) (set stale) + t"
      unfolding set' L(4) using keys by (intro keys_size_Un) auto
    have call: "collectSizeStale order (stale, keys_size (db_map db) (set stale)) db
        = Some (stale', keys_size (db_map db) (set stale'))" using L(1) size' by (simp add: stale'_def)
    have chosen: "set stale' - set stale = b_key ` set L" using set' keys by auto
    have "set stale \<subseteq> set stale'" "set stale' \<subseteq> dom (db_map db)" using set' keys assms(6) by auto
    moreover have "db_totalSize db - keys_size (db_map db) (set stale') \<le> st_totalSizeLimit (db_settings db)"
      using size' L(3) by (simp add: R_def)
    moreover have "\<forall>k \<in> set stale' - set stale. \<forall>k' \<in> dom (db_map db) - set stale'.
        en_useTime (the (db_map db k)) \<le> en_useTime (the (db_map db k'))"
      using lru_kept [OF L(2)] unfolding chosen set' by auto
    moreover have "\<exists>k \<in> set stale' - set stale.
          (\<forall>k' \<in> set stale' - set stale. en_useTime (the (db_map db k')) \<le> en_useTime (the (db_map db k)))
          \<and> st_totalSizeLimit (db_settings db) < db_totalSize db - keys_size (db_map db) (set stale' - {k})"
    proof -
      obtain k where k: "k \<in> b_key ` set L" "t - en_size (the (db_map db k)) < R"
        "\<forall>k' \<in> b_key ` set L. en_useTime (the (db_map db k')) \<le> en_useTime (the (db_map db k))"
        using lru_newest [OF L(2,3)] by blast
      have "keys_size (db_map db) (set stale' - {k}) = keys_size (db_map db) (set stale') - en_size (the (db_map db k))"
        using k(1) set' by (intro keys_size_remove) auto
      then show ?thesis unfolding chosen using k size' by (intro bexI [of _ k]) (auto simp: R_def)
    qed
    ultimately have "?P stale'" using call by blast
    then show ?thesis ..
  qed
qed

text \<open>
  C32. When the cache is over its size limit, \<open>prune\<close> adds to the stale keys enough entries to bring it
  back under the limit; they are least recently used ones, no entry left is older than one chosen, and
  not too many: without the newest of them the cache would stay over the limit. This holds for every
  order in which the hash map may list its entries.
\<close>

theorem prune_size_lru:
  assumes "stats_ok db" "\<forall>k e. db_map db k = Some e \<longrightarrow> en_useTime e < 2 ^ 63"
    and "distinct order" "set order = dom (db_map db)"
    and "sorted_wrt (<) stale" "set stale \<subseteq> dom (db_map db)" "0 < st_totalSizeLimit (db_settings db)"
  shows "\<exists>stale'. collectSizeStale order (stale, keys_size (db_map db) (set stale)) db
        = Some (stale', keys_size (db_map db) (set stale'))
      \<and> set stale \<subseteq> set stale' \<and> set stale' \<subseteq> dom (db_map db)
      \<and> db_totalSize db - keys_size (db_map db) (set stale') \<le> st_totalSizeLimit (db_settings db)
      \<and> (\<forall>k \<in> set stale' - set stale. \<forall>k' \<in> dom (db_map db) - set stale'.
          en_useTime (the (db_map db k)) \<le> en_useTime (the (db_map db k')))
      \<and> (set stale' \<noteq> set stale \<longrightarrow> (\<exists>k \<in> set stale' - set stale.
          (\<forall>k' \<in> set stale' - set stale. en_useTime (the (db_map db k')) \<le> en_useTime (the (db_map db k)))
          \<and> st_totalSizeLimit (db_settings db) < db_totalSize db - keys_size (db_map db) (set stale' - {k})))"
  by (rule prune_size_chosen [OF assms])

definition sample_entry :: "u64 \<Rightarrow> int \<Rightarrow> entry" where
  "sample_entry t sz = \<lparr>en_useTime = t, en_size = sz, en_checksum = 7, en_place = [1, 2, 3, 4, 5, 6, 7], en_tag = 0\<rparr>"

definition sample_db :: database where
  "sample_db = (fresh_database default_settings ''base/'' ''base/0/'')\<lparr>
     db_settings := default_settings\<lparr>st_totalSizeLimit := 50\<rparr>,
     db_map := [Key 0 1 \<mapsto> sample_entry 5 30, Key 0 2 \<mapsto> sample_entry 3 20, Key 0 3 \<mapsto> sample_entry 9 40],
     db_totalSize := 90, db_minimal := 3, db_minimalCount := 1\<rparr>"

lemma sample_db_ok: "stats_ok sample_db"
  by (auto simp: stats_ok_def sample_db_def fresh_database_def map_sum_update sample_entry_def
      summary_of_def flat_map_get_def flat_map_find_def flat_multi_map_findFirst_def key_out_of_span_def
      empty_summary_def tag_size_def tag_present_def)

theorem prune_size_lru_witness:
  "\<exists>stale'. collectSizeStale [Key 0 3, Key 0 1, Key 0 2] ([], 0) sample_db
     = Some (stale', keys_size (db_map sample_db) (set stale'))
   \<and> 90 - keys_size (db_map sample_db) (set stale') \<le> 50"
proof -
  have "dom (db_map sample_db) = {Key 0 3, Key 0 1, Key 0 2}"
    by (auto simp: sample_db_def fresh_database_def)
  moreover have "\<forall>k e. db_map sample_db k = Some e \<longrightarrow> en_useTime e < 2 ^ 63"
    by (auto simp: sample_db_def fresh_database_def sample_entry_def)
  moreover have "db_totalSize sample_db = 90" "st_totalSizeLimit (db_settings sample_db) = 50"
    by (simp_all add: sample_db_def fresh_database_def)
  ultimately show ?thesis
    using prune_size_lru [of sample_db "[Key 0 3, Key 0 1, Key 0 2]" "[]"] sample_db_ok
    by (auto simp: keys_size_def)
qed

text \<open>
  The loop over the map: the old entries join the stale keys, the minimal time of the others is found
  with the number of entries that have it.
\<close>

definition minimal_of :: "u64 \<Rightarrow> (cache_key \<rightharpoonup> entry) \<Rightarrow> cache_key set \<Rightarrow> u64 \<Rightarrow> int \<Rightarrow> bool" where
  "minimal_of before m seen minimal cnt \<longleftrightarrow>
     (let K = {k \<in> seen. before < en_useTime (the (m k))} in
       if minimal = 0 then K = {} else cnt > 0 \<and> (\<forall>k \<in> K. minimal \<le> en_useTime (the (m k))))"

lemma time_stale_loop_spec:
  assumes "time_stale_loop before m order (stale, t, minimal, cnt) = (stale', t', minimal', cnt')"
    "sorted_wrt (<) stale" "distinct order" "set order \<subseteq> dom m" "minimal_of before m seen minimal cnt"
  shows "sorted_wrt (<) stale' \<and> set stale' = set stale \<union> {k \<in> set order. en_useTime (the (m k)) \<le> before}
    \<and> t' = t + keys_size m {k \<in> set order. en_useTime (the (m k)) \<le> before}
    \<and> minimal_of before m (seen \<union> set order) minimal' cnt'"
  using assms
proof (induction order arbitrary: seen stale t minimal cnt)
  case Nil
  then show ?case by (simp add: keys_size_def)
next
  case (Cons k rest)
  obtain e where e: "m k = Some e" using Cons.prems(4) by auto
  note prems = Cons.prems(3,4)
  have old: "{x \<in> set (k # rest). en_useTime (the (m x)) \<le> before} =
      (if en_useTime e \<le> before then insert k {x \<in> set rest. en_useTime (the (m x)) \<le> before}
       else {x \<in> set rest. en_useTime (the (m x)) \<le> before})" using e by auto
  show ?case
  proof (cases "en_useTime e \<le> before")
    case True
    have "minimal_of before m (insert k seen) minimal cnt"
      using Cons.prems(5) True e by (auto simp: minimal_of_def Let_def)
    moreover have "sorted_wrt (<) (fst (flat_set_insert (<) k stale))" "set (fst (flat_set_insert (<) k stale)) = insert k (set stale)"
      using Cons.prems(2) by (simp_all only: flat_set_less.invar_ins flat_set_less.elems_ins)
    ultimately show ?thesis
      using Cons.IH [of "fst (flat_set_insert (<) k stale)" "t + en_size e" minimal cnt "insert k seen"] Cons.prems(1) prems True e
      unfolding old by (auto simp: keys_size_def)
  next
    case False
    have "\<exists>mn c. time_stale_loop before m (k # rest) (stale, t, minimal, cnt) = time_stale_loop before m rest (stale, t, mn, c)
      \<and> minimal_of before m (insert k seen) mn c"
    proof -
      have z: "en_useTime e \<noteq> 0" using False by auto
      consider "minimal = 0 \<or> en_useTime e < minimal" | "minimal \<noteq> 0" "minimal = en_useTime e" | "minimal \<noteq> 0" "minimal < en_useTime e"
        using less_linear [of minimal "en_useTime e"] by blast
      then show ?thesis
      proof cases
        case 1
        with Cons.prems(5) False e z show ?thesis
          by (intro exI [of _ "en_useTime e"] exI [of _ 1] conjI)
            (auto simp: minimal_of_def Let_def split: if_splits intro: order_trans less_imp_le)
      next
        case 2
        with Cons.prems(5) False e z show ?thesis
          by (intro exI [of _ minimal] exI [of _ "cnt + 1"]) (auto simp: minimal_of_def Let_def)
      next
        case 3
        with Cons.prems(5) False e z show ?thesis
          by (intro exI [of _ minimal] exI [of _ cnt]) (auto simp: minimal_of_def Let_def)
      qed
    qed
    then obtain mn c where "time_stale_loop before m (k # rest) (stale, t, minimal, cnt) = time_stale_loop before m rest (stale, t, mn, c)"
      "minimal_of before m (insert k seen) mn c" by blast
    then show ?thesis
      using Cons.IH [of stale t mn c "insert k seen"] Cons.prems(1,2) prems False unfolding old by auto
  qed
qed

text \<open>
  While the minimal time is a lower bound of the use times, pruning by time selects exactly the
  entries that were last used before the limit, and keeps the statistics and a lower bound for the
  entries that stay.
\<close>

theorem prune_time_exact:
  assumes "stats_ok db" "distinct order" "set order = dom (db_map db)" "st_totalTimeLimit (db_settings db) \<noteq> 0"
    and minimal: "db_minimal db \<noteq> 0" "\<forall>k e. db_map db k = Some e \<longrightarrow> db_minimal db \<le> en_useTime e"
    and old: "old = {k \<in> dom (db_map db). en_useTime (the (db_map db k)) \<le> pruneBeforeTime unixtime db}"
  shows "\<exists>stale db'. collectTimeStale unixtime order ([], 0) db = ((stale, keys_size (db_map db) old), db')
    \<and> sorted_wrt (<) stale \<and> set stale = old \<and> stats_ok db' \<and> frame db' = frame db \<and> db_map db' = db_map db
    \<and> (\<forall>k \<in> dom (db_map db) - old. db_minimal db' \<noteq> 0 \<and> db_minimal db' \<le> en_useTime (the (db_map db k)))"
proof (cases "db_minimal db > pruneBeforeTime unixtime db")
  case True
  then have "old = {}" using minimal(2) unfolding old by force
  moreover have "collectTimeStale unixtime order ([], 0) db = (([], 0), db)"
    using True assms(4) by (simp add: collectTimeStale_def Let_def)
  ultimately show ?thesis using assms(1) minimal by (auto simp: keys_size_def)
next
  case False
  let ?b = "pruneBeforeTime unixtime db"
  obtain stale t mn c where loop: "time_stale_loop ?b (db_map db) order ([], 0, 0, 0) = (stale, t, mn, c)"
    using prod_cases4 by blast
  have spec: "sorted_wrt (<) stale" "set stale = old" "t = keys_size (db_map db) old"
    "minimal_of ?b (db_map db) (dom (db_map db)) mn c"
    using time_stale_loop_spec [OF loop _ assms(2), of "{}"] assms(3) unfolding old by (auto simp: minimal_of_def)
  have call: "collectTimeStale unixtime order ([], 0) db = ((stale, t), db\<lparr>db_minimal := mn, db_minimalCount := c\<rparr>)"
    using False assms(4) minimal(1) loop by (simp add: collectTimeStale_def Let_def)
  have "mn \<noteq> 0 \<longrightarrow> 0 < c" "\<forall>k \<in> dom (db_map db) - old. mn \<noteq> 0 \<and> mn \<le> en_useTime (the (db_map db k))"
    using spec(4) unfolding old by (auto simp: minimal_of_def Let_def split: if_splits)
  with call spec assms(1) show ?thesis by (simp add: stats_ok_def)
qed

theorem prune_time_exact_witness:
  "\<exists>stale db'. collectTimeStale (31 * 24 * 60 * 60 + 5) [Key 0 1, Key 0 2, Key 0 3] ([], 0) sample_db
     = ((stale, 50), db') \<and> set stale = {Key 0 1, Key 0 2}"
proof -
  let ?old = "{k \<in> dom (db_map sample_db). en_useTime (the (db_map sample_db k))
    \<le> pruneBeforeTime (31 * 24 * 60 * 60 + 5) sample_db}"
  have d: "dom (db_map sample_db) = {Key 0 1, Key 0 2, Key 0 3}"
    by (auto simp: sample_db_def fresh_database_def)
  have b: "pruneBeforeTime (31 * 24 * 60 * 60 + 5) sample_db = 5" "st_totalTimeLimit (db_settings sample_db) \<noteq> 0"
    "db_minimal sample_db = 3"
    by (simp_all add: pruneBeforeTime_def countRelativeTime_def GetUnixtime_def sample_db_def fresh_database_def
        default_settings_def no_time_def getRelative_def)
  have e: "db_map sample_db (Key 0 1) = Some (sample_entry 5 30)" "db_map sample_db (Key 0 2) = Some (sample_entry 3 20)"
    "db_map sample_db (Key 0 3) = Some (sample_entry 9 40)" by (simp_all add: sample_db_def fresh_database_def)
  have old: "?old = {Key 0 1, Key 0 2}" unfolding d b by (auto simp: e sample_entry_def)
  have sz: "keys_size (db_map sample_db) {Key 0 1, Key 0 2} = 50" by (simp add: keys_size_def e sample_entry_def)
  have "\<forall>k e. db_map sample_db k = Some e \<longrightarrow> db_minimal sample_db \<le> en_useTime e"
    by (auto simp: sample_db_def fresh_database_def sample_entry_def)
  with prune_time_exact [OF sample_db_ok, of "[Key 0 1, Key 0 2, Key 0 3]" ?old "31 * 24 * 60 * 60 + 5"] d b old sz
  show ?thesis by auto
qed

text \<open>
  C39. Once the only entry with the minimal time is removed, the minimal time is unknown (zero), and then
  \<open>collectTimeStale\<close> returns before it looks at the map: entries far older than the limit stay, here
  one that was last used at time 2 although everything up to time 300 is to be pruned.
\<close>

definition forgotten_db :: "database option" where
  "forgotten_db =
     map_option fst (handle_records
       [StoreRecord (empty_store\<lparr>sr_size := [9, 0, 0], sr_key := Key 0 1, sr_time := setRelative 1 no_time\<rparr>),
        StoreRecord (empty_store\<lparr>sr_size := [9, 0, 0], sr_key := Key 0 2, sr_time := setRelative 2 no_time\<rparr>),
        MultiRemove [Key 0 1]]
       (fresh_database (default_settings\<lparr>st_totalTimeLimit := 100\<rparr>) ''base/'' ''base/0/''))"

theorem prune_time_forgotten:
  "case forgotten_db of
     None \<Rightarrow> False
   | Some db \<Rightarrow> map_option en_useTime (db_map db (Key 0 2)) = Some 2 \<and> db_map db (Key 0 1) = None
       \<and> pruneBeforeTime 398 db = 300 \<and> fst (collectTimeStale 398 [Key 0 2] ([], 0) db) = ([], 0)"
  by (simp add: forgotten_db_def handle_record_def processRecordStore_def store_getSize_def ReadFrom_def
      fresh_database_def default_settings_def kDataSizeLimit_def empty_store_def applyTimePoint_def setRelative_def
      getRelative_def no_time_def setMapEntry_def count_minimal_def updateStats_def empty_entry_def Let_def
      processRecordMultiRemove_def eraseMapEntry_def drop_minimal_def present_def store_length_def pruneBeforeTime_def
      countRelativeTime_def GetUnixtime_def collectTimeStale_def)

end
