(* ===== verification/StorageFile.thy ===== *)
theory StorageFile
  imports Bytes "HOL-Library.Monad_Syntax" "HOL-Library.Signed_Division"
begin

text \<open>
  \<open>lib_storage/storage/storage_encryption.{h,cpp}\<close> and \<open>storage_encrypted_file.{h,cpp}\<close>: AES in counter mode
  that can start at any block, and the encrypted file with its header. OpenSSL and \<open>QFile\<close> are parameters:
  \<open>ctr128 key iv data\<close> is \<open>CRYPTO_ctr128_encrypt\<close> with \<open>AES_encrypt\<close> at the beginning of a block, \<open>sha256\<close> the
  hash, and a record of type \<open>'q qfile\<close> holds the operations of a file whose state has type \<open>'q\<close>.
  \<open>size_type\<close> and \<open>int64\<close> are \<^typ>\<open>int\<close> or \<^typ>\<open>nat\<close>; a failed \<open>Expects\<close> or \<open>Assert\<close> is \<open>None\<close>.
\<close>

section \<open>Counter mode\<close>

definition kBlockSize :: nat where "kBlockSize = 16"
definition kKeySize :: nat where "kKeySize = 32"
definition kIvSize :: nat where "kIvSize = kBlockSize"
definition kSaltSize :: nat where "kSaltSize = 64"

record ctr =
  cs_key :: byte_list
  cs_iv :: byte_list

definition CtrState_new :: "byte_list \<Rightarrow> byte_list \<Rightarrow> ctr option" where
  "CtrState_new key iv =
     (if length key = kKeySize \<and> length iv = kIvSize then Some \<lparr>cs_key = key, cs_iv = iv\<rparr> else None)"

text \<open>The loop adds to the byte before position \<open>digits\<close> and carries on to the left.\<close>

fun increment_loop :: "nat \<Rightarrow> u64 \<Rightarrow> byte_list \<Rightarrow> byte_list" where
  "increment_loop 0 increment result = result"
| "increment_loop (Suc digits) increment result =
     (let increment1 = increment + ucast (result ! digits);
          result1 = result[digits := ucast (increment1 AND 0xFF)];
          increment2 = drop_bit 8 increment1
      in if digits \<noteq> 0 \<and> increment2 \<noteq> 0 then increment_loop digits increment2 result1 else result1)"

definition incrementedIv :: "int \<Rightarrow> ctr \<Rightarrow> byte_list option" where
  "incrementedIv blockIndex c =
     (if \<not> blockIndex \<ge> 0 then None
      else if blockIndex = 0 then Some (cs_iv c)
      else Some (increment_loop kIvSize (word_of_int blockIndex) (cs_iv c)))"

type_synonym block_cipher = "byte_list \<Rightarrow> byte_list \<Rightarrow> byte_list \<Rightarrow> byte_list"

definition ctr_process :: "block_cipher \<Rightarrow> byte_list \<Rightarrow> int \<Rightarrow> ctr \<Rightarrow> byte_list option" where
  "ctr_process ctr128 data offset c =
     (if length data mod kBlockSize \<noteq> 0 \<or> offset smod int kBlockSize \<noteq> 0 then None
      else map_option (\<lambda>iv. ctr128 (cs_key c) iv data) (incrementedIv (offset sdiv int kBlockSize) c))"

definition ctr_encrypt :: "block_cipher \<Rightarrow> byte_list \<Rightarrow> int \<Rightarrow> ctr \<Rightarrow> byte_list option" where
  "ctr_encrypt ctr128 data offset c = ctr_process ctr128 data offset c"

definition ctr_decrypt :: "block_cipher \<Rightarrow> byte_list \<Rightarrow> int \<Rightarrow> ctr \<Rightarrow> byte_list option" where
  "ctr_decrypt ctr128 data offset c = ctr_process ctr128 data offset c"

definition EncryptionKey_new :: "byte_list \<Rightarrow> byte_list option" where
  "EncryptionKey_new data = (if length data = 256 \<or> length data = 64 then Some data else None)"

definition prepareCtrState :: "(byte_list \<Rightarrow> byte_list) \<Rightarrow> byte_list \<Rightarrow> byte_list \<Rightarrow> ctr option" where
  "prepareCtrState sha256 key salt =
     (if length salt \<noteq> kSaltSize \<or> key = [] then None
      else do {
        half1 \<leftarrow> subspan 0 (length key div 2) key;
        salt1 \<leftarrow> subspan 0 (kSaltSize div 2) salt;
        iv \<leftarrow> subspan 0 kIvSize (sha256 (drop (length key div 2) key @ drop (kSaltSize div 2) salt));
        CtrState_new (sha256 (half1 @ salt1)) iv
      })"

section \<open>The outside\<close>

text \<open>
  The operations of \<open>QFile\<close> and \<open>base::FileLock\<close>, and the functions of OpenSSL. \<open>q_read n\<close> returns the count
  that \<open>QFile::read\<close> returns and the bytes it put into the buffer, \<open>q_write\<close> the count of \<open>QFile::write\<close>;
  \<open>q_open\<close> opens for reading, \<open>q_lock\<close> opens and locks.
\<close>

datatype file_mode = ModeRead | ModeReadAppend | ModeWrite
datatype file_result = Failed | LockFailed | WrongKey | Success

record 'q file_env =
  fe_sha256 :: "byte_list \<Rightarrow> byte_list"
  fe_ctr128 :: block_cipher
  q_read :: "nat \<Rightarrow> 'q \<Rightarrow> 'q \<times> int \<times> byte_list"
  q_write :: "byte_list \<Rightarrow> 'q \<Rightarrow> 'q \<times> int"
  q_seek :: "int \<Rightarrow> 'q \<Rightarrow> 'q \<times> bool"
  q_pos :: "'q \<Rightarrow> int"
  q_size :: "'q \<Rightarrow> int"
  q_isOpen :: "'q \<Rightarrow> bool"
  q_open :: "'q \<Rightarrow> 'q \<times> bool"
  q_lock :: "file_mode \<Rightarrow> 'q \<Rightarrow> 'q \<times> bool"
  q_close :: "'q \<Rightarrow> 'q"

section \<open>The encrypted file\<close>

record 'q enc_file =
  fl_data :: 'q
  fl_encryptionOffset :: int
  fl_dataSize :: int
  fl_state :: "ctr option"

definition kSkipBytes :: nat where "kSkipBytes = 4"
definition kHeaderSize :: nat where "kHeaderSize = kSaltSize + 8 * 2 + 32"
definition kMagic :: byte_list where "kMagic = [0x54, 0x44, 0x45, 0x46]"

text \<open>The header without its checksum: the salt, the format with its reserved bits, and the version.\<close>

definition header_start :: "byte_list \<Rightarrow> byte_list" where
  "header_start salt = salt @ word_bytes 0 @ word_bytes 0 @ dword_bytes 0"

definition file_close :: "'q file_env \<Rightarrow> 'q enc_file \<Rightarrow> 'q enc_file" where
  "file_close e f = \<lparr>fl_data = q_close e (fl_data f), fl_encryptionOffset = 0, fl_dataSize = 0, fl_state = None\<rparr>"

definition file_offset :: "'q enc_file \<Rightarrow> int" where
  "file_offset f =
     (let realOffset = int kSaltSize + fl_encryptionOffset f; skipOffset = int kHeaderSize
      in if realOffset \<ge> skipOffset then realOffset - skipOffset else 0)"

definition file_seek :: "'q file_env \<Rightarrow> int \<Rightarrow> 'q enc_file \<Rightarrow> 'q enc_file \<times> bool" where
  "file_seek e offset f =
     (let realOffset = int kHeaderSize + offset in
      if offset < 0 \<or> offset > fl_dataSize f then (f, False)
      else let (d, good) = q_seek e (int kSkipBytes + realOffset) (fl_data f) in
        if \<not> good then (f\<lparr>fl_data := d\<rparr>, False)
        else (f\<lparr>fl_data := d, fl_encryptionOffset := realOffset - int kSaltSize\<rparr>, True))"

definition file_decrypt :: "'q file_env \<Rightarrow> byte_list \<Rightarrow> 'q enc_file \<Rightarrow> ('q enc_file \<times> byte_list) option" where
  "file_decrypt e bs f =
     do {
       c \<leftarrow> fl_state f;
       out \<leftarrow> ctr_decrypt (fe_ctr128 e) bs (fl_encryptionOffset f) c;
       Some (f\<lparr>fl_encryptionOffset := fl_encryptionOffset f + int (length bs)\<rparr>, out)
     }"

definition file_encrypt :: "'q file_env \<Rightarrow> byte_list \<Rightarrow> 'q enc_file \<Rightarrow> ('q enc_file \<times> byte_list) option" where
  "file_encrypt e bs f =
     do {
       c \<leftarrow> fl_state f;
       out \<leftarrow> ctr_encrypt (fe_ctr128 e) bs (fl_encryptionOffset f) c;
       Some (f\<lparr>fl_encryptionOffset := fl_encryptionOffset f + int (length bs)\<rparr>, out)
     }"

definition decryptBack :: "'q file_env \<Rightarrow> byte_list \<Rightarrow> 'q enc_file \<Rightarrow> ('q enc_file \<times> byte_list) option" where
  "decryptBack e bs f =
     (if \<not> fl_encryptionOffset f \<ge> int (length bs) then None
      else do {
        (f1, out) \<leftarrow> file_decrypt e bs (f\<lparr>fl_encryptionOffset := fl_encryptionOffset f - int (length bs)\<rparr>);
        Some (f1\<lparr>fl_encryptionOffset := fl_encryptionOffset f1 - int (length bs)\<rparr>, out)
      })"

text \<open>\<open>read\<close> returns the count and the bytes at the beginning of the buffer.\<close>

definition file_decode :: "'q file_env \<Rightarrow> int \<Rightarrow> byte_list \<Rightarrow> 'q enc_file \<Rightarrow> ('q enc_file \<times> int \<times> byte_list) option" where
  "file_decode e cnt bs f =
     (if cnt = 0 then Some (f, 0, [])
      else if cnt < 0 then None
      else do {
        part \<leftarrow> subspan 0 (nat cnt) bs;
        (f1, out) \<leftarrow> file_decrypt e part f;
        Some (f1, cnt, out)
      })"

definition file_read :: "'q file_env \<Rightarrow> nat \<Rightarrow> 'q enc_file \<Rightarrow> ('q enc_file \<times> int \<times> byte_list) option" where
  "file_read e n f =
     (if n mod kBlockSize \<noteq> 0 then None
      else let (d1, cnt, bs) = q_read e n (fl_data f); back = - (cnt smod int kBlockSize) in
        if back \<noteq> 0
        then let (d2, good) = q_seek e (q_pos e d1 + back) d1 in
          if \<not> good then Some (f\<lparr>fl_data := d2\<rparr>, 0, [])
          else file_decode e (cnt + back) bs (f\<lparr>fl_data := d2\<rparr>)
        else file_decode e cnt bs (f\<lparr>fl_data := d1\<rparr>))"

text \<open>\<open>write\<close> encrypts in the buffer of the caller, so the buffer is a result.\<close>

definition file_write :: "'q file_env \<Rightarrow> byte_list \<Rightarrow> 'q enc_file \<Rightarrow> ('q enc_file \<times> bool \<times> byte_list) option" where
  "file_write e bs f =
     (if length bs mod kBlockSize \<noteq> 0 then None
      else if \<not> q_isOpen e (fl_data f) then Some (f, False, bs)
      else do {
        (f1, enc) \<leftarrow> file_encrypt e bs f;
        let (d, cnt) = q_write e enc (fl_data f1);
        let f2 = f1\<lparr>fl_data := d\<rparr>;
        if cnt = int (length bs)
        then Some (f2\<lparr>fl_dataSize := max (fl_dataSize f2) (file_offset f2)\<rparr>, True, enc)
        else do {
          (f3, dec) \<leftarrow> decryptBack e enc f2;
          Some (if cnt > 0 then f3\<lparr>fl_data := fst (q_seek e (q_pos e (fl_data f3) - cnt) (fl_data f3))\<rparr> else f3, False, dec)
        }
      })"

definition readWithPadding :: "'q file_env \<Rightarrow> nat \<Rightarrow> 'q enc_file \<Rightarrow> ('q enc_file \<times> int \<times> byte_list) option" where
  "readWithPadding e n f =
     (let part = n mod kBlockSize; good = n - part in
      do {
        (f1, succeed, bs) \<leftarrow> (if good \<noteq> 0 then file_read e good f else Some (f, 0, []));
        if succeed \<noteq> int good then Some (f1, succeed, bs)
        else if part = 0 then Some (f1, int good, bs)
        else do {
          (f2, succeed2, bs2) \<leftarrow> file_read e kBlockSize f1;
          if succeed2 = 0 then Some (f2, int good, bs)
          else if succeed2 \<noteq> int kBlockSize then None
          else Some (f2, int n, bs @ take part bs2)
        }
      })"

text \<open>\<open>fill\<close> holds the random bytes that pad the last block.\<close>

definition writeWithPadding ::
    "'q file_env \<Rightarrow> (nat \<Rightarrow> u8) \<Rightarrow> byte_list \<Rightarrow> 'q enc_file \<Rightarrow> ('q enc_file \<times> bool \<times> byte_list) option" where
  "writeWithPadding e fill bs f =
     (let part = length bs mod kBlockSize; good = length bs - part in
      do {
        (f1, good1, enc) \<leftarrow> (if good \<noteq> 0 then file_write e (take good bs) f else Some (f, True, []));
        if \<not> good1 then Some (f1, False, enc @ drop good bs)
        else if part = 0 then Some (f1, True, enc)
        else do {
          (f2, good2, _) \<leftarrow> file_write e (drop good bs @ map fill [0..<kBlockSize - part]) f1;
          if good2 then Some (f2, True, enc @ drop good bs)
          else if good = 0 then Some (f2, False, bs)
          else do {
            (f3, dec) \<leftarrow> decryptBack e enc f2;
            Some (f3\<lparr>fl_data := fst (q_seek e (q_pos e (fl_data f3) - int good) (fl_data f3))\<rparr>, False, dec @ drop good bs)
          }
        }
      })"

definition file_writeHeader :: "'q file_env \<Rightarrow> byte_list \<Rightarrow> byte_list \<Rightarrow> 'q enc_file \<Rightarrow> ('q enc_file \<times> bool) option" where
  "file_writeHeader e key salt f =
     (if fl_state f \<noteq> None \<or> q_pos e (fl_data f) \<noteq> 0 then None
      else let (d1, cnt1) = q_write e (take kSkipBytes kMagic) (fl_data f) in
        if cnt1 = 0 then Some (f\<lparr>fl_data := d1\<rparr>, False)
        else do {
          c \<leftarrow> prepareCtrState (fe_sha256 e) key salt;
          checksum \<leftarrow> bytes_copy (replicate 32 0) (fe_sha256 e (key @ header_start salt));
          let (d2, cnt2) = q_write e salt d1;
          let f2 = f\<lparr>fl_data := d2, fl_state := Some c\<rparr>;
          if cnt2 \<noteq> int (length salt) then Some (f2, False)
          else do {
            (f3, good, _) \<leftarrow> file_write e (drop kSaltSize (header_start salt @ checksum)) f2;
            if \<not> good then Some (f3, False) else Some (f3\<lparr>fl_dataSize := 0\<rparr>, True)
          }
        })"

definition file_readHeader :: "'q file_env \<Rightarrow> byte_list \<Rightarrow> 'q enc_file \<Rightarrow> ('q enc_file \<times> file_result) option" where
  "file_readHeader e key f =
     (if fl_state f \<noteq> None \<or> q_pos e (fl_data f) \<noteq> 0 then None
      else let (d1, good) = q_seek e (int kSkipBytes) (fl_data f) in
        if \<not> good then Some (f\<lparr>fl_data := d1\<rparr>, Failed)
        else let (d2, cnt, bs) = q_read e kHeaderSize d1 in
          if cnt \<noteq> int kHeaderSize then Some (f\<lparr>fl_data := d2\<rparr>, Failed)
          else do {
            c \<leftarrow> prepareCtrState (fe_sha256 e) key (take kSaltSize bs);
            (f1, rest) \<leftarrow> file_decrypt e (drop kSaltSize bs) (f\<lparr>fl_data := d2, fl_state := Some c\<rparr>);
            let header = take kSaltSize bs @ rest;
            let checkSize = kHeaderSize - 32;
            if drop checkSize header \<noteq> fe_sha256 e (key @ take checkSize header) then Some (f1, WrongKey)
            else if header ! kSaltSize \<noteq> 0 then Some (f1, Failed)
            else
              let dataSize = q_size e (fl_data f1) - int kHeaderSize - int kSkipBytes in
              if \<not> dataSize \<ge> 0 then None
              else Some (f1\<lparr>fl_dataSize := dataSize - dataSize smod int kBlockSize\<rparr>, Success)
          })"

definition attemptOpen ::
    "'q file_env \<Rightarrow> file_mode \<Rightarrow> byte_list \<Rightarrow> byte_list \<Rightarrow> 'q enc_file \<Rightarrow> ('q enc_file \<times> file_result) option" where
  "attemptOpen e mode key salt f =
     (case mode of
        ModeRead \<Rightarrow>
          let (d, good) = q_open e (fl_data f) in
          if \<not> good then Some (f\<lparr>fl_data := d\<rparr>, Failed) else file_readHeader e key (f\<lparr>fl_data := d\<rparr>)
      | ModeReadAppend \<Rightarrow>
          let (d, good) = q_lock e ModeReadAppend (fl_data f) in
          if \<not> good then Some (f\<lparr>fl_data := d\<rparr>, LockFailed)
          else if q_size e d = 0
          then map_option (\<lambda>(f1, written). (f1, if written then Success else Failed)) (file_writeHeader e key salt (f\<lparr>fl_data := d\<rparr>))
          else file_readHeader e key (f\<lparr>fl_data := d\<rparr>)
      | ModeWrite \<Rightarrow>
          let (d, good) = q_lock e ModeWrite (fl_data f) in
          if \<not> good then Some (f\<lparr>fl_data := d\<rparr>, LockFailed)
          else map_option (\<lambda>(f1, written). (f1, if written then Success else Failed)) (file_writeHeader e key salt (f\<lparr>fl_data := d\<rparr>)))"

text \<open>\<open>dir_ok\<close>: the directory of the file exists or could be made.\<close>

definition file_open ::
    "'q file_env \<Rightarrow> bool \<Rightarrow> file_mode \<Rightarrow> byte_list \<Rightarrow> byte_list \<Rightarrow> 'q enc_file \<Rightarrow> ('q enc_file \<times> file_result) option" where
  "file_open e dir_ok mode key salt f =
     (if mode \<noteq> ModeRead \<and> \<not> dir_ok then Some (file_close e f, Failed)
      else do {
        (f1, result) \<leftarrow> attemptOpen e mode key salt (file_close e f);
        Some (if result \<noteq> Success then file_close e f1 else f1, result)
      })"

section \<open>The counter is a 128-bit integer\<close>

text \<open>A list of bytes as a number, the first byte the most significant one.\<close>

fun be_value :: "byte_list \<Rightarrow> int" where
  "be_value [] = 0"
| "be_value (b # bs) = uint b * 256 ^ length bs + be_value bs"

lemma be_value_append: "be_value (xs @ ys) = be_value xs * 256 ^ length ys + be_value ys"
  by (induction xs) (simp_all add: algebra_simps power_add)

lemma be_value_bounds: "0 \<le> be_value bs \<and> be_value bs < 256 ^ length bs"
proof (induction bs)
  case (Cons b bs)
  let ?n = "256 ^ length bs :: int"
  have "uint b \<le> 255" "0 \<le> uint b" using uint_lt2p [of b] by simp_all
  then have "uint b * ?n \<le> 255 * ?n" "0 \<le> uint b * ?n" by (simp_all add: mult_right_mono)
  moreover have "256 ^ length (b # bs) = 256 * ?n" by simp
  ultimately show ?case using Cons unfolding be_value.simps by linarith
qed simp

lemma be_value_Cons_divmod:
  "be_value (b # bs) div 256 ^ length bs = uint b" "be_value (b # bs) mod 256 ^ length bs = be_value bs"
  using be_value_bounds [of bs] by (simp_all add: div_add1_eq)

lemma be_value_inj: "length xs = length ys \<Longrightarrow> be_value xs = be_value ys \<Longrightarrow> xs = ys"
proof (induction xs ys rule: list_induct2)
  case (Cons x xs y ys)
  have "uint x = uint y" "be_value xs = be_value ys"
    using be_value_Cons_divmod [of x xs] be_value_Cons_divmod [of y ys] Cons.prems Cons.hyps by metis+
  with Cons.IH show ?case by (simp add: word_uint_eq_iff)
qed simp

lemma be_value_append_update:
  assumes "digits < length bs"
  shows "be_value (take (Suc digits) (bs[digits := b])) = be_value (take digits bs) * 256 + uint b"
  using assms by (simp add: take_Suc_conv_app_nth be_value_append)

text \<open>The loop adds, modulo the weight of the bytes it may reach.\<close>

lemma increment_loop_value:
  "digits \<le> length result \<Longrightarrow> uint increment + 255 < 2 ^ 64 \<Longrightarrow>
    length (increment_loop digits increment result) = length result
    \<and> drop digits (increment_loop digits increment result) = drop digits result
    \<and> be_value (take digits (increment_loop digits increment result))
      = (be_value (take digits result) + uint increment) mod 256 ^ digits"
proof (induction digits arbitrary: increment result)
  case 0
  then show ?case by simp
next
  case (Suc digits)
  define i1 where "i1 = increment + ucast (result ! digits)"
  define r1 where "r1 = result[digits := ucast (i1 AND 0xFF)]"
  define i2 where "i2 = drop_bit 8 i1"
  define low where "low = (ucast (i1 AND 0xFF) :: u8)"
  define V where "V = be_value (take digits result)"
  let ?L = "increment_loop (Suc digits) increment result"
  have lt: "uint (result ! digits) < 256" using uint_lt2p [of "result ! digits"] by simp
  then have "uint (ucast (result ! digits) :: u64) = uint (result ! digits)"
    by (simp add: unsigned_ucast_eq take_bit_int_eq_self)
  with lt Suc.prems(2) have u1: "uint i1 = uint increment + uint (result ! digits)"
    unfolding i1_def by (simp add: uint_word_ariths)
  have u2: "uint i2 = uint i1 div 256" by (simp add: i2_def drop_bit_eq_div uint_div)
  have m: "i1 AND 0xFF = take_bit 8 i1" by (simp add: take_bit_eq_mask mask_eq_exp_minus_1)
  have ulow: "uint low = uint i1 mod 256"
    unfolding low_def m by (simp add: unsigned_ucast_eq unsigned_take_bit_eq) (simp add: take_bit_eq_mod)
  have d: "digits < length result" using Suc.prems(1) by simp
  have rec: "?L = (if digits \<noteq> 0 \<and> i2 \<noteq> 0 then increment_loop digits i2 r1 else r1)"
    by (simp add: Let_def i1_def i2_def r1_def)
  have "0 \<le> V" "V < 256 ^ digits" using be_value_bounds [of "take digits result"] d by (simp_all add: V_def min_def)
  then have L: "length ?L = length result" "drop digits ?L = drop digits r1" "be_value (take digits ?L) = (V + uint i2) mod 256 ^ digits"
    using Suc.IH [of r1 i2] d Suc.prems(2) u1 u2 lt unfolding rec by (auto simp: r1_def V_def)
  have "take (Suc digits) ?L = take digits ?L @ [low]"
    using L(1) hd_drop_conv_nth [of digits ?L] hd_drop_conv_nth [of digits r1] L(2) d
    by (simp add: take_Suc_conv_app_nth r1_def low_def del: increment_loop.simps)
  then have "be_value (take (Suc digits) ?L) = 256 * ((V + uint i2) mod 256 ^ digits) + uint low"
    using L(3) by (simp add: be_value_append del: increment_loop.simps)
  also have "\<dots> = (V * 256 + uint i1) mod 256 ^ Suc digits"
    using zmod_zmult2_eq [of "256 ^ digits" "V * 256 + uint i1" 256] u2 ulow by simp
  also have "V * 256 + uint i1 = be_value (take (Suc digits) result) + uint increment"
    using d u1 by (simp add: take_Suc_conv_app_nth be_value_append V_def)
  finally have value_eq: "be_value (take (Suc digits) ?L) = (be_value (take (Suc digits) result) + uint increment) mod 256 ^ Suc digits" .
  have "drop (Suc digits) ?L = drop 1 (drop digits ?L)" by (simp del: increment_loop.simps)
  also have "\<dots> = drop (Suc digits) result" unfolding L(2) by (simp add: r1_def)
  finally show ?case using L(1) value_eq by blast
qed

lemma incrementedIv_value:
  assumes "length (cs_iv c) = kIvSize" "0 \<le> blockIndex" "blockIndex < 2 ^ 63"
  shows "\<exists>iv. incrementedIv blockIndex c = Some iv \<and> length iv = kIvSize
    \<and> be_value iv = (be_value (cs_iv c) + blockIndex) mod 2 ^ 128"
proof -
  have b: "0 \<le> be_value (cs_iv c)" "be_value (cs_iv c) < 256 ^ kIvSize" using be_value_bounds [of "cs_iv c"] assms(1) by simp_all
  have p: "(256 :: int) ^ kIvSize = 2 ^ 128" by (simp add: kIvSize_def kBlockSize_def)
  have u: "uint (word_of_int blockIndex :: u64) = blockIndex"
    using assms(2,3) by (simp add: word_of_int_inverse unsigned_of_int take_bit_int_eq_self)
  show ?thesis
  proof (cases "blockIndex = 0")
    case True
    then show ?thesis using assms(1) b p by (simp add: incrementedIv_def)
  next
    case False
    then show ?thesis
      using increment_loop_value [of kIvSize "cs_iv c" "word_of_int blockIndex"] assms p u
      by (auto simp: incrementedIv_def)
  qed
qed

text \<open>
  C38. The counter of a block is the initial counter plus the index of the block, as a 128-bit big-endian
  integer with wrap-around; it is defined for every index that is not negative.
\<close>

theorem incrementedIv_adds:
  assumes "length (cs_iv c) = kIvSize" "0 \<le> blockIndex" "blockIndex < 2 ^ 63"
  shows "\<exists>iv. incrementedIv blockIndex c = Some iv \<and> length iv = kIvSize
    \<and> be_value iv = (be_value (cs_iv c) + blockIndex) mod 2 ^ 128"
  by (rule incrementedIv_value [OF assms])

theorem incrementedIv_adds_witness:
  "\<exists>iv. incrementedIv 2 \<lparr>cs_key = [], cs_iv = replicate 16 0xFF\<rparr> = Some iv \<and> be_value iv = 1"
proof -
  have "be_value (replicate 16 0xFF) = 2 ^ 128 - 1" by code_simp
  then show ?thesis using incrementedIv_adds [of "\<lparr>cs_key = [], cs_iv = replicate 16 0xFF\<rparr>" 2]
    by (auto simp: kIvSize_def kBlockSize_def)
qed

section \<open>Encryption is a pad\<close>

text \<open>
  What the code relies on: \<open>CRYPTO_ctr128_encrypt\<close> combines the data with the encrypted counters, the
  counter counting blocks as a 128-bit integer. \<open>block key n\<close> is the encryption of the counter \<open>n\<close>.
\<close>

definition ctr_mode :: "block_cipher \<Rightarrow> (byte_list \<Rightarrow> int \<Rightarrow> byte_list) \<Rightarrow> bool" where
  "ctr_mode ctr128 block \<longleftrightarrow> (\<forall>key iv data. length iv = kIvSize \<longrightarrow>
     ctr128 key iv data = map (\<lambda>i. data ! i XOR block key ((be_value iv + int (i div kBlockSize)) mod 2 ^ 128) ! (i mod kBlockSize))
       [0..<length data])"

definition pad :: "(byte_list \<Rightarrow> int \<Rightarrow> byte_list) \<Rightarrow> ctr \<Rightarrow> nat \<Rightarrow> u8" where
  "pad block c i = block (cs_key c) ((be_value (cs_iv c) + int (i div kBlockSize)) mod 2 ^ 128) ! (i mod kBlockSize)"

fun xor_pad :: "(nat \<Rightarrow> u8) \<Rightarrow> nat \<Rightarrow> byte_list \<Rightarrow> byte_list" where
  "xor_pad p off [] = []"
| "xor_pad p off (b # bs) = (b XOR p off) # xor_pad p (Suc off) bs"

lemma xor_pad_length [simp]: "length (xor_pad p off bs) = length bs"
  by (induction bs arbitrary: off) simp_all

lemma xor_pad_involutive [simp]: "xor_pad p off (xor_pad p off bs) = bs"
  by (induction bs arbitrary: off) (simp_all add: xor.assoc)

lemma xor_pad_append: "xor_pad p off (xs @ ys) = xor_pad p off xs @ xor_pad p (off + length xs) ys"
  by (induction xs arbitrary: off) simp_all

lemma take_xor_pad: "take n (xor_pad p off bs) = xor_pad p off (take n bs)"
  by (induction bs arbitrary: off n) (simp_all add: take_Cons')

lemma drop_xor_pad: "drop n (xor_pad p off bs) = xor_pad p (off + n) (drop n bs)"
proof (induction bs arbitrary: off n)
  case (Cons b bs)
  then show ?case by (cases n) simp_all
qed simp

lemma xor_pad_nth: "i < length bs \<Longrightarrow> xor_pad p off bs ! i = bs ! i XOR p (off + i)"
proof (induction bs arbitrary: off i)
  case (Cons b bs)
  then show ?case by (cases i) simp_all
qed simp

lemma smod_int_nat: "int a smod int b = int (a mod b)"
  by (cases "a = 0") (simp_all add: signed_modulo_int_def zmod_int)

lemma sdiv_int_nat: "int a sdiv int b = int (a div b)"
  by (cases "a = 0"; cases "b = 0") (simp_all add: signed_divide_int_def zdiv_int)

lemma ctr_process_pad:
  assumes "ctr_mode ctr128 block" "length (cs_iv c) = kIvSize"
    and "length bs mod kBlockSize = 0" "off mod kBlockSize = 0" "off < 2 ^ 63"
  shows "ctr_process ctr128 bs (int off) c = Some (xor_pad (pad block c) off bs)"
proof -
  have "off div kBlockSize < 2 ^ 63" using le_less_trans [OF div_le_dividend assms(5)] .
  then have "int (off div kBlockSize) < 2 ^ 63" by simp
  from incrementedIv_value [OF assms(2) _ this] obtain iv where
    iv: "incrementedIv (int (off div kBlockSize)) c = Some iv" "length iv = kIvSize"
      "be_value iv = (be_value (cs_iv c) + int (off div kBlockSize)) mod 2 ^ 128" by auto
  have "ctr128 (cs_key c) iv bs = xor_pad (pad block c) off bs"
  proof (rule nth_equalityI)
    show "length (ctr128 (cs_key c) iv bs) = length (xor_pad (pad block c) off bs)"
      using assms(1) iv(2) by (simp add: ctr_mode_def)
    fix i
    assume "i < length (ctr128 (cs_key c) iv bs)"
    then have i: "i < length bs" using assms(1) iv(2) by (simp add: ctr_mode_def)
    have o: "(off + i) div kBlockSize = off div kBlockSize + i div kBlockSize" "(off + i) mod kBlockSize = i mod kBlockSize"
      using assms(4) by (auto simp: div_add1_eq mod_add_eq [symmetric])
    have "(be_value iv + int (i div kBlockSize)) mod 2 ^ 128
        = (be_value (cs_iv c) + int ((off + i) div kBlockSize)) mod 2 ^ 128"
      unfolding iv(3) o by (simp add: mod_add_left_eq add.assoc)
    then show "ctr128 (cs_key c) iv bs ! i = xor_pad (pad block c) off bs ! i"
      using i assms(1) iv(2) by (simp add: xor_pad_nth pad_def ctr_mode_def o(2))
  qed
  then show ?thesis using assms(3,4) iv(1) by (simp add: ctr_process_def smod_int_nat sdiv_int_nat)
qed

end
