(* ===== verification/CacheDatabase.thy ===== *)
theory CacheDatabase
  imports CachePrune StorageFile
begin

text \<open>
  \<open>storage_cache_database_object.cpp\<close>, third part: the operations of the cache database and the journal
  they write. What the outside does during a call is the record \<open>cache_env\<close>: the clocks, whether the
  journal file takes what is written, how a value file opens and is written, whether a file can be
  deleted, the random places and padding drawn, and the checksum \<open>XXH32\<close>. The handlers of callbacks are
  arguments (\<open>done\<close>). Observers of the statistics are not modelled.
\<close>

section \<open>The outside\<close>

record cache_env =
  ev_time :: int
  ev_now :: int
  ev_binlog_ok :: bool
  ev_open :: file_result
  ev_written :: bool
  ev_partial :: byte_list
  ev_unlink :: bool
  ev_places :: "place_id list"
  ev_padding :: "nat \<Rightarrow> u8"
  ev_checksum :: "byte_list \<Rightarrow> u32"

section \<open>Paths\<close>

definition pushDigit :: "u8 \<Rightarrow> char" where
  "pushDigit digit = (if digit < 0x0A then char_of (0x30 + unat digit) else char_of (0x41 + (unat digit - 0x0A)))"

definition push_byte :: "u8 \<Rightarrow> string" where
  "push_byte val = [pushDigit (val AND 0x0F), pushDigit (drop_bit 4 val)]"

definition PlaceFromId :: "place_id \<Rightarrow> string" where
  "PlaceFromId place =
     (case place of [] \<Rightarrow> [] | first # rest \<Rightarrow> push_byte first @ ''/'' @ concat (map push_byte rest))"

definition placePath :: "place_id \<Rightarrow> database \<Rightarrow> string" where
  "placePath place db = db_path db @ PlaceFromId place"

definition binlogPath :: "database \<Rightarrow> string" where "binlogPath db = db_path db @ ''binlog''"

definition versionPath :: "database \<Rightarrow> string" where "versionPath db = db_base db @ ''version''"

definition isFreePlace :: "place_id \<Rightarrow> database \<Rightarrow> bool" where
  "isFreePlace place db \<longleftrightarrow> db_files db place = None"

section \<open>Value files\<close>

text \<open>A value is stored padded to whole blocks and read back to its length.\<close>

definition padded :: "(nat \<Rightarrow> u8) \<Rightarrow> byte_list \<Rightarrow> byte_list" where
  "padded fill content = content @ map fill [0..<(16 - length content mod 16) mod 16]"

definition readValueData :: "place_id \<Rightarrow> int \<Rightarrow> database \<Rightarrow> byte_list" where
  "readValueData place sz db =
     (case db_files db place of
        None \<Rightarrow> []
      | Some content \<Rightarrow>
          let part = nat sz mod 16; good = nat sz - part
          in if (if part = 0 then good else good + 16) \<le> length content then take (nat sz) content else [])"

definition remove_file :: "place_id \<Rightarrow> cache_env \<Rightarrow> database \<Rightarrow> database" where
  "remove_file place e db = (if ev_unlink e then db\<lparr>db_files := (db_files db)(place := None)\<rparr> else db)"

definition writeNewEntry ::
    "place_id \<Rightarrow> byte_list \<Rightarrow> cache_env \<Rightarrow> database \<Rightarrow> (database \<times> cache_error) option" where
  "writeNewEntry place content e db =
     (case ev_open e of
        Failed \<Rightarrow> Some (db, IOError (placePath place db))
      | LockFailed \<Rightarrow> Some (db, LockFailedError (placePath place db))
      | WrongKey \<Rightarrow> None
      | Success \<Rightarrow>
          if ev_written e
          then Some (db\<lparr>db_files := (db_files db)(place \<mapsto> padded (ev_padding e) content)\<rparr>, NoError)
          else Some (db\<lparr>db_files := (db_files db)(place \<mapsto> ev_partial e)\<rparr>, IOError (placePath place db)))"

section \<open>The journal\<close>

definition record_length :: "bool \<Rightarrow> binlog_record \<Rightarrow> int" where
  "record_length track r =
     (let store_size = (if track then 48 else 32) in
      case r of
        StoreRecord _ \<Rightarrow> store_size
      | MultiStore rs \<Rightarrow> 16 + store_size * int (length rs)
      | MultiRemove ks \<Rightarrow> 16 + 16 * int (length ks)
      | MultiAccess _ ks \<Rightarrow> 16 + 16 * int (length ks))"

definition binlog_size :: "database \<Rightarrow> int" where
  "binlog_size db = 16 + sum_list (map (record_length (st_trackEstimatedTime (db_settings db))) (db_binlog db))"

definition binlog_write :: "binlog_record \<Rightarrow> cache_env \<Rightarrow> database \<Rightarrow> database \<times> bool" where
  "binlog_write r e db =
     (if db_open db \<and> ev_binlog_ok e then (db\<lparr>db_binlog := db_binlog db @ [r]\<rparr>, True) else (db, False))"

definition writeBundlesLazy :: "cache_env \<Rightarrow> database \<Rightarrow> database" where
  "writeBundlesLazy e db =
     (if db_bundlesTimer db = None
      then db\<lparr>db_bundlesTimer := Some (ev_now e + st_writeBundleDelay (db_settings db))\<rparr> else db)"

definition writeMultiRemove :: "cache_env \<Rightarrow> database \<Rightarrow> (database \<times> cache_error) option" where
  "writeMultiRemove e db =
     (if \<not> card (db_removing db) \<le> st_maxBundledRecords (db_settings db) then None
      else if db_removing db = {} then Some (db, NoError)
      else if \<not> multi_count_ok (card (db_removing db)) then None
      else let keys = sorted_list_of_set (db_removing db);
               (db1, good) = binlog_write (MultiRemove keys) e (db\<lparr>db_removing := {}\<rparr>)
        in if good then Some (db1\<lparr>db_excess := db_excess db1 + (16 + 16 * int (length keys))\<rparr>, NoError)
           else Some (db1\<lparr>db_open := False\<rparr>, IOError (binlogPath db1)))"

definition writeMultiRemoveLazy :: "cache_env \<Rightarrow> database \<Rightarrow> database option" where
  "writeMultiRemoveLazy e db =
     (if card (db_removing db) = st_maxBundledRecords (db_settings db)
      then map_option fst (writeMultiRemove e db)
      else Some (writeBundlesLazy e db))"

definition writeMultiAccessBlock :: "cache_env \<Rightarrow> database \<Rightarrow> (database \<times> cache_error) option" where
  "writeMultiAccessBlock e db =
     (if \<not> st_trackEstimatedTime (db_settings db) then None
      else if \<not> card (db_accessed db) \<le> st_maxBundledRecords (db_settings db) then None
      else if \<not> multi_count_ok (card (db_accessed db)) then None
      else let time = countTimePoint (ev_time e) db;
               keys = sorted_list_of_set (db_accessed db);
               (db1, good) = binlog_write (MultiAccess time keys) e
                 (db\<lparr>db_accessed := {}, db_time := time, db_map := touch_keys (getRelative time) keys (db_map db)\<rparr>)
        in if good then Some (db1\<lparr>db_excess := db_excess db1 + (16 + 16 * int (length keys))\<rparr>, NoError)
           else Some (db1\<lparr>db_open := False\<rparr>, IOError (binlogPath db1)))"

definition writeMultiAccess :: "cache_env \<Rightarrow> database \<Rightarrow> (database \<times> cache_error) option" where
  "writeMultiAccess e db = (if db_accessed db = {} then Some (db, NoError) else writeMultiAccessBlock e db)"

definition writeMultiAccessLazy :: "cache_env \<Rightarrow> database \<Rightarrow> database option" where
  "writeMultiAccessLazy e db =
     (if card (db_accessed db) = st_maxBundledRecords (db_settings db)
      then map_option fst (writeMultiAccess e db)
      else Some (writeBundlesLazy e db))"

definition writeBundles :: "cache_env \<Rightarrow> database \<Rightarrow> database option" where
  "writeBundles e db =
     do {
       (db1, _) \<leftarrow> writeMultiRemove e db;
       if st_trackEstimatedTime (db_settings db1) then map_option fst (writeMultiAccess e db1) else Some db1
     }"

text \<open>A store record is written to the journal and then applied to the map by the handler of the replay.\<close>

definition write_store :: "store \<Rightarrow> cache_env \<Rightarrow> database \<Rightarrow> (database \<times> cache_error) option" where
  "write_store r e db =
     (let (db1, good) = binlog_write (StoreRecord r) e db in
      if \<not> good then Some (db1\<lparr>db_open := False\<rparr>, IOError (binlogPath db1))
      else do {
        (db2, applied) \<leftarrow> processRecordStore r db1;
        if applied then Some (db2, NoError) else None
      })"

definition time_to_write :: "cache_env \<Rightarrow> database \<Rightarrow> time_point option" where
  "time_to_write e db =
     (let time = countTimePoint (ev_time e) db; writing = getRelative time; current = getRelative (db_time db)
      in if \<not> writing \<ge> current then None
         else Some (if uint ((writing - current) * 1000) < st_writeBundleDelay (db_settings db)
           then db_time db else time))"

definition record_base :: "cache_env \<Rightarrow> database \<Rightarrow> store option" where
  "record_base e db =
     (if \<not> st_trackEstimatedTime (db_settings db) then Some empty_store
      else map_option (\<lambda>t. empty_store\<lparr>sr_time := t\<rparr>) (time_to_write e db))"

definition writeKeyPlace ::
    "cache_key \<Rightarrow> place_id \<Rightarrow> byte_list \<times> u8 \<Rightarrow> u32 \<Rightarrow> cache_env \<Rightarrow> database \<Rightarrow> (database \<times> cache_error) option" where
  "writeKeyPlace key place val checksum e db =
     do {
       base \<leftarrow> record_base e db;
       if \<not> int (length (fst val)) \<le> st_maxDataSize (db_settings db) then None
       else do {
         r \<leftarrow> store_setSize (int (length (fst val))) (base\<lparr>sr_tag := snd val, sr_key := key\<rparr>);
         write_store (r\<lparr>sr_checksum := checksum, sr_place := place\<rparr>) e db
       }
     }"

definition writeExistingPlace :: "cache_key \<Rightarrow> entry \<Rightarrow> cache_env \<Rightarrow> database \<Rightarrow> (database \<times> cache_error) option" where
  "writeExistingPlace key entry e db =
     do {
       base \<leftarrow> record_base e db;
       r \<leftarrow> store_setSize (en_size entry) (base\<lparr>sr_key := key, sr_tag := en_tag entry\<rparr>);
       let r1 = r\<lparr>sr_checksum := en_checksum entry\<rparr>;
       if (case db_map db key of
             None \<Rightarrow> False
           | Some already \<Rightarrow> en_tag already = sr_tag r1 \<and> en_size already = en_size entry
               \<and> en_checksum already = en_checksum entry
               \<and> readValueData (en_place already) (en_size already) db = readValueData (en_place entry) (en_size entry) db)
       then Some (db, NoError)
       else write_store (r1\<lparr>sr_place := en_place entry\<rparr>) e db
     }"

section \<open>Housekeeping\<close>

definition startDelayedPruning :: "cache_env \<Rightarrow> database \<Rightarrow> database \<times> bool" where
  "startDelayedPruning e db =
     (let st = db_settings db in
      if \<not> st_trackEstimatedTime st \<or> db_map db = Map.empty then (db, False)
      else let before = pruneBeforeTime (ev_time e) db in
        if st_totalSizeLimit st > 0 \<and> db_totalSize db > st_totalSizeLimit st
          \<or> db_minimal db = 0 \<or> db_minimal db \<le> before
        then (case db_pruneTimer db of
            None \<Rightarrow> (db\<lparr>db_pruneTimer := Some (ev_now e + st_pruneTimeout st)\<rparr>, True)
          | Some at \<Rightarrow>
              if at - ev_now e > st_pruneTimeout st
              then (db\<lparr>db_pruneTimer := Some (ev_now e + st_pruneTimeout st)\<rparr>, True) else (db, True))
        else (if db_pruneTimer db = None
          then db\<lparr>db_pruneTimer := Some (ev_now e + min (uint (db_minimal db - before) * 1000) (st_maxPruneCheckTimeout st))\<rparr>
          else db, False))"

definition checkCompactor :: "cache_env \<Rightarrow> database \<Rightarrow> database" where
  "checkCompactor e db =
     (let st = db_settings db in
      if db_compactor db \<noteq> None \<or> st_compactAfterExcess st = 0 \<or> db_excess db < st_compactAfterExcess st then db
      else if st_compactAfterFullSize st \<noteq> 0
        \<and> db_excess db * st_compactAfterFullSize st < st_compactAfterExcess st * binlog_size db then db
      else if ev_now e < db_nextAttempt db \<or> \<not> db_open db then db
      else db\<lparr>db_compactor := Some (db_excess db)\<rparr>)"

definition kMaxDelayAfterFailure :: int where
  "kMaxDelayAfterFailure = 24 * 60 * 60 * 1000"

definition compactorFail :: "cache_env \<Rightarrow> database \<Rightarrow> database" where
  "compactorFail e db = db\<lparr>db_compactor := None, db_nextAttempt := ev_now e + db_delayAfterFailure db,
     db_delayAfterFailure := min (db_delayAfterFailure db * 2) kMaxDelayAfterFailure\<rparr>"

definition compactor_reset :: "database \<Rightarrow> database" where
  "compactor_reset db = db\<lparr>db_compactor := None, db_nextAttempt := 0, db_delayAfterFailure := 10 * 1000\<rparr>"

text \<open>
  The answers of the file system to \<open>compactorDone\<close>: whether the new journal caught up with the old one, the
  two renamings, the opening of the new journal and the seek to its end.
\<close>

record swap_answers =
  sw_caught :: bool
  sw_ready :: bool
  sw_replaced :: bool
  sw_opened :: bool
  sw_seeked :: bool

definition compactorDone :: "swap_answers \<Rightarrow> binlog_record list \<Rightarrow> cache_env \<Rightarrow> database \<Rightarrow> database option" where
  "compactorDone sw journal e db =
     (if \<not> sw_caught sw then Some (compactorFail e db)
      else if \<not> sw_ready sw then Some (compactorFail e db)
      else let db1 = db\<lparr>db_open := False\<rparr> in
        if \<not> sw_replaced sw then Some (compactor_reset (compactorFail e db1))
        else let db2 = db1\<lparr>db_binlog := journal\<rparr> in
          if \<not> sw_opened sw then Some (compactor_reset (compactorFail e db2))
          else if \<not> sw_seeked sw then Some (compactor_reset (compactorFail e db2))
          else let excess = db_excess db2 - (case db_compactor db2 of Some started \<Rightarrow> started | None \<Rightarrow> 0) in
            if excess \<ge> 0 then Some (compactor_reset (db2\<lparr>db_open := True, db_excess := excess\<rparr>)) else None)"

definition optimize :: "cache_env \<Rightarrow> database \<Rightarrow> database" where
  "optimize e db =
     (let (db1, pruning) = startDelayedPruning e db in if pruning then db1 else checkCompactor e db1)"

definition recordEntryAccess :: "cache_key \<Rightarrow> cache_env \<Rightarrow> database \<Rightarrow> database option" where
  "recordEntryAccess key e db =
     (if \<not> st_trackEstimatedTime (db_settings db) then Some db
      else map_option (optimize e) (writeMultiAccessLazy e (db\<lparr>db_accessed := insert key (db_accessed db)\<rparr>)))"

definition adjustRelativeTime :: "cache_env \<Rightarrow> database \<Rightarrow> database option" where
  "adjustRelativeTime e db =
     (if \<not> st_trackEstimatedTime (db_settings db) then Some db
      else if GetUnixtime (ev_time e) < uint (tp_system (db_time db)) then map_option fst (writeMultiAccessBlock e db)
      else Some db)"

section \<open>Operations\<close>

definition db_remove :: "cache_key \<Rightarrow> cache_env \<Rightarrow> database \<Rightarrow> (database \<times> cache_error) option" where
  "db_remove key e db =
     (if \<not> db_open db then Some (db, IOError (versionPath db))
      else case db_map db key of
        None \<Rightarrow> Some (db, NoError)
      | Some entry \<Rightarrow>
          do {
            db1 \<leftarrow> writeMultiRemoveLazy e (db\<lparr>db_removing := insert key (db_removing db)\<rparr>);
            db2 \<leftarrow> eraseMapEntry key db1;
            let db3 = remove_file (en_place entry) e db2;
            Some (db3, if ev_unlink e \<or> db_files db3 (en_place entry) = None then NoError
              else IOError (placePath (en_place entry) db3))
          })"

fun draw_place :: "place_id list \<Rightarrow> database \<Rightarrow> place_id option" where
  "draw_place [] db = None"
| "draw_place (place # rest) db = (if isFreePlace place db then Some place else draw_place rest db)"

text \<open>
  \<open>chooseKeyPlace\<close> returns the place in use, if any, and the new place, if one is needed. Drawing random
  places until one is free is a search through the draws of the environment.
\<close>

definition chooseKeyPlace ::
    "cache_key \<Rightarrow> byte_list \<times> u8 \<Rightarrow> u32 \<Rightarrow> cache_env \<Rightarrow> database \<Rightarrow> (place_id option \<times> place_id option) option" where
  "chooseKeyPlace key val checksum e db =
     (if \<not> int (length (fst val)) \<le> st_maxDataSize (db_settings db) then None
      else case db_map db key of
        Some already \<Rightarrow>
          if en_tag already = snd val \<and> en_size already = int (length (fst val)) \<and> en_checksum already = checksum
            \<and> readValueData (en_place already) (int (length (fst val))) db = fst val
          then Some (Some (en_place already), None)
          else map_option (\<lambda>place. (Some (en_place already), Some place)) (draw_place (ev_places e) db)
      | None \<Rightarrow> map_option (\<lambda>place. (None, Some place)) (draw_place (ev_places e) db))"

definition db_put :: "cache_key \<Rightarrow> byte_list \<times> u8 \<Rightarrow> cache_env \<Rightarrow> database \<Rightarrow> (database \<times> cache_error) option" where
  "db_put key val e db =
     (if \<not> db_open db then Some (db, IOError (versionPath db))
      else if fst val = [] then db_remove key e db
      else
        let db0 = db\<lparr>db_removing := db_removing db - {key}, db_stale := filter (\<lambda>k. k \<noteq> key) (db_stale db)\<rparr>;
            checksum = ev_checksum e (fst val)
        in do {
          change \<leftarrow> chooseKeyPlace key val checksum e db0;
          (case snd change of
             None \<Rightarrow> map_option (\<lambda>db1. (db1, NoError)) (recordEntryAccess key e db0)
           | Some place \<Rightarrow>
               do {
                 (db1, error1) \<leftarrow> writeNewEntry place (fst val) e db0;
                 if error1 \<noteq> NoError then Some (remove_file place e db1, error1)
                 else do {
                   (db2, error2) \<leftarrow> writeKeyPlace key place val checksum e db1;
                   if error2 \<noteq> NoError then Some (remove_file place e db2, error2)
                   else
                     let db3 = (case fst change of None \<Rightarrow> db2 | Some was \<Rightarrow> remove_file was e db2)
                     in Some (optimize e db3, NoError)
                 }
               })
        })"

definition db_get ::
    "cache_key \<Rightarrow> (byte_list \<times> u8 \<Rightarrow> database \<Rightarrow> (database \<times> 'r) option) \<Rightarrow> cache_env \<Rightarrow> database
      \<Rightarrow> (database \<times> 'r) option" where
  "db_get key done e db =
     (case db_map db key of
        None \<Rightarrow> done ([], 0) db
      | Some entry \<Rightarrow>
          let content = readValueData (en_place entry) (en_size entry) db in
          if content = [] \<or> ev_checksum e content \<noteq> en_checksum entry
          then do {
            (db1, _) \<leftarrow> db_remove key e db;
            done ([], 0) db1
          }
          else do {
            (db1, result) \<leftarrow> done (content, en_tag entry) db;
            db2 \<leftarrow> recordEntryAccess key e db1;
            Some (db2, result)
          })"

definition db_getWithSizes ::
    "cache_key \<Rightarrow> cache_key list \<Rightarrow> cache_env \<Rightarrow> database \<Rightarrow> (database \<times> byte_list \<times> int list) option" where
  "db_getWithSizes key keys e db =
     db_get key (\<lambda>val db1. Some (db1, if fst val = [] then ([], [])
       else (fst val, map (\<lambda>k. case db_map db1 k of Some entry \<Rightarrow> en_size entry | None \<Rightarrow> 0) keys))) e db"

definition db_putIfEmpty :: "cache_key \<Rightarrow> byte_list \<times> u8 \<Rightarrow> cache_env \<Rightarrow> database \<Rightarrow> (database \<times> cache_error) option" where
  "db_putIfEmpty key val e db = (if db_map db key \<noteq> None then Some (db, NoError) else db_put key val e db)"

definition db_copyIfEmpty :: "cache_key \<Rightarrow> cache_key \<Rightarrow> cache_env \<Rightarrow> database \<Rightarrow> (database \<times> cache_error) option" where
  "db_copyIfEmpty from to e db =
     (if db_map db to \<noteq> None then Some (db, NoError) else db_get from (\<lambda>val. db_put to val e) e db)"

definition db_moveIfEmpty :: "cache_key \<Rightarrow> cache_key \<Rightarrow> cache_env \<Rightarrow> database \<Rightarrow> (database \<times> cache_error) option" where
  "db_moveIfEmpty from to e db =
     (if db_map db to \<noteq> None then Some (db, NoError)
      else case db_map db from of
        None \<Rightarrow> Some (db, NoError)
      | Some entry \<Rightarrow>
          do {
            db1 \<leftarrow> eraseMapEntry from (db\<lparr>db_removing := insert from (db_removing db)\<rparr>);
            (db2, result) \<leftarrow> writeMultiRemove e db1;
            if result \<noteq> NoError then Some (db2, result)
            else writeExistingPlace to entry e
              (db2\<lparr>db_removing := db_removing db2 - {to}, db_stale := filter (\<lambda>k. k \<noteq> to) (db_stale db2)\<rparr>)
          })"

fun remove_keys :: "cache_key list \<Rightarrow> cache_env \<Rightarrow> database \<Rightarrow> database option" where
  "remove_keys [] e db = Some db"
| "remove_keys (key # rest) e db =
     do {
       (db1, _) \<leftarrow> db_remove key e db;
       remove_keys rest e db1
     }"

definition clearStaleNow :: "cache_key list \<Rightarrow> cache_env \<Rightarrow> database \<Rightarrow> database option" where
  "clearStaleNow stale e db =
     (if stale = [] then Some db
      else do {
        db1 \<leftarrow> remove_keys stale e (db\<lparr>db_stale := db_stale db @ [hd stale]\<rparr>);
        Some (optimize e (db1\<lparr>db_stale := []\<rparr>))
      })"

definition clearStaleChunk :: "cache_env \<Rightarrow> database \<Rightarrow> database option" where
  "clearStaleChunk e db =
     (if db_stale db = [] then Some db
      else let cnt = length (db_stale db); clear = min cnt (st_staleRemoveChunk (db_settings db)) in
        do {
          db1 \<leftarrow> remove_keys (drop (cnt - clear) (db_stale db)) e db;
          let db2 = db1\<lparr>db_stale := take (cnt - clear) (db_stale db1)\<rparr>;
          Some (if db_stale db2 = [] then optimize e db2 else db2\<lparr>db_clearingStale := True\<rparr>)
        })"

definition db_prune :: "cache_key list \<Rightarrow> cache_env \<Rightarrow> database \<Rightarrow> database option" where
  "db_prune order e db =
     (if db_stale db \<noteq> [] then Some db
      else let (stale1, db1) = collectTimeStale (ev_time e) order ([], 0) db in
        do {
          (keys, _) \<leftarrow> collectSizeStale order stale1 db1;
          if length keys \<le> st_staleRemoveChunk (db_settings db1) then clearStaleNow keys e db1
          else clearStaleChunk e (db1\<lparr>db_stale := keys\<rparr>)
        })"

definition db_clearByTag :: "u8 \<Rightarrow> cache_key list \<Rightarrow> cache_env \<Rightarrow> database \<Rightarrow> database option" where
  "db_clearByTag tag order e db =
     (let hadStale = (db_stale db \<noteq> []);
          db1 = db\<lparr>db_stale := db_stale db
            @ filter (\<lambda>k. case db_map db k of Some entry \<Rightarrow> en_tag entry = tag | None \<Rightarrow> False) order\<rparr>
      in if hadStale then Some db1 else clearStaleChunk e db1)"

text \<open>\<open>waitForCleaner\<close> clears chunk after chunk until nothing is stale.\<close>

partial_function (option) clear_all_stale :: "cache_env \<Rightarrow> database \<Rightarrow> database option" where
  [code]: "clear_all_stale e db =
     (if db_stale db = [] then Some db else Option.bind (clearStaleChunk e db) (clear_all_stale e))"

definition db_updateSettings :: "int \<Rightarrow> int \<Rightarrow> cache_env \<Rightarrow> database \<Rightarrow> database option" where
  "db_updateSettings sizeLimit timeLimit e db =
     (let st = (db_settings db)\<lparr>st_totalSizeLimit := sizeLimit, st_totalTimeLimit := timeLimit\<rparr>
      in if checkSettings st then Some (optimize e (db\<lparr>db_settings := st\<rparr>)) else None)"

definition getManyRaw :: "cache_key list \<Rightarrow> database \<Rightarrow> (cache_key \<times> entry) list" where
  "getManyRaw keys db = List.map_filter (\<lambda>key. map_option (Pair key) (db_map db key)) keys"

definition db_close :: "cache_env \<Rightarrow> database \<Rightarrow> database option" where
  "db_close e db =
     do {
       db1 \<leftarrow> (if db_open db then map_option (\<lambda>d. d\<lparr>db_open := False\<rparr>) (writeBundles e db) else Some db);
       Some ((fresh_database (db_settings db1) (db_base db1) [])
         \<lparr>db_header := db_header db1, db_binlog := db_binlog db1, db_files := db_files db1, db_clearingStale := db_clearingStale db1\<rparr>)
     }"

section \<open>Opening\<close>

text \<open>
  The journal file is opened: a new one gets a header with the current time, an old one gives its time
  back, and its records are replayed.
\<close>

definition readBinlog :: "cache_env \<Rightarrow> database \<Rightarrow> database option" where
  "readBinlog e db =
     do {
       (db1, _) \<leftarrow> handle_records (db_binlog db) db;
       db2 \<leftarrow> adjustRelativeTime e db1;
       Some (optimize e db2)
     }"

definition openBinlog :: "string \<Rightarrow> cache_env \<Rightarrow> database \<Rightarrow> database option" where
  "openBinlog path e db =
     (let header = (case db_header db of
            Some systemTime \<Rightarrow> systemTime
          | None \<Rightarrow> if st_trackEstimatedTime (db_settings db) then word_of_int (GetUnixtime (ev_time e)) else 0)
      in readBinlog e (db\<lparr>db_header := Some header,
           db_time := setRelative (ucast header) (no_time\<lparr>tp_system := header\<rparr>),
           db_path := path, db_open := True\<rparr>))"

definition findAvailableVersion :: "int list \<Rightarrow> int" where
  "findAvailableVersion entries =
     (let versions = fold (\<lambda>v vs. fst (flat_set_insert (<) v vs)) entries []
      in fst (foldl (\<lambda>(result, stop) version. if stop \<or> result \<noteq> version then (result, True) else (result + 1, False))
           (0, False) versions))"

end
