(* ===== verification/PlainFile.thy ===== *)
theory PlainFile
  imports StorageFile
begin

text \<open>
  The encrypted file is a plain file of whole blocks. On a disk that works, reading, writing, seeking,
  closing and opening again act on the decrypted contents as on a list of bytes; a header made with a
  key is recognised with this key.
\<close>

section \<open>A disk that works\<close>

definition overwrite :: "nat \<Rightarrow> 'a list \<Rightarrow> 'a list \<Rightarrow> 'a list" where
  "overwrite off bs xs = take off xs @ bs @ drop (off + length bs) xs"

lemma length_overwrite: "off \<le> length xs \<Longrightarrow> length (overwrite off bs xs) = max (length xs) (off + length bs)"
  by (simp add: overwrite_def max_def)

lemma overwrite_at_end: "overwrite (length xs) bs xs = xs @ bs"
  by (simp add: overwrite_def)

text \<open>
  \<open>contents d\<close> are the bytes on the disk, \<open>writable d\<close> says that the file was opened for writing. Reads return
  what is there, writes write everything, seeks within the file succeed, opening for writing alone
  truncates.
\<close>

definition disk_reads :: "'q file_env \<Rightarrow> ('q \<Rightarrow> byte_list) \<Rightarrow> ('q \<Rightarrow> bool) \<Rightarrow> bool" where
  "disk_reads e contents writable \<longleftrightarrow> (\<forall>d n. q_isOpen e d \<longrightarrow> 0 \<le> q_pos e d \<and>
     (\<exists>d'. q_read e n d = (d', int (length (take n (drop (nat (q_pos e d)) (contents d)))),
             take n (drop (nat (q_pos e d)) (contents d)))
        \<and> contents d' = contents d \<and> writable d' = writable d \<and> q_isOpen e d'
        \<and> q_pos e d' = q_pos e d + int (length (take n (drop (nat (q_pos e d)) (contents d))))))"

definition disk_writes :: "'q file_env \<Rightarrow> ('q \<Rightarrow> byte_list) \<Rightarrow> ('q \<Rightarrow> bool) \<Rightarrow> bool" where
  "disk_writes e contents writable \<longleftrightarrow>
     (\<forall>d bs. q_isOpen e d \<and> writable d \<and> q_pos e d \<le> int (length (contents d)) \<longrightarrow>
       (\<exists>d'. q_write e bs d = (d', int (length bs)) \<and> contents d' = overwrite (nat (q_pos e d)) bs (contents d)
          \<and> writable d' \<and> q_isOpen e d' \<and> q_pos e d' = q_pos e d + int (length bs)))"

definition disk_seeks :: "'q file_env \<Rightarrow> ('q \<Rightarrow> byte_list) \<Rightarrow> ('q \<Rightarrow> bool) \<Rightarrow> bool" where
  "disk_seeks e contents writable \<longleftrightarrow>
     (\<forall>d p. q_isOpen e d \<and> 0 \<le> p \<and> p \<le> int (length (contents d)) \<longrightarrow>
       (\<exists>d'. q_seek e p d = (d', True) \<and> contents d' = contents d \<and> writable d' = writable d \<and> q_isOpen e d'
          \<and> q_pos e d' = p))"

definition disk_opens :: "'q file_env \<Rightarrow> ('q \<Rightarrow> byte_list) \<Rightarrow> ('q \<Rightarrow> bool) \<Rightarrow> bool" where
  "disk_opens e contents writable \<longleftrightarrow>
     (\<forall>d. q_size e d = int (length (contents d)) \<and> contents (q_close e d) = contents d
       \<and> (\<exists>d'. q_open e d = (d', True) \<and> contents d' = contents d \<and> q_isOpen e d' \<and> q_pos e d' = 0)
       \<and> (\<exists>d'. q_lock e ModeReadAppend d = (d', True) \<and> contents d' = contents d \<and> writable d' \<and> q_isOpen e d' \<and> q_pos e d' = 0)
       \<and> (\<exists>d'. q_lock e ModeWrite d = (d', True) \<and> contents d' = [] \<and> writable d' \<and> q_isOpen e d' \<and> q_pos e d' = 0))"

definition reliable ::
    "'q file_env \<Rightarrow> (byte_list \<Rightarrow> int \<Rightarrow> byte_list) \<Rightarrow> ('q \<Rightarrow> byte_list) \<Rightarrow> ('q \<Rightarrow> bool) \<Rightarrow> bool" where
  "reliable e block contents writable \<longleftrightarrow>
     disk_reads e contents writable \<and> disk_writes e contents writable \<and> disk_seeks e contents writable
     \<and> disk_opens e contents writable \<and> ctr_mode (fe_ctr128 e) block \<and> (\<forall>bs. length (fe_sha256 e bs) = 32)"

lemma disk_read:
  assumes "reliable e block contents writable" "q_isOpen e d" "q_pos e d = int p"
  obtains d' where "q_read e n d = (d', int (length (take n (drop p (contents d)))), take n (drop p (contents d)))"
    "contents d' = contents d" "writable d' = writable d" "q_isOpen e d'"
    "q_pos e d' = int (p + length (take n (drop p (contents d))))"
proof -
  from assms(1) have "disk_reads e contents writable" by (simp add: reliable_def)
  with assms(2,3) obtain d' where "q_read e n d = (d', int (length (take n (drop p (contents d)))), take n (drop p (contents d)))"
    "contents d' = contents d" "writable d' = writable d" "q_isOpen e d'"
    "q_pos e d' = int p + int (length (take n (drop p (contents d))))" unfolding disk_reads_def by (metis nat_int)
  with that show thesis by simp
qed

lemma disk_write:
  assumes "reliable e block contents writable" "q_isOpen e d" "writable d" "q_pos e d = int p" "p \<le> length (contents d)"
  obtains d' where "q_write e bs d = (d', int (length bs))" "contents d' = overwrite p bs (contents d)" "writable d'"
    "q_isOpen e d'" "q_pos e d' = int (p + length bs)"
proof -
  from assms(1) have "disk_writes e contents writable" by (simp add: reliable_def)
  with assms(2-5) obtain d' where "q_write e bs d = (d', int (length bs))" "contents d' = overwrite p bs (contents d)" "writable d'"
    "q_isOpen e d'" "q_pos e d' = int p + int (length bs)" unfolding disk_writes_def by (metis nat_int of_nat_le_iff)
  with that show thesis by simp
qed

lemma disk_seek:
  assumes "reliable e block contents writable" "q_isOpen e d" "p \<le> length (contents d)"
  obtains d' where "q_seek e (int p) d = (d', True)" "contents d' = contents d" "writable d' = writable d" "q_isOpen e d'"
    "q_pos e d' = int p"
proof -
  from assms(1) have "disk_seeks e contents writable" by (simp add: reliable_def)
  with assms(2,3) that show thesis unfolding disk_seeks_def by (meson of_nat_0_le_iff of_nat_mono)
qed

lemma disk_open:
  assumes "reliable e block contents writable"
  shows "q_size e d = int (length (contents d))" "contents (q_close e d) = contents d"
    "\<exists>d'. q_open e d = (d', True) \<and> contents d' = contents d \<and> q_isOpen e d' \<and> q_pos e d' = 0"
    "\<exists>d'. q_lock e ModeReadAppend d = (d', True) \<and> contents d' = contents d \<and> writable d' \<and> q_isOpen e d' \<and> q_pos e d' = 0"
    "\<exists>d'. q_lock e ModeWrite d = (d', True) \<and> contents d' = [] \<and> writable d' \<and> q_isOpen e d' \<and> q_pos e d' = 0"
  using assms by (simp_all add: reliable_def disk_opens_def)

section \<open>The plain view\<close>

lemmas file_sizes = kBlockSize_def kSaltSize_def kHeaderSize_def kSkipBytes_def kIvSize_def kKeySize_def

definition file_plain :: "(byte_list \<Rightarrow> int \<Rightarrow> byte_list) \<Rightarrow> ctr \<Rightarrow> byte_list \<Rightarrow> byte_list" where
  "file_plain block c raw =
     (let body = drop (kSkipBytes + kHeaderSize) raw
      in xor_pad (pad block c) (kHeaderSize - kSaltSize) (take (length body - length body mod kBlockSize) body))"

definition header_ok :: "'q file_env \<Rightarrow> (byte_list \<Rightarrow> int \<Rightarrow> byte_list) \<Rightarrow> byte_list \<Rightarrow> ctr \<Rightarrow> byte_list \<Rightarrow> bool" where
  "header_ok e block key c raw \<longleftrightarrow> kSkipBytes + kHeaderSize \<le> length raw \<and> length (cs_iv c) = kIvSize
     \<and> (\<exists>salt. length salt = kSaltSize \<and> prepareCtrState (fe_sha256 e) key salt = Some c
         \<and> take kHeaderSize (drop kSkipBytes raw) = salt @ xor_pad (pad block c) 0
             (drop kSaltSize (header_start salt @ fe_sha256 e (key @ header_start salt))))"

definition file_view ::
    "'q file_env \<Rightarrow> (byte_list \<Rightarrow> int \<Rightarrow> byte_list) \<Rightarrow> ('q \<Rightarrow> byte_list) \<Rightarrow> byte_list \<Rightarrow> 'q enc_file \<Rightarrow> byte_list \<Rightarrow> nat \<Rightarrow> bool" where
  "file_view e block contents key f data off \<longleftrightarrow> (\<exists>c. fl_state f = Some c
     \<and> header_ok e block key c (contents (fl_data f)) \<and> data = file_plain block c (contents (fl_data f))
     \<and> q_isOpen e (fl_data f) \<and> fl_dataSize f = int (length data) \<and> off mod kBlockSize = 0 \<and> off \<le> length data
     \<and> fl_encryptionOffset f = int (kHeaderSize - kSaltSize + off)
     \<and> q_pos e (fl_data f) = int (kSkipBytes + kHeaderSize + off) \<and> length (contents (fl_data f)) < 2 ^ 63)"

lemma file_plain_length:
  "length (file_plain block c raw) = (let n = length raw - 116 in n - n mod 16)"
  by (simp add: file_plain_def file_sizes Let_def)

lemma file_view_blocks: "file_view e block contents key f data off \<Longrightarrow> length data mod kBlockSize = 0"
  by (auto simp: file_view_def file_plain_length Let_def kBlockSize_def minus_mod_eq_mult_div)

lemma file_offset_view: "file_view e block contents key f data off \<Longrightarrow> file_offset f = int off"
  by (auto simp: file_view_def file_offset_def file_sizes)

text \<open>The bytes of a read, as the disk returns them and cut to whole blocks.\<close>

lemma blocks_available:
  fixes n off m :: nat
  assumes "n mod 16 = 0" "off mod 16 = 0" "off \<le> m"
  shows "min n (m - off) - min n (m - off) mod 16 = min n (m - m mod 16 - off)"
proof -
  have off: "(m - off) mod 16 = m mod 16"
    using assms(2,3) mod_add_right_eq [of "m - off" off 16] by simp
  show ?thesis
  proof (cases "n \<le> m - off")
    case True
    then have "(n + off) div 16 \<le> m div 16" using assms(3) by (intro div_le_mono) simp
    moreover have "(n + off) mod 16 = 0" using assms(1,2) by (simp add: mod_add_eq [symmetric])
    ultimately have "n + off \<le> m - m mod 16" by (metis add.right_neutral minus_mod_eq_mult_div mult_div_mod_eq mult_le_mono2)
    with True assms(1) show ?thesis by simp
  next
    case False
    then show ?thesis using off by simp
  qed
qed

section \<open>Reading, writing and seeking\<close>

lemma file_decrypt_pad:
  assumes "reliable e block contents writable" "fl_state f = Some c" "length (cs_iv c) = kIvSize"
    and "length bs mod kBlockSize = 0" "fl_encryptionOffset f = int off" "off mod kBlockSize = 0" "off < 2 ^ 63"
  shows "file_decrypt e bs f = Some (f\<lparr>fl_encryptionOffset := int (off + length bs)\<rparr>, xor_pad (pad block c) off bs)"
    "file_encrypt e bs f = Some (f\<lparr>fl_encryptionOffset := int (off + length bs)\<rparr>, xor_pad (pad block c) off bs)"
  using ctr_process_pad [of "fe_ctr128 e" block c bs off] assms
  by (simp_all add: file_decrypt_def file_encrypt_def ctr_decrypt_def ctr_encrypt_def reliable_def)

text \<open>The bytes at a position of the plain contents, from the disk.\<close>

lemma file_plain_window:
  assumes "n mod 16 = 0" "off mod 16 = 0" "off + 116 \<le> length raw"
    and "bs = take n (drop (116 + off) raw)"
  shows "xor_pad (pad block c) (48 + off) (take (length bs - length bs mod 16) bs) = take n (drop off (file_plain block c raw))"
proof -
  let ?m = "length raw - 116"
  have len: "length bs = min n (?m - off)" using assms(3,4) by simp
  have cut: "length bs - length bs mod 16 = min n (?m - ?m mod 16 - off)"
    unfolding len by (rule blocks_available) (use assms in simp_all)
  have "take (length bs - length bs mod 16) bs = take n (take (?m - ?m mod 16 - off) (drop off (drop 116 raw)))"
    by (subst cut) (simp add: assms(4) add.commute min.commute)
  then show ?thesis
    by (simp add: file_plain_def file_sizes Let_def drop_xor_pad take_xor_pad drop_take)
qed

lemma file_view_read:
  assumes r: "reliable e block contents writable" and v: "file_view e block contents key f data off"
    and n: "n mod kBlockSize = 0"
  obtains f' where "file_read e n f = Some (f', int (length (take n (drop off data))), take n (drop off data))"
    "file_view e block contents key f' data (off + length (take n (drop off data)))"
    "contents (fl_data f') = contents (fl_data f)" "writable (fl_data f') = writable (fl_data f)"
proof -
  let ?raw = "contents (fl_data f)" and ?out = "take n (drop off data)"
  from v obtain c where c: "fl_state f = Some c" "header_ok e block key c ?raw" "data = file_plain block c ?raw"
    "q_isOpen e (fl_data f)" "fl_dataSize f = int (length data)" "off mod 16 = 0" "off \<le> length data"
    "fl_encryptionOffset f = int (48 + off)" "q_pos e (fl_data f) = int (116 + off)" "length ?raw < 2 ^ 63"
    by (auto simp: file_view_def file_sizes)
  have n16: "n mod 16 = 0" using n by (simp add: kBlockSize_def)
  have iv: "length (cs_iv c) = kIvSize" and long: "116 \<le> length ?raw" using c(2) by (auto simp: header_ok_def file_sizes)
  define bs where "bs = take n (drop (116 + off) ?raw)"
  define k where "k = length bs - length bs mod 16"
  obtain d1 where d1: "q_read e n (fl_data f) = (d1, int (length bs), bs)" "contents d1 = ?raw" "writable d1 = writable (fl_data f)"
    "q_isOpen e d1" "q_pos e d1 = int (116 + off + length bs)" using disk_read [OF r c(4,9)] unfolding bs_def by blast
  have room: "off + 116 \<le> length ?raw" using c(3,7) long by (simp add: file_plain_length Let_def)
  have out: "xor_pad (pad block c) (48 + off) (take k bs) = ?out"
    unfolding c(3) k_def by (rule file_plain_window [OF n16 c(6) room bs_def])
  then have k: "length ?out = k" by (metis k_def xor_pad_length length_take min.absorb2 diff_le_self)
  have kmod: "k mod 16 = 0" by (simp add: k_def minus_mod_eq_mult_div)
  have off': "48 + off < 2 ^ 63" "(48 + off) mod 16 = 0" using c(6,10) room by (simp_all add: mod_add_eq [symmetric])
  have "length bs \<le> length ?raw - (116 + off)" by (simp add: bs_def)
  moreover have "k \<le> length bs" by (simp add: k_def)
  ultimately have kle: "k \<le> length bs" "116 + off + k \<le> length (contents d1)" using room d1(2) by simp_all
  obtain d2 where d2: "contents d2 = ?raw" "writable d2 = writable (fl_data f)" "q_isOpen e d2" "q_pos e d2 = int (116 + off + k)"
    and call: "file_read e n f = file_decode e (int k) bs (f\<lparr>fl_data := d2\<rparr>)"
  proof (cases "k = length bs")
    case True
    then have "int (length bs) smod int kBlockSize = 0" unfolding smod_int_nat using kmod by (simp add: kBlockSize_def)
    then have "file_read e n f = file_decode e (int k) bs (f\<lparr>fl_data := d1\<rparr>)"
      using d1(1) True n by (simp add: file_read_def Let_def)
    with that [of d1] d1 True show ?thesis by simp
  next
    case False
    obtain d2 where d2: "q_seek e (int (116 + off + k)) d1 = (d2, True)" "contents d2 = contents d1" "writable d2 = writable d1"
      "q_isOpen e d2" "q_pos e d2 = int (116 + off + k)" using disk_seek [OF r d1(4) kle(2)] by blast
    obtain step where step: "- (int (length bs) smod int kBlockSize) = step" "step = int k - int (length bs)"
      unfolding smod_int_nat by (simp add: k_def kBlockSize_def of_nat_diff)
    have "step \<noteq> 0" "q_pos e d1 + step = int (116 + off + k)" "int (length bs) + step = int k"
      using d1(5) step(2) False by simp_all
    with d2(1) step(1) d1(1) n have "file_read e n f = file_decode e (int k) bs (f\<lparr>fl_data := d2\<rparr>)"
      by (simp only: file_read_def Let_def) simp
    with that [of d2] d2 d1(2,3) show ?thesis by simp
  qed
  define f' where "f' = f\<lparr>fl_data := d2, fl_encryptionOffset := int (48 + off + k)\<rparr>"
  have "file_decode e (int k) bs (f\<lparr>fl_data := d2\<rparr>) = Some (f', int k, ?out)"
  proof (cases "k = 0")
    case True
    then have "?out = []" using k by (metis length_0_conv)
    with True c(8) show ?thesis by (simp add: file_decode_def f'_def)
  next
    case False
    have "file_decrypt e (take k bs) (f\<lparr>fl_data := d2\<rparr>) = Some (f', ?out)"
      using file_decrypt_pad(1) [OF r, of "f\<lparr>fl_data := d2\<rparr>" c "take k bs" "48 + off"] c(1,8) iv off' kmod kle(1) out
      by (simp add: f'_def kBlockSize_def min.absorb2)
    with False kle(1) show ?thesis by (simp add: file_decode_def subspan_def)
  qed
  moreover have "file_view e block contents key f' data (off + k)"
    unfolding file_view_def
  proof (intro exI [of _ c] conjI)
    have "length ?out \<le> length data - off" by simp
    then show "off + k \<le> length data" using k c(7) by linarith
    show "(off + k) mod kBlockSize = 0" using c(6) kmod by (simp add: kBlockSize_def mod_add_eq [symmetric])
  qed (use c d2 in \<open>simp_all add: f'_def file_sizes\<close>)
  ultimately show thesis using that [of f'] call k d2(1,2) by (simp add: f'_def)
qed

lemma file_view_seek:
  assumes r: "reliable e block contents writable" and v: "file_view e block contents key f data off"
    and p: "p mod kBlockSize = 0" "p \<le> length data"
  obtains f' where "file_seek e (int p) f = (f', True)" "file_view e block contents key f' data p"
    "contents (fl_data f') = contents (fl_data f)" "writable (fl_data f') = writable (fl_data f)"
proof -
  let ?raw = "contents (fl_data f)"
  from v obtain c where c: "fl_state f = Some c" "header_ok e block key c ?raw" "data = file_plain block c ?raw"
    "q_isOpen e (fl_data f)" "fl_dataSize f = int (length data)" "length ?raw < 2 ^ 63"
    by (auto simp: file_view_def)
  have "116 \<le> length ?raw" using c(2) by (auto simp: header_ok_def file_sizes)
  then have "116 + p \<le> length ?raw" using p(2) c(3) by (simp add: file_plain_length Let_def)
  then obtain d where d: "q_seek e (int (116 + p)) (fl_data f) = (d, True)" "contents d = ?raw" "writable d = writable (fl_data f)"
    "q_isOpen e d" "q_pos e d = int (116 + p)" using disk_seek [OF r c(4)] by blast
  define f' where "f' = f\<lparr>fl_data := d, fl_encryptionOffset := int (48 + p)\<rparr>"
  have "int kSkipBytes + (int kHeaderSize + int p) = int (116 + p)" by (simp add: file_sizes)
  then have "file_seek e (int p) f = (f', True)"
    using d(1) p(2) c(5) by (simp add: file_seek_def Let_def f'_def) (simp add: file_sizes)
  moreover have "file_view e block contents key f' data p"
    unfolding file_view_def by (rule exI [of _ c]) (use c d p in \<open>simp add: f'_def file_sizes\<close>)
  ultimately show thesis using that d(2,3) by (simp add: f'_def)
qed

lemma file_plain_overwrite:
  assumes "length bs mod 16 = 0" "off mod 16 = 0" "116 \<le> length raw" "off \<le> length (file_plain block c raw)"
  shows "file_plain block c (overwrite (116 + off) (xor_pad (pad block c) (48 + off) bs) raw)
    = overwrite off bs (file_plain block c raw)"
proof -
  define body where "body = drop 116 raw"
  define cut where "cut = (\<lambda>xs :: byte_list. take (length xs - length xs mod 16) xs)"
  have plain: "file_plain block c r = xor_pad (pad block c) 48 (cut (drop 116 r))" for r
    by (simp add: file_plain_def file_sizes Let_def cut_def)
  have off: "off \<le> length (cut body)" "off \<le> length body" using assms(4) by (simp_all add: plain cut_def body_def)
  have drop_eq: "drop 116 (overwrite (116 + off) x raw) = overwrite off x body" for x
    using assms(3) by (simp add: overwrite_def body_def drop_take ac_simps)
  have cut_eq: "cut (overwrite off x body) = overwrite off x (cut body)" if "length x mod 16 = 0" for x
  proof (cases "off + length x \<le> length body")
    case True
    have "(off + length x) mod 16 = 0" using assms(2) that by (simp add: mod_add_eq [symmetric])
    then have "off + length x \<le> length body - length body mod 16"
      using blocks_available [of "off + length x" 0 "length body"] True by (simp add: min_def split: if_splits)
    then obtain n where n: "length body - length body mod 16 = n" "off + length x \<le> n" "off \<le> n" by simp
    have "length (overwrite off x body) = length body" using True off(2) by (simp add: length_overwrite)
    then have "cut (overwrite off x body) = take n (overwrite off x body)" by (simp add: cut_def n(1))
    also have "\<dots> = take off body @ x @ take (n - (off + length x)) (drop (off + length x) body)"
      using n(2,3) off(2) by (simp add: overwrite_def min.absorb1 min.absorb2)
    also have "\<dots> = overwrite off x (cut body)"
      using n(3) by (simp add: overwrite_def cut_def n(1) drop_take min.absorb1)
    finally show ?thesis .
  next
    case False
    then have "(off + length x) mod 16 = 0" "overwrite off x body = take off body @ x" "overwrite off x (cut body) = take off (cut body) @ x"
      using assms(2) that by (simp_all add: mod_add_eq [symmetric] overwrite_def cut_def)
    moreover have "take off (cut body) = take off body" using off(1) by (simp add: cut_def min.absorb1)
    moreover have "cut (take off body @ x) = take off body @ x"
      using calculation(1) off(2) by (simp add: cut_def min.absorb2)
    ultimately show ?thesis by simp
  qed
  show ?thesis unfolding plain drop_eq using assms(1) off
    by (simp add: cut_eq body_def [symmetric]) (simp add: overwrite_def xor_pad_append take_xor_pad drop_xor_pad min.absorb2 add.assoc)
qed

lemma file_view_write:
  assumes r: "reliable e block contents writable" and v: "file_view e block contents key f data off"
    and w: "writable (fl_data f)" and bs: "length bs mod kBlockSize = 0" "off + length bs + 116 < 2 ^ 63"
  obtains f' enc where "file_write e bs f = Some (f', True, enc)"
    "file_view e block contents key f' (overwrite off bs data) (off + length bs)" "writable (fl_data f')" "length enc = length bs"
proof -
  let ?raw = "contents (fl_data f)"
  from v obtain c where c: "fl_state f = Some c" "header_ok e block key c ?raw" "data = file_plain block c ?raw"
    "q_isOpen e (fl_data f)" "fl_dataSize f = int (length data)" "off mod 16 = 0" "off \<le> length data"
    "fl_encryptionOffset f = int (48 + off)" "q_pos e (fl_data f) = int (116 + off)" "length ?raw < 2 ^ 63"
    by (auto simp: file_view_def file_sizes)
  have iv: "length (cs_iv c) = kIvSize" and long: "116 \<le> length ?raw" using c(2) by (auto simp: header_ok_def file_sizes)
  define enc where "enc = xor_pad (pad block c) (48 + off) bs"
  have len: "length enc = length bs" by (simp add: enc_def)
  have room: "116 + off \<le> length ?raw" using c(3,7) long by (simp add: file_plain_length Let_def)
  have off': "48 + off < 2 ^ 63" "(48 + off) mod kBlockSize = 0" using c(6,10) room by (simp_all add: mod_add_eq [symmetric] kBlockSize_def)
  define f1 where "f1 = f\<lparr>fl_encryptionOffset := int (48 + off + length bs)\<rparr>"
  have enc: "file_encrypt e bs f = Some (f1, enc)"
    using file_decrypt_pad(2) [OF r c(1) iv bs(1) c(8) off'(2,1)] by (simp add: enc_def f1_def)
  obtain d where d: "q_write e enc (fl_data f) = (d, int (length bs))" "contents d = overwrite (116 + off) enc ?raw" "writable d"
    "q_isOpen e d" "q_pos e d = int (116 + off + length bs)" using disk_write [OF r c(4) w c(9) room] len by metis
  have plain: "file_plain block c (contents d) = overwrite off bs data"
    unfolding d(2) enc_def c(3) by (rule file_plain_overwrite) (use bs(1) c(3,6,7) long in \<open>simp_all add: kBlockSize_def\<close>)
  define f' where "f' = f1\<lparr>fl_data := d, fl_dataSize := int (max (length data) (off + length bs))\<rparr>"
  have "file_offset (f1\<lparr>fl_data := d\<rparr>) = int (off + length bs)" by (simp add: file_offset_def f1_def file_sizes)
  then have "file_write e bs f = Some (f', True, enc)"
    using bs(1) c(4,5) enc d(1) by (simp add: file_write_def f1_def f'_def of_nat_max)
  moreover have "file_view e block contents key f' (overwrite off bs data) (off + length bs)"
    unfolding file_view_def
  proof (intro exI [of _ c] conjI)
    have "take 116 (contents d) = take 116 ?raw" using room by (simp add: d(2) overwrite_def)
    then have "take kHeaderSize (drop kSkipBytes (contents d)) = take kHeaderSize (drop kSkipBytes ?raw)"
      by (simp add: file_sizes take_drop)
    moreover have "length ?raw \<le> length (contents d)" using room by (simp add: d(2) length_overwrite)
    ultimately have "take kHeaderSize (drop kSkipBytes (contents d)) = take kHeaderSize (drop kSkipBytes ?raw)"
      "length ?raw \<le> length (contents d)" by simp_all
    with c(2) show "header_ok e block key c (contents (fl_data f'))" by (auto simp: header_ok_def f'_def f1_def)
    show "(off + length bs) mod kBlockSize = 0" using c(6) bs(1) by (simp add: kBlockSize_def mod_add_eq [symmetric])
    show "length (contents (fl_data f')) < 2 ^ 63" using c(10) bs(2) room len by (simp add: f'_def d(2) length_overwrite)
  qed (use c d plain in \<open>simp_all add: f'_def f1_def file_sizes length_overwrite\<close>)
  ultimately show thesis using that [of f' enc] d(3) len by (simp add: f'_def)
qed

section \<open>Opening\<close>

lemma prepareCtrState_iv: "prepareCtrState sha256 key salt = Some c \<Longrightarrow> length (cs_iv c) = kIvSize"
  by (auto simp: prepareCtrState_def CtrState_new_def split: if_splits Option.bind_splits)

lemma prepareCtrState_Some:
  assumes "\<forall>bs. length (sha256 bs) = 32" "key \<noteq> []" "length salt = kSaltSize"
  obtains c where "prepareCtrState sha256 key salt = Some c"
  using assms by (simp add: prepareCtrState_def CtrState_new_def subspan_def file_sizes)

lemma header_start_length: "length salt = kSaltSize \<Longrightarrow> length (header_start salt) = 80"
  "length salt = kSaltSize \<Longrightarrow> take kSaltSize (header_start salt) = salt"
  "length salt = kSaltSize \<Longrightarrow> header_start salt ! kSaltSize = 0"
  by (simp_all add: header_start_def kSaltSize_def nth_append) (simp add: word_bytes_def)

text \<open>A new file: the header is written, the contents are empty.\<close>

lemma file_create:
  assumes r: "reliable e block contents writable" and key: "key \<noteq> []" and salt: "length salt = kSaltSize"
  obtains f' where "file_open e True ModeWrite key salt f = Some (f', Success)"
    "file_view e block contents key f' [] 0" "writable (fl_data f')"
proof -
  have sha: "\<forall>bs. length (fe_sha256 e bs) = 32" using r by (simp add: reliable_def)
  obtain c where c: "prepareCtrState (fe_sha256 e) key salt = Some c" using prepareCtrState_Some [OF sha key salt] .
  note iv = prepareCtrState_iv [OF c]
  let ?rest = "drop kSaltSize (header_start salt @ fe_sha256 e (key @ header_start salt))"
  have rest: "length ?rest = 48" using header_start_length(1) [OF salt] sha by (simp add: kSaltSize_def)
  let ?f0 = "file_close e f"
  obtain d0 where d0: "q_lock e ModeWrite (fl_data ?f0) = (d0, True)" "contents d0 = []" "writable d0" "q_isOpen e d0" "q_pos e d0 = int 0"
    using disk_open(5) [OF r, of "fl_data ?f0"] by auto
  obtain d1 where d1: "q_write e kMagic d0 = (d1, int (length kMagic))" "contents d1 = overwrite 0 kMagic (contents d0)" "writable d1"
    "q_isOpen e d1" "q_pos e d1 = int (0 + length kMagic)" using disk_write [OF r d0(4,3,5) le0] by blast
  have c1: "contents d1 = kMagic" "length kMagic = 4" by (simp_all add: d1(2) d0(2) overwrite_def kMagic_def)
  obtain d2 where d2: "q_write e salt d1 = (d2, int (length salt))" "contents d2 = overwrite (0 + length kMagic) salt (contents d1)" "writable d2"
    "q_isOpen e d2" "q_pos e d2 = int (0 + length kMagic + length salt)" using disk_write [OF r d1(4,3,5)] c1 by (metis add_0 order_refl)
  have c2: "contents d2 = kMagic @ salt" "length (contents d2) = 68" "q_pos e d2 = int 68"
    using salt by (simp_all add: d2(2,5) c1 overwrite_def kSaltSize_def)
  define f2 where "f2 = \<lparr>fl_data = d2, fl_encryptionOffset = int 0, fl_dataSize = 0, fl_state = Some c\<rparr>"
  define enc where "enc = xor_pad (pad block c) 0 ?rest"
  have lenc: "length enc = 48" by (simp only: enc_def xor_pad_length rest)
  have e2: "file_encrypt e ?rest f2 = Some (f2\<lparr>fl_encryptionOffset := int 48\<rparr>, enc)"
    using file_decrypt_pad(2) [OF r, of f2 c ?rest 0] iv rest by (simp add: f2_def enc_def kBlockSize_def)
  obtain d3 where d3: "q_write e enc d2 = (d3, int (length enc))" "contents d3 = overwrite 68 enc (contents d2)" "writable d3" "q_isOpen e d3"
    "q_pos e d3 = int (68 + length enc)" using disk_write [OF r d2(4,3) c2(3)] c2(2) by (metis order_refl)
  have c3: "contents d3 = kMagic @ salt @ enc" "q_pos e d3 = int 116"
    using c2 lenc by (simp_all add: d3(2,5) overwrite_def)
  define f3 where "f3 = \<lparr>fl_data = d3, fl_encryptionOffset = int 48, fl_dataSize = 0, fl_state = Some c\<rparr>"
  have w: "file_write e ?rest f2 = Some (f3, True, enc)"
    using rest e2 d2(4) d3(1) lenc by (simp add: file_write_def f2_def f3_def kBlockSize_def file_offset_def file_sizes)
  have magic: "take kSkipBytes kMagic = kMagic" by (simp add: kMagic_def kSkipBytes_def)
  have hd: "bytes_copy (replicate 32 0) (fe_sha256 e (key @ header_start salt)) = Some (fe_sha256 e (key @ header_start salt))"
    using sha by (simp add: bytes_copy_def)
  have hdr: "file_writeHeader e key salt \<lparr>fl_data = d0, fl_encryptionOffset = 0, fl_dataSize = 0, fl_state = None\<rparr> = Some (f3, True)"
    using d0(5) d1(1) d2(1) c w c1(2) unfolding file_writeHeader_def magic hd by (simp add: f2_def f3_def)
  have "file_open e True ModeWrite key salt f = Some (f3, Success)"
    using d0(1) hdr by (simp add: file_open_def attemptOpen_def file_close_def)
  moreover have "file_view e block contents key f3 [] 0"
    unfolding file_view_def
  proof (intro exI [of _ c] conjI)
    show "header_ok e block key c (contents (fl_data f3))"
      using salt c iv lenc by (auto simp: f3_def c3(1) header_ok_def file_sizes kMagic_def enc_def)
    show "[] = file_plain block c (contents (fl_data f3))"
      using lenc salt by (simp add: f3_def c3(1) file_plain_def file_sizes kMagic_def)
  qed (use d3(4) c3 lenc salt in \<open>simp_all add: f3_def file_sizes kMagic_def\<close>)
  ultimately show thesis using that [of f3] d3(3) by (simp add: f3_def)
qed

lemma header_split:
  assumes "length salt = kSaltSize"
  shows "salt @ drop kSaltSize (header_start salt @ checksum) = header_start salt @ checksum"
  using assms by (simp add: header_start_def)

lemma file_readHeader_ok:
  assumes r: "reliable e block contents writable" and d: "q_isOpen e d" "q_pos e d = 0"
    and h: "header_ok e block key c (contents d)" and short: "length (contents d) < 2 ^ 63"
  obtains f' where "file_readHeader e key \<lparr>fl_data = d, fl_encryptionOffset = 0, fl_dataSize = 0, fl_state = None\<rparr> = Some (f', Success)"
    "file_view e block contents key f' (file_plain block c (contents d)) 0" "writable (fl_data f') = writable d"
    "contents (fl_data f') = contents d"
proof -
  let ?raw = "contents d" and ?f = "\<lparr>fl_data = d, fl_encryptionOffset = 0, fl_dataSize = 0, fl_state = None\<rparr>"
  have sha: "length (fe_sha256 e bs) = 32" for bs using r by (simp add: reliable_def)
  from h obtain salt where s: "116 \<le> length ?raw" "length (cs_iv c) = kIvSize" "length salt = kSaltSize"
    "prepareCtrState (fe_sha256 e) key salt = Some c"
    "take kHeaderSize (drop kSkipBytes ?raw) = salt @ xor_pad (pad block c) 0 (drop kSaltSize (header_start salt @ fe_sha256 e (key @ header_start salt)))"
    by (auto simp: header_ok_def file_sizes)
  let ?sum = "fe_sha256 e (key @ header_start salt)"
  define rest where "rest = drop kSaltSize (header_start salt @ ?sum)"
  have lrest: "length rest = 48" using header_start_length(1) [OF s(3)] sha by (simp add: rest_def kSaltSize_def)
  have "4 \<le> length ?raw" using s(1) by simp
  then obtain d1 where d1: "q_seek e (int 4) d = (d1, True)" "contents d1 = ?raw" "writable d1 = writable d" "q_isOpen e d1" "q_pos e d1 = int 4"
    using disk_seek [OF r d(1)] by blast
  obtain d2 where d2: "q_read e kHeaderSize d1 = (d2, int (length (take kHeaderSize (drop 4 ?raw))), take kHeaderSize (drop 4 ?raw))"
    "contents d2 = ?raw" "writable d2 = writable d" "q_isOpen e d2" "q_pos e d2 = int (4 + length (take kHeaderSize (drop 4 ?raw)))"
    using disk_read [OF r d1(4,5), of kHeaderSize] d1(2,3) by metis
  have len: "length (take kHeaderSize (drop 4 ?raw)) = kHeaderSize" using s(1) by (simp add: file_sizes)
  have bs: "take kHeaderSize (drop 4 ?raw) = salt @ xor_pad (pad block c) 0 rest" using s(5) by (simp add: kSkipBytes_def rest_def)
  have d2': "q_read e kHeaderSize d1 = (d2, int kHeaderSize, salt @ xor_pad (pad block c) 0 rest)" "q_pos e d2 = int 116"
    using d2(1,5) unfolding len by (simp_all only: bs) (simp add: file_sizes)
  define f1 where "f1 = \<lparr>fl_data = d2, fl_encryptionOffset = int 48, fl_dataSize = 0, fl_state = Some c\<rparr>"
  have dec: "file_decrypt e (xor_pad (pad block c) 0 rest) (?f\<lparr>fl_data := d2, fl_state := Some c\<rparr>) = Some (f1, rest)"
    using file_decrypt_pad(1) [OF r, of "?f\<lparr>fl_data := d2, fl_state := Some c\<rparr>" c "xor_pad (pad block c) 0 rest" 0] s(2) lrest
    by (simp add: f1_def kBlockSize_def)
  define size' where "size' = length (file_plain block c ?raw)"
  let ?f' = "f1\<lparr>fl_dataSize := int size'\<rparr>"
  have n: "int (length ?raw) - int kHeaderSize - int kSkipBytes = int (length ?raw - 116)" using s(1) by (simp add: file_sizes of_nat_diff)
  have m: "int (length ?raw - 116) - int (length ?raw - 116) smod int kBlockSize = int size'"
    unfolding smod_int_nat by (simp add: size'_def file_plain_length Let_def kBlockSize_def of_nat_diff)
  define header where "header = salt @ rest"
  have hdr: "header = header_start salt @ ?sum" unfolding header_def rest_def by (rule header_split [OF s(3)])
  have chk: "drop (kHeaderSize - 32) header = fe_sha256 e (key @ take (kHeaderSize - 32) header)" "header ! kSaltSize = 0"
    unfolding hdr using header_start_length [OF s(3)] by (simp_all add: file_sizes nth_append)
  have parts: "take kSaltSize (salt @ enc) = salt" "drop kSaltSize (salt @ enc) = enc" for enc using s(3) by simp_all
  have seek: "q_seek e (int kSkipBytes) d = (d1, True)" using d1(1) by (simp add: kSkipBytes_def)
  have size2: "q_size e d2 - int kHeaderSize - int kSkipBytes = int (length ?raw - 116)"
    using disk_open(1) [OF r, of d2] d2(2) n by simp
  have "file_readHeader e key ?f = Some (?f', Success)"
    using d(2) seek d2'(1) s(4) dec chk size2 m
    by (simp add: file_readHeader_def Let_def parts header_def [symmetric] f1_def del: take_append drop_append)
  moreover have "file_view e block contents key ?f' (file_plain block c ?raw) 0"
    unfolding file_view_def
  proof (intro exI [of _ c] conjI)
  qed (use h d2 d2'(2) short in \<open>simp_all add: f1_def file_sizes size'_def\<close>)
  ultimately show thesis using that [of ?f'] d2(2,3) by (simp add: f1_def)
qed

lemma file_reopen:
  assumes r: "reliable e block contents writable" and h: "header_ok e block key c (contents (fl_data f))"
    and short: "length (contents (fl_data f)) < 2 ^ 63" and mode: "mode = ModeRead \<or> mode = ModeReadAppend \<and> dir_ok"
  obtains f' where "file_open e dir_ok mode key salt f = Some (f', Success)"
    "file_view e block contents key f' (file_plain block c (contents (fl_data f))) 0"
    "mode = ModeReadAppend \<Longrightarrow> writable (fl_data f')" "contents (fl_data f') = contents (fl_data f)"
proof -
  let ?f0 = "file_close e f"
  let ?st = "\<lambda>d. \<lparr>fl_data = d, fl_encryptionOffset = 0, fl_dataSize = 0, fl_state = None\<rparr>"
  have raw: "contents (fl_data ?f0) = contents (fl_data f)" using disk_open(2) [OF r] by (simp add: file_close_def)
  obtain d where d: "contents d = contents (fl_data f)" "q_isOpen e d" "q_pos e d = 0" "mode = ModeReadAppend \<Longrightarrow> writable d"
    and call: "attemptOpen e mode key salt ?f0 = file_readHeader e key (?st d)"
  proof (cases "mode = ModeRead")
    case True
    obtain d where "q_open e (fl_data ?f0) = (d, True)" "contents d = contents (fl_data ?f0)" "q_isOpen e d" "q_pos e d = 0"
      using disk_open(3) [OF r] by blast
    with True that [of d] raw show ?thesis by (simp add: attemptOpen_def file_close_def)
  next
    case False
    obtain d where d: "q_lock e ModeReadAppend (fl_data ?f0) = (d, True)" "contents d = contents (fl_data ?f0)" "writable d"
      "q_isOpen e d" "q_pos e d = 0" using disk_open(4) [OF r] by blast
    have "q_size e d \<noteq> 0" using disk_open(1) [OF r, of d] d(2) raw h by (auto simp: header_ok_def file_sizes)
    with False mode d that [of d] raw show ?thesis by (simp add: attemptOpen_def file_close_def)
  qed
  from h short obtain f' where f': "file_readHeader e key (?st d) = Some (f', Success)"
    "file_view e block contents key f' (file_plain block c (contents d)) 0" "writable (fl_data f') = writable d"
    "contents (fl_data f') = contents d"
    using file_readHeader_ok [OF r d(2,3), of key c] unfolding d(1) by blast
  have "file_open e dir_ok mode key salt f = Some (f', Success)" using mode call f'(1) by (auto simp: file_open_def)
  with that [of f'] f'(2-4) d(1,4) show thesis by simp
qed

section \<open>Padded values\<close>

lemma file_view_append:
  assumes r: "reliable e block contents writable" and v: "file_view e block contents key f data (length data)"
    and w: "writable (fl_data f)" and bs: "length bs mod kBlockSize = 0" "length data + length bs + 116 < 2 ^ 63"
  obtains f' enc where "file_write e bs f = Some (f', True, enc)"
    "file_view e block contents key f' (data @ bs) (length (data @ bs))" "writable (fl_data f')" "length enc = length bs"
proof (rule file_view_write [OF r v w bs])
  fix f' enc
  assume "file_write e bs f = Some (f', True, enc)"
    "file_view e block contents key f' (overwrite (length data) bs data) (length data + length bs)" "writable (fl_data f')"
    "length enc = length bs"
  with that show thesis by (simp add: overwrite_at_end)
qed

lemma pad_amount:
  "(16 - n mod 16) mod 16 = (if n mod 16 = 0 then 0 else 16 - n mod 16)" for n :: nat
  by simp

lemma writeWithPadding_appends:
  assumes r: "reliable e block contents writable" and v: "file_view e block contents key f data (length data)"
    and w: "writable (fl_data f)" and short: "length data + length bs + 132 < 2 ^ 63"
  obtains f' enc where "writeWithPadding e fill bs f = Some (f', True, enc)"
    "file_view e block contents key f' (data @ bs @ map fill [0..<(16 - length bs mod 16) mod 16])
      (length data + length bs + (16 - length bs mod 16) mod 16)" "writable (fl_data f')"
proof -
  let ?part = "length bs mod kBlockSize"
  let ?good = "length bs - ?part"
  have good: "?good mod kBlockSize = 0" by (simp add: minus_mod_eq_mult_div)
  obtain f1 enc1 where f1: "(if ?good \<noteq> 0 then file_write e (take ?good bs) f else Some (f, True, [])) = Some (f1, True, enc1)"
    "file_view e block contents key f1 (data @ take ?good bs) (length (data @ take ?good bs))" "writable (fl_data f1)"
  proof (cases "?good = 0")
    case True
    with that [of f "[]"] v w show ?thesis by simp
  next
    case False
    have "length (take ?good bs) mod kBlockSize = 0" "length data + length (take ?good bs) + 116 < 2 ^ 63"
      using good short by simp_all
    from file_view_append [OF r v w this] that False show ?thesis by metis
  qed
  show thesis
  proof (cases "?part = 0")
    case True
    then have "writeWithPadding e fill bs f = Some (f1, True, enc1)" unfolding writeWithPadding_def Let_def f1(1) by simp
    moreover have "(16 - length bs mod 16) mod 16 = 0" using True by (simp add: kBlockSize_def)
    ultimately show thesis using that [of f1 enc1] f1(2,3) True by simp
  next
    case False
    let ?last = "drop ?good bs @ map fill [0..<kBlockSize - ?part]"
    have part: "?part < kBlockSize" "?part \<le> length bs" by (simp_all add: kBlockSize_def)
    have len: "length ?last = kBlockSize" using part by simp
    have ldata: "length (data @ take ?good bs) = length data + ?good" by simp
    have bound: "length (data @ take ?good bs) + length ?last + 116 < 2 ^ 63"
      unfolding len ldata using short by (simp add: kBlockSize_def)
    have "length ?last mod kBlockSize = 0" unfolding len by simp
    from file_view_append [OF r f1(2,3) this bound] obtain f2 enc2 where
      f2: "file_write e ?last f1 = Some (f2, True, enc2)"
        "file_view e block contents key f2 ((data @ take ?good bs) @ ?last) (length ((data @ take ?good bs) @ ?last))" "writable (fl_data f2)"
      by blast
    have call: "writeWithPadding e fill bs f = Some (f2, True, enc1 @ drop ?good bs)"
      unfolding writeWithPadding_def Let_def f1(1) using f2(1) False by simp
    have "(16 - length bs mod 16) mod 16 = kBlockSize - ?part" using False by (simp add: kBlockSize_def)
    moreover have "(data @ take ?good bs) @ ?last = data @ bs @ map fill [0..<kBlockSize - ?part]" by simp
    moreover have "length ((data @ take ?good bs) @ ?last) = length data + length bs + (kBlockSize - ?part)" by simp
    ultimately show thesis using that [OF call] f2(2,3) by metis
  qed
qed

lemma readWithPadding_reads:
  assumes r: "reliable e block contents writable" and v: "file_view e block contents key f data off"
    and n: "off + n + (16 - n mod 16) mod 16 \<le> length data"
  obtains f' where "readWithPadding e n f = Some (f', int n, take n (drop off data))"
proof -
  let ?part = "n mod kBlockSize"
  let ?good = "n - ?part"
  have good: "?good mod kBlockSize = 0" by (simp add: minus_mod_eq_mult_div)
  have lg: "length (take ?good (drop off data)) = ?good" using n by simp
  obtain f1 where f1: "(if ?good \<noteq> 0 then file_read e ?good f else Some (f, 0, [])) = Some (f1, int ?good, take ?good (drop off data))"
    "file_view e block contents key f1 data (off + ?good)"
  proof (cases "?good = 0")
    case True
    with that [of f] v show ?thesis by simp
  next
    case False
    from file_view_read [OF r v good] obtain f1 where "file_read e ?good f = Some (f1, int ?good, take ?good (drop off data))"
      "file_view e block contents key f1 data (off + ?good)" unfolding lg by blast
    with that [of f1] False show ?thesis by simp
  qed
  show thesis
  proof (cases "?part = 0")
    case True
    then have "readWithPadding e n f = Some (f1, int n, take n (drop off data))"
      unfolding readWithPadding_def Let_def f1(1) by simp
    then show thesis by (rule that)
  next
    case False
    have room: "off + ?good + kBlockSize \<le> length data" using n False by (simp add: kBlockSize_def)
    then have l2: "length (take kBlockSize (drop (off + ?good) data)) = kBlockSize" by simp
    have "kBlockSize mod kBlockSize = 0" by simp
    from file_view_read [OF r f1(2) this] obtain f2 where
      f2: "file_read e kBlockSize f1 = Some (f2, int kBlockSize, take kBlockSize (drop (off + ?good) data))" unfolding l2 by blast
    have "take ?good (drop off data) @ take ?part (take kBlockSize (drop (off + ?good) data)) = take n (drop off data)"
    proof -
      have "take ?part (take kBlockSize (drop (off + ?good) data)) = take ?part (drop ?good (drop off data))"
        by (simp add: kBlockSize_def add.commute min.absorb1)
      also have "take ?good (drop off data) @ \<dots> = take (?good + ?part) (drop off data)" by (rule take_add [symmetric])
      finally show ?thesis by simp
    qed
    moreover have "int kBlockSize \<noteq> 0" by (simp add: kBlockSize_def)
    ultimately have "readWithPadding e n f = Some (f2, int n, take n (drop off data))"
      unfolding readWithPadding_def Let_def f1(1) using f2 False by simp
    then show thesis by (rule that)
  qed
qed

section \<open>Theorems\<close>


text \<open>
  A value written with padding to a new file is read back, byte for byte, after the file was closed
  and opened again with the same key, whatever the salt and the padding.
\<close>

theorem file_value_roundtrip:
  assumes r: "reliable e block contents writable" and key: "key \<noteq> []" "length salt = kSaltSize"
    and short: "length bs + 132 < 2 ^ 63"
  shows "\<exists>f1 f2 enc f3 f4. file_open e True ModeWrite key salt f = Some (f1, Success)
    \<and> writeWithPadding e fill bs f1 = Some (f2, True, enc)
    \<and> file_open e dir_ok ModeRead key salt' (file_close e f2) = Some (f3, Success)
    \<and> readWithPadding e (length bs) f3 = Some (f4, int (length bs), bs)"
proof -
  obtain f1 where f1: "file_open e True ModeWrite key salt f = Some (f1, Success)" "file_view e block contents key f1 [] 0"
    "writable (fl_data f1)" using file_create [OF r key] .
  let ?data = "bs @ map fill [0..<(16 - length bs mod 16) mod 16]"
  have "file_view e block contents key f1 [] (length ([] :: byte_list))" "length ([] :: byte_list) + length bs + 132 < 2 ^ 63"
    using f1(2) short by simp_all
  from writeWithPadding_appends [OF r this(1) f1(3) this(2), where fill = fill] obtain f2 enc where
    w: "writeWithPadding e fill bs f1 = Some (f2, True, enc)"
      "file_view e block contents key f2 ([] @ ?data) (length ([] :: byte_list) + length bs + (16 - length bs mod 16) mod 16)" by blast
  then have f2: "writeWithPadding e fill bs f1 = Some (f2, True, enc)" "file_view e block contents key f2 ?data (length ?data)"
    by simp_all
  from f2(2) obtain c where c: "header_ok e block key c (contents (fl_data f2))" "?data = file_plain block c (contents (fl_data f2))"
    "length (contents (fl_data f2)) < 2 ^ 63" unfolding file_view_def by blast
  have closed: "contents (fl_data (file_close e f2)) = contents (fl_data f2)" using disk_open(2) [OF r] by (simp add: file_close_def)
  obtain f3 where f3: "file_open e dir_ok ModeRead key salt' (file_close e f2) = Some (f3, Success)"
    "file_view e block contents key f3 ?data 0"
    using file_reopen [OF r, of key c "file_close e f2" ModeRead dir_ok] c unfolding closed by metis
  obtain f4 where "readWithPadding e (length bs) f3 = Some (f4, int (length bs), take (length bs) (drop 0 ?data))"
    by (rule readWithPadding_reads [OF r f3(2), of "length bs"]) simp_all
  with f1(1) f2(1) f3(1) show ?thesis by auto
qed

text \<open>
  A write that the disk does not take completely leaves the file as it was: the offset of the
  encryption and the size are the old ones, the buffer of the caller holds the plain bytes again, and the
  position is moved back by what was written.
\<close>

theorem file_write_restores:
  assumes "ctr_mode (fe_ctr128 e) block" "fl_state f = Some c" "length (cs_iv c) = kIvSize"
    and "length bs mod kBlockSize = 0" "fl_encryptionOffset f = int off" "off mod kBlockSize = 0" "off + length bs < 2 ^ 63"
    and "q_isOpen e (fl_data f)" "q_write e (xor_pad (pad block c) off bs) (fl_data f) = (d, cnt)" "cnt \<noteq> int (length bs)"
  shows "file_write e bs f
    = Some (f\<lparr>fl_data := if cnt > 0 then fst (q_seek e (q_pos e d - cnt) d) else d\<rparr>, False, bs)"
  using ctr_process_pad [OF assms(1,3,4,6)] ctr_process_pad [OF assms(1,3) _ assms(6), of "xor_pad (pad block c) off bs"] assms(2-10)
  by (simp add: file_write_def file_encrypt_def ctr_encrypt_def decryptBack_def file_decrypt_def ctr_decrypt_def)

text \<open>
  C39. When the disk reports an error (a count of minus one), \<open>read\<close> takes the remainder of the negative count
  for a partial block and moves the file one byte forward, while the offset of the encryption stays: the
  position and the offset no longer belong together.
\<close>

theorem file_read_error_moves:
  assumes "n mod kBlockSize = 0" "q_read e n (fl_data f) = (d, -1, bs)" "q_seek e (q_pos e d + 1) d = (d', True)"
  shows "file_read e n f = Some (f\<lparr>fl_data := d'\<rparr>, 0, [])"
  using assms by (simp add: file_read_def kBlockSize_def signed_modulo_int_def file_decode_def)

section \<open>A file in memory\<close>

record mem_file =
  mf_bytes :: byte_list
  mf_pos :: nat
  mf_open :: bool
  mf_writable :: bool

definition mem_block :: "byte_list \<Rightarrow> int \<Rightarrow> byte_list" where
  "mem_block key n = replicate 16 (word_of_int n)"

definition mem_env :: "mem_file file_env" where
  "mem_env = \<lparr>fe_sha256 = (\<lambda>bs. replicate 32 (of_nat (length bs))),
     fe_ctr128 = (\<lambda>key iv data. map (\<lambda>i. data ! i XOR mem_block key ((be_value iv + int (i div kBlockSize)) mod 2 ^ 128) ! (i mod kBlockSize))
       [0..<length data]),
     q_read = (\<lambda>n d. let bs = take n (drop (mf_pos d) (mf_bytes d)) in (d\<lparr>mf_pos := mf_pos d + length bs\<rparr>, int (length bs), bs)),
     q_write = (\<lambda>bs d. if mf_writable d
       then (d\<lparr>mf_bytes := overwrite (mf_pos d) bs (mf_bytes d), mf_pos := mf_pos d + length bs\<rparr>, int (length bs)) else (d, -1)),
     q_seek = (\<lambda>p d. (d\<lparr>mf_pos := nat p\<rparr>, True)),
     q_pos = (\<lambda>d. int (mf_pos d)), q_size = (\<lambda>d. int (length (mf_bytes d))), q_isOpen = mf_open,
     q_open = (\<lambda>d. (d\<lparr>mf_pos := 0, mf_open := True, mf_writable := False\<rparr>, True)),
     q_lock = (\<lambda>mode d. (if mode = ModeWrite then d\<lparr>mf_bytes := [], mf_pos := 0, mf_open := True, mf_writable := True\<rparr>
       else d\<lparr>mf_pos := 0, mf_open := True, mf_writable := True\<rparr>, True)),
     q_close = (\<lambda>d. d\<lparr>mf_open := False\<rparr>)\<rparr>"

definition new_mem_file :: "mem_file enc_file" where
  "new_mem_file = \<lparr>fl_data = \<lparr>mf_bytes = [], mf_pos = 0, mf_open = False, mf_writable = False\<rparr>,
     fl_encryptionOffset = 0, fl_dataSize = 0, fl_state = None\<rparr>"

lemma mem_reliable: "reliable mem_env mem_block mf_bytes mf_writable"
  by (auto simp: reliable_def disk_reads_def disk_writes_def disk_seeks_def disk_opens_def ctr_mode_def mem_env_def Let_def)

theorem file_value_roundtrip_witness:
  "\<exists>f1 f2 enc f3 f4. file_open mem_env True ModeWrite [1] (replicate 64 5) new_mem_file = Some (f1, Success)
    \<and> writeWithPadding mem_env (\<lambda>i. 0) [1, 2, 3] f1 = Some (f2, True, enc)
    \<and> file_open mem_env True ModeRead [1] [] (file_close mem_env f2) = Some (f3, Success)
    \<and> readWithPadding mem_env 3 f3 = Some (f4, 3, [1, 2, 3])"
  using file_value_roundtrip [OF mem_reliable, of "[1]" "replicate 64 5" "[1, 2, 3]" new_mem_file "\<lambda>i. 0" True "[]"]
  by (simp add: kSaltSize_def numeral_3_eq_3)


definition sample_file :: "mem_file enc_file" where
  "sample_file = \<lparr>fl_data = \<lparr>mf_bytes = replicate 116 0, mf_pos = 116, mf_open = True, mf_writable = True\<rparr>,
     fl_encryptionOffset = 48, fl_dataSize = 0, fl_state = Some \<lparr>cs_key = [], cs_iv = replicate 16 0\<rparr>\<rparr>"

theorem file_write_restores_witness:
  "file_write (mem_env\<lparr>q_write := (\<lambda>bs d. (d, -1))\<rparr>) (replicate 16 7) sample_file = Some (sample_file, False, replicate 16 7)"
  using file_write_restores [of "mem_env\<lparr>q_write := (\<lambda>bs d. (d, -1))\<rparr>" mem_block sample_file "\<lparr>cs_key = [], cs_iv = replicate 16 0\<rparr>"
      "replicate 16 7" 48 "fl_data sample_file" "-1"] mem_reliable
  by (simp add: reliable_def sample_file_def file_sizes mem_env_def)

theorem file_read_error_moves_witness:
  "file_read (mem_env\<lparr>q_read := (\<lambda>n d. (d, -1, []))\<rparr>) 16 sample_file
    = Some (sample_file\<lparr>fl_data := (fl_data sample_file)\<lparr>mf_pos := 117\<rparr>\<rparr>, 0, [])"
  using file_read_error_moves [of 16 "mem_env\<lparr>q_read := (\<lambda>n d. (d, -1, []))\<rparr>" sample_file "fl_data sample_file" "[]"
      "(fl_data sample_file)\<lparr>mf_pos := 117\<rparr>"]
  by (simp add: mem_env_def kBlockSize_def sample_file_def)

end
