(* ===== verification/CacheBinlog.thy ===== *)
theory CacheBinlog
  imports CacheDatabase PlainFile
begin

text \<open>
  \<open>storage_cache_binlog_reader.{h,cpp}\<close>: the journal as bytes. The records of
  \<open>storage_cache_types.h\<close> are laid out as the compiler does it (all fields are aligned, little-endian); the
  reader fills a buffer block by block, cuts records off its front and hands them to the handlers. The
  part of the buffer in use is the list of its bytes: it is moved to the front of the buffer before every
  read, so its place in the buffer does not matter.
\<close>

section \<open>Records as bytes\<close>

definition key_bytes :: "cache_key \<Rightarrow> byte_list" where
  "key_bytes k = dword_bytes (key_high k) @ dword_bytes (key_low k)"

definition time_bytes :: "time_point \<Rightarrow> byte_list" where
  "time_bytes t = word_bytes (tp_relative1 t) @ word_bytes (tp_relative2 t) @ word_bytes (tp_system t)"

definition store_bytes :: "bool \<Rightarrow> store \<Rightarrow> byte_list" where
  "store_bytes track r = [0x01, sr_tag r] @ sr_size r @ sr_place r @ word_bytes (sr_checksum r) @ key_bytes (sr_key r)
     @ (if track then time_bytes (sr_time r) @ word_bytes 0 else [])"

definition multi_head :: "u8 \<Rightarrow> nat \<Rightarrow> byte_list \<Rightarrow> byte_list" where
  "multi_head type cnt rest = type # pack_bytes 3 (int cnt) @ rest"

definition record_head :: "binlog_record \<Rightarrow> byte_list" where
  "record_head r =
     (case r of
        StoreRecord _ \<Rightarrow> []
      | MultiStore rs \<Rightarrow> multi_head 0x02 (length rs) (replicate 12 0)
      | MultiRemove ks \<Rightarrow> multi_head 0x03 (length ks) (replicate 12 0)
      | MultiAccess t ks \<Rightarrow> multi_head 0x04 (length ks) (time_bytes t))"

definition record_parts :: "bool \<Rightarrow> binlog_record \<Rightarrow> byte_list" where
  "record_parts track r =
     (case r of
        StoreRecord s \<Rightarrow> store_bytes track s
      | MultiStore rs \<Rightarrow> concat (map (store_bytes track) rs)
      | MultiRemove ks \<Rightarrow> concat (map key_bytes ks)
      | MultiAccess t ks \<Rightarrow> concat (map key_bytes ks))"

definition record_bytes :: "bool \<Rightarrow> binlog_record \<Rightarrow> byte_list" where
  "record_bytes track r = record_head r @ record_parts track r"

text \<open>The casts of the reader.\<close>

definition key_of :: "byte_list \<Rightarrow> cache_key" where
  "key_of bs = Key (bytes_dword bs) (bytes_dword (drop 8 bs))"

definition time_of :: "byte_list \<Rightarrow> time_point" where
  "time_of bs = \<lparr>tp_relative1 = bytes_word bs, tp_relative2 = bytes_word (drop 4 bs), tp_system = bytes_word (drop 8 bs)\<rparr>"

definition store_of :: "bool \<Rightarrow> byte_list \<Rightarrow> store" where
  "store_of track bs = \<lparr>sr_tag = bs ! 1, sr_size = take 3 (drop 2 bs), sr_place = take 7 (drop 5 bs),
     sr_checksum = bytes_word (drop 12 bs), sr_key = key_of (drop 16 bs),
     sr_time = (if track then time_of (drop 32 bs) else no_time)\<rparr>"

fun cut_parts :: "nat \<Rightarrow> nat \<Rightarrow> byte_list \<Rightarrow> byte_list list" where
  "cut_parts 0 sz bs = []"
| "cut_parts (Suc n) sz bs = take sz bs # cut_parts n sz (drop sz bs)"

section \<open>The reader\<close>

abbreviation tracks :: "cache_settings \<Rightarrow> bool" where "tracks st \<equiv> st_trackEstimatedTime st"

definition part_size :: "cache_settings \<Rightarrow> nat" where
  "part_size st = (if tracks st then 48 else 32)"

definition CheckSettings :: "cache_settings \<Rightarrow> bool" where
  "CheckSettings st \<longleftrightarrow> st_readBlockSize st \<ge> part_size st
     \<and> st_readBlockSize st \<ge> 16 + st_maxBundledRecords st * part_size st
     \<and> st_readBlockSize st \<ge> 16 + st_maxBundledRecords st * 16"

definition ReadRecordSizeMulti :: "nat \<Rightarrow> (byte_list \<Rightarrow> int) \<Rightarrow> byte_list \<Rightarrow> nat \<Rightarrow> int" where
  "ReadRecordSizeMulti part validateCount data partsLimit =
     (if length data < 16 then kRecordSizeUnknown
      else let cnt = validateCount (take 3 (drop 1 data)) in
        if cnt \<ge> 0 \<and> cnt \<le> int partsLimit then 16 + cnt * int part else kRecordSizeInvalid)"

definition ReadRecordSize :: "cache_settings \<Rightarrow> byte_list \<Rightarrow> int" where
  "ReadRecordSize st data =
     (if data = [] then kRecordSizeUnknown
      else let type = data ! 0 in
        if type = 0x01 then int (part_size st)
        else if type = 0x02 then ReadRecordSizeMulti (part_size st) ValidateStrictCount data (st_maxBundledRecords st)
        else if type = 0x03 then ReadRecordSizeMulti 16 ValidateStrictCount data (st_maxBundledRecords st)
        else if type = 0x04 \<and> tracks st then ReadRecordSizeMulti 16 ReadFrom data (st_maxBundledRecords st)
        else kRecordSizeInvalid)"

definition multi_parts :: "nat \<Rightarrow> int \<Rightarrow> byte_list \<Rightarrow> byte_list list option" where
  "multi_parts part cnt data =
     (if length data \<ge> 16 \<and> int (length data) = 16 + cnt * int part then Some (cut_parts (nat cnt) part (drop 16 data)) else None)"

text \<open>\<open>HandleRecord\<close> up to the call of the handler.\<close>

definition HandleRecord :: "cache_settings \<Rightarrow> byte_list \<Rightarrow> binlog_record option" where
  "HandleRecord st data =
     (if data = [] then None
      else let type = data ! 0; packed = take 3 (drop 1 data) in
        if type = 0x01 then if length data = part_size st then Some (StoreRecord (store_of (tracks st) data)) else None
        else if type = 0x02 then map_option (\<lambda>ps. MultiStore (map (store_of (tracks st)) ps)) (multi_parts (part_size st) (ValidateStrictCount packed) data)
        else if type = 0x03 then map_option (\<lambda>ps. MultiRemove (map key_of ps)) (multi_parts 16 (ValidateStrictCount packed) data)
        else if type = 0x04 \<and> tracks st
        then map_option (\<lambda>ps. MultiAccess (time_of (drop 4 data)) (map key_of ps)) (multi_parts 16 (ReadFrom packed) data)
        else None)"

record 'q binlog_wrapper =
  bw_file :: "'q enc_file"
  bw_settings :: cache_settings
  bw_till :: int
  bw_part :: byte_list
  bw_finished :: bool
  bw_failed :: bool

definition wrapper_new :: "'q enc_file \<Rightarrow> cache_settings \<Rightarrow> int \<Rightarrow> 'q binlog_wrapper" where
  "wrapper_new f st till = \<lparr>bw_file = f, bw_settings = st, bw_till = (if till \<noteq> 0 then till else fl_dataSize f),
     bw_part = [], bw_finished = False, bw_failed = False\<rparr>"

definition binlog_finish :: "'q file_env \<Rightarrow> nat \<Rightarrow> 'q binlog_wrapper \<Rightarrow> 'q binlog_wrapper" where
  "binlog_finish e rollback w =
     (let w1 = (if rollback > 0 then w\<lparr>bw_failed := True\<rparr> else w)
      in w1\<lparr>bw_file := fst (file_seek e (file_offset (bw_file w1) - int (rollback + length (bw_part w1))) (bw_file w1))\<rparr>)"

definition readPart :: "'q file_env \<Rightarrow> 'q binlog_wrapper \<Rightarrow> ('q binlog_wrapper \<times> bool) option" where
  "readPart e w =
     (if bw_finished w then Some (w, False)
      else let left = bw_till w - file_offset (bw_file w) in
        if left = 0 then Some (binlog_finish e 0 w, False)
        else let amount = min left (int (st_readBlockSize (bw_settings w)) - int (length (bw_part w))) in
          if \<not> amount > 0 then None
          else do {
            (f, readBytes, bs) \<leftarrow> file_read e (nat amount) (bw_file w);
            let w1 = w\<lparr>bw_file := f\<rparr>;
            if readBytes = 0 then Some (binlog_finish e 0 w1, False)
            else Some (w1\<lparr>bw_part := bw_part w1 @ bs\<rparr>, True)
          })"

definition readRecord :: "'q file_env \<Rightarrow> 'q binlog_wrapper \<Rightarrow> ('q binlog_wrapper \<times> byte_list) option" where
  "readRecord e w =
     (if bw_finished w then Some (w, [])
      else let sz = ReadRecordSize (bw_settings w) (bw_part w) in
        if sz = kRecordSizeUnknown \<or> sz > int (length (bw_part w)) then Some (w, [])
        else if sz = kRecordSizeInvalid then Some ((binlog_finish e 0 w)\<lparr>bw_finished := True, bw_failed := True\<rparr>, [])
        else if \<not> sz \<ge> 0 then None
        else Some (w\<lparr>bw_part := drop (nat sz) (bw_part w)\<rparr>, take (nat sz) (bw_part w)))"

text \<open>The loop of \<open>readTillEnd\<close> over the records in the buffer, with one handler for all kinds of records.\<close>

type_synonym 's record_handler = "binlog_record \<Rightarrow> 's \<Rightarrow> ('s \<times> bool) option"

partial_function (option) read_records ::
    "'q file_env \<Rightarrow> 's record_handler \<Rightarrow> 'q binlog_wrapper \<Rightarrow> 's \<Rightarrow> ('q binlog_wrapper \<times> 's \<times> bool) option" where
  [code]: "read_records e handler w s =
     do {
       (w1, bs) \<leftarrow> readRecord e w;
       if bs = [] then Some (w1, s, False)
       else do {
         r \<leftarrow> HandleRecord (bw_settings w1) bs;
         (s1, good) \<leftarrow> handler r s;
         if good then read_records e handler w1 s1 else Some (binlog_finish e (length bs) w1, s1, True)
       }
     }"

definition readTillEnd ::
    "'q file_env \<Rightarrow> 's record_handler \<Rightarrow> 'q binlog_wrapper \<Rightarrow> 's \<Rightarrow> ('q binlog_wrapper \<times> 's \<times> bool) option" where
  "readTillEnd e handler w s =
     do {
       (w1, more_data) \<leftarrow> readPart e w;
       if \<not> more_data then Some (w1, s, True) else read_records e handler w1 s
     }"

partial_function (option) readBinlogHelper ::
    "'q file_env \<Rightarrow> 's record_handler \<Rightarrow> 'q binlog_wrapper \<Rightarrow> 's \<Rightarrow> ('q binlog_wrapper \<times> 's) option" where
  [code]: "readBinlogHelper e handler w s =
     do {
       (w1, s1, finished) \<leftarrow> readTillEnd e handler w s;
       if finished then Some (w1, s1) else readBinlogHelper e handler w1 s1
     }"

text \<open>The reader of the whole journal: its constructor checks the settings.\<close>

definition read_journal ::
    "'q file_env \<Rightarrow> 's record_handler \<Rightarrow> cache_settings \<Rightarrow> 'q enc_file \<Rightarrow> 's \<Rightarrow> ('q binlog_wrapper \<times> 's) option" where
  "read_journal e handler st f s = (if CheckSettings st then readBinlogHelper e handler (wrapper_new f st 0) s else None)"

section \<open>The header of the journal\<close>

definition journal_header :: "bool \<Rightarrow> u32 \<Rightarrow> byte_list" where
  "journal_header track systemTime = word_bytes (if track then push_bit 8 1 else 0) @ word_bytes systemTime @ word_bytes 0 @ word_bytes 0"

definition ReadHeader :: "'q file_env \<Rightarrow> cache_settings \<Rightarrow> 'q enc_file \<Rightarrow> ('q enc_file \<times> byte_list option) option" where
  "ReadHeader e st f =
     (if file_offset f \<noteq> 0 then Some (f, None)
      else do {
        (f1, cnt, bs) \<leftarrow> file_read e 16 f;
        if cnt \<noteq> 16 then Some (f1, None)
        else if bs ! 0 \<noteq> 0 then Some (f1, None)
        else if tracks st \<noteq> (drop_bit 8 (bytes_word bs) AND 0x01 \<noteq> 0) then Some (f1, None)
        else Some (f1, Some bs)
      })"

text \<open>A record is written by one write of its head and one of its parts, if it has any.\<close>

definition write_record :: "'q file_env \<Rightarrow> bool \<Rightarrow> binlog_record \<Rightarrow> 'q enc_file \<Rightarrow> ('q enc_file \<times> bool) option" where
  "write_record e track r f =
     do {
       (f1, good1) \<leftarrow> (if record_head r = [] then Some (f, True) else map_option (\<lambda>(f1, good, _). (f1, good)) (file_write e (record_head r) f));
       if \<not> good1 then Some (f1, False)
       else if record_parts track r = [] then Some (f1, True)
       else map_option (\<lambda>(f2, good, _). (f2, good)) (file_write e (record_parts track r) f1)
     }"

section \<open>Records and their bytes\<close>

definition store_plain :: "bool \<Rightarrow> store \<Rightarrow> bool" where
  "store_plain track r \<longleftrightarrow> length (sr_size r) = 3 \<and> length (sr_place r) = 7 \<and> (\<not> track \<longrightarrow> sr_time r = no_time)"

text \<open>The records that the settings allow in a journal.\<close>

definition record_plain :: "cache_settings \<Rightarrow> binlog_record \<Rightarrow> bool" where
  "record_plain st r \<longleftrightarrow> int (st_maxBundledRecords st) < kBundledRecordsLimit \<and>
     (case r of
        StoreRecord s \<Rightarrow> store_plain (tracks st) s
      | MultiStore rs \<Rightarrow> rs \<noteq> [] \<and> length rs \<le> st_maxBundledRecords st \<and> list_all (store_plain (tracks st)) rs
      | MultiRemove ks \<Rightarrow> ks \<noteq> [] \<and> length ks \<le> st_maxBundledRecords st
      | MultiAccess t ks \<Rightarrow> tracks st \<and> length ks \<le> st_maxBundledRecords st)"

lemma bytes_lengths [simp]:
  "length (key_bytes k) = 16" "length (time_bytes t) = 12" "length (pack_bytes n c) = n"
  "length (multi_head type cnt rest) = 4 + length rest"
proof -
  show p: "length (pack_bytes n c) = n" for n c by (induction n arbitrary: c) simp_all
  then show "length (multi_head type cnt rest) = 4 + length rest" by (simp add: multi_head_def)
qed (simp_all add: key_bytes_def time_bytes_def)

lemma store_bytes_length: "store_plain (tracks st) r \<Longrightarrow> length (store_bytes (tracks st) r) = part_size st"
  by (simp add: store_bytes_def store_plain_def part_size_def)

lemma key_of_bytes: "key_of (key_bytes k @ rest) = k"
  by (simp add: key_of_def key_bytes_def bytes_dword_dword_bytes)

lemma time_of_bytes: "time_of (time_bytes t @ rest) = t"
  by (simp add: time_of_def time_bytes_def bytes_word_word_bytes)

lemma store_of_bytes: "store_plain track r \<Longrightarrow> store_of track (store_bytes track r) = r"
  using key_of_bytes [of "sr_key r"] key_of_bytes [of "sr_key r" "[]"] time_of_bytes [of "sr_time r"]
  by (auto simp: store_of_def store_bytes_def store_plain_def bytes_word_word_bytes)

lemma cut_parts_concat:
  "\<forall>x \<in> set xs. length (f x) = n \<Longrightarrow> cut_parts (length xs) n (concat (map f xs)) = map f xs"
  by (induction xs) simp_all

lemma concat_length: "\<forall>x \<in> set xs. length (f x) = n \<Longrightarrow> length (concat (map f xs)) = n * length xs"
  by (induction xs) simp_all

lemma head_count:
  assumes "int cnt < kBundledRecordsLimit"
  shows "ReadFrom (take 3 (drop 1 (multi_head type cnt rest @ x))) = int cnt" "multi_head type cnt rest ! 0 = type"
    "(multi_head type cnt rest @ x) ! 0 = type"
  using ReadFrom_pack [of "int cnt" 3] assms by (simp_all add: multi_head_def kBundledRecordsLimit_def)

lemma strict_count: "0 < n \<Longrightarrow> ReadFrom p = int n \<Longrightarrow> ValidateStrictCount p = int n"
  by (simp add: ValidateStrictCount_def)

text \<open>A head and its parts, with anything behind them.\<close>

lemma multi_read:
  assumes n: "\<forall>x \<in> set xs. length (f x) = n" and rest: "length rest = 12" and max: "length xs \<le> limit" "int limit < kBundledRecordsLimit"
    and bs: "bs = multi_head type (length xs) rest @ concat (map f xs)"
    and V: "\<forall>p. ReadFrom p = int (length xs) \<longrightarrow> V p = int (length xs)"
  shows "length bs = 16 + n * length xs" "ReadRecordSizeMulti n V (bs @ x) limit = int (length bs)"
    "multi_parts n (V (take 3 (drop 1 bs))) bs = Some (map f xs)" "bs ! 0 = type" "(bs @ x) ! 0 = type" "bs \<noteq> []"
proof -
  have cnt: "int (length xs) < kBundledRecordsLimit" using max by linarith
  show len: "length bs = 16 + n * length xs" using concat_length [OF n] rest by (simp add: bs)
  have packed: "V (take 3 (drop 1 (bs @ y))) = int (length xs)" for y
    using V head_count(1) [OF cnt, of type rest "concat (map f xs) @ y"] by (simp add: bs)
  show "ReadRecordSizeMulti n V (bs @ x) limit = int (length bs)"
    unfolding ReadRecordSizeMulti_def packed Let_def using len max(1) by (simp add: algebra_simps)
  have "drop 16 bs = concat (map f xs)" using rest by (simp add: bs)
  with packed [of "[]"] len cut_parts_concat [OF n] show "multi_parts n (V (take 3 (drop 1 bs))) bs = Some (map f xs)"
    by (simp add: multi_parts_def algebra_simps)
  show "bs ! 0 = type" "(bs @ x) ! 0 = type" "bs \<noteq> []" by (simp_all add: bs multi_head_def)
qed

lemma part_size_cases: "part_size st = 48 \<or> part_size st = 32"
  by (simp add: part_size_def)

text \<open>The size that the reader finds, and the record it builds.\<close>

lemma record_read_store:
  assumes "store_plain (tracks st) s"
  shows "ReadRecordSize st (record_bytes (tracks st) (StoreRecord s) @ rest) = int (length (record_bytes (tracks st) (StoreRecord s)))"
    "HandleRecord st (record_bytes (tracks st) (StoreRecord s)) = Some (StoreRecord s)"
    "length (record_bytes (tracks st) (StoreRecord s)) = part_size st"
proof -
  have eq: "record_bytes (tracks st) (StoreRecord s) = store_bytes (tracks st) s" by (simp add: record_bytes_def record_head_def record_parts_def)
  have first: "(store_bytes (tracks st) s @ rest) ! 0 = 0x01" "store_bytes (tracks st) s ! 0 = 0x01" "store_bytes (tracks st) s \<noteq> []"
    by (simp_all add: store_bytes_def)
  note len = store_bytes_length [OF assms]
  show "length (record_bytes (tracks st) (StoreRecord s)) = part_size st" unfolding eq by (rule len)
  show "ReadRecordSize st (record_bytes (tracks st) (StoreRecord s) @ rest) = int (length (record_bytes (tracks st) (StoreRecord s)))"
    unfolding eq ReadRecordSize_def Let_def first len using first(3) by simp
  show "HandleRecord st (record_bytes (tracks st) (StoreRecord s)) = Some (StoreRecord s)"
    unfolding eq HandleRecord_def Let_def first len using first(3) store_of_bytes [OF assms] by simp
qed

lemma keys_back: "map (key_of \<circ> key_bytes) ks = ks"
  using key_of_bytes [of _ "[]"] by (simp add: map_idI)

lemma record_read_multi:
  assumes "record_plain st r" "record_head r \<noteq> []"
  shows "ReadRecordSize st (record_bytes (tracks st) r @ rest) = int (length (record_bytes (tracks st) r))"
    "HandleRecord st (record_bytes (tracks st) r) = Some r"
    "\<exists>n \<in> {16, part_size st}. \<exists>k \<le> st_maxBundledRecords st. length (record_bytes (tracks st) r) = 16 + n * k"
proof -
  let ?bs = "record_bytes (tracks st) r" and ?max = "st_maxBundledRecords st"
  let ?goal = "ReadRecordSize st (?bs @ rest) = int (length ?bs) \<and> HandleRecord st ?bs = Some r
    \<and> (\<exists>n \<in> {16, part_size st}. \<exists>k \<le> ?max. length ?bs = 16 + n * k)"
  have lim: "int ?max < kBundledRecordsLimit" using assms(1) by (simp add: record_plain_def)
  have ?goal
  proof (cases r)
    case (StoreRecord s)
    with assms(2) show ?thesis by (simp add: record_head_def)
  next
    case (MultiStore rs)
    with assms(1) have p: "rs \<noteq> []" "length rs \<le> ?max" "\<forall>x \<in> set rs. store_plain (tracks st) x"
      by (auto simp: record_plain_def list_all_iff)
    have n: "\<forall>x \<in> set rs. length (store_bytes (tracks st) x) = part_size st" using p(3) store_bytes_length by auto
    have V: "\<forall>q. ReadFrom q = int (length rs) \<longrightarrow> ValidateStrictCount q = int (length rs)" using p(1) by (auto intro: strict_count)
    have bs: "?bs = multi_head 0x02 (length rs) (replicate 12 0) @ concat (map (store_bytes (tracks st)) rs)"
      by (simp add: MultiStore record_bytes_def record_head_def record_parts_def)
    note m = multi_read [OF n length_replicate p(2) lim bs V]
    have rs_back: "map (store_of (tracks st)) (map (store_bytes (tracks st)) rs) = rs" using p(3) store_of_bytes by (simp add: map_idI)
    have "ReadRecordSize st (?bs @ rest) = int (length ?bs)"
      unfolding ReadRecordSize_def Let_def m(5) using m(2,6) by simp
    moreover have "HandleRecord st ?bs = Some r"
      unfolding HandleRecord_def Let_def m(4) m(3) using m(6) rs_back by (simp add: MultiStore)
    ultimately show ?thesis using m(1) p(2) by blast
  next
    case (MultiRemove ks)
    with assms(1) have p: "ks \<noteq> []" "length ks \<le> ?max" by (auto simp: record_plain_def)
    have n: "\<forall>x \<in> set ks. length (key_bytes x) = 16" by simp
    have V: "\<forall>q. ReadFrom q = int (length ks) \<longrightarrow> ValidateStrictCount q = int (length ks)" using p(1) by (auto intro: strict_count)
    have bs: "?bs = multi_head 0x03 (length ks) (replicate 12 0) @ concat (map key_bytes ks)"
      by (simp add: MultiRemove record_bytes_def record_head_def record_parts_def)
    note m = multi_read [OF n length_replicate p(2) lim bs V]
    have "ReadRecordSize st (?bs @ rest) = int (length ?bs)"
      unfolding ReadRecordSize_def Let_def m(5) using m(2,6) by simp
    moreover have "HandleRecord st ?bs = Some r"
      unfolding HandleRecord_def Let_def m(4) m(3) using m(6) keys_back [of ks] by (simp add: MultiRemove)
    ultimately show ?thesis using m(1) p(2) by blast
  next
    case (MultiAccess t ks)
    with assms(1) have p: "tracks st" "length ks \<le> ?max" by (auto simp: record_plain_def)
    have n: "\<forall>x \<in> set ks. length (key_bytes x) = 16" by simp
    have bs: "?bs = multi_head 0x04 (length ks) (time_bytes t) @ concat (map key_bytes ks)"
      by (simp add: MultiAccess record_bytes_def record_head_def record_parts_def)
    have V: "\<forall>q. ReadFrom q = int (length ks) \<longrightarrow> ReadFrom q = int (length ks)" by simp
    note m = multi_read [OF n bytes_lengths(2) p(2) lim bs V]
    have t: "time_of (drop 4 ?bs) = t" unfolding bs by (simp add: multi_head_def time_of_bytes)
    have "ReadRecordSize st (?bs @ rest) = int (length ?bs)"
      unfolding ReadRecordSize_def Let_def m(5) using m(2,6) p(1) by simp
    moreover have "HandleRecord st ?bs = Some r"
      unfolding HandleRecord_def Let_def m(4) m(3) using m(6) keys_back [of ks] p(1) t by (simp add: MultiAccess)
    ultimately show ?thesis using m(1) p(2) by blast
  qed
  then show "ReadRecordSize st (?bs @ rest) = int (length ?bs)" "HandleRecord st ?bs = Some r"
    "\<exists>n \<in> {16, part_size st}. \<exists>k \<le> ?max. length ?bs = 16 + n * k" by blast+
qed

lemma record_read:
  assumes "record_plain st r"
  shows "ReadRecordSize st (record_bytes (tracks st) r @ rest) = int (length (record_bytes (tracks st) r))"
    "HandleRecord st (record_bytes (tracks st) r) = Some r"
    "length (record_bytes (tracks st) r) mod 16 = 0" "16 \<le> length (record_bytes (tracks st) r)"
    "CheckSettings st \<Longrightarrow> length (record_bytes (tracks st) r) \<le> st_readBlockSize st"
proof -
  let ?n = "length (record_bytes (tracks st) r)"
  have "ReadRecordSize st (record_bytes (tracks st) r @ rest) = int ?n \<and> HandleRecord st (record_bytes (tracks st) r) = Some r
    \<and> ?n mod 16 = 0 \<and> 16 \<le> ?n \<and> (CheckSettings st \<longrightarrow> ?n \<le> st_readBlockSize st)"
  proof (cases "record_head r = []")
    case True
    then obtain s where s: "r = StoreRecord s" by (cases r) (simp_all add: record_head_def multi_head_def)
    with assms have "store_plain (tracks st) s" by (simp add: record_plain_def)
    from record_read_store [OF this] part_size_cases [of st] show ?thesis by (auto simp: s CheckSettings_def)
  next
    case False
    note m = record_read_multi [OF assms False]
    from m(3) obtain n k where nk: "n = 16 \<or> n = part_size st" "k \<le> st_maxBundledRecords st" "?n = 16 + n * k" by blast
    have le: "?n \<le> 16 + n * st_maxBundledRecords st" unfolding nk(3) using mult_le_mono2 [OF nk(2), of n] by linarith
    have "?n \<le> st_readBlockSize st" if "CheckSettings st"
      using le nk(1) that by (auto simp: CheckSettings_def mult.commute)
    moreover have "16 dvd n" using nk(1) part_size_cases [of st] by auto
    then have "16 dvd ?n" unfolding nk(3) by (simp add: dvd_add)
    then have "?n mod 16 = 0" by (rule dvd_imp_mod_0)
    ultimately show ?thesis using m(1,2) nk(3) by simp
  qed
  then show "ReadRecordSize st (record_bytes (tracks st) r @ rest) = int ?n" "HandleRecord st (record_bytes (tracks st) r) = Some r"
    "?n mod 16 = 0" "16 \<le> ?n" "CheckSettings st \<Longrightarrow> ?n \<le> st_readBlockSize st" by blast+
qed

text \<open>The first sixteen bytes decide the size.\<close>

lemma ReadRecordSize_prefix: "16 \<le> length p \<Longrightarrow> ReadRecordSize st (p @ q) = ReadRecordSize st p"
  by (cases p) (simp_all add: ReadRecordSize_def ReadRecordSizeMulti_def Let_def take_drop nth_append)

section \<open>Reading a journal\<close>

definition stream :: "bool \<Rightarrow> binlog_record list \<Rightarrow> byte_list \<Rightarrow> byte_list" where
  "stream track rs tail = concat (map (record_bytes track) rs) @ tail"

text \<open>What may follow the last record: nothing, the beginning of a record, or something that is none.\<close>

definition torn :: "cache_settings \<Rightarrow> byte_list \<Rightarrow> bool" where
  "torn st tail \<longleftrightarrow> length tail mod 16 = 0 \<and>
     (tail = [] \<or> ReadRecordSize st tail = kRecordSizeInvalid \<or> ReadRecordSize st tail > int (length tail))"

text \<open>The handler on the records in order; the records from the refused one on are left.\<close>

fun run_records :: "'s record_handler \<Rightarrow> binlog_record list \<Rightarrow> 's \<Rightarrow> ('s \<times> binlog_record list) option" where
  "run_records handler [] s = Some (s, [])"
| "run_records handler (r # rs) s =
     do {
       (s1, good) \<leftarrow> handler r s;
       if good then run_records handler rs s1 else Some (s1, r # rs)
     }"

lemma handle_records_run:
  "handle_records rs db = map_option (\<lambda>(db', left). (db', left = [])) (run_records handle_record rs db)"
proof (induction rs arbitrary: db)
  case (Cons r rs)
  then show ?case by (auto split: Option.bind_splits)
qed simp

definition reader_at ::
    "'q file_env \<Rightarrow> (byte_list \<Rightarrow> int \<Rightarrow> byte_list) \<Rightarrow> ('q \<Rightarrow> byte_list) \<Rightarrow> byte_list \<Rightarrow> cache_settings \<Rightarrow>
      'q binlog_wrapper \<Rightarrow> byte_list \<Rightarrow> byte_list \<Rightarrow> nat \<Rightarrow> bool" where
  "reader_at e block contents key st w data extra start \<longleftrightarrow>
     file_view e block contents key (bw_file w) (data @ extra) (start + length (bw_part w))
     \<and> length data mod 16 = 0 \<and> start + length (bw_part w) \<le> length data \<and> bw_settings w = st \<and> bw_till w = int (length data) \<and> \<not> bw_finished w
     \<and> bw_part w = take (length (bw_part w)) (drop start data) \<and> start mod 16 = 0"

lemma ReadRecordSize_bounds:
  assumes "CheckSettings st"
  shows "ReadRecordSize st p \<le> int (st_readBlockSize st)" "16 \<le> length p \<Longrightarrow> ReadRecordSize st p \<noteq> kRecordSizeUnknown"
    "ReadRecordSize st p = kRecordSizeUnknown \<or> ReadRecordSize st p = kRecordSizeInvalid \<or> 16 \<le> ReadRecordSize st p"
proof -
  have parts: "16 \<le> 16 + c * int n \<and> 16 + c * int n \<noteq> -1" if "0 \<le> c" for c :: int and n
    using mult_nonneg_nonneg [OF that, of "int n"] by simp
  have multi: "ReadRecordSizeMulti n V p m \<le> 16 + int m * int n"
    "16 \<le> length p \<Longrightarrow> ReadRecordSizeMulti n V p m \<noteq> kRecordSizeUnknown"
    "ReadRecordSizeMulti n V p m = kRecordSizeUnknown \<or> ReadRecordSizeMulti n V p m = kRecordSizeInvalid \<or> 16 \<le> ReadRecordSizeMulti n V p m"
    for n V m
    using parts by (auto simp: ReadRecordSizeMulti_def Let_def kRecordSizeUnknown_def kRecordSizeInvalid_def mult_right_mono)
  have blocks: "16 + int (st_maxBundledRecords st) * int n \<le> int (st_readBlockSize st)" if "n = 16 \<or> n = part_size st" for n
    using assms that by (auto simp: CheckSettings_def simp flip: of_nat_mult)
  have le: "ReadRecordSizeMulti n V p (st_maxBundledRecords st) \<le> int (st_readBlockSize st)" if "n = 16 \<or> n = part_size st" for n V
    by (rule order_trans [OF multi(1) blocks [OF that]])
  show "ReadRecordSize st p \<le> int (st_readBlockSize st)"
    using le [of 16] le [of "part_size st"] assms unfolding ReadRecordSize_def Let_def CheckSettings_def
    by (auto simp: kRecordSizeUnknown_def kRecordSizeInvalid_def)
  show "16 \<le> length p \<Longrightarrow> ReadRecordSize st p \<noteq> kRecordSizeUnknown"
    using multi(2) by (auto simp: ReadRecordSize_def Let_def kRecordSizeUnknown_def kRecordSizeInvalid_def)
  show "ReadRecordSize st p = kRecordSizeUnknown \<or> ReadRecordSize st p = kRecordSizeInvalid \<or> 16 \<le> ReadRecordSize st p"
    using multi(3) part_size_cases [of st] unfolding ReadRecordSize_def Let_def by auto
qed

lemma binlog_finish_view:
  assumes r: "reliable e block contents writable" and v: "file_view e block contents key (bw_file w) data off"
    and k: "k + length (bw_part w) \<le> off" "(off - (k + length (bw_part w))) mod 16 = 0"
  shows "file_view e block contents key (bw_file (binlog_finish e k w)) data (off - (k + length (bw_part w)))"
    "writable (fl_data (bw_file (binlog_finish e k w))) = writable (fl_data (bw_file w))"
    "bw_failed (binlog_finish e k w) = (bw_failed w \<or> 0 < k)" "bw_finished (binlog_finish e k w) = bw_finished w"
    "bw_settings (binlog_finish e k w) = bw_settings w" "bw_till (binlog_finish e k w) = bw_till w"
    "bw_part (binlog_finish e k w) = bw_part w"
proof -
  let ?p = "off - (k + length (bw_part w))"
  have "off \<le> length data" using v by (auto simp: file_view_def)
  then have "?p mod kBlockSize = 0" "?p \<le> length data" using k(2) by (simp_all add: kBlockSize_def)
  then obtain f' where f': "file_seek e (int ?p) (bw_file w) = (f', True)" "file_view e block contents key f' data ?p"
    "writable (fl_data f') = writable (fl_data (bw_file w))" using file_view_seek [OF r v] by metis
  have "file_offset (bw_file w) - int (k + length (bw_part w)) = int ?p"
    using file_offset_view [OF v] k(1) by (simp add: of_nat_diff)
  then have "bw_file (binlog_finish e k w) = f'" using f'(1) by (cases "k = 0") (simp_all add: binlog_finish_def Let_def)
  with f'(2,3) show "file_view e block contents key (bw_file (binlog_finish e k w)) data ?p"
    "writable (fl_data (bw_file (binlog_finish e k w))) = writable (fl_data (bw_file w))" by simp_all
qed (simp_all add: binlog_finish_def Let_def)

text \<open>A part of the buffer that holds no complete record.\<close>

definition pending :: "cache_settings \<Rightarrow> byte_list \<Rightarrow> binlog_record list \<Rightarrow> byte_list \<Rightarrow> bool" where
  "pending st tail rs part \<longleftrightarrow>
     (case rs of [] \<Rightarrow> part = [] \<or> ReadRecordSize st tail \<noteq> kRecordSizeInvalid
      | r # _ \<Rightarrow> length part < length (record_bytes (tracks st) r))"

lemma readRecord_incomplete:
  assumes r: "reliable e block contents writable" and at: "reader_at e block contents key st w data extra start"
    and st: "CheckSettings st" and rest: "drop start data = stream (tracks st) rs tail" and tail: "torn st tail"
    and rs: "list_all (record_plain st) rs" "rs \<noteq> [] \<Longrightarrow> length (bw_part w) < length (record_bytes (tracks st) (hd rs))"
  obtains (waits) "readRecord e w = Some (w, [])" "length (bw_part w) < st_readBlockSize st" "pending st tail rs (bw_part w)"
  | (invalid) w' where "readRecord e w = Some (w', [])" "rs = []" "bw_finished w'" "bw_failed w'"
      "file_view e block contents key (bw_file w') (data @ extra) start" "writable (fl_data (bw_file w')) = writable (fl_data (bw_file w))"
      "ReadRecordSize st tail = kRecordSizeInvalid"
proof (cases "bw_part w = []")
  case True
  then have "readRecord e w = Some (w, [])" using at
    by (simp add: readRecord_def Let_def reader_at_def ReadRecordSize_def)
  moreover have "0 < st_readBlockSize st" using st part_size_cases [of st] by (auto simp: CheckSettings_def)
  moreover have "pending st tail rs []" using rs True by (cases rs) (simp_all add: pending_def)
  ultimately show ?thesis using waits True by simp
next
  case False
  let ?p = "bw_part w"
  have f: "file_view e block contents key (bw_file w) (data @ extra) (start + length ?p)" "bw_settings w = st" "\<not> bw_finished w"
    "?p = take (length ?p) (stream (tracks st) rs tail)" "start mod 16 = 0" using at rest by (auto simp: reader_at_def)
  have "(start + length ?p) mod 16 = 0" using f(1) by (auto simp: file_view_def kBlockSize_def)
  then have "length ?p mod 16 = 0" using f(5) by (metis add.right_neutral mod_add_left_eq mod_add_eq add_0)
  then have long: "16 \<le> length ?p" using False by (metis length_greater_0_conv mod_less not_less_iff_gr_or_eq not_le)
  define sz where "sz = ReadRecordSize st ?p"
  obtain q where q: "stream (tracks st) rs tail = ?p @ q" by (metis f(4) append_take_drop_id)
  have sz_eq: "sz = ReadRecordSize st (stream (tracks st) rs tail)" unfolding sz_def q using ReadRecordSize_prefix [OF long] by simp
  have not_unknown: "sz \<noteq> kRecordSizeUnknown" unfolding sz_def by (rule ReadRecordSize_bounds(2) [OF st long])
  show ?thesis
  proof (cases "sz > int (length ?p)")
    case True
    then have "readRecord e w = Some (w, [])" using f(2,3) by (simp add: readRecord_def Let_def sz_def)
    moreover have "length ?p < st_readBlockSize st" using True ReadRecordSize_bounds(1) [OF st, of ?p] by (simp add: sz_def)
    moreover have "pending st tail rs ?p"
      using rs(2) True sz_eq by (cases rs) (auto simp: pending_def stream_def kRecordSizeInvalid_def)
    ultimately show ?thesis by (rule waits)
  next
    case False
    have "rs = []"
    proof (rule ccontr)
      assume ne: "rs \<noteq> []"
      then obtain r rs' where r: "rs = r # rs'" by (cases rs) auto
      have "sz = int (length (record_bytes (tracks st) r))"
        unfolding sz_eq using record_read(1) [of st r] rs(1) by (simp add: r stream_def)
      then show False using False rs(2) [OF ne] r by simp
    qed
    then have tl: "sz = ReadRecordSize st tail" "tail = ?p @ q" using sz_eq q by (simp_all add: stream_def)
    then have inv: "sz = kRecordSizeInvalid" using tail False long by (auto simp: torn_def)
    define w' where "w' = (binlog_finish e 0 w)\<lparr>bw_finished := True, bw_failed := True\<rparr>"
    have "readRecord e w = Some (w', [])"
      using f(2,3) inv False not_unknown by (simp add: readRecord_def Let_def sz_def [symmetric] w'_def)
    moreover have "start + length ?p - (0 + length ?p) = start" by simp
    ultimately show ?thesis
      using invalid [of w'] binlog_finish_view [OF r f(1), of 0] f(5) \<open>rs = []\<close> inv tl(1) by (simp add: w'_def)
  qed
qed

text \<open>
  Where the reader can stand after it has handled what is in its buffer: records remain to be read, or it
  has stopped, at the record that was refused or at a tail that is no record.
\<close>

abbreviation stopped_at ::
    "'q file_env \<Rightarrow> (byte_list \<Rightarrow> int \<Rightarrow> byte_list) \<Rightarrow> ('q \<Rightarrow> byte_list) \<Rightarrow> byte_list \<Rightarrow> cache_settings \<Rightarrow> byte_list \<Rightarrow> byte_list \<Rightarrow> byte_list
      \<Rightarrow> binlog_record list \<Rightarrow> 'q binlog_wrapper \<Rightarrow> bool" where
  "stopped_at e block contents key st data extra tail left w \<equiv>
     file_view e block contents key (bw_file w) (data @ extra) (length data - length (stream (tracks st) left tail))
     \<and> bw_failed w = (left \<noteq> [] \<or> ReadRecordSize st tail = kRecordSizeInvalid)"

lemma read_records_ok:
  assumes r: "reliable e block contents writable" and st: "CheckSettings st" and tail: "torn st tail"
  shows "reader_at e block contents key st w data extra start \<Longrightarrow> drop start data = stream (tracks st) rs tail \<Longrightarrow>
    list_all (record_plain st) rs \<Longrightarrow> run_records handler rs s = Some (s', left) \<Longrightarrow> \<not> bw_failed w \<Longrightarrow>
    (\<exists>w1 s1 rs1 start1. read_records e handler w s = Some (w1, s1, False) \<and> run_records handler rs1 s1 = Some (s', left)
        \<and> reader_at e block contents key st w1 data extra start1 \<and> drop start1 data = stream (tracks st) rs1 tail
        \<and> list_all (record_plain st) rs1 \<and> length (bw_part w1) < st_readBlockSize st \<and> pending st tail rs1 (bw_part w1)
        \<and> bw_file w1 = bw_file w \<and> \<not> bw_failed w1)
    \<or> (\<exists>w1 b. read_records e handler w s = Some (w1, s', b) \<and> (b \<or> bw_finished w1)
        \<and> stopped_at e block contents key st data extra tail left w1 \<and> bw_failed w1
        \<and> writable (fl_data (bw_file w1)) = writable (fl_data (bw_file w)))"
proof (induction rs arbitrary: w s start)
  case Nil
  have run: "s = s'" "left = []" using Nil.prems(4) by simp_all
  have "start \<le> length data" using Nil.prems(1) by (auto simp: reader_at_def)
  then have pos: "length data - length (stream (tracks st) [] tail) = start"
    using arg_cong [OF Nil.prems(2), of length] by simp
  show ?case
  proof (rule readRecord_incomplete [OF r Nil.prems(1) st Nil.prems(2) tail])
    assume p: "readRecord e w = Some (w, [])" "length (bw_part w) < st_readBlockSize st" "pending st tail [] (bw_part w)"
    then have "read_records e handler w s = Some (w, s, False)" by (subst read_records.simps) simp
    with Nil.prems p(2,3) show ?case by blast
  next
    fix w'
    assume w': "readRecord e w = Some (w', [])" "bw_finished w'" "bw_failed w'"
      "file_view e block contents key (bw_file w') (data @ extra) start" "writable (fl_data (bw_file w')) = writable (fl_data (bw_file w))"
      "ReadRecordSize st tail = kRecordSizeInvalid"
    have "read_records e handler w s = Some (w', s, False)" by (subst read_records.simps) (simp add: w'(1))
    then show ?case using w'(2-6) run pos by (intro disjI2 exI [of _ w'] exI [of _ False]) simp
  qed simp_all
next
  case (Cons rc rs)
  let ?n = "length (record_bytes (tracks st) rc)"
  have pl: "record_plain st rc" "list_all (record_plain st) rs" using Cons.prems(3) by simp_all
  note rd = record_read [OF pl(1)]
  have at: "file_view e block contents key (bw_file w) (data @ extra) (start + length (bw_part w))" "bw_settings w = st" "\<not> bw_finished w"
    "bw_till w = int (length data)" "bw_part w = take (length (bw_part w)) (drop start data)" "start mod 16 = 0"
    "length data mod 16 = 0" "start + length (bw_part w) \<le> length data"
    using Cons.prems(1) by (auto simp: reader_at_def)
  show ?case
  proof (cases "length (bw_part w) < ?n")
    case True
    show ?thesis
    proof (rule readRecord_incomplete [OF r Cons.prems(1) st Cons.prems(2) tail Cons.prems(3)])
      assume p: "readRecord e w = Some (w, [])" "length (bw_part w) < st_readBlockSize st" "pending st tail (rc # rs) (bw_part w)"
      then have "read_records e handler w s = Some (w, s, False)" by (subst read_records.simps) simp
      with Cons.prems p(2,3) show ?thesis by blast
    qed (use True in simp_all)
  next
    case False
    define w1 where "w1 = w\<lparr>bw_part := drop ?n (bw_part w)\<rparr>"
    have rest: "drop start data = record_bytes (tracks st) rc @ stream (tracks st) rs tail"
      using Cons.prems(2) by (simp add: stream_def)
    obtain q where q: "bw_part w = record_bytes (tracks st) rc @ q"
      using at(5) False rest by (metis append_eq_conv_conj append_take_drop_id take_all_iff take_append not_less)
    have "readRecord e w = Some (w1, record_bytes (tracks st) rc)"
      using at(2,3) rd(1) [of q] rd(4) by (simp add: readRecord_def Let_def q w1_def kRecordSizeUnknown_def kRecordSizeInvalid_def)
    moreover have ne: "record_bytes (tracks st) rc \<noteq> []" using rd(4) by auto
    moreover have "bw_settings w1 = st" using at(2) by (simp add: w1_def)
    ultimately have step: "read_records e handler w s = do { (s1, good) \<leftarrow> handler rc s;
        if good then read_records e handler w1 s1 else Some (binlog_finish e ?n w1, s1, True) }"
      using rd(2) by (subst read_records.simps) simp
    have at1: "reader_at e block contents key st w1 data extra (start + ?n)"
    proof -
      have "q = drop ?n (take (length (bw_part w)) (drop start data))" using at(5) q by (metis append_eq_conv_conj)
      then have "q = take (length q) (drop (start + ?n) data)" by (simp add: drop_take q add.commute)
      moreover have "(start + ?n) mod 16 = 0" using at(6) rd(3) by (simp add: mod_add_eq [symmetric])
      moreover have "bw_part w1 = q" "bw_file w1 = bw_file w" by (simp_all add: w1_def q)
      moreover have "start + length (bw_part w) = start + ?n + length q" by (simp add: q)
      ultimately show ?thesis using at(1-4,7,8) by (simp add: reader_at_def add.assoc) (simp add: w1_def)
    qed
    have rest1: "drop (start + ?n) data = stream (tracks st) rs tail"
      using arg_cong [OF rest, of "drop ?n"] by (simp add: add.commute)
    obtain s1 good where h: "handler rc s = Some (s1, good)" "if good then run_records handler rs s1 = Some (s', left) else s1 = s' \<and> left = rc # rs"
      using Cons.prems(4) by (auto split: Option.bind_splits if_splits)
    show ?thesis
    proof (cases good)
      case True
      have "bw_file w1 = bw_file w" "\<not> bw_failed w1" using Cons.prems(5) by (simp_all add: w1_def)
      with Cons.IH [OF at1 rest1 pl(2), of s1] h True step show ?thesis by simp
    next
      case False
      let ?w2 = "binlog_finish e ?n w1"
      have off: "file_view e block contents key (bw_file w1) (data @ extra) (start + length (bw_part w))" "length (bw_part w) = ?n + length (bw_part w1)"
        using at(1) by (simp_all add: w1_def q)
      have "start + length (bw_part w) - (?n + length (bw_part w1)) = start" "?n + length (bw_part w1) \<le> start + length (bw_part w)"
        using off(2) by simp_all
      note fin = binlog_finish_view [OF r off(1), of ?n, unfolded this(1), OF this(2) at(6)]
      have "start \<le> length data" using at(8) by simp
      then have pos: "length data - length (stream (tracks st) (rc # rs) tail) = start"
        using arg_cong [OF Cons.prems(2), of length] by simp
      have "read_records e handler w s = Some (?w2, s', True)" "left = rc # rs" using step h False by simp_all
      moreover have "bw_failed ?w2" "writable (fl_data (bw_file ?w2)) = writable (fl_data (bw_file w))"
        using fin(2,3) ne by (simp_all add: w1_def)
      ultimately show ?thesis using fin(1) pos by (intro disjI2 exI [of _ ?w2] exI [of _ True]) simp
    qed
  qed
qed


text \<open>The next block of the file is appended to the part of the buffer in use.\<close>

lemma readPart_more:
  assumes r: "reliable e block contents writable" and at: "reader_at e block contents key st w data extra start"
    and block: "st_readBlockSize st mod 16 = 0" "length (bw_part w) < st_readBlockSize st"
    and more_data: "start + length (bw_part w) < length data"
  obtains w1 where "readPart e w = Some (w1, True)" "reader_at e block contents key st w1 data extra start"
    "length (bw_part w) < length (bw_part w1)" "bw_failed w1 = bw_failed w"
    "writable (fl_data (bw_file w1)) = writable (fl_data (bw_file w))"
proof -
  let ?p = "bw_part w" and ?off = "start + length (bw_part w)"
  have f: "file_view e block contents key (bw_file w) (data @ extra) ?off" "bw_settings w = st" "\<not> bw_finished w" "bw_till w = int (length data)"
    "?p = take (length ?p) (drop start data)" "start mod 16 = 0" "length data mod 16 = 0" using at by (auto simp: reader_at_def)
  define n where "n = min (length data - ?off) (st_readBlockSize st - length ?p)"
  have n0: "0 < n" using more_data block(2) by (simp add: n_def)
  have off16: "?off mod 16 = 0" using f(1) by (auto simp: file_view_def kBlockSize_def)
  then have "length ?p mod 16 = 0" using f(6) by (metis add.right_neutral mod_add_left_eq mod_add_eq add_0)
  then have "n mod kBlockSize = 0"
    using off16 block f(7) by (auto simp: n_def min_def kBlockSize_def mod_eq_0_iff_dvd)
  from file_view_read [OF r f(1) this] obtain f1 where
    f1': "file_read e n (bw_file w) = Some (f1, int (length (take n (drop ?off (data @ extra)))), take n (drop ?off (data @ extra)))"
      "file_view e block contents key f1 (data @ extra) (?off + length (take n (drop ?off (data @ extra))))"
      "writable (fl_data f1) = writable (fl_data (bw_file w))" by blast
  have len: "length (take n (drop ?off data)) = n" by (simp add: n_def)
  have same: "take n (drop ?off (data @ extra)) = take n (drop ?off data)" using more_data by (simp add: n_def)
  note f1 = f1' [unfolded same]
  define w1 where "w1 = w\<lparr>bw_file := f1, bw_part := ?p @ take n (drop ?off data)\<rparr>"
  have left: "bw_till w - file_offset (bw_file w) = int (length data - ?off)"
    using file_offset_view [OF f(1)] f(4) more_data by (simp add: of_nat_diff)
  have amount: "min (int (length data - ?off)) (int (st_readBlockSize st) - int (length ?p)) = int n"
    using block(2) by (simp add: n_def of_nat_min of_nat_diff)
  have "readPart e w = Some (w1, True)"
    unfolding readPart_def Let_def f(2) left amount using f(3) more_data n0 f1(1) len by (simp add: w1_def)
  moreover have len1: "length (bw_part w1) = length ?p + n" using len by (simp add: w1_def)
  have "bw_part w1 = take (length ?p + n) (drop start data)"
    using f(5) by (simp add: w1_def) (metis add.commute drop_drop take_add)
  then have "bw_part w1 = take (length (bw_part w1)) (drop start data)" using len1 by metis
  with len1 have "reader_at e block contents key st w1 data extra start"
    using f(2-4,6,7) f1(2) len more_data unfolding reader_at_def by (simp add: add.assoc) (simp add: w1_def n_def)
  ultimately show thesis using that [of w1] n0 len f1(3) by (simp add: w1_def)
qed

text \<open>The whole loop: it ends, and the state is that of the handler run over the records.\<close>

lemma readBinlogHelper_ok:
  assumes r: "reliable e block contents writable" and st: "CheckSettings st" "st_readBlockSize st mod 16 = 0" and tail: "torn st tail"
  shows "reader_at e block contents key st w data extra start \<Longrightarrow> drop start data = stream (tracks st) rs tail \<Longrightarrow>
    list_all (record_plain st) rs \<Longrightarrow> run_records handler rs s = Some (s', left) \<Longrightarrow> \<not> bw_failed w \<Longrightarrow>
    length (bw_part w) < st_readBlockSize st \<Longrightarrow> pending st tail rs (bw_part w) \<Longrightarrow>
    \<exists>w1. readBinlogHelper e handler w s = Some (w1, s') \<and> stopped_at e block contents key st data extra tail left w1
      \<and> writable (fl_data (bw_file w1)) = writable (fl_data (bw_file w))"
proof (induction "length data - nat (file_offset (bw_file w))" arbitrary: w s start rs rule: less_induct)
  case less
  let ?off = "start + length (bw_part w)"
  have f: "file_view e block contents key (bw_file w) (data @ extra) ?off" "\<not> bw_finished w" "bw_till w = int (length data)"
    "bw_part w = take (length (bw_part w)) (drop start data)" "start mod 16 = 0" using less.prems(1) by (auto simp: reader_at_def)
  have le: "?off \<le> length data" using less.prems(1) by (simp add: reader_at_def)
  note off = file_offset_view [OF f(1)]
  show ?case
  proof (cases "?off = length data")
    case True
    have part: "bw_part w = stream (tracks st) rs tail" using f(4) True less.prems(2) by (metis add_diff_cancel_left' length_drop order_refl take_all)
    have "rs = []" using less.prems(7) part by (cases rs) (simp_all add: pending_def stream_def)
    then have run: "s' = s" "left = []" "bw_part w = tail" using less.prems(4) part by (simp_all add: stream_def)
    have "ReadRecordSize st tail \<noteq> kRecordSizeInvalid"
      using less.prems(7) \<open>rs = []\<close> run(3) by (auto simp: pending_def ReadRecordSize_def kRecordSizeUnknown_def kRecordSizeInvalid_def)
    moreover have "readBinlogHelper e handler w s = Some (binlog_finish e 0 w, s)"
      using f(2,3) off True by (subst readBinlogHelper.simps) (simp add: readTillEnd_def readPart_def)
    moreover have "?off - (0 + length (bw_part w)) = start" "0 + length (bw_part w) \<le> ?off" by simp_all
    note fin = binlog_finish_view [OF r f(1), of 0, unfolded this(1), OF this(2) f(5)]
    moreover have "length data - length (stream (tracks st) left tail) = start" using True run by (simp add: stream_def)
    ultimately show ?thesis using fin(1-3) less.prems(5) run by simp
  next
    case False
    then have "?off < length data" using le by simp
    from readPart_more [OF r less.prems(1) st(2) less.prems(6) this] obtain w1 where
      w1: "readPart e w = Some (w1, True)" "reader_at e block contents key st w1 data extra start"
        "length (bw_part w) < length (bw_part w1)" "bw_failed w1 = bw_failed w"
        "writable (fl_data (bw_file w1)) = writable (fl_data (bw_file w))" by blast
    have v1: "file_view e block contents key (bw_file w1) (data @ extra) (start + length (bw_part w1))" using w1(2) by (simp add: reader_at_def)
    have off1: "file_offset (bw_file w1) = int (start + length (bw_part w1))" using file_offset_view [OF v1] .
    moreover have "start + length (bw_part w1) \<le> length data" using w1(2) by (simp add: reader_at_def)
    ultimately have off1: "file_offset (bw_file w1) = int (start + length (bw_part w1))" "start + length (bw_part w1) \<le> length data"
      by simp_all
    have step: "readTillEnd e handler w s = read_records e handler w1 s" using w1(1) by (simp add: readTillEnd_def)
    have nf: "\<not> bw_failed w1" using w1(4) less.prems(5) by simp
    from read_records_ok [OF r st(1) tail w1(2) less.prems(2-4) nf] show ?thesis
    proof
      assume "\<exists>w2 s2 rs2 start2. read_records e handler w1 s = Some (w2, s2, False) \<and> run_records handler rs2 s2 = Some (s', left)
        \<and> reader_at e block contents key st w2 data extra start2 \<and> drop start2 data = stream (tracks st) rs2 tail
        \<and> list_all (record_plain st) rs2 \<and> length (bw_part w2) < st_readBlockSize st \<and> pending st tail rs2 (bw_part w2)
        \<and> bw_file w2 = bw_file w1 \<and> \<not> bw_failed w2"
      then obtain w2 s2 rs2 start2 where 2: "read_records e handler w1 s = Some (w2, s2, False)" "run_records handler rs2 s2 = Some (s', left)"
        "reader_at e block contents key st w2 data extra start2" "drop start2 data = stream (tracks st) rs2 tail"
        "list_all (record_plain st) rs2" "length (bw_part w2) < st_readBlockSize st" "pending st tail rs2 (bw_part w2)"
        "bw_file w2 = bw_file w1" "\<not> bw_failed w2" by blast
      have "length data - nat (file_offset (bw_file w2)) < length data - nat (file_offset (bw_file w))"
        using off off1 w1(3) 2(8) by simp
      from less.hyps [OF this 2(3-5,2,9,6,7)] obtain w3 where
        "readBinlogHelper e handler w2 s2 = Some (w3, s')" "stopped_at e block contents key st data extra tail left w3"
        "writable (fl_data (bw_file w3)) = writable (fl_data (bw_file w2))" by blast
      moreover have "readBinlogHelper e handler w s = readBinlogHelper e handler w2 s2"
        using step 2(1) by (subst readBinlogHelper.simps) simp
      ultimately show ?thesis using 2(8) w1(5) by auto
    next
      assume "\<exists>w2 b. read_records e handler w1 s = Some (w2, s', b) \<and> (b \<or> bw_finished w2)
        \<and> stopped_at e block contents key st data extra tail left w2 \<and> bw_failed w2
        \<and> writable (fl_data (bw_file w2)) = writable (fl_data (bw_file w1))"
      then obtain w2 b where 2: "read_records e handler w1 s = Some (w2, s', b)" "b \<or> bw_finished w2"
        "file_view e block contents key (bw_file w2) (data @ extra) (length data - length (stream (tracks st) left tail))"
        "bw_failed w2 = (left \<noteq> [] \<or> ReadRecordSize st tail = kRecordSizeInvalid)" "bw_failed w2"
        "writable (fl_data (bw_file w2)) = writable (fl_data (bw_file w1))" by blast
      have again: "readBinlogHelper e handler w2 s' = Some (w2, s')" if "bw_finished w2"
        using that by (subst readBinlogHelper.simps) (simp add: readTillEnd_def readPart_def)
      have "readBinlogHelper e handler w s = (if b then Some (w2, s') else readBinlogHelper e handler w2 s')"
        using step 2(1) by (subst readBinlogHelper.simps) simp
      then have "readBinlogHelper e handler w s = Some (w2, s')" using 2(2) again by auto
      then show ?thesis using 2(3,4,6) w1(5) by auto
    qed
  qed
qed

section \<open>Writing and reading a journal\<close>

fun write_records :: "'q file_env \<Rightarrow> bool \<Rightarrow> binlog_record list \<Rightarrow> 'q enc_file \<Rightarrow> ('q enc_file \<times> bool) option" where
  "write_records e track [] f = Some (f, True)"
| "write_records e track (r # rs) f =
     do {
       (f1, good) \<leftarrow> write_record e track r f;
       if good then write_records e track rs f1 else Some (f1, False)
     }"

lemma journal_header_length [simp]: "length (journal_header track t) = 16"
  by (simp add: journal_header_def)

lemma journal_read:
  assumes r: "reliable e block contents writable" and st: "CheckSettings st" "st_readBlockSize st mod 16 = 0"
    and v: "file_view e block contents key f (header @ stream (tracks st) rs tail) 16" and header: "length header = 16"
    and rs: "list_all (record_plain st) rs" and tail: "torn st tail" and run: "run_records handler rs s = Some (s', left)"
  shows "\<exists>w. read_journal e handler st f s = Some (w, s')
    \<and> bw_failed w = (left \<noteq> [] \<or> ReadRecordSize st tail = kRecordSizeInvalid)
    \<and> file_view e block contents key (bw_file w) (header @ stream (tracks st) rs tail)
        (16 + length (stream (tracks st) rs tail) - length (stream (tracks st) left tail))
    \<and> writable (fl_data (bw_file w)) = writable (fl_data f)"
proof -
  let ?data = "header @ stream (tracks st) rs tail" and ?w = "wrapper_new f st 0"
  have size: "fl_dataSize f = int (length ?data)" using v by (auto simp: file_view_def)
  have at: "reader_at e block contents key st ?w ?data [] 16" using v size file_view_blocks [OF v] header by (simp add: reader_at_def wrapper_new_def kBlockSize_def)
  have "0 < st_readBlockSize st" using st part_size_cases [of st] by (auto simp: CheckSettings_def)
  moreover have "pending st tail rs []"
    using rs record_read(4) by (cases rs) (force simp: pending_def)+
  moreover have "drop 16 ?data = stream (tracks st) rs tail" using header by simp
  ultimately have "\<exists>w. readBinlogHelper e handler ?w s = Some (w, s') \<and> stopped_at e block contents key st ?data [] tail left w
      \<and> writable (fl_data (bw_file w)) = writable (fl_data f)"
    using readBinlogHelper_ok [OF r st tail at _ rs run] by (simp add: wrapper_new_def)
  then show ?thesis using st(1) header by (auto simp: read_journal_def)
qed

lemma record_parts_blocks:
  assumes "record_plain st r"
  shows "length (record_head r) mod kBlockSize = 0" "length (record_parts (tracks st) r) mod kBlockSize = 0"
proof -
  show h: "length (record_head r) mod kBlockSize = 0" by (cases r) (simp_all add: record_head_def kBlockSize_def)
  have "length (record_head r) + length (record_parts (tracks st) r) = length (record_bytes (tracks st) r)"
    by (simp add: record_bytes_def)
  then show "length (record_parts (tracks st) r) mod kBlockSize = 0"
    using record_read(3) [OF assms] h by (metis kBlockSize_def mod_add_left_eq add_0)
qed

lemma write_record_ok:
  assumes r: "reliable e block contents writable" and v: "file_view e block contents key f data (length data)"
    and w: "writable (fl_data f)" and plain: "record_plain st rc"
    and short: "length data + length (record_bytes (tracks st) rc) + 116 < 2 ^ 63"
  obtains f' where "write_record e (tracks st) rc f = Some (f', True)" "writable (fl_data f')"
    "file_view e block contents key f' (data @ record_bytes (tracks st) rc) (length (data @ record_bytes (tracks st) rc))"
proof -
  note blocks = record_parts_blocks [OF plain]
  have len: "length (record_bytes (tracks st) rc) = length (record_head rc) + length (record_parts (tracks st) rc)"
    by (simp add: record_bytes_def)
  obtain f1 where f1: "(if record_head rc = [] then Some (f, True) else map_option (\<lambda>(f1, good, _). (f1, good)) (file_write e (record_head rc) f)) = Some (f1, True)"
    "file_view e block contents key f1 (data @ record_head rc) (length (data @ record_head rc))" "writable (fl_data f1)"
  proof (cases "record_head rc = []")
    case True
    with that [of f] v w show ?thesis by simp
  next
    case False
    have "length data + length (record_head rc) + 116 < 2 ^ 63" using short len by linarith
    from file_view_append [OF r v w blocks(1) this] obtain f1 enc where "file_write e (record_head rc) f = Some (f1, True, enc)"
      "file_view e block contents key f1 (data @ record_head rc) (length (data @ record_head rc))" "writable (fl_data f1)" by blast
    with that [of f1] False show ?thesis by simp
  qed
  show thesis
  proof (cases "record_parts (tracks st) rc = []")
    case True
    then have "write_record e (tracks st) rc f = Some (f1, True)" unfolding write_record_def f1(1) by simp
    with that [of f1] f1(2,3) True show thesis by (simp add: record_bytes_def)
  next
    case False
    have "length (data @ record_head rc) + length (record_parts (tracks st) rc) + 116 < 2 ^ 63" using short len by simp
    from file_view_append [OF r f1(2,3) blocks(2) this] obtain f2 enc where
      f2: "file_write e (record_parts (tracks st) rc) f1 = Some (f2, True, enc)" "writable (fl_data f2)"
        "file_view e block contents key f2 ((data @ record_head rc) @ record_parts (tracks st) rc)
          (length ((data @ record_head rc) @ record_parts (tracks st) rc))" by blast
    have "write_record e (tracks st) rc f = Some (f2, True)" unfolding write_record_def f1(1) using False f2(1) by simp
    with that [of f2] f2(2,3) show thesis by (simp add: record_bytes_def)
  qed
qed

lemma write_records_ok:
  assumes r: "reliable e block contents writable"
  shows "file_view e block contents key f data (length data) \<Longrightarrow> writable (fl_data f) \<Longrightarrow> list_all (record_plain st) rs \<Longrightarrow>
    length data + length (stream (tracks st) rs []) + 116 < 2 ^ 63 \<Longrightarrow>
    \<exists>f'. write_records e (tracks st) rs f = Some (f', True) \<and> writable (fl_data f')
      \<and> file_view e block contents key f' (data @ stream (tracks st) rs []) (length (data @ stream (tracks st) rs []))"
proof (induction rs arbitrary: f data)
  case Nil
  then show ?case by (auto simp: stream_def)
next
  case (Cons rc rs)
  have "record_plain st rc" "length data + length (record_bytes (tracks st) rc) + 116 < 2 ^ 63"
    using Cons.prems(3,4) by (simp_all add: stream_def)
  from write_record_ok [OF r Cons.prems(1,2) this] obtain f1 where
    f1: "write_record e (tracks st) rc f = Some (f1, True)" "writable (fl_data f1)"
      "file_view e block contents key f1 (data @ record_bytes (tracks st) rc) (length (data @ record_bytes (tracks st) rc))" by blast
  have "list_all (record_plain st) rs" "length (data @ record_bytes (tracks st) rc) + length (stream (tracks st) rs []) + 116 < 2 ^ 63"
    using Cons.prems(3,4) by (simp_all add: stream_def)
  from Cons.IH [OF f1(3,2) this] f1(1) show ?case by (simp add: stream_def)
qed

lemma ReadHeader_ok:
  assumes r: "reliable e block contents writable" and v: "file_view e block contents key f (journal_header (tracks st) t @ rest) 0"
  obtains f' where "ReadHeader e st f = Some (f', Some (journal_header (tracks st) t))" "file_view e block contents key f' (journal_header (tracks st) t @ rest) 16"
    "writable (fl_data f') = writable (fl_data f)"
proof -
  let ?data = "journal_header (tracks st) t @ rest" and ?h = "journal_header (tracks st) t"
  have "16 mod kBlockSize = 0" by (simp add: kBlockSize_def)
  from file_view_read [OF r v this] obtain f' where f': "file_read e 16 f = Some (f', 16, ?h)" "file_view e block contents key f' ?data 16"
    "writable (fl_data f') = writable (fl_data f)" by auto
  have w: "bytes_word ?h = (if tracks st then push_bit 8 1 else 0)"
    by (simp add: journal_header_def bytes_word_word_bytes)
  have "?h ! 0 = 0" by (simp add: journal_header_def word_bytes_def)
  moreover have "tracks st = (drop_bit 8 (bytes_word ?h) AND 0x01 \<noteq> 0)" unfolding w by simp
  ultimately have "ReadHeader e st f = Some (f', Some ?h)"
    using f'(1) file_offset_view [OF v] by (simp add: ReadHeader_def)
  with that f'(2,3) show thesis by blast
qed

section \<open>Theorems\<close>


text \<open>
  C35. A journal written record by record to a new file, closed and opened again with the same key gives
  back its time and its records: reading it has the effect of handling the records that were written.
\<close>

theorem journal_roundtrip:
  assumes r: "reliable e block contents writable" and key: "key \<noteq> []" "length salt = kSaltSize"
    and st: "CheckSettings st" "st_readBlockSize st mod 16 = 0" and rs: "list_all (record_plain st) rs"
    and short: "length (stream (tracks st) rs []) + 132 < 2 ^ 63" and run: "handle_records rs db = Some (db', good)"
  shows "\<exists>f1 f2 enc f3 f4 f5 w. file_open e True ModeWrite key salt f = Some (f1, Success)
    \<and> file_write e (journal_header (tracks st) systemTime) f1 = Some (f2, True, enc)
    \<and> write_records e (tracks st) rs f2 = Some (f3, True)
    \<and> file_open e True ModeReadAppend key salt' (file_close e f3) = Some (f4, Success)
    \<and> ReadHeader e st f4 = Some (f5, Some (journal_header (tracks st) systemTime))
    \<and> read_journal e handle_record st f5 db = Some (w, db') \<and> bw_failed w = (\<not> good)"
proof -
  let ?h = "journal_header (tracks st) systemTime" and ?s = "stream (tracks st) rs []"
  obtain f1 where f1: "file_open e True ModeWrite key salt f = Some (f1, Success)" "file_view e block contents key f1 [] (length ([] :: byte_list))"
    "writable (fl_data f1)" using file_create [OF r key] by auto
  have h: "length ?h mod kBlockSize = 0" "length ([] :: byte_list) + length ?h + 116 < 2 ^ 63" by (simp_all add: kBlockSize_def)
  obtain f2 enc where f2: "file_write e ?h f1 = Some (f2, True, enc)" "file_view e block contents key f2 ([] @ ?h) (length ([] @ ?h))"
    "writable (fl_data f2)" using file_view_append [OF r f1(2,3) h] .
  have "length ([] @ ?h) + length ?s + 116 < 2 ^ 63" using short by simp
  from write_records_ok [OF r f2(2,3) rs this] obtain f3 where
    f3: "write_records e (tracks st) rs f2 = Some (f3, True)" "file_view e block contents key f3 (?h @ ?s) (length (?h @ ?s))" by auto
  from f3(2) obtain c where c: "header_ok e block key c (contents (fl_data f3))" "?h @ ?s = file_plain block c (contents (fl_data f3))"
    "length (contents (fl_data f3)) < 2 ^ 63" unfolding file_view_def by blast
  have closed: "contents (fl_data (file_close e f3)) = contents (fl_data f3)" using disk_open(2) [OF r] by (simp add: file_close_def)
  obtain f4 where f4: "file_open e True ModeReadAppend key salt' (file_close e f3) = Some (f4, Success)"
    "file_view e block contents key f4 (?h @ ?s) 0"
    using file_reopen [OF r, of key c "file_close e f3" ModeReadAppend True] c unfolding closed by metis
  obtain f5 where f5: "ReadHeader e st f4 = Some (f5, Some (journal_header (tracks st) systemTime))" "file_view e block contents key f5 (?h @ ?s) 16"
    using ReadHeader_ok [OF r f4(2)] .
  from run obtain left where left: "run_records handle_record rs db = Some (db', left)" "good = (left = [])"
    by (auto simp: handle_records_run)
  have "torn st []" by (simp add: torn_def)
  from journal_read [OF r st f5(2) journal_header_length rs this left(1)] obtain w where
    "read_journal e handle_record st f5 db = Some (w, db')" "bw_failed w = (left \<noteq> [] \<or> ReadRecordSize st [] = kRecordSizeInvalid)"
    by blast
  then have "read_journal e handle_record st f5 db = Some (w, db')" "bw_failed w = (\<not> good)"
    using left(2) by (simp_all add: ReadRecordSize_def kRecordSizeUnknown_def kRecordSizeInvalid_def)
  with f1(1) f2(1) f3(1) f4(1) f5(1) show ?thesis by blast
qed

text \<open>A journal of one record in the file in memory.\<close>

definition sample_settings_plain :: cache_settings where
  "sample_settings_plain = default_settings\<lparr>st_trackEstimatedTime := False\<rparr>"

definition sample_store :: store where
  "sample_store = empty_store\<lparr>sr_size := [3, 0, 0], sr_key := Key 1 2\<rparr>"

definition sample_journal_db :: database where
  "sample_journal_db = fresh_database sample_settings_plain ''base/'' []"

lemma sample_journal_settings:
  "CheckSettings sample_settings_plain" "st_readBlockSize sample_settings_plain mod 16 = 0" "tracks sample_settings_plain = False"
  "list_all (record_plain sample_settings_plain) [StoreRecord sample_store]"
  by (simp_all add: CheckSettings_def sample_settings_plain_def default_settings_def part_size_def record_plain_def store_plain_def
      sample_store_def empty_store_def kBundledRecordsLimit_def)

lemma sample_journal_handled:
  obtains db' where "handle_records [StoreRecord sample_store] sample_journal_db = Some (db', True)" "db_totalSize db' = 3"
proof -
  have "store_getSize sample_store = 3"
    using ReadFrom_pack [of 3 3] by (simp add: store_getSize_def sample_store_def numeral_3_eq_3)
  then show thesis using that
    by (simp add: handle_record_def processRecordStore_def setMapEntry_def updateStats_def count_minimal_def sample_journal_db_def
        fresh_database_def sample_settings_plain_def default_settings_def kDataSizeLimit_def sample_store_def empty_store_def empty_entry_def Let_def no_time_def
        getRelative_def)
qed

theorem journal_roundtrip_witness:
  "\<exists>f1 f2 enc f3 f4 f5 w db'. file_open mem_env True ModeWrite [1] (replicate 64 5) new_mem_file = Some (f1, Success)
    \<and> file_write mem_env (journal_header False 1000) f1 = Some (f2, True, enc)
    \<and> write_records mem_env False [StoreRecord sample_store] f2 = Some (f3, True)
    \<and> file_open mem_env True ModeReadAppend [1] [] (file_close mem_env f3) = Some (f4, Success)
    \<and> ReadHeader mem_env sample_settings_plain f4 = Some (f5, Some (journal_header False 1000))
    \<and> read_journal mem_env handle_record sample_settings_plain f5 sample_journal_db = Some (w, db') \<and> db_totalSize db' = 3"
proof -
  obtain db' where db': "handle_records [StoreRecord sample_store] sample_journal_db = Some (db', True)" "db_totalSize db' = 3"
    by (rule sample_journal_handled)
  have "length (stream (tracks sample_settings_plain) [StoreRecord sample_store] []) + 132 < 2 ^ 63"
    by (simp add: stream_def record_bytes_def record_head_def record_parts_def store_bytes_def sample_store_def empty_store_def
        sample_journal_settings)
  from journal_roundtrip [OF mem_reliable _ _ sample_journal_settings(1,2,4) this db'(1), of "[1]" "replicate 64 5" new_mem_file 1000 "[]"] db'(2)
  show ?thesis by (auto simp: kSaltSize_def sample_journal_settings(3))
qed


end
