(* ===== verification/CacheJournal.thy ===== *)
theory CacheJournal
  imports CacheDatabase
begin

text \<open>
  The journal and the map of the cache database agree: replaying the records written so far gives the
  map in memory, apart from removals that wait to be written. The operations keep this and the exact
  statistics, and none of their assertions fails.
\<close>

section \<open>The invariant\<close>

abbreviation track :: "database \<Rightarrow> bool" where "track db \<equiv> st_trackEstimatedTime (db_settings db)"

definition header_time :: "database \<Rightarrow> u64" where
  "header_time db = (case db_header db of Some h \<Rightarrow> ucast h | None \<Rightarrow> 0)"

definition journal_map :: "database \<Rightarrow> (cache_key \<rightharpoonup> entry)" where
  "journal_map db = fold (replay_record (track db) (header_time db)) (db_binlog db) Map.empty"

text \<open>What a reader of the journal would see once the waiting removals are written.\<close>

definition visible :: "database \<Rightarrow> (cache_key \<rightharpoonup> entry)" where
  "visible db k = (if k \<in> db_removing db then None else journal_map db k)"

definition journal_inv :: "cache_key set \<Rightarrow> database \<Rightarrow> bool" where
  "journal_inv K db \<longleftrightarrow> stats_ok db \<and> checkSettings (db_settings db)
     \<and> finite (db_removing db) \<and> finite (db_accessed db)
     \<and> (\<not> track db \<longrightarrow> getRelative (db_time db) = header_time db \<and> db_accessed db = {})
     \<and> (db_open db \<longrightarrow> db_header db \<noteq> None \<and> list_all (record_ok (db_settings db)) (db_binlog db)
         \<and> (\<forall>k. k \<notin> K \<longrightarrow> db_map db k = visible db k))"

definition bundles_ok :: "database \<Rightarrow> bool" where
  "bundles_ok db \<longleftrightarrow> card (db_removing db) < st_maxBundledRecords (db_settings db)
     \<and> card (db_accessed db) < st_maxBundledRecords (db_settings db)"

abbreviation db_ok :: "database \<Rightarrow> bool" where "db_ok db \<equiv> journal_inv {} db \<and> bundles_ok db"

lemma journal_map_cong:
  "db_settings db' = db_settings db \<Longrightarrow> db_header db' = db_header db \<Longrightarrow> db_binlog db' = db_binlog db \<Longrightarrow>
    journal_map db' = journal_map db"
  by (simp add: journal_map_def header_time_def)

lemma journal_map_append:
  "journal_map (db\<lparr>db_binlog := db_binlog db @ [r]\<rparr>) = replay_record (track db) (header_time db) r (journal_map db)"
  by (simp add: journal_map_def header_time_def)

text \<open>Fields the invariant does not look at.\<close>

lemma journal_inv_other [simp]:
  "journal_inv K (db\<lparr>db_files := f\<rparr>) = journal_inv K db"
  "journal_inv K (db\<lparr>db_stale := s\<rparr>) = journal_inv K db"
  "journal_inv K (db\<lparr>db_excess := x\<rparr>) = journal_inv K db"
  "journal_inv K (db\<lparr>db_bundlesTimer := t\<rparr>) = journal_inv K db"
  "journal_inv K (db\<lparr>db_pruneTimer := t\<rparr>) = journal_inv K db"
  "journal_inv K (db\<lparr>db_compactor := c\<rparr>) = journal_inv K db"
  "journal_inv K (db\<lparr>db_nextAttempt := n\<rparr>) = journal_inv K db"
  "journal_inv K (db\<lparr>db_delayAfterFailure := n\<rparr>) = journal_inv K db"
  "journal_inv K (db\<lparr>db_clearingStale := b\<rparr>) = journal_inv K db"
  by (simp_all add: journal_inv_def visible_def journal_map_def header_time_def stats_ok_def)

lemma bundles_ok_other [simp]:
  "bundles_ok (db\<lparr>db_files := f\<rparr>) = bundles_ok db"
  "bundles_ok (db\<lparr>db_stale := s\<rparr>) = bundles_ok db"
  "bundles_ok (db\<lparr>db_excess := x\<rparr>) = bundles_ok db"
  "bundles_ok (db\<lparr>db_bundlesTimer := t\<rparr>) = bundles_ok db"
  "bundles_ok (db\<lparr>db_pruneTimer := t\<rparr>) = bundles_ok db"
  "bundles_ok (db\<lparr>db_compactor := c\<rparr>) = bundles_ok db"
  "bundles_ok (db\<lparr>db_clearingStale := b\<rparr>) = bundles_ok db"
  "bundles_ok (db\<lparr>db_open := b\<rparr>) = bundles_ok db"
  "bundles_ok (db\<lparr>db_map := m\<rparr>) = bundles_ok db"
  "bundles_ok (db\<lparr>db_binlog := r\<rparr>) = bundles_ok db"
  by (simp_all add: bundles_ok_def)

lemma journal_inv_closed: "journal_inv K db \<Longrightarrow> journal_inv K' (db\<lparr>db_open := False\<rparr>)"
  by (simp add: journal_inv_def header_time_def stats_ok_def)

lemma remove_file_inv [simp]:
  "journal_inv K (remove_file p e db) = journal_inv K db" "bundles_ok (remove_file p e db) = bundles_ok db"
  "db_settings (remove_file p e db) = db_settings db" "db_map (remove_file p e db) = db_map db"
  "db_open (remove_file p e db) = db_open db"
  by (simp_all add: remove_file_def)

lemma writeBundlesLazy_inv [simp]:
  "journal_inv K (writeBundlesLazy e db) = journal_inv K db" "bundles_ok (writeBundlesLazy e db) = bundles_ok db"
  by (simp_all add: writeBundlesLazy_def)

lemma startDelayedPruning_timer: "\<exists>t. fst (startDelayedPruning e db) = db\<lparr>db_pruneTimer := t\<rparr>"
proof -
  define P where "P x \<longleftrightarrow> (\<exists>t. fst x = db\<lparr>db_pruneTimer := t\<rparr>)" for x :: "database \<times> bool"
  have P: "P (db, b)" "P (db\<lparr>db_pruneTimer := t\<rparr>, b)" for t b
    unfolding P_def by (rule exI [of _ "db_pruneTimer db"], simp) (rule exI [of _ t], simp)
  have "P (startDelayedPruning e db)"
    unfolding startDelayedPruning_def Let_def by (simp add: P split: option.split)
  then show ?thesis by (simp add: P_def)
qed

lemma checkCompactor_field: "\<exists>c. checkCompactor e db = db\<lparr>db_compactor := c\<rparr>"
proof -
  define P where "P x \<longleftrightarrow> (\<exists>c. x = db\<lparr>db_compactor := c\<rparr>)" for x
  have P: "P db" "P (db\<lparr>db_compactor := c\<rparr>)" for c
    unfolding P_def by (rule exI [of _ "db_compactor db"], simp) (rule exI [of _ c], simp)
  have "P (checkCompactor e db)" unfolding checkCompactor_def Let_def by (simp add: P)
  then show ?thesis by (simp add: P_def)
qed

lemma optimize_fields:
  obtains t c where "optimize e db = db\<lparr>db_pruneTimer := t, db_compactor := c\<rparr>"
proof -
  obtain t where t: "fst (startDelayedPruning e db) = db\<lparr>db_pruneTimer := t\<rparr>" using startDelayedPruning_timer by blast
  have o: "optimize e db = (if snd (startDelayedPruning e db) then db\<lparr>db_pruneTimer := t\<rparr> else checkCompactor e (db\<lparr>db_pruneTimer := t\<rparr>))"
    by (simp add: optimize_def case_prod_beta t)
  obtain c where c: "checkCompactor e (db\<lparr>db_pruneTimer := t\<rparr>) = db\<lparr>db_pruneTimer := t, db_compactor := c\<rparr>"
    using checkCompactor_field by blast
  have same: "db\<lparr>db_pruneTimer := t\<rparr> = db\<lparr>db_pruneTimer := t, db_compactor := db_compactor db\<rparr>" by simp
  show thesis
  proof (cases "snd (startDelayedPruning e db)")
    case True
    with o have "optimize e db = db\<lparr>db_pruneTimer := t\<rparr>" by simp
    from trans [OF this same] show thesis by (rule that)
  next
    case False
    with o c show thesis by (intro that) simp
  qed
qed

lemma optimize_inv [simp]:
  "journal_inv K (optimize e db) = journal_inv K db" "bundles_ok (optimize e db) = bundles_ok db"
  "db_map (optimize e db) = db_map db" "db_stale (optimize e db) = db_stale db" "db_open (optimize e db) = db_open db"
  "db_settings (optimize e db) = db_settings db" "db_files (optimize e db) = db_files db"
  "db_removing (optimize e db) = db_removing db" "db_binlog (optimize e db) = db_binlog db"
  by (rule optimize_fields [of e db], simp)+

section \<open>Writing bundles\<close>

lemma multi_count_bound: "checkSettings st \<Longrightarrow> n \<le> st_maxBundledRecords st \<Longrightarrow> multi_count_ok n"
  by (simp add: checkSettings_def multi_count_ok_def)

lemma writeMultiRemove_cases:
  assumes "checkSettings (db_settings db)" "card (db_removing db) \<le> st_maxBundledRecords (db_settings db)"
  obtains (empty) "db_removing db = {}" "writeMultiRemove e db = Some (db, NoError)"
  | (written) "db_removing db \<noteq> {}" "db_open db" "writeMultiRemove e db = Some (db\<lparr>db_removing := {},
      db_binlog := db_binlog db @ [MultiRemove (sorted_list_of_set (db_removing db))],
      db_excess := db_excess db + (16 + 16 * int (length (sorted_list_of_set (db_removing db))))\<rparr>, NoError)"
  | (lost) "writeMultiRemove e db = Some (db\<lparr>db_removing := {}, db_open := False\<rparr>, IOError (binlogPath db))"
  using assms multi_count_bound [OF assms]
  by (cases "db_removing db = {}"; cases "db_open db \<and> ev_binlog_ok e")
    (simp_all add: writeMultiRemove_def binlog_write_def Let_def binlogPath_def)

lemma record_ok_MultiRemove:
  "finite R \<Longrightarrow> R \<noteq> {} \<Longrightarrow> card R \<le> st_maxBundledRecords st \<Longrightarrow> record_ok st (MultiRemove (sorted_list_of_set R))"
  by (simp add: record_ok_def)

lemma writeMultiRemove_ok:
  assumes "journal_inv K db" "card (db_removing db) \<le> st_maxBundledRecords (db_settings db)"
  shows "\<exists>db' error. writeMultiRemove e db = Some (db', error) \<and> journal_inv K db' \<and> db_removing db' = {}
    \<and> db_map db' = db_map db \<and> db_accessed db' = db_accessed db \<and> db_settings db' = db_settings db
    \<and> db_files db' = db_files db \<and> db_stale db' = db_stale db \<and> db_time db' = db_time db
    \<and> (db_open db' \<longrightarrow> db_open db \<and> visible db' = visible db) \<and> (error \<noteq> NoError \<longrightarrow> \<not> db_open db')"
proof -
  have cs: "checkSettings (db_settings db)" using assms(1) by (simp add: journal_inv_def)
  show ?thesis
  proof (cases rule: writeMultiRemove_cases [OF cs assms(2), of e])
    case 1
    then show ?thesis using assms(1) by simp
  next
    case written: 2
    let ?keys = "sorted_list_of_set (db_removing db)"
    let ?db' = "db\<lparr>db_removing := {}, db_binlog := db_binlog db @ [MultiRemove ?keys],
      db_excess := db_excess db + (16 + 16 * int (length ?keys))\<rparr>"
    have fin: "finite (db_removing db)" using assms(1) by (simp add: journal_inv_def)
    have "visible ?db' = visible db"
      using fin by (auto simp: visible_def journal_map_def header_time_def replay_record_def restrict_map_def fun_eq_iff)
    moreover have "record_ok (db_settings db) (MultiRemove ?keys)"
      using record_ok_MultiRemove [OF fin written(1) assms(2)] .
    ultimately have "journal_inv K ?db'"
      using assms(1) written(2) by (simp add: journal_inv_def header_time_def stats_ok_def)
    with written(3) \<open>visible ?db' = visible db\<close> show ?thesis by (simp add: written(2))
  next
    case lost: 3
    have "journal_inv K (db\<lparr>db_removing := {}, db_open := False\<rparr>)"
      using assms(1) by (simp add: journal_inv_def header_time_def stats_ok_def)
    with lost show ?thesis by simp
  qed
qed

lemma writeMultiAccessBlock_cases:
  assumes "checkSettings (db_settings db)" "track db" "card (db_accessed db) \<le> st_maxBundledRecords (db_settings db)"
    and time: "time = countTimePoint (ev_time e) db" and keys: "keys = sorted_list_of_set (db_accessed db)"
  obtains (written) "db_open db" "writeMultiAccessBlock e db = Some (db\<lparr>db_accessed := {}, db_time := time,
      db_map := touch_keys (getRelative time) keys (db_map db), db_binlog := db_binlog db @ [MultiAccess time keys],
      db_excess := db_excess db + (16 + 16 * int (length keys))\<rparr>, NoError)"
  | (lost) error where "writeMultiAccessBlock e db = Some (db\<lparr>db_accessed := {}, db_time := time,
      db_map := touch_keys (getRelative time) keys (db_map db), db_open := False\<rparr>, error)" "error \<noteq> NoError"
  using assms multi_count_bound [OF assms(1,3)]
  by (cases "db_open db \<and> ev_binlog_ok e") (simp_all add: writeMultiAccessBlock_def binlog_write_def Let_def binlogPath_def)

lemma writeMultiAccessBlock_ok:
  assumes "journal_inv {} db" "track db" "card (db_accessed db) \<le> st_maxBundledRecords (db_settings db)"
  shows "\<exists>db' error. writeMultiAccessBlock e db = Some (db', error) \<and> journal_inv {} db' \<and> db_accessed db' = {}
    \<and> db_map db' = touch_keys (getRelative (db_time db')) (sorted_list_of_set (db_accessed db)) (db_map db)
    \<and> db_removing db' = db_removing db \<and> db_settings db' = db_settings db
    \<and> db_files db' = db_files db \<and> db_stale db' = db_stale db \<and> (db_open db' \<longrightarrow> db_open db)
    \<and> (error \<noteq> NoError \<longrightarrow> \<not> db_open db')"
proof -
  define time where "time = countTimePoint (ev_time e) db"
  define keys where "keys = sorted_list_of_set (db_accessed db)"
  have cs: "checkSettings (db_settings db)" and st: "stats_ok db" using assms(1) by (simp_all add: journal_inv_def)
  have touched: "stats_ok (db\<lparr>db_map := touch_keys (getRelative time) keys (db_map db)\<rparr>)" by (rule stats_ok_touch [OF st])
  show ?thesis
  proof (cases rule: writeMultiAccessBlock_cases [OF cs assms(2,3) time_def keys_def])
    case written: 1
    let ?db' = "db\<lparr>db_accessed := {}, db_time := time, db_map := touch_keys (getRelative time) keys (db_map db),
      db_binlog := db_binlog db @ [MultiAccess time keys], db_excess := db_excess db + (16 + 16 * int (length keys))\<rparr>"
    have "record_ok (db_settings db) (MultiAccess time keys)"
      using assms(2,3) by (simp add: record_ok_def keys_def)
    moreover have "db_map ?db' = visible ?db'"
      using assms(1) written(1)
      by (auto simp: journal_inv_def visible_def journal_map_def header_time_def replay_record_def touch_keys_apply fun_eq_iff)
    ultimately have "journal_inv {} ?db'"
      using assms(1,2) written(1) touched by (auto simp: journal_inv_def stats_ok_def)
    with written show ?thesis by (simp add: keys_def)
  next
    case lost: (2 error)
    have "journal_inv {} (db\<lparr>db_accessed := {}, db_time := time, db_map := touch_keys (getRelative time) keys (db_map db), db_open := False\<rparr>)"
      using assms(1,2) touched by (auto simp: journal_inv_def stats_ok_def)
    with lost show ?thesis by (simp add: keys_def)
  qed
qed

lemma recordEntryAccess_ok:
  assumes "db_ok db"
  shows "\<exists>db'. recordEntryAccess key e db = Some db' \<and> db_ok db' \<and> dom (db_map db') = dom (db_map db)
    \<and> (\<forall>k. map_option (\<lambda>x. x\<lparr>en_useTime := 0\<rparr>) (db_map db' k) = map_option (\<lambda>x. x\<lparr>en_useTime := 0\<rparr>) (db_map db k))
    \<and> db_settings db' = db_settings db \<and> db_files db' = db_files db \<and> db_stale db' = db_stale db
    \<and> (db_open db' \<longrightarrow> db_open db)"
proof (cases "track db")
  case False
  with assms show ?thesis by (simp add: recordEntryAccess_def)
next
  case True
  let ?db = "db\<lparr>db_accessed := insert key (db_accessed db)\<rparr>"
  have inv: "journal_inv {} ?db"
    using assms True by (simp add: journal_inv_def visible_def journal_map_def header_time_def stats_ok_def)
  have fin: "finite (db_accessed db)" using assms by (simp add: journal_inv_def)
  have le: "card (db_accessed ?db) \<le> st_maxBundledRecords (db_settings ?db)"
    using assms fin by (simp add: bundles_ok_def card_insert_if)
  have pos: "0 < st_maxBundledRecords (db_settings db)" using assms by (simp add: journal_inv_def checkSettings_def)
  show ?thesis
  proof (cases "card (db_accessed ?db) = st_maxBundledRecords (db_settings db)")
    case c: True
    obtain db' error where 1: "writeMultiAccessBlock e ?db = Some (db', error)" "journal_inv {} db'" "db_accessed db' = {}"
      "db_map db' = touch_keys (getRelative (db_time db')) (sorted_list_of_set (db_accessed ?db)) (db_map db)"
      "db_removing db' = db_removing db" "db_settings db' = db_settings db" "db_files db' = db_files db"
      "db_stale db' = db_stale db" "db_open db' \<longrightarrow> db_open db"
      using writeMultiAccessBlock_ok [OF inv _ le, of e] True by auto
    have "recordEntryAccess key e db = Some (optimize e db')"
      using True c 1(1) by (simp add: recordEntryAccess_def writeMultiAccessLazy_def writeMultiAccess_def)
    moreover have "bundles_ok db'" using assms 1(3,5,6) pos by (simp add: bundles_ok_def)
    moreover have "dom (db_map db') = dom (db_map db)"
      "map_option (\<lambda>x. x\<lparr>en_useTime := 0\<rparr>) (db_map db' k) = map_option (\<lambda>x. x\<lparr>en_useTime := 0\<rparr>) (db_map db k)" for k
      unfolding 1(4) by (auto simp: touch_keys_apply dom_def option.map_comp intro!: option.map_cong)
    ultimately show ?thesis using 1 by simp
  next
    case False
    then have "recordEntryAccess key e db = Some (optimize e (writeBundlesLazy e ?db))"
      using True by (simp add: recordEntryAccess_def writeMultiAccessLazy_def)
    moreover have "bundles_ok ?db" using assms le False by (simp add: bundles_ok_def)
    ultimately show ?thesis using inv by (simp add: writeBundlesLazy_def)
  qed
qed

section \<open>Removing and storing\<close>

lemma frame_views:
  assumes "frame db' = frame db"
  shows "journal_map db' = journal_map db" "visible db' = visible db" "bundles_ok db' = bundles_ok db"
    "header_time db' = header_time db"
  by (simp_all add: journal_map_def visible_def bundles_ok_def header_time_def fun_eq_iff frame_fields [OF assms])

lemma journal_inv_frame:
  assumes "journal_inv K db" "frame db' = frame db" "stats_ok db'"
    and "\<And>k. db_open db \<Longrightarrow> k \<notin> K' \<Longrightarrow> db_map db' k = visible db k"
  shows "journal_inv K' db'"
  using assms(1,3,4) frame_views [OF assms(2)]
  by (simp add: journal_inv_def frame_fields [OF assms(2)])

lemma eraseMapEntry_inv:
  assumes "journal_inv {key} db" "db_open db \<Longrightarrow> visible db key = None"
  shows "\<exists>db'. eraseMapEntry key db = Some db' \<and> journal_inv {} db' \<and> frame db' = frame db
    \<and> db_map db' = (db_map db)(key := None)"
proof -
  have "stats_ok db" using assms(1) by (simp add: journal_inv_def)
  from eraseMapEntry_ok [OF this, of key] obtain db' where
    1: "eraseMapEntry key db = Some db'" "stats_ok db'" "frame db' = frame db" "db_map db' = (db_map db)(key := None)" by blast
  have "journal_inv {} db'"
    by (rule journal_inv_frame [OF assms(1) 1(3,2)]) (use assms 1(4) in \<open>auto simp: journal_inv_def\<close>)
  with 1 show ?thesis by blast
qed

lemma removing_insert_inv:
  assumes "journal_inv K db"
  shows "journal_inv (insert key K) (db\<lparr>db_removing := insert key (db_removing db)\<rparr>)"
    "visible (db\<lparr>db_removing := insert key (db_removing db)\<rparr>) key = None"
  using assms by (simp_all add: journal_inv_def visible_def journal_map_def header_time_def stats_ok_def)

lemma writeMultiRemoveLazy_ok:
  assumes "journal_inv K db" "card (db_removing db) \<le> st_maxBundledRecords (db_settings db)"
    "card (db_accessed db) < st_maxBundledRecords (db_settings db)"
  shows "\<exists>db'. writeMultiRemoveLazy e db = Some db' \<and> journal_inv K db' \<and> bundles_ok db'
    \<and> db_map db' = db_map db \<and> db_settings db' = db_settings db \<and> db_files db' = db_files db \<and> db_stale db' = db_stale db
    \<and> (db_open db' \<longrightarrow> db_open db \<and> visible db' = visible db) \<and> (db_open db \<and> ev_binlog_ok e \<longrightarrow> db_open db')"
proof (cases "card (db_removing db) = st_maxBundledRecords (db_settings db)")
  case True
  have pos: "0 < st_maxBundledRecords (db_settings db)" using assms(3) by simp
  from writeMultiRemove_ok [OF assms(1,2), of e] obtain db' error where
    1: "writeMultiRemove e db = Some (db', error)" "journal_inv K db'" "db_removing db' = {}" "db_map db' = db_map db"
      "db_accessed db' = db_accessed db" "db_settings db' = db_settings db" "db_files db' = db_files db"
      "db_stale db' = db_stale db" "db_open db' \<longrightarrow> db_open db \<and> visible db' = visible db" by blast
  have "db_open db \<and> ev_binlog_ok e \<longrightarrow> db_open db'"
    using 1(1) by (auto simp: writeMultiRemove_def binlog_write_def Let_def split: if_splits)
  with 1 True pos assms(3) show ?thesis by (simp add: writeMultiRemoveLazy_def bundles_ok_def)
next
  case False
  have "visible (writeBundlesLazy e db) = visible db"
    by (simp add: writeBundlesLazy_def visible_def journal_map_def header_time_def fun_eq_iff)
  moreover have "bundles_ok db" using assms False by (simp add: bundles_ok_def)
  ultimately show ?thesis using assms(1) False
    by (simp add: writeMultiRemoveLazy_def) (simp add: writeBundlesLazy_def)
qed

lemma db_remove_ok:
  assumes "db_ok db"
  shows "\<exists>db' error. db_remove key e db = Some (db', error) \<and> db_ok db'
    \<and> db_map db' = (if db_open db then (db_map db)(key := None) else db_map db)
    \<and> db_settings db' = db_settings db \<and> db_stale db' = db_stale db
    \<and> (\<forall>p. (\<forall>x. db_map db key = Some x \<longrightarrow> p \<noteq> en_place x) \<longrightarrow> db_files db' p = db_files db p)
    \<and> (db_open db' \<longrightarrow> db_open db) \<and> (db_open db \<and> ev_binlog_ok e \<longrightarrow> db_open db')"
proof (cases "db_open db \<and> db_map db key \<noteq> None")
  case False
  with assms show ?thesis by (auto simp: db_remove_def)
next
  case True
  then obtain x where x: "db_map db key = Some x" and o: "db_open db" by auto
  let ?db = "db\<lparr>db_removing := insert key (db_removing db)\<rparr>"
  note inv = removing_insert_inv [of "{}" db key]
  have fin: "finite (db_removing db)" using assms by (simp add: journal_inv_def)
  have "card (db_removing ?db) \<le> st_maxBundledRecords (db_settings ?db)"
    "card (db_accessed ?db) < st_maxBundledRecords (db_settings ?db)"
    using assms fin by (simp_all add: bundles_ok_def card_insert_if)
  with writeMultiRemoveLazy_ok [of "{key}" ?db e] inv assms obtain db1 where
    1: "writeMultiRemoveLazy e ?db = Some db1" "journal_inv {key} db1" "bundles_ok db1" "db_map db1 = db_map db"
      "db_settings db1 = db_settings db" "db_files db1 = db_files db" "db_stale db1 = db_stale db"
      "db_open db1 \<longrightarrow> visible db1 = visible ?db" "ev_binlog_ok e \<longrightarrow> db_open db1" using o by auto
  have "db_open db1 \<Longrightarrow> visible db1 key = None" using 1(8) inv(2) assms by simp
  from eraseMapEntry_inv [OF 1(2) this] obtain db2 where
    2: "eraseMapEntry key db1 = Some db2" "journal_inv {} db2" "frame db2 = frame db1" "db_map db2 = (db_map db1)(key := None)"
    by blast
  note f = frame_fields [OF 2(3)]
  let ?db3 = "remove_file (en_place x) e db2"
  have "\<exists>error. db_remove key e db = Some (?db3, error)"
    using x o 1(1) 2(1) by (simp add: db_remove_def Let_def)
  moreover have "db_stale ?db3 = db_stale db" "p \<noteq> en_place x \<longrightarrow> db_files ?db3 p = db_files db p" for p
    using 1(6,7) f by (simp_all add: remove_file_def)
  ultimately show ?thesis
    using 1 2 x o f frame_views(3) [OF 2(3)] by auto
qed

lemma replayed_fields:
  assumes "replayed db db'"
  shows "db_settings db' = db_settings db" "db_open db' = db_open db" "db_header db' = db_header db"
    "db_binlog db' = db_binlog db" "db_files db' = db_files db" "db_removing db' = db_removing db"
    "db_accessed db' = db_accessed db" "db_stale db' = db_stale db" "db_path db' = db_path db" "db_base db' = db_base db"
proof -
  have "frame (db'\<lparr>db_time := no_time\<rparr>) = frame (db\<lparr>db_time := no_time\<rparr>)" using assms by (simp add: replayed_def)
  note frame_fields [OF this]
  then show "db_settings db' = db_settings db" "db_open db' = db_open db" "db_header db' = db_header db"
    "db_binlog db' = db_binlog db" "db_files db' = db_files db" "db_removing db' = db_removing db"
    "db_accessed db' = db_accessed db" "db_stale db' = db_stale db" "db_path db' = db_path db" "db_base db' = db_base db"
    by simp_all
qed

lemma write_store_ok:
  assumes inv: "journal_inv {sr_key r} db" "bundles_ok db" "sr_key r \<notin> db_removing db" and r: "store_ok (db_settings db) r"
  shows "\<exists>db' error. write_store r e db = Some (db', error) \<and> db_ok db' \<and> db_settings db' = db_settings db
    \<and> db_files db' = db_files db \<and> db_stale db' = db_stale db
    \<and> (if db_open db \<and> ev_binlog_ok e
       then error = NoError \<and> db_open db' \<and> db_map db' = (db_map db)(sr_key r \<mapsto> entry_of (track db) (getRelative (db_time db)) r)
       else error \<noteq> NoError \<and> \<not> db_open db' \<and> db_map db' = db_map db)"
proof (cases "db_open db \<and> ev_binlog_ok e")
  case False
  then have "write_store r e db = Some (db\<lparr>db_open := False\<rparr>, IOError (binlogPath db))"
    by (auto simp: write_store_def binlog_write_def)
  moreover have "journal_inv {} (db\<lparr>db_open := False\<rparr>)" using inv(1) by (rule journal_inv_closed)
  ultimately show ?thesis using False inv(2) by simp
next
  case True
  let ?db1 = "db\<lparr>db_binlog := db_binlog db @ [StoreRecord r]\<rparr>"
  let ?e = "entry_of (track db) (getRelative (db_time db)) r"
  have "stats_ok ?db1" using inv(1) by (simp add: journal_inv_def stats_ok_def)
  from processRecordStore_ok [OF this, of r] r obtain db2 where
    2: "processRecordStore r ?db1 = Some (db2, True)" "replayed ?db1 db2" "db_map db2 = (db_map db)(sr_key r \<mapsto> ?e)"
    by (auto simp: store_ok_def)
  note f = replayed_fields [OF 2(2), simplified]
  have he: "entry_of (track db) (header_time db) r = ?e"
    using inv(1) by (auto simp: journal_inv_def entry_of_def)
  have vis: "visible db2 = (visible db)(sr_key r \<mapsto> ?e)"
    using inv(3) he f
    by (auto simp: visible_def journal_map_def header_time_def replay_record_def fun_eq_iff)
  have "journal_inv {} db2"
    using inv(1) r 2 f vis True
    by (auto simp: journal_inv_def record_ok_def header_time_def replayed_def)
  moreover have "write_store r e db = Some (db2, NoError)" using True 2(1) by (simp add: write_store_def binlog_write_def)
  moreover have "bundles_ok db2" using inv(2) f by (simp add: bundles_ok_def)
  ultimately show ?thesis using True 2(3) f by simp
qed

text \<open>The clock stays in range: adding the elapsed seconds to the relative time does not overflow.\<close>

definition time_ok :: "cache_env \<Rightarrow> database \<Rightarrow> bool" where
  "time_ok e db \<longleftrightarrow>
     uint (getRelative (db_time db)) + max (GetUnixtime (ev_time e) - uint (tp_system (db_time db))) 0 < 2 ^ 64"

lemma countTimePoint_later:
  assumes "time_ok e db"
  shows "getRelative (db_time db) \<le> getRelative (countTimePoint (ev_time e) db)"
proof -
  let ?d = "max (GetUnixtime (ev_time e) - uint (tp_system (db_time db))) 0"
  have d: "0 \<le> ?d" "?d < 2 ^ 64" using assms uint_ge_0 [of "getRelative (db_time db)"] unfolding time_ok_def by linarith+
  have "uint (word_of_int ?d :: u64) = ?d" using d by (simp add: uint_word_of_int_eq take_bit_int_eq_self)
  then have "uint (getRelative (db_time db) + word_of_int ?d) = uint (getRelative (db_time db)) + ?d"
    using assms by (simp add: time_ok_def uint_plus_simple_iff [symmetric] uint_word_ariths)
  with d show ?thesis by (simp add: countTimePoint_def Let_def word_le_def)
qed

lemma record_base_some: "time_ok e db \<Longrightarrow> \<exists>t. record_base e db = Some (empty_store\<lparr>sr_time := t\<rparr>)"
  using countTimePoint_later [of e db]
  by (auto simp: record_base_def time_to_write_def Let_def empty_store_def)

lemma store_setSize_some:
  assumes "0 < sz" "sz \<le> st_maxDataSize st" "checkSettings st"
  shows "\<exists>packed. store_setSize sz r = Some (r\<lparr>sr_size := packed\<rparr>) \<and> ReadFrom packed = sz \<and> length packed = 3"
proof -
  have "ReadTo 3 sz = Some (pack_bytes 3 sz)" using assms by (simp add: ReadTo_def checkSettings_def kDataSizeLimit_def)
  with ReadFrom_ReadTo [OF this] show ?thesis
    by (intro exI [of _ "pack_bytes 3 sz"]) (simp add: store_setSize_def)
qed

text \<open>What an entry written for a value looks like.\<close>

definition entry_for :: "place_id \<Rightarrow> byte_list \<times> u8 \<Rightarrow> u32 \<Rightarrow> entry \<Rightarrow> bool" where
  "entry_for place val checksum x \<longleftrightarrow> en_place x = place \<and> en_size x = int (length (fst val))
     \<and> en_checksum x = checksum \<and> en_tag x = snd val"

lemma writeKeyPlace_ok:
  assumes inv: "journal_inv {key} db" "bundles_ok db" "key \<notin> db_removing db" "time_ok e db"
    and val: "fst val \<noteq> []" "int (length (fst val)) \<le> st_maxDataSize (db_settings db)" "length place = 7"
  shows "\<exists>db' error. writeKeyPlace key place val checksum e db = Some (db', error) \<and> db_ok db'
    \<and> db_settings db' = db_settings db \<and> db_files db' = db_files db \<and> db_stale db' = db_stale db
    \<and> (if db_open db \<and> ev_binlog_ok e
       then error = NoError \<and> db_open db' \<and> (\<exists>x. entry_for place val checksum x \<and> db_map db' = (db_map db)(key \<mapsto> x))
       else error \<noteq> NoError \<and> \<not> db_open db' \<and> db_map db' = db_map db)"
proof -
  have cs: "checkSettings (db_settings db)" using inv(1) by (simp add: journal_inv_def)
  obtain t where base: "record_base e db = Some (empty_store\<lparr>sr_time := t\<rparr>)" using record_base_some [OF inv(4)] by blast
  let ?base = "empty_store\<lparr>sr_time := t, sr_tag := snd val, sr_key := key\<rparr>"
  obtain packed where p: "store_setSize (int (length (fst val))) ?base = Some (?base\<lparr>sr_size := packed\<rparr>)"
    "ReadFrom packed = int (length (fst val))" "length packed = 3"
    using store_setSize_some [OF _ val(2) cs, of ?base] val(1) by auto
  let ?r = "?base\<lparr>sr_size := packed, sr_checksum := checksum, sr_place := place\<rparr>"
  have call: "writeKeyPlace key place val checksum e db = write_store ?r e db"
    using base p(1) val(2) by (simp add: writeKeyPlace_def)
  have ok: "store_ok (db_settings db) ?r" using p val by (simp add: store_ok_def store_getSize_def)
  have key: "sr_key ?r = key" by simp
  have "entry_for place val checksum (entry_of (track db) (getRelative (db_time db)) ?r)"
    using p by (simp add: entry_for_def entry_of_def store_getSize_def)
  with write_store_ok [of ?r db e, unfolded key, OF inv(1-3) ok] show ?thesis
    unfolding call by (metis (no_types, lifting))
qed

section \<open>Putting values\<close>

text \<open>What a call of \<open>put\<close> needs: a value within the limit, a free place among the draws, and a working file.\<close>

definition put_env :: "cache_env \<Rightarrow> byte_list \<times> u8 \<Rightarrow> database \<Rightarrow> bool" where
  "put_env e val db \<longleftrightarrow> int (length (fst val)) \<le> st_maxDataSize (db_settings db) \<and> time_ok e db
     \<and> ev_open e = Success \<and> ev_written e
     \<and> (\<exists>p \<in> set (ev_places e). isFreePlace p db) \<and> (\<forall>p \<in> set (ev_places e). length p = 7)"

definition files_ok :: "database \<Rightarrow> bool" where
  "files_ok db \<longleftrightarrow> (\<forall>k x. db_map db k = Some x \<longrightarrow> db_files db (en_place x) \<noteq> None)
     \<and> (\<forall>k k' x x'. db_map db k = Some x \<longrightarrow> db_map db k' = Some x' \<longrightarrow> en_place x = en_place x' \<longrightarrow> k = k')"

definition same_entry :: "entry \<Rightarrow> entry \<Rightarrow> bool" where
  "same_entry x y \<longleftrightarrow> x\<lparr>en_useTime := 0\<rparr> = y\<lparr>en_useTime := 0\<rparr>"

lemma draw_place_free:
  "\<exists>p \<in> set ps. isFreePlace p db \<Longrightarrow> \<exists>p \<in> set ps. draw_place ps db = Some p \<and> isFreePlace p db"
  by (induction ps) auto

lemma padded_length: "length content \<le> length (padded fill content)" "length (padded fill content) mod 16 = 0"
proof -
  show "length content \<le> length (padded fill content)" by (simp add: padded_def)
  have "(n + (16 - n mod 16) mod 16) mod 16 = 0" for n :: nat
  proof -
    have "(n + (16 - n mod 16) mod 16) mod 16 = (n mod 16 + (16 - n mod 16)) mod 16"
      by (simp only: mod_add_left_eq mod_add_right_eq)
    also have "n mod 16 + (16 - n mod 16) = 16" using mod_less_divisor [of 16 n] by linarith
    finally show ?thesis by simp
  qed
  then show "length (padded fill content) mod 16 = 0" by (simp add: padded_def)
qed

lemma readValueData_padded:
  assumes "db_files db p = Some (padded fill content)"
  shows "readValueData p (int (length content)) db = content"
proof -
  let ?n = "length content"
  have "?n \<le> length (padded fill content)" "length (padded fill content) mod 16 = 0" by (rule padded_length)+
  then have "(if ?n mod 16 = 0 then ?n - ?n mod 16 else ?n - ?n mod 16 + 16) \<le> length (padded fill content)"
  proof (cases "?n mod 16 = 0")
    case False
    obtain m where m: "length (padded fill content) = 16 * m"
      using \<open>length (padded fill content) mod 16 = 0\<close> by (auto simp: mod_eq_0_iff_dvd)
    have "?n = 16 * (?n div 16) + ?n mod 16" by simp
    with False m \<open>?n \<le> length (padded fill content)\<close> have "?n div 16 < m" by linarith
    moreover have "?n - ?n mod 16 = 16 * (?n div 16)" by (rule minus_mod_eq_mult_div)
    ultimately show ?thesis unfolding m using False by simp
  qed simp
  moreover have "take ?n (padded fill content) = content" by (simp add: padded_def)
  ultimately show ?thesis using assms by (simp add: readValueData_def Let_def)
qed

lemma journal_inv_unremove:
  assumes "journal_inv {} db"
  shows "journal_inv {key} (db\<lparr>db_removing := db_removing db - {key}\<rparr>)"
  using assms by (auto simp: journal_inv_def visible_def journal_map_def header_time_def stats_ok_def)

text \<open>A value that goes to a new place.\<close>

lemma put_store_ok:
  assumes ok: "journal_inv {key} db" "bundles_ok db" "key \<notin> db_removing db" and env: "put_env e val db" "fst val \<noteq> []"
    and p: "isFreePlace p db" "length p = 7" and change: "chooseKeyPlace key val checksum e db = Some (was, Some p)"
  shows "\<exists>db' error. (do {
       (db1, error1) \<leftarrow> writeNewEntry p (fst val) e db;
       if error1 \<noteq> NoError then Some (remove_file p e db1, error1)
       else do {
         (db2, error2) \<leftarrow> writeKeyPlace key p val checksum e db1;
         if error2 \<noteq> NoError then Some (remove_file p e db2, error2)
         else let db3 = (case was of None \<Rightarrow> db2 | Some w \<Rightarrow> remove_file w e db2) in Some (optimize e db3, NoError)
       }
     }) = Some (db', error) \<and> db_ok db' \<and> db_settings db' = db_settings db \<and> db_stale db' = db_stale db
    \<and> (if db_open db \<and> ev_binlog_ok e
       then error = NoError \<and> db_open db' \<and> (\<exists>x. entry_for p val checksum x \<and> db_map db' = (db_map db)(key \<mapsto> x))
         \<and> (was \<noteq> Some p \<longrightarrow> db_files db' p = Some (padded (ev_padding e) (fst val)))
         \<and> (\<forall>q. q \<noteq> p \<longrightarrow> was \<noteq> Some q \<longrightarrow> db_files db' q = db_files db q)
       else error \<noteq> NoError \<and> \<not> db_open db' \<and> db_map db' = db_map db)"
proof -
  let ?db1 = "db\<lparr>db_files := (db_files db)(p \<mapsto> padded (ev_padding e) (fst val))\<rparr>"
  have w1: "writeNewEntry p (fst val) e db = Some (?db1, NoError)" using env by (simp add: writeNewEntry_def put_env_def)
  have inv1: "journal_inv {key} ?db1" "bundles_ok ?db1" "key \<notin> db_removing ?db1" "time_ok e ?db1"
    "int (length (fst val)) \<le> st_maxDataSize (db_settings ?db1)"
    using ok env by (simp_all add: put_env_def time_ok_def)
  from writeKeyPlace_ok [OF inv1(1-4) env(2) inv1(5) p(2), where checksum = checksum] obtain db2 error where
    2: "writeKeyPlace key p val checksum e ?db1 = Some (db2, error)" "db_ok db2" "db_settings db2 = db_settings db"
      "db_files db2 = db_files ?db1" "db_stale db2 = db_stale db"
      "if db_open db \<and> ev_binlog_ok e
       then error = NoError \<and> db_open db2 \<and> (\<exists>x. entry_for p val checksum x \<and> db_map db2 = (db_map db)(key \<mapsto> x))
       else error \<noteq> NoError \<and> \<not> db_open db2 \<and> db_map db2 = db_map db" by (auto cong: if_cong)
  show ?thesis
  proof (cases "db_open db \<and> ev_binlog_ok e")
    case True
    with 2(6) have e: "error = NoError" "db_open db2" "\<exists>x. entry_for p val checksum x \<and> db_map db2 = (db_map db)(key \<mapsto> x)" by auto
    show ?thesis using w1 2 e True by (cases was) (auto simp: remove_file_def)
  next
    case False
    with 2(6) have e: "error \<noteq> NoError" "\<not> db_open db2" "db_map db2 = db_map db" by (auto split: if_splits)
    then show ?thesis using w1 2 False by (auto simp: remove_file_def)
  qed
qed

lemma recordEntryAccess_open:
  "recordEntryAccess key e db = Some db' \<Longrightarrow> db_open db \<Longrightarrow> ev_binlog_ok e \<Longrightarrow> db_open db'"
  by (auto simp: recordEntryAccess_def writeMultiAccessLazy_def writeMultiAccess_def writeMultiAccessBlock_def
      binlog_write_def writeBundlesLazy_def Let_def split: if_splits)

lemma same_entry_refl [simp]: "same_entry x x"
  by (simp add: same_entry_def)

lemma same_entry_fields:
  "same_entry x y \<Longrightarrow> en_place x = en_place y \<and> en_size x = en_size y \<and> en_tag x = en_tag y \<and> en_checksum x = en_checksum y"
  unfolding same_entry_def by (metis entry.select_convs(2-5) entry.surjective entry.update_convs(1))

lemma touched_entries:
  "map_option (\<lambda>x. x\<lparr>en_useTime := 0\<rparr>) a = map_option (\<lambda>x. x\<lparr>en_useTime := 0\<rparr>) b \<longleftrightarrow> rel_option same_entry a b"
  by (cases a; cases b) (simp_all add: same_entry_def)

lemma rel_option_same: "rel_option same_entry x x"
  by (cases x) simp_all

lemma files_ok_file: "files_ok db \<Longrightarrow> db_map db k = Some x \<Longrightarrow> db_files db (en_place x) \<noteq> None"
  unfolding files_ok_def by blast

lemma files_ok_inj:
  "files_ok db \<Longrightarrow> db_map db k = Some x \<Longrightarrow> db_map db k' = Some x' \<Longrightarrow> en_place x = en_place x' \<Longrightarrow> k = k'"
  unfolding files_ok_def by blast

lemma readValueData_cong:
  "db_files db' p = db_files db p \<Longrightarrow> readValueData p n db' = readValueData p n db"
  by (simp add: readValueData_def)

lemma files_ok_touched:
  assumes "files_ok db" "db_files db' = db_files db" "\<And>k. rel_option same_entry (db_map db' k) (db_map db k)"
  shows "files_ok db'"
proof -
  have old: "\<exists>y. db_map db k = Some y \<and> en_place y = en_place x" if "db_map db' k = Some x" for k x
    using assms(3) [of k] that same_entry_fields by (cases "db_map db k") auto
  show ?thesis
    unfolding files_ok_def
  proof (intro conjI allI impI)
    fix k x assume "db_map db' k = Some x"
    then show "db_files db' (en_place x) \<noteq> None" using old [of k x] assms(2) files_ok_file [OF assms(1)] by metis
  next
    fix k k' x x' assume "db_map db' k = Some x" "db_map db' k' = Some x'" "en_place x = en_place x'"
    then show "k = k'" using old [of k x] old [of k' x'] files_ok_inj [OF assms(1)] by metis
  qed
qed

lemma files_ok_new:
  assumes ok: "files_ok db" and p: "isFreePlace p db" "db_files db' p \<noteq> None" and x: "en_place x = p"
    and m: "db_map db' = (db_map db)(key \<mapsto> x)"
    and f: "\<And>q. q \<noteq> p \<Longrightarrow> (\<forall>y. db_map db key = Some y \<longrightarrow> q \<noteq> en_place y) \<Longrightarrow> db_files db' q = db_files db q"
  shows "files_ok db'"
proof -
  have used: "en_place y \<noteq> p" if "db_map db k = Some y" for k y using files_ok_file [OF ok that] p(1) by (auto simp: isFreePlace_def)
  show ?thesis
    unfolding files_ok_def
  proof (intro conjI allI impI)
    fix k y assume k: "db_map db' k = Some y"
    show "db_files db' (en_place y) \<noteq> None"
    proof (cases "k = key")
      case False
      then have "db_map db k = Some y" using k m by simp
      moreover from this have "\<forall>z. db_map db key = Some z \<longrightarrow> en_place y \<noteq> en_place z" using files_ok_inj [OF ok] False by metis
      ultimately show ?thesis using f [of "en_place y"] used files_ok_file [OF ok] by metis
    qed (use k m x p in auto)
  next
    fix k k' y y' assume "db_map db' k = Some y" "db_map db' k' = Some y'" "en_place y = en_place y'"
    then show "k = k'" using m x used files_ok_inj [OF ok] by (metis fun_upd_apply option.inject)
  qed
qed

text \<open>The value that an entry of the map leads to.\<close>

definition holds :: "cache_env \<Rightarrow> database \<Rightarrow> cache_key \<Rightarrow> byte_list \<times> u8 \<Rightarrow> bool" where
  "holds e db key val \<longleftrightarrow> (\<exists>x. db_map db key = Some x \<and> en_tag x = snd val
     \<and> en_checksum x = ev_checksum e (fst val) \<and> readValueData (en_place x) (en_size x) db = fst val)"

text \<open>Entries and files of other keys are the ones before, up to the use times.\<close>

definition others_kept :: "cache_key \<Rightarrow> database \<Rightarrow> database \<Rightarrow> bool" where
  "others_kept key db db' \<longleftrightarrow> (\<forall>k. k \<noteq> key \<longrightarrow> rel_option same_entry (db_map db' k) (db_map db k)
     \<and> (\<forall>x. db_map db k = Some x \<longrightarrow> db_files db' (en_place x) = db_files db (en_place x)))"

lemma put_new_holds:
  assumes ok: "files_ok db" and free: "db_files db p = None"
    and x: "entry_for p val (ev_checksum e (fst val)) x" "db_map db' = (db_map db)(key \<mapsto> x)"
    and fp: "db_files db' p = Some (padded (ev_padding e) (fst val))"
    and fq: "\<forall>q. q \<noteq> p \<longrightarrow> map_option en_place (db_map db key) \<noteq> Some q \<longrightarrow> db_files db' q = db_files db q"
  shows "files_ok db' \<and> holds e db' key val \<and> others_kept key db db'"
proof -
  have "files_ok db'"
    using fp fq x by (intro files_ok_new [OF ok, of p db' x key]) (auto simp: isFreePlace_def free entry_for_def)
  moreover have "holds e db' key val"
    using x readValueData_padded [OF fp] by (auto simp: holds_def entry_for_def)
  moreover have "others_kept key db db'"
    unfolding others_kept_def
  proof (intro allI impI conjI)
    fix k assume "k \<noteq> key"
    then show "rel_option same_entry (db_map db' k) (db_map db k)" using x(2) by (simp add: rel_option_same)
    fix y assume y: "db_map db k = Some y"
    have "en_place y \<noteq> p" using files_ok_file [OF ok y] free by auto
    moreover have "map_option en_place (db_map db key) \<noteq> Some (en_place y)"
      using files_ok_inj [OF ok y] \<open>k \<noteq> key\<close> by auto
    ultimately show "db_files db' (en_place y) = db_files db (en_place y)" using fq by blast
  qed
  ultimately show ?thesis by blast
qed

lemma db_put_ok:
  assumes ok: "db_ok db" and env: "put_env e val db"
  shows "\<exists>db' error. db_put key val e db = Some (db', error) \<and> db_ok db' \<and> db_settings db' = db_settings db
    \<and> (db_open db' \<longrightarrow> db_open db)
    \<and> (db_open db \<and> ev_binlog_ok e \<and> fst val \<noteq> [] \<and> files_ok db \<longrightarrow>
        error = NoError \<and> db_open db' \<and> files_ok db' \<and> holds e db' key val \<and> others_kept key db db')"
proof (cases "db_open db \<and> fst val \<noteq> []")
  case False
  then show ?thesis
  proof (cases "db_open db")
    case True
    then have "db_put key val e db = db_remove key e db" using False by (simp add: db_put_def)
    with db_remove_ok [OF ok, of key e] False True show ?thesis by auto
  qed (use ok in \<open>simp add: db_put_def\<close>)
next
  case open0: True
  define db0 where "db0 = db\<lparr>db_removing := db_removing db - {key}, db_stale := filter (\<lambda>k. k \<noteq> key) (db_stale db)\<rparr>"
  define c where "c = ev_checksum e (fst val)"
  have f0: "db_map db0 = db_map db" "db_files db0 = db_files db" "db_settings db0 = db_settings db" "db_open db0 = db_open db"
    "key \<notin> db_removing db0" "put_env e val db0"
    using env by (simp_all add: db0_def put_env_def time_ok_def isFreePlace_def)
  have inv0: "journal_inv {key} db0" using journal_inv_unremove [of db key] ok by (simp add: db0_def)
  have fin: "finite (db_removing db)" using ok by (simp add: journal_inv_def)
  have b0: "bundles_ok db0"
    using ok fin by (auto simp: db0_def bundles_ok_def intro: le_less_trans [OF card_mono])
  obtain p where p: "p \<in> set (ev_places e)" "draw_place (ev_places e) db0 = Some p" "isFreePlace p db0"
    using draw_place_free [of "ev_places e" db0] f0(6) by (auto simp: put_env_def)
  have p7: "length p = 7" using p(1) env by (simp add: put_env_def)
  have len: "int (length (fst val)) \<le> st_maxDataSize (db_settings db0)" using f0(6) by (simp add: put_env_def)
  show ?thesis
  proof (cases "\<exists>x. db_map db key = Some x \<and> en_tag x = snd val \<and> en_size x = int (length (fst val)) \<and> en_checksum x = c
      \<and> readValueData (en_place x) (int (length (fst val))) db0 = fst val")
    case True
    then obtain x where x: "db_map db key = Some x" "en_tag x = snd val" "en_size x = int (length (fst val))" "en_checksum x = c"
      "readValueData (en_place x) (int (length (fst val))) db0 = fst val" by blast
    have "visible db key = Some x" using ok open0 x(1) by (simp add: journal_inv_def)
    then have "key \<notin> db_removing db" by (simp add: visible_def split: if_splits)
    then have "db0 = db\<lparr>db_stale := filter (\<lambda>k. k \<noteq> key) (db_stale db)\<rparr>" by (simp add: db0_def)
    then have ok0: "db_ok db0" using ok by simp
    have "chooseKeyPlace key val c e db0 = Some (Some (en_place x), None)"
      using x len f0 by (simp add: chooseKeyPlace_def)
    then have call: "db_put key val e db = map_option (\<lambda>db1. (db1, NoError)) (recordEntryAccess key e db0)"
      using open0 unfolding db_put_def db0_def [symmetric] c_def [symmetric] Let_def by simp
    from recordEntryAccess_ok [OF ok0, of key e] obtain db' where
      1: "recordEntryAccess key e db0 = Some db'" "db_ok db'" "\<And>k. rel_option same_entry (db_map db' k) (db_map db k)"
        "db_settings db' = db_settings db" "db_files db' = db_files db" "db_open db' \<longrightarrow> db_open db"
      unfolding touched_entries f0 by blast
    obtain x' where x': "db_map db' key = Some x'" "same_entry x' x" using 1(3) [of key] x(1) by (cases "db_map db' key") auto
    have "holds e db' key val"
      using x x' same_entry_fields [OF x'(2)] readValueData_cong [of db' _ db0] 1(5) f0(2) by (auto simp: holds_def c_def)
    moreover have "others_kept key db db'" using 1(3,5) by (simp add: others_kept_def)
    moreover have "files_ok db \<longrightarrow> files_ok db'" using files_ok_touched [of db db'] 1(3,5) by blast
    ultimately show ?thesis
      using call 1 recordEntryAccess_open [OF 1(1)] f0(4) by auto
  next
    case False
    define was where "was = map_option en_place (db_map db key)"
    have change: "chooseKeyPlace key val c e db0 = Some (was, Some p)"
      using False len p(2) f0 by (auto simp: chooseKeyPlace_def was_def split: option.splits)
    obtain db' error where 1: "db_put key val e db = Some (db', error)" "db_ok db'" "db_settings db' = db_settings db0"
      "if db_open db0 \<and> ev_binlog_ok e
       then error = NoError \<and> db_open db' \<and> (\<exists>x. entry_for p val c x \<and> db_map db' = (db_map db0)(key \<mapsto> x))
         \<and> (was \<noteq> Some p \<longrightarrow> db_files db' p = Some (padded (ev_padding e) (fst val)))
         \<and> (\<forall>q. q \<noteq> p \<longrightarrow> was \<noteq> Some q \<longrightarrow> db_files db' q = db_files db0 q)
       else error \<noteq> NoError \<and> \<not> db_open db' \<and> db_map db' = db_map db0"
      using put_store_ok [OF inv0 b0 f0(5,6) _ p(3) p7 change] open0 change
      unfolding db_put_def db0_def [symmetric] c_def [symmetric] Let_def by (auto cong: if_cong)
    have "files_ok db' \<and> holds e db' key val \<and> others_kept key db db'" if good: "ev_binlog_ok e" "files_ok db"
    proof -
      have free: "db_files db p = None" using p(3) f0(2) by (simp add: isFreePlace_def)
      then have "was \<noteq> Some p" using files_ok_file [OF good(2), of key] by (auto simp: was_def)
      then obtain x where "entry_for p val c x" "db_map db' = (db_map db)(key \<mapsto> x)"
        "db_files db' p = Some (padded (ev_padding e) (fst val))"
        "\<forall>q. q \<noteq> p \<longrightarrow> was \<noteq> Some q \<longrightarrow> db_files db' q = db_files db q" using 1(4) good open0 f0 by auto
      with free show ?thesis unfolding was_def c_def by (intro put_new_holds [OF good(2)])
    qed
    with 1 f0 open0 show ?thesis by (auto split: if_splits)
  qed
qed

section \<open>Reading, copying and moving\<close>

text \<open>The value that \<open>get\<close> passes to its callback.\<close>

definition stored_value :: "cache_env \<Rightarrow> database \<Rightarrow> cache_key \<Rightarrow> byte_list \<times> u8" where
  "stored_value e db key =
     (case db_map db key of
        None \<Rightarrow> ([], 0)
      | Some x \<Rightarrow> let content = readValueData (en_place x) (en_size x) db in
          if content = [] \<or> ev_checksum e content \<noteq> en_checksum x then ([], 0) else (content, en_tag x))"

lemma holds_stored: "holds e db key val \<Longrightarrow> fst val \<noteq> [] \<Longrightarrow> stored_value e db key = val"
  by (auto simp: holds_def stored_value_def Let_def)

text \<open>
  A callback that keeps the invariant is run on a state that has it, with the stored value; if there is
  none the key is gone from the map before the callback runs.
\<close>

lemma db_get_cases:
  assumes ok: "db_ok db"
  obtains (found) "fst (stored_value e db key) \<noteq> []" "db_get key done e db =
      do { (db1, r) \<leftarrow> done (stored_value e db key) db; db2 \<leftarrow> recordEntryAccess key e db1; Some (db2, r) }"
  | (missing) db1 where "stored_value e db key = ([], 0)" "db_get key done e db = done ([], 0) db1" "db_ok db1"
      "db_settings db1 = db_settings db" "db_open db1 \<longrightarrow> db_open db \<and> db_map db1 = (db_map db)(key := None)"
proof (cases "fst (stored_value e db key) = []")
  case False
  then have "db_get key done e db =
      do { (db1, r) \<leftarrow> done (stored_value e db key) db; db2 \<leftarrow> recordEntryAccess key e db1; Some (db2, r) }"
    by (auto simp: stored_value_def db_get_def Let_def split: option.splits if_splits)
  with False found show thesis by blast
next
  case True
  show thesis
  proof (cases "db_map db key")
    case None
    then have "(db_map db)(key := None) = db_map db" by auto
    with None ok missing [of db] show thesis by (auto simp: stored_value_def db_get_def)
  next
    case (Some x)
    with True have bad: "readValueData (en_place x) (en_size x) db = []
        \<or> ev_checksum e (readValueData (en_place x) (en_size x) db) \<noteq> en_checksum x"
      by (auto simp: stored_value_def Let_def split: if_splits)
    obtain db1 error where 1: "db_remove key e db = Some (db1, error)" "db_ok db1"
      "db_map db1 = (if db_open db then (db_map db)(key := None) else db_map db)" "db_settings db1 = db_settings db"
      "db_open db1 \<longrightarrow> db_open db" using db_remove_ok [OF ok, of key e] by auto
    have "db_get key done e db = done ([], 0) db1" using Some bad 1(1) by (simp add: db_get_def Let_def)
    moreover have "stored_value e db key = ([], 0)" using Some bad by (simp add: stored_value_def Let_def)
    ultimately show thesis using 1 by (intro missing [of db1]) auto
  qed
qed

lemma db_get_ok:
  assumes "db_ok db"
  shows "\<exists>db'. db_get key (\<lambda>v d. Some (d, v)) e db = Some (db', stored_value e db key) \<and> db_ok db'
    \<and> db_settings db' = db_settings db \<and> (db_open db' \<longrightarrow> db_open db)"
proof (cases rule: db_get_cases [OF assms, of e key "\<lambda>v d. Some (d, v)"])
  case 1
  from recordEntryAccess_ok [OF assms, of key e] 1(2) show ?thesis by auto
qed auto

lemma db_copyIfEmpty_ok:
  assumes ok: "db_ok db" and env: "put_env e (stored_value e db from) db"
  shows "\<exists>db' error. db_copyIfEmpty from to e db = Some (db', error) \<and> db_ok db' \<and> db_settings db' = db_settings db
    \<and> (db_open db' \<longrightarrow> db_open db)"
proof (cases "db_map db to = None")
  case False
  with ok show ?thesis by (simp add: db_copyIfEmpty_def)
next
  case True
  show ?thesis
  proof (cases rule: db_get_cases [OF ok, of e "from" "\<lambda>val. db_put to val e"])
    case 1
    obtain db1 error where p: "db_put to (stored_value e db from) e db = Some (db1, error)" "db_ok db1"
      "db_settings db1 = db_settings db" "db_open db1 \<longrightarrow> db_open db" using db_put_ok [OF ok env, of to] by blast
    from recordEntryAccess_ok [OF p(2), of "from" e] p 1(2) True show ?thesis by (auto simp: db_copyIfEmpty_def)
  next
    case (2 db1)
    have "db_put to ([], 0) e db1 = (if db_open db1 then db_remove to e db1 else Some (db1, IOError (versionPath db1)))"
      by (simp add: db_put_def)
    with db_remove_ok [OF 2(3), of to e] 2 True show ?thesis by (auto simp: db_copyIfEmpty_def)
  qed
qed

text \<open>Every entry of the journal has a size within the limit.\<close>

definition sizes_ok :: "cache_settings \<Rightarrow> (cache_key \<rightharpoonup> entry) \<Rightarrow> bool" where
  "sizes_ok st m \<longleftrightarrow> (\<forall>k x. m k = Some x \<longrightarrow> 0 < en_size x \<and> en_size x \<le> st_maxDataSize st \<and> length (en_place x) = 7)"

lemma sizes_ok_store: "sizes_ok st m \<Longrightarrow> store_ok st r \<Longrightarrow> sizes_ok st (m(sr_key r \<mapsto> entry_of t u r))"
  by (auto simp: sizes_ok_def store_ok_def entry_of_def)

lemma sizes_ok_replay:
  assumes "sizes_ok st m" "record_ok st r"
  shows "sizes_ok st (replay_record t u r m)"
proof (cases r)
  case (MultiStore rs)
  have "sizes_ok st (fold (\<lambda>r m. m(sr_key r \<mapsto> entry_of t u r)) rs m)" if "list_all (store_ok st) rs"
    using that assms(1) by (induction rs arbitrary: m) (auto simp: sizes_ok_store)
  with MultiStore assms(2) show ?thesis by (simp add: replay_record_def record_ok_def)
next
  case (MultiAccess tm ks)
  with assms(1) show ?thesis by (auto simp: replay_record_def sizes_ok_def touch_keys_apply)
qed (use assms in \<open>auto simp: replay_record_def record_ok_def sizes_ok_store, auto simp: sizes_ok_def restrict_map_def split: if_splits\<close>)

lemma journal_sizes:
  assumes "journal_inv {} db" "db_open db"
  shows "sizes_ok (db_settings db) (db_map db)"
proof -
  have gen: "sizes_ok st (fold (replay_record t u) rs m)" if "list_all (record_ok st) rs" "sizes_ok st m" for st t u rs m
    using that by (induction rs arbitrary: m) (auto simp: sizes_ok_replay)
  have "sizes_ok (db_settings db) Map.empty" by (simp add: sizes_ok_def)
  then have "sizes_ok (db_settings db) (journal_map db)"
    unfolding journal_map_def using assms by (intro gen) (simp_all add: journal_inv_def)
  moreover have "db_map db = visible db" using assms by (auto simp: journal_inv_def)
  ultimately show ?thesis by (auto simp: sizes_ok_def visible_def split: if_splits)
qed

lemma writeExistingPlace_ok:
  assumes inv: "db_ok db" "key \<notin> db_removing db" "db_map db key = None" "time_ok e db"
    and x: "0 < en_size x" "en_size x \<le> st_maxDataSize (db_settings db)" "length (en_place x) = 7"
  shows "\<exists>db' error. writeExistingPlace key x e db = Some (db', error) \<and> db_ok db' \<and> db_settings db' = db_settings db
    \<and> db_files db' = db_files db \<and> (db_open db' \<longrightarrow> db_open db)
    \<and> (db_open db \<and> ev_binlog_ok e \<longrightarrow> error = NoError \<and> db_open db'
        \<and> (\<exists>y. same_entry y x \<and> db_map db' = (db_map db)(key \<mapsto> y)))"
proof -
  have cs: "checkSettings (db_settings db)" using inv(1) by (simp add: journal_inv_def)
  obtain t where base: "record_base e db = Some (empty_store\<lparr>sr_time := t\<rparr>)" using record_base_some [OF inv(4)] by blast
  let ?base = "empty_store\<lparr>sr_time := t, sr_key := key, sr_tag := en_tag x\<rparr>"
  obtain packed where p: "store_setSize (en_size x) ?base = Some (?base\<lparr>sr_size := packed\<rparr>)"
    "ReadFrom packed = en_size x" "length packed = 3"
    using store_setSize_some [OF x(1,2) cs, of ?base] by auto
  let ?r = "?base\<lparr>sr_size := packed, sr_checksum := en_checksum x, sr_place := en_place x\<rparr>"
  have call: "writeExistingPlace key x e db = write_store ?r e db"
    using base p(1) inv(3) by (simp add: writeExistingPlace_def Let_def)
  have ok: "store_ok (db_settings db) ?r" using p x by (simp add: store_ok_def store_getSize_def)
  have "journal_inv {sr_key ?r} db" using inv(1) by (simp add: journal_inv_def)
  moreover have "same_entry (entry_of (track db) (getRelative (db_time db)) ?r) x"
    using p by (cases x) (simp add: same_entry_def entry_of_def store_getSize_def)
  moreover have "sr_key ?r = key" by simp
  ultimately show ?thesis
    using write_store_ok [of ?r db e] inv ok unfolding call by (metis (no_types, lifting))
qed

lemma db_moveIfEmpty_ok:
  assumes ok: "db_ok db" and env: "time_ok e db"
  shows "\<exists>db' error. db_moveIfEmpty from to e db = Some (db', error) \<and> db_ok db' \<and> db_settings db' = db_settings db
    \<and> (db_open db' \<longrightarrow> db_open db)
    \<and> (db_open db \<and> ev_binlog_ok e \<and> db_map db to = None \<longrightarrow> error = NoError \<and> db_files db' = db_files db
        \<and> (\<forall>x. db_map db from = Some x \<longrightarrow> (\<exists>y. same_entry y x \<and> db_map db' = (db_map db)(from := None, to \<mapsto> y))))"
proof (cases "db_map db to = None \<and> db_map db from \<noteq> None")
  case False
  with ok show ?thesis by (auto simp: db_moveIfEmpty_def split: option.splits)
next
  case True
  then obtain x where x: "db_map db from = Some x" "db_map db to = None" by auto
  let ?db = "db\<lparr>db_removing := insert from (db_removing db)\<rparr>"
  have inv: "journal_inv {from} ?db" "visible ?db from = None" using removing_insert_inv [of "{}" db "from"] ok by auto
  from eraseMapEntry_inv [OF this] obtain db1 where
    1: "eraseMapEntry from ?db = Some db1" "journal_inv {} db1" "frame db1 = frame ?db" "db_map db1 = (db_map db)(from := None)" by auto
  note f = frame_fields [OF 1(3), simplified]
  have fin: "finite (db_removing db)" using ok by (simp add: journal_inv_def)
  have "card (db_removing db1) \<le> st_maxBundledRecords (db_settings db1)" using ok fin f by (simp add: bundles_ok_def card_insert_if)
  from writeMultiRemove_ok [OF 1(2) this, of e] obtain db2 error where
    2: "writeMultiRemove e db1 = Some (db2, error)" "journal_inv {} db2" "db_removing db2 = {}" "db_map db2 = db_map db1"
      "db_accessed db2 = db_accessed db1" "db_settings db2 = db_settings db1" "db_files db2 = db_files db1"
      "db_time db2 = db_time db1" "db_open db2 \<longrightarrow> db_open db1" "error \<noteq> NoError \<longrightarrow> \<not> db_open db2" by blast
  have good: "db_open db \<and> ev_binlog_ok e \<longrightarrow> error = NoError \<and> db_open db2"
    using 2(1) f by (auto simp: writeMultiRemove_def binlog_write_def Let_def split: if_splits)
  have b2: "bundles_ok db2" using ok 2 f by (auto simp: bundles_ok_def)
  show ?thesis
  proof (cases "error = NoError")
    case False
    with True x 1 2 b2 good f show ?thesis by (simp add: db_moveIfEmpty_def)
  next
    case noerr: True
    let ?db2 = "db2\<lparr>db_stale := filter (\<lambda>k. k \<noteq> to) (db_stale db2)\<rparr>"
    have same: "db2\<lparr>db_removing := {}, db_stale := S\<rparr> = db2\<lparr>db_stale := S\<rparr>" for S using 2(3) by (cases db2) simp
    have call: "db_moveIfEmpty from to e db = writeExistingPlace to x e ?db2"
      using x 1(1) 2(1,3) noerr by (simp add: db_moveIfEmpty_def) (simp only: same)
    have "from \<noteq> to" using x by auto
    have o: "db_open db"
    proof (rule ccontr)
      assume "\<not> db_open db"
      with 2(1) f noerr show False by (auto simp: writeMultiRemove_def binlog_write_def Let_def split: if_splits)
    qed
    have sz: "0 < en_size x \<and> en_size x \<le> st_maxDataSize (db_settings db) \<and> length (en_place x) = 7"
      using journal_sizes [of db] ok o x(1) by (auto simp: sizes_ok_def)
    have "\<exists>db' error. writeExistingPlace to x e ?db2 = Some (db', error) \<and> db_ok db' \<and> db_settings db' = db_settings ?db2
      \<and> db_files db' = db_files ?db2 \<and> (db_open db' \<longrightarrow> db_open ?db2)
      \<and> (db_open ?db2 \<and> ev_binlog_ok e \<longrightarrow> error = NoError \<and> db_open db'
          \<and> (\<exists>y. same_entry y x \<and> db_map db' = (db_map ?db2)(to \<mapsto> y)))"
      by (rule writeExistingPlace_ok) (use 2 f b2 x env sz 1(4) in \<open>auto simp: time_ok_def\<close>)
    with 1(4) 2(4,6,7,9) f good o x \<open>from \<noteq> to\<close> show ?thesis unfolding call by auto
  qed
qed

end
