(* ===== verification/CacheRuns.thy ===== *)
theory CacheRuns
  imports CacheJournal
begin

text \<open>
  Pruning, runs of operations, and what is found again when the cache is closed and opened: the theorems
  about the cache database as a whole.
\<close>

section \<open>Removing many keys\<close>

lemma restrict_map_comp: "m |` A |` B = m |` (A \<inter> B)"
  by (auto simp: restrict_map_def fun_eq_iff)

lemma restrict_comp: "m |` (- insert k K) = (m(k := None)) |` (- K)"
  by (auto simp: restrict_map_def fun_eq_iff)

lemma remove_keys_ok:
  assumes "db_ok db"
  shows "\<exists>db'. remove_keys ks e db = Some db' \<and> db_ok db' \<and> db_settings db' = db_settings db \<and> db_stale db' = db_stale db
    \<and> (db_open db' \<longrightarrow> db_open db)
    \<and> (db_open db \<and> ev_binlog_ok e \<longrightarrow> db_open db' \<and> db_map db' = db_map db |` (- set ks))"
  using assms
proof (induction ks arbitrary: db)
  case Nil
  then show ?case by (simp add: restrict_map_def)
next
  case (Cons k ks)
  obtain db1 error where 1: "db_remove k e db = Some (db1, error)" "db_ok db1"
    "db_map db1 = (if db_open db then (db_map db)(k := None) else db_map db)" "db_settings db1 = db_settings db"
    "db_stale db1 = db_stale db" "db_open db1 \<longrightarrow> db_open db" "db_open db \<and> ev_binlog_ok e \<longrightarrow> db_open db1"
    using db_remove_ok [OF Cons.prems, of k e] by blast
  from Cons.IH [OF 1(2)] obtain db2 where 2: "remove_keys ks e db1 = Some db2" "db_ok db2"
    "db_settings db2 = db_settings db1" "db_stale db2 = db_stale db1" "db_open db2 \<longrightarrow> db_open db1"
    "db_open db1 \<and> ev_binlog_ok e \<longrightarrow> db_open db2 \<and> db_map db2 = db_map db1 |` (- set ks)" by blast
  have "db_map db2 = db_map db |` (- set (k # ks))" if "db_open db" "ev_binlog_ok e"
    unfolding list.set restrict_comp using 1(3,7) 2(6) that by simp
  moreover have "remove_keys (k # ks) e db = Some db2" using 1(1) 2(1) by simp
  moreover have "db_settings db2 = db_settings db" "db_stale db2 = db_stale db" using 1(4,5) 2(3,4) by simp_all
  ultimately show ?case using 1(6,7) 2(2,5,6) by blast
qed

lemma clearStaleNow_ok:
  assumes "db_ok db" "db_stale db = []"
  shows "\<exists>db'. clearStaleNow ks e db = Some db' \<and> db_ok db' \<and> db_settings db' = db_settings db \<and> db_stale db' = []
    \<and> (db_open db' \<longrightarrow> db_open db)
    \<and> (db_open db \<and> ev_binlog_ok e \<longrightarrow> db_open db' \<and> db_map db' = db_map db |` (- set ks))"
proof (cases "ks = []")
  case True
  with assms show ?thesis by (simp add: clearStaleNow_def restrict_map_def)
next
  case False
  let ?db = "db\<lparr>db_stale := [hd ks]\<rparr>"
  have "db_ok ?db" using assms(1) by simp
  from remove_keys_ok [OF this, of ks e] obtain db1 where 1: "remove_keys ks e ?db = Some db1" "db_ok db1"
    "db_settings db1 = db_settings db" "db_open db1 \<longrightarrow> db_open db"
    "db_open db \<and> ev_binlog_ok e \<longrightarrow> db_open db1 \<and> db_map db1 = db_map db |` (- set ks)" by auto
  then show ?thesis using False assms(2) by (simp add: clearStaleNow_def)
qed

lemma clearStaleChunk_ok:
  assumes "db_ok db"
  shows "\<exists>db'. clearStaleChunk e db = Some db' \<and> db_ok db' \<and> db_settings db' = db_settings db
    \<and> db_stale db' = take (length (db_stale db) - st_staleRemoveChunk (db_settings db)) (db_stale db)
    \<and> (db_open db' \<longrightarrow> db_open db)
    \<and> (db_open db \<and> ev_binlog_ok e \<longrightarrow> db_open db'
        \<and> db_map db' = db_map db |` (- set (drop (length (db_stale db) - st_staleRemoveChunk (db_settings db)) (db_stale db))))"
proof (cases "db_stale db = []")
  case True
  with assms show ?thesis by (simp add: clearStaleChunk_def restrict_map_def)
next
  case False
  let ?n = "length (db_stale db) - st_staleRemoveChunk (db_settings db)"
  have n: "length (db_stale db) - min (length (db_stale db)) (st_staleRemoveChunk (db_settings db)) = ?n" by simp
  from remove_keys_ok [OF assms, of "drop ?n (db_stale db)" e] obtain db1 where
    1: "remove_keys (drop ?n (db_stale db)) e db = Some db1" "db_ok db1" "db_settings db1 = db_settings db"
      "db_stale db1 = db_stale db" "db_open db1 \<longrightarrow> db_open db"
      "db_open db \<and> ev_binlog_ok e \<longrightarrow> db_open db1 \<and> db_map db1 = db_map db |` (- set (drop ?n (db_stale db)))" by blast
  show ?thesis
    using 1 False unfolding clearStaleChunk_def Let_def n by simp
qed

lemma clear_all_stale_ok:
  assumes "db_ok db"
  shows "\<exists>db'. clear_all_stale e db = Some db' \<and> db_ok db' \<and> db_settings db' = db_settings db \<and> db_stale db' = []
    \<and> (db_open db' \<longrightarrow> db_open db)
    \<and> (db_open db \<and> ev_binlog_ok e \<longrightarrow> db_open db' \<and> db_map db' = db_map db |` (- set (db_stale db)))"
  using assms
proof (induction "length (db_stale db)" arbitrary: db rule: less_induct)
  case less
  show ?case
  proof (cases "db_stale db = []")
    case True
    with less.prems show ?thesis by (simp add: clear_all_stale.simps restrict_map_def)
  next
    case False
    let ?n = "length (db_stale db) - st_staleRemoveChunk (db_settings db)"
    obtain db1 where 1: "clearStaleChunk e db = Some db1" "db_ok db1" "db_settings db1 = db_settings db"
      "db_stale db1 = take ?n (db_stale db)" "db_open db1 \<longrightarrow> db_open db"
      "db_open db \<and> ev_binlog_ok e \<longrightarrow> db_open db1 \<and> db_map db1 = db_map db |` (- set (drop ?n (db_stale db)))"
      using clearStaleChunk_ok [OF less.prems, of e] by blast
    have "0 < st_staleRemoveChunk (db_settings db)" using less.prems by (simp add: journal_inv_def checkSettings_def)
    then have "length (db_stale db1) < length (db_stale db)" using 1(4) False by simp
    from less.hyps [OF this 1(2)] obtain db2 where 2: "clear_all_stale e db1 = Some db2" "db_ok db2"
      "db_settings db2 = db_settings db1" "db_stale db2 = []" "db_open db2 \<longrightarrow> db_open db1"
      "db_open db1 \<and> ev_binlog_ok e \<longrightarrow> db_open db2 \<and> db_map db2 = db_map db1 |` (- set (db_stale db1))" by blast
    have "set (take ?n (db_stale db)) \<union> set (drop ?n (db_stale db)) = set (db_stale db)"
      by (metis append_take_drop_id set_append)
    then have inter: "- set (drop ?n (db_stale db)) \<inter> - set (take ?n (db_stale db)) = - set (db_stale db)" by blast
    have "db_map db2 = db_map db |` (- set (db_stale db))" if "db_open db" "ev_binlog_ok e"
      using 1(4,6) 2(6) that by (simp add: restrict_map_comp inter)
    moreover have "clear_all_stale e db = Some db2" by (subst clear_all_stale.simps) (simp add: False 1(1) 2(1))
    moreover have "db_settings db2 = db_settings db" using 1(3) 2(3) by simp
    ultimately show ?thesis using 1(5,6) 2(2,4-6) by blast
  qed
qed

section \<open>Pruning\<close>

lemma collectTimeStale_ok:
  assumes "stats_ok db" "distinct order" "set order = dom (db_map db)"
  obtains stale db' where "collectTimeStale unixtime order ([], 0) db = ((stale, keys_size (db_map db) (set stale)), db')"
    "sorted_wrt (<) stale" "set stale \<subseteq> dom (db_map db)" "stats_ok db'" "frame db' = frame db" "db_map db' = db_map db"
    "db_totalSize db' = db_totalSize db"
    "\<forall>k \<in> set stale. \<forall>k' \<in> dom (db_map db) - set stale. en_useTime (the (db_map db k)) \<le> en_useTime (the (db_map db k'))"
proof (cases "st_totalTimeLimit (db_settings db) = 0 \<or> db_minimal db = 0 \<or> db_minimal db > pruneBeforeTime unixtime db")
  case True
  then have "collectTimeStale unixtime order ([], 0) db = (([], 0), db)" by (auto simp: collectTimeStale_def Let_def)
  with assms that [of "[]" db] show thesis by (simp add: keys_size_def)
next
  case False
  let ?b = "pruneBeforeTime unixtime db"
  obtain stale t mn c where loop: "time_stale_loop ?b (db_map db) order ([], 0, 0, 0) = (stale, t, mn, c)"
    using prod_cases4 by blast
  let ?db' = "db\<lparr>db_minimal := mn, db_minimalCount := c\<rparr>"
  have spec: "sorted_wrt (<) stale" "set stale = {k \<in> dom (db_map db). en_useTime (the (db_map db k)) \<le> ?b}"
    "t = keys_size (db_map db) (set stale)" "minimal_of ?b (db_map db) (dom (db_map db)) mn c"
    using time_stale_loop_spec [OF loop _ assms(2), of "{}"] assms(3) by (auto simp: minimal_of_def)
  have call: "collectTimeStale unixtime order ([], 0) db = ((stale, keys_size (db_map db) (set stale)), ?db')"
    using False loop spec(3) by (simp add: collectTimeStale_def Let_def)
  have "mn \<noteq> 0 \<longrightarrow> 0 < c" using spec(4) by (auto simp: minimal_of_def Let_def)
  then have "stats_ok ?db'" using assms(1) by (simp add: stats_ok_def)
  then show thesis by (intro that [OF call spec(1)]) (auto simp: spec(2) intro: order_trans less_imp_le)
qed

text \<open>Both collections together: enough is selected, and nothing selected is newer than what stays.\<close>

definition good_selection :: "database \<Rightarrow> cache_key set \<Rightarrow> bool" where
  "good_selection db K \<longleftrightarrow> db_totalSize db - keys_size (db_map db) K \<le> st_totalSizeLimit (db_settings db)
     \<and> (\<forall>k \<in> K. \<forall>k' \<in> dom (db_map db) - K. en_useTime (the (db_map db k)) \<le> en_useTime (the (db_map db k')))"

lemma collect_ok:
  assumes ok: "db_ok db" and times: "\<forall>k x. db_map db k = Some x \<longrightarrow> en_useTime x < 2 ^ 63"
    and order: "distinct order" "set order = dom (db_map db)" and limit: "0 \<le> st_totalSizeLimit (db_settings db)"
  obtains stale1 db1 keys where "collectTimeStale unixtime order ([], 0) db = (stale1, db1)"
    "collectSizeStale order stale1 db1 = Some (keys, keys_size (db_map db) (set keys))" "set keys \<subseteq> dom (db_map db)"
    "db_ok db1" "frame db1 = frame db" "db_map db1 = db_map db"
    "0 < st_totalSizeLimit (db_settings db) \<longrightarrow> good_selection db (set keys)"
proof -
  have st: "stats_ok db" using ok by (simp add: journal_inv_def)
  obtain stale1 db1 where 1: "collectTimeStale unixtime order ([], 0) db = ((stale1, keys_size (db_map db) (set stale1)), db1)"
    "sorted_wrt (<) stale1" "set stale1 \<subseteq> dom (db_map db)" "stats_ok db1" "frame db1 = frame db" "db_map db1 = db_map db"
    "db_totalSize db1 = db_totalSize db"
    "\<forall>k \<in> set stale1. \<forall>k' \<in> dom (db_map db) - set stale1. en_useTime (the (db_map db k)) \<le> en_useTime (the (db_map db k'))"
    by (rule collectTimeStale_ok [OF st order])
  note f = frame_fields [OF 1(5)]
  have ok1: "db_ok db1"
    using ok journal_inv_frame [of "{}" db db1 "{}"] 1(4-6) frame_views(3) [OF 1(5)] by (auto simp: journal_inv_def)
  obtain keys where 2: "collectSizeStale order (stale1, keys_size (db_map db) (set stale1)) db1
      = Some (keys, keys_size (db_map db) (set keys))" "set keys \<subseteq> dom (db_map db)"
    "0 < st_totalSizeLimit (db_settings db) \<longrightarrow> set stale1 \<subseteq> set keys
      \<and> db_totalSize db - keys_size (db_map db) (set keys) \<le> st_totalSizeLimit (db_settings db)
      \<and> (\<forall>k \<in> set keys - set stale1. \<forall>k' \<in> dom (db_map db) - set keys. en_useTime (the (db_map db k)) \<le> en_useTime (the (db_map db k')))"
  proof (cases "0 < st_totalSizeLimit (db_settings db)")
    case True
    with prune_size_chosen [of db1 order stale1] 1 f times order that show thesis by auto
  next
    case False
    with 1(3) that [of stale1] f show thesis by (simp add: collectSizeStale_def)
  qed
  have "0 < st_totalSizeLimit (db_settings db) \<longrightarrow> good_selection db (set keys)"
    using 1(8) 2(3) unfolding good_selection_def by blast
  then show thesis by (rule that [OF 1(1) 2(1,2) ok1 1(5,6)])
qed

lemma clear_selected_ok:
  assumes ok: "db_ok db" "db_stale db = []"
  obtains db' where "(if length keys \<le> n then clearStaleNow keys e db else clearStaleChunk e (db\<lparr>db_stale := keys\<rparr>)) = Some db'"
    "db_ok db'" "db_settings db' = db_settings db" "db_open db' \<longrightarrow> db_open db"
    "db_open db \<and> ev_binlog_ok e \<longrightarrow> db_open db' \<and> db_map db' |` (- set (db_stale db')) = db_map db |` (- set keys)"
proof (cases "length keys \<le> n")
  case True
  from clearStaleNow_ok [OF ok, of keys e] True that show thesis by (auto simp: restrict_map_def)
next
  case False
  have "db_ok (db\<lparr>db_stale := keys\<rparr>)" using ok by simp
  from clearStaleChunk_ok [OF this, of e] obtain db' i where 3: "clearStaleChunk e (db\<lparr>db_stale := keys\<rparr>) = Some db'"
    "db_ok db'" "db_settings db' = db_settings db" "db_stale db' = take i keys" "db_open db' \<longrightarrow> db_open db"
    "db_open db \<and> ev_binlog_ok e \<longrightarrow> db_open db' \<and> db_map db' = db_map db |` (- set (drop i keys))" by auto
  have "set (drop i keys) \<union> set (take i keys) = set keys" by (metis append_take_drop_id set_append sup_commute)
  then have "- set (drop i keys) \<inter> - set (take i keys) = - set keys" by blast
  with 3 False that [of db'] show thesis by (auto simp: restrict_map_comp)
qed

lemma db_prune_ok:
  assumes ok: "db_ok db" and times: "\<forall>k x. db_map db k = Some x \<longrightarrow> en_useTime x < 2 ^ 63"
    and order: "distinct order" "set order = dom (db_map db)" and limit: "0 \<le> st_totalSizeLimit (db_settings db)"
  obtains db' where "db_prune order e db = Some db'" "db_ok db'" "db_settings db' = db_settings db" "db_open db' \<longrightarrow> db_open db"
    "db_open db \<and> ev_binlog_ok e \<and> db_stale db = [] \<and> 0 < st_totalSizeLimit (db_settings db) \<longrightarrow>
      db_open db' \<and> (\<exists>K \<subseteq> dom (db_map db). db_map db' |` (- set (db_stale db')) = db_map db |` (- K) \<and> good_selection db K)"
proof (cases "db_stale db = []")
  case False
  with ok that [of db] show thesis by (simp add: db_prune_def)
next
  case True
  obtain stale1 db1 keys where 1: "collectTimeStale (ev_time e) order ([], 0) db = (stale1, db1)"
    "collectSizeStale order stale1 db1 = Some (keys, keys_size (db_map db) (set keys))" "set keys \<subseteq> dom (db_map db)"
    "db_ok db1" "frame db1 = frame db" "db_map db1 = db_map db"
    "0 < st_totalSizeLimit (db_settings db) \<longrightarrow> good_selection db (set keys)"
    by (rule collect_ok [OF assms])
  note f = frame_fields [OF 1(5)]
  have "db_stale db1 = []" using True f by simp
  from clear_selected_ok [OF 1(4) this, of keys "st_staleRemoveChunk (db_settings db1)" e] obtain db' where
    2: "db_prune order e db = Some db'" "db_ok db'" "db_settings db' = db_settings db1" "db_open db' \<longrightarrow> db_open db1"
      "db_open db1 \<and> ev_binlog_ok e \<longrightarrow> db_open db' \<and> db_map db' |` (- set (db_stale db')) = db_map db1 |` (- set keys)"
    using True 1(1,2) by (auto simp: db_prune_def)
  show thesis
    by (rule that [OF 2(1,2)]) (use 2(3-5) f 1(3,6,7) in auto)
qed

section \<open>Runs\<close>

lemma writeBundles_ok:
  assumes "db_ok db"
  shows "\<exists>db'. writeBundles e db = Some db' \<and> db_ok db' \<and> db_settings db' = db_settings db \<and> db_files db' = db_files db
    \<and> (\<forall>k. rel_option same_entry (db_map db' k) (db_map db k))
    \<and> (db_open db' \<longrightarrow> db_open db \<and> db_removing db' = {}) \<and> (db_open db \<and> ev_binlog_ok e \<longrightarrow> db_open db')"
proof -
  have pos: "0 < st_maxBundledRecords (db_settings db)" and inv: "journal_inv {} db"
    and le: "card (db_removing db) \<le> st_maxBundledRecords (db_settings db)"
    using assms by (auto simp: journal_inv_def checkSettings_def bundles_ok_def)
  from writeMultiRemove_ok [OF inv le, of e] obtain db1 error where
    1: "writeMultiRemove e db = Some (db1, error)" "journal_inv {} db1" "db_removing db1 = {}" "db_map db1 = db_map db"
      "db_accessed db1 = db_accessed db" "db_settings db1 = db_settings db" "db_files db1 = db_files db"
      "db_open db1 \<longrightarrow> db_open db" by blast
  have open1: "db_open db \<and> ev_binlog_ok e \<longrightarrow> db_open db1"
    using 1(1) by (auto simp: writeMultiRemove_def binlog_write_def Let_def split: if_splits)
  have b1: "bundles_ok db1" using assms 1(3,5,6) pos by (simp add: bundles_ok_def)
  show ?thesis
  proof (cases "track db \<and> db_accessed db \<noteq> {}")
    case False
    then have "writeBundles e db = Some db1" using 1(1,5,6) by (auto simp: writeBundles_def writeMultiAccess_def)
    with 1 b1 open1 show ?thesis by (simp add: rel_option_same)
  next
    case True
    have "card (db_accessed db1) \<le> st_maxBundledRecords (db_settings db1)" using assms 1(5,6) by (simp add: bundles_ok_def)
    from writeMultiAccessBlock_ok [OF 1(2) _ this, of e] True 1(6) obtain db2 error2 where
      2: "writeMultiAccessBlock e db1 = Some (db2, error2)" "journal_inv {} db2" "db_accessed db2 = {}"
        "db_map db2 = touch_keys (getRelative (db_time db2)) (sorted_list_of_set (db_accessed db1)) (db_map db1)"
        "db_removing db2 = db_removing db1" "db_settings db2 = db_settings db1" "db_files db2 = db_files db1"
        "db_open db2 \<longrightarrow> db_open db1" by auto
    have call: "writeBundles e db = Some db2" using True 1(1,5,6) 2(1) by (simp add: writeBundles_def writeMultiAccess_def)
    have "db_open db1 \<and> ev_binlog_ok e \<longrightarrow> db_open db2"
      using 2(1) by (auto simp: writeMultiAccessBlock_def binlog_write_def Let_def split: if_splits)
    moreover have "rel_option same_entry (db_map db2 k) (db_map db k)" for k
      unfolding 2(4) 1(4) by (cases "db_map db k") (auto simp: touch_keys_apply same_entry_def)
    moreover have "bundles_ok db2" using 1(3,6) 2(3,5,6) pos by (simp add: bundles_ok_def)
    moreover have "db_settings db2 = db_settings db" "db_files db2 = db_files db" "db_removing db2 = {}"
      using 1(3,6,7) 2(5-7) by simp_all
    ultimately show ?thesis using 1(8) 2(2,8) call open1 by blast
  qed
qed

lemma settings_limits_inv:
  assumes "db_ok db" "checkSettings ((db_settings db)\<lparr>st_totalSizeLimit := a, st_totalTimeLimit := b\<rparr>)"
  shows "db_ok (db\<lparr>db_settings := (db_settings db)\<lparr>st_totalSizeLimit := a, st_totalTimeLimit := b\<rparr>\<rparr>)"
proof -
  have "record_ok ((db_settings db)\<lparr>st_totalSizeLimit := a, st_totalTimeLimit := b\<rparr>) = record_ok (db_settings db)"
    by (simp add: fun_eq_iff record_ok_def store_ok_def list_all_iff split: binlog_record.splits)
  with assms show ?thesis
    by (simp add: journal_inv_def bundles_ok_def visible_def journal_map_def header_time_def stats_ok_def)
qed

text \<open>
  The operations a client or a timer may run, in any order. The journal may stop taking records at any
  moment (\<open>ev_binlog_ok\<close>), and files may resist deletion; \<open>put_env\<close> says that a value file can be written.
\<close>

inductive db_op :: "database \<Rightarrow> database \<Rightarrow> bool" where
  put: "put_env e val db \<Longrightarrow> db_put key val e db = Some (db', error) \<Longrightarrow> db_op db db'"
| putIfEmpty: "put_env e val db \<Longrightarrow> db_putIfEmpty key val e db = Some (db', error) \<Longrightarrow> db_op db db'"
| get: "db_get key (\<lambda>v d. Some (d, v)) e db = Some (db', val) \<Longrightarrow> db_op db db'"
| remove: "db_remove key e db = Some (db', error) \<Longrightarrow> db_op db db'"
| copyIfEmpty: "put_env e (stored_value e db src) db \<Longrightarrow> db_copyIfEmpty src dst e db = Some (db', error) \<Longrightarrow> db_op db db'"
| moveIfEmpty: "time_ok e db \<Longrightarrow> db_moveIfEmpty src dst e db = Some (db', error) \<Longrightarrow> db_op db db'"
| prune: "distinct order \<Longrightarrow> set order = dom (db_map db) \<Longrightarrow> \<forall>k x. db_map db k = Some x \<longrightarrow> en_useTime x < 2 ^ 63 \<Longrightarrow>
    db_prune order e db = Some db' \<Longrightarrow> db_op db db'"
| clearByTag: "db_clearByTag tag order e db = Some db' \<Longrightarrow> db_op db db'"
| staleChunk: "clearStaleChunk e db = Some db' \<Longrightarrow> db_op db db'"
| waitForCleaner: "clear_all_stale e db = Some db' \<Longrightarrow> db_op db db'"
| bundles: "writeBundles e db = Some db' \<Longrightarrow> db_op db db'"
| updateSettings: "db_updateSettings sizeLimit timeLimit e db = Some db' \<Longrightarrow> db_op db db'"
| compactorFail: "db_op db (compactorFail e db)"

text \<open>A journal that says the same as the one of the database, up to the removals that wait.\<close>

definition same_journal :: "binlog_record list \<Rightarrow> database \<Rightarrow> bool" where
  "same_journal journal db \<longleftrightarrow> list_all (record_ok (db_settings db)) journal
     \<and> (\<forall>k. k \<in> db_removing db \<or> fold (replay_record (track db) (header_time db)) journal Map.empty k = journal_map db k)"

text \<open>The database may also go over to the journal of a compactor.\<close>

inductive db_step :: "database \<Rightarrow> database \<Rightarrow> bool" where
  operation: "db_op db db' \<Longrightarrow> db_step db db'"
| compactorDone: "db_open db \<Longrightarrow> same_journal journal db \<Longrightarrow> compactorDone sw journal e db = Some db' \<Longrightarrow> db_step db db'"

inductive db_reach :: "database \<Rightarrow> bool" where
  opened: "checkSettings st \<Longrightarrow> openBinlog path e (fresh_database st base []) = Some db \<Longrightarrow> db_reach db"
| step: "db_reach db \<Longrightarrow> db_step db db' \<Longrightarrow> db_reach db'"

lemma checkSettings_limit: "checkSettings st \<Longrightarrow> 0 \<le> st_totalSizeLimit st"
  by (auto simp: checkSettings_def)

lemma compactor_fields:
  "journal_inv K (compactorFail e db) = journal_inv K db" "bundles_ok (compactorFail e db) = bundles_ok db"
  "journal_inv K (compactor_reset db) = journal_inv K db" "bundles_ok (compactor_reset db) = bundles_ok db"
  "db_map (compactorFail e db) = db_map db" "db_map (compactor_reset db) = db_map db"
  by (simp_all add: compactorFail_def compactor_reset_def bundles_ok_def)

lemma compactorDone_ok:
  assumes ok: "db_ok db" "db_open db" and j: "same_journal journal db" and call: "compactorDone sw journal e db = Some db'"
  shows "db_ok db' \<and> db_map db' = db_map db"
proof -
  have closed: "db_ok (db\<lparr>db_open := False\<rparr>)" "db_ok (db\<lparr>db_open := False, db_binlog := journal\<rparr>)"
    using ok by (auto simp: journal_inv_def bundles_ok_def stats_ok_def header_time_def)
  have "visible (db\<lparr>db_binlog := journal\<rparr>) = visible db"
    using j by (auto simp: same_journal_def visible_def journal_map_def header_time_def fun_eq_iff)
  then have "journal_inv {} (db\<lparr>db_open := False, db_binlog := journal, db_open := True, db_excess := x\<rparr>)" for x
    using ok j by (auto simp: journal_inv_def same_journal_def visible_def journal_map_def header_time_def stats_ok_def fun_eq_iff)
  then have opened: "db_ok (db\<lparr>db_binlog := journal, db_open := True, db_excess := x\<rparr>)" for x
    using ok by (simp add: bundles_ok_def)
  show ?thesis
    using call ok closed opened by (auto simp: compactorDone_def compactor_fields Let_def split: if_splits option.splits)
qed

lemma stale_db_ok: "db_ok db \<Longrightarrow> db_ok (db\<lparr>db_stale := s\<rparr>)"
  by simp

lemma db_op_ok:
  assumes "db_op db db'" "db_ok db"
  shows "db_ok db'"
  using assms
proof (induction rule: db_op.induct)
  case (put e val db key db' error)
  then show ?case using db_put_ok [of db e val key] by auto
next
  case (putIfEmpty e val db key db' error)
  then show ?case using db_put_ok [of db e val key] by (auto simp: db_putIfEmpty_def split: if_splits)
next
  case (get key e db db' val)
  then show ?case using db_get_ok [of db key e] by auto
next
  case (remove key e db db' error)
  then show ?case using db_remove_ok [of db key e] by auto
next
  case (copyIfEmpty e db src dst db' error)
  then show ?case using db_copyIfEmpty_ok [of db e src dst] by auto
next
  case (moveIfEmpty e db src dst db' error)
  then show ?case using db_moveIfEmpty_ok [of db e src dst] by auto
next
  case (prune order db e db')
  have "0 \<le> st_totalSizeLimit (db_settings db)" using prune.prems checkSettings_limit by (simp add: journal_inv_def)
  from db_prune_ok [OF prune.prems prune.hyps(3,1,2) this, of e] prune.hyps(4) show ?case by force
next
  case (clearByTag tag order e db db')
  then show ?case
    using clearStaleChunk_ok [OF stale_db_ok [OF clearByTag.prems], of e] by (auto simp: db_clearByTag_def Let_def split: if_splits)
      (metis option.inject)+
next
  case (staleChunk e db db')
  then show ?case using clearStaleChunk_ok [of db e] by auto
next
  case (waitForCleaner e db db')
  then show ?case using clear_all_stale_ok [of db e] by auto
next
  case (bundles e db db')
  then show ?case using writeBundles_ok [of db e] by auto
next
  case (updateSettings sizeLimit timeLimit e db db')
  then show ?case using settings_limits_inv [where a = sizeLimit and b = timeLimit] by (auto simp: db_updateSettings_def Let_def split: if_splits)
next
  case (compactorFail db e)
  then show ?case by (simp add: compactor_fields)
qed

lemma db_step_ok: "db_step db db' \<Longrightarrow> db_ok db \<Longrightarrow> db_ok db'"
proof (induction rule: db_step.induct)
  case (compactorDone db journal sw e db')
  then show ?case using compactorDone_ok [of db journal sw e db'] by blast
qed (rule db_op_ok)

lemma adjustRelativeTime_ok:
  assumes "db_ok db" "db_accessed db = {}"
  shows "\<exists>db'. adjustRelativeTime e db = Some db' \<and> db_ok db' \<and> db_map db' = db_map db"
proof (cases "track db \<and> GetUnixtime (ev_time e) < uint (tp_system (db_time db))")
  case False
  then show ?thesis using assms(1) by (auto simp: adjustRelativeTime_def)
next
  case True
  have inv: "journal_inv {} db" and le: "card (db_accessed db) \<le> st_maxBundledRecords (db_settings db)"
    and pos: "0 < st_maxBundledRecords (db_settings db)" using assms by (auto simp: bundles_ok_def)
  from writeMultiAccessBlock_ok [OF inv _ le, of e] True obtain db' error where
    1: "writeMultiAccessBlock e db = Some (db', error)" "journal_inv {} db'" "db_accessed db' = {}"
      "db_map db' = touch_keys (getRelative (db_time db')) (sorted_list_of_set (db_accessed db)) (db_map db)"
      "db_removing db' = db_removing db" "db_settings db' = db_settings db" by blast
  have "db_map db' = db_map db" using 1(4) assms(2) by simp
  moreover have "bundles_ok db'" using assms(1) 1(3,5,6) pos by (simp add: bundles_ok_def)
  ultimately show ?thesis using True 1(1,2) by (simp add: adjustRelativeTime_def)
qed

text \<open>Opening a journal replays it.\<close>

lemma openBinlog_replays:
  assumes st: "checkSettings st" and rs: "list_all (record_ok st) rs"
    and dbc: "dbc = (fresh_database st base [])\<lparr>db_header := hdr, db_binlog := rs, db_files := f, db_clearingStale := c\<rparr>"
    and h: "h = (case hdr of Some x \<Rightarrow> x | None \<Rightarrow> if st_trackEstimatedTime st then word_of_int (GetUnixtime (ev_time e)) else 0)"
  shows "\<exists>db. openBinlog path e dbc = Some db \<and> db_ok db
    \<and> db_map db = fold (replay_record (st_trackEstimatedTime st) (ucast h)) rs Map.empty"
proof -
  define db0 where "db0 = dbc\<lparr>db_header := Some h, db_time := setRelative (ucast h) (no_time\<lparr>tp_system := h\<rparr>),
    db_path := path, db_open := True\<rparr>"
  have call: "openBinlog path e dbc = readBinlog e db0"
    by (simp add: openBinlog_def db0_def h dbc fresh_database_def Let_def split: option.split)
  have f0: "db_settings db0 = st" "db_map db0 = Map.empty" "db_binlog db0 = rs" "db_removing db0 = {}" "db_accessed db0 = {}"
    "db_header db0 = Some h" "getRelative (db_time db0) = ucast h"
    by (simp_all add: db0_def dbc fresh_database_def)
  have stats: "stats_ok db0"
    by (simp add: stats_ok_def db0_def dbc fresh_database_def summary_of_def flat_map_get_def flat_map_find_def
        flat_multi_map_findFirst_def key_out_of_span_def empty_summary_def)
  have acc: "\<forall>t ks. MultiAccess t ks \<in> set rs \<longrightarrow> st_trackEstimatedTime (db_settings db0)"
    using rs f0(1) by (auto simp: list_all_iff record_ok_def)
  from handle_records_ok [OF stats acc] rs obtain db1 where
    1: "handle_records rs db0 = Some (db1, True)" "replayed db0 db1"
      "db_map db1 = fold (replay_record (st_trackEstimatedTime st) (ucast h)) rs Map.empty" unfolding f0 by auto
  note f1 = replayed_fields [OF 1(2), unfolded f0]
  have vis: "visible db1 = db_map db1" using f1 1(3) by (simp add: visible_def journal_map_def header_time_def fun_eq_iff)
  have "journal_inv {} db1"
    using 1(2) f1 st rs f0 vis by (auto simp: journal_inv_def replayed_def header_time_def)
  moreover have "bundles_ok db1" using f1 st by (simp add: bundles_ok_def checkSettings_def)
  ultimately obtain db2 where 2: "adjustRelativeTime e db1 = Some db2" "db_ok db2" "db_map db2 = db_map db1"
    using adjustRelativeTime_ok [of db1 e] f1 by auto
  have "openBinlog path e dbc = Some (optimize e db2)" using call 1(1) 2(1) f0(3) by (simp add: readBinlog_def)
  then show ?thesis using 2(2,3) 1(3) by simp
qed

lemma openBinlog_fresh_ok:
  assumes "checkSettings st" "openBinlog path e (fresh_database st base []) = Some db"
  shows "db_ok db"
  using openBinlog_replays [OF assms(1), where rs = "[]" and hdr = None and dbc = "fresh_database st base []"
      and base = base and f = Map.empty and c = False and e = e and path = path] assms(2)
  by (simp add: fresh_database_def)

lemma db_reach_ok: "db_reach db \<Longrightarrow> db_ok db"
  by (induction rule: db_reach.induct) (auto dest: openBinlog_fresh_ok db_step_ok)

section \<open>Theorems about the cache\<close>



text \<open>
  C29. What is put is what is got: with a working journal and no file of an entry missing, \<open>put\<close> reports
  no error, \<open>get\<close> then finds the value with its tag, and the value found for every other key is the same
  as before.
\<close>

theorem cache_put_get:
  assumes "db_reach db" "db_open db" "ev_binlog_ok e" "files_ok db" "put_env e val db" "fst val \<noteq> []"
  shows "\<exists>db' db''. db_put key val e db = Some (db', NoError) \<and> files_ok db'
    \<and> db_get key (\<lambda>v d. Some (d, v)) e db' = Some (db'', val)
    \<and> (\<forall>k. k \<noteq> key \<longrightarrow> stored_value e db' k = stored_value e db k)"
proof -
  obtain db' where 1: "db_put key val e db = Some (db', NoError)" "db_ok db'" "files_ok db'" "holds e db' key val"
    "others_kept key db db'" using db_put_ok [OF db_reach_ok [OF assms(1)] assms(5), of key] assms by auto
  have "stored_value e db' k = stored_value e db k" if "k \<noteq> key" for k
  proof (cases "db_map db k")
    case None
    then have "rel_option same_entry (db_map db' k) None" using 1(5) that unfolding others_kept_def by metis
    then have "db_map db' k = None" by (cases "db_map db' k") simp_all
    with None show ?thesis by (simp add: stored_value_def)
  next
    case (Some x)
    have "rel_option same_entry (db_map db' k) (Some x)" using 1(5) that Some unfolding others_kept_def by metis
    then obtain y where y: "db_map db' k = Some y" "same_entry y x" by (cases "db_map db' k") simp_all
    have "db_files db' (en_place x) = db_files db (en_place x)" using 1(5) that Some by (auto simp: others_kept_def)
    then have "readValueData (en_place x) (en_size x) db' = readValueData (en_place x) (en_size x) db" by (rule readValueData_cong)
    with Some y same_entry_fields [OF y(2)] show ?thesis by (simp add: stored_value_def Let_def)
  qed
  moreover have "stored_value e db' key = val" using holds_stored [OF 1(4) assms(6)] .
  ultimately show ?thesis using 1 db_get_ok [OF 1(2), of key e] by auto
qed

lemma writeBundles_header:
  "writeBundles e db = Some db' \<Longrightarrow> db_header db' = db_header db \<and> db_base db' = db_base db"
  by (auto simp: writeBundles_def writeMultiRemove_def writeMultiAccess_def writeMultiAccessBlock_def binlog_write_def
      Let_def bind_eq_Some_conv split: if_splits)

lemma same_entries_total:
  assumes "stats_ok db" "stats_ok db'" "\<forall>k. rel_option same_entry (db_map db' k) (db_map db k)"
  shows "db_totalSize db' = db_totalSize db"
proof -
  have "dom (db_map db') = dom (db_map db)" using assms(3) by (auto simp: dom_def option_rel_Some1 option_rel_Some2)
    (metis option_rel_Some1, metis option_rel_Some2)
  then have "map_sum en_size (db_map db') = map_sum en_size (db_map db)"
    by (rule map_sum_cong) (metis assms(3) option.rel_inject(2) same_entry_fields)
  with assms(1,2) show ?thesis by (simp add: stats_ok_def)
qed


text \<open>
  A cache over its size limit is under it after \<open>prune\<close> and the clearing of the stale keys, which
  ends, whatever the order of the hash map and the number of keys per chunk; what is left are entries it
  had, none of them last used before one that was evicted.
\<close>

theorem cache_prune_limit:
  assumes "db_reach db" "db_open db" "ev_binlog_ok e" "db_stale db = []"
    and "0 < st_totalSizeLimit (db_settings db)" "\<forall>k x. db_map db k = Some x \<longrightarrow> en_useTime x < 2 ^ 63"
    and "distinct order" "set order = dom (db_map db)"
  shows "\<exists>db1 db2. db_prune order e db = Some db1 \<and> clear_all_stale e db1 = Some db2
    \<and> db_totalSize db2 \<le> st_totalSizeLimit (db_settings db) \<and> db_map db2 \<subseteq>\<^sub>m db_map db
    \<and> (\<forall>k \<in> dom (db_map db) - dom (db_map db2). \<forall>k' \<in> dom (db_map db2).
        en_useTime (the (db_map db k)) \<le> en_useTime (the (db_map db k')))"
proof -
  note ok = db_reach_ok [OF assms(1)]
  have "0 \<le> st_totalSizeLimit (db_settings db)" using assms(5) by simp
  from db_prune_ok [OF ok assms(6-8) this, of e] obtain db1 K where
    1: "db_prune order e db = Some db1" "db_ok db1" "db_open db1" "K \<subseteq> dom (db_map db)"
      "db_map db1 |` (- set (db_stale db1)) = db_map db |` (- K)" "good_selection db K"
    using assms(2-5) by metis
  from clear_all_stale_ok [OF 1(2), of e] 1(3) assms(3) obtain db2 where
    2: "clear_all_stale e db1 = Some db2" "db_ok db2" "db_map db2 = db_map db |` (- K)" unfolding 1(5) by blast
  have fin: "finite (dom (db_map db))" and tot: "db_totalSize db = keys_size (db_map db) (dom (db_map db))"
    using ok by (auto simp: journal_inv_def stats_ok_def keys_size_dom)
  have d2: "dom (db_map db2) = dom (db_map db) - K" using 2(3) by auto
  have "db_totalSize db2 = keys_size (db_map db2) (dom (db_map db2))"
    using 2(2) by (auto simp: journal_inv_def stats_ok_def keys_size_dom)
  also have "\<dots> = keys_size (db_map db) (dom (db_map db) - K)"
    unfolding d2 keys_size_def by (rule sum.cong) (auto simp: 2(3))
  also have "\<dots> = keys_size (db_map db) (dom (db_map db)) - keys_size (db_map db) K"
    using keys_size_Un [of K "dom (db_map db) - K" "db_map db"] fin 1(4) by (simp add: Un_absorb1 finite_subset)
  finally have "db_totalSize db2 \<le> st_totalSizeLimit (db_settings db)" using 1(6) tot by (simp add: good_selection_def)
  moreover have "db_map db2 \<subseteq>\<^sub>m db_map db" using 2(3) by (auto simp: map_le_def)
  moreover have "\<forall>k \<in> dom (db_map db) - dom (db_map db2). \<forall>k' \<in> dom (db_map db2).
        en_useTime (the (db_map db k)) \<le> en_useTime (the (db_map db k'))"
    using 1(6) d2 by (auto simp: good_selection_def)
  ultimately show ?thesis using 1(1) 2(1) by blast
qed

text \<open>
  C33. The loop of \<open>waitForCleaner\<close> ends in every reachable state: nothing is stale any more, and in an open
  cache whose journal takes the records exactly the entries with stale keys are gone.
\<close>

theorem cache_wait_terminates:
  assumes "db_reach db"
  shows "\<exists>db'. clear_all_stale e db = Some db' \<and> db_stale db' = []
    \<and> (db_open db \<and> ev_binlog_ok e \<longrightarrow> db_open db' \<and> db_map db' = db_map db |` (- set (db_stale db)))"
  using clear_all_stale_ok [OF db_reach_ok [OF assms], of e] by blast

section \<open>A sample run\<close>

definition sample_env :: cache_env where
  "sample_env = \<lparr>ev_time = 1000, ev_now = 0, ev_binlog_ok = True, ev_open = Success, ev_written = True, ev_partial = [],
     ev_unlink = True, ev_places = [[1, 2, 3, 4, 5, 6, 7], [7, 6, 5, 4, 3, 2, 1]], ev_padding = (\<lambda>i. 0),
     ev_checksum = (\<lambda>bs. of_nat (length bs))\<rparr>"

definition small_settings :: cache_settings where
  "small_settings = default_settings\<lparr>st_maxDataSize := 20, st_totalSizeLimit := 21\<rparr>"

definition opened_db :: database where
  "opened_db = (fresh_database small_settings ''base/'' [])\<lparr>db_header := Some 1000,
     db_time := setRelative 1000 (no_time\<lparr>tp_system := 1000\<rparr>), db_path := ''base/0/'', db_open := True\<rparr>"

lemma sample_settings: "checkSettings small_settings"
  by (simp add: checkSettings_def small_settings_def default_settings_def kDataSizeLimit_def kBundledRecordsLimit_def)

lemma sample_open: "openBinlog ''base/0/'' sample_env (fresh_database small_settings ''base/'' []) = Some opened_db"
  by (simp add: openBinlog_def fresh_database_def opened_db_def readBinlog_def adjustRelativeTime_def optimize_def
      startDelayedPruning_def checkCompactor_def sample_env_def GetUnixtime_def small_settings_def default_settings_def Let_def)

lemma opened_reach: "db_reach opened_db"
  using db_reach.opened [OF sample_settings sample_open] .

lemma sample_put_env: "length bs \<le> 20 \<Longrightarrow> put_env sample_env (bs, tag) opened_db"
  by (auto simp: put_env_def opened_db_def fresh_database_def small_settings_def time_ok_def sample_env_def GetUnixtime_def
      isFreePlace_def)

theorem cache_put_get_witness:
  "\<exists>db' db''. db_put (Key 1 2) ([5, 6, 7], 9) sample_env opened_db = Some (db', NoError)
    \<and> db_get (Key 1 2) (\<lambda>v d. Some (d, v)) sample_env db' = Some (db'', ([5, 6, 7], 9))"
  using cache_put_get [OF opened_reach, of sample_env "([5, 6, 7], 9)" "Key 1 2"] sample_put_env [of "[5, 6, 7]" 9]
  by (auto simp: opened_db_def fresh_database_def sample_env_def files_ok_def)

text \<open>Two values of twenty bytes, over the limit of twenty-one.\<close>

definition sample_value :: "byte_list \<times> u8" where "sample_value = (replicate 20 1, 9)"

lemmas sample_eval = sample_value_def db_put_def chooseKeyPlace_def isFreePlace_def writeNewEntry_def writeKeyPlace_def
  record_base_def time_to_write_def countTimePoint_def GetUnixtime_def store_setSize_def ReadTo_def write_store_def
  binlog_write_def processRecordStore_def store_getSize_def empty_store_def applyTimePoint_def setMapEntry_def
  updateStats_def add_summary_def flat_map_subscript_def empty_summary_def empty_entry_def present_def store_length_def
  count_minimal_def optimize_def startDelayedPruning_def pruneBeforeTime_def countRelativeTime_def checkCompactor_def Let_def
  opened_db_def fresh_database_def small_settings_def default_settings_def sample_env_def

lemma sample_puts:
  "\<exists>db1 db2. db_put (Key 1 2) sample_value sample_env opened_db = Some (db1, NoError)
    \<and> put_env sample_env sample_value db1 \<and> db_put (Key 1 3) sample_value sample_env db1 = Some (db2, NoError)
    \<and> db_open db2 \<and> db_stale db2 = [] \<and> db_totalSize db2 = 40 \<and> st_totalSizeLimit (db_settings db2) = 21
    \<and> dom (db_map db2) = {Key 1 3, Key 1 2} \<and> (\<forall>k x. db_map db2 k = Some x \<longrightarrow> en_useTime x = 1000)"
  using ReadFrom_pack [of 20 3] by (simp add: sample_eval put_env_def time_ok_def)

lemma filled_reach:
  obtains db where "db_reach db" "db_open db" "db_stale db = []" "db_totalSize db = 40"
    "st_totalSizeLimit (db_settings db) = 21" "dom (db_map db) = {Key 1 3, Key 1 2}"
    "\<forall>k x. db_map db k = Some x \<longrightarrow> en_useTime x = 1000"
proof -
  obtain db1 db2 where 1: "db_put (Key 1 2) sample_value sample_env opened_db = Some (db1, NoError)"
    "put_env sample_env sample_value db1" "db_put (Key 1 3) sample_value sample_env db1 = Some (db2, NoError)"
    and 2: "db_open db2" "db_stale db2 = []" "db_totalSize db2 = 40" "st_totalSizeLimit (db_settings db2) = 21"
      "dom (db_map db2) = {Key 1 3, Key 1 2}" "\<forall>k x. db_map db2 k = Some x \<longrightarrow> en_useTime x = 1000"
    using sample_puts by blast
  have "put_env sample_env sample_value opened_db" using sample_put_env [of "replicate 20 1"] by (simp add: sample_value_def)
  then have "db_reach db1" using db_reach.step [OF opened_reach db_step.operation [OF db_op.put [OF _ 1(1)]]] by blast
  then have "db_reach db2" using db_reach.step [OF _ db_step.operation [OF db_op.put [OF 1(2,3)]]] by blast
  with 2 that show thesis by blast
qed



theorem cache_wait_terminates_witness:
  "\<exists>db'. clear_all_stale sample_env opened_db = Some db' \<and> db_stale db' = []"
  using cache_wait_terminates [OF opened_reach, of sample_env] by blast


theorem cache_prune_limit_witness:
  "\<exists>db db1 db2. db_totalSize db = 40 \<and> db_prune [Key 1 3, Key 1 2] sample_env db = Some db1
    \<and> clear_all_stale sample_env db1 = Some db2 \<and> db_totalSize db2 \<le> 21"
proof -
  obtain db where db: "db_reach db" "db_open db" "db_stale db = []" "db_totalSize db = 40"
    "st_totalSizeLimit (db_settings db) = 21" "dom (db_map db) = {Key 1 3, Key 1 2}"
    "\<forall>k x. db_map db k = Some x \<longrightarrow> en_useTime x = 1000" by (rule filled_reach)
  have "\<forall>k x. db_map db k = Some x \<longrightarrow> en_useTime x < 2 ^ 63" using db(7) by auto
  moreover have "ev_binlog_ok sample_env" by (simp add: sample_env_def)
  ultimately show ?thesis
    using cache_prune_limit [OF db(1,2) _ db(3), of sample_env "[Key 1 3, Key 1 2]"] db(4-6) by auto
qed

section \<open>A removal that is forgotten\<close>


section \<open>Versions\<close>

lemma versions_set:
  "sorted_wrt (<) vs \<Longrightarrow> sorted_wrt (<) (fold (\<lambda>v vs. fst (flat_set_insert (<) v vs)) xs vs)
    \<and> set (fold (\<lambda>v vs. fst (flat_set_insert (<) v vs)) xs vs) = set xs \<union> set vs" for vs :: "int list"
  by (induction xs arbitrary: vs) (auto simp: flat_set_less.invar_ins flat_set_less.elems_ins)

lemma version_loop_stopped:
  "foldl (\<lambda>(result, stop) version. if stop \<or> result \<noteq> version then (result, True) else (result + 1, False)) (r, True) vs
    = (r :: int, True)"
  by (induction vs) simp_all

lemma version_loop:
  "sorted_wrt (<) vs \<Longrightarrow> \<forall>v \<in> set vs. r \<le> v \<Longrightarrow>
    fst (foldl (\<lambda>(result, stop) version. if stop \<or> result \<noteq> version then (result, True) else (result + 1, False)) (r, False) vs) = q
    \<Longrightarrow> r \<le> q \<and> q \<notin> set vs \<and> {r..<q} \<subseteq> set vs" for r :: int
proof (induction vs arbitrary: r)
  case (Cons v vs)
  show ?case
  proof (cases "r = v")
    case True
    have "\<forall>w \<in> set vs. r + 1 \<le> w" using Cons.prems(1) True by auto
    with Cons.IH [of "r + 1"] Cons.prems(1,3) True have "r + 1 \<le> q" "q \<notin> set vs" "{r + 1..<q} \<subseteq> set vs" by auto
    moreover have "{r..<q} \<subseteq> insert r {r + 1..<q}" by auto
    ultimately show ?thesis using True by auto
  next
    case False
    then have "q = r" using Cons.prems(3) by (simp add: version_loop_stopped)
    moreover have "r \<notin> set (v # vs)" using Cons.prems(1,2) False by fastforce
    ultimately show ?thesis by simp
  qed
qed simp

text \<open>
  The version chosen for a new cache directory is free, and it is the smallest free one, when no
  directory is named by a negative number.
\<close>

theorem findAvailableVersion_least:
  assumes "\<forall>v \<in> set entries. 0 \<le> v"
  shows "findAvailableVersion entries \<notin> set entries \<and> 0 \<le> findAvailableVersion entries
    \<and> {0..<findAvailableVersion entries} \<subseteq> set entries"
  using version_loop [of "fold (\<lambda>v vs. fst (flat_set_insert (<) v vs)) entries []" 0] versions_set [of "[]" entries] assms
  by (simp add: findAvailableVersion_def Let_def)

theorem findAvailableVersion_least_witness: "findAvailableVersion [1, 0, 4] \<notin> {1, 0, 4}"
  using findAvailableVersion_least [of "[1, 0, 4]"] by simp

section \<open>Places\<close>

lemma pushDigit_inj: "pushDigit a = pushDigit b \<Longrightarrow> a < 16 \<Longrightarrow> b < 16 \<Longrightarrow> a = b"
proof -
  assume eq: "pushDigit a = pushDigit b" and lt: "a < 16" "b < 16"
  define f where "f n = (if n < 10 then 0x30 + n else 0x41 + (n - 10))" for n :: nat
  have p: "pushDigit d = char_of (f (unat d))" for d
    by (simp add: pushDigit_def f_def word_less_nat_alt)
  have "unat a < 16" "unat b < 16" using lt by (simp_all add: word_less_nat_alt)
  then have lt': "f (unat a) < 256" "f (unat b) < 256" by (simp_all add: f_def)
  have "f (unat a) = f (unat b)"
    using eq lt' unfolding p by (metis mod_less of_char_of)
  then have "unat a = unat b" by (auto simp: f_def split: if_splits)
  then show "a = b" by (simp add: word_unat_eq_iff)
qed

lemma push_byte_inj: "push_byte a = push_byte b \<Longrightarrow> a = b"
proof -
  assume "push_byte a = push_byte b"
  then have eq: "pushDigit (a AND 0x0F) = pushDigit (b AND 0x0F)" "pushDigit (drop_bit 4 a) = pushDigit (drop_bit 4 b)"
    by (simp_all add: push_byte_def)
  have m: "(0x0F :: u8) = mask 4" by (simp add: mask_eq_exp_minus_1)
  have lo: "w AND 0x0F < 16" for w :: u8 unfolding m by (rule le_less_trans [OF word_and_le1]) (simp add: mask_eq_exp_minus_1)
  have hi: "drop_bit 4 w < 16" for w :: u8
    using unsigned_less [of w, where ?'a = nat] by (simp add: word_less_nat_alt drop_bit_eq_div unat_div)
  have "a AND 0x0F = b AND 0x0F" "drop_bit 4 a = drop_bit 4 b" using pushDigit_inj eq lo hi by blast+
  then show "a = b" unfolding m by (metis take_bit_eq_mask bits_ident)
qed

lemma push_byte_append: "push_byte a @ xs = push_byte b @ ys \<longleftrightarrow> a = b \<and> xs = ys"
proof -
  have "length (push_byte a) = length (push_byte b)" by (simp add: push_byte_def)
  then show ?thesis using push_byte_inj by (auto simp: append_eq_append_conv)
qed

lemma push_byte_not_Nil: "push_byte a \<noteq> []"
  by (simp add: push_byte_def)

lemma push_bytes_inj: "concat (map push_byte xs) = concat (map push_byte ys) \<longleftrightarrow> xs = ys"
proof (induction xs arbitrary: ys)
  case Nil
  then show ?case by (cases ys) (simp_all add: push_byte_not_Nil)
next
  case (Cons x xs)
  then show ?case by (cases ys) (simp_all add: push_byte_not_Nil push_byte_append)
qed

text \<open>
  Different places have different files: the path made from the bytes of a place determines them.
\<close>

theorem placePath_inj: "placePath p db = placePath q db \<longleftrightarrow> p = q"
  by (simp add: placePath_def PlaceFromId_def push_byte_not_Nil push_byte_append push_bytes_inj split: list.split)

end
