(* ===== verification/CacheCompactor.thy ===== *)
theory CacheCompactor
  imports CacheBinlog CacheRuns
begin

text \<open>
  \<open>storage_cache_compactor.{h,cpp}\<close>: the compactor reads the journal up to a fixed size, asks the database
  chunk by chunk for the current entries of the keys it finds, writes them to a new journal and then
  catches up with the records that were appended meanwhile. The compactor runs beside the database: the
  answers to its questions come from the states \<open>dbs 0\<close>, \<open>dbs 1\<close>, ... that the database has when it gets to
  them, and every attempt to catch up sees the journal as it is then.
\<close>

section \<open>Reading the keys\<close>

definition push_keys :: "cache_key list record_handler" where
  "push_keys r result =
     (case r of
        StoreRecord s \<Rightarrow> Some (result @ [sr_key s], True)
      | MultiStore rs \<Rightarrow> Some (result @ map sr_key rs, True)
      | _ \<Rightarrow> Some (result, True))"

definition readBlock ::
    "'q file_env \<Rightarrow> 'q binlog_wrapper \<Rightarrow> cache_key list \<Rightarrow> ('q binlog_wrapper \<times> cache_key list \<times> bool) option" where
  "readBlock e w result =
     (if CheckSettings (bw_settings w)
      then map_option (\<lambda>(w1, result1, finished). (w1, result1, \<not> finished)) (readTillEnd e push_keys w result) else None)"

partial_function (option) readChunk ::
    "'q file_env \<Rightarrow> nat \<Rightarrow> 'q binlog_wrapper \<Rightarrow> cache_key list \<Rightarrow> ('q binlog_wrapper \<times> cache_key list) option" where
  [code]: "readChunk e limit w result =
     (if length result < limit
      then do {
        (w1, result1, more_data) \<leftarrow> readBlock e w result;
        if more_data then readChunk e limit w1 result1 else Some (w1, result1)
      }
      else Some (w, result))"

section \<open>Writing the entries\<close>

record 'q compactor =
  co_settings :: cache_settings
  co_systemTime :: u32
  co_wrapper :: "'q binlog_wrapper"
  co_compact :: "'q enc_file"
  co_written :: "cache_key set"
  co_list :: "store list"

definition raw_record :: "cache_settings \<Rightarrow> u32 \<Rightarrow> cache_key \<times> entry \<Rightarrow> store option" where
  "raw_record st systemTime raw =
     map_option (\<lambda>r. r\<lparr>sr_checksum := en_checksum (snd raw), sr_tag := en_tag (snd raw), sr_place := en_place (snd raw),
         sr_time := (if tracks st then setRelative (en_useTime (snd raw)) (no_time\<lparr>tp_system := systemTime\<rparr>) else no_time)\<rparr>)
       (store_setSize (en_size (snd raw)) (empty_store\<lparr>sr_key := fst raw\<rparr>))"

definition addListRecord :: "cache_key \<times> entry \<Rightarrow> 'q compactor \<Rightarrow> 'q compactor option" where
  "addListRecord raw c =
     (if fst raw \<in> co_written c then Some c
      else map_option (\<lambda>r. c\<lparr>co_written := insert (fst raw) (co_written c), co_list := co_list c @ [r]\<rparr>)
        (raw_record (co_settings c) (co_systemTime c) raw))"

text \<open>\<open>fillList\<close> returns the values that did not fit any more; the part size is \<open>maxBundledRecords\<close>.\<close>

fun fillList :: "(cache_key \<times> entry) list \<Rightarrow> 'q compactor \<Rightarrow> ((cache_key \<times> entry) list \<times> 'q compactor) option" where
  "fillList [] c = Some ([], c)"
| "fillList (raw # rest) c =
     (if length (co_list c) = st_maxBundledRecords (co_settings c) then Some (raw # rest, c)
      else Option.bind (addListRecord raw c) (fillList rest))"

definition writeList :: "'q file_env \<Rightarrow> 'q compactor \<Rightarrow> ('q compactor \<times> bool) option" where
  "writeList e c =
     (if co_list c = [] then Some (c, True)
      else if \<not> multi_count_ok (length (co_list c)) then None
      else map_option (\<lambda>(f, good). (c\<lparr>co_compact := f, co_list := []\<rparr>, good))
        (write_record e (tracks (co_settings c)) (MultiStore (co_list c)) (co_compact c)))"

partial_function (option) processValues ::
    "'q file_env \<Rightarrow> (cache_key \<times> entry) list \<Rightarrow> 'q compactor \<Rightarrow> ('q compactor \<times> bool) option" where
  [code]: "processValues e values c =
     do {
       (left, c1) \<leftarrow> fillList values c;
       if left = [] then Some (c1, True)
       else do {
         (c2, good) \<leftarrow> writeList e c1;
         if good then processValues e left c2 else Some (c2, False)
       }
     }"

text \<open>
  The run of the compactor from \<open>parseChunk\<close> on: the \<open>n\<close>-th chunk of keys is answered by the database \<open>dbs n\<close>.
  The result says whether the new journal is complete, up to the catching up.
\<close>

partial_function (option) compact_run ::
    "'q file_env \<Rightarrow> (nat \<Rightarrow> database) \<Rightarrow> nat \<Rightarrow> 'q compactor \<Rightarrow> ('q compactor \<times> bool) option" where
  [code]: "compact_run e dbs n c =
     do {
       (w, keys) \<leftarrow> readChunk e (st_compactChunkSize (co_settings c)) (co_wrapper c) [];
       let c1 = c\<lparr>co_wrapper := w\<rparr>;
       if bw_failed w then Some (c1, False)
       else if keys = [] then writeList e c1
       else do {
         (c2, good) \<leftarrow> processValues e (getManyRaw keys (dbs n)) c1;
         if good then compact_run e dbs (Suc n) c2 else Some (c2, False)
       }
     }"

section \<open>Catching up\<close>

partial_function (option) catch_loop ::
    "'q file_env \<Rightarrow> nat \<Rightarrow> int \<Rightarrow> int \<Rightarrow> 'q enc_file \<Rightarrow> 'q enc_file \<Rightarrow> ('q enc_file \<times> int) option" where
  [code]: "catch_loop e block till start binlog compact =
     (let limit = min (till - start) (int block) in
      do {
        (binlog1, readBytes, bs) \<leftarrow> file_read e (nat limit) binlog;
        if readBytes = 0 \<or> readBytes > limit then Some (compact, 0)
        else do {
          (compact1, good, _) \<leftarrow> file_write e bs compact;
          if \<not> good then Some (compact1, 0)
          else if start + readBytes \<noteq> till then catch_loop e block till (start + readBytes) binlog1 compact1
          else Some (compact1, till)
        }
      })"

definition CatchUp ::
    "'q file_env \<Rightarrow> byte_list \<Rightarrow> byte_list \<Rightarrow> nat \<Rightarrow> int \<Rightarrow> 'q enc_file \<Rightarrow> 'q enc_file \<Rightarrow> ('q enc_file \<times> int) option" where
  "CatchUp e key salt block start binlog compact =
     do {
       (binlog1, result1) \<leftarrow> file_open e True ModeRead key salt binlog;
       if result1 \<noteq> Success then Some (compact, 0)
       else let till = fl_dataSize binlog1 in
         if till = start then Some (compact, till)
         else if till < start then Some (compact, 0)
         else let (binlog2, good1) = file_seek e start binlog1 in
           if \<not> good1 then Some (compact, 0)
           else do {
             (compact1, result2) \<leftarrow> file_open e True ModeReadAppend key salt compact;
             if result2 \<noteq> Success then Some (compact1, 0)
             else let (compact2, good2) = file_seek e (fl_dataSize compact1) compact1 in
               if \<not> good2 then Some (file_close e compact2, 0)
               else map_option (\<lambda>(compact3, result). (file_close e compact3, result)) (catch_loop e block till start binlog2 compact2)
           }
     }"

text \<open>
  \<open>finalize\<close>: the \<open>n\<close>-th attempt sees the journal \<open>binlogs n\<close>; it ends when nothing was appended meanwhile
  or the amount stops shrinking, and zero is a failure. The amount is kept in an \<open>int\<close>.
\<close>

partial_function (option) finalize ::
    "'q file_env \<Rightarrow> byte_list \<Rightarrow> byte_list \<Rightarrow> nat \<Rightarrow> (nat \<Rightarrow> 'q enc_file) \<Rightarrow> nat \<Rightarrow> int \<Rightarrow> int \<Rightarrow> 'q enc_file \<Rightarrow> ('q enc_file \<times> int) option" where
  [code]: "finalize e key salt block binlogs n lastCatchUp start compact =
     do {
       (compact1, till) \<leftarrow> CatchUp e key salt block start (binlogs n) compact;
       if till = 0 then Some (compact1, 0)
       else if till = start \<or> lastCatchUp > 0 \<and> till - start \<ge> lastCatchUp then Some (compact1, till)
       else finalize e key salt block binlogs (Suc n) (signed_take_bit 31 (till - start)) till compact1
     }"

section \<open>The whole run\<close>

datatype compactor_message = CompactorFail | CompactorDone int

definition compactor_new :: "cache_settings \<Rightarrow> int \<Rightarrow> u32 \<Rightarrow> 'q enc_file \<Rightarrow> 'q enc_file \<Rightarrow> 'q compactor" where
  "compactor_new st till systemTime binlog compact =
     \<lparr>co_settings = st, co_systemTime = systemTime, co_wrapper = wrapper_new binlog st till, co_compact = compact,
      co_written = {}, co_list = []\<rparr>"

definition compactor_openBinlog ::
    "'q file_env \<Rightarrow> byte_list \<Rightarrow> byte_list \<Rightarrow> int \<Rightarrow> 'q enc_file \<Rightarrow> ('q enc_file \<times> bool) option" where
  "compactor_openBinlog e key salt till binlog =
     map_option (\<lambda>(f, result). (f, result = Success \<and> fl_dataSize f \<ge> till)) (file_open e True ModeRead key salt binlog)"

definition compactor_openCompact ::
    "'q file_env \<Rightarrow> byte_list \<Rightarrow> byte_list \<Rightarrow> byte_list \<Rightarrow> 'q enc_file \<Rightarrow> ('q enc_file \<times> bool) option" where
  "compactor_openCompact e key salt header compact =
     do {
       (f, result) \<leftarrow> file_open e True ModeWrite key salt compact;
       if result \<noteq> Success then Some (f, False)
       else map_option (\<lambda>(f1, good, _). (f1, good)) (file_write e header f)
     }"

text \<open>The three conditions of \<open>start\<close>.\<close>

definition compactor_open ::
    "'q file_env \<Rightarrow> byte_list \<Rightarrow> byte_list \<Rightarrow> int \<Rightarrow> 'q compactor \<Rightarrow> ('q compactor \<times> bool) option" where
  "compactor_open e key salt till c =
     do {
       (binlog1, good1) \<leftarrow> compactor_openBinlog e key salt till (bw_file (co_wrapper c));
       let c1 = c\<lparr>co_wrapper := (co_wrapper c)\<lparr>bw_file := binlog1\<rparr>\<rparr>;
       if \<not> good1 then Some (c1, False)
       else do {
         (binlog2, header) \<leftarrow> ReadHeader e (co_settings c) binlog1;
         let c2 = c\<lparr>co_wrapper := (co_wrapper c)\<lparr>bw_file := binlog2\<rparr>\<rparr>;
         case header of
           None \<Rightarrow> Some (c2, False)
         | Some h \<Rightarrow> map_option (\<lambda>(compact1, good2). (c2\<lparr>co_compact := compact1\<rparr>, good2)) (compactor_openCompact e key salt h (co_compact c2))
       }
     }"

text \<open>
  The messages the compactor sends to the database. \<open>start\<close> goes on to \<open>parseChunk\<close> after \<open>fail\<close>; the files
  are in the directory of the journal, which exists.
\<close>

definition compactor_start ::
    "'q file_env \<Rightarrow> byte_list \<Rightarrow> byte_list \<Rightarrow> int \<Rightarrow> (nat \<Rightarrow> database) \<Rightarrow> (nat \<Rightarrow> 'q enc_file) \<Rightarrow> 'q compactor
      \<Rightarrow> ('q enc_file \<times> compactor_message list) option" where
  "compactor_start e key salt till dbs binlogs c =
     do {
       (c0, opened) \<leftarrow> compactor_open e key salt till c;
       (c1, good) \<leftarrow> compact_run e dbs 0 (if opened then c0 else c0\<lparr>co_compact := file_close e (co_compact c0)\<rparr>);
       let compact = file_close e (co_compact c1);
       (compact1, result) \<leftarrow>
         (if good then finalize e key salt (st_readBlockSize (co_settings c1)) binlogs 0 0 till compact else Some (compact, 0));
       Some (compact1, (if opened then [] else [CompactorFail]) @ [if result = 0 then CompactorFail else CompactorDone result])
     }"

section \<open>Replaying records twice\<close>

text \<open>
  What a list of records does to one key is nothing, a new value (or none), or a new time for the value:
  functions that are idempotent and closed under composition.
\<close>

definition touched :: "u64 \<Rightarrow> entry option \<Rightarrow> entry option" where
  "touched t = map_option (\<lambda>x. x\<lparr>en_useTime := t\<rparr>)"

inductive key_effect :: "(entry option \<Rightarrow> entry option) \<Rightarrow> bool" where
  keep: "key_effect (\<lambda>x. x)"
| put: "key_effect (\<lambda>x. v)"
| touch: "key_effect (touched t)"

inductive_cases key_effectE: "key_effect g"

lemma touched_twice: "touched t (touched u x) = touched t x"
  by (cases x) (simp_all add: touched_def)

lemma key_effect_idem: "key_effect g \<Longrightarrow> g (g x) = g x"
  by (induction rule: key_effect.induct) (simp_all add: touched_twice)

lemma key_effect_comp:
  assumes "key_effect f" "key_effect g"
  shows "key_effect (\<lambda>x. f (g x))"
  using assms(1)
proof (cases rule: key_effect.cases)
  case (touch t)
  from assms(2) show ?thesis
    by (cases rule: key_effect.cases) (use touch in \<open>auto simp: touched_twice [abs_def] intro: key_effect.intros\<close>)
qed (use assms(2) in \<open>auto intro: key_effect.intros\<close>)

lemma stores_effect:
  "\<exists>g. key_effect g \<and> (\<forall>m. fold (\<lambda>r m. m(sr_key r \<mapsto> entry_of trk rel r)) rs m k = g (m k))"
proof (induction rs)
  case Nil
  then show ?case by (auto intro!: exI [of _ "\<lambda>x. x"] key_effect.keep)
next
  case (Cons r rs)
  then obtain g where g: "key_effect g" "\<forall>m. fold (\<lambda>r m. m(sr_key r \<mapsto> entry_of trk rel r)) rs m k = g (m k)" by blast
  show ?case
  proof (cases "sr_key r = k")
    case True
    then have "\<forall>m. fold (\<lambda>r m. m(sr_key r \<mapsto> entry_of trk rel r)) (r # rs) m k = g (Some (entry_of trk rel r))" using g(2) by simp
    then show ?thesis by (intro exI [of _ "\<lambda>x. g (Some (entry_of trk rel r))"]) (blast intro: key_effect.put)
  next
    case False
    then have "\<forall>m. fold (\<lambda>r m. m(sr_key r \<mapsto> entry_of trk rel r)) (r # rs) m k = g (m k)" using g(2) by simp
    with g(1) show ?thesis by blast
  qed
qed

lemma record_effect: "\<exists>g. key_effect g \<and> (\<forall>m. replay_record trk rel r m k = g (m k))"
proof (cases r)
  case (StoreRecord s)
  then show ?thesis using stores_effect [of trk rel "[s]" k] by (simp add: replay_record_def)
next
  case (MultiStore rs)
  then show ?thesis using stores_effect by (simp add: replay_record_def)
next
  case (MultiRemove ks)
  show ?thesis
  proof (cases "k \<in> set ks")
    case True
    then show ?thesis by (intro exI [of _ "\<lambda>x. None"]) (auto simp: MultiRemove replay_record_def intro: key_effect.put)
  next
    case False
    then show ?thesis by (intro exI [of _ "\<lambda>x. x"]) (auto simp: MultiRemove replay_record_def intro: key_effect.keep)
  qed
next
  case (MultiAccess t ks)
  show ?thesis
  proof (cases "k \<in> set ks")
    case True
    then have "\<forall>m. replay_record trk rel r m k = touched (getRelative t) (m k)"
      by (simp add: MultiAccess replay_record_def touch_keys_apply touched_def)
    then show ?thesis by (blast intro: key_effect.touch)
  next
    case False
    then show ?thesis
      by (intro exI [of _ "\<lambda>x. x"]) (auto simp: MultiAccess replay_record_def touch_keys_apply option.map_ident intro: key_effect.keep)
  qed
qed

abbreviation replay :: "bool \<Rightarrow> u64 \<Rightarrow> binlog_record list \<Rightarrow> (cache_key \<rightharpoonup> entry) \<Rightarrow> (cache_key \<rightharpoonup> entry)" where
  "replay trk rel rs m \<equiv> fold (replay_record trk rel) rs m"

lemma replay_effect: "\<exists>g. key_effect g \<and> (\<forall>m. replay trk rel rs m k = g (m k))"
proof (induction rs)
  case Nil
  then show ?case by (auto intro!: exI [of _ "\<lambda>x. x"] key_effect.keep)
next
  case (Cons r rs)
  then obtain g where g: "key_effect g" "\<forall>m. replay trk rel rs m k = g (m k)" by blast
  obtain h where h: "key_effect h" "\<forall>m. replay_record trk rel r m k = h (m k)" using record_effect by blast
  show ?case by (rule exI [of _ "\<lambda>x. g (h x)"]) (use g h key_effect_comp in auto)
qed

text \<open>
  An entry that is newer than the beginning of the records does no harm: if a key has the value it had
  somewhere along the records, replaying all of them gives the same result.
\<close>

lemma replay_absorbs_at:
  assumes p: "ext = pre @ suf" "m' k = replay trk rel pre m k"
  shows "replay trk rel ext m' k = replay trk rel ext m k"
proof -
  obtain g where g: "key_effect g" "\<forall>m. replay trk rel pre m k = g (m k)" using replay_effect by blast
  obtain h where h: "\<forall>m. replay trk rel suf m k = h (m k)" using replay_effect by blast
  have "replay trk rel ext x k = h (g (x k))" for x using p(1) g(2) h by simp
  then show ?thesis using p(2) g key_effect_idem [OF g(1)] by simp
qed

section \<open>The keys of a journal\<close>

definition record_keys :: "binlog_record \<Rightarrow> cache_key list" where
  "record_keys r = (case r of StoreRecord s \<Rightarrow> [sr_key s] | MultiStore rs \<Rightarrow> map sr_key rs | _ \<Rightarrow> [])"

abbreviation journal_keys :: "binlog_record list \<Rightarrow> cache_key list" where
  "journal_keys rs \<equiv> concat (map record_keys rs)"

lemma run_push_keys: "run_records push_keys rs ks = Some (ks @ journal_keys rs, [])"
  by (induction rs arbitrary: ks) (auto simp: push_keys_def record_keys_def split: binlog_record.split)

text \<open>A reader in the middle of a journal, before the records \<open>rs\<close>.\<close>

definition reading ::
    "'q file_env \<Rightarrow> (byte_list \<Rightarrow> int \<Rightarrow> byte_list) \<Rightarrow> ('q \<Rightarrow> byte_list) \<Rightarrow> byte_list \<Rightarrow> cache_settings \<Rightarrow> byte_list \<Rightarrow> byte_list
      \<Rightarrow> 'q binlog_wrapper \<Rightarrow> binlog_record list \<Rightarrow> bool" where
  "reading e block contents key st data extra w rs \<longleftrightarrow>
     (\<exists>start. reader_at e block contents key st w data extra start \<and> drop start data = stream (tracks st) rs [])
     \<and> list_all (record_plain st) rs \<and> \<not> bw_failed w \<and> length (bw_part w) < st_readBlockSize st \<and> pending st [] rs (bw_part w)"

lemma reading_settings: "reading e block contents key st data extra w rs \<Longrightarrow> bw_settings w = st"
  by (auto simp: reading_def reader_at_def)

lemma readBlock_ok:
  assumes r: "reliable e block contents writable" and st: "CheckSettings st" "st_readBlockSize st mod 16 = 0"
    and rd: "reading e block contents key st data extra w rs"
  obtains (ended) w1 where "rs = []" "readBlock e w ks = Some (w1, ks, False)" "reading e block contents key st data extra w1 []"
  | (goes_on) w1 ks1 rs1 where "readBlock e w ks = Some (w1, ks1, True)" "ks1 @ journal_keys rs1 = ks @ journal_keys rs"
      "reading e block contents key st data extra w1 rs1"
      "length data - nat (file_offset (bw_file w1)) < length data - nat (file_offset (bw_file w))"
proof -
  from rd obtain start where at: "reader_at e block contents key st w data extra start" and rest: "drop start data = stream (tracks st) rs []"
    and rs: "list_all (record_plain st) rs" "\<not> bw_failed w" "length (bw_part w) < st_readBlockSize st" "pending st [] rs (bw_part w)"
    by (auto simp: reading_def)
  let ?off = "start + length (bw_part w)"
  have f: "file_view e block contents key (bw_file w) (data @ extra) ?off" "bw_settings w = st" "\<not> bw_finished w" "bw_till w = int (length data)"
    "bw_part w = take (length (bw_part w)) (drop start data)" "start mod 16 = 0" "?off \<le> length data" using at by (auto simp: reader_at_def)
  note off = file_offset_view [OF f(1)]
  have block: "readBlock e w ks = map_option (\<lambda>(w1, result1, finished). (w1, result1, \<not> finished)) (readTillEnd e push_keys w ks)"
    using st(1) f(2) by (simp add: readBlock_def)
  show thesis
  proof (cases "?off = length data")
    case True
    have part: "bw_part w = stream (tracks st) rs []" using f(5) True rest by (metis add_diff_cancel_left' length_drop order_refl take_all)
    have nil: "rs = []" using rs(4) part by (cases rs) (simp_all add: pending_def stream_def)
    then have "bw_part w = []" using part by (simp add: stream_def)
    have "readTillEnd e push_keys w ks = Some (binlog_finish e 0 w, ks, True)"
      using f(3,4) off True by (simp add: readTillEnd_def readPart_def)
    moreover have "?off - (0 + length (bw_part w)) = ?off" "0 + length (bw_part w) \<le> ?off" "?off mod 16 = 0"
      using \<open>bw_part w = []\<close> f(6) by simp_all
    note fin = binlog_finish_view [OF r f(1), of 0, unfolded this(1), OF this(2,3)]
    have "reader_at e block contents key st (binlog_finish e 0 w) data extra start"
      using at fin \<open>bw_part w = []\<close> by (simp add: reader_at_def)
    then have "reading e block contents key st data extra (binlog_finish e 0 w) []"
      using rest nil rs fin \<open>bw_part w = []\<close> by (auto simp: reading_def)
    ultimately show thesis using ended [OF nil] block by simp
  next
    case False
    then have "?off < length data" using f(7) by simp
    from readPart_more [OF r at st(2) rs(3) this] obtain w1 where
      w1: "readPart e w = Some (w1, True)" "reader_at e block contents key st w1 data extra start"
        "length (bw_part w) < length (bw_part w1)" "bw_failed w1 = bw_failed w" by blast
    have "torn st []" by (simp add: torn_def)
    have nf: "\<not> bw_failed w1" using w1(4) rs(2) by simp
    have no: "ReadRecordSize st [] \<noteq> kRecordSizeInvalid" by (simp add: ReadRecordSize_def kRecordSizeUnknown_def kRecordSizeInvalid_def)
    from read_records_ok [OF r st(1) \<open>torn st []\<close> w1(2) rest rs(1) run_push_keys nf] no obtain w2 ks2 rs2 start2 where
      2: "read_records e push_keys w1 ks = Some (w2, ks2, False)" "run_records push_keys rs2 ks2 = Some (ks @ journal_keys rs, [])"
        "reader_at e block contents key st w2 data extra start2" "drop start2 data = stream (tracks st) rs2 []"
        "list_all (record_plain st) rs2" "length (bw_part w2) < st_readBlockSize st" "pending st [] rs2 (bw_part w2)"
        "bw_file w2 = bw_file w1" "\<not> bw_failed w2" by blast
    have "readBlock e w ks = Some (w2, ks2, True)" using block w1(1) 2(1) by (simp add: readTillEnd_def)
    moreover have "ks2 @ journal_keys rs2 = ks @ journal_keys rs" using 2(2) by (simp add: run_push_keys)
    moreover have "reading e block contents key st data extra w2 rs2" using 2 by (auto simp: reading_def)
    moreover have v1: "file_view e block contents key (bw_file w1) (data @ extra) (start + length (bw_part w1))"
      "start + length (bw_part w1) \<le> length data" using w1(2) by (simp_all add: reader_at_def)
    then have "length data - nat (file_offset (bw_file w2)) < length data - nat (file_offset (bw_file w))"
      using off file_offset_view [OF v1(1)] w1(3) 2(8) by simp
    ultimately show thesis by (rule goes_on)
  qed
qed

lemma readChunk_ok:
  assumes r: "reliable e block contents writable" and st: "CheckSettings st" "st_readBlockSize st mod 16 = 0"
  shows "reading e block contents key st data extra w rs \<Longrightarrow>
    \<exists>w1 ks1 rs1. readChunk e limit w ks = Some (w1, ks1) \<and> reading e block contents key st data extra w1 rs1
      \<and> ks1 @ journal_keys rs1 = ks @ journal_keys rs \<and> (limit \<le> length ks1 \<or> rs1 = [])"
proof (induction "length data - nat (file_offset (bw_file w))" arbitrary: w ks rs rule: less_induct)
  case less
  show ?case
  proof (cases "length ks < limit")
    case False
    then have "readChunk e limit w ks = Some (w, ks)" by (subst readChunk.simps) simp
    with less.prems False show ?thesis by (metis not_less)
  next
    case True
    from r st less.prems show ?thesis
    proof (rule readBlock_ok [where ks = ks])
      fix w1
      assume 1: "rs = []" "readBlock e w ks = Some (w1, ks, False)" "reading e block contents key st data extra w1 []"
      then have "readChunk e limit w ks = Some (w1, ks)" using True by (subst readChunk.simps) simp
      with 1 show ?thesis by blast
    next
      fix w1 ks1 rs1
      assume 1: "readBlock e w ks = Some (w1, ks1, True)" "ks1 @ journal_keys rs1 = ks @ journal_keys rs"
        "reading e block contents key st data extra w1 rs1"
        "length data - nat (file_offset (bw_file w1)) < length data - nat (file_offset (bw_file w))"
      have "readChunk e limit w ks = readChunk e limit w1 ks1" using True 1(1) by (subst readChunk.simps) simp
      with less.hyps [OF 1(4,3), of ks1] 1(2) show ?thesis by simp
    qed
  qed
qed

end
