(* ===== verification/CompactorRuns.thy ===== *)
theory CompactorRuns
  imports CacheCompactor
begin

text \<open>
  What the compactor writes: a new journal that holds, for every key the old one stores, the entry the
  database had when it was asked, and that the catching up completes with the bytes appended meanwhile.
\<close>

section \<open>The entries written\<close>

abbreviation raw_ok :: "cache_settings \<Rightarrow> cache_key \<times> entry \<Rightarrow> bool" where
  "raw_ok st raw \<equiv> 0 < en_size (snd raw) \<and> en_size (snd raw) \<le> st_maxDataSize st \<and> length (en_place (snd raw)) = 7"

definition raw_store :: "cache_settings \<Rightarrow> u32 \<Rightarrow> cache_key \<times> entry \<Rightarrow> store" where
  "raw_store st t raw = the (raw_record st t raw)"

lemma raw_record_ok:
  assumes "checkSettings st" "raw_ok st raw"
  shows "raw_record st t raw = Some (raw_store st t raw)" "sr_key (raw_store st t raw) = fst raw"
    "store_plain (tracks st) (raw_store st t raw)" "store_ok st (raw_store st t raw)"
    "tracks st \<or> en_useTime (snd raw) = rel \<Longrightarrow> entry_of (tracks st) rel (raw_store st t raw) = snd raw"
proof -
  obtain packed where p: "store_setSize (en_size (snd raw)) (empty_store\<lparr>sr_key := fst raw\<rparr>) = Some (empty_store\<lparr>sr_key := fst raw, sr_size := packed\<rparr>)"
    "ReadFrom packed = en_size (snd raw)" "length packed = 3"
    using store_setSize_some [of "en_size (snd raw)" st "empty_store\<lparr>sr_key := fst raw\<rparr>"] assms by auto
  then show "raw_record st t raw = Some (raw_store st t raw)" "sr_key (raw_store st t raw) = fst raw"
    "store_plain (tracks st) (raw_store st t raw)" "store_ok st (raw_store st t raw)"
    using assms(2) by (simp_all add: raw_store_def raw_record_def store_plain_def store_ok_def store_getSize_def)
  show "entry_of (tracks st) rel (raw_store st t raw) = snd raw" if "tracks st \<or> en_useTime (snd raw) = rel"
    using p that by (cases "snd raw") (auto simp: raw_store_def raw_record_def entry_of_def store_getSize_def)
qed

text \<open>The first answer for a key counts.\<close>

definition take_new :: "(cache_key \<times> entry) list \<Rightarrow> (cache_key \<times> entry) list \<Rightarrow> (cache_key \<times> entry) list" where
  "take_new raws vals = fold (\<lambda>raw raws. if fst raw \<in> fst ` set raws then raws else raws @ [raw]) vals raws"

lemma take_new_simps [simp]:
  "take_new raws [] = raws"
  "take_new raws (raw # vals) = take_new (if fst raw \<in> fst ` set raws then raws else raws @ [raw]) vals"
  "take_new raws (xs @ ys) = take_new (take_new raws xs) ys"
  by (simp_all add: take_new_def)

lemma take_new_map: "map_of (take_new raws vals) k = (case map_of raws k of None \<Rightarrow> map_of vals k | Some x \<Rightarrow> Some x)"
proof (induction vals arbitrary: raws)
  case (Cons raw vals)
  show ?case
  proof (cases "fst raw \<in> fst ` set raws")
    case True
    then have "map_of raws (fst raw) \<noteq> None" by (simp add: map_of_eq_None_iff)
    with True show ?thesis unfolding take_new_simps Cons.IH by (cases "k = fst raw") (auto split: option.split)
  next
    case False
    then have "map_of raws (fst raw) = None" by (simp add: map_of_eq_None_iff)
    with False show ?thesis
      unfolding take_new_simps Cons.IH by (cases raw) (auto simp: map_add_def split: option.split)
  qed
qed (simp split: option.split)

lemma take_new_length: "length (take_new raws vals) \<le> length raws + length vals"
proof (induction vals arbitrary: raws)
  case (Cons raw vals)
  show ?case using Cons.IH [of "if fst raw \<in> fst ` set raws then raws else raws @ [raw]"] by (simp split: if_splits)
qed simp

lemma take_new_all: "list_all P raws \<Longrightarrow> list_all P vals \<Longrightarrow> list_all P (take_new raws vals)"
  by (induction vals arbitrary: raws) auto

lemma getManyRaw_map: "map_of (getManyRaw keys db) k = (if k \<in> set keys then db_map db k else None)"
  by (induction keys) (auto simp: getManyRaw_def List.map_filter_def)

lemma getManyRaw_length: "length (getManyRaw keys db) \<le> length keys"
  by (simp add: getManyRaw_def List.map_filter_def)

lemma getManyRaw_ok: "sizes_ok st (db_map db) \<Longrightarrow> list_all (raw_ok st) (getManyRaw keys db)"
  by (auto simp: list_all_iff getManyRaw_def List.map_filter_def sizes_ok_def)

section \<open>The state of the compactor\<close>

text \<open>
  The answers \<open>raws\<close> taken so far are in the records of the new journal, in chunks, and in the list.
\<close>

definition compacting ::
    "'q file_env \<Rightarrow> (byte_list \<Rightarrow> int \<Rightarrow> byte_list) \<Rightarrow> ('q \<Rightarrow> byte_list) \<Rightarrow> ('q \<Rightarrow> bool) \<Rightarrow> byte_list \<Rightarrow> cache_settings \<Rightarrow> u32
      \<Rightarrow> byte_list \<Rightarrow> (cache_key \<times> entry) list \<Rightarrow> 'q compactor \<Rightarrow> bool" where
  "compacting e block contents writable key st t header raws c \<longleftrightarrow>
     co_settings c = st \<and> co_systemTime c = t \<and> writable (fl_data (co_compact c))
     \<and> list_all (raw_ok st) raws \<and> distinct (map fst raws) \<and> co_written c = fst ` set raws
     \<and> length (co_list c) \<le> st_maxBundledRecords st
     \<and> (\<exists>chunks. list_all (record_plain st) (map MultiStore chunks)
         \<and> concat chunks @ co_list c = map (raw_store st t) raws
         \<and> file_view e block contents key (co_compact c) (header @ stream (tracks st) (map MultiStore chunks) [])
             (length (header @ stream (tracks st) (map MultiStore chunks) [])))"

lemma addListRecord_ok:
  assumes st: "checkSettings st" and c: "compacting e block contents writable key st t header raws c"
    and raw: "raw_ok st raw" and room: "length (co_list c) < st_maxBundledRecords st"
  obtains c1 where "addListRecord raw c = Some c1" "compacting e block contents writable key st t header (take_new raws [raw]) c1"
    "co_wrapper c1 = co_wrapper c"
proof (cases "fst raw \<in> co_written c")
  case True
  with that [of c] c show thesis by (simp add: addListRecord_def compacting_def)
next
  case False
  let ?c1 = "c\<lparr>co_written := insert (fst raw) (co_written c), co_list := co_list c @ [raw_store st t raw]\<rparr>"
  have "addListRecord raw c = Some ?c1"
    using False c raw_record_ok(1) [OF st raw, of t] by (simp add: addListRecord_def compacting_def)
  moreover have "compacting e block contents writable key st t header (take_new raws [raw]) ?c1"
    using False c raw room by (auto simp: compacting_def)
  ultimately show thesis using that by simp
qed

lemma fillList_ok:
  assumes st: "checkSettings st"
  shows "compacting e block contents writable key st t header raws c \<Longrightarrow> list_all (raw_ok st) vals \<Longrightarrow>
    \<exists>used left c1. fillList vals c = Some (left, c1) \<and> vals = used @ left
      \<and> compacting e block contents writable key st t header (take_new raws used) c1 \<and> co_wrapper c1 = co_wrapper c
      \<and> (length (co_list c) < st_maxBundledRecords st \<and> vals \<noteq> [] \<longrightarrow> used \<noteq> [])"
proof (induction vals arbitrary: raws c)
  case Nil
  then show ?case by simp
next
  case (Cons raw vals)
  have set: "co_settings c = st" "length (co_list c) \<le> st_maxBundledRecords st" using Cons.prems(1) by (simp_all add: compacting_def)
  show ?case
  proof (cases "length (co_list c) = st_maxBundledRecords st")
    case True
    then have "fillList (raw # vals) c = Some (raw # vals, c)" using set by simp
    with True Cons.prems(1) show ?thesis by (intro exI [of _ "[]"] exI [of _ "raw # vals"] exI [of _ c]) (simp del: fillList.simps)
  next
    case False
    then have room: "length (co_list c) < st_maxBundledRecords st" using set(2) by simp
    have raw: "raw_ok st raw" "list_all (raw_ok st) vals" using Cons.prems(2) by simp_all
    obtain c1 where c1: "addListRecord raw c = Some c1" "compacting e block contents writable key st t header (take_new raws [raw]) c1"
      "co_wrapper c1 = co_wrapper c" using addListRecord_ok [OF st Cons.prems(1) raw(1) room] .
    from Cons.IH [OF c1(2) raw(2)] obtain used left c2 where
      2: "fillList vals c1 = Some (left, c2)" "vals = used @ left" "co_wrapper c2 = co_wrapper c1"
        "compacting e block contents writable key st t header (take_new (take_new raws [raw]) used) c2" by blast
    have "fillList (raw # vals) c = Some (left, c2)" using False set(1) c1(1) 2(1) by simp
    with 2 c1(3) show ?thesis by (intro exI [of _ "raw # used"] exI [of _ left] exI [of _ c2]) (simp del: fillList.simps)
  qed
qed

lemma stream_length:
  assumes "list_all (record_plain st) (map MultiStore chunks)"
  shows "length (stream (tracks st) (map MultiStore chunks) []) \<le> 64 * length (concat chunks)"
  using assms
proof (induction chunks)
  case (Cons rs chunks)
  then have rs: "rs \<noteq> []" "list_all (store_plain (tracks st)) rs" by (simp_all add: record_plain_def)
  have "length (record_bytes (tracks st) (MultiStore rs)) = 16 + part_size st * length rs"
    using concat_length [of rs "store_bytes (tracks st)" "part_size st"] rs(2) store_bytes_length [of st]
    by (simp add: record_bytes_def record_head_def record_parts_def list_all_iff)
  also have "\<dots> \<le> 64 * length rs"
    using rs(1) by (cases rs) (auto simp: part_size_def)
  finally show ?case using Cons by (simp add: stream_def)
qed (simp add: stream_def)

lemma stream_append: "stream trk (xs @ ys) [] = stream trk xs [] @ stream trk ys []"
  by (simp add: stream_def)

text \<open>The size of a new journal with so many entries, and of its header.\<close>

abbreviation fits :: "nat \<Rightarrow> bool" where "fits n \<equiv> 64 * n + 132 < 2 ^ 63"

lemma writeList_ok:
  assumes r: "reliable e block contents writable" and st: "checkSettings st" and header: "length header = 16"
    and c: "compacting e block contents writable key st t header raws c" and short: "fits (length raws)"
  obtains c1 where "writeList e c = Some (c1, True)" "compacting e block contents writable key st t header raws c1"
    "co_list c1 = []" "co_wrapper c1 = co_wrapper c"
proof (cases "co_list c = []")
  case True
  with that [of c] c show thesis by (simp add: writeList_def)
next
  case False
  from c obtain chunks where ch: "list_all (record_plain st) (map MultiStore chunks)"
    "concat chunks @ co_list c = map (raw_store st t) raws"
    "file_view e block contents key (co_compact c) (header @ stream (tracks st) (map MultiStore chunks) [])
             (length (header @ stream (tracks st) (map MultiStore chunks) []))" by (auto simp: compacting_def)
  have cs: "co_settings c = st" "writable (fl_data (co_compact c))" "length (co_list c) \<le> st_maxBundledRecords st"
    "list_all (raw_ok st) raws" using c by (simp_all add: compacting_def)
  have "set (co_list c) \<subseteq> raw_store st t ` set raws" using arg_cong [OF ch(2), of set] by auto
  then have "list_all (store_plain (tracks st)) (co_list c)"
    using raw_record_ok(3) [OF st] cs(4) by (fastforce simp: list_all_iff)
  then have plain: "record_plain st (MultiStore (co_list c))" using False cs(3) st by (simp add: record_plain_def checkSettings_def)
  have all: "list_all (record_plain st) (map MultiStore (chunks @ [co_list c]))" using ch(1) plain by simp
  have grow: "stream (tracks st) (map MultiStore (chunks @ [co_list c])) [] =
    stream (tracks st) (map MultiStore chunks) [] @ record_bytes (tracks st) (MultiStore (co_list c))" by (simp add: stream_def)
  have "length (concat (chunks @ [co_list c])) = length raws" using arg_cong [OF ch(2), of length] by simp
  then have "length (header @ stream (tracks st) (map MultiStore chunks) []) + length (record_bytes (tracks st) (MultiStore (co_list c))) + 116 < 2 ^ 63"
    using stream_length [OF all] short header unfolding grow by simp
  from write_record_ok [OF r ch(3) cs(2) plain this] obtain f where
    f: "write_record e (tracks st) (MultiStore (co_list c)) (co_compact c) = Some (f, True)" "writable (fl_data f)"
      "file_view e block contents key f (header @ stream (tracks st) (map MultiStore (chunks @ [co_list c])) [])
        (length (header @ stream (tracks st) (map MultiStore (chunks @ [co_list c])) []))"
    unfolding grow by (metis append_assoc)
  let ?c1 = "c\<lparr>co_compact := f, co_list := []\<rparr>"
  have "writeList e c = Some (?c1, True)"
    using False f(1) cs(1) multi_count_bound [OF st cs(3)] by (simp add: writeList_def)
  moreover have "concat (chunks @ [co_list c]) @ [] = map (raw_store st t) raws" using ch(2) by simp
  then have "compacting e block contents writable key st t header raws ?c1"
    using c f(2,3) all unfolding compacting_def by (intro conjI exI [of _ "chunks @ [co_list c]"]) simp_all
  ultimately show thesis using that by simp
qed

lemma processValues_ok:
  assumes r: "reliable e block contents writable" and st: "checkSettings st" and header: "length header = 16"
  shows "compacting e block contents writable key st t header raws c \<Longrightarrow> list_all (raw_ok st) vals \<Longrightarrow>
    fits (length raws + length vals) \<Longrightarrow>
    \<exists>c1. processValues e vals c = Some (c1, True) \<and> compacting e block contents writable key st t header (take_new raws vals) c1
      \<and> co_wrapper c1 = co_wrapper c"
proof (induction "2 * length vals + (if length (co_list c) = st_maxBundledRecords st then 1 else 0)" arbitrary: vals c raws
    rule: less_induct)
  case less
  have max: "0 < st_maxBundledRecords st" "length (co_list c) \<le> st_maxBundledRecords st"
    using st less.prems(1) by (simp_all add: checkSettings_def compacting_def)
  from fillList_ok [OF st less.prems(1,2)] obtain used left c1 where
    1: "fillList vals c = Some (left, c1)" "vals = used @ left" "compacting e block contents writable key st t header (take_new raws used) c1"
      "co_wrapper c1 = co_wrapper c" "length (co_list c) < st_maxBundledRecords st \<and> vals \<noteq> [] \<longrightarrow> used \<noteq> []" by blast
  show ?case
  proof (cases "left = []")
    case True
    then have "processValues e vals c = Some (c1, True)" using 1(1) by (subst processValues.simps) simp
    with 1 True show ?thesis by simp
  next
    case False
    have "fits (length (take_new raws used))" using less.prems(3) take_new_length [of raws used] 1(2) by simp
    from writeList_ok [OF r st header 1(3) this] obtain c2 where
      2: "writeList e c1 = Some (c2, True)" "compacting e block contents writable key st t header (take_new raws used) c2"
        "co_list c2 = []" "co_wrapper c2 = co_wrapper c1" by blast
    have eq: "processValues e vals c = processValues e left c2" using 1(1) 2(1) False by (subst processValues.simps) simp
    have "2 * length left + (if length (co_list c2) = st_maxBundledRecords st then 1 else 0) <
        2 * length vals + (if length (co_list c) = st_maxBundledRecords st then 1 else (0 :: nat))"
      using 1(2,5) 2(3) max False by (cases "used = []") auto
    moreover have "list_all (raw_ok st) left" "fits (length (take_new raws used) + length left)"
      using less.prems(2,3) 1(2) take_new_length [of raws used] by simp_all
    ultimately show ?thesis using less.hyps [OF _ 2(2), of left] eq 1(2,4) 2(4) by simp
  qed
qed

section \<open>The run\<close>

text \<open>The answers of the databases to the keys of the records, after those in \<open>raws\<close>.\<close>

definition answers :: "(nat \<Rightarrow> database) \<Rightarrow> cache_key list \<Rightarrow> (cache_key \<times> entry) list \<Rightarrow> (cache_key \<times> entry) list \<Rightarrow> bool" where
  "answers dbs keys raws raws1 \<longleftrightarrow> length raws1 \<le> length raws + length keys \<and>
     (\<forall>k. if map_of raws k \<noteq> None then map_of raws1 k = map_of raws k
        else if k \<in> set keys then \<exists>i. map_of raws1 k = db_map (dbs i) k else map_of raws1 k = None)"

lemma answers_step:
  assumes "answers dbs keys' (take_new raws (getManyRaw keys (dbs n))) raws1"
  shows "answers dbs (keys @ keys') raws raws1"
proof -
  have "length (take_new raws (getManyRaw keys (dbs n))) \<le> length raws + length keys"
    using take_new_length [of raws "getManyRaw keys (dbs n)"] getManyRaw_length [of keys "dbs n"] by linarith
  moreover have "if map_of raws k \<noteq> None then map_of raws1 k = map_of raws k
        else if k \<in> set (keys @ keys') then \<exists>i. map_of raws1 k = db_map (dbs i) k else map_of raws1 k = None" for k
  proof (cases "map_of raws k \<noteq> None \<or> k \<in> set keys \<and> db_map (dbs n) k \<noteq> None")
    case True
    let ?m = "map_of (take_new raws (getManyRaw keys (dbs n))) k"
    have "?m \<noteq> None" "?m = map_of raws k \<or> map_of raws k = None \<and> ?m = db_map (dbs n) k"
      using True by (auto simp: take_new_map getManyRaw_map split: option.split)
    moreover from this(1) have "map_of raws1 k = ?m" using assms by (simp add: answers_def)
    ultimately show ?thesis using True by auto
  next
    case False
    then have "map_of (take_new raws (getManyRaw keys (dbs n))) k = None" "map_of raws k = None"
      by (auto simp: take_new_map getManyRaw_map)
    then have "if k \<in> set keys' then \<exists>i. map_of raws1 k = db_map (dbs i) k else map_of raws1 k = None"
      using assms by (simp add: answers_def)
    with False show ?thesis by (auto split: if_splits) (metis)+
  qed
  ultimately show ?thesis using assms by (simp add: answers_def)
qed

lemma compact_run_ok:
  assumes r: "reliable e block contents writable" and st: "checkSettings st" "CheckSettings st" "st_readBlockSize st mod 16 = 0"
      "0 < st_compactChunkSize st" and header: "length header = 16" and dbs: "\<forall>i. sizes_ok st (db_map (dbs i))"
  shows "compacting e block contents writable key st t header raws c \<Longrightarrow> reading e block contents key st data extra (co_wrapper c) rs \<Longrightarrow>
    fits (length raws + length (journal_keys rs)) \<Longrightarrow>
    \<exists>c1 raws1. compact_run e dbs n c = Some (c1, True) \<and> compacting e block contents writable key st t header raws1 c1 \<and> co_list c1 = []
      \<and> answers dbs (journal_keys rs) raws raws1"
proof (induction "length (journal_keys rs)" arbitrary: n c raws rs rule: less_induct)
  case less
  let ?limit = "st_compactChunkSize st"
  have set: "co_settings c = st" using less.prems(1) by (simp add: compacting_def)
  from readChunk_ok [OF r st(2,3) less.prems(2), of ?limit "[]"] obtain w keys rs1 where
    1: "readChunk e ?limit (co_wrapper c) [] = Some (w, keys)" "reading e block contents key st data extra w rs1"
      "keys @ journal_keys rs1 = journal_keys rs" "?limit \<le> length keys \<or> rs1 = []" by auto
  let ?c1 = "c\<lparr>co_wrapper := w\<rparr>"
  have good: "\<not> bw_failed w" using 1(2) by (simp add: reading_def)
  have c1: "compacting e block contents writable key st t header raws ?c1" "co_wrapper ?c1 = w"
    using less.prems(1) by (simp_all add: compacting_def)
  show ?case
  proof (cases "keys = []")
    case True
    then have "journal_keys rs = []" using 1(3,4) st(4) by auto
    then have "fits (length raws)" "answers dbs (journal_keys rs) raws raws" using less.prems(3) by (simp_all add: answers_def)
    moreover have "compact_run e dbs n c = writeList e ?c1" using 1(1) True good set by (subst compact_run.simps) simp
    ultimately show ?thesis using writeList_ok [OF r st(1) header c1(1)] by metis
  next
    case False
    let ?vals = "getManyRaw keys (dbs n)"
    have keys: "length (journal_keys rs) = length keys + length (journal_keys rs1)" using arg_cong [OF 1(3), of length] by simp
    then have room: "fits (length raws + length ?vals)" using less.prems(3) getManyRaw_length [of keys "dbs n"] by simp
    have "list_all (raw_ok st) ?vals" using dbs getManyRaw_ok by blast
    from processValues_ok [OF r st(1) header c1(1) this room] obtain c2 where
      2: "processValues e ?vals ?c1 = Some (c2, True)" "compacting e block contents writable key st t header (take_new raws ?vals) c2"
        "co_wrapper c2 = w" by auto
    have eq: "compact_run e dbs n c = compact_run e dbs (Suc n) c2" using 1(1) False good 2(1) set by (subst compact_run.simps) simp
    have "length (journal_keys rs1) < length (journal_keys rs)" using keys False by simp
    moreover have "fits (length (take_new raws ?vals) + length (journal_keys rs1))"
      using less.prems(3) keys take_new_length [of raws ?vals] getManyRaw_length [of keys "dbs n"] by simp
    ultimately obtain c3 raws1 where 3: "compact_run e dbs (Suc n) c2 = Some (c3, True)"
      "compacting e block contents writable key st t header raws1 c3" "co_list c3 = []"
      "answers dbs (journal_keys rs1) (take_new raws ?vals) raws1"
      using less.hyps [OF _ 2(2), of rs1 "Suc n"] 1(2) 2(3) by metis
    from answers_step [OF 3(4)] 1(3) 3(1-3) eq show ?thesis by metis
  qed
qed

section \<open>What the new journal holds\<close>

lemma replay_chunks:
  "replay trk rel (map MultiStore chunks) m = fold (\<lambda>r m. m(sr_key r \<mapsto> entry_of trk rel r)) (concat chunks) m"
  by (induction chunks arbitrary: m) (simp_all add: replay_record_def)

lemma stores_map:
  "distinct (map sr_key rs) \<Longrightarrow>
    fold (\<lambda>r m. m(sr_key r \<mapsto> entry_of trk rel r)) rs m k =
      (case map_of (map (\<lambda>r. (sr_key r, entry_of trk rel r)) rs) k of None \<Rightarrow> m k | Some x \<Rightarrow> Some x)"
proof (induction rs arbitrary: m)
  case (Cons r rs)
  have "map_of (map (\<lambda>r. (sr_key r, entry_of trk rel r)) rs) (sr_key r) = None"
    using Cons.prems by (auto simp: map_of_eq_None_iff)
  with Cons show ?case by (auto split: option.split)
qed (simp split: option.split)

lemma compacted_replay:
  assumes st: "checkSettings st" and raws: "list_all (raw_ok st) raws" "distinct (map fst raws)"
    and chunks: "concat chunks = map (raw_store st t) raws" and use: "\<forall>x \<in> snd ` set raws. tracks st \<or> en_useTime x = rel"
  shows "replay (tracks st) rel (map MultiStore chunks) Map.empty = map_of raws"
proof
  fix k
  have pairs: "map (\<lambda>r. (sr_key r, entry_of (tracks st) rel r)) (map (raw_store st t) raws) = raws"
  proof -
    have "(sr_key (raw_store st t raw), entry_of (tracks st) rel (raw_store st t raw)) = raw" if "raw \<in> set raws" for raw
    proof -
      have "raw_ok st raw" "tracks st \<or> en_useTime (snd raw) = rel" using raws(1) use that by (auto simp: list_all_iff)
      from raw_record_ok(2,5) [OF st this(1)] this(2) show ?thesis by (simp add: prod_eq_iff)
    qed
    then show ?thesis by (simp add: map_idI)
  qed
  have "map sr_key (map (raw_store st t) raws) = map fst raws"
    using raw_record_ok [OF st] raws(1) by (auto simp: list_all_iff)
  then have "distinct (map sr_key (concat chunks))" using raws(2) unfolding chunks by metis
  from stores_map [OF this, of "tracks st" rel Map.empty k] show "replay (tracks st) rel (map MultiStore chunks) Map.empty k = map_of raws k"
    unfolding replay_chunks chunks pairs by (simp del: map_map split: option.splits)
qed

lemma chunks_record_ok:
  assumes st: "checkSettings st" and raws: "list_all (raw_ok st) raws"
    and chunks: "concat chunks = map (raw_store st t) raws" "list_all (record_plain st) (map MultiStore chunks)"
  shows "list_all (record_ok st) (map MultiStore chunks)"
proof -
  have "store_ok st r" if "r \<in> set rs" "rs \<in> set chunks" for r rs
  proof -
    have "r \<in> set (concat chunks)" using that by auto
    then obtain raw where "raw \<in> set raws" "r = raw_store st t raw" unfolding chunks(1) by auto
    with raw_record_ok(4) [OF st, of raw t] raws show ?thesis by (simp add: list_all_iff)
  qed
  with chunks(2) show ?thesis by (auto simp: list_all_iff record_plain_def record_ok_def)
qed

lemma replay_other_keys: "k \<notin> set (journal_keys rs) \<Longrightarrow> m k = None \<Longrightarrow> replay trk rel rs m k = None"
proof (induction rs arbitrary: m)
  case (Cons r rs)
  have multi: "k \<notin> sr_key ` set rs \<Longrightarrow> m k = None \<Longrightarrow> fold (\<lambda>r m. m(sr_key r \<mapsto> entry_of trk rel r)) rs m k = None" for rs m
    by (induction rs arbitrary: m) auto
  have "replay_record trk rel r m k = None"
    using Cons.prems multi by (cases r) (auto simp: record_keys_def replay_record_def restrict_map_def touch_keys_apply)
  with Cons show ?case by simp
qed simp

text \<open>
  An answer \<open>v\<close> for the key \<open>k\<close> does no harm if the journal said the same somewhere while it grew by \<open>ext\<close>, or if
  \<open>ext\<close> writes the key anew: a key that waited to be removed has no entry in the database before the
  journal says so.
\<close>

definition overwrites :: "cache_key \<Rightarrow> binlog_record \<Rightarrow> bool" where
  "overwrites k r \<longleftrightarrow> k \<in> set (record_keys r) \<or> (\<exists>ks. r = MultiRemove ks \<and> k \<in> set ks)"

definition settled :: "bool \<Rightarrow> u64 \<Rightarrow> binlog_record list \<Rightarrow> binlog_record list \<Rightarrow> cache_key \<Rightarrow> entry option \<Rightarrow> bool" where
  "settled trk rel rs ext k v \<longleftrightarrow>
     (\<exists>pre suf. ext = pre @ suf \<and> v = replay trk rel (rs @ pre) Map.empty k) \<or> (\<exists>r \<in> set ext. overwrites k r)"

lemma overwrites_forgets: "overwrites k r \<Longrightarrow> replay_record trk rel r m k = replay_record trk rel r m' k"
proof (cases r)
  case (MultiStore rs)
  have "k \<in> sr_key ` set rs \<Longrightarrow> fold (\<lambda>r m. m(sr_key r \<mapsto> entry_of trk rel r)) rs m k = fold (\<lambda>r m. m(sr_key r \<mapsto> entry_of trk rel r)) rs m' k" for m m'
  proof (induction rs arbitrary: m m')
    case (Cons s rs)
    obtain g where g: "\<forall>m. fold (\<lambda>r m. m(sr_key r \<mapsto> entry_of trk rel r)) rs m k = g (m k)" using stores_effect by blast
    show ?case using Cons by (cases "sr_key s = k") (auto simp: g simp del: fun_upd_apply, simp_all)
  qed simp
  then show "overwrites k r \<Longrightarrow> ?thesis" by (simp add: MultiStore overwrites_def record_keys_def replay_record_def)
qed (auto simp: overwrites_def record_keys_def replay_record_def restrict_map_def)

lemma settled_replay:
  assumes "settled trk rel rs ext k (m k)"
  shows "replay trk rel ext m k = replay trk rel (rs @ ext) Map.empty k"
proof (cases "\<exists>r \<in> set ext. overwrites k r")
  case True
  then obtain pre r suf where ext: "ext = pre @ r # suf" "overwrites k r" by (meson split_list)
  obtain h where h: "\<forall>m. replay trk rel suf m k = h (m k)" using replay_effect by blast
  show ?thesis
    using overwrites_forgets [OF ext(2), of trk rel "replay trk rel pre m" "replay trk rel pre (replay trk rel rs Map.empty)"]
    by (simp add: ext(1) h)
next
  case False
  with assms obtain pre suf where p: "ext = pre @ suf" "m k = replay trk rel pre (replay trk rel rs Map.empty) k"
    by (auto simp: settled_def)
  have "replay trk rel ext m k = replay trk rel ext (replay trk rel rs Map.empty) k" using replay_absorbs_at [of ext pre suf m k] p by simp
  then show ?thesis by simp
qed

lemma answers_absorbed:
  assumes ans: "answers dbs (journal_keys rs) [] raws"
    and k: "k \<in> set (journal_keys rs) \<Longrightarrow> \<forall>i. settled trk rel rs ext k (db_map (dbs i) k)"
  shows "replay trk rel ext (map_of raws) k = replay trk rel (rs @ ext) Map.empty k"
proof (rule settled_replay)
  have ask: "if k \<in> set (journal_keys rs) then \<exists>i. map_of raws k = db_map (dbs i) k else map_of raws k = None"
    using ans by (simp add: answers_def)
  show "settled trk rel rs ext k (map_of raws k)"
  proof (cases "k \<in> set (journal_keys rs)")
    case True
    then obtain i where "map_of raws k = db_map (dbs i) k" using ask by (metis (full_types))
    with k [OF True] show ?thesis by simp
  next
    case False
    then have "map_of raws k = None" "replay trk rel rs Map.empty k = None" using ask replay_other_keys by simp_all
    then show ?thesis by (simp add: settled_def) (metis append_Nil fold_simps(1))
  qed
qed

section \<open>Catching up\<close>

lemma catch_loop_ok:
  assumes r: "reliable e block contents writable" and n: "n mod kBlockSize = 0" "0 < n"
  shows "file_view e block contents key binlog data off \<Longrightarrow> off < length data \<Longrightarrow>
    file_view e block contents key compact cdata (length cdata) \<Longrightarrow> writable (fl_data compact) \<Longrightarrow>
    length cdata + (length data - off) + 116 < 2 ^ 63 \<Longrightarrow>
    \<exists>compact'. catch_loop e n (int (length data)) (int off) binlog compact = Some (compact', int (length data))
      \<and> file_view e block contents key compact' (cdata @ drop off data) (length (cdata @ drop off data))"
proof (induction "length data - off" arbitrary: off binlog compact cdata rule: less_induct)
  case less
  let ?limit = "min (length data - off) n" and ?bs = "take n (drop off data)"
  have mods: "length data mod kBlockSize = 0" "off mod kBlockSize = 0"
    using file_view_blocks [OF less.prems(1)] less.prems(1) by (auto simp: file_view_def)
  then have "(length data - off) mod kBlockSize = 0" by (meson dvd_diff_nat mod_0_imp_dvd dvd_imp_mod_0)
  then have lim: "?limit mod kBlockSize = 0" using n(1) by (simp add: min_def)
  have take_eq: "take ?limit (drop off data) = ?bs" by (auto simp: min_def)
  have len: "length ?bs = ?limit" by (simp add: min.commute)
  obtain binlog1 where 1: "file_read e ?limit binlog = Some (binlog1, int ?limit, ?bs)"
    "file_view e block contents key binlog1 data (off + ?limit)"
    using file_view_read [OF r less.prems(1) lim] unfolding take_eq len by blast
  have "length ?bs mod kBlockSize = 0" "length cdata + length ?bs + 116 < 2 ^ 63" using lim less.prems(5) unfolding len by simp_all
  from file_view_append [OF r less.prems(3,4) this] obtain compact1 enc where
    2: "file_write e ?bs compact = Some (compact1, True, enc)" "writable (fl_data compact1)"
      "file_view e block contents key compact1 (cdata @ ?bs) (length (cdata @ ?bs))" by blast
  have pos: "0 < ?limit" using less.prems(2) n(2) by simp
  have lim_int: "min (int (length data) - int off) (int n) = int ?limit" using less.prems(2) by simp
  have step: "catch_loop e n (int (length data)) (int off) binlog compact =
    (if off + ?limit \<noteq> length data then catch_loop e n (int (length data)) (int (off + ?limit)) binlog1 compact1
     else Some (compact1, int (length data)))"
    unfolding catch_loop.simps [of e n "int (length data)" "int off"] Let_def lim_int nat_int 1(1)
    using 2(1) pos by (auto split: if_splits)
  show ?case
  proof (cases "off + ?limit = length data")
    case True
    then have "?bs = drop off data" by (metis add_diff_cancel_left' length_drop take_eq order_refl take_all)
    with True step 2(3) show ?thesis by (intro exI [of _ compact1]) simp
  next
    case False
    have data: "cdata @ drop off data = (cdata @ ?bs) @ drop (off + ?limit) data"
      by (metis append_assoc append_take_drop_id drop_drop add.commute take_eq)
    have "length data - (off + ?limit) < length data - off" "off + ?limit < length data" using pos False less.prems(2) by auto
    moreover have "length (cdata @ ?bs) + (length data - (off + ?limit)) + 116 < 2 ^ 63" using less.prems(5) len by simp
    ultimately show ?thesis unfolding data step using False less.hyps [OF _ 1(2) _ 2(3,2)] by simp
  qed
qed

text \<open>A file on disk, open or not: its key, its contents.\<close>

definition on_disk ::
    "'q file_env \<Rightarrow> (byte_list \<Rightarrow> int \<Rightarrow> byte_list) \<Rightarrow> ('q \<Rightarrow> byte_list) \<Rightarrow> byte_list \<Rightarrow> 'q enc_file \<Rightarrow> byte_list \<Rightarrow> bool" where
  "on_disk e block contents key f data \<longleftrightarrow> (\<exists>c. header_ok e block key c (contents (fl_data f))
     \<and> data = file_plain block c (contents (fl_data f)) \<and> length (contents (fl_data f)) < 2 ^ 63)"

lemma on_disk_view: "file_view e block contents key f data off \<Longrightarrow> on_disk e block contents key f data"
  by (auto simp: file_view_def on_disk_def)

lemma on_disk_blocks: "on_disk e block contents key f data \<Longrightarrow> length data mod 16 = 0"
  by (auto simp: on_disk_def file_plain_length Let_def minus_mod_eq_mult_div)

lemma on_disk_short:
  assumes "on_disk e block contents key f data"
  shows "length data < 2 ^ 63"
proof -
  from assms obtain c where c: "data = file_plain block c (contents (fl_data f))" "length (contents (fl_data f)) < 2 ^ 63"
    by (auto simp: on_disk_def)
  have "length data \<le> length (contents (fl_data f))" unfolding c(1) file_plain_length Let_def by linarith
  with c(2) show ?thesis by linarith
qed

lemma on_disk_close:
  assumes "reliable e block contents writable" "on_disk e block contents key f data"
  shows "on_disk e block contents key (file_close e f) data"
  using assms disk_open(2) [OF assms(1)] by (auto simp: on_disk_def file_close_def)

lemma on_disk_open:
  assumes r: "reliable e block contents writable" and d: "on_disk e block contents key f data"
    and mode: "mode = ModeRead \<or> mode = ModeReadAppend"
  obtains f' where "file_open e True mode key salt f = Some (f', Success)" "file_view e block contents key f' data 0"
    "mode = ModeReadAppend \<Longrightarrow> writable (fl_data f')" "fl_dataSize f' = int (length data)"
proof -
  from d obtain c where "header_ok e block key c (contents (fl_data f))" "data = file_plain block c (contents (fl_data f))"
    "length (contents (fl_data f)) < 2 ^ 63" by (auto simp: on_disk_def)
  from file_reopen [OF r this(1,3), of mode True salt] mode this(2) obtain f' where
    "file_open e True mode key salt f = Some (f', Success)" "file_view e block contents key f' data 0"
    "mode = ModeReadAppend \<Longrightarrow> writable (fl_data f')" by metis
  with that show thesis by (auto simp: file_view_def)
qed

text \<open>The catching up appends exactly the bytes behind \<open>off\<close>.\<close>

lemma CatchUp_ok:
  assumes r: "reliable e block contents writable" and n: "n mod kBlockSize = 0" "0 < n"
    and b: "on_disk e block contents key binlog data" and off: "off mod kBlockSize = 0" "off \<le> length data"
    and c: "on_disk e block contents key compact cdata" and short: "length cdata + (length data - off) + 116 < 2 ^ 63"
  obtains compact' where "CatchUp e key salt n (int off) binlog compact = Some (compact', int (length data))"
    "on_disk e block contents key compact' (cdata @ drop off data)"
proof -
  obtain binlog1 where 1: "file_open e True ModeRead key salt binlog = Some (binlog1, Success)"
    "file_view e block contents key binlog1 data 0" "fl_dataSize binlog1 = int (length data)"
    using on_disk_open [OF r b, of ModeRead] by blast
  show thesis
  proof (cases "off = length data")
    case True
    then show thesis using that [of compact] 1(1,3) c by (simp add: CatchUp_def)
  next
    case False
    then have less: "off < length data" using off(2) by simp
    obtain binlog2 where 2: "file_seek e (int off) binlog1 = (binlog2, True)" "file_view e block contents key binlog2 data off"
      using file_view_seek [OF r 1(2) off] .
    obtain compact1 where 3: "file_open e True ModeReadAppend key salt compact = Some (compact1, Success)"
      "file_view e block contents key compact1 cdata 0" "writable (fl_data compact1)" "fl_dataSize compact1 = int (length cdata)"
      using on_disk_open [OF r c, of ModeReadAppend] by blast
    obtain compact2 where 4: "file_seek e (int (length cdata)) compact1 = (compact2, True)"
      "file_view e block contents key compact2 cdata (length cdata)" "writable (fl_data compact2) = writable (fl_data compact1)"
      using file_view_seek [OF r 3(2) file_view_blocks [OF 3(2)] order_refl] .
    have "writable (fl_data compact2)" using 4(3) 3(3) by simp
    from catch_loop_ok [OF r n 2(2) less 4(2) this short] obtain compact3 where
      5: "catch_loop e n (int (length data)) (int off) binlog2 compact2 = Some (compact3, int (length data))"
        "file_view e block contents key compact3 (cdata @ drop off data) (length (cdata @ drop off data))" by blast
    have "CatchUp e key salt n (int off) binlog compact = Some (file_close e compact3, int (length data))"
      using 1(1,3) 2(1) 3(1,4) 4(1) 5(1) less by (simp add: CatchUp_def)
    with that [OF _ on_disk_close [OF r on_disk_view [OF 5(2)]]] show thesis by blast
  qed
qed

text \<open>
  The attempts to catch up end: every attempt but the last one finds new bytes, and the journal that was
  caught up with last is copied whole.
\<close>

lemma finalize_ok:
  assumes r: "reliable e block contents writable" and n: "n mod kBlockSize = 0" "0 < n"
    and b: "\<forall>i. on_disk e block contents key (binlogs i) (old @ news i)" "\<forall>i. \<exists>more. news (Suc i) = news i @ more" "old \<noteq> []"
    and short: "\<forall>i. length cdata + length (news i) + 116 < 2 ^ 63"
  shows "off mod kBlockSize = 0 \<Longrightarrow> length old \<le> off \<Longrightarrow> off \<le> length (old @ news i) \<Longrightarrow>
    on_disk e block contents key compact (cdata @ take (off - length old) (news i)) \<Longrightarrow>
    \<exists>j compact'. finalize e key salt n binlogs i lastCatchUp (int off) compact = Some (compact', int (length (old @ news j)))
      \<and> on_disk e block contents key compact' (cdata @ news j)"
proof (induction "2 ^ 63 - off" arbitrary: i off lastCatchUp compact rule: less_induct)
  case less
  have bi: "on_disk e block contents key (binlogs i) (old @ news i)" using b(1) by blast
  have si: "length cdata + length (news i) + 116 < 2 ^ 63" using short by blast
  have copied: "(cdata @ take (off - length old) (news i)) @ drop off (old @ news i) = cdata @ news i"
    using less.prems(2) by simp
  have "length (cdata @ take (off - length old) (news i)) + (length (old @ news i) - off) + 116 < 2 ^ 63"
    using si arg_cong [OF copied, of length] by simp
  from CatchUp_ok [OF r n bi less.prems(1,3,4) this] obtain compact1 where
    1: "CatchUp e key salt n (int off) (binlogs i) compact = Some (compact1, int (length (old @ news i)))"
      "on_disk e block contents key compact1 (cdata @ news i)" unfolding copied by blast
  have pos: "int (length (old @ news i)) \<noteq> 0" using b(3) by (cases old) simp_all
  show ?case
  proof (cases "int (length (old @ news i)) = int off \<or> lastCatchUp > 0 \<and> int (length (old @ news i)) - int off \<ge> lastCatchUp")
    case True
    then have "finalize e key salt n binlogs i lastCatchUp (int off) compact = Some (compact1, int (length (old @ news i)))"
      using 1(1) pos by (subst finalize.simps) simp
    with 1(2) show ?thesis by blast
  next
    case False
    let ?off = "length (old @ news i)"
    have eq: "finalize e key salt n binlogs i lastCatchUp (int off) compact =
      finalize e key salt n binlogs (Suc i) (signed_take_bit 31 (int ?off - int off)) (int ?off) compact1"
      unfolding finalize.simps [of e key salt n binlogs i lastCatchUp "int off"] 1(1) bind.simps prod.case
        if_not_P [OF pos] if_not_P [OF False] by (rule refl)
    have "?off < 2 ^ 63" by (rule on_disk_short [OF bi])
    then have "2 ^ 63 - ?off < 2 ^ 63 - off" using False less.prems(3) by auto
    moreover have "?off mod kBlockSize = 0" using on_disk_blocks [OF bi] by (simp add: kBlockSize_def)
    moreover obtain more where more: "news (Suc i) = news i @ more" using b(2) by blast
    ultimately show ?thesis unfolding eq using 1(2) by (intro less.hyps) simp_all
  qed
qed

section \<open>Compaction\<close>

lemma reading_start:
  assumes st: "CheckSettings st" and v: "file_view e block contents key f (data @ extra) 16"
    and data: "data = header @ stream (tracks st) rs []" "length header = 16" "list_all (record_plain st) rs"
    and w: "w = (wrapper_new f0 st (int (length data)))\<lparr>bw_file := f\<rparr>"
  shows "reading e block contents key st data extra w rs"
proof -
  have len: "length (stream (tracks st) rs []) mod 16 = 0"
    using data(3)
  proof (induction rs)
    case (Cons r rs)
    have "length (record_bytes (tracks st) r) mod 16 = 0" using Cons.prems record_read(3) [of st r] by simp
    with Cons show ?case by (simp add: stream_def mod_add_eq [symmetric])
  qed (simp add: stream_def)
  have "length data \<noteq> 0" "length data mod 16 = 0" using data(1,2) len by simp_all
  then have "reader_at e block contents key st w data extra 16"
    using v data(2) by (simp add: reader_at_def w wrapper_new_def data(1))
  moreover have "drop 16 data = stream (tracks st) rs []" using data(1,2) by simp
  moreover have "pending st [] rs []" using data(3) record_read(4) by (cases rs) (force simp: pending_def)+
  moreover have "0 < st_readBlockSize st" using st part_size_cases [of st] by (auto simp: CheckSettings_def)
  ultimately show ?thesis using data(3) by (auto simp: reading_def w wrapper_new_def)
qed

lemma compactor_open_ok:
  assumes r: "reliable e block contents writable" and key: "key \<noteq> []" "length salt = kSaltSize"
    and st: "checkSettings st" "CheckSettings st" and data: "data = journal_header (tracks st) systemTime @ stream (tracks st) rs []"
    and rs: "list_all (record_plain st) rs" and b: "on_disk e block contents key binlog (data @ extra)"
  obtains c where "compactor_open e key salt (int (length data)) (compactor_new st (int (length data)) t binlog compact) = Some (c, True)"
    "compacting e block contents writable key st t (journal_header (tracks st) systemTime) [] c"
    "reading e block contents key st data extra (co_wrapper c) rs"
proof -
  let ?h = "journal_header (tracks st) systemTime" and ?c = "compactor_new st (int (length data)) t binlog compact"
  obtain b1 where b1: "file_open e True ModeRead key salt binlog = Some (b1, Success)" "file_view e block contents key b1 (data @ extra) 0"
    "fl_dataSize b1 = int (length (data @ extra))" using on_disk_open [OF r b, of ModeRead] by blast
  then have v1: "file_view e block contents key b1 (?h @ (stream (tracks st) rs [] @ extra)) 0" by (simp add: data)
  obtain b2 where b2: "ReadHeader e st b1 = Some (b2, Some ?h)" "file_view e block contents key b2 (?h @ (stream (tracks st) rs [] @ extra)) 16"
    using ReadHeader_ok [OF r v1] .
  obtain f1 where f1: "file_open e True ModeWrite key salt compact = Some (f1, Success)" "file_view e block contents key f1 [] (length ([] :: byte_list))"
    "writable (fl_data f1)" using file_create [OF r key] by auto
  have h: "length ?h mod kBlockSize = 0" "length ([] :: byte_list) + length ?h + 116 < 2 ^ 63" by (simp_all add: kBlockSize_def)
  obtain f2 enc where f2: "file_write e ?h f1 = Some (f2, True, enc)" "file_view e block contents key f2 ([] @ ?h) (length ([] @ ?h))"
    "writable (fl_data f2)" using file_view_append [OF r f1(2,3) h] .
  let ?w = "(wrapper_new binlog st (int (length data)))\<lparr>bw_file := b2\<rparr>"
  let ?c2 = "?c\<lparr>co_wrapper := ?w, co_compact := f2\<rparr>"
  have "compactor_open e key salt (int (length data)) ?c = Some (?c2, True)"
    using b1(1,3) b2(1) f1(1) f2(1)
    by (simp add: compactor_open_def compactor_openBinlog_def compactor_openCompact_def compactor_new_def wrapper_new_def)
  moreover have "compacting e block contents writable key st t ?h [] ?c2"
    using f2(2,3) unfolding compacting_def
    by (intro conjI exI [of _ "[]"]) (simp_all add: compactor_new_def stream_def)
  moreover have "reading e block contents key st data extra (co_wrapper ?c2) rs"
    using reading_start [OF st(2), of e block contents key b2 data extra ?h rs ?w binlog] b2(2) data rs by simp
  ultimately show thesis by (rule that)
qed

text \<open>The records of a complete run: they say what the journal says, once the answers are settled.\<close>

lemma answers_times:
  assumes "answers dbs keys [] raws" "distinct (map fst raws)" "\<forall>i k x. db_map (dbs i) k = Some x \<longrightarrow> P x"
  shows "\<forall>x \<in> snd ` set raws. P x"
proof clarify
  fix k x
  assume "(k, x) \<in> set raws"
  then have "map_of raws k = Some x" using assms(2) by simp
  moreover have "if k \<in> set keys then \<exists>i. map_of raws k = db_map (dbs i) k else map_of raws k = None"
    using assms(1) by (simp add: answers_def)
  ultimately obtain i where "db_map (dbs i) k = Some x" by (metis option.distinct(1))
  with assms(3) show "P (snd (k, x))" by auto
qed

lemma compact_records:
  assumes r: "reliable e block contents writable" and st: "checkSettings st" "CheckSettings st" "st_readBlockSize st mod 16 = 0"
      "0 < st_compactChunkSize st" and h: "length header = 16"
    and dbs: "\<forall>i. sizes_ok st (db_map (dbs i))" "\<forall>i k x. db_map (dbs i) k = Some x \<longrightarrow> tracks st \<or> en_useTime x = rel"
    and c: "compacting e block contents writable key st t header [] c" "reading e block contents key st data extra (co_wrapper c) rs"
      "fits (length (journal_keys rs))"
  obtains c1 ms where "compact_run e dbs 0 c = Some (c1, True)" "co_settings c1 = st"
    "on_disk e block contents key (file_close e (co_compact c1)) (header @ stream (tracks st) ms [])"
    "length (stream (tracks st) ms []) \<le> 64 * length (journal_keys rs)" "list_all (record_ok st) ms"
    "\<And>ext k. \<forall>i. settled (tracks st) rel rs ext k (db_map (dbs i) k) \<Longrightarrow>
      replay (tracks st) rel (ms @ ext) Map.empty k = replay (tracks st) rel (rs @ ext) Map.empty k"
proof -
  let ?trk = "tracks st"
  have "fits (length [] + length (journal_keys rs))" using c(3) by simp
  from compact_run_ok [OF r st h dbs(1) c(1,2) this, of 0] obtain c1 raws where
    c1: "compact_run e dbs 0 c = Some (c1, True)" "compacting e block contents writable key st t header raws c1" "co_list c1 = []"
      "answers dbs (journal_keys rs) [] raws" by blast
  then obtain chunks where ch: "list_all (record_plain st) (map MultiStore chunks)" "concat chunks = map (raw_store st t) raws"
    "file_view e block contents key (co_compact c1) (header @ stream ?trk (map MultiStore chunks) [])
      (length (header @ stream ?trk (map MultiStore chunks) []))"
    and raws: "list_all (raw_ok st) raws" "distinct (map fst raws)" "co_settings c1 = st" by (auto simp: compacting_def)
  let ?ms = "map MultiStore chunks"
  note ms = compacted_replay [OF st(1) raws(1,2) ch(2) answers_times [OF c1(4) raws(2) dbs(2)]]
  have "length (concat chunks) = length raws" using ch(2) by simp
  then have len: "length (stream ?trk ?ms []) \<le> 64 * length (journal_keys rs)"
    using stream_length [OF ch(1)] c1(4) by (simp add: answers_def)
  have "replay ?trk rel (?ms @ ext) Map.empty k = replay ?trk rel (rs @ ext) Map.empty k"
    if "\<forall>i. settled ?trk rel rs ext k (db_map (dbs i) k)" for ext k
    using answers_absorbed [OF c1(4), of k ?trk rel ext] that ms by simp
  with that [OF c1(1) raws(3) on_disk_close [OF r on_disk_view [OF ch(3)]] len chunks_record_ok [OF st(1) raws(1) ch(2,1)]]
  show thesis by blast
qed

text \<open>
  The compactor ends with a complete new journal. It reads the journal up to the size it had at the
  start, asks the database in chunks for the entries of the keys it stores, and copies what was appended
  meanwhile, so that the new file consists of records \<open>ms\<close> and of the records \<open>exts j\<close> appended since.
\<close>

lemma compaction_ok:
  assumes r: "reliable e block contents writable" and key: "key \<noteq> []" "length salt = kSaltSize"
    and st: "checkSettings st" "CheckSettings st" "st_readBlockSize st mod 16 = 0" "0 < st_compactChunkSize st"
    and old: "old = journal_header (tracks st) systemTime @ stream (tracks st) rs []" "list_all (record_plain st) rs"
    and b: "on_disk e block contents key binlog (old @ extra)"
      "\<forall>i. on_disk e block contents key (binlogs i) (old @ stream (tracks st) (exts i) [])" "\<forall>i. \<exists>more. exts (Suc i) = exts i @ more"
    and dbs: "\<forall>i. sizes_ok st (db_map (dbs i))" "\<forall>i k x. db_map (dbs i) k = Some x \<longrightarrow> tracks st \<or> en_useTime x = rel"
    and short: "\<forall>i. 64 * length (journal_keys rs) + length (stream (tracks st) (exts i) []) + 132 < 2 ^ 63"
  obtains compact' j ms where "compactor_start e key salt (int (length old)) dbs binlogs (compactor_new st (int (length old)) t binlog compact)
      = Some (compact', [CompactorDone (int (length (old @ stream (tracks st) (exts j) [])))])"
    "on_disk e block contents key compact' (journal_header (tracks st) systemTime @ stream (tracks st) (ms @ exts j) [])"
    "list_all (record_ok st) ms"
    "\<forall>ext k. (\<forall>i. settled (tracks st) rel rs ext k (db_map (dbs i) k)) \<longrightarrow>
      replay (tracks st) rel (ms @ ext) Map.empty k = replay (tracks st) rel (rs @ ext) Map.empty k"
proof -
  let ?h = "journal_header (tracks st) systemTime" and ?trk = "tracks st"
  obtain c0 where c0: "compactor_open e key salt (int (length old)) (compactor_new st (int (length old)) t binlog compact) = Some (c0, True)"
    "compacting e block contents writable key st t ?h [] c0" "reading e block contents key st old extra (co_wrapper c0) rs"
    using compactor_open_ok [OF r key st(1,2) old b(1)] .
  have h: "length ?h = 16" by simp
  have fit: "fits (length (journal_keys rs))" using spec [OF short, of 0] by simp
  obtain c1 ms where c1: "compact_run e dbs 0 c0 = Some (c1, True)" "co_settings c1 = st"
    "on_disk e block contents key (file_close e (co_compact c1)) (?h @ stream ?trk ms [])"
    "length (stream ?trk ms []) \<le> 64 * length (journal_keys rs)" "list_all (record_ok st) ms"
    and all: "\<And>ext k. \<forall>i. settled ?trk rel rs ext k (db_map (dbs i) k) \<Longrightarrow>
      replay ?trk rel (ms @ ext) Map.empty k = replay ?trk rel (rs @ ext) Map.empty k"
    using compact_records [OF r st h dbs c0(2,3) fit] by blast
  have cshort: "\<forall>i. length (?h @ stream ?trk ms []) + length (stream ?trk (exts i) []) + 116 < 2 ^ 63"
  proof
    fix i
    show "length (?h @ stream ?trk ms []) + length (stream ?trk (exts i) []) + 116 < 2 ^ 63"
      using c1(4) spec [OF short, of i] h by (simp only: length_append)
  qed
  have n: "st_readBlockSize st mod kBlockSize = 0" "0 < st_readBlockSize st"
    using st(2,3) part_size_cases [of st] by (auto simp: kBlockSize_def CheckSettings_def)
  have news: "\<forall>i. \<exists>more. stream ?trk (exts (Suc i)) [] = stream ?trk (exts i) [] @ more"
    using b(3) stream_append by metis
  have ne: "old \<noteq> []" using h unfolding old(1) by (metis append_is_Nil_conv list.size(3) zero_neq_numeral)
  have off: "length old mod kBlockSize = 0" using c0(3) by (auto simp: reading_def reader_at_def kBlockSize_def)
  have "length old \<le> length (old @ stream ?trk (exts 0) [])"
    "on_disk e block contents key (file_close e (co_compact c1))
      ((?h @ stream ?trk ms []) @ take (length old - length old) (stream ?trk (exts 0) []))" using c1(3) by simp_all
  from finalize_ok [OF r n b(2) news ne cshort off order_refl this] obtain j compact' where
    fin: "finalize e key salt (st_readBlockSize st) binlogs 0 0 (int (length old)) (file_close e (co_compact c1))
        = Some (compact', int (length (old @ stream ?trk (exts j) [])))"
      "on_disk e block contents key compact' ((?h @ stream ?trk ms []) @ stream ?trk (exts j) [])" by blast
  have start: "compactor_start e key salt (int (length old)) dbs binlogs (compactor_new st (int (length old)) t binlog compact)
      = Some (compact', [CompactorDone (int (length (old @ stream ?trk (exts j) [])))])"
    using c0(1) c1(1,2) fin(1) ne by (cases old) (simp_all add: compactor_start_def)
  have "on_disk e block contents key compact' (?h @ stream ?trk (ms @ exts j) [])" using fin(2) by (simp add: stream_append)
  from that [OF start this c1(5)] all show thesis by blast
qed

end
