(* ===== verification/CacheGrowth.thy ===== *)
theory CacheGrowth
  imports CompactorRuns
begin

text \<open>
  While its journal stays open, the database only appends to it, and a key that waits to be removed goes on
  waiting until the journal removes or stores it. This is what makes it safe to ask the database for
  entries while it goes on working.
\<close>

section \<open>Growth of the journal\<close>

text \<open>The settings that \<open>updateSettings\<close> does not change.\<close>

definition fixed_settings :: "cache_settings \<Rightarrow> cache_settings" where
  "fixed_settings st = st\<lparr>st_totalSizeLimit := 0, st_totalTimeLimit := 0\<rparr>"

definition grown :: "database \<Rightarrow> database \<Rightarrow> bool" where
  "grown db db' \<longleftrightarrow> (db_open db' \<longrightarrow> db_open db \<and> fixed_settings (db_settings db') = fixed_settings (db_settings db) \<and> db_header db' = db_header db
     \<and> (\<exists>ext. db_binlog db' = db_binlog db @ ext
         \<and> (\<forall>k \<in> db_removing db. k \<in> db_removing db' \<or> (\<exists>r \<in> set ext. overwrites k r))))"

text \<open>What of the state the growth depends on.\<close>

definition core :: "database \<Rightarrow> bool \<times> cache_settings \<times> u32 option \<times> binlog_record list \<times> cache_key set" where
  "core db = (db_open db, db_settings db, db_header db, db_binlog db, db_removing db)"

lemma grown_trans [trans]:
  assumes "grown a b" "grown b c"
  shows "grown a c"
proof (cases "db_open c")
  case True
  with assms(2) obtain ext2 where b: "db_open b" "fixed_settings (db_settings c) = fixed_settings (db_settings b)" "db_header c = db_header b" "db_binlog c = db_binlog b @ ext2"
    "\<forall>k \<in> db_removing b. k \<in> db_removing c \<or> (\<exists>r \<in> set ext2. overwrites k r)" by (auto simp: grown_def)
  with assms(1) obtain ext1 where a: "db_open a" "fixed_settings (db_settings b) = fixed_settings (db_settings a)" "db_header b = db_header a" "db_binlog b = db_binlog a @ ext1"
    "\<forall>k \<in> db_removing a. k \<in> db_removing b \<or> (\<exists>r \<in> set ext1. overwrites k r)" by (auto simp: grown_def)
  have "\<forall>k \<in> db_removing a. k \<in> db_removing c \<or> (\<exists>r \<in> set (ext1 @ ext2). overwrites k r)" using a(5) b(5) by auto
  with a b show ?thesis by (auto simp: grown_def)
qed (simp add: grown_def)

lemma grown_core: "core db' = core db \<Longrightarrow> grown db db'"
  by (auto simp: grown_def core_def)

lemma grown_refl: "grown db db"
  by (rule grown_core) simp

lemma grown_closed: "\<not> db_open db' \<Longrightarrow> grown db db'"
  by (simp add: grown_def)

lemma core_cong: "core b' = core b \<Longrightarrow> grown a b \<Longrightarrow> grown a b'"
  by (auto simp: grown_def core_def)

lemma core_cong1: "core a' = core a \<Longrightarrow> grown a b \<Longrightarrow> grown a' b"
  by (auto simp: grown_def core_def)

lemma optimize_core [simp]: "core (optimize e db) = core db"
  by (rule optimize_fields [of e db]) (simp add: core_def)

lemma core_updates [simp]:
  "core (db\<lparr>db_stale := s\<rparr>) = core db" "core (db\<lparr>db_files := f\<rparr>) = core db" "core (db\<lparr>db_accessed := a\<rparr>) = core db"
  "core (db\<lparr>db_clearingStale := b\<rparr>) = core db" "core (db\<lparr>db_excess := x\<rparr>) = core db" "core (db\<lparr>db_map := m\<rparr>) = core db"
  "core (db\<lparr>db_minimal := t\<rparr>) = core db" "core (db\<lparr>db_minimalCount := x\<rparr>) = core db" "core (db\<lparr>db_time := u\<rparr>) = core db"
  "core (remove_file p e db) = core db" "core (writeBundlesLazy e db) = core db" "core (compactorFail e db) = core db"
  "core (updateStats was now db) = core db" "core (applyTimePoint u db) = core db"
  by (simp_all add: core_def remove_file_def writeBundlesLazy_def compactorFail_def updateStats_def applyTimePoint_def Let_def)

lemma minimal_core: "drop_minimal db = Some db' \<Longrightarrow> core db' = core db" "count_minimal was now db = Some db' \<Longrightarrow> core db' = core db"
proof -
  show d: "drop_minimal db = Some db' \<Longrightarrow> core db' = core db" by (auto simp: drop_minimal_def split: if_splits)
  show "count_minimal was now db = Some db' \<Longrightarrow> core db' = core db" by (auto simp: count_minimal_def d split: if_splits)
qed

lemma erase_core: "eraseMapEntry key db = Some db' \<Longrightarrow> core db' = core db"
  by (auto simp: eraseMapEntry_def Let_def bind_eq_Some_conv dest!: minimal_core(1) split: option.splits if_splits)

lemma set_core: "setMapEntry key entry db = Some db' \<Longrightarrow> core db' = core db"
  by (auto simp: setMapEntry_def Let_def bind_eq_Some_conv dest!: minimal_core(2) split: if_splits)

lemma store_core: "processRecordStore r db = Some (db', good) \<Longrightarrow> core db' = core db"
  by (auto simp: processRecordStore_def Let_def dest!: set_core split: if_splits)

section \<open>The writers of the journal\<close>

lemma overwrites_simps [simp]:
  "overwrites k (MultiRemove ks) \<longleftrightarrow> k \<in> set ks" "overwrites k (StoreRecord r) \<longleftrightarrow> k = sr_key r"
  by (auto simp: overwrites_def record_keys_def)

lemma writeMultiRemove_grown:
  assumes "writeMultiRemove e db = Some (db', error)" "finite (db_removing db)"
  shows "grown db db'" "error = NoError \<Longrightarrow> db_removing db' = {}"
  using assms by (auto simp: writeMultiRemove_def binlog_write_def grown_def Let_def split: if_splits)

lemma writeMultiRemoveLazy_grown:
  assumes "writeMultiRemoveLazy e db = Some db'" "finite (db_removing db)"
  shows "grown db db'"
  using assms writeMultiRemove_grown(1) [OF _ assms(2)]
  by (auto simp: writeMultiRemoveLazy_def intro: grown_core split: if_splits)

lemma writeMultiAccessBlock_grown: "writeMultiAccessBlock e db = Some (db', error) \<Longrightarrow> grown db db'"
  by (auto simp: writeMultiAccessBlock_def binlog_write_def grown_def Let_def split: if_splits)

lemma writeMultiAccess_grown: "writeMultiAccess e db = Some (db', error) \<Longrightarrow> grown db db'"
  by (auto simp: writeMultiAccess_def intro: writeMultiAccessBlock_grown grown_refl split: if_splits)

lemma recordEntryAccess_grown:
  assumes "recordEntryAccess key e db = Some db'"
  shows "grown db db'"
proof (cases "track db")
  case True
  let ?db0 = "db\<lparr>db_accessed := insert key (db_accessed db)\<rparr>"
  from True assms obtain db1 where 1: "writeMultiAccessLazy e ?db0 = Some db1" "db' = optimize e db1"
    by (auto simp: recordEntryAccess_def)
  have "grown ?db0 db1"
    using 1(1) writeMultiAccess_grown [of e ?db0] by (auto simp: writeMultiAccessLazy_def intro: grown_core split: if_splits)
  then have "grown db db1" by (rule core_cong1 [rotated]) simp
  then show ?thesis unfolding 1(2) by (rule core_cong [rotated]) simp
qed (use assms in \<open>simp add: recordEntryAccess_def grown_refl\<close>)

lemma writeBundles_grown:
  assumes "writeBundles e db = Some db'" "finite (db_removing db)"
  shows "grown db db'"
  using assms writeMultiRemove_grown(1) [OF _ assms(2)] writeMultiAccess_grown
  by (fastforce simp: writeBundles_def bind_eq_Some_conv intro: grown_trans split: if_splits)

text \<open>A store of a key that waited to be removed.\<close>

lemma write_store_grown:
  assumes "write_store r e db = Some (db', error)" "\<forall>k \<in> db_removing was. k \<in> db_removing db \<or> k = sr_key r"
    and "core was = core (db\<lparr>db_removing := db_removing was\<rparr>)"
  shows "grown was db'"
proof (cases "db_open db \<and> ev_binlog_ok e")
  case True
  let ?db1 = "db\<lparr>db_binlog := db_binlog db @ [StoreRecord r]\<rparr>"
  from True assms(1) obtain applied where "processRecordStore r ?db1 = Some (db', applied)"
    by (auto simp: write_store_def binlog_write_def bind_eq_Some_conv split: if_splits)
  from store_core [OF this] assms(2,3) show ?thesis by (auto simp: grown_def core_def)
next
  case False
  with assms(1) have "\<not> db_open db'" by (auto simp: write_store_def binlog_write_def split: if_splits)
  then show ?thesis by (rule grown_closed)
qed

lemma store_setSize_key: "store_setSize sz r = Some r' \<Longrightarrow> sr_key r' = sr_key r"
  by (auto simp: store_setSize_def)

section \<open>The operations\<close>

lemma db_remove_grown:
  assumes "db_remove key e db = Some (db', error)" "finite (db_removing db)"
  shows "grown db db'"
proof (cases "db_open db \<and> db_map db key \<noteq> None")
  case True
  let ?db0 = "db\<lparr>db_removing := insert key (db_removing db)\<rparr>"
  from True obtain entry where "db_map db key = Some entry" by blast
  with True assms(1) obtain db1 db2 where 1: "writeMultiRemoveLazy e ?db0 = Some db1" "eraseMapEntry key db1 = Some db2"
    "db' = remove_file (en_place entry) e db2" by (auto simp: db_remove_def Let_def bind_eq_Some_conv)
  have "grown db ?db0" by (auto simp: grown_def)
  also have "grown ?db0 db1" using writeMultiRemoveLazy_grown [OF 1(1)] assms(2) by simp
  also have "grown db1 db'" unfolding 1(3) using erase_core [OF 1(2)] by (intro grown_core) simp
  finally show ?thesis .
qed (use assms in \<open>auto simp: db_remove_def grown_refl split: if_splits\<close>)

lemma db_put_grown:
  assumes call: "db_put key val e db = Some (db', error)" and env: "put_env e val db"
    and ok: "finite (db_removing db)" "db_open db \<Longrightarrow> \<forall>k \<in> db_removing db. db_map db k = None"
  shows "grown db db'"
proof (cases "db_open db \<and> fst val \<noteq> []")
  case True
  let ?db0 = "db\<lparr>db_removing := db_removing db - {key}, db_stale := filter (\<lambda>k. k \<noteq> key) (db_stale db)\<rparr>"
  let ?sum = "ev_checksum e (fst val)"
  from True call obtain was now where change: "chooseKeyPlace key val ?sum e ?db0 = Some (was, now)"
    by (auto simp: db_put_def Let_def bind_eq_Some_conv)
  show ?thesis
  proof (cases now)
    case None
    with change have "db_map db key \<noteq> None" by (auto simp: chooseKeyPlace_def split: option.splits if_splits)
    then have "core ?db0 = core db" using ok(2) True by (auto simp: core_def)
    moreover obtain db1 where "recordEntryAccess key e ?db0 = Some db1" "db' = db1"
      using call True change None by (auto simp: db_put_def Let_def)
    ultimately show ?thesis using recordEntryAccess_grown core_cong1 [of db ?db0] by metis
  next
    case (Some place)
    let ?db1 = "?db0\<lparr>db_files := (db_files ?db0)(place \<mapsto> padded (ev_padding e) (fst val))\<rparr>"
    have new: "writeNewEntry place (fst val) e ?db0 = Some (?db1, NoError)" using env by (simp add: writeNewEntry_def put_env_def)
    from call True change Some new obtain db2 error2 where 2: "writeKeyPlace key place val ?sum e ?db1 = Some (db2, error2)" "core db' = core db2"
      by (auto simp: db_put_def Let_def bind_eq_Some_conv split: if_splits option.splits)
    from 2(1) obtain r where r: "write_store r e ?db1 = Some (db2, error2)" "sr_key r = key"
      by (auto simp: writeKeyPlace_def bind_eq_Some_conv dest: store_setSize_key split: if_splits)
    have "grown db db2" by (rule write_store_grown [OF r(1)]) (auto simp: r(2) core_def)
    then show ?thesis by (rule core_cong [OF 2(2)])
  qed
next
  case False
  then show ?thesis using call db_remove_grown [OF _ ok(1), of key e db' error] by (auto simp: db_put_def grown_refl split: if_splits)
qed

lemma db_ok_removing:
  assumes "db_ok db"
  shows "finite (db_removing db)" "db_open db \<Longrightarrow> \<forall>k \<in> db_removing db. db_map db k = None"
  using assms by (auto simp: journal_inv_def visible_def)

lemma put_grown: "db_put key val e db = Some (db', error) \<Longrightarrow> put_env e val db \<Longrightarrow> db_ok db \<Longrightarrow> grown db db'"
  using db_put_grown db_ok_removing by blast

lemma remove_grown: "db_remove key e db = Some (db', error) \<Longrightarrow> db_ok db \<Longrightarrow> grown db db'"
  using db_remove_grown db_ok_removing(1) by blast

lemma db_get_grown:
  assumes "db_get key (\<lambda>v d. Some (d, v)) e db = Some (db', val)" "db_ok db"
  shows "grown db db'"
  using assms(1) recordEntryAccess_grown remove_grown [OF _ assms(2)]
  by (auto simp: db_get_def Let_def bind_eq_Some_conv grown_refl split: option.splits if_splits)

lemma db_copyIfEmpty_grown:
  assumes call: "db_copyIfEmpty src dst e db = Some (db', error)" and env: "put_env e (stored_value e db src) db" and ok: "db_ok db"
  shows "grown db db'"
proof (cases "db_map db dst")
  case None
  then have get: "db_get src (\<lambda>val. db_put dst val e) e db = Some (db', error)" using call by (simp add: db_copyIfEmpty_def)
  let ?val = "stored_value e db src"
  show ?thesis
  proof (cases "fst ?val = []")
    case False
    then have "db_get src (\<lambda>val. db_put dst val e) e db =
        do { (db1, r) \<leftarrow> db_put dst ?val e db; db2 \<leftarrow> recordEntryAccess src e db1; Some (db2, r) }"
      by (auto simp: stored_value_def db_get_def Let_def split: option.splits if_splits)
    with get obtain db1 where "db_put dst ?val e db = Some (db1, error)" "recordEntryAccess src e db1 = Some db'"
      by (auto simp: bind_eq_Some_conv)
    then show ?thesis using put_grown [OF _ env ok] recordEntryAccess_grown grown_trans by blast
  next
    case True
    then consider "db_put dst ([], 0) e db = Some (db', error)"
      | db1 error1 where "db_remove src e db = Some (db1, error1)" "db_put dst ([], 0) e db1 = Some (db', error)"
      using get by (auto simp: stored_value_def db_get_def Let_def bind_eq_Some_conv split: option.splits if_splits)
    then show ?thesis
    proof cases
      case 1
      then show ?thesis using remove_grown [OF _ ok] by (auto simp: db_put_def grown_refl split: if_splits)
    next
      case 2
      have ok1: "db_ok db1" using db_remove_ok [OF ok, of src e] 2(1) by auto
      have "grown db1 db'" using 2(2) remove_grown [OF _ ok1] by (auto simp: db_put_def grown_refl split: if_splits)
      with remove_grown [OF 2(1) ok] show ?thesis by (rule grown_trans)
    qed
  qed
qed (use call in \<open>auto simp: db_copyIfEmpty_def grown_refl\<close>)

lemma writeExistingPlace_grown: "writeExistingPlace key entry e db = Some (db', error) \<Longrightarrow> grown db db'"
  using write_store_grown [of _ e db db' error db]
  by (auto simp: writeExistingPlace_def Let_def bind_eq_Some_conv grown_refl split: if_splits)

lemma db_moveIfEmpty_grown:
  assumes call: "db_moveIfEmpty src dst e db = Some (db', error)" and ok: "finite (db_removing db)"
  shows "grown db db'"
proof (cases "db_map db dst = None \<and> db_map db src \<noteq> None")
  case True
  let ?db0 = "db\<lparr>db_removing := insert src (db_removing db)\<rparr>"
  let ?unremove = "\<lambda>d. d\<lparr>db_removing := db_removing d - {dst}, db_stale := filter (\<lambda>k. k \<noteq> dst) (db_stale d)\<rparr>"
  from True call obtain entry db1 db2 result where 1: "eraseMapEntry src ?db0 = Some db1" "writeMultiRemove e db1 = Some (db2, result)"
    "if result \<noteq> NoError then db' = db2 else writeExistingPlace dst entry e (?unremove db2) = Some (db', error)"
    by (auto simp: db_moveIfEmpty_def bind_eq_Some_conv split: if_splits)
  have c: "core db1 = core ?db0" using erase_core [OF 1(1)] .
  then have "finite (db_removing db1)" using ok by (simp add: core_def)
  note removed = writeMultiRemove_grown [OF 1(2) this]
  have "grown db ?db0" by (auto simp: grown_def)
  also have "grown ?db0 db1" by (rule grown_core [OF c])
  also note removed(1)
  finally have 2: "grown db db2" .
  show ?thesis
  proof (cases "result = NoError")
    case True
    then have "core (?unremove db2) = core db2" using removed(2) by (simp add: core_def)
    then have "grown db (?unremove db2)" by (rule core_cong [OF _ 2])
    also have "grown (?unremove db2) db'" using True 1(3) writeExistingPlace_grown by simp
    finally show ?thesis .
  qed (use 1(3) 2 in simp)
qed (use call in \<open>auto simp: db_moveIfEmpty_def grown_refl split: if_splits\<close>)

lemma remove_keys_grown: "remove_keys ks e db = Some db' \<Longrightarrow> db_ok db \<Longrightarrow> grown db db'"
proof (induction ks arbitrary: db)
  case (Cons k ks)
  then obtain db1 error where 1: "db_remove k e db = Some (db1, error)" "remove_keys ks e db1 = Some db'"
    by (auto simp: bind_eq_Some_conv)
  have "db_ok db1" using db_remove_ok [OF Cons.prems(2), of k e] 1(1) by auto
  from grown_trans [OF remove_grown [OF 1(1) Cons.prems(2)] Cons.IH [OF 1(2) this]] show ?case .
qed (simp add: grown_refl)

lemma clearStaleNow_grown:
  assumes "clearStaleNow keys e db = Some db'" "db_ok db"
  shows "grown db db'"
proof (cases "keys = []")
  case False
  let ?db0 = "db\<lparr>db_stale := db_stale db @ [hd keys]\<rparr>"
  from False assms(1) obtain db1 where 1: "remove_keys keys e ?db0 = Some db1" "core db' = core db1"
    by (auto simp: clearStaleNow_def bind_eq_Some_conv)
  have "grown ?db0 db1" using remove_keys_grown [OF 1(1)] assms(2) by simp
  then have "grown db db1" by (rule core_cong1 [rotated]) simp
  then show ?thesis by (rule core_cong [OF 1(2)])
qed (use assms in \<open>simp add: clearStaleNow_def grown_refl\<close>)

lemma clearStaleChunk_grown: "clearStaleChunk e db = Some db' \<Longrightarrow> db_ok db \<Longrightarrow> grown db db'"
  by (auto simp: clearStaleChunk_def Let_def bind_eq_Some_conv grown_refl intro: core_cong [rotated] dest!: remove_keys_grown split: if_splits)

lemma clear_all_stale_grown:
  "clear_all_stale e db = Some db' \<Longrightarrow> db_ok db \<Longrightarrow> grown db db'"
proof (induction "length (db_stale db)" arbitrary: db rule: less_induct)
  case less
  show ?case
  proof (cases "db_stale db = []")
    case True
    with less.prems(1) show ?thesis by (subst (asm) clear_all_stale.simps) (simp add: grown_refl)
  next
    case False
    with less.prems(1) obtain db1 where 1: "clearStaleChunk e db = Some db1" "clear_all_stale e db1 = Some db'"
      by (subst (asm) clear_all_stale.simps) (auto simp: bind_eq_Some_conv)
    have "0 < st_staleRemoveChunk (db_settings db)" using less.prems(2) by (simp add: journal_inv_def checkSettings_def)
    moreover have ok1: "db_ok db1"
      and "db_stale db1 = take (length (db_stale db) - st_staleRemoveChunk (db_settings db)) (db_stale db)"
      using clearStaleChunk_ok [OF less.prems(2), of e] unfolding 1(1) by auto
    moreover have "0 < length (db_stale db)" using False by simp
    ultimately have "length (db_stale db1) < length (db_stale db)" unfolding length_take by simp
    from grown_trans [OF clearStaleChunk_grown [OF 1(1) less.prems(2)] less.hyps [OF this 1(2) ok1]] show ?thesis .
  qed
qed

lemma db_prune_grown:
  assumes call: "db_prune order e db = Some db'" and ok: "db_ok db"
    and order: "distinct order" "set order = dom (db_map db)" "\<forall>k x. db_map db k = Some x \<longrightarrow> en_useTime x < 2 ^ 63"
  shows "grown db db'"
proof (cases "db_stale db = []")
  case True
  have "0 \<le> st_totalSizeLimit (db_settings db)" using ok checkSettings_limit by (simp add: journal_inv_def)
  from collect_ok [OF ok order(3,1,2) this] obtain stale1 db1 keys where
    1: "collectTimeStale (ev_time e) order ([], 0) db = (stale1, db1)" "db_ok db1" "frame db1 = frame db"
      "collectSizeStale order stale1 db1 = Some (keys, keys_size (db_map db) (set keys))" by metis
  have c: "core db1 = core db" "core (db1\<lparr>db_stale := keys\<rparr>) = core db" using frame_fields [OF 1(3)] by (simp_all add: core_def)
  from call True 1(1,4) have "clearStaleNow keys e db1 = Some db' \<or> clearStaleChunk e (db1\<lparr>db_stale := keys\<rparr>) = Some db'"
    by (auto simp: db_prune_def split: if_splits)
  then show ?thesis
  proof
    assume "clearStaleNow keys e db1 = Some db'"
    from clearStaleNow_grown [OF this 1(2)] show ?thesis by (rule core_cong1 [OF c(1) [symmetric]])
  next
    assume "clearStaleChunk e (db1\<lparr>db_stale := keys\<rparr>) = Some db'"
    from clearStaleChunk_grown [OF this] 1(2) have "grown (db1\<lparr>db_stale := keys\<rparr>) db'" by simp
    then show ?thesis by (rule core_cong1 [OF c(2) [symmetric]])
  qed
qed (use call in \<open>simp add: db_prune_def grown_refl\<close>)

lemma db_clearByTag_grown:
  assumes "db_clearByTag tag order e db = Some db'" "db_ok db"
  shows "grown db db'"
proof -
  define db1 where "db1 = db\<lparr>db_stale := db_stale db
    @ filter (\<lambda>k. case db_map db k of Some entry \<Rightarrow> en_tag entry = tag | None \<Rightarrow> False) order\<rparr>"
  have c: "core db1 = core db" "db_ok db1" using assms(2) by (simp_all add: db1_def)
  have "db_clearByTag tag order e db = (if db_stale db \<noteq> [] then Some db1 else clearStaleChunk e db1)"
    unfolding db_clearByTag_def Let_def db1_def by (rule refl)
  with assms(1) consider "db' = db1" | "clearStaleChunk e db1 = Some db'" by (cases "db_stale db = []") auto
  then show ?thesis
  proof cases
    case 1
    then show ?thesis using c(1) by (simp add: grown_core)
  next
    case 2
    from clearStaleChunk_grown [OF this c(2)] show ?thesis by (rule core_cong1 [OF c(1) [symmetric]])
  qed
qed

lemma db_updateSettings_grown:
  assumes "db_updateSettings sizeLimit timeLimit e db = Some db'"
  shows "grown db db'"
proof -
  let ?db1 = "db\<lparr>db_settings := (db_settings db)\<lparr>st_totalSizeLimit := sizeLimit, st_totalTimeLimit := timeLimit\<rparr>\<rparr>"
  have "grown db ?db1" by (auto simp: grown_def fixed_settings_def)
  then have "grown db (optimize e ?db1)" by (rule core_cong [rotated]) simp
  then show ?thesis using assms by (auto simp: db_updateSettings_def Let_def split: if_splits)
qed

lemma db_op_grown:
  assumes "db_op db db'" "db_ok db"
  shows "grown db db'"
  using assms
proof (induction rule: db_op.induct)
  case (put e val db key db' error)
  from put_grown [OF put.hyps(2,1) put.prems] show ?case .
next
  case (putIfEmpty e val db key db' error)
  then show ?case using put_grown [of key val e db db' error] by (auto simp: db_putIfEmpty_def grown_refl split: if_splits)
next
  case (get key e db db' val)
  from db_get_grown [OF get.hyps get.prems] show ?case .
next
  case (remove key e db db' error)
  from remove_grown [OF remove.hyps remove.prems] show ?case .
next
  case (copyIfEmpty e db src dst db' error)
  from db_copyIfEmpty_grown [OF copyIfEmpty.hyps(2,1) copyIfEmpty.prems] show ?case .
next
  case (moveIfEmpty e db src dst db' error)
  from db_moveIfEmpty_grown [OF moveIfEmpty.hyps(2) db_ok_removing(1) [OF moveIfEmpty.prems]] show ?case .
next
  case (prune order db e db')
  from db_prune_grown [OF prune.hyps(4) prune.prems prune.hyps(1-3)] show ?case .
next
  case (clearByTag tag order e db db')
  from db_clearByTag_grown [OF clearByTag.hyps clearByTag.prems] show ?case .
next
  case (staleChunk e db db')
  from clearStaleChunk_grown [OF staleChunk.hyps staleChunk.prems] show ?case .
next
  case (waitForCleaner e db db')
  from clear_all_stale_grown [OF waitForCleaner.hyps waitForCleaner.prems] show ?case .
next
  case (bundles e db db')
  from writeBundles_grown [OF bundles.hyps db_ok_removing(1) [OF bundles.prems]] show ?case .
next
  case (updateSettings sizeLimit timeLimit e db db')
  from db_updateSettings_grown [OF updateSettings.hyps] show ?case .
next
  case (compactorFail db e)
  show ?case by (rule grown_core) simp
qed

section \<open>Runs of the database\<close>

abbreviation db_run :: "database \<Rightarrow> database \<Rightarrow> bool" where "db_run \<equiv> db_op\<^sup>*\<^sup>*"

lemma db_run_grown:
  assumes "db_run db db'" "db_ok db"
  shows "grown db db'" "db_ok db'"
proof -
  from assms have "grown db db' \<and> db_ok db'"
  proof (induction rule: rtranclp_induct)
    case (step b c)
    from db_op_grown [OF step.hyps(2)] db_op_ok [OF step.hyps(2)] step.IH [OF step.prems] grown_trans show ?case by blast
  qed (simp add: grown_refl)
  then show "grown db db'" "db_ok db'" by blast+
qed

lemma grown_open:
  assumes "grown db db'" "db_open db'"
  obtains ext where "db_open db" "db_binlog db' = db_binlog db @ ext" "track db' = track db" "header_time db' = header_time db"
    "fixed_settings (db_settings db') = fixed_settings (db_settings db)" "db_header db' = db_header db"
    "\<forall>k \<in> db_removing db. k \<in> db_removing db' \<or> (\<exists>r \<in> set ext. overwrites k r)"
proof -
  from assms obtain ext where 1: "db_open db" "db_binlog db' = db_binlog db @ ext" "db_header db' = db_header db"
    "fixed_settings (db_settings db') = fixed_settings (db_settings db)"
    "\<forall>k \<in> db_removing db. k \<in> db_removing db' \<or> (\<exists>r \<in> set ext. overwrites k r)" by (auto simp: grown_def)
  have "track db' = track db" using arg_cong [OF 1(4), of st_trackEstimatedTime] by (simp add: fixed_settings_def)
  moreover have "header_time db' = header_time db" using 1(3) by (simp add: header_time_def)
  ultimately show thesis using that [of ext] 1 by blast
qed

text \<open>What the database answers while it runs is settled at the end of the run.\<close>

lemma run_settled:
  assumes ok: "db_ok db0" and run: "db_run db0 dbi" "db_run dbi db" and op: "db_open db" and k: "k \<notin> db_removing db"
    and ext: "db_binlog db = db_binlog db0 @ ext"
  shows "settled (track db0) (header_time db0) (db_binlog db0) ext k (db_map dbi k)"
proof -
  obtain suf where i: "db_open dbi" "db_binlog db = db_binlog dbi @ suf"
    "\<forall>k \<in> db_removing dbi. k \<in> db_removing db \<or> (\<exists>r \<in> set suf. overwrites k r)"
    using grown_open [OF db_run_grown(1) [OF run(2) db_run_grown(2) [OF run(1) ok]] op] by blast
  obtain pre where 0: "db_binlog dbi = db_binlog db0 @ pre" "track dbi = track db0" "header_time dbi = header_time db0"
    using grown_open [OF db_run_grown(1) [OF run(1) ok] i(1)] by blast
  have e: "ext = pre @ suf" using ext i(2) 0(1) by simp
  have vis: "db_map dbi k = visible dbi k" using db_run_grown(2) [OF run(1) ok] i(1) by (simp add: journal_inv_def)
  show ?thesis
  proof (cases "k \<in> db_removing dbi")
    case True
    then show ?thesis using i(3) k e by (auto simp: settled_def)
  next
    case False
    then have "db_map dbi k = replay (track db0) (header_time db0) (db_binlog db0 @ pre) Map.empty k"
      using vis by (simp add: visible_def journal_map_def 0)
    then show ?thesis using e by (auto simp: settled_def)
  qed
qed

lemma fixed_record_ok: "fixed_settings st' = fixed_settings st \<Longrightarrow> record_ok st' r = record_ok st r"
proof -
  assume f: "fixed_settings st' = fixed_settings st"
  have "st_maxDataSize st' = st_maxDataSize st" "st_maxBundledRecords st' = st_maxBundledRecords st" "tracks st' = tracks st"
    using arg_cong [OF f, of st_maxDataSize] arg_cong [OF f, of st_maxBundledRecords] arg_cong [OF f, of st_trackEstimatedTime]
    by (simp_all add: fixed_settings_def)
  then show ?thesis by (cases r) (simp_all add: record_ok_def store_ok_def list_all_iff)
qed

lemma fixed_sizes_ok: "fixed_settings st' = fixed_settings st \<Longrightarrow> sizes_ok st' m = sizes_ok st m"
  unfolding sizes_ok_def fixed_settings_def by (drule arg_cong [where f = st_maxDataSize]) simp

text \<open>Without tracking every entry has the time of the header.\<close>

lemma untracked_stores:
  "\<not> trk \<Longrightarrow> \<forall>k x. m k = Some x \<longrightarrow> en_useTime x = rel \<Longrightarrow>
    \<forall>k x. fold (\<lambda>r m. m(sr_key r \<mapsto> entry_of trk rel r)) ss m k = Some x \<longrightarrow> en_useTime x = rel"
proof (induction ss arbitrary: m)
  case (Cons s ss)
  have "\<forall>k x. (m(sr_key s \<mapsto> entry_of trk rel s)) k = Some x \<longrightarrow> en_useTime x = rel"
    using Cons.prems by (simp add: entry_of_def)
  from Cons.IH [OF Cons.prems(1) this] show ?case by simp
qed simp

lemma untracked_replay:
  "list_all (record_ok st) rs \<Longrightarrow> \<not> tracks st \<Longrightarrow> \<forall>k x. m k = Some x \<longrightarrow> en_useTime x = rel \<Longrightarrow>
    replay (tracks st) rel rs m k = Some x \<Longrightarrow> en_useTime x = rel"
proof (induction rs arbitrary: m)
  case (Cons r rs)
  have "\<forall>k x. replay_record (tracks st) rel r m k = Some x \<longrightarrow> en_useTime x = rel"
    using Cons.prems(1-3) untracked_stores [OF Cons.prems(2,3)]
    by (cases r) (auto simp: replay_record_def record_ok_def entry_of_def restrict_map_def split: if_splits)
  with Cons.IH [of "replay_record (tracks st) rel r m"] Cons.prems show ?case by simp
qed simp

lemma untracked_times:
  assumes "db_ok db" "db_open db" "\<not> track db" "db_map db k = Some x"
  shows "en_useTime x = header_time db"
proof -
  have "journal_map db k = Some x" "list_all (record_ok (db_settings db)) (db_binlog db)"
    using assms by (auto simp: journal_inv_def visible_def split: if_splits)
  then show ?thesis
    using untracked_replay [of "db_settings db" "db_binlog db" Map.empty "header_time db" k x] assms(3) by (simp add: journal_map_def)
qed

text \<open>What the answers of a running database are like.\<close>

lemma run_answers:
  assumes ok: "db_ok db0" and run: "db_run db0 dbi" "db_run dbi db" and op: "db_open db"
  shows "db_open dbi" "db_binlog dbi = db_binlog db0 @ drop (length (db_binlog db0)) (db_binlog dbi)"
    "sizes_ok (db_settings db0) (db_map dbi)" "db_map dbi k = Some x \<Longrightarrow> track db0 \<or> en_useTime x = header_time db0"
proof -
  note oki = db_run_grown(2) [OF run(1) ok]
  show opi: "db_open dbi" using grown_open [OF db_run_grown(1) [OF run(2) oki] op] by blast
  obtain pre where 0: "db_binlog dbi = db_binlog db0 @ pre" "track dbi = track db0" "header_time dbi = header_time db0"
    "fixed_settings (db_settings dbi) = fixed_settings (db_settings db0)"
    using grown_open [OF db_run_grown(1) [OF run(1) ok] opi] by blast
  then show "db_binlog dbi = db_binlog db0 @ drop (length (db_binlog db0)) (db_binlog dbi)" by simp
  show "sizes_ok (db_settings db0) (db_map dbi)"
    using journal_sizes [of dbi] oki opi fixed_sizes_ok [OF 0(4)] by simp
  show "track db0 \<or> en_useTime x = header_time db0" if "db_map dbi k = Some x"
    using untracked_times [OF oki opi _ that] 0(2,3) by auto
qed

text \<open>Records that say the same as the journal of \<open>db0\<close> once the answers are settled, with what was appended since.\<close>

lemma taken_over:
  assumes ok: "db_ok db0" and run: "\<And>i. db_run db0 (dbs i) \<and> db_run (dbs i) db" and op: "db_open db"
    and ms: "list_all (record_ok (db_settings db0)) ms"
      "\<And>ext k. \<forall>i. settled (track db0) (header_time db0) (db_binlog db0) ext k (db_map (dbs i) k) \<Longrightarrow>
        replay (track db0) (header_time db0) (ms @ ext) Map.empty k = replay (track db0) (header_time db0) (db_binlog db0 @ ext) Map.empty k"
  shows "same_journal (ms @ drop (length (db_binlog db0)) (db_binlog db)) db"
proof -
  have run0: "db_run db0 db" using run [of undefined] by (blast intro: rtranclp_trans)
  obtain ext where g: "db_binlog db = db_binlog db0 @ ext" "track db = track db0" "header_time db = header_time db0"
    "fixed_settings (db_settings db) = fixed_settings (db_settings db0)"
    using grown_open [OF db_run_grown(1) [OF run0 ok] op] by blast
  have "replay (track db0) (header_time db0) (ms @ ext) Map.empty k = journal_map db k" if k: "k \<notin> db_removing db" for k
  proof -
    have "\<forall>i. settled (track db0) (header_time db0) (db_binlog db0) ext k (db_map (dbs i) k)"
      using run_settled [OF ok _ _ op k g(1)] run by blast
    from ms(2) [OF this] show ?thesis using g by (simp add: journal_map_def)
  qed
  moreover have "list_all (record_ok (db_settings db)) (ms @ ext)"
    using db_run_grown(2) [OF run0 ok] op ms(1) g(1) fixed_record_ok [OF g(4)] by (auto simp: journal_inv_def list_all_iff)
  ultimately show ?thesis using g by (auto simp: same_journal_def)
qed


text \<open>A journal in the file in memory.\<close>

lemma mem_journal:
  assumes "list_all (record_plain st) rs" "length (stream (tracks st) rs []) + 132 < 2 ^ 63"
  obtains f where "on_disk mem_env mem_block mf_bytes [1] f (journal_header (tracks st) t @ stream (tracks st) rs [])"
proof -
  let ?h = "journal_header (tracks st) t"
  obtain f1 where f1: "file_view mem_env mem_block mf_bytes [1] f1 [] (length ([] :: byte_list))" "mf_writable (fl_data f1)"
    by (rule file_create [OF mem_reliable, of "[1]" "replicate 64 5" new_mem_file]) (simp_all add: kSaltSize_def)
  have h: "length ?h mod kBlockSize = 0" "length ([] :: byte_list) + length ?h + 116 < 2 ^ 63" by (simp_all add: kBlockSize_def)
  obtain f2 enc where f2: "file_view mem_env mem_block mf_bytes [1] f2 ([] @ ?h) (length ([] @ ?h))" "mf_writable (fl_data f2)"
    using file_view_append [OF mem_reliable f1 h] by blast
  have "length ([] @ ?h) + length (stream (tracks st) rs []) + 116 < 2 ^ 63" using assms(2) by simp
  from write_records_ok [OF mem_reliable f2 assms(1) this] obtain f3 where
    "file_view mem_env mem_block mf_bytes [1] f3 (([] @ ?h) @ stream (tracks st) rs []) (length (([] @ ?h) @ stream (tracks st) rs []))" by blast
  from on_disk_view [OF this] that show thesis by simp
qed

text \<open>The cache with one value.\<close>

lemma sample_one:
  "\<exists>db r. db_put (Key 1 2) sample_value sample_env opened_db = Some (db, NoError) \<and> db_open db \<and> db_header db = Some 1000
    \<and> db_settings db = small_settings \<and> db_binlog db = [StoreRecord r] \<and> store_plain True r \<and> db_map db (Key 1 2) \<noteq> None
    \<and> db_excess db = 0 \<and> db_compactor db = None"
  using ReadFrom_pack [of 20 3] by (simp add: sample_eval store_plain_def)

lemma small_settings_reader:
  "CheckSettings small_settings" "st_readBlockSize small_settings mod 16 = 0" "0 < st_compactChunkSize small_settings"
  "tracks small_settings = True" "int (st_maxBundledRecords small_settings) < kBundledRecordsLimit"
  by (simp_all add: CheckSettings_def small_settings_def default_settings_def part_size_def kBundledRecordsLimit_def)


end
