(* ===== verification/ChatList.thy ===== *)
theory ChatList
  imports Prelude
begin

text \<open>
  \<open>dialogs/dialogs_list.{h,cpp}\<close>: the rows of a list of chats, kept in order while single rows change.
  There is one row for a key, so a pointer to a row is its key; \<open>cl_pos\<close> is \<open>_rowByKey\<close> with the \<open>_pos\<close> of
  the rows. What the entry behind a key says (sort position, name) is an argument. A failed
  \<open>Expects\<close> or a row that is missing or out of range is \<open>None\<close>.
\<close>

section \<open>The list\<close>

datatype SortMode = SortDate | SortName | SortAdd

record 'k chat_list =
  cl_mode :: SortMode
  cl_rows :: "'k list"
  cl_pos :: "'k \<rightharpoonup> nat"

definition list_new :: "SortMode \<Rightarrow> 'k chat_list" where
  "list_new mode = \<lparr>cl_mode = mode, cl_rows = [], cl_pos = Map.empty\<rparr>"

definition list_getRow :: "'k \<Rightarrow> 'k chat_list \<Rightarrow> 'k option" where
  "list_getRow key l = (if cl_pos l key = None then None else Some key)"

text \<open>\<open>std::find_if\<close> from a position on, and backwards before a position, as the base of the reverse iterator.\<close>

definition find_from :: "('a \<Rightarrow> bool) \<Rightarrow> nat \<Rightarrow> 'a list \<Rightarrow> nat" where
  "find_from P n xs = n + length (takeWhile (\<lambda>x. \<not> P x) (drop n xs))"

definition rfind_base :: "('a \<Rightarrow> bool) \<Rightarrow> nat \<Rightarrow> 'a list \<Rightarrow> nat" where
  "rfind_base P n xs = n - length (takeWhile (\<lambda>x. \<not> P x) (rev (take n xs)))"

definition std_rotate :: "nat \<Rightarrow> nat \<Rightarrow> nat \<Rightarrow> 'a list \<Rightarrow> 'a list" where
  "std_rotate first middle till xs =
     take first xs @ take (till - middle) (drop middle xs) @ take (middle - first) (drop first xs) @ drop till xs"

text \<open>The loops that number rows again.\<close>

fun number_rows :: "nat \<Rightarrow> 'k list \<Rightarrow> ('k \<rightharpoonup> nat) \<Rightarrow> ('k \<rightharpoonup> nat)" where
  "number_rows index [] pos = pos"
| "number_rows index (k # ks) pos = number_rows (Suc index) ks (pos(k \<mapsto> index))"

definition list_rotate :: "nat \<Rightarrow> nat \<Rightarrow> nat \<Rightarrow> 'k chat_list \<Rightarrow> 'k chat_list" where
  "list_rotate first middle till l =
     (let rows = std_rotate first middle till (cl_rows l)
      in l\<lparr>cl_rows := rows, cl_pos := number_rows first (take (till - first) (drop first rows)) (cl_pos l)\<rparr>)"

definition list_adjustByDate :: "('k \<Rightarrow> u64) \<Rightarrow> 'k \<Rightarrow> 'k chat_list \<Rightarrow> 'k chat_list option" where
  "list_adjustByDate sortKey row l =
     (if cl_mode l \<noteq> SortDate then None
      else case cl_pos l row of
        None \<Rightarrow> None
      | Some index \<Rightarrow>
          let key = sortKey row; before = find_from (\<lambda>r. sortKey r \<le> key) (Suc index) (cl_rows l) in
          if \<not> index < length (cl_rows l) then None
          else if before \<noteq> Suc index then Some (list_rotate index (Suc index) before l)
          else let after = rfind_base (\<lambda>r. sortKey r \<ge> key) index (cl_rows l) in
            Some (if after \<noteq> index then list_rotate after index (Suc index) l else l))"

definition list_adjustRowByName :: "('k \<Rightarrow> 'n::linorder) \<Rightarrow> 'k \<Rightarrow> 'k chat_list \<Rightarrow> 'k chat_list option" where
  "list_adjustRowByName nameKey row l =
     (case cl_pos l row of
        None \<Rightarrow> None
      | Some index \<Rightarrow>
          let key = nameKey row; before = find_from (\<lambda>r. nameKey r \<ge> key) (Suc index) (cl_rows l) in
          if \<not> index < length (cl_rows l) then None
          else if before \<noteq> Suc index then Some (list_rotate index (Suc index) before l)
          else if index \<noteq> 0
          then let after = rfind_base (\<lambda>r. nameKey r \<le> key) index (cl_rows l) in
            Some (if after \<noteq> index then list_rotate after index (Suc index) l else l)
          else Some l)"

definition list_adjustByName :: "('k \<Rightarrow> 'n::linorder) \<Rightarrow> 'k \<Rightarrow> 'k chat_list \<Rightarrow> ('k chat_list \<times> 'k option) option" where
  "list_adjustByName nameKey key l =
     (if cl_mode l \<noteq> SortName then None
      else case list_getRow key l of
        None \<Rightarrow> Some (l, None)
      | Some row \<Rightarrow> map_option (\<lambda>l1. (l1, Some row)) (list_adjustRowByName nameKey row l))"

definition list_addToEnd :: "('k \<Rightarrow> u64) \<Rightarrow> 'k \<Rightarrow> 'k chat_list \<Rightarrow> ('k chat_list \<times> 'k) option" where
  "list_addToEnd sortKey key l =
     (case list_getRow key l of
        Some row \<Rightarrow> Some (l, row)
      | None \<Rightarrow>
          let l1 = l\<lparr>cl_rows := cl_rows l @ [key], cl_pos := (cl_pos l)(key \<mapsto> length (cl_rows l))\<rparr> in
          if cl_mode l = SortDate then map_option (\<lambda>l2. (l2, key)) (list_adjustByDate sortKey key l1) else Some (l1, key))"

definition list_addByName :: "('k \<Rightarrow> u64) \<Rightarrow> ('k \<Rightarrow> 'n::linorder) \<Rightarrow> 'k \<Rightarrow> 'k chat_list \<Rightarrow> ('k chat_list \<times> 'k) option" where
  "list_addByName sortKey nameKey key l =
     (if cl_mode l \<noteq> SortName then None
      else Option.bind (list_addToEnd sortKey key l)
        (\<lambda>(l1, row). map_option (\<lambda>(l2, _). (l2, row)) (list_adjustByName nameKey key l1)))"

definition list_moveToTop :: "'k \<Rightarrow> 'k chat_list \<Rightarrow> 'k chat_list \<times> bool" where
  "list_moveToTop key l =
     (case cl_pos l key of
        None \<Rightarrow> (l, False)
      | Some index \<Rightarrow> (list_rotate 0 index (Suc index) l, True))"

text \<open>\<open>del\<close>; the notice of the replaced row is left to the caller, who knows both rows.\<close>

definition list_del :: "'k \<Rightarrow> 'k chat_list \<Rightarrow> 'k chat_list \<times> bool" where
  "list_del key l =
     (case cl_pos l key of
        None \<Rightarrow> (l, False)
      | Some index \<Rightarrow>
          let rows = erase_at index (cl_rows l)
          in (l\<lparr>cl_rows := rows, cl_pos := (number_rows index (drop index rows) (cl_pos l))(key := None)\<rparr>, True))"

definition list_find :: "int \<Rightarrow> int \<Rightarrow> 'k chat_list \<Rightarrow> nat" where
  "list_find y h l = min (nat (max y 0 div h)) (length (cl_rows l))"

definition list_rowAtY :: "int \<Rightarrow> int \<Rightarrow> 'k chat_list \<Rightarrow> 'k option" where
  "list_rowAtY y h l =
     (let i = list_find y h l in
      if i = length (cl_rows l) then None
      else case cl_pos l (cl_rows l ! i) of
        None \<Rightarrow> None
      | Some p \<Rightarrow> if int p \<noteq> (if y > 0 then y div h else 0) then None else Some (cl_rows l ! i))"

section \<open>Positions\<close>

definition list_ok :: "'k chat_list \<Rightarrow> bool" where
  "list_ok l \<longleftrightarrow> distinct (cl_rows l) \<and> dom (cl_pos l) = set (cl_rows l)
     \<and> (\<forall>i < length (cl_rows l). cl_pos l (cl_rows l ! i) = Some i)"

lemma number_rows_other: "k \<notin> set ks \<Longrightarrow> number_rows n ks pos k = pos k"
  by (induction n ks pos rule: number_rows.induct) auto

lemma number_rows_nth: "distinct ks \<Longrightarrow> i < length ks \<Longrightarrow> number_rows n ks pos (ks ! i) = Some (n + i)"
proof (induction n ks pos arbitrary: i rule: number_rows.induct)
  case (2 n k ks pos)
  show ?case
  proof (cases i)
    case 0
    with 2 show ?thesis by (simp add: number_rows_other)
  next
    case (Suc j)
    with 2 show ?thesis by (simp del: fun_upd_apply)
  qed
qed simp

lemma number_rows_dom: "dom (number_rows n ks pos) = dom pos \<union> set ks"
  by (induction n ks pos rule: number_rows.induct) (simp_all del: fun_upd_apply)

text \<open>Rows numbered from \<open>first\<close> to \<open>till\<close>, the others in their old places.\<close>

lemma renumbered_ok:
  assumes ok: "list_ok l" and rows: "mset rows = mset (cl_rows l)" "take first rows = take first (cl_rows l)"
    "drop till rows = drop till (cl_rows l)" "first \<le> till" "till \<le> length rows"
  shows "list_ok (l\<lparr>cl_rows := rows, cl_pos := number_rows first (take (till - first) (drop first rows)) (cl_pos l)\<rparr>)"
proof -
  let ?mid = "take (till - first) (drop first rows)"
  have len: "length rows = length (cl_rows l)" and set: "set rows = set (cl_rows l)"
    using rows(1) by (metis mset_eq_length, metis mset_eq_setD)
  have d: "distinct rows" using ok rows(1) by (metis list_ok_def mset_eq_imp_distinct_iff)
  have split: "rows = take first rows @ ?mid @ drop till rows"
    using rows(4,5) by (metis append_take_drop_id drop_drop le_add_diff_inverse2)
  have "number_rows first ?mid (cl_pos l) (rows ! i) = Some i" if i: "i < length rows" for i
  proof (cases "first \<le> i \<and> i < till")
    case True
    then have "rows ! i = ?mid ! (i - first)" "i - first < length ?mid" using rows(5) by auto
    then show ?thesis using number_rows_nth [of ?mid "i - first" first] d True by simp
  next
    case False
    have "rows ! i = cl_rows l ! i"
    proof (cases "i < first")
      case True
      then show ?thesis using rows(2) by (metis nth_take)
    next
      case ge: False
      then have "till \<le> i" using False by simp
      moreover have "drop till rows ! (i - till) = drop till (cl_rows l) ! (i - till)" using rows(3) by simp
      ultimately show ?thesis using i len rows(5) by simp
    qed
    moreover have "rows ! i \<notin> set ?mid"
    proof
      assume "rows ! i \<in> set ?mid"
      then obtain j where "j < length ?mid" "rows ! i = ?mid ! j" by (metis in_set_conv_nth)
      then have "rows ! i = rows ! (first + j)" "first + j < till" using rows(5) by auto
      then show False using d i False rows(5) by (auto simp: nth_eq_iff_index_eq)
    qed
    ultimately show ?thesis using ok i len by (simp add: number_rows_other list_ok_def)
  qed
  moreover have "set ?mid \<subseteq> set rows" by (meson in_set_takeD in_set_dropD subsetI)
  ultimately show ?thesis using ok d set by (auto simp: list_ok_def number_rows_dom)
qed

lemma list_ok_index:
  assumes "list_ok l" "cl_pos l k = Some i"
  shows "i < length (cl_rows l)" "cl_rows l ! i = k"
proof -
  have "k \<in> set (cl_rows l)" using assms by (auto simp: list_ok_def)
  then obtain j where "j < length (cl_rows l)" "cl_rows l ! j = k" by (metis in_set_conv_nth)
  with assms show "i < length (cl_rows l)" "cl_rows l ! i = k" by (auto simp: list_ok_def)
qed

lemma list_ok_split:
  assumes "list_ok l" "cl_pos l k = Some i"
  obtains xs ys where "cl_rows l = xs @ k # ys" "length xs = i"
  using list_ok_index [OF assms] id_take_nth_drop [of i "cl_rows l"] by (metis length_take min.absorb2 less_imp_le_nat)

lemma rotate_down:
  assumes ok: "list_ok l" and rows: "cl_rows l = xs @ k # ys @ zs"
  shows "list_ok (list_rotate (length xs) (Suc (length xs)) (Suc (length xs + length ys)) l)"
    "cl_rows (list_rotate (length xs) (Suc (length xs)) (Suc (length xs + length ys)) l) = xs @ ys @ k # zs"
    "cl_mode (list_rotate (length xs) (Suc (length xs)) (Suc (length xs + length ys)) l) = cl_mode l"
proof -
  let ?first = "length xs" and ?till = "Suc (length xs + length ys)"
  have r: "std_rotate ?first (Suc ?first) ?till (cl_rows l) = xs @ ys @ k # zs" by (simp add: std_rotate_def rows Suc_diff_le)
  then show "cl_rows (list_rotate ?first (Suc ?first) ?till l) = xs @ ys @ k # zs" "cl_mode (list_rotate ?first (Suc ?first) ?till l) = cl_mode l"
    by (simp_all add: list_rotate_def Let_def)
  show "list_ok (list_rotate ?first (Suc ?first) ?till l)"
    unfolding list_rotate_def Let_def r by (rule renumbered_ok [OF ok]) (simp_all add: rows)
qed

lemma rotate_up:
  assumes ok: "list_ok l" and rows: "cl_rows l = xs @ ys @ k # zs"
  shows "list_ok (list_rotate (length xs) (length xs + length ys) (Suc (length xs + length ys)) l)"
    "cl_rows (list_rotate (length xs) (length xs + length ys) (Suc (length xs + length ys)) l) = xs @ k # ys @ zs"
    "cl_mode (list_rotate (length xs) (length xs + length ys) (Suc (length xs + length ys)) l) = cl_mode l"
proof -
  let ?first = "length xs" and ?mid = "length xs + length ys" and ?till = "Suc (length xs + length ys)"
  have r: "std_rotate ?first ?mid ?till (cl_rows l) = xs @ k # ys @ zs" by (simp add: std_rotate_def rows Suc_diff_le)
  then show "cl_rows (list_rotate ?first ?mid ?till l) = xs @ k # ys @ zs" "cl_mode (list_rotate ?first ?mid ?till l) = cl_mode l"
    by (simp_all add: list_rotate_def Let_def)
  show "list_ok (list_rotate ?first ?mid ?till l)"
    unfolding list_rotate_def Let_def r by (rule renumbered_ok [OF ok]) (simp_all add: rows)
qed

section \<open>Order\<close>

text \<open>
  A row that is the only one out of order is moved to where it belongs; \<open>cmp a b\<close> says that \<open>a\<close> may stand
  before \<open>b\<close>.
\<close>

lemma find_from_split: "find_from P (Suc (length xs)) (xs @ k # ys) = Suc (length xs + length (takeWhile (\<lambda>x. \<not> P x) ys))"
  by (simp add: find_from_def)

lemma rfind_base_split:
  "rfind_base P (length xs) (xs @ ys) = length xs - length (takeWhile (\<lambda>x. \<not> P x) (rev xs))"
  by (simp add: rfind_base_def)

lemma sorted_move_down:
  assumes sorted: "sorted_wrt cmp (xs @ as @ bs)" and cmp: "transp cmp" "totalp cmp" "reflp cmp"
    and split: "as \<noteq> []" "\<forall>a \<in> set as. \<not> cmp k a" "bs = [] \<or> cmp k (hd bs)"
  shows "sorted_wrt cmp (xs @ as @ k # bs)"
proof -
  have as: "\<forall>a \<in> set as. cmp a k" using split(2) cmp(2,3) by (metis reflpD totalpD)
  have bs: "\<forall>b \<in> set bs. cmp k b"
  proof (cases bs)
    case (Cons z zs)
    then have "cmp k z" "\<forall>x \<in> set zs. cmp z x" using sorted split(3) by (simp_all add: sorted_wrt_append)
    then show ?thesis using Cons cmp(1) by (auto elim: transpE)
  qed simp
  have "hd as \<in> set as" using split(1) by simp
  then have "\<forall>x \<in> set xs. cmp x k" using sorted as cmp(1) unfolding sorted_wrt_append by (metis Un_iff set_append transpD)
  with as bs show ?thesis using sorted by (auto simp: sorted_wrt_append)
qed

lemma sorted_move_up:
  assumes "sorted_wrt cmp (xs @ ys)" "ys = [] \<or> cmp k (hd ys)" "transp cmp" "totalp cmp" "reflp cmp"
    and split: "xs = us @ vs" "us = [] \<or> cmp (List.last us) k" "\<forall>v \<in> set vs. \<not> cmp v k"
  shows "sorted_wrt cmp (us @ k # vs @ ys)"
proof -
  have vs: "\<forall>v \<in> set vs. cmp k v" using split(3) assms(4,5) by (metis reflpD totalpD)
  have us: "\<forall>u \<in> set us. cmp u k"
  proof (cases us rule: rev_cases)
    case (snoc us' u)
    then have "\<forall>x \<in> set us'. cmp x u" "cmp u k" using assms(1) split(1,2) by (simp_all add: sorted_wrt_append)
    then show ?thesis using snoc assms(3) by (auto elim: transpE)
  qed simp
  have ys: "\<forall>y \<in> set ys. cmp k y"
  proof (cases ys)
    case (Cons y ys')
    then have "cmp k y" "\<forall>x \<in> set ys'. cmp y x" using assms(1,2) by (simp_all add: sorted_wrt_append)
    then show ?thesis using Cons assms(3) by (auto elim: transpE)
  qed simp
  from vs us ys show ?thesis using assms(1) split(1) by (auto simp: sorted_wrt_append)
qed

text \<open>The two searches and the rotation together.\<close>

definition adjust_rows :: "('k \<Rightarrow> 'k \<Rightarrow> bool) \<Rightarrow> nat \<Rightarrow> 'k \<Rightarrow> 'k chat_list \<Rightarrow> 'k chat_list" where
  "adjust_rows cmp index k l =
     (let before = find_from (cmp k) (Suc index) (cl_rows l); after = rfind_base (\<lambda>r. cmp r k) index (cl_rows l)
      in if before \<noteq> Suc index then list_rotate index (Suc index) before l
         else if after \<noteq> index then list_rotate after index (Suc index) l else l)"

lemma adjust_rows_ok:
  assumes ok: "list_ok l" and rows: "cl_rows l = xs @ k # ys" and cmp: "transp cmp" "totalp cmp" "reflp cmp"
  obtains us vs where "list_ok (adjust_rows cmp (length xs) k l)" "cl_rows (adjust_rows cmp (length xs) k l) = us @ k # vs"
    "us @ vs = xs @ ys" "cl_mode (adjust_rows cmp (length xs) k l) = cl_mode l"
    "sorted_wrt cmp (xs @ ys) \<longrightarrow> sorted_wrt cmp (us @ k # vs)"
proof (cases "takeWhile (\<lambda>x. \<not> cmp k x) ys = []")
  case False
  define as bs where "as = takeWhile (\<lambda>x. \<not> cmp k x) ys" and "bs = dropWhile (\<lambda>x. \<not> cmp k x) ys"
  have ys: "ys = as @ bs" "as \<noteq> []" "\<forall>a \<in> set as. \<not> cmp k a" "bs = [] \<or> cmp k (hd bs)"
    using False hd_dropWhile [of "\<lambda>x. \<not> cmp k x" ys] by (auto simp: as_def bs_def dest: set_takeWhileD)
  have l: "cl_rows l = xs @ k # as @ bs" using rows ys(1) by simp
  have adj: "adjust_rows cmp (length xs) k l = list_rotate (length xs) (Suc (length xs)) (Suc (length xs + length as)) l"
    using ys(2) by (simp add: adjust_rows_def rows find_from_split as_def [symmetric])
  show thesis
    by (rule that [of "xs @ as" bs]) (use rotate_down [OF ok l] sorted_move_down [OF _ cmp ys(2-4), of xs] ys(1) in \<open>simp_all add: adj\<close>)
next
  case True
  define vs us where "vs = rev (takeWhile (\<lambda>x. \<not> cmp x k) (rev xs))" and "us = rev (dropWhile (\<lambda>x. \<not> cmp x k) (rev xs))"
  have xs: "xs = us @ vs" unfolding us_def vs_def rev_append [symmetric] takeWhile_dropWhile_id by simp
  have us: "us = [] \<or> cmp (List.last us) k" "\<forall>v \<in> set vs. \<not> cmp v k"
    using hd_dropWhile [of "\<lambda>x. \<not> cmp x k" "rev xs"] by (auto simp: us_def vs_def last_rev dest: set_takeWhileD)
  have after: "rfind_base (\<lambda>r. cmp r k) (length xs) (cl_rows l) = length us"
    using arg_cong [OF xs, of length] unfolding rows rfind_base_split by (simp add: vs_def)
  have before: "find_from (cmp k) (Suc (length xs)) (cl_rows l) = Suc (length xs)" using True by (simp add: rows find_from_split)
  have ys: "ys = [] \<or> cmp k (hd ys)" using True by (cases ys) (auto split: if_splits)
  have sorted: "sorted_wrt cmp (xs @ ys) \<Longrightarrow> sorted_wrt cmp (us @ k # vs @ ys)" using sorted_move_up [OF _ ys cmp xs us] .
  show thesis
  proof (cases "vs = []")
    case True
    then have "adjust_rows cmp (length xs) k l = l" using before after xs by (simp add: adjust_rows_def)
    with that [of us ys] True ok rows xs sorted show thesis by simp
  next
    case False
    then have adj: "adjust_rows cmp (length xs) k l = list_rotate (length us) (length us + length vs) (Suc (length us + length vs)) l"
      using before after xs by (simp add: adjust_rows_def Let_def)
    have l: "cl_rows l = us @ vs @ k # ys" using rows xs by simp
    show thesis by (rule that [of us "vs @ ys", unfolded adj]) (use rotate_up [OF ok l] sorted xs in \<open>simp_all\<close>)
  qed
qed

section \<open>The operations\<close>

abbreviation newer :: "('k \<Rightarrow> u64) \<Rightarrow> 'k \<Rightarrow> 'k \<Rightarrow> bool" where "newer sortKey a b \<equiv> sortKey b \<le> sortKey a"
abbreviation name_before :: "('k \<Rightarrow> 'n::linorder) \<Rightarrow> 'k \<Rightarrow> 'k \<Rightarrow> bool" where "name_before nameKey a b \<equiv> nameKey a \<le> nameKey b"

lemma newer_order: "transp (newer s)" "totalp (newer s)" "reflp (newer s)"
  by (auto simp: transp_def totalp_on_def reflp_def)

lemma name_order: "transp (name_before n)" "totalp (name_before n)" "reflp (name_before n)"
  by (auto simp: transp_def totalp_on_def reflp_def)

text \<open>What an adjustment does: the row moves, the others keep their order, and the result is in order if they were.\<close>

definition adjusted :: "('k \<Rightarrow> 'k \<Rightarrow> bool) \<Rightarrow> 'k \<Rightarrow> 'k chat_list \<Rightarrow> 'k chat_list \<Rightarrow> bool" where
  "adjusted cmp k l l' \<longleftrightarrow> list_ok l' \<and> cl_mode l' = cl_mode l \<and> set (cl_rows l') = set (cl_rows l)
     \<and> remove1 k (cl_rows l') = remove1 k (cl_rows l)
     \<and> (sorted_wrt cmp (remove1 k (cl_rows l)) \<longrightarrow> sorted_wrt cmp (cl_rows l'))"

lemma adjust_rows_adjusted:
  assumes ok: "list_ok l" "cl_pos l k = Some i" and cmp: "transp cmp" "totalp cmp" "reflp cmp"
  shows "adjusted cmp k l (adjust_rows cmp i k l)"
proof -
  obtain xs ys where l: "cl_rows l = xs @ k # ys" "length xs = i" using list_ok_split [OF ok] .
  obtain us vs where 1: "list_ok (adjust_rows cmp i k l)" "cl_rows (adjust_rows cmp i k l) = us @ k # vs" "us @ vs = xs @ ys"
    "cl_mode (adjust_rows cmp i k l) = cl_mode l" "sorted_wrt cmp (xs @ ys) \<longrightarrow> sorted_wrt cmp (us @ k # vs)"
    using adjust_rows_ok [OF ok(1) l(1) cmp] unfolding l(2) .
  have "k \<notin> set xs" "k \<notin> set us" using ok(1) 1(1,2) l(1) by (auto simp: list_ok_def)
  then have r: "remove1 k (cl_rows l) = xs @ ys" "remove1 k (us @ k # vs) = xs @ ys" using l(1) 1(3) by (simp_all add: remove1_append)
  have "set (us @ vs) = set (xs @ ys)" unfolding 1(3) by (rule refl)
  then have "set (us @ k # vs) = set (xs @ k # ys)" by auto
  then show ?thesis using 1 r unfolding adjusted_def l(1) by simp
qed

lemma list_adjustByDate_ok:
  assumes "list_ok l" "cl_mode l = SortDate" "k \<in> set (cl_rows l)"
  obtains l' where "list_adjustByDate s k l = Some l'" "adjusted (newer s) k l l'"
proof -
  obtain i where i: "cl_pos l k = Some i" using assms(1,3) by (auto simp: list_ok_def)
  have "list_adjustByDate s k l = Some (adjust_rows (newer s) i k l)"
    using assms(2) i list_ok_index [OF assms(1) i] by (simp add: list_adjustByDate_def adjust_rows_def Let_def)
  with that adjust_rows_adjusted [OF assms(1) i newer_order] show thesis by blast
qed

lemma list_adjustRowByName_ok:
  assumes "list_ok l" "k \<in> set (cl_rows l)"
  obtains l' where "list_adjustRowByName n k l = Some l'" "adjusted (name_before n) k l l'"
proof -
  obtain i where i: "cl_pos l k = Some i" using assms by (auto simp: list_ok_def)
  have "rfind_base P 0 xs = 0" for P :: "'a \<Rightarrow> bool" and xs by (simp add: rfind_base_def)
  then have "list_adjustRowByName n k l = Some (adjust_rows (name_before n) i k l)"
    using i list_ok_index [OF assms(1) i] by (cases "i = 0") (simp_all add: list_adjustRowByName_def adjust_rows_def Let_def)
  with that adjust_rows_adjusted [OF assms(1) i name_order] show thesis by blast
qed

lemma list_adjustByName_ok:
  assumes "list_ok l" "cl_mode l = SortName" "k \<in> set (cl_rows l)"
  obtains l' where "list_adjustByName n k l = Some (l', Some k)" "adjusted (name_before n) k l l'"
proof -
  have "list_getRow k l = Some k" using assms(1,3) by (auto simp: list_getRow_def list_ok_def)
  with list_adjustRowByName_ok [OF assms(1,3), of n] that assms(2) show thesis by (auto simp: list_adjustByName_def)
qed

lemma append_row_ok:
  assumes "list_ok l" "k \<notin> set (cl_rows l)"
  shows "list_ok (l\<lparr>cl_rows := cl_rows l @ [k], cl_pos := (cl_pos l)(k \<mapsto> length (cl_rows l))\<rparr>)"
  using assms by (auto simp: list_ok_def nth_append)

text \<open>A row that is new in the list.\<close>

definition added :: "('k \<Rightarrow> 'k \<Rightarrow> bool) \<Rightarrow> 'k \<Rightarrow> 'k chat_list \<Rightarrow> 'k chat_list \<Rightarrow> bool" where
  "added cmp k l l' \<longleftrightarrow> list_ok l' \<and> cl_mode l' = cl_mode l \<and> set (cl_rows l') = insert k (set (cl_rows l))
     \<and> remove1 k (cl_rows l') = remove1 k (cl_rows l) \<and> (sorted_wrt cmp (cl_rows l) \<longrightarrow> sorted_wrt cmp (cl_rows l'))"

lemma added_present: "list_ok l \<Longrightarrow> k \<in> set (cl_rows l) \<Longrightarrow> added cmp k l l"
  by (auto simp: added_def)

lemma added_adjusted:
  assumes "list_ok l" "k \<notin> set (cl_rows l)" "cl_rows l1 = cl_rows l @ [k]" "cl_mode l1 = cl_mode l" "adjusted cmp k l1 l'"
  shows "added cmp k l l'"
  using assms by (auto simp: adjusted_def added_def remove1_append remove1_idem)

lemma list_addToEnd_date:
  assumes "list_ok l" "cl_mode l = SortDate"
  obtains l' where "list_addToEnd s k l = Some (l', k)" "added (newer s) k l l'"
proof (cases "k \<in> set (cl_rows l)")
  case True
  then have "list_addToEnd s k l = Some (l, k)" using assms(1) by (auto simp: list_addToEnd_def list_getRow_def list_ok_def)
  with that added_present [OF assms(1) True] show thesis by blast
next
  case False
  let ?l1 = "l\<lparr>cl_rows := cl_rows l @ [k], cl_pos := (cl_pos l)(k \<mapsto> length (cl_rows l))\<rparr>"
  have ok1: "list_ok ?l1" "cl_mode ?l1 = SortDate" "k \<in> set (cl_rows ?l1)" using append_row_ok [OF assms(1) False] assms(2) by simp_all
  obtain l' where l': "list_adjustByDate s k ?l1 = Some l'" "adjusted (newer s) k ?l1 l'" using list_adjustByDate_ok [OF ok1] .
  have "list_getRow k l = None" using assms(1) False by (auto simp: list_getRow_def list_ok_def)
  then have "list_addToEnd s k l = Some (l', k)" using l'(1) assms(2) by (simp add: list_addToEnd_def)
  moreover have "added (newer s) k l l'" by (rule added_adjusted [OF assms(1) False _ _ l'(2)]) simp_all
  ultimately show thesis by (rule that)
qed

lemma list_addByName_ok:
  assumes "list_ok l" "cl_mode l = SortName"
  obtains l' where "list_addByName s n k l = Some (l', k)" "set (cl_rows l') = insert k (set (cl_rows l))" "list_ok l'" "cl_mode l' = SortName"
    "sorted_wrt (name_before n) (remove1 k (cl_rows l)) \<Longrightarrow> sorted_wrt (name_before n) (cl_rows l')"
    "remove1 k (cl_rows l') = remove1 k (cl_rows l)"
proof -
  let ?l1 = "if k \<in> set (cl_rows l) then l else l\<lparr>cl_rows := cl_rows l @ [k], cl_pos := (cl_pos l)(k \<mapsto> length (cl_rows l))\<rparr>"
  have ok1: "list_ok ?l1" "cl_mode ?l1 = SortName" "k \<in> set (cl_rows ?l1)" using append_row_ok [OF assms(1)] assms by simp_all
  have "list_addToEnd s k l = Some (?l1, k)"
    using assms by (auto simp: list_addToEnd_def list_getRow_def list_ok_def)
  moreover obtain l' where l': "list_adjustByName n k ?l1 = Some (l', Some k)" "adjusted (name_before n) k ?l1 l'"
    using list_adjustByName_ok [OF ok1] .
  ultimately have "list_addByName s n k l = Some (l', k)" using assms(2) by (simp add: list_addByName_def)
  moreover have "remove1 k (cl_rows ?l1) = remove1 k (cl_rows l)" by (simp add: remove1_append remove1_idem)
  ultimately show thesis using that [of l'] l'(2) ok1(2) by (auto simp: adjusted_def split: if_splits)
qed

lemma list_del_ok:
  assumes "list_ok l"
  shows "list_ok (fst (list_del k l))" "cl_rows (fst (list_del k l)) = remove1 k (cl_rows l)" "cl_mode (fst (list_del k l)) = cl_mode l"
    "snd (list_del k l) = (k \<in> set (cl_rows l))"
proof -
  have all: "list_ok (fst (list_del k l)) \<and> cl_rows (fst (list_del k l)) = remove1 k (cl_rows l) \<and> cl_mode (fst (list_del k l)) = cl_mode l
    \<and> snd (list_del k l) = (k \<in> set (cl_rows l))"
  proof (cases "cl_pos l k")
    case None
    then have "k \<notin> set (cl_rows l)" using assms by (auto simp: list_ok_def)
    with None assms show ?thesis by (simp add: list_del_def remove1_idem)
  next
    case (Some i)
    obtain xs ys where l: "cl_rows l = xs @ k # ys" "length xs = i" using list_ok_split [OF assms Some] .
    have d: "distinct (xs @ k # ys)" "dom (cl_pos l) = set (xs @ k # ys)" using assms l(1) by (simp_all add: list_ok_def)
    have rows: "erase_at i (cl_rows l) = xs @ ys" using l by (auto simp: erase_at_append)
    let ?l' = "l\<lparr>cl_rows := xs @ ys, cl_pos := (number_rows i ys (cl_pos l))(k := None)\<rparr>"
    have del: "list_del k l = (?l', True)" using Some rows l(2) by (simp add: list_del_def)
    have "number_rows i ys (cl_pos l) ((xs @ ys) ! j) = Some j" if j: "j < length (xs @ ys)" for j
    proof (cases "j < i")
      case True
      then have "xs ! j \<in> set xs" using l(2) by simp
      then have "xs ! j \<notin> set ys" using d(1) by (meson disjoint_iff distinct_append list.set_intros(2))
      moreover have "cl_rows l ! j = xs ! j" "j < length (cl_rows l)" using l True by (simp_all add: nth_append)
      then have "cl_pos l (xs ! j) = Some j" using assms unfolding list_ok_def by metis
      ultimately show ?thesis using True l(2) by (simp add: nth_append number_rows_other)
    next
      case False
      then have "(xs @ ys) ! j = ys ! (j - i)" "j - i < length ys" using l(2) j by (simp_all add: nth_append)
      with number_rows_nth [of ys "j - i" i] d(1) False show ?thesis by simp
    qed
    moreover have "(xs @ ys) ! j \<noteq> k" if "j < length (xs @ ys)" for j using that d(1) nth_mem [OF that] by auto
    moreover have "dom ((number_rows i ys (cl_pos l))(k := None)) = set (xs @ ys)" using d by (auto simp: number_rows_dom)
    ultimately have "list_ok ?l'" using d(1) by (simp add: list_ok_def)
    with del l(1) d(1) show ?thesis by (simp add: remove1_append)
  qed
  then show "list_ok (fst (list_del k l))" "cl_rows (fst (list_del k l)) = remove1 k (cl_rows l)" "cl_mode (fst (list_del k l)) = cl_mode l"
    "snd (list_del k l) = (k \<in> set (cl_rows l))" by blast+
qed

lemma list_moveToTop_ok:
  assumes "list_ok l"
  shows "list_ok (fst (list_moveToTop k l))" "cl_mode (fst (list_moveToTop k l)) = cl_mode l"
    "cl_rows (fst (list_moveToTop k l)) = (if k \<in> set (cl_rows l) then k # remove1 k (cl_rows l) else cl_rows l)"
    "snd (list_moveToTop k l) = (k \<in> set (cl_rows l))"
proof -
  have all: "list_ok (fst (list_moveToTop k l)) \<and> cl_mode (fst (list_moveToTop k l)) = cl_mode l
    \<and> cl_rows (fst (list_moveToTop k l)) = (if k \<in> set (cl_rows l) then k # remove1 k (cl_rows l) else cl_rows l)
    \<and> snd (list_moveToTop k l) = (k \<in> set (cl_rows l))"
  proof (cases "cl_pos l k")
    case None
    then have "k \<notin> set (cl_rows l)" using assms by (auto simp: list_ok_def)
    with None assms show ?thesis by (simp add: list_moveToTop_def)
  next
    case (Some i)
    obtain xs ys where l: "cl_rows l = [] @ xs @ k # ys" "length xs = i" using list_ok_split [OF assms Some] by auto
    have "k \<notin> set xs" using assms l(1) by (simp add: list_ok_def)
    with Some l rotate_up [OF assms l(1)] show ?thesis by (simp add: list_moveToTop_def remove1_append)
  qed
  then show "list_ok (fst (list_moveToTop k l))" "cl_mode (fst (list_moveToTop k l)) = cl_mode l"
    "cl_rows (fst (list_moveToTop k l)) = (if k \<in> set (cl_rows l) then k # remove1 k (cl_rows l) else cl_rows l)"
    "snd (list_moveToTop k l) = (k \<in> set (cl_rows l))" by blast+
qed

section \<open>Runs\<close>

text \<open>
  A list by date and the sort positions of the entries. An entry changes its position and every list
  that has its row is adjusted at once; rows come and go.
\<close>

inductive date_run :: "('k \<Rightarrow> u64) \<Rightarrow> 'k chat_list \<Rightarrow> bool" where
  new: "date_run s (list_new SortDate)"
| add: "date_run s l \<Longrightarrow> list_addToEnd s k l = Some (l', r) \<Longrightarrow> date_run s l'"
| change: "date_run s l \<Longrightarrow> k \<in> set (cl_rows l) \<Longrightarrow> list_adjustByDate (s(k := x)) k l = Some l' \<Longrightarrow> date_run (s(k := x)) l'"
| other: "date_run s l \<Longrightarrow> k \<notin> set (cl_rows l) \<Longrightarrow> date_run (s(k := x)) l"
| del: "date_run s l \<Longrightarrow> date_run s (fst (list_del k l))"

lemma sorted_remove1: "sorted_wrt P xs \<Longrightarrow> sorted_wrt P (remove1 k xs)"
proof (induction xs)
  case (Cons x xs)
  have "set (remove1 k xs) \<subseteq> set xs" by (rule set_remove1_subset)
  with Cons show ?case by auto
qed simp

lemma sorted_key_cong: "\<forall>x \<in> set xs. s' x = s x \<Longrightarrow> sorted_wrt (newer s') xs = sorted_wrt (newer s) xs"
  by (induction xs) auto

lemma date_run_ok: "date_run s l \<Longrightarrow> list_ok l \<and> cl_mode l = SortDate \<and> sorted_wrt (newer s) (cl_rows l)"
proof (induction rule: date_run.induct)
  case (new s)
  then show ?case by (simp add: list_new_def list_ok_def)
next
  case (add s l k l' r)
  from list_addToEnd_date [of l s k] add show ?case by (auto simp: added_def)
next
  case (change s l k x l')
  obtain l1 where 1: "list_adjustByDate (s(k := x)) k l = Some l1" "adjusted (newer (s(k := x))) k l l1"
    using list_adjustByDate_ok [of l k "s(k := x)"] change by blast
  have "k \<notin> set (remove1 k (cl_rows l))" using change.IH by (simp add: list_ok_def)
  then have "sorted_wrt (newer (s(k := x))) (remove1 k (cl_rows l))"
    using sorted_remove1 [of "newer s" "cl_rows l" k] change.IH sorted_key_cong [of "remove1 k (cl_rows l)" "s(k := x)" s] by auto
  then show ?case using 1 change.hyps(3) change.IH by (simp add: adjusted_def)
next
  case (other s l k x)
  then show ?case using sorted_key_cong [of "cl_rows l" "s(k := x)" s] by auto
next
  case (del s l k)
  then show ?case using list_del_ok [of l k] sorted_remove1 [of "newer s"] by auto
qed

text \<open>
  A list of chats by date is in the order of the sort positions of its entries after every run of
  additions, removals and changes of positions, each row knows its place, and no operation fails.
\<close>

theorem chats_by_date_sorted:
  assumes "date_run s l"
  shows "sorted_wrt (\<lambda>a b. s a \<ge> s b) (cl_rows l) \<and> distinct (cl_rows l)
    \<and> (\<forall>i < length (cl_rows l). cl_pos l (cl_rows l ! i) = Some i) \<and> (\<forall>k. list_getRow k l \<noteq> None \<longleftrightarrow> k \<in> set (cl_rows l))
    \<and> list_addToEnd s k l \<noteq> None \<and> (k \<in> set (cl_rows l) \<longrightarrow> list_adjustByDate (s(k := x)) k l \<noteq> None)"
proof -
  have ok: "list_ok l" "cl_mode l = SortDate" "sorted_wrt (newer s) (cl_rows l)" using date_run_ok [OF assms] by auto
  moreover have "list_addToEnd s k l \<noteq> None" using list_addToEnd_date [OF ok(1,2), of s k] by blast
  moreover have "k \<in> set (cl_rows l) \<Longrightarrow> list_adjustByDate (s(k := x)) k l \<noteq> None"
    using list_adjustByDate_ok [OF ok(1,2), of k "s(k := x)"] by blast
  ultimately show ?thesis by (auto simp: list_ok_def list_getRow_def)
qed

definition sample_positions :: "nat \<Rightarrow> u64" where
  "sample_positions k = (if k = 0 then 5 else if k = 1 then 3 else 9)"

theorem chats_by_date_sorted_witness:
  "\<exists>l :: nat chat_list. cl_rows l = [2, 0, 1] \<and> sorted_wrt (\<lambda>a b. sample_positions a \<ge> sample_positions b) (cl_rows l)"
proof -
  let ?add = "list_addToEnd sample_positions"
  have "\<exists>l1 l2 l3. ?add 0 (list_new SortDate) = Some (l1, 0) \<and> ?add 1 l1 = Some (l2, 1) \<and> ?add 2 l2 = Some (l3, 2) \<and> cl_rows l3 = [2, 0, 1]"
    by (simp add: list_addToEnd_def list_getRow_def list_new_def list_adjustByDate_def find_from_def rfind_base_def list_rotate_def
        std_rotate_def sample_positions_def Let_def)
  then obtain l1 l2 l3 where 1: "?add 0 (list_new SortDate) = Some (l1, 0)" "?add 1 l1 = Some (l2, 1)" "?add 2 l2 = Some (l3, 2)"
    "cl_rows l3 = [2, 0, 1]" by blast
  have "date_run sample_positions l3" using date_run.add [OF date_run.add [OF date_run.add [OF date_run.new 1(1)] 1(2)] 1(3)] .
  from chats_by_date_sorted [OF this, THEN conjunct1] 1(4) show ?thesis by blast
qed

text \<open>Rows on the screen: a row of height \<open>h\<close> is found at every point it covers, and nowhere else.\<close>

lemma list_rowAtY_spec:
  assumes "list_ok l" "0 < h"
  shows "list_rowAtY y h l = (let i = nat (max y 0 div h) in if i < length (cl_rows l) then Some (cl_rows l ! i) else None)"
proof -
  have "int (nat (max y 0 div h)) = (if y > 0 then y div h else 0)" using assms(2) by (simp add: max_def pos_imp_zdiv_nonneg_iff)
  then show ?thesis using assms(1) by (auto simp: list_rowAtY_def list_find_def list_ok_def Let_def min_def)
qed

end
