(* ===== verification/IndexedList.thy ===== *)
theory IndexedList
  imports ChatList FlatMap "HOL-Library.Sublist" "HOL-Library.List_Lexorder"
begin

text \<open>
  \<open>dialogs/dialogs_indexed_list.{h,cpp}\<close>: a list of chats with one more list for each first letter of the
  words of their names, and the search by words on it; the links of an entry to its rows
  (\<open>RowsByLetter\<close>, \<open>dialogs/dialogs_entry.{h,cpp}\<close>) and the words of a name (\<open>PeerData::fillNames\<close>,
  \<open>data/data_peer.cpp\<close>). A \<open>QChar\<close> is any linearly ordered type, a \<open>QString\<close> a list of them. What an entry
  says (sort position, name, letters) is an argument; \<open>None\<close> is a failed assertion.
\<close>

section \<open>The lists by letter\<close>

record ('k, 'c) rows_by_letter =
  rl_main :: 'k
  rl_letters :: "('c \<times> 'k) list"

record ('k, 'c) indexed_list =
  il_mode :: SortMode
  il_list :: "'k chat_list"
  il_index :: "'c \<rightharpoonup> 'k chat_list"

definition indexed_new :: "SortMode \<Rightarrow> ('k, 'c) indexed_list" where
  "indexed_new mode = \<lparr>il_mode = mode, il_list = list_new mode, il_index = Map.empty\<rparr>"

text \<open>The loops over the letters of a key: adding, moving and removing its row in the list of each letter.\<close>

fun add_letters ::
  "('k chat_list \<Rightarrow> ('k chat_list \<times> 'k) option) \<Rightarrow> SortMode \<Rightarrow> 'c list \<Rightarrow> ('c \<rightharpoonup> 'k chat_list) \<Rightarrow> ('c \<rightharpoonup> 'k chat_list) option" where
  "add_letters add mode [] index = Some index"
| "add_letters add mode (ch # chs) index =
     (let j = (case index ch of None \<Rightarrow> list_new mode | Some l \<Rightarrow> l) in
      case add j of
        None \<Rightarrow> None
      | Some (l, row) \<Rightarrow> add_letters add mode chs (index(ch \<mapsto> l)))"

fun change_letters ::
  "('k chat_list \<Rightarrow> 'k chat_list option) \<Rightarrow> 'c list \<Rightarrow> ('c \<rightharpoonup> 'k chat_list) \<Rightarrow> ('c \<rightharpoonup> 'k chat_list) option" where
  "change_letters change [] index = Some index"
| "change_letters change (ch # chs) index =
     (case index ch of
        None \<Rightarrow> change_letters change chs index
      | Some l \<Rightarrow>
          (case change l of
             None \<Rightarrow> None
           | Some l1 \<Rightarrow> change_letters change chs (index(ch \<mapsto> l1))))"

fun adjust_letters ::
  "('k \<Rightarrow> u64) \<Rightarrow> ('c \<times> 'k) list \<Rightarrow> ('c \<rightharpoonup> 'k chat_list) \<Rightarrow> ('c \<rightharpoonup> 'k chat_list) option" where
  "adjust_letters sortKey [] index = Some index"
| "adjust_letters sortKey ((ch, row) # links) index =
     (case index ch of
        None \<Rightarrow> adjust_letters sortKey links index
      | Some l \<Rightarrow>
          (case list_adjustByDate sortKey row l of
             None \<Rightarrow> None
           | Some l1 \<Rightarrow> adjust_letters sortKey links (index(ch \<mapsto> l1))))"

text \<open>\<open>result.letters.emplace(ch, row)\<close> for each letter.\<close>

definition emplace_letters :: "'k \<Rightarrow> 'c::linorder list \<Rightarrow> ('c \<times> 'k) list" where
  "emplace_letters row chs = fold (\<lambda>ch links. fst (flat_map_emplace (<) ch row links)) chs []"

definition indexed_addToEnd ::
  "('k \<Rightarrow> u64) \<Rightarrow> ('k \<Rightarrow> 'c::linorder list) \<Rightarrow> 'k \<Rightarrow> ('k, 'c) indexed_list \<Rightarrow> (('k, 'c) indexed_list \<times> ('k, 'c) rows_by_letter) option" where
  "indexed_addToEnd sortKey firstLetters key il =
     (case list_getRow key (il_list il) of
        Some row \<Rightarrow> Some (il, \<lparr>rl_main = row, rl_letters = []\<rparr>)
      | None \<Rightarrow>
          Option.bind (list_addToEnd sortKey key (il_list il)) (\<lambda>(l, row).
          Option.bind (add_letters (list_addToEnd sortKey key) (il_mode il) (firstLetters key) (il_index il)) (\<lambda>index.
          Some (il\<lparr>il_list := l, il_index := index\<rparr>, \<lparr>rl_main = row, rl_letters = emplace_letters key (firstLetters key)\<rparr>))))"

definition indexed_addByName ::
  "('k \<Rightarrow> u64) \<Rightarrow> ('k \<Rightarrow> 'n::linorder) \<Rightarrow> ('k \<Rightarrow> 'c list) \<Rightarrow> 'k \<Rightarrow> ('k, 'c) indexed_list \<Rightarrow> (('k, 'c) indexed_list \<times> 'k) option" where
  "indexed_addByName sortKey nameKey firstLetters key il =
     (case list_getRow key (il_list il) of
        Some row \<Rightarrow> Some (il, row)
      | None \<Rightarrow>
          Option.bind (list_addByName sortKey nameKey key (il_list il)) (\<lambda>(l, row).
          Option.bind (add_letters (list_addByName sortKey nameKey key) (il_mode il) (firstLetters key) (il_index il)) (\<lambda>index.
          Some (il\<lparr>il_list := l, il_index := index\<rparr>, row))))"

definition indexed_adjustByDate ::
  "('k \<Rightarrow> u64) \<Rightarrow> ('k, 'c) rows_by_letter \<Rightarrow> ('k, 'c) indexed_list \<Rightarrow> ('k, 'c) indexed_list option" where
  "indexed_adjustByDate sortKey links il =
     Option.bind (list_adjustByDate sortKey (rl_main links) (il_list il)) (\<lambda>l.
     Option.bind (adjust_letters sortKey (rl_letters links) (il_index il)) (\<lambda>index.
     Some (il\<lparr>il_list := l, il_index := index\<rparr>)))"

definition indexed_moveToTop :: "('k \<Rightarrow> 'c list) \<Rightarrow> 'k \<Rightarrow> ('k, 'c) indexed_list \<Rightarrow> ('k, 'c) indexed_list option" where
  "indexed_moveToTop firstLetters key il =
     (case list_moveToTop key (il_list il) of
        (l, False) \<Rightarrow> Some (il\<lparr>il_list := l\<rparr>)
      | (l, True) \<Rightarrow>
          map_option (\<lambda>index. il\<lparr>il_list := l, il_index := index\<rparr>)
            (change_letters (\<lambda>l. Some (fst (list_moveToTop key l))) (firstLetters key) (il_index il)))"

definition indexed_del :: "('k \<Rightarrow> 'c list) \<Rightarrow> 'k \<Rightarrow> ('k, 'c) indexed_list \<Rightarrow> ('k, 'c) indexed_list option" where
  "indexed_del firstLetters key il =
     (case list_del key (il_list il) of
        (l, False) \<Rightarrow> Some (il\<lparr>il_list := l\<rparr>)
      | (l, True) \<Rightarrow>
          map_option (\<lambda>index. il\<lparr>il_list := l, il_index := index\<rparr>)
            (change_letters (\<lambda>l. Some (fst (list_del key l))) (firstLetters key) (il_index il)))"

definition indexed_clear :: "('k, 'c) indexed_list \<Rightarrow> ('k, 'c) indexed_list" where
  "indexed_clear il = il\<lparr>il_index := Map.empty\<rparr>"

section \<open>Changed names\<close>

text \<open>The loop that sorts the letters of the new name out: \<open>kept\<close> are those with an action of their own.\<close>

fun split_letters :: "'c::linorder list \<Rightarrow> 'c list \<Rightarrow> 'c list \<Rightarrow> 'c list \<Rightarrow> 'c list \<times> 'c list \<times> 'c list" where
  "split_letters [] toRemove toAdd kept = (toRemove, toAdd, kept)"
| "split_letters (ch # chs) toRemove toAdd kept =
     (if \<not> flat_multi_set_contains (<) ch toRemove
      then split_letters chs toRemove (fst (flat_set_insert (<) ch toAdd)) kept
      else split_letters chs (fst (flat_set_remove (<) ch toRemove)) toAdd (kept @ [ch]))"

definition removeChatListEntryByLetter :: "'c::linorder \<Rightarrow> ('k, 'c) rows_by_letter option \<Rightarrow> ('k, 'c) rows_by_letter option" where
  "removeChatListEntryByLetter letter = map_option (\<lambda>links. links\<lparr>rl_letters := fst (flat_map_remove (<) letter (rl_letters links))\<rparr>)"

definition addChatListEntryByLetter :: "'c::linorder \<Rightarrow> 'k \<Rightarrow> ('k, 'c) rows_by_letter option \<Rightarrow> ('k, 'c) rows_by_letter option" where
  "addChatListEntryByLetter letter row =
     map_option (\<lambda>links. links\<lparr>rl_letters := fst (flat_map_emplace (<) letter row (rl_letters links))\<rparr>)"

definition indexed_adjustNames ::
  "('k \<Rightarrow> u64) \<Rightarrow> ('k \<Rightarrow> 'c::linorder list) \<Rightarrow> 'k \<Rightarrow> 'c list \<Rightarrow> ('k, 'c) rows_by_letter option \<Rightarrow> ('k, 'c) indexed_list
    \<Rightarrow> (('k, 'c) indexed_list \<times> ('k, 'c) rows_by_letter option) option" where
  "indexed_adjustNames sortKey firstLetters key oldLetters links il =
     (case list_getRow key (il_list il) of
        None \<Rightarrow> Some (il, links)
      | Some mainRow \<Rightarrow>
          let (toRemove, toAdd, kept) = split_letters (firstLetters key) oldLetters [] [];
              byDate = (il_mode il = SortDate);
              links1 = (if byDate then fold removeChatListEntryByLetter toRemove links else links);
              links2 = (if byDate then fold (\<lambda>ch. addChatListEntryByLetter ch key) toAdd links1 else links1) in
          Option.bind (change_letters (\<lambda>l. Some (fst (list_del key l))) toRemove (il_index il)) (\<lambda>index1.
          Option.bind (add_letters (list_addToEnd sortKey key) (il_mode il) toAdd index1) (\<lambda>index2.
          Some (il\<lparr>il_index := index2\<rparr>, links2))))"

definition indexed_adjustByName ::
  "('k \<Rightarrow> u64) \<Rightarrow> ('k \<Rightarrow> 'n::linorder) \<Rightarrow> ('k \<Rightarrow> 'c::linorder list) \<Rightarrow> 'k \<Rightarrow> 'c list \<Rightarrow> ('k, 'c) indexed_list \<Rightarrow> ('k, 'c) indexed_list option" where
  "indexed_adjustByName sortKey nameKey firstLetters key oldLetters il =
     (if il_mode il \<noteq> SortName then None
      else Option.bind (list_adjustByName nameKey key (il_list il)) (\<lambda>(l, mainRow).
        if mainRow = None then Some (il\<lparr>il_list := l\<rparr>)
        else let (toRemove, toAdd, kept) = split_letters (firstLetters key) oldLetters [] [] in
          Option.bind (change_letters (\<lambda>l. map_option fst (list_adjustByName nameKey key l)) kept (il_index il)) (\<lambda>index1.
          Option.bind (change_letters (\<lambda>l. Some (fst (list_del key l))) toRemove index1) (\<lambda>index2.
          Option.bind (add_letters (list_addByName sortKey nameKey key) (il_mode il) toAdd index2) (\<lambda>index3.
          Some (il\<lparr>il_list := l, il_index := index3\<rparr>))))))"

text \<open>The two \<open>peerNameChanged\<close>; \<open>loaded\<close> says whether the peer has a history.\<close>

definition indexed_peerNameChanged ::
  "('k \<Rightarrow> u64) \<Rightarrow> ('k \<Rightarrow> 'n::linorder) \<Rightarrow> ('k \<Rightarrow> 'c::linorder list) \<Rightarrow> bool \<Rightarrow> 'k \<Rightarrow> 'c list \<Rightarrow> ('k, 'c) rows_by_letter option
    \<Rightarrow> ('k, 'c) indexed_list \<Rightarrow> (('k, 'c) indexed_list \<times> ('k, 'c) rows_by_letter option) option" where
  "indexed_peerNameChanged sortKey nameKey firstLetters loaded key oldLetters links il =
     (if il_mode il = SortDate then None
      else if \<not> loaded then Some (il, links)
      else if il_mode il = SortName
      then map_option (\<lambda>il1. (il1, links)) (indexed_adjustByName sortKey nameKey firstLetters key oldLetters il)
      else indexed_adjustNames sortKey firstLetters key oldLetters links il)"

definition indexed_peerNameChangedByDate ::
  "('k \<Rightarrow> u64) \<Rightarrow> ('k \<Rightarrow> 'c::linorder list) \<Rightarrow> bool \<Rightarrow> 'k \<Rightarrow> 'c list \<Rightarrow> ('k, 'c) rows_by_letter option
    \<Rightarrow> ('k, 'c) indexed_list \<Rightarrow> (('k, 'c) indexed_list \<times> ('k, 'c) rows_by_letter option) option" where
  "indexed_peerNameChangedByDate sortKey firstLetters loaded key oldLetters links il =
     (if il_mode il \<noteq> SortDate then None
      else if \<not> loaded then Some (il, links)
      else indexed_adjustNames sortKey firstLetters key oldLetters links il)"

section \<open>Search\<close>

fun minimal_list :: "('c \<rightharpoonup> 'k chat_list) \<Rightarrow> 'c list list \<Rightarrow> 'k chat_list option \<Rightarrow> 'k chat_list option" where
  "minimal_list index [] result = result"
| "minimal_list index ([] # ws) result = minimal_list index ws result"
| "minimal_list index ((ch # chs) # ws) result =
     (case index ch of
        None \<Rightarrow> None
      | Some found \<Rightarrow>
          if cl_rows found = [] then None
          else minimal_list index ws
            (case result of
               None \<Rightarrow> Some found
             | Some l \<Rightarrow> if length (cl_rows l) > length (cl_rows found) then Some found else Some l))"

definition word_found :: "'c list list \<Rightarrow> 'c list \<Rightarrow> bool" where
  "word_found nameWords word \<longleftrightarrow> (\<exists>name \<in> set nameWords. prefix word name)"

definition indexed_filtered :: "('k \<Rightarrow> 'c list list) \<Rightarrow> 'c list list \<Rightarrow> ('k, 'c) indexed_list \<Rightarrow> 'k list" where
  "indexed_filtered nameWords ws il =
     (case (if cl_rows (il_list il) = [] then None else minimal_list (il_index il) ws None) of
        None \<Rightarrow> []
      | Some l \<Rightarrow> filter (\<lambda>row. \<forall>word \<in> set ws. word_found (nameWords row) word) (cl_rows l))"

text \<open>The end of \<open>fillNames\<close>: words and first letters of what \<open>PrepareSearchWords\<close> returned.\<close>

fun fillNames :: "'c::linorder list list \<Rightarrow> 'c list list \<times> 'c list \<Rightarrow> ('c list list \<times> 'c list) option" where
  "fillNames [] (nameWords, firstLetters) = Some (nameWords, firstLetters)"
| "fillNames ([] # namesList) acc = None"
| "fillNames ((ch # chs) # namesList) (nameWords, firstLetters) =
     fillNames namesList (fst (flat_set_insert (<) (ch # chs) nameWords), fst (flat_set_insert (<) ch firstLetters))"


section \<open>The loops letter by letter\<close>

lemma add_letters_at:
  assumes "distinct chs" "\<And>ch. ch \<in> set chs \<Longrightarrow> add (case index ch of None \<Rightarrow> list_new mode | Some l \<Rightarrow> l) \<noteq> None"
  shows "\<exists>index'. add_letters add mode chs index = Some index'
    \<and> (\<forall>ch. index' ch = (if ch \<in> set chs then map_option fst (add (case index ch of None \<Rightarrow> list_new mode | Some l \<Rightarrow> l)) else index ch))"
  using assms
proof (induction chs arbitrary: index)
  case (Cons ch chs)
  obtain l row where l: "add (case index ch of None \<Rightarrow> list_new mode | Some l \<Rightarrow> l) = Some (l, row)" using Cons.prems(2) [of ch] by auto
  have d: "distinct chs" "ch \<notin> set chs" using Cons.prems(1) by auto
  have "\<And>c. c \<in> set chs \<Longrightarrow> add (case (index(ch \<mapsto> l)) c of None \<Rightarrow> list_new mode | Some l \<Rightarrow> l) \<noteq> None"
    using Cons.prems(2) d(2) by (metis fun_upd_apply list.set_intros(2))
  from Cons.IH [of "index(ch \<mapsto> l)", OF d(1) this] obtain index' where i: "add_letters add mode chs (index(ch \<mapsto> l)) = Some index'"
    "\<forall>c. index' c = (if c \<in> set chs then map_option fst (add (case (index(ch \<mapsto> l)) c of None \<Rightarrow> list_new mode | Some l \<Rightarrow> l)) else (index(ch \<mapsto> l)) c)"
    by blast
  have "index' c = (if c \<in> set (ch # chs) then map_option fst (add (case index c of None \<Rightarrow> list_new mode | Some l \<Rightarrow> l)) else index c)" for c
    using i(2) l d(2) by (cases "c = ch") simp_all
  moreover have "add_letters add mode (ch # chs) index = Some index'" using i(1) l by (simp add: Let_def del: fun_upd_apply)
  ultimately show ?case by blast
qed simp

lemma change_letters_at:
  assumes "distinct chs" "\<And>ch l. ch \<in> set chs \<Longrightarrow> index ch = Some l \<Longrightarrow> change l \<noteq> None"
  shows "\<exists>index'. change_letters change chs index = Some index'
    \<and> (\<forall>ch. index' ch = (if ch \<in> set chs then Option.bind (index ch) change else index ch))"
  using assms
proof (induction chs arbitrary: index)
  case (Cons ch chs)
  have d: "distinct chs" "ch \<notin> set chs" using Cons.prems(1) by auto
  define index1 where "index1 = index(ch := Option.bind (index ch) change)"
  have step: "change_letters change (ch # chs) index = change_letters change chs index1"
    using Cons.prems(2) [of ch] by (cases "index ch") (auto simp: index1_def fun_upd_idem)
  have some: "\<And>c l. c \<in> set chs \<Longrightarrow> index1 c = Some l \<Longrightarrow> change l \<noteq> None"
    using Cons.prems(2) d(2) by (metis fun_upd_apply index1_def list.set_intros(2))
  obtain index' where i: "change_letters change chs index1 = Some index'"
    "\<forall>c. index' c = (if c \<in> set chs then Option.bind (index1 c) change else index1 c)"
    using Cons.IH [of index1, OF d(1)] some by blast
  have "index' c = (if c \<in> set (ch # chs) then Option.bind (index c) change else index c)" for c
    using i(2) d(2) by (cases "c = ch") (simp_all add: index1_def)
  with step i(1) show ?case by auto
qed simp

lemma adjust_letters_change:
  "(\<forall>(ch, row) \<in> set links. row = k) \<Longrightarrow> adjust_letters s links index = change_letters (list_adjustByDate s k) (map fst links) index"
  by (induction s links index rule: adjust_letters.induct) (auto split: option.splits)

lemma emplace_letters_at:
  fixes chs :: "'c::linorder list"
  shows "key_sorted (<) (emplace_letters row chs) \<and> map_of (emplace_letters row chs) = (\<lambda>ch. if ch \<in> set chs then Some row else None)"
proof (induction chs rule: rev_induct)
  case Nil
  show ?case by (simp add: emplace_letters_def)
next
  case (snoc ch chs)
  then have srt: "key_sorted (<) (emplace_letters row chs)" and at: "map_of (emplace_letters row chs) = (\<lambda>ch. if ch \<in> set chs then Some row else None)"
    by auto
  have step: "emplace_letters row (chs @ [ch]) = fst (flat_map_emplace (<) ch row (emplace_letters row chs))" by (simp add: emplace_letters_def)
  have "map_of (emplace_letters row (chs @ [ch])) = (\<lambda>c. if c \<in> set (chs @ [ch]) then Some row else None)"
    unfolding step using less_total.insert_lookup [OF srt] by (auto simp: flat_map_emplace_def at domIff fun_eq_iff)
  then show ?case using less_total.insert_sorted [OF srt] by (simp add: step flat_map_emplace_def)
qed

lemma split_letters_sets:
  assumes "sorted_wrt (<) toRemove" "sorted_wrt (<) toAdd" "distinct chs" "set kept \<inter> set toRemove = {}" "distinct kept" "set kept \<inter> set chs = {}"
    "set toAdd \<inter> set chs = {}"
    "split_letters chs toRemove toAdd kept = (tr, ta, kp)"
  shows "sorted_wrt (<) tr \<and> set tr = set toRemove - set chs \<and> sorted_wrt (<) ta \<and> set ta = set toAdd \<union> (set chs - set toRemove)
    \<and> distinct kp \<and> set kp = set kept \<union> (set chs \<inter> set toRemove)"
  using assms
proof (induction chs arbitrary: toRemove toAdd kept)
  case (Cons ch chs)
  show ?case
  proof (cases "ch \<in> set toRemove")
    case True
    have c: "flat_multi_set_contains (<) ch toRemove" using True flat_set_less.mem_elems [OF Cons.prems(1)] by simp
    have r: "sorted_wrt (<) (fst (flat_set_remove (<) ch toRemove))" "set (fst (flat_set_remove (<) ch toRemove)) = set toRemove - {ch}"
      using flat_set_less.invar_del [OF Cons.prems(1)] flat_set_less.elems_del [OF Cons.prems(1)] by auto
    from Cons.IH [OF r(1) Cons.prems(2), of "kept @ [ch]"] Cons.prems(3-8) True c r(2) show ?thesis by auto
  next
    case False
    have c: "\<not> flat_multi_set_contains (<) ch toRemove" using False flat_set_less.mem_elems [OF Cons.prems(1)] by simp
    have r: "sorted_wrt (<) (fst (flat_set_insert (<) ch toAdd))" "set (fst (flat_set_insert (<) ch toAdd)) = insert ch (set toAdd)"
      using flat_set_less.invar_ins [OF Cons.prems(2)] flat_set_less.elems_ins [OF Cons.prems(2)] by auto
    from Cons.IH [OF Cons.prems(1) r(1), of kept] Cons.prems(3-8) False c r(2) show ?thesis by auto
  qed
qed auto


section \<open>The index holds the chats of each letter\<close>

definition list_is :: "('k \<Rightarrow> 'k \<Rightarrow> bool) \<Rightarrow> SortMode \<Rightarrow> 'k set \<Rightarrow> 'k chat_list \<Rightarrow> bool" where
  "list_is cmp mode K l \<longleftrightarrow> list_ok l \<and> cl_mode l = mode \<and> set (cl_rows l) = K \<and> sorted_wrt cmp (cl_rows l)"

definition letter_is :: "('k \<Rightarrow> 'k \<Rightarrow> bool) \<Rightarrow> SortMode \<Rightarrow> 'k set \<Rightarrow> 'k chat_list option \<Rightarrow> bool" where
  "letter_is cmp mode K found \<longleftrightarrow> (case found of None \<Rightarrow> K = {} | Some l \<Rightarrow> list_is cmp mode K l)"

definition chats_with :: "('k \<Rightarrow> 'c list) \<Rightarrow> 'k set \<Rightarrow> 'c \<Rightarrow> 'k set" where
  "chats_with firstLetters K ch = {k \<in> K. ch \<in> set (firstLetters k)}"

definition indexed_ok :: "('k \<Rightarrow> 'k \<Rightarrow> bool) \<Rightarrow> SortMode \<Rightarrow> ('k \<Rightarrow> 'c list) \<Rightarrow> 'k set \<Rightarrow> ('k, 'c) indexed_list \<Rightarrow> bool" where
  "indexed_ok cmp mode firstLetters K il \<longleftrightarrow> il_mode il = mode \<and> list_is cmp mode K (il_list il)
     \<and> (\<forall>ch. letter_is cmp mode (chats_with firstLetters K ch) (il_index il ch))"

lemma list_is_new: "list_is cmp mode {} (list_new mode)"
  by (simp add: list_is_def list_new_def list_ok_def)

lemma letter_is_list: "letter_is cmp mode K found \<Longrightarrow> list_is cmp mode K (case found of None \<Rightarrow> list_new mode | Some l \<Rightarrow> l)"
  by (auto simp: letter_is_def list_is_new split: option.splits)

lemma list_is_addToEnd:
  assumes "list_is (newer s) SortDate K l"
  obtains l' where "list_addToEnd s k l = Some (l', k)" "list_is (newer s) SortDate (insert k K) l'"
proof -
  have l: "list_ok l" "cl_mode l = SortDate" using assms by (auto simp: list_is_def)
  obtain l' where "list_addToEnd s k l = Some (l', k)" "added (newer s) k l l'" by (rule list_addToEnd_date [OF l, of s k])
  with that assms show thesis by (simp add: list_is_def added_def)
qed

lemma list_is_del: "list_is cmp mode K l \<Longrightarrow> list_is cmp mode (K - {k}) (fst (list_del k l))"
  using list_del_ok [of l k] by (auto simp: list_is_def list_ok_def sorted_remove1)

lemma list_is_adjustByDate:
  assumes "list_is (newer s) SortDate K l" "k \<in> K"
  obtains l' where "list_adjustByDate (s(k := x)) k l = Some l'" "list_is (newer (s(k := x))) SortDate K l'"
proof -
  have l: "list_ok l" "cl_mode l = SortDate" "k \<in> set (cl_rows l)" "sorted_wrt (newer s) (cl_rows l)" "set (cl_rows l) = K"
    using assms by (auto simp: list_is_def)
  obtain l' where l': "list_adjustByDate (s(k := x)) k l = Some l'" "adjusted (newer (s(k := x))) k l l'"
    by (rule list_adjustByDate_ok [OF l(1-3)])
  have "k \<notin> set (remove1 k (cl_rows l))" using l(1) by (simp add: list_ok_def)
  then have "sorted_wrt (newer (s(k := x))) (remove1 k (cl_rows l))"
    using sorted_remove1 [OF l(4), of k] sorted_key_cong [of "remove1 k (cl_rows l)" "s(k := x)" s] by auto
  with l' that l show thesis by (simp add: list_is_def adjusted_def)
qed

lemma list_is_cong:
  "(\<And>x y. x \<in> K \<Longrightarrow> y \<in> K \<Longrightarrow> cmp' x y = cmp x y) \<Longrightarrow> list_is cmp' mode K l = list_is cmp mode K l"
  unfolding list_is_def using sorted_wrt_mono_rel [of "cl_rows l" cmp cmp'] sorted_wrt_mono_rel [of "cl_rows l" cmp' cmp] by metis

lemma letter_is_cong:
  "(\<And>x y. x \<in> K \<Longrightarrow> y \<in> K \<Longrightarrow> cmp' x y = cmp x y) \<Longrightarrow> letter_is cmp' mode K f = letter_is cmp mode K f"
  using list_is_cong [of K cmp' cmp mode] by (cases f) (simp_all add: letter_is_def)

lemma indexed_new_ok: "indexed_ok cmp mode L {} (indexed_new mode)"
  by (simp add: indexed_ok_def indexed_new_def list_is_new letter_is_def chats_with_def)

lemma list_is_getRow: "list_is cmp mode K l \<Longrightarrow> list_getRow k l = (if k \<in> K then Some k else None)"
  by (auto simp: list_is_def list_getRow_def list_ok_def)

text \<open>
  What the index relies on from a list: adding the row of \<open>k\<close> to a list in order gives a list in order with that
  row. The lists by date and by name both keep this contract.
\<close>

locale row_keeper =
  fixes cmp :: "'k \<Rightarrow> 'k \<Rightarrow> bool" and mode :: SortMode and add :: "'k chat_list \<Rightarrow> ('k chat_list \<times> 'k) option" and k :: 'k
  assumes add_row: "list_is cmp mode K l \<Longrightarrow> \<exists>l'. add l = Some (l', k) \<and> list_is cmp mode (insert k K) l'"
begin

lemma add_letters_ok:
  assumes index: "\<forall>ch. letter_is cmp mode (C ch) (index ch)" and "distinct chs"
  obtains index' where "add_letters add mode chs index = Some index'"
    "\<forall>ch. letter_is cmp mode (if ch \<in> set chs then insert k (C ch) else C ch) (index' ch)"
proof -
  let ?j = "\<lambda>ch. case index ch of None \<Rightarrow> list_new mode | Some l \<Rightarrow> l"
  have j: "\<exists>l'. add (?j ch) = Some (l', k) \<and> list_is cmp mode (insert k (C ch)) l'" for ch using add_row letter_is_list index by blast
  then have "add (?j ch) \<noteq> None" for ch by (metis option.distinct(1))
  with add_letters_at [OF assms(2), where add = add and index = index and mode = mode] obtain index'
    where i: "add_letters add mode chs index = Some index'"
      "\<forall>ch. index' ch = (if ch \<in> set chs then map_option fst (add (?j ch)) else index ch)" by blast
  have "letter_is cmp mode (if ch \<in> set chs then insert k (C ch) else C ch) (index' ch)" for ch
    using spec [OF i(2), of ch] spec [OF index, of ch] j [of ch] by (auto simp: letter_is_def)
  with that i(1) show thesis by blast
qed

text \<open>A key new to the list, with the letters of its name.\<close>

lemma add_key_ok:
  assumes ok: "indexed_ok cmp mode L K il" and k: "distinct (L k)"
  obtains l' index' where "add (il_list il) = Some (l', k)" "add_letters add mode (L k) (il_index il) = Some index'"
    "indexed_ok cmp mode L (insert k K) (il\<lparr>il_list := l', il_index := index'\<rparr>)"
proof -
  have il: "il_mode il = mode" "list_is cmp mode K (il_list il)"
    and index: "\<forall>ch. letter_is cmp mode (chats_with L K ch) (il_index il ch)" using ok by (auto simp: indexed_ok_def)
  obtain l' where l': "add (il_list il) = Some (l', k)" "list_is cmp mode (insert k K) l'" using add_row [OF il(2)] by blast
  obtain index' where i: "add_letters add mode (L k) (il_index il) = Some index'"
    "\<forall>ch. letter_is cmp mode (if ch \<in> set (L k) then insert k (chats_with L K ch) else chats_with L K ch) (index' ch)"
    by (rule add_letters_ok [OF index k])
  have "(if ch \<in> set (L k) then insert k (chats_with L K ch) else chats_with L K ch) = chats_with L (insert k K) ch" for ch
    by (auto simp: chats_with_def)
  then have "indexed_ok cmp mode L (insert k K) (il\<lparr>il_list := l', il_index := index'\<rparr>)" using i(2) l'(2) il by (simp add: indexed_ok_def)
  with that l'(1) i(1) show thesis by blast
qed

end

interpretation date_rows: row_keeper "newer s" SortDate "list_addToEnd s k" k for s k
proof
  show "\<exists>l'. list_addToEnd s k l = Some (l', k) \<and> list_is (newer s) SortDate (insert k K) l'" if "list_is (newer s) SortDate K l" for K l
    using list_is_addToEnd [OF that, of k] by blast
qed

lemma del_letters_ok:
  assumes index: "\<forall>ch. letter_is cmp mode (C ch) (index ch)" and "distinct chs"
  obtains index' where "change_letters (\<lambda>l. Some (fst (list_del k l))) chs index = Some index'"
    "\<forall>ch. letter_is cmp mode (if ch \<in> set chs then C ch - {k} else C ch) (index' ch)"
proof -
  obtain index' where i: "change_letters (\<lambda>l. Some (fst (list_del k l))) chs index = Some index'"
    "\<forall>ch. index' ch = (if ch \<in> set chs then Option.bind (index ch) (\<lambda>l. Some (fst (list_del k l))) else index ch)"
    using change_letters_at [OF assms(2), of index "\<lambda>l. Some (fst (list_del k l))"] by blast
  have "letter_is cmp mode (if ch \<in> set chs then C ch - {k} else C ch) (index' ch)" for ch
    using spec [OF i(2), of ch] spec [OF index, of ch] list_is_del [of cmp mode "C ch" _ k]
    by (cases "index ch") (auto simp: letter_is_def)
  with that i(1) show thesis by blast
qed


text \<open>Each operation on a list by date.\<close>

abbreviation by_date_ok :: "('k \<Rightarrow> u64) \<Rightarrow> ('k \<Rightarrow> 'c list) \<Rightarrow> 'k set \<Rightarrow> ('k, 'c) indexed_list \<Rightarrow> bool" where
  "by_date_ok s \<equiv> indexed_ok (newer s) SortDate"

lemma indexed_addToEnd_ok:
  assumes ok: "by_date_ok s L K il" and k: "k \<notin> K" "distinct (L k)"
  obtains il' where "indexed_addToEnd s L k il = Some (il', \<lparr>rl_main = k, rl_letters = emplace_letters k (L k)\<rparr>)" "by_date_ok s L (insert k K) il'"
proof -
  have il: "il_mode il = SortDate" "list_is (newer s) SortDate K (il_list il)" using ok by (auto simp: indexed_ok_def)
  obtain l' index' where "list_addToEnd s k (il_list il) = Some (l', k)" "add_letters (list_addToEnd s k) SortDate (L k) (il_index il) = Some index'"
    "by_date_ok s L (insert k K) (il\<lparr>il_list := l', il_index := index'\<rparr>)" by (rule date_rows.add_key_ok [where L = L, OF ok k(2)])
  then show thesis using that il(1) list_is_getRow [OF il(2), of k] k(1) by (simp add: indexed_addToEnd_def)
qed

lemma indexed_del_ok:
  assumes ok: "indexed_ok cmp mode L K il" and k: "distinct (L k)"
  obtains il' where "indexed_del L k il = Some il'" "indexed_ok cmp mode L (K - {k}) il'"
proof -
  have il: "il_mode il = mode" "list_is cmp mode K (il_list il)"
    and index: "\<forall>ch. letter_is cmp mode (chats_with L K ch) (il_index il ch)" using ok by (auto simp: indexed_ok_def)
  obtain l b where l: "list_del k (il_list il) = (l, b)" by fastforce
  have lb: "list_is cmp mode (K - {k}) l" "b = (k \<in> K)" using list_is_del [OF il(2), of k] list_del_ok(4) [of "il_list il" k] il(2) l
    by (auto simp: list_is_def)
  show thesis
  proof (cases b)
    case False
    then have "indexed_ok cmp mode L (K - {k}) (il\<lparr>il_list := l\<rparr>)" using lb ok by (simp add: indexed_ok_def)
    with False l that show thesis by (simp add: indexed_del_def)
  next
    case True
    obtain index' where i: "change_letters (\<lambda>l. Some (fst (list_del k l))) (L k) (il_index il) = Some index'"
      "\<forall>ch. letter_is cmp mode (if ch \<in> set (L k) then chats_with L K ch - {k} else chats_with L K ch) (index' ch)"
      by (rule del_letters_ok [OF index k])
    have "(if ch \<in> set (L k) then chats_with L K ch - {k} else chats_with L K ch) = chats_with L (K - {k}) ch" for ch
      by (auto simp: chats_with_def)
    then have "indexed_ok cmp mode L (K - {k}) (il\<lparr>il_list := l, il_index := index'\<rparr>)" using i(2) lb il by (simp add: indexed_ok_def)
    with True l i(1) that show thesis by (simp add: indexed_del_def)
  qed
qed

definition links_of :: "('k \<Rightarrow> 'c::linorder list) \<Rightarrow> 'k \<Rightarrow> ('k, 'c) rows_by_letter \<Rightarrow> bool" where
  "links_of L k r \<longleftrightarrow> rl_main r = k \<and> key_sorted (<) (rl_letters r)
     \<and> map_of (rl_letters r) = (\<lambda>ch. if ch \<in> set (L k) then Some k else None)"

lemma links_of_emplace: "links_of L k \<lparr>rl_main = k, rl_letters = emplace_letters k (L k)\<rparr>"
  using emplace_letters_at [of k "L k"] by (simp add: links_of_def)

lemma links_of_rows:
  assumes "links_of L k r"
  shows "distinct (map fst (rl_letters r))" "set (map fst (rl_letters r)) = set (L k)" "\<forall>(ch, row) \<in> set (rl_letters r). row = k"
proof -
  show d: "distinct (map fst (rl_letters r))" using assms less_total.key_sorted_distinct by (auto simp: links_of_def)
  have at: "map_of (rl_letters r) = (\<lambda>ch. if ch \<in> set (L k) then Some k else None)" using assms by (simp add: links_of_def)
  have "set (map fst (rl_letters r)) = dom (map_of (rl_letters r))" by (simp add: dom_map_of_conv_image_fst)
  then show "set (map fst (rl_letters r)) = set (L k)" by (auto simp: at split: if_splits)
  show "\<forall>(ch, row) \<in> set (rl_letters r). row = k"
  proof clarify
    fix ch row assume "(ch, row) \<in> set (rl_letters r)"
    then have "map_of (rl_letters r) ch = Some row" using d by simp
    then show "row = k" by (simp add: at split: if_splits)
  qed
qed

lemma indexed_adjustByDate_ok:
  assumes ok: "by_date_ok s L K il" and r: "links_of L k r" and k: "k \<in> K"
  obtains il' where "indexed_adjustByDate (s(k := x)) r il = Some il'" "by_date_ok (s(k := x)) L K il'"
proof -
  let ?s = "s(k := x)"
  have il: "il_mode il = SortDate" "list_is (newer s) SortDate K (il_list il)"
    and index: "\<forall>ch. letter_is (newer s) SortDate (chats_with L K ch) (il_index il ch)" using ok by (auto simp: indexed_ok_def)
  obtain l' where l': "list_adjustByDate ?s k (il_list il) = Some l'" "list_is (newer ?s) SortDate K l'"
    by (rule list_is_adjustByDate [OF il(2) k])
  have adj: "adjust_letters ?s (rl_letters r) (il_index il) = change_letters (list_adjustByDate ?s k) (map fst (rl_letters r)) (il_index il)"
    by (rule adjust_letters_change [OF links_of_rows(3) [OF r]])
  have at: "\<exists>l1. list_adjustByDate ?s k l = Some l1 \<and> list_is (newer ?s) SortDate (chats_with L K ch) l1"
    if "ch \<in> set (L k)" "il_index il ch = Some l" for ch l
  proof -
    have "list_is (newer s) SortDate (chats_with L K ch) l" "k \<in> chats_with L K ch" using index that k by (auto simp: letter_is_def chats_with_def dest: spec [of _ ch])
    then show ?thesis using list_is_adjustByDate [of s "chats_with L K ch" l k x] by blast
  qed
  obtain index' where i: "change_letters (list_adjustByDate ?s k) (map fst (rl_letters r)) (il_index il) = Some index'"
    "\<forall>ch. index' ch = (if ch \<in> set (L k) then Option.bind (il_index il ch) (list_adjustByDate ?s k) else il_index il ch)"
    using change_letters_at [OF links_of_rows(1) [OF r], of "il_index il" "list_adjustByDate ?s k"] at unfolding links_of_rows(2) [OF r] by blast
  have "letter_is (newer ?s) SortDate (chats_with L K ch) (index' ch)" for ch
  proof (cases "ch \<in> set (L k)")
    case True
    then have c: "index' ch = Option.bind (il_index il ch) (list_adjustByDate ?s k)" using i(2) by simp
    show ?thesis
    proof (cases "il_index il ch")
      case None
      then show ?thesis using c spec [OF index, of ch] by (simp add: letter_is_def)
    next
      case (Some l)
      obtain l1 where "list_adjustByDate ?s k l = Some l1" "list_is (newer ?s) SortDate (chats_with L K ch) l1" using at [OF True Some] by blast
      with Some c show ?thesis by (simp add: letter_is_def del: fun_upd_apply)
    qed
  next
    case False
    then have "letter_is (newer ?s) SortDate (chats_with L K ch) (il_index il ch) = letter_is (newer s) SortDate (chats_with L K ch) (il_index il ch)"
      by (intro letter_is_cong) (auto simp: chats_with_def)
    then show ?thesis using i(2) False index by simp
  qed
  then have "by_date_ok ?s L K (il\<lparr>il_list := l', il_index := index'\<rparr>)" using l'(2) il by (simp add: indexed_ok_def)
  then show thesis using that l'(1) i(1) adj r by (simp add: indexed_adjustByDate_def links_of_def)
qed


lemma remove_letters_at:
  assumes "key_sorted (<) (rl_letters r)"
  shows "\<exists>r'. fold removeChatListEntryByLetter chs (Some r) = Some r' \<and> rl_main r' = rl_main r \<and> key_sorted (<) (rl_letters r')
    \<and> map_of (rl_letters r') = (\<lambda>ch. if ch \<in> set chs then None else map_of (rl_letters r) ch)"
  using assms
proof (induction chs arbitrary: r)
  case (Cons ch chs)
  define r1 where "r1 = r\<lparr>rl_letters := fst (flat_map_remove (<) ch (rl_letters r))\<rparr>"
  have r1: "key_sorted (<) (rl_letters r1)" "map_of (rl_letters r1) = (map_of (rl_letters r))(ch := None)" "rl_main r1 = rl_main r"
    using less_total.remove_filter [OF Cons.prems, of ch] Cons.prems by (simp_all add: r1_def map_of_filter_key sorted_wrt_filter)
  from Cons.IH [OF r1(1)] obtain r' where "fold removeChatListEntryByLetter chs (Some r1) = Some r'" "rl_main r' = rl_main r1"
    "key_sorted (<) (rl_letters r')" "map_of (rl_letters r') = (\<lambda>c. if c \<in> set chs then None else map_of (rl_letters r1) c)" by blast
  moreover have "removeChatListEntryByLetter ch (Some r) = Some r1" by (simp add: removeChatListEntryByLetter_def r1_def)
  ultimately show ?case using r1 by (auto simp: fun_eq_iff)
qed simp

lemma add_letter_links_at:
  assumes "key_sorted (<) (rl_letters r)"
  shows "\<exists>r'. fold (\<lambda>ch. addChatListEntryByLetter ch k) chs (Some r) = Some r' \<and> rl_main r' = rl_main r \<and> key_sorted (<) (rl_letters r')
    \<and> map_of (rl_letters r') = (\<lambda>ch. if ch \<in> set chs \<and> map_of (rl_letters r) ch = None then Some k else map_of (rl_letters r) ch)"
  using assms
proof (induction chs arbitrary: r)
  case (Cons ch chs)
  define r1 where "r1 = r\<lparr>rl_letters := fst (flat_map_emplace (<) ch k (rl_letters r))\<rparr>"
  have r1: "key_sorted (<) (rl_letters r1)" "rl_main r1 = rl_main r"
    "map_of (rl_letters r1) = (if map_of (rl_letters r) ch = None then (map_of (rl_letters r))(ch \<mapsto> k) else map_of (rl_letters r))"
    using less_total.insert_lookup [OF Cons.prems, of ch k] less_total.insert_sorted [OF Cons.prems, of "(ch, k)"]
    by (auto simp: r1_def flat_map_emplace_def domIff)
  from Cons.IH [OF r1(1)] obtain r' where "fold (\<lambda>ch. addChatListEntryByLetter ch k) chs (Some r1) = Some r'" "rl_main r' = rl_main r1"
    "key_sorted (<) (rl_letters r')"
    "map_of (rl_letters r') = (\<lambda>c. if c \<in> set chs \<and> map_of (rl_letters r1) c = None then Some k else map_of (rl_letters r1) c)" by blast
  moreover have "addChatListEntryByLetter ch k (Some r) = Some r1" by (simp add: addChatListEntryByLetter_def r1_def)
  ultimately show ?case using r1 by (auto simp: fun_eq_iff)
qed simp

lemma indexed_adjustNames_ok:
  assumes ok: "by_date_ok s L K il" and srt: "sorted_wrt (<) (L k)" "sorted_wrt (<) ls" and k: "k \<in> K" and r: "links_of L k r"
  obtains il' r' where "indexed_adjustNames s (L(k := ls)) k (L k) (Some r) il = Some (il', Some r')"
    "by_date_ok s (L(k := ls)) K il'" "links_of (L(k := ls)) k r'"
proof -
  have il: "il_mode il = SortDate" "list_is (newer s) SortDate K (il_list il)"
    and index: "\<forall>ch. letter_is (newer s) SortDate (chats_with L K ch) (il_index il ch)" using ok by (auto simp: indexed_ok_def)
  obtain tr ta kp where sp: "split_letters ls (L k) [] [] = (tr, ta, kp)" by (metis prod_cases3)
  have sets: "sorted_wrt (<) tr" "set tr = set (L k) - set ls" "sorted_wrt (<) ta" "set ta = set ls - set (L k)"
    using split_letters_sets [OF srt(1) _ _ _ _ _ _ sp] srt(2) by (simp_all add: strict_sorted_iff)
  then have d: "distinct tr" "distinct ta" by (simp_all add: strict_sorted_iff)
  obtain index1 where i1: "change_letters (\<lambda>l. Some (fst (list_del k l))) tr (il_index il) = Some index1"
    "\<forall>ch. letter_is (newer s) SortDate (if ch \<in> set tr then chats_with L K ch - {k} else chats_with L K ch) (index1 ch)"
    by (rule del_letters_ok [OF index d(1)])
  obtain index2 where i2: "add_letters (list_addToEnd s k) SortDate ta index1 = Some index2"
    "\<forall>ch. letter_is (newer s) SortDate
      (if ch \<in> set ta then insert k (if ch \<in> set tr then chats_with L K ch - {k} else chats_with L K ch)
       else if ch \<in> set tr then chats_with L K ch - {k} else chats_with L K ch) (index2 ch)"
    by (rule date_rows.add_letters_ok [OF i1(2) d(2)])
  have "(if ch \<in> set ta then insert k (if ch \<in> set tr then chats_with L K ch - {k} else chats_with L K ch)
       else if ch \<in> set tr then chats_with L K ch - {k} else chats_with L K ch) = chats_with (L(k := ls)) K ch" for ch
    using k sets by (auto simp: chats_with_def)
  with i2(2) have ok2: "by_date_ok s (L(k := ls)) K (il\<lparr>il_index := index2\<rparr>)" using il by (simp add: indexed_ok_def)
  have rl: "rl_main r = k" "key_sorted (<) (rl_letters r)" "map_of (rl_letters r) = (\<lambda>ch. if ch \<in> set (L k) then Some k else None)"
    using r by (auto simp: links_of_def)
  obtain r1 where r1: "fold removeChatListEntryByLetter tr (Some r) = Some r1" "rl_main r1 = k" "key_sorted (<) (rl_letters r1)"
    "map_of (rl_letters r1) = (\<lambda>ch. if ch \<in> set tr then None else map_of (rl_letters r) ch)"
    using remove_letters_at [OF rl(2)] rl(1) by blast
  obtain r2 where r2: "fold (\<lambda>ch. addChatListEntryByLetter ch k) ta (Some r1) = Some r2" "rl_main r2 = k" "key_sorted (<) (rl_letters r2)"
    "map_of (rl_letters r2) = (\<lambda>ch. if ch \<in> set ta \<and> map_of (rl_letters r1) ch = None then Some k else map_of (rl_letters r1) ch)"
    using add_letter_links_at [OF r1(3)] r1(2) by blast
  have "links_of (L(k := ls)) k r2" using r2 r1(4) rl(3) sets by (auto simp: links_of_def fun_eq_iff)
  moreover have "indexed_adjustNames s (L(k := ls)) k (L k) (Some r) il = Some (il\<lparr>il_index := index2\<rparr>, Some r2)"
    using list_is_getRow [OF il(2), of k] k sp i1(1) i2(1) r1(1) r2(1) il(1) by (simp add: indexed_adjustNames_def)
  ultimately show thesis using that ok2 by blast
qed


section \<open>Lists by name\<close>

text \<open>A list in which the row of \<open>k\<close> may stand in the wrong place, as after a change of its name.\<close>

definition list_but :: "('k \<Rightarrow> 'k \<Rightarrow> bool) \<Rightarrow> SortMode \<Rightarrow> 'k set \<Rightarrow> 'k \<Rightarrow> 'k chat_list \<Rightarrow> bool" where
  "list_but cmp mode K k l \<longleftrightarrow> list_ok l \<and> cl_mode l = mode \<and> set (cl_rows l) = K \<and> sorted_wrt cmp (remove1 k (cl_rows l))"

abbreviation by_name_ok :: "('k \<Rightarrow> 'n::linorder) \<Rightarrow> ('k \<Rightarrow> 'c list) \<Rightarrow> 'k set \<Rightarrow> ('k, 'c) indexed_list \<Rightarrow> bool" where
  "by_name_ok n \<equiv> indexed_ok (name_before n) SortName"

lemma list_but_name:
  assumes "list_is (name_before n) mode K l"
  shows "list_but (name_before (n(k := x))) mode K k l"
proof -
  have l: "list_ok l" "cl_mode l = mode" "set (cl_rows l) = K" "sorted_wrt (name_before n) (cl_rows l)" using assms by (auto simp: list_is_def)
  have "k \<notin> set (remove1 k (cl_rows l))" using l(1) by (simp add: list_ok_def)
  then have "sorted_wrt (name_before (n(k := x))) (remove1 k (cl_rows l))"
    by (intro sorted_wrt_mono_rel [OF _ sorted_remove1 [OF l(4), of k]]) auto
  with l show ?thesis by (simp add: list_but_def)
qed

lemma list_but_absent: "list_but cmp mode K k l \<Longrightarrow> k \<notin> K \<Longrightarrow> list_is cmp mode K l"
  by (auto simp: list_but_def list_is_def remove1_idem)

lemma list_but_adjustByName:
  assumes "list_but (name_before n) SortName K k l" "k \<in> K"
  obtains l' where "list_adjustByName n k l = Some (l', Some k)" "list_is (name_before n) SortName K l'"
proof -
  have l: "list_ok l" "cl_mode l = SortName" "k \<in> set (cl_rows l)" using assms by (auto simp: list_but_def)
  obtain l' where "list_adjustByName n k l = Some (l', Some k)" "adjusted (name_before n) k l l'" by (rule list_adjustByName_ok [OF l])
  with that assms show thesis by (simp add: list_is_def list_but_def adjusted_def)
qed

lemma list_but_addByName:
  assumes "list_but (name_before n) SortName K k l"
  obtains l' where "list_addByName s n k l = Some (l', k)" "list_is (name_before n) SortName (insert k K) l'"
proof -
  have l: "list_ok l" "cl_mode l = SortName" "sorted_wrt (name_before n) (remove1 k (cl_rows l))" "set (cl_rows l) = K"
    using assms by (auto simp: list_but_def)
  show thesis
  proof (rule list_addByName_ok [OF l(1,2), of s n k])
    fix l'
    assume l': "list_addByName s n k l = Some (l', k)" "set (cl_rows l') = insert k (set (cl_rows l))" "list_ok l'" "cl_mode l' = SortName"
      "sorted_wrt (name_before n) (remove1 k (cl_rows l)) \<Longrightarrow> sorted_wrt (name_before n) (cl_rows l')"
    show thesis by (rule that [OF l'(1)]) (use l'(2-4) l'(5) [OF l(3)] l(4) in \<open>simp add: list_is_def\<close>)
  qed
qed

lemma list_but_del: "list_but cmp mode K k l \<Longrightarrow> list_is cmp mode (K - {k}) (fst (list_del k l))"
  using list_del_ok [of l k] by (auto simp: list_is_def list_but_def list_ok_def)

lemma list_is_but: "list_is cmp mode K l \<Longrightarrow> list_but cmp mode K k l"
  by (auto simp: list_is_def list_but_def sorted_remove1)

interpretation name_rows: row_keeper "name_before n" SortName "list_addByName s n k" k for n :: "'k \<Rightarrow> 'n::linorder" and s k
proof
  show "\<exists>l'. list_addByName s n k l = Some (l', k) \<and> list_is (name_before n) SortName (insert k K) l'" if "list_is (name_before n) SortName K l" for K l
    using list_but_addByName [OF list_is_but [OF that, of k], of s] by blast
qed

lemma indexed_addByName_ok:
  assumes ok: "by_name_ok n L K il" and k: "distinct (L k)"
  obtains il' where "indexed_addByName s n L k il = Some (il', k)" "by_name_ok n L (insert k K) il'"
proof (cases "k \<in> K")
  case True
  then have "list_getRow k (il_list il) = Some k" using ok list_is_getRow [of "name_before n" SortName K "il_list il" k] by (simp add: indexed_ok_def)
  with True that ok show thesis by (simp add: indexed_addByName_def insert_absorb)
next
  case False
  have il: "il_mode il = SortName" "list_is (name_before n) SortName K (il_list il)" using ok by (auto simp: indexed_ok_def)
  obtain l' index' where "list_addByName s n k (il_list il) = Some (l', k)" "add_letters (list_addByName s n k) SortName (L k) (il_index il) = Some index'"
    "by_name_ok n L (insert k K) (il\<lparr>il_list := l', il_index := index'\<rparr>)" by (rule name_rows.add_key_ok [where L = L, OF ok k])
  then show thesis using that il(1) list_is_getRow [OF il(2), of k] False by (simp add: indexed_addByName_def)
qed

lemma indexed_adjustByName_ok:
  assumes ok: "by_name_ok n L K il" and srt: "sorted_wrt (<) (L k)" "sorted_wrt (<) ls" and k: "k \<in> K"
  obtains il' where "indexed_adjustByName s (n(k := x)) (L(k := ls)) k (L k) il = Some il'" "by_name_ok (n(k := x)) (L(k := ls)) K il'"
proof -
  let ?n = "n(k := x)" and ?C = "chats_with L K"
  have il: "il_mode il = SortName" "list_is (name_before n) SortName K (il_list il)"
    and index: "\<And>ch. letter_is (name_before n) SortName (?C ch) (il_index il ch)" using ok by (auto simp: indexed_ok_def)
  have but: "list_but (name_before ?n) SortName (?C ch) k l" if "il_index il ch = Some l" for ch l
    using index [of ch] that list_but_name [of n SortName "?C ch" l k x] by (simp add: letter_is_def)
  obtain l' where l': "list_adjustByName ?n k (il_list il) = Some (l', Some k)" "list_is (name_before ?n) SortName K l'"
    by (rule list_but_adjustByName [OF list_but_name [OF il(2)] k])
  obtain tr ta kp where sp: "split_letters ls (L k) [] [] = (tr, ta, kp)" by (metis prod_cases3)
  have sets: "sorted_wrt (<) tr" "set tr = set (L k) - set ls" "sorted_wrt (<) ta" "set ta = set ls - set (L k)" "distinct kp" "set kp = set ls \<inter> set (L k)"
    using split_letters_sets [OF srt(1) _ _ _ _ _ _ sp] srt(2) by (simp_all add: strict_sorted_iff)
  then have d: "distinct tr" "distinct ta" by (simp_all add: strict_sorted_iff)
  let ?adj = "\<lambda>l. map_option fst (list_adjustByName ?n k l)" and ?del = "\<lambda>l. Some (fst (list_del k l))"
  have kept: "\<exists>l1. ?adj l = Some l1 \<and> list_is (name_before ?n) SortName (?C ch) l1" if "ch \<in> set kp" "il_index il ch = Some l" for ch l
  proof -
    have "k \<in> ?C ch" using that(1) sets(6) k by (auto simp: chats_with_def)
    with list_but_adjustByName [OF but [OF that(2)]] show ?thesis by (metis fst_conv option.simps(9))
  qed
  obtain index1 where i1: "change_letters ?adj kp (il_index il) = Some index1"
    "\<forall>ch. index1 ch = (if ch \<in> set kp then Option.bind (il_index il ch) ?adj else il_index il ch)"
    using change_letters_at [OF sets(5), of "il_index il" ?adj] kept by blast
  obtain index2 where i2: "change_letters ?del tr index1 = Some index2"
    "\<forall>ch. index2 ch = (if ch \<in> set tr then Option.bind (index1 ch) ?del else index1 ch)"
    using change_letters_at [OF d(1), of index1 ?del] by blast
  let ?j = "\<lambda>ch. case index2 ch of None \<Rightarrow> list_new SortName | Some l \<Rightarrow> l"
  have new: "\<exists>l1. list_addByName s ?n k (?j ch) = Some (l1, k) \<and> list_is (name_before ?n) SortName (insert k (?C ch)) l1" if "ch \<in> set ta" for ch
  proof -
    have "index2 ch = il_index il ch" using that sets i1(2) i2(2) by simp
    then have "list_but (name_before ?n) SortName (?C ch) k (?j ch)"
      using list_but_name [OF letter_is_list [OF index [of ch]], of k x] by simp
    with list_but_addByName [of ?n "?C ch" k "?j ch" s] show ?thesis by blast
  qed
  obtain index3 where i3: "add_letters (list_addByName s ?n k) SortName ta index2 = Some index3"
    "\<forall>ch. index3 ch = (if ch \<in> set ta then map_option fst (list_addByName s ?n k (?j ch)) else index2 ch)"
    using add_letters_at [OF d(2), where add = "list_addByName s ?n k" and index = index2 and mode = SortName] new by fastforce
  have "letter_is (name_before ?n) SortName (chats_with (L(k := ls)) K ch) (index3 ch)" for ch
  proof -
    consider (kept) "ch \<in> set kp" | (gone) "ch \<in> set tr" | (new) "ch \<in> set ta" | (other) "ch \<notin> set (L k)" "ch \<notin> set ls" using sets by auto
    then show ?thesis
    proof cases
      case kept': kept
      then have "index3 ch = Option.bind (il_index il ch) ?adj" "chats_with (L(k := ls)) K ch = ?C ch" using i1 i2 i3 sets by (auto simp: chats_with_def)
      then show ?thesis using kept [OF kept'] index [of ch] by (cases "il_index il ch") (force simp: letter_is_def simp del: fun_upd_apply)+
    next
      case gone
      then have "index3 ch = Option.bind (il_index il ch) ?del" "chats_with (L(k := ls)) K ch = ?C ch - {k}" using i1 i2 i3 sets by (auto simp: chats_with_def)
      then show ?thesis using list_but_del [OF but [of ch]] index [of ch] by (cases "il_index il ch") (auto simp: letter_is_def simp del: fun_upd_apply)
    next
      case new': new
      then have "index3 ch = map_option fst (list_addByName s ?n k (?j ch))" "chats_with (L(k := ls)) K ch = insert k (?C ch)"
        using i3 sets k by (auto simp: chats_with_def)
      then show ?thesis using new [OF new'] by (auto simp: letter_is_def simp del: fun_upd_apply)
    next
      case other
      then have e: "index3 ch = il_index il ch" "chats_with (L(k := ls)) K ch = ?C ch" "k \<notin> ?C ch" using i1 i2 i3 sets by (auto simp: chats_with_def)
      then show ?thesis using list_but_absent [OF but [of ch]] index [of ch] by (cases "il_index il ch") (auto simp: letter_is_def simp del: fun_upd_apply)
    qed
  qed
  then have "by_name_ok ?n (L(k := ls)) K (il\<lparr>il_list := l', il_index := index3\<rparr>)" using l'(2) il by (simp add: indexed_ok_def del: fun_upd_apply)
  then show thesis using that l'(1) i1(1) i2(1) i3(1) il sp by (simp add: indexed_adjustByName_def del: fun_upd_apply) (simp add: sp)
qed

section \<open>Search finds every match\<close>

lemma minimal_list_one:
  assumes "minimal_list index ws result = Some l" "result = None \<or> (\<exists>ch \<in> H. index ch = result)"
  shows "\<exists>ch \<in> H \<union> {ch. \<exists>chs. ch # chs \<in> set ws}. index ch = Some l"
  using assms
proof (induction index ws result arbitrary: H rule: minimal_list.induct)
  case (3 index ch chs ws result)
  then obtain found where found: "index ch = Some found" "cl_rows found \<noteq> []" by (auto split: option.splits if_splits)
  let ?next = "case result of None \<Rightarrow> Some found | Some l \<Rightarrow> if length (cl_rows l) > length (cl_rows found) then Some found else Some l"
  have "minimal_list index ws ?next = Some l" using 3(2) found by simp
  moreover have "\<exists>c \<in> insert ch H. index c = ?next" using 3(3) found by (auto split: option.splits)
  ultimately show ?case using 3(1) [OF found, of "insert ch H"] by auto
next
  case (2 index ws result)
  then show ?case using 2(1) [of H] by simp
qed auto

lemma minimal_list_none:
  assumes "minimal_list index ws result = None" "result \<noteq> None \<or> (\<exists>word \<in> set ws. word \<noteq> [])"
  shows "\<exists>ch chs. ch # chs \<in> set ws \<and> (index ch = None \<or> (\<exists>l. index ch = Some l \<and> cl_rows l = []))"
  using assms
proof (induction index ws result rule: minimal_list.induct)
  case (2 index ws result)
  then show ?case by auto
next
  case (3 index ch chs ws result)
  show ?case
  proof (cases "index ch")
    case None
    then show ?thesis by auto
  next
    case (Some found)
    let ?next = "case result of None \<Rightarrow> Some found | Some l \<Rightarrow> if length (cl_rows l) > length (cl_rows found) then Some found else Some l"
    have nx: "?next \<noteq> None" by (simp split: option.splits)
    show ?thesis
    proof (cases "cl_rows found = []")
      case True
      with Some show ?thesis by auto
    next
      case False
      then have m: "minimal_list index ws ?next = None" using 3(2) Some by simp
      show ?thesis using 3(1) [OF Some False m] nx by auto
    qed
  qed
qed simp

lemma indexed_filtered_exact:
  assumes ok: "indexed_ok cmp mode L K il" and names: "\<And>k name. k \<in> K \<Longrightarrow> name \<in> set (W k) \<Longrightarrow> name \<noteq> [] \<Longrightarrow> hd name \<in> set (L k)"
    and ws: "\<exists>word \<in> set ws. word \<noteq> []"
  shows "set (indexed_filtered W ws il) = {k \<in> K. \<forall>word \<in> set ws. \<exists>name \<in> set (W k). prefix word name}
    \<and> distinct (indexed_filtered W ws il) \<and> sorted_wrt cmp (indexed_filtered W ws il)"
proof -
  have il: "list_is cmp mode K (il_list il)" and index: "\<And>ch. letter_is cmp mode (chats_with L K ch) (il_index il ch)"
    using ok by (auto simp: indexed_ok_def)
  let ?match = "\<lambda>k. \<forall>word \<in> set ws. word_found (W k) word"
  have letter: "ch \<in> set (L k)" if k: "k \<in> K" and m: "?match k" and w: "ch # chs \<in> set ws" for k ch chs
  proof -
    obtain name where "name \<in> set (W k)" "prefix (ch # chs) name" using m w unfolding word_found_def by blast
    then have "name \<in> set (W k)" "name \<noteq> []" "hd name = ch" by (auto simp: prefix_def)
    with names [OF k] show ?thesis by blast
  qed
  show ?thesis
  proof (cases "cl_rows (il_list il) = []")
    case True
    then have "K = {}" using il by (simp add: list_is_def)
    with True show ?thesis by (simp add: indexed_filtered_def)
  next
    case ne: False
    show ?thesis
    proof (cases "minimal_list (il_index il) ws None")
      case None
      then obtain ch chs where c: "ch # chs \<in> set ws" "il_index il ch = None \<or> (\<exists>l. il_index il ch = Some l \<and> cl_rows l = [])"
        using minimal_list_none [OF None] ws by blast
      then have "chats_with L K ch = {}" using index [of ch] by (auto simp: letter_is_def list_is_def)
      then have "{k \<in> K. ?match k} = {}" using letter c(1) by (force simp: chats_with_def)
      with None show ?thesis by (simp add: indexed_filtered_def word_found_def)
    next
      case (Some l)
      obtain ch chs where c: "ch # chs \<in> set ws" "il_index il ch = Some l" using minimal_list_one [OF Some, of "{}"] by auto
      then have l: "list_is cmp mode (chats_with L K ch) l" using index [of ch] by (simp add: letter_is_def)
      have f: "indexed_filtered W ws il = filter ?match (cl_rows l)" using Some ne by (simp add: indexed_filtered_def)
      have "{k \<in> chats_with L K ch. ?match k} = {k \<in> K. ?match k}" using letter c(1) by (auto simp: chats_with_def)
      then have "set (filter ?match (cl_rows l)) = {k \<in> K. ?match k}" using l by (simp add: list_is_def)
      moreover have "distinct (filter ?match (cl_rows l))" "sorted_wrt cmp (filter ?match (cl_rows l))"
        using l by (simp_all add: list_is_def list_ok_def sorted_wrt_filter)
      ultimately show ?thesis unfolding f by (simp add: word_found_def)
    qed
  qed
qed

text \<open>The words of a name and their first letters.\<close>

lemma fillNames_letters:
  assumes "sorted_wrt (<) (fst acc)" "sorted_wrt (<) (snd acc)" "\<forall>name \<in> set namesList. name \<noteq> []"
  shows "\<exists>nameWords firstLetters. fillNames namesList acc = Some (nameWords, firstLetters) \<and> sorted_wrt (<) firstLetters
    \<and> set nameWords = set (fst acc) \<union> set namesList \<and> set firstLetters = set (snd acc) \<union> hd ` set namesList"
  using assms
proof (induction namesList acc rule: fillNames.induct)
  case (3 ch chs namesList nameWords firstLetters)
  let ?w = "fst (flat_set_insert (<) (ch # chs) nameWords)" and ?l = "fst (flat_set_insert (<) ch firstLetters)"
  have w: "sorted_wrt (<) ?w" "set ?w = insert (ch # chs) (set nameWords)"
    using flat_set_less.invar_ins [of nameWords] flat_set_less.elems_ins [of nameWords] 3(2) by auto
  have l: "sorted_wrt (<) ?l" "set ?l = insert ch (set firstLetters)" 
    using flat_set_less.invar_ins [of firstLetters] flat_set_less.elems_ins [of firstLetters] 3(3) by auto
  from 3(1) w(1) l(1) 3(4) obtain nw fl where "fillNames namesList (?w, ?l) = Some (nw, fl)" "sorted_wrt (<) fl"
    "set nw = set ?w \<union> set namesList" "set fl = set ?l \<union> hd ` set namesList" by auto
  with w l show ?case by auto
qed auto


section \<open>Runs of a list by date\<close>

text \<open>
  Positions, names and links of the entries change while the list is kept: an entry is added to the list
  (\<open>Entry::addToChatList\<close>), moved when its position changes (\<open>adjustByPosInChatList\<close>), renamed
  (\<open>PeerData::fillNames\<close> and the name update with the old letters) and removed (\<open>removeFromChatList\<close>).
\<close>

type_synonym 'c entry_names = "'c list list \<times> 'c list"

definition letters_of :: "('k \<Rightarrow> 'c entry_names) \<Rightarrow> 'k \<Rightarrow> 'c list" where
  "letters_of N k = snd (N k)"

definition words_of :: "('k \<Rightarrow> 'c entry_names) \<Rightarrow> 'k \<Rightarrow> 'c list list" where
  "words_of N k = fst (N k)"

definition named :: "'c::linorder entry_names \<Rightarrow> bool" where
  "named nm \<longleftrightarrow> (\<exists>namesList. (\<forall>name \<in> set namesList. name \<noteq> []) \<and> fillNames namesList ([], []) = Some nm)"

inductive chats_run ::
  "('k \<Rightarrow> u64) \<Rightarrow> ('k \<Rightarrow> 'c::linorder entry_names) \<Rightarrow> ('k \<rightharpoonup> ('k, 'c) rows_by_letter) \<Rightarrow> ('k, 'c) indexed_list \<Rightarrow> bool" where
  new: "(\<And>k. named (N k)) \<Longrightarrow> chats_run s N Map.empty (indexed_new SortDate)"
| add: "chats_run s N links il \<Longrightarrow> links k = None \<Longrightarrow> indexed_addToEnd s (letters_of N) k il = Some (il', r)
    \<Longrightarrow> chats_run s N (links(k \<mapsto> r)) il'"
| move: "chats_run s N links il \<Longrightarrow> links k = Some r \<Longrightarrow> indexed_adjustByDate (s(k := x)) r il = Some il'
    \<Longrightarrow> chats_run (s(k := x)) N links il'"
| move_other: "chats_run s N links il \<Longrightarrow> links k = None \<Longrightarrow> chats_run (s(k := x)) N links il"
| rename: "chats_run s N links il \<Longrightarrow> named nm
    \<Longrightarrow> indexed_peerNameChangedByDate s (letters_of (N(k := nm))) True k (letters_of N k) (links k) il = Some (il', r)
    \<Longrightarrow> chats_run s (N(k := nm)) (links(k := r)) il'"
| remove: "chats_run s N links il \<Longrightarrow> links k \<noteq> None \<Longrightarrow> indexed_del (letters_of N) k il = Some il'
    \<Longrightarrow> chats_run s N (links(k := None)) il'"

lemma named_letters:
  assumes "named nm"
  shows "sorted_wrt (<) (snd nm)" "name \<in> set (fst nm) \<Longrightarrow> name \<noteq> [] \<and> hd name \<in> set (snd nm)"
proof -
  obtain namesList where n: "\<forall>name \<in> set namesList. name \<noteq> []" "fillNames namesList ([], []) = Some nm" using assms by (auto simp: named_def)
  from fillNames_letters [OF _ _ n(1), of "([], [])"] n(2) have "sorted_wrt (<) (snd nm)" "set (fst nm) = set namesList" "set (snd nm) = hd ` set namesList"
    by auto
  then show "sorted_wrt (<) (snd nm)" "name \<in> set (fst nm) \<Longrightarrow> name \<noteq> [] \<and> hd name \<in> set (snd nm)" using n(1) by auto
qed

lemma letters_upd: "letters_of (N(k := nm)) = (letters_of N)(k := snd nm)"
  by (simp add: letters_of_def fun_eq_iff)

definition chats_ok :: "('k \<Rightarrow> u64) \<Rightarrow> ('k \<Rightarrow> 'c::linorder entry_names) \<Rightarrow> ('k \<rightharpoonup> ('k, 'c) rows_by_letter) \<Rightarrow> ('k, 'c) indexed_list \<Rightarrow> bool" where
  "chats_ok s N links il \<longleftrightarrow> (\<forall>k. named (N k)) \<and> by_date_ok s (letters_of N) (dom links) il
     \<and> (\<forall>k r. links k = Some r \<longrightarrow> links_of (letters_of N) k r)"

lemma chats_ok_letters: "chats_ok s N links il \<Longrightarrow> sorted_wrt (<) (letters_of N k) \<and> distinct (letters_of N k)"
  using named_letters(1) [of "N k"] by (auto simp: chats_ok_def letters_of_def strict_sorted_iff)

lemma chats_ok_add:
  assumes "chats_ok s N links il" "links k = None"
  obtains il' r where "indexed_addToEnd s (letters_of N) k il = Some (il', r)" "chats_ok s N (links(k \<mapsto> r)) il'"
proof -
  let ?r = "\<lparr>rl_main = k, rl_letters = emplace_letters k (letters_of N k)\<rparr>"
  obtain il' where il': "indexed_addToEnd s (letters_of N) k il = Some (il', ?r)" "by_date_ok s (letters_of N) (insert k (dom links)) il'"
    using indexed_addToEnd_ok [of s "letters_of N" "dom links" il k] assms chats_ok_letters [OF assms(1), of k] by (auto simp: chats_ok_def)
  then have "chats_ok s N (links(k \<mapsto> ?r)) il'" using assms(1) links_of_emplace [of "letters_of N" k] by (auto simp: chats_ok_def)
  with il'(1) that show thesis by blast
qed

lemma chats_ok_move:
  assumes "chats_ok s N links il" "links k = Some r"
  obtains il' where "indexed_adjustByDate (s(k := x)) r il = Some il'" "chats_ok (s(k := x)) N links il'"
proof -
  obtain il' where "indexed_adjustByDate (s(k := x)) r il = Some il'" "by_date_ok (s(k := x)) (letters_of N) (dom links) il'"
    using indexed_adjustByDate_ok [of s "letters_of N" "dom links" il k r x] assms unfolding chats_ok_def by blast
  with that assms show thesis unfolding chats_ok_def by blast
qed

lemma chats_ok_move_other:
  assumes "chats_ok s N links il" "links k = None"
  shows "chats_ok (s(k := x)) N links il"
proof -
  have "list_is (newer (s(k := x))) SortDate (dom links) l = list_is (newer s) SortDate (dom links) l" for l
    by (rule list_is_cong) (use assms(2) in auto)
  moreover have "letter_is (newer (s(k := x))) SortDate (chats_with L (dom links) ch) f = letter_is (newer s) SortDate (chats_with L (dom links) ch) f" for L :: "'a \<Rightarrow> 'b list" and ch f
    by (rule letter_is_cong) (use assms(2) in \<open>auto simp: chats_with_def\<close>)
  ultimately have "by_date_ok (s(k := x)) L (dom links) il = by_date_ok s L (dom links) il" for L :: "'a \<Rightarrow> 'b list"
    by (simp only: indexed_ok_def)
  then show ?thesis using assms(1) by (simp add: chats_ok_def del: fun_upd_apply)
qed

lemma chats_ok_remove:
  assumes "chats_ok s N links il"
  obtains il' where "indexed_del (letters_of N) k il = Some il'" "chats_ok s N (links(k := None)) il'"
proof -
  obtain il' where "indexed_del (letters_of N) k il = Some il'" "by_date_ok s (letters_of N) (dom links - {k}) il'"
    using indexed_del_ok [of "newer s" SortDate "letters_of N" "dom links" il k] assms chats_ok_letters [OF assms, of k] unfolding chats_ok_def by blast
  with that assms show thesis by (simp add: chats_ok_def)
qed

lemma chats_ok_rename:
  assumes ok: "chats_ok s N links il" and nm: "named nm"
  obtains il' r where "indexed_peerNameChangedByDate s (letters_of (N(k := nm))) True k (letters_of N k) (links k) il = Some (il', r)"
    "chats_ok s (N(k := nm)) (links(k := r)) il'"
proof -
  have il: "by_date_ok s (letters_of N) (dom links) il" and mode: "il_mode il = SortDate" using ok by (auto simp: chats_ok_def indexed_ok_def)
  show thesis
  proof (cases "links k")
    case None
    then have "list_getRow k (il_list il) = None" using il list_is_getRow [of "newer s" SortDate "dom links" "il_list il" k] by (auto simp: indexed_ok_def)
    then have step: "indexed_peerNameChangedByDate s (letters_of (N(k := nm))) True k (letters_of N k) (links k) il = Some (il, None)"
      using None mode by (simp add: indexed_peerNameChangedByDate_def indexed_adjustNames_def)
    have "chats_with (letters_of (N(k := nm))) (dom links) ch = chats_with (letters_of N) (dom links) ch" for ch
      using None by (auto simp: chats_with_def letters_upd)
    then have "by_date_ok s (letters_of (N(k := nm))) (dom links) il" using il by (simp add: indexed_ok_def)
    moreover have "links_of (letters_of (N(k := nm))) k' r" if "links k' = Some r" for k' r
      using that None ok by (cases "k' = k") (auto simp: chats_ok_def links_of_def letters_upd)
    ultimately have "chats_ok s (N(k := nm)) (links(k := None)) il" using ok nm None by (simp add: chats_ok_def fun_upd_idem)
    with step show thesis by (rule that)
  next
    case (Some r)
    then have r: "links_of (letters_of N) k r" "k \<in> dom links" using ok by (auto simp: chats_ok_def)
    obtain il' r' where il': "indexed_adjustNames s ((letters_of N)(k := snd nm)) k (letters_of N k) (Some r) il = Some (il', Some r')"
      "by_date_ok s ((letters_of N)(k := snd nm)) (dom links) il'" "links_of ((letters_of N)(k := snd nm)) k r'"
      by (rule indexed_adjustNames_ok [OF il _ _ r(2,1), of "snd nm"]) (use chats_ok_letters [OF ok] named_letters(1) [OF nm] in auto)
    have step: "indexed_peerNameChangedByDate s (letters_of (N(k := nm))) True k (letters_of N k) (links k) il = Some (il', Some r')"
      using il'(1) mode Some by (simp add: indexed_peerNameChangedByDate_def letters_upd)
    have "dom (links(k \<mapsto> r')) = dom links" using r(2) by auto
    then have "chats_ok s (N(k := nm)) (links(k \<mapsto> r')) il'"
      using ok nm il'(2,3) by (simp add: chats_ok_def letters_upd) (simp add: links_of_def)
    with step show thesis by (rule that)
  qed
qed

lemma chats_run_ok: "chats_run s N links il \<Longrightarrow> chats_ok s N links il"
proof (induction rule: chats_run.induct)
  case (new N s)
  then show ?case by (simp add: chats_ok_def indexed_new_ok)
next
  case (add s N links il k il' r)
  then show ?case using chats_ok_add [OF add.IH add.hyps(2)] by (metis option.inject prod.inject)
next
  case (move s N links il k r x il')
  then show ?case using chats_ok_move [OF move.IH move.hyps(2), of x] by (metis option.inject)
next
  case (move_other s N links il k x)
  show ?case by (rule chats_ok_move_other [OF move_other.IH move_other.hyps(2)])
next
  case (rename s N links il nm k il' r)
  then show ?case using chats_ok_rename [OF rename.IH rename.hyps(2), of k] by (metis option.inject prod.inject)
next
  case (remove s N links il k il')
  then show ?case using chats_ok_remove [OF remove.IH, of k] by (metis option.inject)
qed

text \<open>
  C18. In every state a list of chats by date reaches by additions, moves, renames and removals, a search for
  words, one of them not empty, returns exactly the listed chats for which each word starts a word of the
  name, each once and in the order of the sort positions; and no operation of the run fails.
\<close>

theorem chats_search_exact:
  assumes "chats_run s N links il" "\<exists>word \<in> set ws. word \<noteq> []"
  shows "set (indexed_filtered (words_of N) ws il)
      = {k \<in> set (cl_rows (il_list il)). \<forall>word \<in> set ws. \<exists>name \<in> set (words_of N k). prefix word name}
    \<and> distinct (indexed_filtered (words_of N) ws il) \<and> sorted_wrt (\<lambda>a b. s a \<ge> s b) (indexed_filtered (words_of N) ws il)
    \<and> set (cl_rows (il_list il)) = dom links
    \<and> (\<forall>k. links k = None \<longrightarrow> indexed_addToEnd s (letters_of N) k il \<noteq> None)
    \<and> (\<forall>k r x. links k = Some r \<longrightarrow> indexed_adjustByDate (s(k := x)) r il \<noteq> None)
    \<and> (\<forall>k nm. named nm \<longrightarrow> indexed_peerNameChangedByDate s (letters_of (N(k := nm))) True k (letters_of N k) (links k) il \<noteq> None)
    \<and> (\<forall>k. indexed_del (letters_of N) k il \<noteq> None)"
proof -
  have ok: "chats_ok s N links il" by (rule chats_run_ok [OF assms(1)])
  then have il: "by_date_ok s (letters_of N) (dom links) il" by (simp add: chats_ok_def)
  then have rows: "set (cl_rows (il_list il)) = dom links" by (simp add: indexed_ok_def list_is_def)
  have "hd name \<in> set (letters_of N k)" if "name \<in> set (words_of N k)" for k name
    using named_letters(2) [of "N k"] that ok by (auto simp: chats_ok_def letters_of_def words_of_def)
  note search = indexed_filtered_exact [OF il this assms(2)]
  have add: "\<forall>k. links k = None \<longrightarrow> indexed_addToEnd s (letters_of N) k il \<noteq> None" using chats_ok_add [OF ok] by (metis option.distinct(1))
  have move: "\<forall>k r x. links k = Some r \<longrightarrow> indexed_adjustByDate (s(k := x)) r il \<noteq> None" using chats_ok_move [OF ok] by (metis option.distinct(1))
  have rename: "\<forall>k nm. named nm \<longrightarrow> indexed_peerNameChangedByDate s (letters_of (N(k := nm))) True k (letters_of N k) (links k) il \<noteq> None"
    using chats_ok_rename [OF ok] by (metis option.distinct(1))
  have "\<forall>k. indexed_del (letters_of N) k il \<noteq> None" using chats_ok_remove [OF ok] by (metis option.distinct(1))
  with search rows add move rename show ?thesis by simp
qed


definition sample_names :: "nat \<Rightarrow> nat entry_names" where
  "sample_names k = (if k = 0 then ([[1, 2], [3]], [1, 3]) else ([[1, 5]], [1]))"

lemma sample_named: "named (sample_names k)"
proof (cases "k = 0")
  case True
  have "fillNames [[1, 2], [3 :: nat]] ([], []) = Some (sample_names k)"
    using True by (simp add: sample_names_def flat_set_insert_def lower_bound_def insert_at_def)
  then show ?thesis unfolding named_def by (intro exI [of _ "[[1, 2], [3]]"] conjI) (simp, assumption)
next
  case False
  have "fillNames [[1, 5 :: nat]] ([], []) = Some (sample_names k)"
    using False by (simp add: sample_names_def flat_set_insert_def lower_bound_def insert_at_def)
  then show ?thesis unfolding named_def by (intro exI [of _ "[[1, 5]]"] conjI) (simp, assumption)
qed

theorem chats_search_exact_witness:
  "\<exists>il :: (nat, nat) indexed_list. cl_rows (il_list il) = [0, 1] \<and> set (indexed_filtered (words_of sample_names) [[1], [1, 5]] il) = {1}"
proof -
  let ?s = sample_positions and ?add = "indexed_addToEnd sample_positions (letters_of sample_names)"
  have "\<exists>il1 r1 il2 r2. ?add 0 (indexed_new SortDate) = Some (il1, r1) \<and> ?add 1 il1 = Some (il2, r2) \<and> cl_rows (il_list il2) = [0, 1]"
    by (simp add: indexed_addToEnd_def indexed_new_def list_getRow_def list_new_def list_addToEnd_def list_adjustByDate_def find_from_def rfind_base_def
        list_rotate_def std_rotate_def sample_positions_def sample_names_def letters_of_def Let_def)
  then obtain il1 r1 il2 r2 where 1: "?add 0 (indexed_new SortDate) = Some (il1, r1)" "?add 1 il1 = Some (il2, r2)" "cl_rows (il_list il2) = [0, 1]"
    by blast
  have "chats_run ?s sample_names [0 \<mapsto> r1, 1 \<mapsto> r2] il2"
    by (rule chats_run.add [OF chats_run.add [OF chats_run.new [OF sample_named] _ 1(1)] _ 1(2)]) simp_all
  from chats_search_exact [OF this, of "[[1], [1, 5]]", THEN conjunct1] 1(3)
  have "set (indexed_filtered (words_of sample_names) [[1], [1, 5]] il2) = {1}" by (auto simp: words_of_def sample_names_def)
  with 1(3) show ?thesis by blast
qed


section \<open>Runs of a list by name\<close>

text \<open>The contacts: kept by name, with no links, and told of changed names by the other \<open>peerNameChanged\<close>.\<close>

inductive contacts_run :: "('k \<Rightarrow> 'n::linorder) \<Rightarrow> ('k \<Rightarrow> 'c::linorder entry_names) \<Rightarrow> ('k, 'c) indexed_list \<Rightarrow> bool" where
  new: "(\<And>k. named (N k)) \<Longrightarrow> contacts_run n N (indexed_new SortName)"
| add: "contacts_run n N il \<Longrightarrow> indexed_addByName s n (letters_of N) k il = Some (il', r) \<Longrightarrow> contacts_run n N il'"
| rename: "contacts_run n N il \<Longrightarrow> named nm
    \<Longrightarrow> indexed_peerNameChanged s (n(k := x)) (letters_of (N(k := nm))) True k (letters_of N k) None il = Some (il', r)
    \<Longrightarrow> contacts_run (n(k := x)) (N(k := nm)) il'"
| remove: "contacts_run n N il \<Longrightarrow> indexed_del (letters_of N) k il = Some il' \<Longrightarrow> contacts_run n N il'"

definition contacts_ok :: "('k \<Rightarrow> 'n::linorder) \<Rightarrow> ('k \<Rightarrow> 'c::linorder entry_names) \<Rightarrow> ('k, 'c) indexed_list \<Rightarrow> bool" where
  "contacts_ok n N il \<longleftrightarrow> (\<forall>k. named (N k)) \<and> by_name_ok n (letters_of N) (set (cl_rows (il_list il))) il"

lemma contacts_ok_letters: "contacts_ok n N il \<Longrightarrow> sorted_wrt (<) (letters_of N k) \<and> distinct (letters_of N k)"
  using named_letters(1) [of "N k"] by (auto simp: contacts_ok_def letters_of_def strict_sorted_iff)

lemma by_name_rows: "indexed_ok cmp mode L K il \<Longrightarrow> set (cl_rows (il_list il)) = K"
  by (simp add: indexed_ok_def list_is_def)

lemma contacts_okI: "(\<forall>k. named (N k)) \<Longrightarrow> by_name_ok n (letters_of N) K il \<Longrightarrow> contacts_ok n N il"
  using by_name_rows [of "name_before n" SortName "letters_of N" K il] by (simp add: contacts_ok_def)

lemma contacts_ok_add:
  assumes "contacts_ok n N il"
  obtains il' where "indexed_addByName s n (letters_of N) k il = Some (il', k)" "contacts_ok n N il'"
proof -
  have il: "by_name_ok n (letters_of N) (set (cl_rows (il_list il))) il" and N: "\<forall>k. named (N k)" using assms by (auto simp: contacts_ok_def)
  obtain il' where "indexed_addByName s n (letters_of N) k il = Some (il', k)" "by_name_ok n (letters_of N) (insert k (set (cl_rows (il_list il)))) il'"
    using indexed_addByName_ok [OF il] contacts_ok_letters [OF assms] by blast
  with that contacts_okI [OF N] show thesis by blast
qed

lemma contacts_ok_remove:
  assumes "contacts_ok n N il"
  obtains il' where "indexed_del (letters_of N) k il = Some il'" "contacts_ok n N il'"
proof -
  have il: "by_name_ok n (letters_of N) (set (cl_rows (il_list il))) il" and N: "\<forall>k. named (N k)" using assms by (auto simp: contacts_ok_def)
  obtain il' where "indexed_del (letters_of N) k il = Some il'" "by_name_ok n (letters_of N) (set (cl_rows (il_list il)) - {k}) il'"
    using indexed_del_ok [OF il] contacts_ok_letters [OF assms] by blast
  with that contacts_okI [OF N] show thesis by blast
qed

lemma contacts_ok_rename:
  assumes ok: "contacts_ok n N il" and nm: "named nm"
  obtains il' where "indexed_peerNameChanged s (n(k := x)) (letters_of (N(k := nm))) True k (letters_of N k) None il = Some (il', None)"
    "contacts_ok (n(k := x)) (N(k := nm)) il'"
proof -
  let ?K = "set (cl_rows (il_list il))" and ?n = "n(k := x)" and ?N = "N(k := nm)"
  have il: "by_name_ok n (letters_of N) ?K il" and N: "\<forall>k. named (?N k)" using ok nm by (auto simp: contacts_ok_def)
  then have mode: "il_mode il = SortName" "cl_mode (il_list il) = SortName" by (auto simp: indexed_ok_def list_is_def)
  have step: "indexed_peerNameChanged s ?n (letters_of ?N) True k (letters_of N k) None il =
    map_option (\<lambda>il1. (il1, None)) (indexed_adjustByName s ?n (letters_of ?N) k (letters_of N k) il)"
    using mode by (simp add: indexed_peerNameChanged_def)
  show thesis
  proof (cases "k \<in> ?K")
    case True
    have srt: "sorted_wrt (<) (letters_of N k)" "sorted_wrt (<) (snd nm)" using contacts_ok_letters [OF ok] named_letters(1) [OF nm] by auto
    obtain il' where il': "indexed_adjustByName s ?n (letters_of ?N) k (letters_of N k) il = Some il'" "by_name_ok ?n (letters_of ?N) ?K il'"
      unfolding letters_upd by (rule indexed_adjustByName_ok [OF il srt True])
    show thesis by (rule that [OF _ contacts_okI [OF N il'(2)]]) (simp add: step il'(1) del: fun_upd_apply)
  next
    case False
    then have "list_getRow k (il_list il) = None" using il list_is_getRow [of "name_before n" SortName ?K "il_list il" k] by (simp add: indexed_ok_def)
    then have "indexed_adjustByName s ?n (letters_of ?N) k (letters_of N k) il = Some il"
      using mode by (simp add: indexed_adjustByName_def list_adjustByName_def)
    moreover have "by_name_ok ?n (letters_of ?N) ?K il"
    proof -
      have "chats_with (letters_of ?N) ?K ch = chats_with (letters_of N) ?K ch" for ch using False by (auto simp: chats_with_def letters_upd)
      moreover have "list_is (name_before ?n) SortName ?K (il_list il) = list_is (name_before n) SortName ?K (il_list il)"
        by (rule list_is_cong) (use False in auto)
      moreover have "letter_is (name_before ?n) SortName (chats_with (letters_of N) ?K ch) f = letter_is (name_before n) SortName (chats_with (letters_of N) ?K ch) f" for ch f
        by (rule letter_is_cong) (use False in \<open>auto simp: chats_with_def\<close>)
      ultimately show ?thesis using il by (simp add: indexed_ok_def del: fun_upd_apply)
    qed
    ultimately have il': "indexed_adjustByName s ?n (letters_of ?N) k (letters_of N k) il = Some il" "by_name_ok ?n (letters_of ?N) ?K il" by blast+
    show thesis by (rule that [OF _ contacts_okI [OF N il'(2)]]) (simp add: step il'(1) del: fun_upd_apply)
  qed
qed

lemma contacts_run_ok: "contacts_run n N il \<Longrightarrow> contacts_ok n N il"
proof (induction rule: contacts_run.induct)
  case (new N n)
  then show ?case using contacts_okI [OF _ indexed_new_ok] by blast
next
  case (add n N il s k il' r)
  then show ?case using contacts_ok_add [OF add.IH, of s k] by (metis option.inject prod.inject)
next
  case (rename n N il nm s k x il' r)
  then show ?case using contacts_ok_rename [OF rename.IH rename.hyps(2), of s k x] by (metis option.inject prod.inject)
next
  case (remove n N il k il')
  then show ?case using contacts_ok_remove [OF remove.IH, of k] by (metis option.inject)
qed

text \<open>
  C19. The contacts stay in the order of their names through additions, renames and removals, each at the place
  its row says, and a search returns exactly the contacts each word of which starts a word of the name.
\<close>

theorem contacts_by_name:
  assumes "contacts_run n N il" "\<exists>word \<in> set ws. word \<noteq> []"
  shows "sorted_wrt (\<lambda>a b. n a \<le> n b) (cl_rows (il_list il)) \<and> distinct (cl_rows (il_list il))
    \<and> (\<forall>i < length (cl_rows (il_list il)). cl_pos (il_list il) (cl_rows (il_list il) ! i) = Some i)
    \<and> set (indexed_filtered (words_of N) ws il)
      = {k \<in> set (cl_rows (il_list il)). \<forall>word \<in> set ws. \<exists>name \<in> set (words_of N k). prefix word name}
    \<and> sorted_wrt (\<lambda>a b. n a \<le> n b) (indexed_filtered (words_of N) ws il)"
proof -
  have ok: "contacts_ok n N il" by (rule contacts_run_ok [OF assms(1)])
  then have il: "by_name_ok n (letters_of N) (set (cl_rows (il_list il))) il" by (simp add: contacts_ok_def)
  have "hd name \<in> set (letters_of N k)" if "name \<in> set (words_of N k)" for k name
    using named_letters(2) [of "N k"] that ok by (auto simp: contacts_ok_def letters_of_def words_of_def)
  note search = indexed_filtered_exact [OF il this assms(2)]
  have "list_is (name_before n) SortName (set (cl_rows (il_list il))) (il_list il)" using il by (simp add: indexed_ok_def)
  with search show ?thesis by (simp add: list_is_def list_ok_def)
qed

theorem contacts_by_name_witness:
  "\<exists>il :: (nat, nat) indexed_list. set (cl_rows (il_list il)) = {0, 1} \<and> sorted_wrt (\<lambda>a b. (5 - a :: nat) \<le> 5 - b) (cl_rows (il_list il))
    \<and> set (indexed_filtered (words_of sample_names) [[3]] il) = {0}"
proof -
  let ?n = "\<lambda>k :: nat. 5 - k" and ?add = "indexed_addByName sample_positions (\<lambda>k :: nat. 5 - k) (letters_of sample_names)"
  have "\<exists>il1 il2. ?add 0 (indexed_new SortName) = Some (il1, 0) \<and> ?add 1 il1 = Some (il2, 1) \<and> set (cl_rows (il_list il2)) = {0, 1}"
    by (simp add: indexed_addByName_def indexed_new_def list_getRow_def list_new_def list_addByName_def list_addToEnd_def list_adjustByName_def
        list_adjustRowByName_def find_from_def rfind_base_def list_rotate_def std_rotate_def sample_names_def letters_of_def Let_def insert_commute)
  then obtain il1 il2 where 1: "?add 0 (indexed_new SortName) = Some (il1, 0)" "?add 1 il1 = Some (il2, 1)" "set (cl_rows (il_list il2)) = {0, 1}"
    by blast
  have "contacts_run ?n sample_names il2" by (rule contacts_run.add [OF contacts_run.add [OF contacts_run.new [OF sample_named] 1(1)] 1(2)])
  from contacts_by_name [OF this, of "[[3]]"] 1(3)
  have "sorted_wrt (\<lambda>a b. ?n a \<le> ?n b) (cl_rows (il_list il2))" "set (indexed_filtered (words_of sample_names) [[3]] il2) = {0}"
    by (auto simp: words_of_def sample_names_def split: if_splits)
  with 1(3) show ?thesis by blast
qed

end
