(* ===== verification/PinnedChats.thy ===== *)
theory PinnedChats
  imports ChatList FlatMap
begin

text \<open>
  \<open>dialogs/dialogs_entry.{h,cpp}\<close>: the sort positions of an entry of the chat lists, and
  \<open>dialogs/dialogs_pinned_list.{h,cpp}\<close>: the pinned chats of a list, whose order the entries cache as
  indexes from which their sort positions come. What the entries of a kind answer (time, place fixed on
  top, whether they belong in a list) is given by an environment. A failed \<open>Expects\<close> or \<open>Assert\<close> is \<open>None\<close>.
\<close>

section \<open>Sort positions\<close>

type_synonym filter_id = int

record chat_entry =
  en_sortKeyInChatList :: u64
  en_sortKeyByDate :: u64
  en_pinnedIndex :: "(filter_id \<times> int) list"

record 'k entry_env =
  ee_supportMode :: bool
  ee_supportFixChatsOrder :: bool
  ee_timeId :: "'k \<Rightarrow> int"
  ee_fixedOnTopIndex :: "'k \<Rightarrow> int"
  ee_needUpdateInChatList :: "'k \<Rightarrow> bool"
  ee_folderKnown :: "'k \<Rightarrow> bool"

text \<open>The entries with the counter \<open>DialogsPosToTopShift\<close>.\<close>

record 'k entries =
  es_shift :: int
  es_entry :: "'k \<Rightarrow> chat_entry"

definition DialogPosFromDate :: "int \<Rightarrow> int \<Rightarrow> u64 \<times> int" where
  "DialogPosFromDate date shift =
     (if date = 0 then (0, shift)
      else (push_bit 32 (word_of_int date) OR word_of_int (shift + 1), shift + 1))"

definition FixedOnTopDialogPos :: "int \<Rightarrow> u64" where
  "FixedOnTopDialogPos index = 0xFFFFFFFFFFFF000F - word_of_int index"

definition PinnedDialogPos :: "int \<Rightarrow> u64" where
  "PinnedDialogPos pinnedIndex = 0xFFFFFFFF000000FF - word_of_int pinnedIndex"

definition lookupPinnedIndex :: "filter_id \<Rightarrow> chat_entry \<Rightarrow> int" where
  "lookupPinnedIndex filterId e =
     (if filterId \<noteq> 0 then (case flat_map_get (<) filterId (en_pinnedIndex e) of None \<Rightarrow> 0 | Some i \<Rightarrow> i)
      else case en_pinnedIndex e of
        [] \<Rightarrow> 0
      | (firstId, i) # _ \<Rightarrow> if firstId \<noteq> 0 then 0 else i)"

definition computeSortPosition :: "filter_id \<Rightarrow> chat_entry \<Rightarrow> u64" where
  "computeSortPosition filterId e =
     (let index = lookupPinnedIndex filterId e in if index \<noteq> 0 then PinnedDialogPos index else en_sortKeyByDate e)"

definition sortKeyInChatList :: "filter_id \<Rightarrow> chat_entry \<Rightarrow> u64" where
  "sortKeyInChatList filterId e = (if filterId \<noteq> 0 then computeSortPosition filterId e else en_sortKeyInChatList e)"

definition updateChatListSortPosition :: "'k entry_env \<Rightarrow> 'k \<Rightarrow> 'k entries \<Rightarrow> 'k entries" where
  "updateChatListSortPosition env k es =
     (let e = es_entry es k in
      if ee_supportMode env \<and> en_sortKeyInChatList e \<noteq> 0 \<and> ee_supportFixChatsOrder env then es
      else let (byDate, shift) = DialogPosFromDate (ee_timeId env k) (es_shift es);
               e1 = e\<lparr>en_sortKeyByDate := byDate\<rparr>;
               fixedIndex = ee_fixedOnTopIndex env k;
               e2 = e1\<lparr>en_sortKeyInChatList := (if fixedIndex \<noteq> 0 then FixedOnTopDialogPos fixedIndex else computeSortPosition 0 e1)\<rparr>;
               e3 = (if ee_needUpdateInChatList env k then e2 else e2\<lparr>en_sortKeyInChatList := 0, en_sortKeyByDate := 0\<rparr>)
           in \<lparr>es_shift = shift, es_entry = (es_entry es)(k := e3)\<rparr>)"

definition pinnedIndexChanged :: "'k entry_env \<Rightarrow> filter_id \<Rightarrow> 'k \<Rightarrow> 'k entries \<Rightarrow> 'k entries" where
  "pinnedIndexChanged env filterId k es =
     updateChatListSortPosition env k
       (if filterId = 0 \<and> ee_supportMode env
        then es\<lparr>es_entry := (es_entry es)(k := (es_entry es k)\<lparr>en_sortKeyInChatList := 0\<rparr>)\<rparr> else es)"

definition cachePinnedIndex :: "'k entry_env \<Rightarrow> filter_id \<Rightarrow> 'k \<Rightarrow> int \<Rightarrow> 'k entries \<Rightarrow> 'k entries" where
  "cachePinnedIndex env filterId k index es =
     (let m = en_pinnedIndex (es_entry es k);
          was = (case flat_map_get (<) filterId m of None \<Rightarrow> 0 | Some i \<Rightarrow> i) in
      if index = was then es
      else let m1 = (if index = 0 then fst (flat_map_remove (<) filterId m)
                     else if was = 0 then fst (flat_map_emplace (<) filterId index m)
                     else fst (flat_map_insert_or_assign (<) filterId index m))
           in pinnedIndexChanged env filterId k (es\<lparr>es_entry := (es_entry es)(k := (es_entry es k)\<lparr>en_pinnedIndex := m1\<rparr>)\<rparr>))"

section \<open>The pinned list\<close>

record 'k pinned_list =
  pl_filterId :: filter_id
  pl_limit :: int
  pl_data :: "'k list"

type_synonym 'k pinned_state = "'k entries \<times> 'k pinned_list"

definition pinned_new :: "filter_id \<Rightarrow> int \<Rightarrow> 'k pinned_list option" where
  "pinned_new filterId limit = (if limit > 0 then Some \<lparr>pl_filterId = filterId, pl_limit = limit, pl_data = []\<rparr> else None)"

definition find_key :: "'k \<Rightarrow> 'k list \<Rightarrow> nat" where
  "find_key k xs = length (takeWhile (\<lambda>x. x \<noteq> k) xs)"

text \<open>The loops that cache the indexes of the rows from a position on.\<close>

fun cache_from :: "'k entry_env \<Rightarrow> filter_id \<Rightarrow> int \<Rightarrow> 'k list \<Rightarrow> 'k entries \<Rightarrow> 'k entries" where
  "cache_from env f i [] es = es"
| "cache_from env f i (k # ks) es = cache_from env f (i + 1) ks (cachePinnedIndex env f k (i + 1) es)"

text \<open>\<open>setPinned(key, false)\<close>.\<close>

definition pinned_unset :: "'k entry_env \<Rightarrow> 'k \<Rightarrow> 'k pinned_state \<Rightarrow> 'k pinned_state option" where
  "pinned_unset env key = (\<lambda>(es, pl).
     if \<not> (ee_folderKnown env key \<or> pl_filterId pl \<noteq> 0) then None
     else let index = find_key key (pl_data pl); f = pl_filterId pl in
       if index = length (pl_data pl) then Some (es, pl)
       else let xs = erase_at index (pl_data pl);
                es1 = cachePinnedIndex env f key 0 es
            in Some (cache_from env f (int index) (drop index xs) es1, pl\<lparr>pl_data := xs\<rparr>))"

lemma find_key_split: "k \<notin> set us \<Longrightarrow> find_key k (us @ k # vs) = length us"
  by (induction us) (auto simp: find_key_def)

lemma find_key_absent: "k \<notin> set xs \<Longrightarrow> find_key k xs = length xs"
  by (induction xs) (auto simp: find_key_def)

lemma find_key_less: "find_key k xs < length xs \<longleftrightarrow> k \<in> set xs"
  by (induction xs) (auto simp: find_key_def)

lemma pinned_unset_shorter:
  assumes "pinned_unset env (List.last (pl_data pl)) (es, pl) = Some (es', pl')" "pl_data pl \<noteq> []"
  shows "length (pl_data pl') < length (pl_data pl)"
proof -
  have "find_key (List.last (pl_data pl)) (pl_data pl) < length (pl_data pl)" using assms(2) by (simp add: find_key_less)
  then show ?thesis using assms by (auto simp: pinned_unset_def Let_def length_erase_at split: if_splits)
qed

function pinned_applyLimit :: "'k entry_env \<Rightarrow> int \<Rightarrow> 'k pinned_state \<Rightarrow> 'k pinned_state option" where
  "pinned_applyLimit env limit (es, pl) =
     (if limit < 0 then None
      else if int (length (pl_data pl)) > limit
      then case pinned_unset env (List.last (pl_data pl)) (es, pl) of
          None \<Rightarrow> None
        | Some (es1, pl1) \<Rightarrow> pinned_applyLimit env limit (es1, pl1)
      else Some (es, pl))"
  by pat_completeness auto

termination
  by (relation "measure (\<lambda>(env, limit, es, pl). length (pl_data pl))") (auto dest: pinned_unset_shorter)

definition pinned_addGetPosition :: "'k entry_env \<Rightarrow> 'k \<Rightarrow> 'k pinned_state \<Rightarrow> ('k pinned_state \<times> nat) option" where
  "pinned_addGetPosition env key = (\<lambda>(es, pl).
     let already = find_key key (pl_data pl) in
     if already \<noteq> length (pl_data pl) then Some ((es, pl), already)
     else case pinned_applyLimit env (pl_limit pl - 1) (es, pl) of
         None \<Rightarrow> None
       | Some (es1, pl1) \<Rightarrow>
           let position = length (pl_data pl1) in
           Some ((cachePinnedIndex env (pl_filterId pl1) key (int position + 1) es1, pl1\<lparr>pl_data := pl_data pl1 @ [key]\<rparr>), position))"

definition pinned_addPinned :: "'k entry_env \<Rightarrow> 'k \<Rightarrow> 'k pinned_state \<Rightarrow> 'k pinned_state option" where
  "pinned_addPinned env key st = (if \<not> ee_folderKnown env key then None else map_option fst (pinned_addGetPosition env key st))"

definition pinned_setPinned :: "'k entry_env \<Rightarrow> 'k \<Rightarrow> bool \<Rightarrow> 'k pinned_state \<Rightarrow> 'k pinned_state option" where
  "pinned_setPinned env key pinned = (\<lambda>(es, pl).
     if \<not> (ee_folderKnown env key \<or> pl_filterId pl \<noteq> 0) then None
     else if pinned
     then case pinned_addGetPosition env key (es, pl) of
         None \<Rightarrow> None
       | Some ((es1, pl1), position) \<Rightarrow>
           if position \<noteq> 0
           then let xs = std_rotate 0 position (position + 1) (pl_data pl1)
                in Some (cache_from env (pl_filterId pl1) 0 (take (position + 1) xs) es1, pl1\<lparr>pl_data := xs\<rparr>)
           else Some (es1, pl1)
     else pinned_unset env key (es, pl))"

definition pinned_clear :: "'k entry_env \<Rightarrow> 'k pinned_state \<Rightarrow> 'k pinned_state option" where
  "pinned_clear env st = pinned_applyLimit env 0 st"

definition pinned_setLimit :: "'k entry_env \<Rightarrow> int \<Rightarrow> 'k pinned_state \<Rightarrow> 'k pinned_state option" where
  "pinned_setLimit env limit = (\<lambda>(es, pl).
     if \<not> limit > 0 then None
     else if pl_limit pl = limit then Some (es, pl)
     else pinned_applyLimit env limit (es, pl\<lparr>pl_limit := limit\<rparr>))"

text \<open>\<open>applyList\<close> on the answer of the server: peers with no id are skipped.\<close>

fun pinned_addAll :: "'k entry_env \<Rightarrow> 'k option list \<Rightarrow> 'k pinned_state \<Rightarrow> 'k pinned_state option" where
  "pinned_addAll env [] st = Some st"
| "pinned_addAll env (None # peers) st = pinned_addAll env peers st"
| "pinned_addAll env (Some key # peers) st = Option.bind (pinned_addPinned env key st) (pinned_addAll env peers)"

definition pinned_applyList :: "'k entry_env \<Rightarrow> 'k option list \<Rightarrow> 'k pinned_state \<Rightarrow> 'k pinned_state option" where
  "pinned_applyList env peers st = Option.bind (pinned_clear env st) (pinned_addAll env peers)"

text \<open>\<open>applyList\<close> on the chats of a filter; the old keys that are gone are unpinned.\<close>

fun uncache :: "'k entry_env \<Rightarrow> filter_id \<Rightarrow> 'k list \<Rightarrow> 'k list \<Rightarrow> 'k entries \<Rightarrow> 'k entries" where
  "uncache env f xs [] es = es"
| "uncache env f xs (k # old) es = uncache env f xs old (if k \<notin> set xs then cachePinnedIndex env f k 0 es else es)"

definition pinned_applyHistories :: "'k entry_env \<Rightarrow> 'k list \<Rightarrow> 'k pinned_state \<Rightarrow> 'k pinned_state option" where
  "pinned_applyHistories env xs = (\<lambda>(es, pl).
     if pl_filterId pl = 0 then None
     else Some (uncache env (pl_filterId pl) xs (pl_data pl) (cache_from env (pl_filterId pl) 0 xs es), pl\<lparr>pl_data := xs\<rparr>))"

definition pinned_reorder :: "'k entry_env \<Rightarrow> 'k \<Rightarrow> 'k \<Rightarrow> 'k pinned_state \<Rightarrow> 'k pinned_state option" where
  "pinned_reorder env key1 key2 = (\<lambda>(es, pl).
     let index1 = find_key key1 (pl_data pl); index2 = find_key key2 (pl_data pl); f = pl_filterId pl in
     if \<not> (index1 < length (pl_data pl) \<and> index2 < length (pl_data pl) \<and> index1 \<noteq> index2) then None
     else Some (cachePinnedIndex env f key2 (int index1 + 1) (cachePinnedIndex env f key1 (int index2 + 1) es),
       pl\<lparr>pl_data := swap_at index1 index2 (pl_data pl)\<rparr>))"


section \<open>Cached indexes\<close>

definition pin_map :: "'k entries \<Rightarrow> 'k \<Rightarrow> filter_id \<rightharpoonup> int" where
  "pin_map es k = map_of (en_pinnedIndex (es_entry es k))"

definition entries_ok :: "'k entries \<Rightarrow> bool" where
  "entries_ok es \<longleftrightarrow> 0 \<le> es_shift es
     \<and> (\<forall>k. key_sorted (<) (en_pinnedIndex (es_entry es k)) \<and> (\<forall>(f, i) \<in> set (en_pinnedIndex (es_entry es k)). 0 \<le> f \<and> i \<noteq> 0))
     \<and> (es_shift es < 2 ^ 31 \<longrightarrow> (\<forall>k. en_sortKeyByDate (es_entry es k) < 2 ^ 63))"

definition env_ok :: "'k entry_env \<Rightarrow> bool" where
  "env_ok env \<longleftrightarrow> (\<forall>k. 0 \<le> ee_timeId env k \<and> ee_timeId env k < 2 ^ 31)"

lemma DialogPosFromDate_bound:
  assumes "0 \<le> date" "date < 2 ^ 31" "0 \<le> shift"
  shows "0 \<le> snd (DialogPosFromDate date shift)" "shift \<le> snd (DialogPosFromDate date shift)"
    "snd (DialogPosFromDate date shift) < 2 ^ 31 \<Longrightarrow> fst (DialogPosFromDate date shift) < 2 ^ 63"
proof -
  show "0 \<le> snd (DialogPosFromDate date shift)" "shift \<le> snd (DialogPosFromDate date shift)" using assms by (simp_all add: DialogPosFromDate_def)
  assume b: "snd (DialogPosFromDate date shift) < 2 ^ 31"
  show "fst (DialogPosFromDate date shift) < 2 ^ 63"
  proof (cases "date = 0")
    case True
    then show ?thesis by (simp add: DialogPosFromDate_def)
  next
    case False
    define t where "t = shift + 1"
    have t: "0 \<le> t" "t < 2 ^ 31" using False b assms by (simp_all add: DialogPosFromDate_def t_def)
    have u: "uint (word_of_int date :: u64) = date" "uint (word_of_int t :: u64) = t"
      using assms t by (simp_all add: uint_word_of_int_eq take_bit_int_eq_self)
    have "take_bit 64 (push_bit 32 date) = push_bit 32 date" using assms by (intro take_bit_int_eq_self) (simp_all add: push_bit_eq_mult)
    then have "uint (push_bit 32 (word_of_int date) OR word_of_int t :: u64) = push_bit 32 date OR t"
      by (simp add: unsigned_or_eq unsigned_push_bit_eq u)
    also have "\<dots> < 2 ^ 63" using assms t by (intro OR_upper) (simp_all add: push_bit_eq_mult)
    finally show ?thesis using False by (simp add: DialogPosFromDate_def word_less_def t_def)
  qed
qed

lemma lookupPinnedIndex_map:
  assumes "entries_ok es" "0 \<le> f"
  shows "lookupPinnedIndex f (es_entry es k) = (case pin_map es k f of None \<Rightarrow> 0 | Some i \<Rightarrow> i)"
proof -
  let ?m = "en_pinnedIndex (es_entry es k)"
  have m: "key_sorted (<) ?m" "\<forall>(g, i) \<in> set ?m. 0 \<le> g \<and> i \<noteq> 0" using assms(1) by (auto simp: entries_ok_def)
  show ?thesis
  proof (cases "f = 0")
    case False
    then show ?thesis using less_total.find_get [OF m(1)] by (simp add: lookupPinnedIndex_def pin_map_def)
  next
    case True
    show ?thesis
    proof (cases ?m)
      case Nil
      with True show ?thesis by (simp add: lookupPinnedIndex_def pin_map_def)
    next
      case (Cons p m')
      obtain g i where p: "p = (g, i)" by fastforce
      have "map_of m' 0 = None"
      proof (rule ccontr)
        assume "map_of m' 0 \<noteq> None"
        then obtain j where "(0, j) \<in> set m'" by (meson map_of_SomeD not_None_eq)
        then have "g < 0" using m(1) Cons p by auto
        then show False using m(2) Cons p by auto
      qed
      with True Cons p show ?thesis by (simp add: lookupPinnedIndex_def pin_map_def)
    qed
  qed
qed

lemma update_position_ok:
  assumes "entries_ok es" "env_ok env"
  shows "entries_ok (updateChatListSortPosition env k es)" "pin_map (updateChatListSortPosition env k es) = pin_map es"
    "es_shift es \<le> es_shift (updateChatListSortPosition env k es)"
proof -
  let ?p = "DialogPosFromDate (ee_timeId env k) (es_shift es)"
  have p: "0 \<le> snd ?p" "es_shift es \<le> snd ?p" "snd ?p < 2 ^ 31 \<Longrightarrow> fst ?p < 2 ^ 63"
    using DialogPosFromDate_bound [of "ee_timeId env k" "es_shift es"] assms by (auto simp: env_ok_def entries_ok_def)
  note upd = updateChatListSortPosition_def Let_def split_beta
  show "es_shift es \<le> es_shift (updateChatListSortPosition env k es)" using p by (simp add: upd)
  show "pin_map (updateChatListSortPosition env k es) = pin_map es" by (auto simp: upd pin_map_def fun_eq_iff)
  show "entries_ok (updateChatListSortPosition env k es)" using assms(1) p by (auto simp: upd entries_ok_def)
qed


lemma pinnedIndexChanged_ok:
  assumes "entries_ok es" "env_ok env"
  shows "entries_ok (pinnedIndexChanged env f k es)" "pin_map (pinnedIndexChanged env f k es) = pin_map es"
    "es_shift es \<le> es_shift (pinnedIndexChanged env f k es)"
proof -
  let ?es = "es\<lparr>es_entry := (es_entry es)(k := (es_entry es k)\<lparr>en_sortKeyInChatList := 0\<rparr>)\<rparr>"
  have "entries_ok ?es" "pin_map ?es = pin_map es" using assms(1) by (auto simp: entries_ok_def pin_map_def fun_eq_iff)
  with assms update_position_ok [of ?es env k] update_position_ok [of es env k]
  show "entries_ok (pinnedIndexChanged env f k es)" "pin_map (pinnedIndexChanged env f k es) = pin_map es"
    "es_shift es \<le> es_shift (pinnedIndexChanged env f k es)" by (auto simp: pinnedIndexChanged_def)
qed

text \<open>Caching an index changes the entry of \<open>k\<close> for this list, and nothing else of the indexes.\<close>

definition repinned :: "filter_id \<Rightarrow> ('k \<Rightarrow> int option) \<Rightarrow> 'k entries \<Rightarrow> 'k entries \<Rightarrow> bool" where
  "repinned f p es es' \<longleftrightarrow> entries_ok es' \<and> es_shift es \<le> es_shift es'
     \<and> (\<forall>k. pin_map es' k f = p k) \<and> (\<forall>k g. g \<noteq> f \<longrightarrow> pin_map es' k g = pin_map es k g)"

lemma repinned_trans: "repinned f p es es1 \<Longrightarrow> repinned f q es1 es2 \<Longrightarrow> repinned f q es es2"
  by (fastforce simp: repinned_def)

lemma cachePinnedIndex_ok:
  assumes es: "entries_ok es" and env: "env_ok env" and f: "0 \<le> f"
  shows "repinned f (\<lambda>k'. if k' = k then (if index = 0 then None else Some index) else pin_map es k' f) es (cachePinnedIndex env f k index es)"
proof -
  let ?m = "en_pinnedIndex (es_entry es k)"
  let ?was = "case flat_map_get (<) f ?m of None \<Rightarrow> 0 | Some i \<Rightarrow> i"
  have m: "key_sorted (<) ?m" "\<forall>(g, i) \<in> set ?m. 0 \<le> g \<and> i \<noteq> 0" using es by (auto simp: entries_ok_def)
  have get: "flat_map_get (<) f ?m = pin_map es k f" using less_total.find_get [OF m(1)] by (simp add: pin_map_def)
  have nz: "pin_map es k f \<noteq> Some 0" using m(2) by (auto simp: pin_map_def dest: map_of_SomeD)
  show ?thesis
  proof (cases "index = ?was")
    case True
    then have "cachePinnedIndex env f k index es = es" by (simp add: cachePinnedIndex_def)
    moreover have "pin_map es k f = (if index = 0 then None else Some index)" using True get nz by (auto split: option.splits)
    ultimately show ?thesis using es by (simp add: repinned_def)
  next
    case False
    define m1 where "m1 = (if index = 0 then fst (flat_map_remove (<) f ?m)
      else if ?was = 0 then fst (flat_map_emplace (<) f index ?m) else fst (flat_map_insert_or_assign (<) f index ?m))"
    have was: "?was = 0 \<longleftrightarrow> map_of ?m f = None" using get nz by (auto simp: pin_map_def split: option.splits)
    have srt: "key_sorted (<) m1" using m(1) less_total.remove_filter [OF m(1)] less_total.insert_sorted [OF m(1)] less_total.insert_or_assign_lookup [OF m(1)]
      by (auto simp: m1_def flat_map_emplace_def sorted_wrt_filter)
    have at: "map_of m1 = (map_of ?m)(f := if index = 0 then None else Some index)"
      using was less_total.remove_filter [OF m(1)] less_total.insert_lookup [OF m(1)] less_total.insert_or_assign_lookup [OF m(1)]
      by (auto simp: m1_def flat_map_emplace_def map_of_filter_key domIff)
    have "0 \<le> g \<and> i \<noteq> 0" if "(g, i) \<in> set m1" for g i
    proof -
      have "map_of m1 g = Some i" using that less_total.key_sorted_distinct [OF srt] by simp
      then show ?thesis using at m(2) f by (auto split: if_splits dest: map_of_SomeD)
    qed
    then have m1: "key_sorted (<) m1" "\<forall>(g, i) \<in> set m1. 0 \<le> g \<and> i \<noteq> 0" using srt by auto
    let ?es = "es\<lparr>es_entry := (es_entry es)(k := (es_entry es k)\<lparr>en_pinnedIndex := m1\<rparr>)\<rparr>"
    have ok1: "entries_ok ?es" using es m1 by (simp add: entries_ok_def)
    have pm: "pin_map ?es k' g = (if k' = k \<and> g = f then (if index = 0 then None else Some index) else pin_map es k' g)" for k' g
      by (simp add: pin_map_def at)
    have step: "cachePinnedIndex env f k index es = pinnedIndexChanged env f k ?es" using False by (simp add: cachePinnedIndex_def m1_def Let_def)
    show ?thesis unfolding step repinned_def using pinnedIndexChanged_ok [OF ok1 env, of f k] pm by simp
  qed
qed

lemma cache_from_ok:
  assumes "entries_ok es" "env_ok env" "0 \<le> f" "0 \<le> i" "distinct ks"
  shows "repinned f (\<lambda>k. if k \<in> set ks then Some (i + int (find_key k ks) + 1) else pin_map es k f) es (cache_from env f i ks es)"
  using assms
proof (induction ks arbitrary: i es)
  case Nil
  then show ?case by (simp add: repinned_def)
next
  case (Cons k ks)
  let ?es = "cachePinnedIndex env f k (i + 1) es"
  note one = cachePinnedIndex_ok [OF Cons.prems(1-3), of k "i + 1"]
  have "repinned f (\<lambda>k'. if k' \<in> set ks then Some (i + 1 + int (find_key k' ks) + 1) else pin_map ?es k' f) ?es (cache_from env f (i + 1) ks ?es)"
    by (rule Cons.IH) (use one Cons.prems in \<open>auto simp: repinned_def\<close>)
  note both = repinned_trans [OF one this]
  have "(\<lambda>k'. if k' \<in> set ks then Some (i + 1 + int (find_key k' ks) + 1) else pin_map ?es k' f)
    = (\<lambda>k'. if k' \<in> set (k # ks) then Some (i + int (find_key k' (k # ks)) + 1) else pin_map es k' f)"
    using one Cons.prems(4,5) by (auto simp: fun_eq_iff repinned_def find_key_def)
  with both show ?case by simp
qed

section \<open>The operations keep the indexes\<close>

definition pinned_at :: "'k list \<Rightarrow> 'k \<Rightarrow> int option" where
  "pinned_at xs k = (if k \<in> set xs then Some (int (find_key k xs) + 1) else None)"

lemma pinned_at_append:
  "pinned_at (us @ vs) k
    = (if k \<in> set us then pinned_at us k else if k \<in> set vs then Some (int (length us) + int (find_key k vs) + 1) else None)"
proof -
  have "find_key k (us @ vs) = (if k \<in> set us then find_key k us else length us + find_key k vs)"
    by (induction us) (auto simp: find_key_def)
  then show ?thesis by (simp add: pinned_at_def)
qed

definition pinned_ok :: "'k entry_env \<Rightarrow> 'k pinned_state \<Rightarrow> bool" where
  "pinned_ok env st \<longleftrightarrow> (case st of (es, pl) \<Rightarrow> entries_ok es \<and> 0 \<le> pl_filterId pl \<and> 0 < pl_limit pl \<and> distinct (pl_data pl)
     \<and> (\<forall>k. pin_map es k (pl_filterId pl) = pinned_at (pl_data pl) k) \<and> (\<forall>k \<in> set (pl_data pl). ee_folderKnown env k \<or> pl_filterId pl \<noteq> 0))"

definition pinned_to :: "'k entry_env \<Rightarrow> 'k list \<Rightarrow> 'k pinned_state \<Rightarrow> 'k pinned_state \<Rightarrow> bool" where
  "pinned_to env xs st st' \<longleftrightarrow> pinned_ok env st' \<and> snd st' = (snd st)\<lparr>pl_data := xs\<rparr> \<and> es_shift (fst st) \<le> es_shift (fst st')
     \<and> (\<forall>k g. g \<noteq> pl_filterId (snd st) \<longrightarrow> pin_map (fst st') k g = pin_map (fst st) k g)"

lemma pinned_toI:
  assumes "pinned_ok env (es, pl)" "repinned (pl_filterId pl) (pinned_at xs) es es'" "distinct xs"
    "\<forall>k \<in> set xs. k \<in> set (pl_data pl) \<or> ee_folderKnown env k \<or> pl_filterId pl \<noteq> 0"
  shows "pinned_to env xs (es, pl) (es', pl\<lparr>pl_data := xs\<rparr>)"
  using assms by (auto simp: pinned_to_def pinned_ok_def repinned_def)

lemma pinned_to_trans: "pinned_to env xs st st1 \<Longrightarrow> pinned_to env ys st1 st2 \<Longrightarrow> pinned_to env ys st st2"
  by (auto simp: pinned_to_def)

lemma pinned_to_self: "pinned_ok env st \<Longrightarrow> pinned_to env (pl_data (snd st)) st st"
  by (simp add: pinned_to_def)

lemma pinned_unset_ok:
  assumes ok: "pinned_ok env (es, pl)" and env: "env_ok env" and k: "ee_folderKnown env k \<or> pl_filterId pl \<noteq> 0"
  obtains st' where "pinned_unset env k (es, pl) = Some st'" "pinned_to env (remove1 k (pl_data pl)) (es, pl) st'"
proof (cases "k \<in> set (pl_data pl)")
  case False
  then have "pinned_unset env k (es, pl) = Some (es, pl)" using k by (simp add: pinned_unset_def find_key_absent)
  with that pinned_to_self [OF ok] False show thesis by (simp add: remove1_idem)
next
  case True
  let ?f = "pl_filterId pl"
  have es: "entries_ok es" "0 \<le> ?f" "distinct (pl_data pl)" "\<forall>k. pin_map es k ?f = pinned_at (pl_data pl) k" using ok by (auto simp: pinned_ok_def)
  obtain us vs where d: "pl_data pl = us @ k # vs" "k \<notin> set us" using split_list_first [OF True] by blast
  then have d': "distinct us" "distinct vs" "set us \<inter> set vs = {}" "k \<notin> set vs" using es(3) by auto
  have i: "find_key k (pl_data pl) = length us" by (simp add: d find_key_split)
  let ?es1 = "cachePinnedIndex env ?f k 0 es" and ?es2 = "cache_from env ?f (int (length us)) vs (cachePinnedIndex env ?f k 0 es)"
  have unset: "pinned_unset env k (es, pl) = Some (?es2, pl\<lparr>pl_data := us @ vs\<rparr>)"
    using k by (simp add: pinned_unset_def Let_def i) (simp add: d erase_at_append)
  note one = cachePinnedIndex_ok [OF es(1) env es(2), of k 0]
  have two: "repinned ?f (\<lambda>k'. if k' \<in> set vs then Some (int (length us) + int (find_key k' vs) + 1) else pin_map ?es1 k' ?f) ?es1 ?es2"
    by (rule cache_from_ok) (use one env es(2) d' in \<open>auto simp: repinned_def\<close>)
  have "(\<lambda>k'. if k' \<in> set vs then Some (int (length us) + int (find_key k' vs) + 1) else pin_map ?es1 k' ?f) = pinned_at (us @ vs)"
  proof
    fix k'
    have "pinned_at (us @ vs) k' = (if k' \<in> set us then pinned_at us k' else if k' \<in> set vs then Some (int (length us) + int (find_key k' vs) + 1) else None)"
      "pinned_at (us @ k # vs) k' = (if k' \<in> set us then pinned_at us k' else if k' \<in> set (k # vs) then Some (int (length us) + int (find_key k' (k # vs)) + 1) else None)"
      by (rule pinned_at_append)+
    then show "(if k' \<in> set vs then Some (int (length us) + int (find_key k' vs) + 1) else pin_map ?es1 k' ?f) = pinned_at (us @ vs) k'"
      using one es(4) d d' by (auto simp: repinned_def)
  qed
  then have "repinned ?f (pinned_at (us @ vs)) es ?es2" using repinned_trans [OF one two] by simp
  then have "pinned_to env (us @ vs) (es, pl) (?es2, pl\<lparr>pl_data := us @ vs\<rparr>)" by (rule pinned_toI [OF ok]) (use d d' in auto)
  moreover have "remove1 k (pl_data pl) = us @ vs" using d by (simp add: remove1_append)
  ultimately show thesis using that unset by simp
qed


lemma pinned_applyLimit_ok:
  assumes "pinned_ok env st" "env_ok env" "0 \<le> limit"
  shows "\<exists>st'. pinned_applyLimit env limit st = Some st' \<and> pinned_to env (take (nat limit) (pl_data (snd st))) st st'"
  using assms
proof (induction env limit st rule: pinned_applyLimit.induct)
  case (1 env limit es pl)
  show ?case
  proof (cases "int (length (pl_data pl)) > limit")
    case False
    then have "take (nat limit) (pl_data pl) = pl_data pl" by simp
    then show ?thesis using False 1(2,4) pinned_to_self [OF 1(2)] by simp
  next
    case True
    let ?k = "List.last (pl_data pl)"
    have ne: "pl_data pl \<noteq> []" using True 1(4) by auto
    then have "?k \<in> set (pl_data pl)" "distinct (pl_data pl)" and fk: "ee_folderKnown env ?k \<or> pl_filterId pl \<noteq> 0" using 1(2) by (auto simp: pinned_ok_def)
    then have rem: "remove1 ?k (pl_data pl) = butlast (pl_data pl)"
      by (metis append_butlast_last_id distinct_butlast ne not_distinct_conv_prefix remove1_append remove1.simps(2) append_Nil2 distinct_append disjoint_insert(2) list.simps(15))
    obtain st1 where st1: "pinned_unset env ?k (es, pl) = Some st1" "pinned_to env (butlast (pl_data pl)) (es, pl) st1"
      using pinned_unset_ok [OF 1(2,3) fk] rem by metis
    obtain es1 pl1 where p: "st1 = (es1, pl1)" by fastforce
    have data1: "pl_data pl1 = butlast (pl_data pl)" "pinned_ok env (es1, pl1)" using st1(2) p by (auto simp: pinned_to_def)
    obtain st' where st': "pinned_applyLimit env limit (es1, pl1) = Some st'" "pinned_to env (take (nat limit) (pl_data pl1)) (es1, pl1) st'"
      using 1(1) [OF _ True st1(1) p [symmetric]] data1(2) 1(3,4) by auto
    have "take (nat limit) (pl_data pl1) = take (nat limit) (pl_data pl)" using True 1(4) data1(1) by (simp add: butlast_conv_take min_def)
    then have "pinned_to env (take (nat limit) (pl_data pl)) (es, pl) st'" using pinned_to_trans [OF st1(2)] st'(2) p by simp
    moreover have "pinned_applyLimit env limit (es, pl) = Some st'" using st1(1) p st'(1) True 1(4) by simp
    ultimately show ?thesis by simp
  qed
qed

lemma pinned_add_ok:
  assumes ok: "pinned_ok env (es, pl)" and env: "env_ok env" and k: "ee_folderKnown env k \<or> pl_filterId pl \<noteq> 0"
  obtains st' where "pinned_addGetPosition env k (es, pl) = Some (st', find_key k (pl_data (snd st')))"
    "pinned_to env (if k \<in> set (pl_data pl) then pl_data pl else take (nat (pl_limit pl - 1)) (pl_data pl) @ [k]) (es, pl) st'"
proof (cases "k \<in> set (pl_data pl)")
  case True
  then have "find_key k (pl_data pl) \<noteq> length (pl_data pl)" using find_key_less [of k "pl_data pl"] by simp
  then have "pinned_addGetPosition env k (es, pl) = Some ((es, pl), find_key k (pl_data pl))" by (simp add: pinned_addGetPosition_def)
  with that [of "(es, pl)"] pinned_to_self [OF ok] True show thesis by simp
next
  case False
  let ?xs = "take (nat (pl_limit pl - 1)) (pl_data pl)" and ?f = "pl_filterId pl"
  have lim: "0 \<le> pl_limit pl - 1" using ok by (auto simp: pinned_ok_def)
  obtain es1 pl1 where 1: "pinned_applyLimit env (pl_limit pl - 1) (es, pl) = Some (es1, pl1)" "pinned_to env ?xs (es, pl) (es1, pl1)"
    using pinned_applyLimit_ok [OF ok env lim] by auto
  then have pl1: "pl_data pl1 = ?xs" "pl_filterId pl1 = ?f" "pinned_ok env (es1, pl1)" by (auto simp: pinned_to_def)
  then have es1: "entries_ok es1" "0 \<le> ?f" "distinct ?xs" "\<forall>k. pin_map es1 k ?f = pinned_at ?xs k" by (auto simp: pinned_ok_def)
  have nk: "k \<notin> set ?xs" using False by (meson in_set_takeD)
  let ?es2 = "cachePinnedIndex env ?f k (int (length ?xs) + 1) es1"
  have nz: "int (length ?xs) + 1 \<noteq> 0" by linarith
  have "repinned ?f (\<lambda>k'. if k' = k then Some (int (length ?xs) + 1) else pin_map es1 k' ?f) es1 ?es2"
    using cachePinnedIndex_ok [OF es1(1) env es1(2), of k "int (length ?xs) + 1"] by (simp only: nz if_False)
  moreover have "(\<lambda>k'. if k' = k then Some (int (length ?xs) + 1) else pin_map es1 k' ?f) = pinned_at (?xs @ [k])"
    using nk es1(4) by (auto simp: fun_eq_iff pinned_at_append) (simp_all add: find_key_def pinned_at_def)
  ultimately have "repinned (pl_filterId pl1) (pinned_at (?xs @ [k])) es1 ?es2" using pl1(2) by simp
  then have "pinned_to env (?xs @ [k]) (es1, pl1) (?es2, pl1\<lparr>pl_data := ?xs @ [k]\<rparr>)"
    by (rule pinned_toI [OF pl1(3)]) (use es1(3) nk k pl1 in auto)
  note to = pinned_to_trans [OF 1(2) this]
  have "pinned_addGetPosition env k (es, pl) = Some ((?es2, pl1\<lparr>pl_data := ?xs @ [k]\<rparr>), length ?xs)"
    using False 1(1) pl1(1,2) by (simp add: pinned_addGetPosition_def find_key_absent Let_def)
  moreover have "find_key k (?xs @ [k]) = length ?xs" using find_key_split [OF nk] by simp
  ultimately show thesis using that [of "(?es2, pl1\<lparr>pl_data := ?xs @ [k]\<rparr>)"] to False by simp
qed

lemma pinned_setPinned_ok:
  assumes ok: "pinned_ok env (es, pl)" and env: "env_ok env" and k: "ee_folderKnown env k \<or> pl_filterId pl \<noteq> 0"
  obtains st' where "pinned_setPinned env k True (es, pl) = Some st'"
    "pinned_to env (k # (if k \<in> set (pl_data pl) then remove1 k (pl_data pl) else take (nat (pl_limit pl - 1)) (pl_data pl))) (es, pl) st'"
proof -
  let ?goal = "k # (if k \<in> set (pl_data pl) then remove1 k (pl_data pl) else take (nat (pl_limit pl - 1)) (pl_data pl))" and ?f = "pl_filterId pl"
  define xs where "xs = (if k \<in> set (pl_data pl) then pl_data pl else take (nat (pl_limit pl - 1)) (pl_data pl) @ [k])"
  obtain es1 pl1 where 1: "pinned_addGetPosition env k (es, pl) = Some ((es1, pl1), find_key k (pl_data pl1))" "pinned_to env xs (es, pl) (es1, pl1)"
    using pinned_add_ok [OF ok env k] unfolding xs_def by (metis prod.collapse snd_conv)
  then have pl1: "pl_data pl1 = xs" "pl_filterId pl1 = ?f" "pinned_ok env (es1, pl1)" by (auto simp: pinned_to_def)
  then have es1: "entries_ok es1" "0 \<le> ?f" "distinct xs" "\<forall>k. pin_map es1 k ?f = pinned_at xs k" by (auto simp: pinned_ok_def)
  have "k \<in> set xs" by (simp add: xs_def)
  then obtain us vs where d: "xs = us @ k # vs" "k \<notin> set us" by (meson split_list_first)
  have pos: "find_key k xs = length us" using d find_key_split by metis
  have goal: "?goal = k # us @ vs"
  proof (cases "k \<in> set (pl_data pl)")
    case True
    then show ?thesis using d by (simp add: xs_def remove1_append)
  next
    case False
    then have "take (nat (pl_limit pl - 1)) (pl_data pl) @ [k] = us @ k # vs" "k \<notin> set (take (nat (pl_limit pl - 1)) (pl_data pl))"
      using d(1) by (auto simp: xs_def dest: in_set_takeD)
    then have "vs = [] \<and> us = take (nat (pl_limit pl - 1)) (pl_data pl)"
      using es1(3) d(1) by (cases vs rule: rev_cases) auto
    with False show ?thesis by simp
  qed
  show thesis
  proof (cases us)
    case Nil
    then have "pinned_setPinned env k True (es, pl) = Some (es1, pl1)" using 1(1) pos k pl1(1) by (simp add: pinned_setPinned_def)
    with that 1(2) goal d(1) Nil show thesis by simp
  next
    case (Cons u us')
    let ?es2 = "cache_from env ?f 0 (k # us) es1"
    have rot: "std_rotate 0 (length us) (length us + 1) xs = k # us @ vs" by (simp add: std_rotate_def d)
    have step: "pinned_setPinned env k True (es, pl) = Some (?es2, pl1\<lparr>pl_data := k # us @ vs\<rparr>)"
      using 1(1) pos k pl1 Cons rot by (simp add: pinned_setPinned_def Let_def)
    have cached: "repinned ?f (\<lambda>k'. if k' \<in> set (k # us) then Some (0 + int (find_key k' (k # us)) + 1) else pin_map es1 k' ?f) es1 ?es2"
      by (rule cache_from_ok) (use es1 env d in auto)
    have "(\<lambda>k'. if k' \<in> set (k # us) then Some (0 + int (find_key k' (k # us)) + 1) else pin_map es1 k' ?f) = pinned_at (k # us @ vs)"
    proof
      fix k'
      have "pinned_at ((k # us) @ vs) k' = (if k' \<in> set (k # us) then pinned_at (k # us) k' else if k' \<in> set vs then Some (int (length (k # us)) + int (find_key k' vs) + 1) else None)"
        "pinned_at ((us @ [k]) @ vs) k' = (if k' \<in> set (us @ [k]) then pinned_at (us @ [k]) k' else if k' \<in> set vs then Some (int (length (us @ [k])) + int (find_key k' vs) + 1) else None)"
        by (rule pinned_at_append)+
      then show "(if k' \<in> set (k # us) then Some (0 + int (find_key k' (k # us)) + 1) else pin_map es1 k' ?f) = pinned_at (k # us @ vs) k'"
        using es1(4) d by (auto simp: pinned_at_def)
    qed
    with cached have "repinned (pl_filterId pl1) (pinned_at (k # us @ vs)) es1 ?es2" using pl1(2) by simp
    then have "pinned_to env (k # us @ vs) (es1, pl1) (?es2, pl1\<lparr>pl_data := k # us @ vs\<rparr>)"
      by (rule pinned_toI [OF pl1(3)]) (use es1(3) d pl1(1) in auto)
    with that step goal pinned_to_trans [OF 1(2)] show thesis by simp
  qed
qed


lemma find_key_nth: "distinct xs \<Longrightarrow> i < length xs \<Longrightarrow> find_key (xs ! i) xs = i"
  by (metis find_key_split id_take_nth_drop length_take less_imp_le_nat min.absorb2 not_distinct_conv_prefix distinct_append disjoint_insert(1) list.simps(15))

lemma find_key_at: "k \<in> set xs \<Longrightarrow> xs ! find_key k xs = k"
  by (metis find_key_split nth_append_length split_list_first)

lemma pinned_reorder_ok:
  assumes ok: "pinned_ok env (es, pl)" and env: "env_ok env" and k: "k1 \<in> set (pl_data pl)" "k2 \<in> set (pl_data pl)" "k1 \<noteq> k2"
  obtains st' where "pinned_reorder env k1 k2 (es, pl) = Some st'"
    "pinned_to env (swap_at (find_key k1 (pl_data pl)) (find_key k2 (pl_data pl)) (pl_data pl)) (es, pl) st'"
proof -
  let ?f = "pl_filterId pl" and ?xs = "pl_data pl"
  define i j where "i = find_key k1 ?xs" and "j = find_key k2 ?xs"
  have es: "entries_ok es" "0 \<le> ?f" "distinct ?xs" "\<forall>k. pin_map es k ?f = pinned_at ?xs k" using ok by (auto simp: pinned_ok_def)
  have ij: "i < length ?xs" "j < length ?xs" "?xs ! i = k1" "?xs ! j = k2" "i \<noteq> j"
    using find_key_less [of k1 ?xs] find_key_less [of k2 ?xs] find_key_at [OF k(1)] find_key_at [OF k(2)] k by (auto simp: i_def j_def)
  let ?ys = "swap_at i j ?xs"
  let ?es1 = "cachePinnedIndex env ?f k1 (int j + 1) es" let ?es2 = "cachePinnedIndex env ?f k2 (int i + 1) ?es1"
  have nz: "int j + 1 \<noteq> 0" "int i + 1 \<noteq> 0" by linarith+
  have one: "repinned ?f (\<lambda>k'. if k' = k1 then Some (int j + 1) else pin_map es k' ?f) es ?es1"
    using cachePinnedIndex_ok [OF es(1) env es(2), of k1 "int j + 1"] by (simp only: nz if_False)
  then have ok1: "entries_ok ?es1" by (simp add: repinned_def)
  have two: "repinned ?f (\<lambda>k'. if k' = k2 then Some (int i + 1) else pin_map ?es1 k' ?f) ?es1 ?es2"
    using cachePinnedIndex_ok [OF ok1 env es(2), of k2 "int i + 1"] by (simp only: nz if_False)
  have ys: "distinct ?ys" "set ?ys = set ?xs" "length ?ys = length ?xs" using es(3) ij(1,2) by (simp_all add: swap_at_def)
  have "(if k' = k2 then Some (int i + 1) else pin_map ?es1 k' ?f) = pinned_at ?ys k'" for k'
  proof (cases "k' \<in> set ?xs")
    case True
    then obtain m where m: "m < length ?xs" "?xs ! m = k'" by (metis in_set_conv_nth)
    let ?m = "if m = i then j else if m = j then i else m"
    have "?ys ! ?m = k'" "?m < length ?ys" using m ij by (auto simp: swap_at_def nth_list_update)
    then have "pinned_at ?ys k' = Some (int ?m + 1)" using find_key_nth [OF ys(1), of ?m] True ys(2) by (simp add: pinned_at_def)
    moreover have "pinned_at ?xs k' = Some (int m + 1)" using find_key_nth [OF es(3) m(1)] True m(2) by (simp add: pinned_at_def)
    moreover have "pin_map ?es1 k' ?f = (if k' = k1 then Some (int j + 1) else pinned_at ?xs k')" using one es(4) by (simp add: repinned_def)
    moreover have "k' = k1 \<longleftrightarrow> m = i" "k' = k2 \<longleftrightarrow> m = j" using m ij(1-4) es(3) nth_eq_iff_index_eq by blast+
    ultimately show ?thesis using ij(5) by simp
  next
    case False
    then show ?thesis using one es(4) k ys(2) by (auto simp: repinned_def pinned_at_def)
  qed
  then have "repinned ?f (pinned_at ?ys) es ?es2" using repinned_trans [OF one two] by simp
  then have "pinned_to env ?ys (es, pl) (?es2, pl\<lparr>pl_data := ?ys\<rparr>)" by (rule pinned_toI [OF ok]) (use ys in auto)
  moreover have "pinned_reorder env k1 k2 (es, pl) = Some (?es2, pl\<lparr>pl_data := ?ys\<rparr>)"
    using ij by (simp add: pinned_reorder_def Let_def i_def j_def)
  ultimately show thesis using that unfolding i_def j_def by blast
qed

lemma uncache_ok:
  assumes "entries_ok es" "env_ok env" "0 \<le> f"
  shows "repinned f (\<lambda>k. if k \<in> set old \<and> k \<notin> set xs then None else pin_map es k f) es (uncache env f xs old es)"
  using assms
proof (induction old arbitrary: es)
  case Nil
  then show ?case by (simp add: repinned_def)
next
  case (Cons k old)
  let ?es = "if k \<notin> set xs then cachePinnedIndex env f k 0 es else es"
  have one: "repinned f (\<lambda>k'. if k' = k \<and> k \<notin> set xs then None else pin_map es k' f) es ?es"
    using cachePinnedIndex_ok [OF Cons.prems, of k 0] Cons.prems(1) by (auto simp: repinned_def)
  then have "entries_ok ?es" by (simp add: repinned_def)
  from repinned_trans [OF one Cons.IH [OF this Cons.prems(2,3)]]
  have "repinned f (\<lambda>k'. if k' \<in> set old \<and> k' \<notin> set xs then None else pin_map ?es k' f) es (uncache env f xs (k # old) es)" by simp
  moreover have "(\<lambda>k'. if k' \<in> set old \<and> k' \<notin> set xs then None else pin_map ?es k' f)
    = (\<lambda>k'. if k' \<in> set (k # old) \<and> k' \<notin> set xs then None else pin_map es k' f)" using one by (auto simp: repinned_def fun_eq_iff)
  ultimately show ?case by simp
qed

lemma pinned_applyHistories_ok:
  assumes ok: "pinned_ok env (es, pl)" and env: "env_ok env" and f: "pl_filterId pl \<noteq> 0" and xs: "distinct xs"
  obtains st' where "pinned_applyHistories env xs (es, pl) = Some st'" "pinned_to env xs (es, pl) st'"
proof -
  let ?f = "pl_filterId pl" and ?old = "pl_data pl"
  have es: "entries_ok es" "0 \<le> ?f" "\<forall>k. pin_map es k ?f = pinned_at ?old k" using ok by (auto simp: pinned_ok_def)
  let ?es1 = "cache_from env ?f 0 xs es"
  have one: "repinned ?f (\<lambda>k. if k \<in> set xs then Some (0 + int (find_key k xs) + 1) else pin_map es k ?f) es ?es1"
    by (rule cache_from_ok) (use es env xs in auto)
  then have ok1: "entries_ok ?es1" by (simp add: repinned_def)
  note both = repinned_trans [OF one uncache_ok [OF ok1 env es(2), of ?old xs]]
  have "(\<lambda>k. if k \<in> set ?old \<and> k \<notin> set xs then None else pin_map ?es1 k ?f) = pinned_at xs"
    using one es(3) by (auto simp: repinned_def pinned_at_def fun_eq_iff)
  with both have "pinned_to env xs (es, pl) (uncache env ?f xs ?old ?es1, pl\<lparr>pl_data := xs\<rparr>)" by (intro pinned_toI [OF ok]) (use xs f in auto)
  with that f show thesis by (simp add: pinned_applyHistories_def)
qed

lemma pinned_setLimit_ok:
  assumes ok: "pinned_ok env (es, pl)" and env: "env_ok env" and limit: "0 < limit" and short: "pl_limit pl = limit \<Longrightarrow> int (length (pl_data pl)) \<le> limit"
  obtains st' where "pinned_setLimit env limit (es, pl) = Some st'" "pinned_ok env st'" "pl_limit (snd st') = limit" "pl_filterId (snd st') = pl_filterId pl"
    "pl_data (snd st') = take (nat limit) (pl_data pl)"
proof (cases "pl_limit pl = limit")
  case True
  then show thesis using that [of "(es, pl)"] ok limit short by (simp add: pinned_setLimit_def)
next
  case False
  have "pinned_ok env (es, pl\<lparr>pl_limit := limit\<rparr>)" using ok limit by (simp add: pinned_ok_def)
  from pinned_applyLimit_ok [OF this env, of limit] limit obtain st' where
    "pinned_applyLimit env limit (es, pl\<lparr>pl_limit := limit\<rparr>) = Some st'" "pinned_to env (take (nat limit) (pl_data pl)) (es, pl\<lparr>pl_limit := limit\<rparr>) st'"
    by auto
  with that False limit show thesis by (simp add: pinned_setLimit_def pinned_to_def)
qed

lemma pinned_addPinned_ok:
  assumes ok: "pinned_ok env st" and env: "env_ok env" and k: "ee_folderKnown env k"
  obtains st' where "pinned_addPinned env k st = Some st'"
    "pinned_to env (if k \<in> set (pl_data (snd st)) then pl_data (snd st) else take (nat (pl_limit (snd st) - 1)) (pl_data (snd st)) @ [k]) st st'"
proof -
  obtain es pl where st: "st = (es, pl)" by fastforce
  obtain st' where st': "pinned_addGetPosition env k (es, pl) = Some (st', find_key k (pl_data (snd st')))"
    "pinned_to env (if k \<in> set (pl_data pl) then pl_data pl else take (nat (pl_limit pl - 1)) (pl_data pl) @ [k]) (es, pl) st'"
    using pinned_add_ok [of env es pl k] ok env k st by blast
  show thesis by (rule that [of st']) (use st' k st in \<open>auto simp: pinned_addPinned_def split: if_splits\<close>)
qed

fun peer_keys :: "'k option list \<Rightarrow> 'k list" where
  "peer_keys [] = []"
| "peer_keys (None # peers) = peer_keys peers"
| "peer_keys (Some k # peers) = k # peer_keys peers"

lemma pinned_addAll_ok:
  assumes "pinned_ok env st" "env_ok env" "\<forall>k. Some k \<in> set peers \<longrightarrow> ee_folderKnown env k"
    "distinct (pl_data (snd st) @ peer_keys peers)" "int (length (pl_data (snd st)) + length (peer_keys peers)) \<le> pl_limit (snd st)"
  shows "\<exists>st'. pinned_addAll env peers st = Some st' \<and> pinned_to env (pl_data (snd st) @ peer_keys peers) st st'"
  using assms
proof (induction env peers st rule: pinned_addAll.induct)
  case (1 env st)
  then show ?case using pinned_to_self [OF 1(1)] by simp
next
  case (2 env peers st)
  then show ?case by simp
next
  case (3 env key peers st)
  let ?xs = "pl_data (snd st)"
  have k: "key \<notin> set ?xs" "ee_folderKnown env key" using 3(4,5) by auto
  have "take (nat (pl_limit (snd st) - 1)) ?xs = ?xs" using 3(6) by (intro take_all) simp
  then obtain st1 where st1: "pinned_addPinned env key st = Some st1" "pinned_to env (?xs @ [key]) st st1"
    using pinned_addPinned_ok [OF 3(2,3) k(2)] k(1) by metis
  then have d1: "pl_data (snd st1) = ?xs @ [key]" "pinned_ok env st1" "pl_limit (snd st1) = pl_limit (snd st)" by (auto simp: pinned_to_def)
  have "\<exists>st'. pinned_addAll env peers st1 = Some st' \<and> pinned_to env (pl_data (snd st1) @ peer_keys peers) st1 st'"
    by (rule 3(1) [OF st1(1)]) (use d1 3(3-6) in auto)
  then show ?case using st1 d1(1) pinned_to_trans [OF st1(2)] by auto
qed


section \<open>Runs\<close>

text \<open>
  The pinned chats of one list while everything else goes on: positions of entries are computed again, other
  lists pin and unpin chats, and what the entries answer changes (\<open>env\<close> is free in each step; only whether the
  folder of an entry is known does not change here).
\<close>

definition fresh_entries :: "'k entries \<Rightarrow> bool" where
  "fresh_entries es \<longleftrightarrow> es_shift es = 0 \<and> (\<forall>k. es_entry es k = \<lparr>en_sortKeyInChatList = 0, en_sortKeyByDate = 0, en_pinnedIndex = []\<rparr>)"

inductive pinned_run :: "('k \<Rightarrow> bool) \<Rightarrow> 'k pinned_state \<Rightarrow> bool" for known where
  new: "fresh_entries es \<Longrightarrow> 0 \<le> f \<Longrightarrow> pinned_new f limit = Some pl \<Longrightarrow> pinned_run known (es, pl)"
| position: "pinned_run known (es, pl) \<Longrightarrow> env_ok env \<Longrightarrow> pinned_run known (updateChatListSortPosition env k es, pl)"
| other: "pinned_run known (es, pl) \<Longrightarrow> env_ok env \<Longrightarrow> 0 \<le> g \<Longrightarrow> g \<noteq> pl_filterId pl \<Longrightarrow> pinned_run known (cachePinnedIndex env g k index es, pl)"
| setPinned: "pinned_run known st \<Longrightarrow> env_ok env \<Longrightarrow> ee_folderKnown env = known \<Longrightarrow> pinned_setPinned env k pinned st = Some st' \<Longrightarrow> pinned_run known st'"
| addPinned: "pinned_run known st \<Longrightarrow> env_ok env \<Longrightarrow> ee_folderKnown env = known \<Longrightarrow> pinned_addPinned env k st = Some st' \<Longrightarrow> pinned_run known st'"
| clear: "pinned_run known st \<Longrightarrow> env_ok env \<Longrightarrow> ee_folderKnown env = known \<Longrightarrow> pinned_clear env st = Some st' \<Longrightarrow> pinned_run known st'"
| setLimit: "pinned_run known st \<Longrightarrow> env_ok env \<Longrightarrow> ee_folderKnown env = known \<Longrightarrow> pinned_setLimit env limit st = Some st' \<Longrightarrow> pinned_run known st'"
| histories: "pinned_run known st \<Longrightarrow> env_ok env \<Longrightarrow> ee_folderKnown env = known \<Longrightarrow> distinct xs \<Longrightarrow> pinned_applyHistories env xs st = Some st' \<Longrightarrow> pinned_run known st'"
| reorder: "pinned_run known st \<Longrightarrow> env_ok env \<Longrightarrow> ee_folderKnown env = known \<Longrightarrow> pinned_reorder env k1 k2 st = Some st' \<Longrightarrow> pinned_run known st'"

abbreviation pinned_inv :: "('k \<Rightarrow> bool) \<Rightarrow> 'k pinned_state \<Rightarrow> bool" where
  "pinned_inv known st \<equiv> (\<forall>env. ee_folderKnown env = known \<longrightarrow> pinned_ok env st)"

lemma pinned_inv_ok: "pinned_ok env st \<Longrightarrow> ee_folderKnown env = known \<Longrightarrow> pinned_inv known st"
  by (cases st) (auto simp: pinned_ok_def)

lemma pinned_inv_to:
  assumes "\<exists>st1 xs. op = Some st1 \<and> pinned_to env xs st st1" "op = Some st'" "ee_folderKnown env = known"
  shows "pinned_inv known st'"
proof -
  have "pinned_ok env st'" using assms(1,2) by (auto simp: pinned_to_def)
  then show ?thesis using assms(3) by (rule pinned_inv_ok)
qed

lemma pinned_run_ok: "pinned_run known st \<Longrightarrow> pinned_inv known st"
proof (induction rule: pinned_run.induct)
  case (new es f limit pl)
  then show ?case
    by (auto simp: pinned_ok_def fresh_entries_def entries_ok_def pinned_new_def pin_map_def pinned_at_def split: if_splits)
next
  case (position es pl env k)
  show ?case
  proof (intro allI impI)
    fix env' :: "'a entry_env" assume "ee_folderKnown env' = known"
    then have "pinned_ok env' (es, pl)" using position.IH by blast
    then show "pinned_ok env' (updateChatListSortPosition env k es, pl)"
      using update_position_ok [OF _ position.hyps(2), of es k] by (auto simp: pinned_ok_def)
  qed
next
  case (other es pl env g k index)
  show ?case
  proof (intro allI impI)
    fix env' :: "'a entry_env" assume "ee_folderKnown env' = known"
    then have "pinned_ok env' (es, pl)" using other.IH by blast
    moreover from this have "entries_ok es" by (simp add: pinned_ok_def)
    ultimately show "pinned_ok env' (cachePinnedIndex env g k index es, pl)"
      using cachePinnedIndex_ok [OF _ other.hyps(2,3), of es k index] other.hyps(4) by (auto simp: pinned_ok_def repinned_def)
  qed
next
  case (setPinned st env k pinned st')
  obtain es pl where st: "st = (es, pl)" by fastforce
  have ok: "pinned_ok env (es, pl)" using setPinned st by blast
  have k: "ee_folderKnown env k \<or> pl_filterId pl \<noteq> 0" using setPinned.hyps(4) st by (auto simp: pinned_setPinned_def split: if_splits)
  show ?case
  proof (cases pinned)
    case True
    have "\<exists>st1 xs. pinned_setPinned env k True (es, pl) = Some st1 \<and> pinned_to env xs (es, pl) st1"
      using pinned_setPinned_ok [OF ok setPinned.hyps(2) k] by blast
    then show ?thesis by (rule pinned_inv_to) (use setPinned.hyps(3,4) st True in simp_all)
  next
    case False
    then have unset: "pinned_unset env k (es, pl) = Some st'" using setPinned.hyps(4) st k by (auto simp: pinned_setPinned_def)
    have "\<exists>st1 xs. pinned_unset env k (es, pl) = Some st1 \<and> pinned_to env xs (es, pl) st1"
      using pinned_unset_ok [OF ok setPinned.hyps(2) k] by blast
    then show ?thesis by (rule pinned_inv_to) (use setPinned.hyps(3) unset in simp_all)
  qed
next
  case (addPinned st env k st')
  have k: "ee_folderKnown env k" using addPinned.hyps(4) by (auto simp: pinned_addPinned_def split: if_splits)
  have "pinned_ok env st" using addPinned by blast
  then have "\<exists>st1 xs. pinned_addPinned env k st = Some st1 \<and> pinned_to env xs st st1"
    using pinned_addPinned_ok [OF _ addPinned.hyps(2) k] by blast
  then show ?case by (rule pinned_inv_to) (use addPinned.hyps(3,4) in simp_all)
next
  case (clear st env st')
  then have "pinned_ok env st" by blast
  then have "\<exists>st1 xs. pinned_clear env st = Some st1 \<and> pinned_to env xs st st1"
    using pinned_applyLimit_ok [OF _ clear.hyps(2), of st 0] unfolding pinned_clear_def by blast
  then show ?case by (rule pinned_inv_to) (use clear.hyps(3,4) in simp_all)
next
  case (setLimit st env limit st')
  obtain es pl where st: "st = (es, pl)" by fastforce
  have ok: "pinned_ok env (es, pl)" using setLimit st by blast
  show ?case
  proof (cases "pl_limit pl = limit")
    case True
    then have "st' = st" using setLimit.hyps(4) st by (auto simp: pinned_setLimit_def split: if_splits)
    then show ?thesis using setLimit.IH by simp
  next
    case False
    have limit: "0 < limit" using setLimit.hyps(4) st by (auto simp: pinned_setLimit_def split: if_splits)
    obtain st1 where "pinned_setLimit env limit (es, pl) = Some st1" "pinned_ok env st1"
      using pinned_setLimit_ok [OF ok setLimit.hyps(2) limit] False by blast
    then have "pinned_ok env st'" using setLimit.hyps(4) st by simp
    then show ?thesis using setLimit.hyps(3) by (rule pinned_inv_ok)
  qed
next
  case (histories st env xs st')
  obtain es pl where st: "st = (es, pl)" by fastforce
  have ok: "pinned_ok env (es, pl)" using histories st by blast
  have f: "pl_filterId pl \<noteq> 0" using histories.hyps(5) st by (auto simp: pinned_applyHistories_def split: if_splits)
  have "\<exists>st1 ys. pinned_applyHistories env xs (es, pl) = Some st1 \<and> pinned_to env ys (es, pl) st1"
    using pinned_applyHistories_ok [OF ok histories.hyps(2) f histories.hyps(4)] by blast
  then show ?case by (rule pinned_inv_to) (use histories.hyps(3,5) st in simp_all)
next
  case (reorder st env k1 k2 st')
  obtain es pl where st: "st = (es, pl)" by fastforce
  have ok: "pinned_ok env (es, pl)" using reorder st by blast
  have k: "k1 \<in> set (pl_data pl)" "k2 \<in> set (pl_data pl)" "k1 \<noteq> k2"
    using reorder.hyps(4) st by (auto simp: pinned_reorder_def Let_def find_key_less split: if_splits)
  have "\<exists>st1 ys. pinned_reorder env k1 k2 (es, pl) = Some st1 \<and> pinned_to env ys (es, pl) st1"
    using pinned_reorder_ok [OF ok reorder.hyps(2) k] by blast
  then show ?case by (rule pinned_inv_to) (use reorder.hyps(3,4) st in simp_all)
qed


section \<open>Pinned chats come first\<close>

lemma sorted_partition:
  fixes s :: "'k \<Rightarrow> 'n::linorder"
  assumes "sorted_wrt (\<lambda>a b. s a \<ge> s b) rows" "\<And>a b. a \<in> set rows \<Longrightarrow> b \<in> set rows \<Longrightarrow> P a \<Longrightarrow> \<not> P b \<Longrightarrow> s a > s b"
  shows "rows = filter P rows @ filter (\<lambda>k. \<not> P k) rows"
  using assms
proof (induction rows)
  case (Cons x rows)
  then have IH: "rows = filter P rows @ filter (\<lambda>k. \<not> P k) rows" by simp
  show ?case
  proof (cases "P x")
    case True
    then show ?thesis using IH by simp
  next
    case False
    have "\<not> P y" if "y \<in> set rows" for y
    proof
      assume "P y"
      then have "s x < s y" using Cons.prems(2) [of y x] that False by simp
      then show False using Cons.prems(1) that by fastforce
    qed
    then show ?thesis using False by simp
  qed
qed simp

lemma strict_sorted_unique:
  assumes "\<And>a b. R a b \<Longrightarrow> \<not> R b a" "sorted_wrt R xs" "sorted_wrt R ys" "set xs = set ys"
  shows "xs = ys"
  using assms(2-4)
proof (induction xs arbitrary: ys)
  case (Cons x xs)
  then obtain y ys' where ys: "ys = y # ys'" by (cases ys) auto
  have xy: "x = y" using Cons.prems ys assms(1) by (metis list.set_intros(1) set_ConsD sorted_wrt.simps(2))
  have "x \<notin> set xs" "x \<notin> set ys'" using Cons.prems(1,2) ys xy assms(1) by auto
  then have "set xs = set ys'" using Cons.prems(3) ys xy insert_ident [of x "set xs" "set ys'"] by simp
  then show ?case using Cons ys xy by simp
qed simp

lemma PinnedDialogPos_value:
  assumes "0 \<le> i" "i < 2 ^ 32"
  shows "uint (PinnedDialogPos i) = 0xFFFFFFFF000000FF - i"
proof -
  have "uint (word_of_int i :: u64) = i" using assms by (simp add: uint_word_of_int_eq take_bit_int_eq_self)
  then have "word_of_int i \<le> (0xFFFFFFFF000000FF :: u64)" using assms by (simp add: word_le_def)
  then show ?thesis unfolding PinnedDialogPos_def using \<open>uint (word_of_int i :: u64) = i\<close> by (simp add: uint_minus_simple_alt)
qed

definition pinned_rows :: "'k pinned_list \<Rightarrow> 'k list \<Rightarrow> 'k list" where
  "pinned_rows pl rows = filter (\<lambda>k. k \<in> set rows) (pl_data pl)"

lemma pinned_rows_first:
  fixes s :: "'k \<Rightarrow> u64"
  assumes rows: "distinct rows" "sorted_wrt (\<lambda>a b. s a \<ge> s b) rows" and data: "distinct (pl_data pl)" "length (pl_data pl) < 2 ^ 31"
    and pos: "\<And>k. k \<in> set rows \<Longrightarrow> k \<in> set (pl_data pl) \<Longrightarrow> s k = PinnedDialogPos (int (find_key k (pl_data pl)) + 1)"
    and low: "\<And>k. k \<in> set rows \<Longrightarrow> k \<notin> set (pl_data pl) \<Longrightarrow> s k < 2 ^ 63"
  shows "rows = pinned_rows pl rows @ filter (\<lambda>k. k \<notin> set (pl_data pl)) rows"
proof -
  have val: "uint (s k) = 0xFFFFFFFF000000FE - int (find_key k (pl_data pl))" "int (find_key k (pl_data pl)) < 2 ^ 31"
    if "k \<in> set rows" "k \<in> set (pl_data pl)" for k
  proof -
    have "find_key k (pl_data pl) < length (pl_data pl)" using that(2) by (simp add: find_key_less)
    then show "int (find_key k (pl_data pl)) < 2 ^ 31" using data(2) by simp
    then show "uint (s k) = 0xFFFFFFFF000000FE - int (find_key k (pl_data pl))" unfolding pos [OF that] by (subst PinnedDialogPos_value) auto
  qed
  have high: "s b < s a" if "a \<in> set rows" "b \<in> set rows" "a \<in> set (pl_data pl)" "b \<notin> set (pl_data pl)" for a b
  proof -
    have "uint (s b) < 2 ^ 63" using low [OF that(2,4)] by (simp add: word_less_def)
    then show ?thesis using val [OF that(1,3)] by (simp add: word_less_def)
  qed
  have split: "rows = filter (\<lambda>k. k \<in> set (pl_data pl)) rows @ filter (\<lambda>k. k \<notin> set (pl_data pl)) rows"
    by (rule sorted_partition [OF rows(2)]) (use high in blast)
  have "sorted_wrt (\<lambda>a b. find_key a (pl_data pl) < find_key b (pl_data pl)) (pl_data pl)"
    by (simp add: sorted_wrt_iff_nth_less find_key_nth [OF data(1)])
  then have data_sorted: "sorted_wrt (\<lambda>a b. find_key a (pl_data pl) < find_key b (pl_data pl)) (pinned_rows pl rows)"
    unfolding pinned_rows_def by (rule sorted_wrt_filter)
  have "sorted_wrt (\<lambda>a b. a \<noteq> b \<and> s a \<ge> s b) (filter (\<lambda>k. k \<in> set (pl_data pl)) rows)"
    using rows by (intro sorted_wrt_filter) (simp add: sorted_wrt_iff_nth_less nth_eq_iff_index_eq)
  then have rows_sorted: "sorted_wrt (\<lambda>a b. find_key a (pl_data pl) < find_key b (pl_data pl)) (filter (\<lambda>k. k \<in> set (pl_data pl)) rows)"
  proof (rule sorted_wrt_mono_rel [rotated])
    fix a b assume ab: "a \<in> set (filter (\<lambda>k. k \<in> set (pl_data pl)) rows)" "b \<in> set (filter (\<lambda>k. k \<in> set (pl_data pl)) rows)" "a \<noteq> b \<and> s a \<ge> s b"
    then have "a \<in> set (pl_data pl)" "b \<in> set (pl_data pl)" "a \<noteq> b" by auto
    then have "find_key a (pl_data pl) \<noteq> find_key b (pl_data pl)" by (metis find_key_at)
    moreover have "uint (s b) \<le> uint (s a)" using ab(3) by (simp add: word_le_def)
    then have "find_key a (pl_data pl) \<le> find_key b (pl_data pl)" using val [of a] val [of b] ab(1,2) by simp
    ultimately show "find_key a (pl_data pl) < find_key b (pl_data pl)" by simp
  qed
  have "filter (\<lambda>k. k \<in> set (pl_data pl)) rows = pinned_rows pl rows"
    by (rule strict_sorted_unique [OF _ rows_sorted data_sorted]) (auto simp: pinned_rows_def)
  with split show ?thesis by simp
qed


lemma computeSortPosition_pinned:
  assumes ok: "pinned_ok env (es, pl)" and f: "pl_filterId pl = f"
  shows "k \<in> set (pl_data pl) \<Longrightarrow> computeSortPosition f (es_entry es k) = PinnedDialogPos (int (find_key k (pl_data pl)) + 1)"
    "k \<notin> set (pl_data pl) \<Longrightarrow> computeSortPosition f (es_entry es k) = en_sortKeyByDate (es_entry es k)"
proof -
  have "lookupPinnedIndex f (es_entry es k) = (case pinned_at (pl_data pl) k of None \<Rightarrow> 0 | Some i \<Rightarrow> i)"
    using ok f lookupPinnedIndex_map [of es f k] by (auto simp: pinned_ok_def)
  then show "k \<in> set (pl_data pl) \<Longrightarrow> computeSortPosition f (es_entry es k) = PinnedDialogPos (int (find_key k (pl_data pl)) + 1)"
    "k \<notin> set (pl_data pl) \<Longrightarrow> computeSortPosition f (es_entry es k) = en_sortKeyByDate (es_entry es k)"
    by (auto simp: computeSortPosition_def pinned_at_def)
qed

text \<open>
  C16. A list of chats of a filter, kept in order through changes of positions while chats are pinned, unpinned and
  reordered, shows the pinned chats it holds first, in the order of the pinned list, and the others after
  them, the newest first.
\<close>

theorem pinned_chats_first:
  assumes run: "pinned_run known (es, pl)" and f: "pl_filterId pl \<noteq> 0" and bounds: "es_shift es < 2 ^ 31" "length (pl_data pl) < 2 ^ 31"
    and list: "date_run (\<lambda>k. sortKeyInChatList (pl_filterId pl) (es_entry es k)) l"
  shows "cl_rows l = filter (\<lambda>k. k \<in> set (cl_rows l)) (pl_data pl) @ filter (\<lambda>k. k \<notin> set (pl_data pl)) (cl_rows l)
    \<and> sorted_wrt (\<lambda>a b. en_sortKeyByDate (es_entry es a) \<ge> en_sortKeyByDate (es_entry es b)) (filter (\<lambda>k. k \<notin> set (pl_data pl)) (cl_rows l))"
proof -
  let ?s = "\<lambda>k. sortKeyInChatList (pl_filterId pl) (es_entry es k)"
  obtain env :: "'a entry_env" where env: "ee_folderKnown env = known" by (metis entry_env.select_convs(6))
  then have ok: "pinned_ok env (es, pl)" using pinned_run_ok [OF run] by blast
  then have es: "entries_ok es" "distinct (pl_data pl)" by (auto simp: pinned_ok_def)
  note pos = computeSortPosition_pinned [OF ok refl]
  have rows: "distinct (cl_rows l)" "sorted_wrt (\<lambda>a b. ?s a \<ge> ?s b) (cl_rows l)" using date_run_ok [OF list] by (auto simp: list_ok_def)
  have "cl_rows l = pinned_rows pl (cl_rows l) @ filter (\<lambda>k. k \<notin> set (pl_data pl)) (cl_rows l)"
    by (rule pinned_rows_first [OF rows es(2) bounds(2)]) (use f pos es(1) bounds(1) in \<open>auto simp: sortKeyInChatList_def entries_ok_def\<close>)
  moreover have "sorted_wrt (\<lambda>a b. ?s a \<ge> ?s b) (filter (\<lambda>k. k \<notin> set (pl_data pl)) (cl_rows l))" using rows(2) by (rule sorted_wrt_filter)
  then have "sorted_wrt (\<lambda>a b. en_sortKeyByDate (es_entry es a) \<ge> en_sortKeyByDate (es_entry es b)) (filter (\<lambda>k. k \<notin> set (pl_data pl)) (cl_rows l))"
    by (rule sorted_wrt_mono_rel [rotated]) (use f pos(2) in \<open>auto simp: sortKeyInChatList_def\<close>)
  ultimately show ?thesis by (simp add: pinned_rows_def)
qed



definition sample_entry_env :: "nat entry_env" where
  "sample_entry_env = \<lparr>ee_supportMode = False, ee_supportFixChatsOrder = False, ee_timeId = (\<lambda>k. 10), ee_fixedOnTopIndex = (\<lambda>k. 0),
     ee_needUpdateInChatList = (\<lambda>k. True), ee_folderKnown = (\<lambda>k. True)\<rparr>"

definition sample_entries :: "nat entries" where
  "sample_entries = \<lparr>es_shift = 0, es_entry = (\<lambda>k. \<lparr>en_sortKeyInChatList = 0, en_sortKeyByDate = 0, en_pinnedIndex = []\<rparr>)\<rparr>"

definition sample_pinned :: "nat pinned_list" where
  "sample_pinned = \<lparr>pl_filterId = 1, pl_limit = 5, pl_data = []\<rparr>"

lemma sample_run: "pinned_run (\<lambda>k. True) (sample_entries, sample_pinned)"
  by (rule pinned_run.new [of _ 1 5]) (simp_all add: fresh_entries_def sample_entries_def pinned_new_def sample_pinned_def)

lemma sample_entry_env_ok: "env_ok sample_entry_env" "ee_folderKnown sample_entry_env = (\<lambda>k. True)"
  by (simp_all add: env_ok_def sample_entry_env_def)

definition sample_after :: "nat entries" where
  "sample_after = cachePinnedIndex sample_entry_env 1 7 1 sample_entries"

lemma sample_pin: "pinned_setPinned sample_entry_env 7 True (sample_entries, sample_pinned) = Some (sample_after, sample_pinned\<lparr>pl_data := [7]\<rparr>)"
  by (simp add: pinned_setPinned_def pinned_addGetPosition_def sample_pinned_def sample_entry_env_def find_key_def sample_after_def)

lemma sample_after_values: "es_shift sample_after = 1" "en_pinnedIndex (es_entry sample_after 7) = [(1, 1)]"
  "es_entry sample_after 3 = \<lparr>en_sortKeyInChatList = 0, en_sortKeyByDate = 0, en_pinnedIndex = []\<rparr>"
  by (simp_all add: sample_after_def cachePinnedIndex_def sample_entries_def sample_entry_env_def flat_map_get_def pinnedIndexChanged_def flat_map_find_def
      flat_multi_map_findFirst_def key_out_of_span_def flat_map_emplace_def flat_map_insert_def updateChatListSortPosition_def DialogPosFromDate_def
      Let_def split_beta insert_at_def)

lemma sample_after_run: "pinned_run (\<lambda>k. True) (sample_after, sample_pinned\<lparr>pl_data := [7]\<rparr>)"
  by (rule pinned_run.setPinned [OF sample_run sample_entry_env_ok sample_pin])


lemma singleton_list:
  assumes "set xs = {x}" "distinct xs"
  shows "xs = [x]"
proof -
  obtain y ys where xs: "xs = y # ys" using assms(1) by (cases xs) auto
  then have "y = x" "x \<notin> set ys" "set ys \<subseteq> {x}" using assms by auto
  then have "set ys = {}" by (metis insertI1 subset_singletonD)
  with xs \<open>y = x\<close> show ?thesis by simp
qed

theorem pinned_chats_first_witness:
  "\<exists>l :: nat chat_list. date_run (\<lambda>k. sortKeyInChatList 1 (es_entry sample_after k)) l \<and> cl_rows l = [7, 3]"
proof -
  let ?s = "\<lambda>k. sortKeyInChatList 1 (es_entry sample_after k)" and ?pl = "sample_pinned\<lparr>pl_data := [7]\<rparr>"
  have ok: "list_ok (list_new SortDate)" "cl_mode (list_new SortDate) = SortDate" by (simp_all add: list_ok_def list_new_def)
  obtain l1 where l1: "list_addToEnd ?s 3 (list_new SortDate) = Some (l1, 3)" "added (newer ?s) 3 (list_new SortDate) l1"
    by (rule list_addToEnd_date [OF ok])
  then have ok1: "list_ok l1" "cl_mode l1 = SortDate" "set (cl_rows l1) = {3}" by (auto simp: added_def list_new_def)
  obtain l2 where l2: "list_addToEnd ?s 7 l1 = Some (l2, 7)" "added (newer ?s) 7 l1 l2" by (rule list_addToEnd_date [OF ok1(1,2)])
  then have set2: "set (cl_rows l2) = {3, 7}" "distinct (cl_rows l2)" using ok1 by (auto simp: added_def list_ok_def)
  have run: "date_run ?s l2" using date_run.add [OF date_run.add [OF date_run.new l1(1)] l2(1)] .
  have "cl_rows l2 = filter (\<lambda>k. k \<in> set (cl_rows l2)) [7] @ filter (\<lambda>k. k \<notin> set [7]) (cl_rows l2)"
    using pinned_chats_first [OF sample_after_run, of l2] run by (simp add: sample_after_values sample_pinned_def)
  moreover have "filter (\<lambda>k. k \<notin> set [7]) (cl_rows l2) = [3]"
  proof -
    have "set (filter (\<lambda>k. k \<notin> set [7]) (cl_rows l2)) = {3}" "distinct (filter (\<lambda>k. k \<notin> set [7]) (cl_rows l2))" using set2 by auto
    then show ?thesis by (rule singleton_list)
  qed
  ultimately have "cl_rows l2 = [7, 3]" using set2 by simp
  with run show ?thesis by blast
qed

section \<open>The main list\<close>

text \<open>
  In the main list an entry keeps its position in a field, computed when the position is updated: entries fixed
  on top (the archive and a promoted chat, with the indexes 1 and 2) come before the pinned ones.
\<close>

definition position_current :: "'k entry_env \<Rightarrow> 'k entries \<Rightarrow> 'k \<Rightarrow> bool" where
  "position_current env es k \<longleftrightarrow> en_sortKeyInChatList (es_entry es k)
     = (if ee_fixedOnTopIndex env k \<noteq> 0 then FixedOnTopDialogPos (ee_fixedOnTopIndex env k) else computeSortPosition 0 (es_entry es k))"

lemma update_position_current:
  assumes "ee_needUpdateInChatList env k" "\<not> ee_supportMode env"
  shows "position_current env (updateChatListSortPosition env k es) k"
    "k' \<noteq> k \<Longrightarrow> position_current env (updateChatListSortPosition env k es) k' = position_current env es k'"
  using assms by (auto simp: position_current_def updateChatListSortPosition_def Let_def split_beta computeSortPosition_def lookupPinnedIndex_def)

lemma cache_position_current:
  assumes "ee_needUpdateInChatList env k" "\<not> ee_supportMode env" "position_current env es k'"
  shows "position_current env (cachePinnedIndex env f k index es) k'"
proof (cases "cachePinnedIndex env f k index es = es")
  case False
  define m where "m = en_pinnedIndex (es_entry (cachePinnedIndex env f k index es) k)"
  obtain m1 where "cachePinnedIndex env f k index es
    = updateChatListSortPosition env k (es\<lparr>es_entry := (es_entry es)(k := (es_entry es k)\<lparr>en_pinnedIndex := m1\<rparr>)\<rparr>)"
    using False assms(2) by (auto simp: cachePinnedIndex_def pinnedIndexChanged_def Let_def split: if_splits)
  then show ?thesis using update_position_current [OF assms(1,2)] assms(3) by (cases "k' = k") (simp_all add: position_current_def)
qed (use assms in simp)

lemma FixedOnTopDialogPos_value:
  assumes "0 \<le> i" "i \<le> 2"
  shows "uint (FixedOnTopDialogPos i) = 0xFFFFFFFFFFFF000F - i"
proof -
  have u: "uint (word_of_int i :: u64) = i" using assms by (simp add: uint_word_of_int_eq take_bit_int_eq_self)
  then have "word_of_int i \<le> (0xFFFFFFFFFFFF000F :: u64)" using assms by (simp add: word_le_def)
  then show ?thesis unfolding FixedOnTopDialogPos_def using u by (simp add: uint_minus_simple_alt)
qed

text \<open>
  C15. The main list of chats shows the entries fixed on top first, by their index, then the pinned chats in the
  order of the pinned list, then the others, the newest first, whenever the positions of its entries are up to date.
\<close>

theorem main_list_order:
  assumes run: "pinned_run known (es, pl)" and f: "pl_filterId pl = 0" and bounds: "es_shift es < 2 ^ 31" "length (pl_data pl) < 2 ^ 31"
    and list: "date_run (\<lambda>k. sortKeyInChatList 0 (es_entry es k)) l" and current: "\<forall>k \<in> set (cl_rows l). position_current env es k"
    and fixed: "\<forall>k. 0 \<le> ee_fixedOnTopIndex env k \<and> ee_fixedOnTopIndex env k \<le> 2"
  shows "cl_rows l = filter (\<lambda>k. ee_fixedOnTopIndex env k \<noteq> 0) (cl_rows l)
      @ filter (\<lambda>k. k \<in> set (cl_rows l) \<and> ee_fixedOnTopIndex env k = 0) (pl_data pl)
      @ filter (\<lambda>k. ee_fixedOnTopIndex env k = 0 \<and> k \<notin> set (pl_data pl)) (cl_rows l)
    \<and> sorted_wrt (\<lambda>a b. ee_fixedOnTopIndex env a \<le> ee_fixedOnTopIndex env b) (filter (\<lambda>k. ee_fixedOnTopIndex env k \<noteq> 0) (cl_rows l))
    \<and> sorted_wrt (\<lambda>a b. en_sortKeyByDate (es_entry es a) \<ge> en_sortKeyByDate (es_entry es b))
        (filter (\<lambda>k. ee_fixedOnTopIndex env k = 0 \<and> k \<notin> set (pl_data pl)) (cl_rows l))"
proof -
  let ?s = "\<lambda>k. en_sortKeyInChatList (es_entry es k)" and ?rows = "cl_rows l" and ?fixed = "\<lambda>k. ee_fixedOnTopIndex env k \<noteq> 0"
  obtain env' :: "'a entry_env" where env: "ee_folderKnown env' = known" by (metis entry_env.select_convs(6))
  then have ok: "pinned_ok env' (es, pl)" using pinned_run_ok [OF run] by blast
  then have es: "entries_ok es" "distinct (pl_data pl)" by (auto simp: pinned_ok_def)
  note pos = computeSortPosition_pinned [OF ok f]
  have rows: "distinct ?rows" "sorted_wrt (\<lambda>a b. ?s a \<ge> ?s b) ?rows" using date_run_ok [OF list] by (auto simp: list_ok_def sortKeyInChatList_def)
  have top: "uint (?s k) = 0xFFFFFFFFFFFF000F - ee_fixedOnTopIndex env k" if "k \<in> set ?rows" "?fixed k" for k
    using current fixed that FixedOnTopDialogPos_value [of "ee_fixedOnTopIndex env k"] by (simp add: position_current_def)
  have rest: "?s k = computeSortPosition 0 (es_entry es k)" if "k \<in> set ?rows" "\<not> ?fixed k" for k
    using current that by (simp add: position_current_def)
  have below: "uint (?s k) < 0xFFFFFFFF000000FF" if "k \<in> set ?rows" "\<not> ?fixed k" for k
  proof (cases "k \<in> set (pl_data pl)")
    case True
    then have "find_key k (pl_data pl) < length (pl_data pl)" by (simp add: find_key_less)
    then have "uint (PinnedDialogPos (int (find_key k (pl_data pl)) + 1)) = 0xFFFFFFFF000000FF - (int (find_key k (pl_data pl)) + 1)"
      using bounds(2) by (intro PinnedDialogPos_value) simp_all
    then show ?thesis using rest [OF that] pos(1) [OF True] by simp
  next
    case False
    then have "?s k < 2 ^ 63" using rest [OF that] pos(2) es(1) bounds(1) by (simp add: entries_ok_def)
    then show ?thesis by (simp add: word_less_def)
  qed
  let ?free = "filter (\<lambda>k. \<not> ?fixed k) ?rows"
  have high: "?s b < ?s a" if "a \<in> set ?rows" "b \<in> set ?rows" "?fixed a" "\<not> ?fixed b" for a b
  proof -
    have "ee_fixedOnTopIndex env a \<le> 2" using fixed by blast
    then show ?thesis using top [OF that(1,3)] below [OF that(2,4)] by (simp add: word_less_def)
  qed
  have split: "?rows = filter ?fixed ?rows @ ?free" by (rule sorted_partition [OF rows(2)]) (use high in blast)
  have free: "distinct ?free" "sorted_wrt (\<lambda>a b. ?s a \<ge> ?s b) ?free" using rows by (simp_all add: sorted_wrt_filter)
  have "?free = pinned_rows pl ?free @ filter (\<lambda>k. k \<notin> set (pl_data pl)) ?free"
    by (rule pinned_rows_first [OF free es(2) bounds(2)]) (use rest pos es(1) bounds(1) in \<open>auto simp: entries_ok_def\<close>)
  moreover have "pinned_rows pl ?free = filter (\<lambda>k. k \<in> set ?rows \<and> ee_fixedOnTopIndex env k = 0) (pl_data pl)" by (simp add: pinned_rows_def)
  moreover have "filter (\<lambda>k. k \<notin> set (pl_data pl)) ?free = filter (\<lambda>k. ee_fixedOnTopIndex env k = 0 \<and> k \<notin> set (pl_data pl)) ?rows"
    by (simp add: conj_commute)
  ultimately have 1: "?rows = filter ?fixed ?rows @ filter (\<lambda>k. k \<in> set ?rows \<and> ee_fixedOnTopIndex env k = 0) (pl_data pl)
      @ filter (\<lambda>k. ee_fixedOnTopIndex env k = 0 \<and> k \<notin> set (pl_data pl)) ?rows" using split by simp
  have "sorted_wrt (\<lambda>a b. ?s a \<ge> ?s b) (filter ?fixed ?rows)" using rows(2) by (rule sorted_wrt_filter)
  then have 2: "sorted_wrt (\<lambda>a b. ee_fixedOnTopIndex env a \<le> ee_fixedOnTopIndex env b) (filter ?fixed ?rows)"
    by (rule sorted_wrt_mono_rel [rotated]) (use top in \<open>auto simp: word_le_def\<close>)
  have "sorted_wrt (\<lambda>a b. ?s a \<ge> ?s b) (filter (\<lambda>k. ee_fixedOnTopIndex env k = 0 \<and> k \<notin> set (pl_data pl)) ?rows)" using rows(2) by (rule sorted_wrt_filter)
  then have 3: "sorted_wrt (\<lambda>a b. en_sortKeyByDate (es_entry es a) \<ge> en_sortKeyByDate (es_entry es b))
      (filter (\<lambda>k. ee_fixedOnTopIndex env k = 0 \<and> k \<notin> set (pl_data pl)) ?rows)"
    by (rule sorted_wrt_mono_rel [rotated]) (use rest pos(2) in auto)
  from 1 2 3 show ?thesis by blast
qed



definition archive_env :: "nat entry_env" where
  "archive_env = sample_entry_env\<lparr>ee_fixedOnTopIndex := (\<lambda>k. if k = 9 then 1 else 0)\<rparr>"

definition archive_entries :: "nat entries" where
  "archive_entries = updateChatListSortPosition archive_env 9 (updateChatListSortPosition archive_env 3 sample_entries)"

theorem main_list_order_witness: "\<exists>l :: nat chat_list. date_run (\<lambda>k. sortKeyInChatList 0 (es_entry archive_entries k)) l \<and> cl_rows l = [9, 3]"
proof -
  let ?s = "\<lambda>k. sortKeyInChatList 0 (es_entry archive_entries k)" and ?pl = "sample_pinned\<lparr>pl_filterId := 0\<rparr>"
  have env: "env_ok archive_env" "ee_needUpdateInChatList archive_env k" "\<not> ee_supportMode archive_env" for k
    by (simp_all add: env_ok_def archive_env_def sample_entry_env_def)
  have "pinned_run (\<lambda>k. True) (sample_entries, ?pl)"
    by (rule pinned_run.new [of _ 0 5]) (simp_all add: fresh_entries_def sample_entries_def pinned_new_def sample_pinned_def)
  then have run: "pinned_run (\<lambda>k. True) (archive_entries, ?pl)"
    unfolding archive_entries_def by (intro pinned_run.position [OF pinned_run.position [OF _ env(1)] env(1)])
  have shift: "es_shift archive_entries = 2"
    by (simp add: archive_entries_def updateChatListSortPosition_def archive_env_def sample_entry_env_def sample_entries_def DialogPosFromDate_def Let_def)
  have current: "position_current archive_env archive_entries 9" "position_current archive_env archive_entries 3"
    unfolding archive_entries_def using update_position_current [OF env(2,3)] by simp_all
  have ok: "list_ok (list_new SortDate)" "cl_mode (list_new SortDate) = SortDate" by (simp_all add: list_ok_def list_new_def)
  obtain l1 where l1: "list_addToEnd ?s 3 (list_new SortDate) = Some (l1, 3)" "added (newer ?s) 3 (list_new SortDate) l1"
    by (rule list_addToEnd_date [OF ok])
  then have ok1: "list_ok l1" "cl_mode l1 = SortDate" "set (cl_rows l1) = {3}" by (auto simp: added_def list_new_def)
  obtain l2 where l2: "list_addToEnd ?s 9 l1 = Some (l2, 9)" "added (newer ?s) 9 l1 l2" by (rule list_addToEnd_date [OF ok1(1,2)])
  then have set2: "set (cl_rows l2) = {3, 9}" "distinct (cl_rows l2)" using ok1 by (auto simp: added_def list_ok_def)
  have date: "date_run ?s l2" using date_run.add [OF date_run.add [OF date_run.new l1(1)] l2(1)] .
  have pl: "pl_filterId ?pl = 0" "pl_data ?pl = []" by (simp_all add: sample_pinned_def)
  have cur: "\<forall>k \<in> set (cl_rows l2). position_current archive_env archive_entries k"
    and fx: "\<forall>k. 0 \<le> ee_fixedOnTopIndex archive_env k \<and> ee_fixedOnTopIndex archive_env k \<le> 2" using current set2 by (auto simp: archive_env_def)
  have nine: "ee_fixedOnTopIndex archive_env k \<noteq> 0 \<longleftrightarrow> k = 9" "ee_fixedOnTopIndex archive_env k = 0 \<longleftrightarrow> k \<noteq> 9" for k by (simp_all add: archive_env_def)
  have "cl_rows l2 = filter (\<lambda>k. k = 9) (cl_rows l2) @ filter (\<lambda>k. k \<noteq> 9) (cl_rows l2)"
    using main_list_order [OF run pl(1) _ _ date cur fx, THEN conjunct1] pl(2) shift nine by simp
  moreover have "filter (\<lambda>k. k = 9) (cl_rows l2) = [9]" "filter (\<lambda>k. k \<noteq> 9) (cl_rows l2) = [3]" using set2 by (auto intro!: singleton_list)
  ultimately show ?thesis using date by auto
qed

end
