(* ===== verification/MainChats.thy ===== *)
theory MainChats
  imports IndexedList PinnedChats
begin

text \<open>
  \<open>dialogs/dialogs_main_list.{h,cpp}\<close>: a list of chats with the sums of the unread messages, chats and marks of
  its entries, as counted here and as the server reports them, and the unread state of a history
  (\<open>history/history.cpp\<close>). An operation returns the events it fires on \<open>unreadStateChanges\<close>: the state before it.
  The counters are integers; the \<open>int\<close> of the code does not overflow on the numbers of messages of an account.
\<close>

section \<open>Unread states\<close>

record unread_state =
  us_messages :: int
  us_messagesMuted :: int
  us_chats :: int
  us_chatsMuted :: int
  us_marks :: int
  us_marksMuted :: int
  us_known :: bool

definition unread_zero :: unread_state where
  "unread_zero = \<lparr>us_messages = 0, us_messagesMuted = 0, us_chats = 0, us_chatsMuted = 0, us_marks = 0, us_marksMuted = 0, us_known = False\<rparr>"

definition unread_add :: "unread_state \<Rightarrow> unread_state \<Rightarrow> unread_state" where
  "unread_add a b = a\<lparr>us_messages := us_messages a + us_messages b, us_messagesMuted := us_messagesMuted a + us_messagesMuted b,
     us_chats := us_chats a + us_chats b, us_chatsMuted := us_chatsMuted a + us_chatsMuted b,
     us_marks := us_marks a + us_marks b, us_marksMuted := us_marksMuted a + us_marksMuted b\<rparr>"

definition unread_sub :: "unread_state \<Rightarrow> unread_state \<Rightarrow> unread_state" where
  "unread_sub a b = a\<lparr>us_messages := us_messages a - us_messages b, us_messagesMuted := us_messagesMuted a - us_messagesMuted b,
     us_chats := us_chats a - us_chats b, us_chatsMuted := us_chatsMuted a - us_chatsMuted b,
     us_marks := us_marks a - us_marks b, us_marksMuted := us_marksMuted a - us_marksMuted b\<rparr>"

definition unread_empty :: "unread_state \<Rightarrow> bool" where
  "unread_empty a \<longleftrightarrow> us_messages a = 0 \<and> us_chats a = 0 \<and> us_marks a = 0"

text \<open>The part of a history that decides its unread state.\<close>

record history_unread =
  hu_unreadCount :: "int option"
  hu_unreadMark :: bool
  hu_mute :: bool

definition unreadCount :: "history_unread \<Rightarrow> int" where
  "unreadCount h = (case hu_unreadCount h of None \<Rightarrow> 0 | Some n \<Rightarrow> n)"

definition unreadCountForBadge :: "history_unread \<Rightarrow> int" where
  "unreadCountForBadge h = (if unreadCount h = 0 \<and> hu_unreadMark h then 1 else unreadCount h)"

definition chatListUnreadState :: "history_unread \<Rightarrow> unread_state" where
  "chatListUnreadState h =
     (let count = unreadCount h; mark = (count = 0 \<and> hu_unreadMark h) in
      \<lparr>us_messages = count, us_messagesMuted = (if hu_mute h then count else 0),
       us_chats = (if count \<noteq> 0 then 1 else 0), us_chatsMuted = (if count \<noteq> 0 \<and> hu_mute h then 1 else 0),
       us_marks = (if mark then 1 else 0), us_marksMuted = (if mark \<and> hu_mute h then 1 else 0),
       us_known = (hu_unreadCount h \<noteq> None)\<rparr>)"

text \<open>The setters: the new history and whether the lists are told of the state before.\<close>

definition setUnreadCount :: "int \<Rightarrow> history_unread \<Rightarrow> history_unread \<times> bool" where
  "setUnreadCount newUnreadCount h =
     (if hu_unreadCount h = Some newUnreadCount then (h, False) else (h\<lparr>hu_unreadCount := Some newUnreadCount\<rparr>, True))"

definition setUnreadMark :: "bool \<Rightarrow> bool \<Rightarrow> history_unread \<Rightarrow> history_unread \<times> bool" where
  "setUnreadMark clearUnreadOnClientSide mark h =
     (let unread = (if clearUnreadOnClientSide then False else mark) in
      if hu_unreadMark h = unread then (h, False)
      else (h\<lparr>hu_unreadMark := unread\<rparr>, unreadCount h = 0))"

definition changeMute :: "bool \<Rightarrow> history_unread \<Rightarrow> history_unread \<times> bool" where
  "changeMute newMute h =
     (if hu_mute h = newMute then (h, False) else (h\<lparr>hu_mute := newMute\<rparr>, unreadCountForBadge h > 0))"

section \<open>The main list\<close>

record ('k, 'c) main_list =
  ml_all :: "('k, 'c) indexed_list"
  ml_unreadState :: unread_state
  ml_cloudUnreadState :: unread_state
  ml_fullListSize :: int
  ml_cloudListSize :: int
  ml_loaded :: bool
  ml_allAreMuted :: bool

definition main_new :: "('k, 'c) main_list" where
  "main_new = \<lparr>ml_all = indexed_new SortDate, ml_unreadState = unread_zero\<lparr>us_known := True\<rparr>, ml_cloudUnreadState = unread_zero,
     ml_fullListSize = 0, ml_cloudListSize = 0, ml_loaded = False, ml_allAreMuted = False\<rparr>"

definition main_unreadState :: "('k, 'c) main_list \<Rightarrow> unread_state" where
  "main_unreadState ml =
     (let useCloudState = (us_known (ml_cloudUnreadState ml) \<and> \<not> ml_loaded ml);
          r1 = (if useCloudState
                then (ml_cloudUnreadState ml)\<lparr>us_marks := us_marks (ml_unreadState ml), us_marksMuted := us_marksMuted (ml_unreadState ml)\<rparr>
                else ml_unreadState ml)
      in if ml_allAreMuted ml
         then r1\<lparr>us_messagesMuted := us_messages r1, us_chatsMuted := us_chats r1, us_marksMuted := us_marks r1\<rparr> else r1)"

text \<open>\<open>unreadStateChangeNotifier\<close>: the state before the change is fired after it.\<close>

definition notifying :: "bool \<Rightarrow> (('k, 'c) main_list \<Rightarrow> ('k, 'c) main_list) \<Rightarrow> ('k, 'c) main_list \<Rightarrow> ('k, 'c) main_list \<times> unread_state list" where
  "notifying notify change ml = (change ml, if notify then [main_unreadState ml] else [])"

definition recomputeFullListSize :: "('k, 'c) main_list \<Rightarrow> ('k, 'c) main_list" where
  "recomputeFullListSize ml =
     ml\<lparr>ml_fullListSize := max (int (length (cl_rows (il_list (ml_all ml))))) (if ml_loaded ml then 0 else ml_cloudListSize ml)\<rparr>"

definition finalizeCloudUnread :: "('k, 'c) main_list \<Rightarrow> ('k, 'c) main_list" where
  "finalizeCloudUnread ml =
     (let c = ml_cloudUnreadState ml in
      ml\<lparr>ml_cloudUnreadState := c\<lparr>us_messagesMuted := us_messages c, us_chatsMuted := us_chats c, us_marksMuted := 0, us_marks := 0\<rparr>\<rparr>)"

definition main_setLoaded :: "bool \<Rightarrow> ('k, 'c) main_list \<Rightarrow> ('k, 'c) main_list \<times> unread_state list" where
  "main_setLoaded loaded ml =
     (if ml_loaded ml = loaded then (ml, [])
      else apfst recomputeFullListSize (notifying True (\<lambda>ml. ml\<lparr>ml_loaded := loaded\<rparr>) ml))"

definition main_setAllAreMuted :: "bool \<Rightarrow> ('k, 'c) main_list \<Rightarrow> ('k, 'c) main_list \<times> unread_state list" where
  "main_setAllAreMuted allAreMuted ml =
     (if ml_allAreMuted ml = allAreMuted then (ml, []) else notifying True (\<lambda>ml. ml\<lparr>ml_allAreMuted := allAreMuted\<rparr>) ml)"

definition main_setCloudListSize :: "int \<Rightarrow> ('k, 'c) main_list \<Rightarrow> ('k, 'c) main_list" where
  "main_setCloudListSize n ml = (if ml_cloudListSize ml = n then ml else recomputeFullListSize (ml\<lparr>ml_cloudListSize := n\<rparr>))"

definition main_clear :: "('k, 'c) main_list \<Rightarrow> ('k, 'c) main_list \<times> unread_state list" where
  "main_clear ml =
     apfst recomputeFullListSize
       (notifying True (\<lambda>ml. ml\<lparr>ml_all := indexed_clear (ml_all ml), ml_unreadState := unread_zero\<lparr>us_known := True\<rparr>,
          ml_cloudUnreadState := unread_zero\<lparr>us_known := True\<rparr>, ml_cloudListSize := 0\<rparr>) ml)"

definition main_unreadStateChanged ::
  "unread_state \<Rightarrow> unread_state \<Rightarrow> ('k, 'c) main_list \<Rightarrow> (('k, 'c) main_list \<times> unread_state list) option" where
  "main_unreadStateChanged wasState nowState ml =
     (let useClouded = (us_known (ml_cloudUnreadState ml) \<and> \<not> ml_loaded ml);
          updateCloudUnread = (us_known (ml_cloudUnreadState ml) \<and> us_known wasState);
          notify = (\<not> useClouded \<or> us_known wasState) in
      if updateCloudUnread \<and> \<not> us_known nowState then None
      else Some (notifying notify (\<lambda>ml.
        let ml1 = ml\<lparr>ml_unreadState := unread_add (ml_unreadState ml) (unread_sub nowState wasState)\<rparr> in
        if updateCloudUnread
        then finalizeCloudUnread (ml1\<lparr>ml_cloudUnreadState := unread_add (ml_cloudUnreadState ml1) (unread_sub nowState wasState)\<rparr>)
        else ml1) ml))"

definition main_unreadEntryChanged :: "unread_state \<Rightarrow> bool \<Rightarrow> ('k, 'c) main_list \<Rightarrow> ('k, 'c) main_list \<times> unread_state list" where
  "main_unreadEntryChanged state isAdded ml =
     (if unread_empty state then (ml, [])
      else let updateCloudUnread = (us_known (ml_cloudUnreadState ml) \<and> us_known state);
               notify = (\<not> us_known (ml_cloudUnreadState ml) \<or> ml_loaded ml \<or> us_known state);
               change = (\<lambda>a. if isAdded then unread_add a state else unread_sub a state) in
        notifying notify (\<lambda>ml.
          let ml1 = ml\<lparr>ml_unreadState := change (ml_unreadState ml)\<rparr> in
          if updateCloudUnread then finalizeCloudUnread (ml1\<lparr>ml_cloudUnreadState := change (ml_cloudUnreadState ml1)\<rparr>) else ml1) ml)"

text \<open>\<open>updateCloudUnread\<close> with the counters of \<open>dialogFolder\<close>.\<close>

definition main_updateCloudUnread :: "int \<Rightarrow> int \<Rightarrow> int \<Rightarrow> int \<Rightarrow> ('k, 'c) main_list \<Rightarrow> ('k, 'c) main_list \<times> unread_state list" where
  "main_updateCloudUnread mutedMessages unmutedMessages mutedPeers unmutedPeers ml =
     notifying (\<not> ml_loaded ml) (\<lambda>ml.
       let c = (ml_cloudUnreadState ml)\<lparr>us_messages := mutedMessages + unmutedMessages, us_chats := mutedPeers + unmutedPeers\<rparr>;
           ml1 = finalizeCloudUnread (ml\<lparr>ml_cloudUnreadState := c\<rparr>)
       in ml1\<lparr>ml_cloudUnreadState := (ml_cloudUnreadState ml1)\<lparr>us_known := True\<rparr>\<rparr>) ml"

definition main_addEntry ::
  "('k \<Rightarrow> u64) \<Rightarrow> ('k \<Rightarrow> 'c::linorder list) \<Rightarrow> unread_state \<Rightarrow> 'k \<Rightarrow> ('k, 'c) main_list
    \<Rightarrow> (('k, 'c) main_list \<times> ('k, 'c) rows_by_letter \<times> unread_state list) option" where
  "main_addEntry sortKey firstLetters unread key ml =
     map_option (\<lambda>(all, links).
       let (ml1, fired) = main_unreadEntryChanged unread True (ml\<lparr>ml_all := all\<rparr>)
       in (recomputeFullListSize ml1, links, fired))
     (indexed_addToEnd sortKey firstLetters key (ml_all ml))"

definition main_removeEntry ::
  "('k \<Rightarrow> 'c list) \<Rightarrow> unread_state \<Rightarrow> 'k \<Rightarrow> ('k, 'c) main_list \<Rightarrow> (('k, 'c) main_list \<times> unread_state list) option" where
  "main_removeEntry firstLetters unread key ml =
     map_option (\<lambda>all.
       let (ml1, fired) = main_unreadEntryChanged unread False (ml\<lparr>ml_all := all\<rparr>)
       in (recomputeFullListSize ml1, fired))
     (indexed_del firstLetters key (ml_all ml))"

text \<open>\<open>IndexedList::movePinned\<close>: the chat that a pinned chat changes places with.\<close>

definition movePinned_with :: "'k \<Rightarrow> int \<Rightarrow> 'k chat_list \<Rightarrow> 'k option" where
  "movePinned_with row deltaSign l =
     (case cl_pos l row of
        None \<Rightarrow> None
      | Some i \<Rightarrow>
          if deltaSign > 0 then (if Suc i < length (cl_rows l) then Some (cl_rows l ! Suc i) else None)
          else if i = 0 then None else Some (cl_rows l ! (i - 1)))"

definition indexed_movePinned :: "'k entry_env \<Rightarrow> 'k \<Rightarrow> int \<Rightarrow> ('k, 'c) indexed_list \<Rightarrow> 'k pinned_state \<Rightarrow> 'k pinned_state option" where
  "indexed_movePinned env row deltaSign il st =
     Option.bind (movePinned_with row deltaSign (il_list il)) (\<lambda>other. pinned_reorder env row other st)"


section \<open>The counters are the sums over the entries\<close>

text \<open>Unread states as they come from entries: the muted part is within the whole.\<close>

definition unread_wf :: "unread_state \<Rightarrow> bool" where
  "unread_wf a \<longleftrightarrow> 0 \<le> us_messagesMuted a \<and> us_messagesMuted a \<le> us_messages a \<and> 0 \<le> us_chatsMuted a \<and> us_chatsMuted a \<le> us_chats a
     \<and> 0 \<le> us_marksMuted a \<and> us_marksMuted a \<le> us_marks a"

definition unread_totals :: "unread_state \<Rightarrow> int list" where
  "unread_totals a = [us_messages a, us_messagesMuted a, us_chats a, us_chatsMuted a, us_marks a, us_marksMuted a]"

definition unread_sums :: "('k \<Rightarrow> unread_state) \<Rightarrow> 'k set \<Rightarrow> int list" where
  "unread_sums u K = [\<Sum>k\<in>K. us_messages (u k), \<Sum>k\<in>K. us_messagesMuted (u k), \<Sum>k\<in>K. us_chats (u k), \<Sum>k\<in>K. us_chatsMuted (u k),
     \<Sum>k\<in>K. us_marks (u k), \<Sum>k\<in>K. us_marksMuted (u k)]"

lemma chatListUnreadState_wf: "0 \<le> unreadCount h \<Longrightarrow> unread_wf (chatListUnreadState h)"
  by (simp add: unread_wf_def chatListUnreadState_def Let_def)

lemma setters_notify:
  assumes "0 \<le> unreadCount h"
  shows "\<not> snd (setUnreadCount n h) \<Longrightarrow> chatListUnreadState (fst (setUnreadCount n h)) = chatListUnreadState h"
    "\<not> snd (setUnreadMark c m h) \<Longrightarrow> chatListUnreadState (fst (setUnreadMark c m h)) = chatListUnreadState h"
    "\<not> snd (changeMute b h) \<Longrightarrow> chatListUnreadState (fst (changeMute b h)) = chatListUnreadState h"
  using assms by (auto simp: setUnreadCount_def setUnreadMark_def changeMute_def chatListUnreadState_def unreadCount_def unreadCountForBadge_def Let_def
      split: if_splits option.splits)

lemma unread_empty_totals: "unread_wf a \<Longrightarrow> unread_empty a \<Longrightarrow> unread_totals a = [0, 0, 0, 0, 0, 0]"
  by (auto simp: unread_wf_def unread_empty_def unread_totals_def)

lemma totals_change:
  "unread_totals (unread_add a b) = map2 (+) (unread_totals a) (unread_totals b)"
  "unread_totals (unread_sub a b) = map2 (-) (unread_totals a) (unread_totals b)"
  by (simp_all add: unread_totals_def unread_add_def unread_sub_def)

lemma sums_insert: "finite K \<Longrightarrow> k \<notin> K \<Longrightarrow> unread_sums u (insert k K) = map2 (+) (unread_sums u K) (unread_totals (u k))"
  by (simp add: unread_sums_def unread_totals_def)

lemma sums_remove: "finite K \<Longrightarrow> k \<in> K \<Longrightarrow> unread_sums u (K - {k}) = map2 (-) (unread_sums u K) (unread_totals (u k))"
  by (simp add: unread_sums_def unread_totals_def sum_diff1)

lemma sums_change:
  assumes "finite K" "k \<in> K"
  shows "unread_sums (u(k := x)) K = map2 (+) (unread_sums u K) (map2 (-) (unread_totals x) (unread_totals (u k)))"
proof -
  have K: "K = insert k (K - {k})" using assms(2) by blast
  have "(\<Sum>j\<in>K. g ((u(k := x)) j)) = (\<Sum>j\<in>K. g (u j)) + (g x - g (u k))" for g :: "unread_state \<Rightarrow> int"
    using assms by (subst (1 2) K, subst (1 2) sum.insert) auto
  then show ?thesis by (simp add: unread_sums_def unread_totals_def del: fun_upd_apply)
qed

lemma sums_other: "k \<notin> K \<Longrightarrow> unread_sums (u(k := x)) K = unread_sums u K"
  by (simp add: unread_sums_def) (intro conjI sum.cong; auto)

text \<open>What the operations leave of the list and of the counters.\<close>

lemma finalize_keeps [simp]:
  "ml_all (finalizeCloudUnread ml) = ml_all ml" "ml_unreadState (finalizeCloudUnread ml) = ml_unreadState ml"
  "ml_fullListSize (finalizeCloudUnread ml) = ml_fullListSize ml" "ml_cloudListSize (finalizeCloudUnread ml) = ml_cloudListSize ml"
  "ml_loaded (finalizeCloudUnread ml) = ml_loaded ml" "ml_allAreMuted (finalizeCloudUnread ml) = ml_allAreMuted ml"
  by (simp_all add: finalizeCloudUnread_def Let_def)

lemma recompute_keeps [simp]:
  "ml_all (recomputeFullListSize ml) = ml_all ml" "ml_unreadState (recomputeFullListSize ml) = ml_unreadState ml"
  "ml_cloudListSize (recomputeFullListSize ml) = ml_cloudListSize ml" "ml_loaded (recomputeFullListSize ml) = ml_loaded ml"
  "ml_fullListSize (recomputeFullListSize ml) = max (int (length (cl_rows (il_list (ml_all ml))))) (if ml_loaded ml then 0 else ml_cloudListSize ml)"
  by (simp_all add: recomputeFullListSize_def)

definition full_size_ok :: "('k, 'c) main_list \<Rightarrow> bool" where
  "full_size_ok ml \<longleftrightarrow> ml_fullListSize ml = max (int (length (cl_rows (il_list (ml_all ml))))) (if ml_loaded ml then 0 else ml_cloudListSize ml)"

lemma unreadEntryChanged_totals:
  assumes "unread_wf a"
  shows "ml_all (fst (main_unreadEntryChanged a b ml)) = ml_all ml"
    "unread_totals (ml_unreadState (fst (main_unreadEntryChanged a b ml)))
      = map2 (if b then (+) else (-)) (unread_totals (ml_unreadState ml)) (unread_totals a)"
proof -
  show "ml_all (fst (main_unreadEntryChanged a b ml)) = ml_all ml" by (simp add: main_unreadEntryChanged_def notifying_def Let_def)
  show "unread_totals (ml_unreadState (fst (main_unreadEntryChanged a b ml)))
      = map2 (if b then (+) else (-)) (unread_totals (ml_unreadState ml)) (unread_totals a)"
  proof (cases "unread_empty a")
    case True
    then have "main_unreadEntryChanged a b ml = (ml, [])" by (simp add: main_unreadEntryChanged_def)
    then show ?thesis using unread_empty_totals [OF assms True] by (simp add: unread_totals_def)
  next
    case False
    then have "ml_unreadState (fst (main_unreadEntryChanged a b ml)) = (if b then unread_add (ml_unreadState ml) a else unread_sub (ml_unreadState ml) a)"
      by (simp add: main_unreadEntryChanged_def notifying_def Let_def)
    then show ?thesis by (simp add: totals_change)
  qed
qed

lemma unreadStateChanged_totals:
  assumes "main_unreadStateChanged was now ml = Some (ml', fired)"
  shows "ml_all ml' = ml_all ml" "ml_fullListSize ml' = ml_fullListSize ml" "ml_loaded ml' = ml_loaded ml" "ml_cloudListSize ml' = ml_cloudListSize ml"
    "unread_totals (ml_unreadState ml') = map2 (+) (unread_totals (ml_unreadState ml)) (map2 (-) (unread_totals now) (unread_totals was))"
  using assms by (auto simp: main_unreadStateChanged_def notifying_def Let_def totals_change split: if_splits)


section \<open>Runs\<close>

text \<open>
  A list by date with its counters: entries come (\<open>Entry::addToChatList\<close>), go (\<open>removeFromChatList\<close>), move and are
  renamed as in a run of the indexed list; an entry in the list tells it of its old and new unread state
  (\<open>notifyUnreadStateChange\<close>); the server reports its counters and the size of the list.
\<close>

inductive main_run ::
  "('k \<Rightarrow> u64) \<Rightarrow> ('k \<Rightarrow> 'c::linorder entry_names) \<Rightarrow> ('k \<rightharpoonup> ('k, 'c) rows_by_letter) \<Rightarrow> ('k \<Rightarrow> unread_state) \<Rightarrow> ('k, 'c) main_list \<Rightarrow> bool" where
  new: "(\<And>k. named (N k)) \<Longrightarrow> (\<And>k. unread_wf (u k)) \<Longrightarrow> main_run s N Map.empty u main_new"
| add: "main_run s N links u ml \<Longrightarrow> links k = None \<Longrightarrow> main_addEntry s (letters_of N) (u k) k ml = Some (ml', r, fired)
    \<Longrightarrow> main_run s N (links(k \<mapsto> r)) u ml'"
| remove: "main_run s N links u ml \<Longrightarrow> links k \<noteq> None \<Longrightarrow> main_removeEntry (letters_of N) (u k) k ml = Some (ml', fired)
    \<Longrightarrow> main_run s N (links(k := None)) u ml'"
| move: "main_run s N links u ml \<Longrightarrow> links k = Some r \<Longrightarrow> indexed_adjustByDate (s(k := x)) r (ml_all ml) = Some il
    \<Longrightarrow> main_run (s(k := x)) N links u (ml\<lparr>ml_all := il\<rparr>)"
| move_other: "main_run s N links u ml \<Longrightarrow> links k = None \<Longrightarrow> main_run (s(k := x)) N links u ml"
| rename: "main_run s N links u ml \<Longrightarrow> named nm
    \<Longrightarrow> indexed_peerNameChangedByDate s (letters_of (N(k := nm))) True k (letters_of N k) (links k) (ml_all ml) = Some (il, r)
    \<Longrightarrow> main_run s (N(k := nm)) (links(k := r)) u (ml\<lparr>ml_all := il\<rparr>)"
| unread: "main_run s N links u ml \<Longrightarrow> links k \<noteq> None \<Longrightarrow> unread_wf x \<Longrightarrow> main_unreadStateChanged (u k) x ml = Some (ml', fired)
    \<Longrightarrow> main_run s N links (u(k := x)) ml'"
| unread_other: "main_run s N links u ml \<Longrightarrow> links k = None \<Longrightarrow> unread_wf x \<Longrightarrow> main_run s N links (u(k := x)) ml"
| cloud: "main_run s N links u ml \<Longrightarrow> main_run s N links u (fst (main_updateCloudUnread a b c d ml))"
| loaded: "main_run s N links u ml \<Longrightarrow> main_run s N links u (fst (main_setLoaded l ml))"
| muted: "main_run s N links u ml \<Longrightarrow> main_run s N links u (fst (main_setAllAreMuted m ml))"
| cloud_size: "main_run s N links u ml \<Longrightarrow> main_run s N links u (main_setCloudListSize n ml)"

definition main_ok ::
  "('k \<Rightarrow> u64) \<Rightarrow> ('k \<Rightarrow> 'c::linorder entry_names) \<Rightarrow> ('k \<rightharpoonup> ('k, 'c) rows_by_letter) \<Rightarrow> ('k \<Rightarrow> unread_state) \<Rightarrow> ('k, 'c) main_list \<Rightarrow> bool" where
  "main_ok s N links u ml \<longleftrightarrow> chats_ok s N links (ml_all ml) \<and> (\<forall>k. unread_wf (u k))
     \<and> unread_totals (ml_unreadState ml) = unread_sums u (dom links) \<and> full_size_ok ml"

lemma chats_ok_rows:
  assumes "chats_ok s N links il"
  shows "set (cl_rows (il_list il)) = dom links" "distinct (cl_rows (il_list il))" "finite (dom links)" "length (cl_rows (il_list il)) = card (dom links)"
proof -
  show 1: "set (cl_rows (il_list il)) = dom links" and 2: "distinct (cl_rows (il_list il))"
    using assms by (auto simp: chats_ok_def indexed_ok_def list_is_def list_ok_def)
  from 1 show "finite (dom links)" by (metis finite_set)
  from 1 2 show "length (cl_rows (il_list il)) = card (dom links)" by (metis distinct_card)
qed

lemma full_size_same:
  assumes "full_size_ok ml" "chats_ok s N links (ml_all ml)" "chats_ok s' N' links' il" "card (dom links') = card (dom links)"
  shows "full_size_ok (ml\<lparr>ml_all := il\<rparr>)"
  using assms chats_ok_rows(4) [OF assms(2)] chats_ok_rows(4) [OF assms(3)] by (simp add: full_size_ok_def)

lemma main_addEntry_ok:
  assumes ok: "main_ok s N links u ml" and k: "links k = None"
  obtains ml' r fired where "main_addEntry s (letters_of N) (u k) k ml = Some (ml', r, fired)" "main_ok s N (links(k \<mapsto> r)) u ml'"
proof -
  have all: "chats_ok s N links (ml_all ml)" "unread_wf (u k)" "\<forall>k. unread_wf (u k)" "unread_totals (ml_unreadState ml) = unread_sums u (dom links)"
    using ok by (auto simp: main_ok_def)
  obtain il r where il: "indexed_addToEnd s (letters_of N) k (ml_all ml) = Some (il, r)" "chats_ok s N (links(k \<mapsto> r)) il"
    by (rule chats_ok_add [OF all(1) k])
  let ?ml = "fst (main_unreadEntryChanged (u k) True (ml\<lparr>ml_all := il\<rparr>))"
  have "unread_totals (ml_unreadState ?ml) = unread_sums u (dom (links(k \<mapsto> r)))"
    using unreadEntryChanged_totals(2) [OF all(2), of True "ml\<lparr>ml_all := il\<rparr>"] all(4) sums_insert [OF chats_ok_rows(3) [OF all(1)], of k u] k
    by (simp add: domIff)
  moreover have "ml_all ?ml = il" by (simp add: unreadEntryChanged_totals(1) [OF all(2)])
  ultimately have "main_ok s N (links(k \<mapsto> r)) u (recomputeFullListSize ?ml)" using il(2) all(3) by (simp add: main_ok_def full_size_ok_def)
  moreover have "main_addEntry s (letters_of N) (u k) k ml = Some (recomputeFullListSize ?ml, r, snd (main_unreadEntryChanged (u k) True (ml\<lparr>ml_all := il\<rparr>)))"
    using il(1) by (simp add: main_addEntry_def split_beta)
  ultimately show thesis using that by blast
qed

lemma main_removeEntry_ok:
  assumes ok: "main_ok s N links u ml" and k: "links k \<noteq> None"
  obtains ml' fired where "main_removeEntry (letters_of N) (u k) k ml = Some (ml', fired)" "main_ok s N (links(k := None)) u ml'"
proof -
  have all: "chats_ok s N links (ml_all ml)" "unread_wf (u k)" "\<forall>k. unread_wf (u k)" "unread_totals (ml_unreadState ml) = unread_sums u (dom links)"
    using ok by (auto simp: main_ok_def)
  obtain il where il: "indexed_del (letters_of N) k (ml_all ml) = Some il" "chats_ok s N (links(k := None)) il"
    by (rule chats_ok_remove [OF all(1)])
  let ?ml = "fst (main_unreadEntryChanged (u k) False (ml\<lparr>ml_all := il\<rparr>))"
  have "unread_totals (ml_unreadState ?ml) = unread_sums u (dom (links(k := None)))"
    using unreadEntryChanged_totals(2) [OF all(2), of False "ml\<lparr>ml_all := il\<rparr>"] all(4) sums_remove [OF chats_ok_rows(3) [OF all(1)], of k u] k
    by (auto simp: domIff)
  moreover have "ml_all ?ml = il" by (simp add: unreadEntryChanged_totals(1) [OF all(2)])
  ultimately have "main_ok s N (links(k := None)) u (recomputeFullListSize ?ml)" using il(2) all(3) by (simp add: main_ok_def full_size_ok_def)
  moreover have "main_removeEntry (letters_of N) (u k) k ml = Some (recomputeFullListSize ?ml, snd (main_unreadEntryChanged (u k) False (ml\<lparr>ml_all := il\<rparr>)))"
    using il(1) by (simp add: main_removeEntry_def split_beta)
  ultimately show thesis using that by blast
qed

lemma main_ok_all:
  assumes "main_ok s N links u ml" "chats_ok s' N' links' il" "dom links' = dom links"
  shows "main_ok s' N' links' u (ml\<lparr>ml_all := il\<rparr>)"
  using assms full_size_same [of ml s N links s' N' links' il] by (simp add: main_ok_def)

lemma indexed_rename_rows:
  assumes "set (cl_rows (il_list il')) = dom links'" "set (cl_rows (il_list il)) = dom links"
    "indexed_peerNameChangedByDate s L True k old r il = Some (il', r')"
  shows "dom links' = dom links"
proof -
  have "il_list il' = il_list il"
    using assms(3) by (auto simp: indexed_peerNameChangedByDate_def indexed_adjustNames_def Let_def split_beta split: if_splits option.splits bind_splits)
  then show ?thesis using assms(1,2) by simp
qed

lemma main_run_ok: "main_run s N links u ml \<Longrightarrow> main_ok s N links u ml"
proof (induction rule: main_run.induct)
  case (new N u s)
  then show ?case
    by (simp add: main_ok_def main_new_def chats_ok_def indexed_new_ok unread_totals_def unread_zero_def unread_sums_def full_size_ok_def)
      (simp add: indexed_new_def list_new_def)
next
  case (add s N links u ml k ml' r fired)
  then show ?case using main_addEntry_ok [OF add.IH add.hyps(2)] by (metis option.inject prod.inject)
next
  case (remove s N links u ml k ml' fired)
  then show ?case using main_removeEntry_ok [OF remove.IH remove.hyps(2)] by (metis option.inject prod.inject)
next
  case (move s N links u ml k r x il)
  then have "chats_ok s N links (ml_all ml)" by (simp add: main_ok_def)
  then have "chats_ok (s(k := x)) N links il" using chats_ok_move [of s N links "ml_all ml" k r x] move.hyps(2,3) by (metis option.inject)
  then show ?case using main_ok_all [OF move.IH] by blast
next
  case (move_other s N links u ml k x)
  have "chats_ok (s(k := x)) N links (ml_all ml)" by (rule chats_ok_move_other) (use move_other in \<open>simp_all add: main_ok_def\<close>)
  then show ?case using move_other.IH by (simp add: main_ok_def del: fun_upd_apply)
next
  case (rename s N links u ml nm k il r)
  then have ok: "chats_ok s N links (ml_all ml)" by (simp add: main_ok_def)
  have il: "chats_ok s (N(k := nm)) (links(k := r)) il" using chats_ok_rename [OF ok rename.hyps(2), of k] rename.hyps(3) by (metis option.inject prod.inject)
  have "dom (links(k := r)) = dom links" using chats_ok_rows(1) [OF il] chats_ok_rows(1) [OF ok] rename.hyps(3) by (rule indexed_rename_rows)
  then show ?case using main_ok_all [OF rename.IH il] by blast
next
  case (unread s N links u ml k x ml' fired)
  note t = unreadStateChanged_totals [OF unread.hyps(4)]
  have ok: "chats_ok s N links (ml_all ml)" "unread_totals (ml_unreadState ml) = unread_sums u (dom links)" using unread.IH by (auto simp: main_ok_def)
  have "unread_totals (ml_unreadState ml') = unread_sums (u(k := x)) (dom links)"
    using t(5) ok(2) sums_change [OF chats_ok_rows(3) [OF ok(1)], of k u x] unread.hyps(2) by (auto simp: domIff)
  moreover have "\<forall>j. unread_wf ((u(k := x)) j)" using unread.IH unread.hyps(3) by (simp add: main_ok_def)
  ultimately show ?case using unread.IH t(1-4) by (simp add: main_ok_def full_size_ok_def del: fun_upd_apply)
next
  case (unread_other s N links u ml k x)
  have "unread_sums (u(k := x)) (dom links) = unread_sums u (dom links)" by (rule sums_other) (use unread_other.hyps in \<open>simp add: domIff\<close>)
  moreover have "\<forall>j. unread_wf ((u(k := x)) j)" using unread_other.IH unread_other.hyps(3) by (simp add: main_ok_def)
  ultimately show ?case using unread_other.IH by (simp add: main_ok_def del: fun_upd_apply)
next
  case (cloud s N links u ml a b c d)
  then show ?case by (simp add: main_ok_def main_updateCloudUnread_def notifying_def Let_def full_size_ok_def)
next
  case (loaded s N links u ml l)
  then show ?case by (simp add: main_ok_def main_setLoaded_def notifying_def full_size_ok_def)
next
  case (muted s N links u ml m)
  then show ?case by (simp add: main_ok_def main_setAllAreMuted_def notifying_def full_size_ok_def)
next
  case (cloud_size s N links u ml n)
  then show ?case by (simp add: main_ok_def main_setCloudListSize_def full_size_ok_def)
qed



definition sample_unread :: "nat \<Rightarrow> unread_state" where
  "sample_unread k = chatListUnreadState \<lparr>hu_unreadCount = Some (int k), hu_unreadMark = True, hu_mute = (k = 5)\<rparr>"


section \<open>Two gaps\<close>

text \<open>
  While the counters of the server are shown, a change of the mark of a chat whose unread count is not known
  changes the state shown, since marks are counted here, and no event is fired.
\<close>

theorem mark_changes_silently:
  "\<exists>(ml :: (nat, nat) main_list) ml' h. setUnreadMark False True h = (h\<lparr>hu_unreadMark := True\<rparr>, True)
    \<and> main_unreadStateChanged (chatListUnreadState h) (chatListUnreadState (h\<lparr>hu_unreadMark := True\<rparr>)) ml = Some (ml', [])
    \<and> main_unreadState ml' \<noteq> main_unreadState ml"
proof -
  let ?ml = "fst (main_updateCloudUnread 0 1 0 1 (main_new :: (nat, nat) main_list))" and ?h = "\<lparr>hu_unreadCount = None, hu_unreadMark = False, hu_mute = False\<rparr>"
  have "main_unreadStateChanged (chatListUnreadState ?h) (chatListUnreadState (?h\<lparr>hu_unreadMark := True\<rparr>)) ?ml
    = Some (?ml\<lparr>ml_unreadState := (ml_unreadState ?ml)\<lparr>us_marks := 1\<rparr>\<rparr>, [])"
    by (simp add: main_unreadStateChanged_def chatListUnreadState_def unreadCount_def notifying_def main_updateCloudUnread_def finalizeCloudUnread_def
        main_new_def unread_zero_def unread_add_def unread_sub_def)
  moreover have "main_unreadState (?ml\<lparr>ml_unreadState := (ml_unreadState ?ml)\<lparr>us_marks := 1\<rparr>\<rparr>) \<noteq> main_unreadState ?ml"
    by (simp add: main_unreadState_def main_updateCloudUnread_def finalizeCloudUnread_def notifying_def main_new_def unread_zero_def Let_def)
  moreover have "setUnreadMark False True ?h = (?h\<lparr>hu_unreadMark := True\<rparr>, True)" by (simp add: setUnreadMark_def unreadCount_def)
  ultimately show ?thesis by blast
qed

text \<open>Clearing a list empties its letters and its counters, and leaves the rows.\<close>

lemma main_clear_keeps_rows:
  "il_list (ml_all (fst (main_clear ml))) = il_list (ml_all ml) \<and> indexed_filtered W ((ch # chs) # ws) (ml_all (fst (main_clear ml))) = []
    \<and> unread_totals (ml_unreadState (fst (main_clear ml))) = [0, 0, 0, 0, 0, 0]"
  by (simp add: main_clear_def notifying_def indexed_clear_def indexed_filtered_def unread_totals_def unread_zero_def)

end
