(* ===== verification/ChatFilters.thy ===== *)
theory ChatFilters
  imports FlatMap PinnedChats
begin

text \<open>
  \<open>data/data_chat_filters.{h,cpp}\<close>: the folders of chats a user defines (chat filters), which chats each of them
  contains, and the list of filters as the server orders and changes it. A history is any linearly ordered
  value (the code orders pointers); what it answers is a record. The chat list of a filter appears as the set
  of its chats and the order of the pinned ones, which the theories of the lists refine. \<open>chats\<close> are the histories
  of the main list and of the archive. \<open>None\<close> is a failed assertion.
\<close>

section \<open>A filter\<close>

type_synonym filter_flags = u8

abbreviation flag_Contacts :: filter_flags where "flag_Contacts \<equiv> 0x01"
abbreviation flag_NonContacts :: filter_flags where "flag_NonContacts \<equiv> 0x02"
abbreviation flag_Groups :: filter_flags where "flag_Groups \<equiv> 0x04"
abbreviation flag_Channels :: filter_flags where "flag_Channels \<equiv> 0x08"
abbreviation flag_Bots :: filter_flags where "flag_Bots \<equiv> 0x10"
abbreviation flag_NoMuted :: filter_flags where "flag_NoMuted \<equiv> 0x20"
abbreviation flag_NoRead :: filter_flags where "flag_NoRead \<equiv> 0x40"
abbreviation flag_NoArchived :: filter_flags where "flag_NoArchived \<equiv> 0x80"

record 'h chat_filter =
  cf_id :: filter_id
  cf_title :: string
  cf_iconEmoji :: string
  cf_flags :: filter_flags
  cf_always :: "'h list"
  cf_pinned :: "'h list"
  cf_never :: "'h list"

definition filter_empty :: "filter_id \<Rightarrow> 'h chat_filter" where
  "filter_empty i = \<lparr>cf_id = i, cf_title = [], cf_iconEmoji = [], cf_flags = 0, cf_always = [], cf_pinned = [], cf_never = []\<rparr>"

definition filter_default :: "'h chat_filter" where
  "filter_default = filter_empty 0"

text \<open>What a history and its peer answer.\<close>

datatype peer_kind = PeerUser bool bool | PeerChat | PeerChannel bool

record history_traits =
  ht_peer :: peer_kind
  ht_mute :: bool
  ht_unreadMentions :: bool
  ht_folderKnown :: bool
  ht_inFolder :: bool
  ht_unreadCount :: int
  ht_unreadMark :: bool
  ht_fakeUnreadWhileOpened :: bool

fun peer_flag :: "peer_kind \<Rightarrow> filter_flags" where
  "peer_flag (PeerUser isBot isContact) = (if isBot then flag_Bots else if isContact then flag_Contacts else flag_NonContacts)"
| "peer_flag PeerChat = flag_Groups"
| "peer_flag (PeerChannel isBroadcast) = (if isBroadcast then flag_Channels else flag_Groups)"

definition has_flag :: "filter_flags \<Rightarrow> filter_flags \<Rightarrow> bool" where
  "has_flag fl f \<longleftrightarrow> fl AND f \<noteq> 0"

definition filter_contains :: "('h::linorder \<Rightarrow> history_traits) \<Rightarrow> 'h chat_filter \<Rightarrow> 'h \<Rightarrow> bool" where
  "filter_contains traits f h =
     (let t = traits h; fl = cf_flags f in
      if flat_multi_set_contains (<) h (cf_never f) then False
      else (has_flag fl (peer_flag (ht_peer t))
          \<and> (\<not> has_flag fl flag_NoMuted \<or> \<not> ht_mute t \<or> (ht_unreadMentions t \<and> ht_folderKnown t \<and> \<not> ht_inFolder t))
          \<and> (\<not> has_flag fl flag_NoRead \<or> ht_unreadCount t \<noteq> 0 \<or> ht_unreadMark t \<or> ht_unreadMentions t \<or> ht_fakeUnreadWhileOpened t)
          \<and> (\<not> has_flag fl flag_NoArchived \<or> (ht_folderKnown t \<and> \<not> ht_inFolder t)))
        \<or> flat_multi_set_contains (<) h (cf_always f))"

section \<open>Filters on the wire\<close>

record 'p tl_filter =
  tf_id :: filter_id
  tf_title :: string
  tf_emoticon :: "string option"
  tf_contacts :: bool
  tf_non_contacts :: bool
  tf_groups :: bool
  tf_broadcasts :: bool
  tf_bots :: bool
  tf_exclude_muted :: bool
  tf_exclude_read :: bool
  tf_exclude_archived :: bool
  tf_pinned_peers :: "'p list"
  tf_include_peers :: "'p list"
  tf_exclude_peers :: "'p list"

text \<open>\<open>None\<close> is \<open>dialogFilterDefault\<close>; \<open>to_history\<close> finds the history of an input peer, when it names one.\<close>

definition to_histories :: "('p \<Rightarrow> 'h option) \<Rightarrow> 'p list \<Rightarrow> 'h list" where
  "to_histories to_history peers = map the (filter (\<lambda>h. h \<noteq> None) (map to_history peers))"

definition FromTL :: "('p \<Rightarrow> 'h::linorder option) \<Rightarrow> 'p tl_filter option \<Rightarrow> 'h chat_filter" where
  "FromTL to_history data =
     (case data of
        None \<Rightarrow> filter_default
      | Some d \<Rightarrow>
          let fl = (if tf_contacts d then flag_Contacts else 0) OR (if tf_non_contacts d then flag_NonContacts else 0)
                OR (if tf_groups d then flag_Groups else 0) OR (if tf_broadcasts d then flag_Channels else 0)
                OR (if tf_bots d then flag_Bots else 0) OR (if tf_exclude_muted d then flag_NoMuted else 0)
                OR (if tf_exclude_read d then flag_NoRead else 0) OR (if tf_exclude_archived d then flag_NoArchived else 0);
              always = to_histories to_history (tf_include_peers d);
              pinned = to_histories to_history (tf_pinned_peers d);
              never = to_histories to_history (tf_exclude_peers d)
          in \<lparr>cf_id = tf_id d, cf_title = tf_title d, cf_iconEmoji = (case tf_emoticon d of None \<Rightarrow> [] | Some e \<Rightarrow> e), cf_flags = fl,
               cf_always = flat_set_construct (<) (always @ pinned), cf_pinned = pinned, cf_never = flat_set_construct (<) never\<rparr>)"

definition filter_tl :: "('h::linorder \<Rightarrow> 'p) \<Rightarrow> filter_id \<Rightarrow> 'h chat_filter \<Rightarrow> 'p tl_filter" where
  "filter_tl input replaceId f =
     (let fl = cf_flags f; always = fold (\<lambda>h always. fst (flat_set_remove (<) h always)) (cf_pinned f) (cf_always f) in
      \<lparr>tf_id = (if replaceId \<noteq> 0 then replaceId else cf_id f), tf_title = cf_title f, tf_emoticon = Some (cf_iconEmoji f),
       tf_contacts = has_flag fl flag_Contacts, tf_non_contacts = has_flag fl flag_NonContacts, tf_groups = has_flag fl flag_Groups,
       tf_broadcasts = has_flag fl flag_Channels, tf_bots = has_flag fl flag_Bots, tf_exclude_muted = has_flag fl flag_NoMuted,
       tf_exclude_read = has_flag fl flag_NoRead, tf_exclude_archived = has_flag fl flag_NoArchived,
       tf_pinned_peers = map input (cf_pinned f), tf_include_peers = map input always, tf_exclude_peers = map input (cf_never f)\<rparr>)"

section \<open>The list of filters\<close>

record 'h filters =
  fs_list :: "'h chat_filter list"
  fs_chats :: "filter_id \<Rightarrow> 'h set"
  fs_pinned :: "filter_id \<Rightarrow> 'h list"
  fs_exceptionsToLoad :: "filter_id list"
  fs_loaded :: bool

definition filters_new :: "'h filters" where
  "filters_new = \<lparr>fs_list = [filter_default], fs_chats = (\<lambda>_. {}), fs_pinned = (\<lambda>_. []), fs_exceptionsToLoad = [], fs_loaded = False\<rparr>"

text \<open>\<open>Entry::addToChatList\<close> and \<open>removeFromChatList\<close>, which unpins a chat that leaves a list.\<close>

definition filter_addChat :: "filter_id \<Rightarrow> 'h \<Rightarrow> 'h filters \<Rightarrow> 'h filters" where
  "filter_addChat i h fs = fs\<lparr>fs_chats := (fs_chats fs)(i := insert h (fs_chats fs i))\<rparr>"

definition filter_removeChat :: "filter_id \<Rightarrow> 'h \<Rightarrow> 'h filters \<Rightarrow> 'h filters" where
  "filter_removeChat i h fs =
     fs\<lparr>fs_pinned := (fs_pinned fs)(i := remove1 h (fs_pinned fs i)), fs_chats := (fs_chats fs)(i := fs_chats fs i - {h})\<rparr>"

definition feedHistory :: "('h::linorder \<Rightarrow> history_traits) \<Rightarrow> 'h chat_filter \<Rightarrow> 'h chat_filter \<Rightarrow> 'h \<Rightarrow> 'h filters \<Rightarrow> 'h filters" where
  "feedHistory traits f updated h fs =
     (let now = filter_contains traits updated h; was = filter_contains traits f h in
      if now \<noteq> was then (if now then filter_addChat (cf_id f) h fs else filter_removeChat (cf_id f) h fs) else fs)"

definition applyChange ::
  "('h::linorder \<Rightarrow> history_traits) \<Rightarrow> 'h list \<Rightarrow> nat \<Rightarrow> 'h chat_filter \<Rightarrow> 'h filters \<Rightarrow> ('h filters \<times> bool) option" where
  "applyChange traits chats i updated fs =
     (let f = fs_list fs ! i in
      if \<not> i < length (fs_list fs) \<or> cf_id f \<noteq> cf_id updated then None
      else let exceptionsChanged = (cf_always f \<noteq> cf_always updated);
               rulesChanged = (exceptionsChanged \<or> cf_flags f \<noteq> cf_flags updated \<or> cf_never f \<noteq> cf_never updated);
               pinnedChanged = (cf_pinned f \<noteq> cf_pinned updated) in
        if \<not> rulesChanged \<and> \<not> pinnedChanged \<and> cf_title f = cf_title updated \<and> cf_iconEmoji f = cf_iconEmoji updated then Some (fs, False)
        else let fs1 = (if rulesChanged
               then let fed = fold (feedHistory traits f updated) chats fs
                    in if exceptionsChanged \<and> cf_always updated \<noteq> []
                       then fed\<lparr>fs_exceptionsToLoad := fs_exceptionsToLoad fed @ [cf_id f]\<rparr> else fed
               else fs);
                 fs2 = fs1\<lparr>fs_list := (fs_list fs1)[i := updated]\<rparr> in
          if pinnedChanged
          then if cf_id f = 0 then None else Some (fs2\<lparr>fs_pinned := (fs_pinned fs2)(cf_id f := cf_pinned updated)\<rparr>, True)
          else Some (fs2, True))"

definition applyInsert :: "('h::linorder \<Rightarrow> history_traits) \<Rightarrow> 'h list \<Rightarrow> 'h chat_filter \<Rightarrow> nat \<Rightarrow> 'h filters \<Rightarrow> 'h filters option" where
  "applyInsert traits chats f position fs =
     (if position > length (fs_list fs) then None
      else map_option fst (applyChange traits chats position f (fs\<lparr>fs_list := insert_at position (filter_empty (cf_id f)) (fs_list fs)\<rparr>)))"

definition applyRemove :: "('h::linorder \<Rightarrow> history_traits) \<Rightarrow> 'h list \<Rightarrow> nat \<Rightarrow> 'h filters \<Rightarrow> 'h filters option" where
  "applyRemove traits chats position fs =
     (if \<not> position < length (fs_list fs) then None
      else map_option (\<lambda>(fs1, _). fs1\<lparr>fs_list := erase_at position (fs_list fs1)\<rparr>)
        (applyChange traits chats position (filter_empty (cf_id (fs_list fs ! position))) fs))"

definition find_filter :: "filter_id \<Rightarrow> nat \<Rightarrow> 'h chat_filter list \<Rightarrow> nat" where
  "find_filter i n fs = n + length (takeWhile (\<lambda>f. cf_id f \<noteq> i) (drop n fs))"

text \<open>\<open>set\<close>, \<open>remove\<close> and \<open>moveAllToFront\<close>; the flag says whether \<open>changed()\<close> fires.\<close>

definition filters_set :: "('h::linorder \<Rightarrow> history_traits) \<Rightarrow> 'h list \<Rightarrow> 'h chat_filter \<Rightarrow> 'h filters \<Rightarrow> ('h filters \<times> bool) option" where
  "filters_set traits chats f fs =
     (if cf_id f = 0 then Some (fs, False)
      else let i = find_filter (cf_id f) 0 (fs_list fs) in
        if i = length (fs_list fs) then map_option (\<lambda>fs1. (fs1, True)) (applyInsert traits chats f (length (fs_list fs)) fs)
        else applyChange traits chats i f fs)"

definition filters_remove :: "('h::linorder \<Rightarrow> history_traits) \<Rightarrow> 'h list \<Rightarrow> filter_id \<Rightarrow> 'h filters \<Rightarrow> ('h filters \<times> bool) option" where
  "filters_remove traits chats i fs =
     (let n = find_filter i 0 (fs_list fs) in
      if n = length (fs_list fs) then Some (fs, False) else map_option (\<lambda>fs1. (fs1, True)) (applyRemove traits chats n fs))"

definition moveAllToFront :: "'h filters \<Rightarrow> 'h filters" where
  "moveAllToFront fs =
     (let i = find_filter 0 0 (fs_list fs) in
      if fs_list fs \<noteq> [] \<and> i = 0 then fs
      else let xs = (if i \<noteq> length (fs_list fs) then erase_at i (fs_list fs) else fs_list fs) in fs\<lparr>fs_list := filter_default # xs\<rparr>)"

text \<open>\<open>received\<close>: the loop over the filters of the server, then the rest is removed.\<close>

fun received_loop ::
  "('h::linorder \<Rightarrow> history_traits) \<Rightarrow> 'h list \<Rightarrow> 'h chat_filter list \<Rightarrow> nat \<Rightarrow> bool \<Rightarrow> 'h filters \<Rightarrow> (nat \<times> bool \<times> 'h filters) option" where
  "received_loop traits chats [] position changed fs = Some (position, changed, fs)"
| "received_loop traits chats (parsed # rest) position changed fs =
     (let i = find_filter (cf_id parsed) position (fs_list fs) in
      if i = length (fs_list fs)
      then Option.bind (applyInsert traits chats parsed position fs) (\<lambda>fs1. received_loop traits chats rest (Suc position) True fs1)
      else if i = position
      then Option.bind (applyChange traits chats position parsed fs)
        (\<lambda>(fs1, c). received_loop traits chats rest (Suc position) (changed \<or> c) fs1)
      else Option.bind (applyChange traits chats position parsed (fs\<lparr>fs_list := swap_at i position (fs_list fs)\<rparr>))
        (\<lambda>(fs1, _). received_loop traits chats rest (Suc position) True fs1))"

lemma feed_list: "fs_list (fold (feedHistory traits f updated) chats fs) = fs_list fs"
  by (induction chats arbitrary: fs) (simp_all add: feedHistory_def filter_addChat_def filter_removeChat_def Let_def)

lemma filter_eqI:
  "cf_id f = cf_id g \<Longrightarrow> cf_title f = cf_title g \<Longrightarrow> cf_iconEmoji f = cf_iconEmoji g \<Longrightarrow> cf_flags f = cf_flags g \<Longrightarrow> cf_always f = cf_always g
    \<Longrightarrow> cf_pinned f = cf_pinned g \<Longrightarrow> cf_never f = cf_never g \<Longrightarrow> f = (g :: 'h chat_filter)"
  by (rule chat_filter.equality) simp_all

lemma list_same_update: "xs ! i = x \<Longrightarrow> xs = xs[i := x]"
  by auto

lemma applyChange_list: "applyChange traits chats i updated fs = Some (fs', c) \<Longrightarrow> fs_list fs' = (fs_list fs)[i := updated]"
  by (auto simp: applyChange_def Let_def feed_list split: if_splits intro!: list_same_update filter_eqI)

lemma applyRemove_shorter: "applyRemove traits chats i fs = Some fs' \<Longrightarrow> length (fs_list fs') < length (fs_list fs)"
  by (auto simp: applyRemove_def applyChange_list length_erase_at split: if_splits)

function received_remove :: "('h::linorder \<Rightarrow> history_traits) \<Rightarrow> 'h list \<Rightarrow> nat \<Rightarrow> bool \<Rightarrow> 'h filters \<Rightarrow> (bool \<times> 'h filters) option" where
  "received_remove traits chats position changed fs =
     (if position < length (fs_list fs)
      then case applyRemove traits chats position fs of
          None \<Rightarrow> None
        | Some fs1 \<Rightarrow> received_remove traits chats position True fs1
      else Some (changed, fs))"
  by pat_completeness auto

termination
  by (relation "measure (\<lambda>(traits, chats, position, changed, fs). length (fs_list fs))") (auto dest: applyRemove_shorter)

definition filters_received :: "('h::linorder \<Rightarrow> history_traits) \<Rightarrow> 'h list \<Rightarrow> 'h chat_filter list \<Rightarrow> 'h filters \<Rightarrow> ('h filters \<times> bool) option" where
  "filters_received traits chats parsed fs =
     Option.bind (received_loop traits chats parsed 0 False fs) (\<lambda>(position, changed, fs1).
     Option.bind (received_remove traits chats position changed fs1) (\<lambda>(changed1, fs2).
       let fs3 = (if \<not> (\<exists>f \<in> set (fs_list fs2). cf_id f = 0) then fs2\<lparr>fs_list := filter_default # fs_list fs2\<rparr> else fs2) in
       Some (fs3\<lparr>fs_loaded := True\<rparr>, changed1 \<or> \<not> fs_loaded fs3)))"


text \<open>\<open>applyOrder\<close>: first the ids alone, then the filters.\<close>

fun order_possible :: "filter_id list \<Rightarrow> nat \<Rightarrow> filter_id list \<Rightarrow> bool" where
  "order_possible [] b indices = True"
| "order_possible (i # order) b indices =
     (let n = b + length (takeWhile (\<lambda>x. x \<noteq> i) (drop b indices)) in
      if n = length indices then False
      else order_possible order (Suc b) (if n \<noteq> b then swap_at n b indices else indices))"

fun order_filters :: "filter_id list \<Rightarrow> nat \<Rightarrow> bool \<Rightarrow> 'h chat_filter list \<Rightarrow> ('h chat_filter list \<times> bool) option" where
  "order_filters [] b changed xs = Some (xs, changed)"
| "order_filters (i # order) b changed xs =
     (let n = find_filter i b xs in
      if n = length xs then None
      else if n \<noteq> b then order_filters order (Suc b) True (swap_at n b xs)
      else order_filters order (Suc b) changed xs)"

definition applyOrder :: "filter_id list \<Rightarrow> 'h filters \<Rightarrow> ('h filters \<times> bool \<times> bool) option" where
  "applyOrder order fs =
     (if length order \<noteq> length (fs_list fs) then Some (fs, False, False)
      else if fs_list fs = [] then Some (fs, True, False)
      else if \<not> order_possible order 0 (map cf_id (fs_list fs)) then Some (fs, False, False)
      else map_option (\<lambda>(xs, changed). (fs\<lparr>fs_list := xs\<rparr>, True, changed)) (order_filters order 0 False (fs_list fs)))"

text \<open>\<open>applyUpdatedPinned\<close>: \<open>dialogs\<close> are the keys of the pinned list, \<open>None\<close> for a folder.\<close>

fun collect_pinned :: "int \<Rightarrow> 'h::linorder option list \<Rightarrow> 'h list \<times> 'h list \<Rightarrow> 'h list \<times> 'h list" where
  "collect_pinned limit [] acc = acc"
| "collect_pinned limit (None # dialogs) acc = collect_pinned limit dialogs acc"
| "collect_pinned limit (Some h # dialogs) (always, pinned) =
     collect_pinned limit dialogs
       (if flat_multi_set_contains (<) h always then (always, pinned @ [h])
        else if int (length always) < limit then (fst (flat_set_insert (<) h always), pinned @ [h])
        else (always, pinned))"

definition applyUpdatedPinned ::
  "('h::linorder \<Rightarrow> history_traits) \<Rightarrow> 'h list \<Rightarrow> int \<Rightarrow> filter_id \<Rightarrow> 'h option list \<Rightarrow> 'h filters \<Rightarrow> ('h filters \<times> bool) option" where
  "applyUpdatedPinned traits chats limit i dialogs fs =
     (let n = find_filter i 0 (fs_list fs) in
      if n = length (fs_list fs) then None
      else let f = fs_list fs ! n; (always, pinned) = collect_pinned limit dialogs (cf_always f, []) in
        filters_set traits chats (f\<lparr>cf_id := i, cf_always := always, cf_pinned := pinned\<rparr>) fs)"

definition archiveNeeded :: "'h filters \<Rightarrow> bool" where
  "archiveNeeded fs \<longleftrightarrow> (\<exists>f \<in> set (fs_list fs). \<not> has_flag (cf_flags f) flag_NoArchived)"

definition lookupId :: "bool \<Rightarrow> nat \<Rightarrow> 'h filters \<Rightarrow> filter_id option" where
  "lookupId isPremium index fs =
     (let xs = fs_list fs in
      if \<not> index < length xs then None
      else if isPremium \<or> cf_id (hd xs) = 0 then Some (cf_id (xs ! index))
      else let i = find_filter 0 0 xs in
        Some (if index = 0 then 0 else if index \<le> i then cf_id (xs ! (index - 1)) else cf_id (xs ! index)))"

text \<open>\<open>Session::refreshChatListEntry\<close> on the lists of the filters: the loop after the main list.\<close>

definition refresh_filter :: "('h::linorder \<Rightarrow> history_traits) \<Rightarrow> 'h \<Rightarrow> 'h chat_filter \<Rightarrow> 'h filters \<Rightarrow> 'h filters" where
  "refresh_filter traits h f fs =
     (if cf_id f = 0 then fs
      else if filter_contains traits f h then (if h \<in> fs_chats fs (cf_id f) then fs else filter_addChat (cf_id f) h fs)
      else if h \<in> fs_chats fs (cf_id f) then filter_removeChat (cf_id f) h fs else fs)"

fun refresh_filters :: "('h::linorder \<Rightarrow> history_traits) \<Rightarrow> 'h \<Rightarrow> 'h chat_filter list \<Rightarrow> 'h filters \<Rightarrow> 'h filters" where
  "refresh_filters traits h [] fs = fs"
| "refresh_filters traits h (f # rest) fs = refresh_filters traits h rest (refresh_filter traits h f fs)"

text \<open>\<open>loadNextExceptions\<close>: \<open>collectExceptions\<close> appends to the request itself and returns an empty list.\<close>

definition kLoadExceptionsPerRequest :: nat where
  "kLoadExceptionsPerRequest = 100"

definition kLoadExceptionsAfter :: int where
  "kLoadExceptionsAfter = 100"

definition collectExceptions :: "('h \<Rightarrow> history_traits) \<Rightarrow> 'h chat_filter list \<Rightarrow> filter_id \<Rightarrow> 'h list \<Rightarrow> 'h list \<times> 'h list" where
  "collectExceptions traits xs i inputs =
     (let n = find_filter i 0 xs in
      if n = length xs then (inputs, [])
      else (inputs @ filter (\<lambda>h. \<not> ht_folderKnown (traits h)) (cf_always (xs ! n)), []))"

fun exceptions_loop :: "('h \<Rightarrow> history_traits) \<Rightarrow> 'h chat_filter list \<Rightarrow> filter_id list \<Rightarrow> 'h list \<Rightarrow> (filter_id list \<times> 'h list) option" where
  "exceptions_loop traits xs [] inputs = Some ([], inputs)"
| "exceptions_loop traits xs (i # queue) inputs =
     (let (inputs1, exceptions) = collectExceptions traits xs i inputs in
      if length inputs1 + length exceptions > kLoadExceptionsPerRequest
      then if inputs1 = [] then None else Some (i # queue, inputs1)
      else exceptions_loop traits xs queue (inputs1 @ exceptions))"

text \<open>The histories of the request that is sent, if one is, and the answer of the method.\<close>

definition loadNextExceptions :: "('h \<Rightarrow> history_traits) \<Rightarrow> bool \<Rightarrow> int \<Rightarrow> bool \<Rightarrow> 'h filters \<Rightarrow> ('h filters \<times> 'h list option \<times> bool) option" where
  "loadNextExceptions traits requestSent fullSize chatsListLoaded fs =
     (if requestSent then Some (fs, None, True)
      else if \<not> chatsListLoaded \<and> fullSize < kLoadExceptionsAfter then Some (fs, None, False)
      else map_option (\<lambda>(queue, inputs).
          (fs\<lparr>fs_exceptionsToLoad := queue\<rparr>, if inputs = [] then None else Some inputs, inputs \<noteq> []))
        (exceptions_loop traits (fs_list fs) (fs_exceptionsToLoad fs) []))"


text \<open>\<open>Session::removeChatListEntry\<close> on the lists of the filters.\<close>

fun leave_filters :: "'h \<Rightarrow> 'h chat_filter list \<Rightarrow> 'h filters \<Rightarrow> 'h filters" where
  "leave_filters h [] fs = fs"
| "leave_filters h (f # rest) fs =
     leave_filters h rest (if cf_id f \<noteq> 0 \<and> h \<in> fs_chats fs (cf_id f) then filter_removeChat (cf_id f) h fs else fs)"

section \<open>The chats of a filter\<close>

definition members :: "('h::linorder \<Rightarrow> history_traits) \<Rightarrow> 'h list \<Rightarrow> 'h chat_filter \<Rightarrow> 'h set" where
  "members traits chats f = {h \<in> set chats. filter_contains traits f h}"

definition filters_ok :: "('h::linorder \<Rightarrow> history_traits) \<Rightarrow> 'h list \<Rightarrow> 'h filters \<Rightarrow> bool" where
  "filters_ok traits chats fs \<longleftrightarrow> distinct (map cf_id (fs_list fs)) \<and> (\<forall>f \<in> set (fs_list fs). cf_id f = 0 \<longrightarrow> f = filter_default)
     \<and> (\<forall>f \<in> set (fs_list fs). fs_chats fs (cf_id f) = members traits chats f)
     \<and> (\<forall>i. i \<notin> cf_id ` set (fs_list fs) \<longrightarrow> fs_chats fs i = {})"

lemma has_flag_zero [simp]: "\<not> has_flag 0 f"
  by (simp add: has_flag_def)

lemma contains_empty [simp]: "\<not> filter_contains traits (filter_empty i) h"
  by (simp add: filter_contains_def filter_empty_def flat_multi_set_contains_def flat_multi_set_findFirst_def out_of_span_def Let_def)

lemma members_empty [simp]: "members traits chats (filter_empty i) = {}"
  by (simp add: members_def)

lemma filter_empty_id [simp]: "cf_id (filter_empty i) = i"
  by (simp add: filter_empty_def)

lemma contains_rules:
  "cf_flags f = cf_flags g \<Longrightarrow> cf_always f = cf_always g \<Longrightarrow> cf_never f = cf_never g \<Longrightarrow> filter_contains traits f = filter_contains traits g"
  by (simp add: filter_contains_def fun_eq_iff Let_def)

lemma feed_chats:
  "fs_chats (fold (feedHistory traits f updated) chats fs) i
    = (if i = cf_id f then (fs_chats fs i - {h \<in> set chats. filter_contains traits f h \<and> \<not> filter_contains traits updated h})
         \<union> {h \<in> set chats. filter_contains traits updated h \<and> \<not> filter_contains traits f h}
       else fs_chats fs i)"
  by (induction chats arbitrary: fs) (auto simp: feedHistory_def filter_addChat_def filter_removeChat_def Let_def)

lemma applyChange_ok:
  assumes ok: "filters_ok traits chats fs" and i: "i < length (fs_list fs)" "cf_id (fs_list fs ! i) = cf_id updated"
    and zero: "cf_id updated = 0 \<Longrightarrow> updated = filter_default"
  obtains fs' c where "applyChange traits chats i updated fs = Some (fs', c)" "filters_ok traits chats fs'" "fs_list fs' = (fs_list fs)[i := updated]"
    "c \<longleftrightarrow> fs_list fs ! i \<noteq> updated" "fs_loaded fs' = fs_loaded fs"
proof -
  let ?f = "fs_list fs ! i"
  have f: "?f \<in> set (fs_list fs)" using i(1) by simp
  have no: "cf_id ?f = 0 \<Longrightarrow> cf_pinned ?f = cf_pinned updated" using ok f i(2) zero by (auto simp: filters_ok_def)
  obtain fs' c where ch: "applyChange traits chats i updated fs = Some (fs', c)"
    using i no by (cases "applyChange traits chats i updated fs") (auto simp: applyChange_def Let_def split: if_splits)
  have lst: "fs_list fs' = (fs_list fs)[i := updated]" by (rule applyChange_list [OF ch])
  have c: "c \<longleftrightarrow> ?f \<noteq> updated" using ch i filter_eqI [of ?f updated] by (auto simp: applyChange_def Let_def split: if_splits)
  have "fs_loaded (fold (feedHistory traits f g) hs fs) = fs_loaded fs" for f g hs fs
    by (induction hs arbitrary: fs) (simp_all add: feedHistory_def filter_addChat_def filter_removeChat_def Let_def)
  then have l: "fs_loaded fs' = fs_loaded fs" using ch by (auto simp: applyChange_def Let_def split: if_splits)
  have mem: "fs_chats fs (cf_id ?f) = members traits chats ?f" using ok f by (simp add: filters_ok_def)
  have chats': "fs_chats fs' j = (if j = cf_id updated then members traits chats updated else fs_chats fs j)" for j
  proof (cases "cf_always ?f = cf_always updated \<and> cf_flags ?f = cf_flags updated \<and> cf_never ?f = cf_never updated")
    case True
    then have "members traits chats updated = members traits chats ?f" using contains_rules [of ?f updated] by (simp add: members_def)
    moreover have "fs_chats fs' = fs_chats fs" using ch True by (auto simp: applyChange_def Let_def split: if_splits)
    ultimately show ?thesis using mem i(2) by simp
  next
    case False
    then have "fs_chats fs' = fs_chats (fold (feedHistory traits ?f updated) chats fs)" using ch by (auto simp: applyChange_def Let_def split: if_splits)
    then show ?thesis using mem i(2) by (auto simp: feed_chats members_def)
  qed
  have ids: "map cf_id ((fs_list fs)[i := updated]) = map cf_id (fs_list fs)" using i by (simp add: map_update list_update_same_conv)
  have sets: "set ((fs_list fs)[i := updated]) \<subseteq> insert updated (set (fs_list fs))" by (rule set_update_subset_insert)
  have other: "fs_chats fs' (cf_id g) = members traits chats g" if g: "g \<in> set ((fs_list fs)[i := updated])" for g
  proof (cases "cf_id g = cf_id updated")
    case True
    have u: "updated \<in> set ((fs_list fs)[i := updated])" using i(1) by (rule set_update_memI)
    have "inj_on cf_id (set ((fs_list fs)[i := updated]))" using ok ids unfolding filters_ok_def by (metis distinct_map)
    then have "g = updated" using True u g by (auto dest: inj_onD)
    then show ?thesis using chats' by simp
  next
    case False
    then show ?thesis using chats' ok g sets by (auto simp: filters_ok_def)
  qed
  have "cf_id ` set ((fs_list fs)[i := updated]) = cf_id ` set (fs_list fs)" using ids by (metis list.set_map)
  moreover have "cf_id updated \<in> cf_id ` set (fs_list fs)" using f i(2) by (metis imageI)
  ultimately have "filters_ok traits chats fs'"
    using ok other chats' lst ids sets zero unfolding filters_ok_def by auto
  with that ch lst c l show thesis by blast
qed


lemma filters_ok_perm:
  assumes "filters_ok traits chats fs" "mset xs = mset (fs_list fs)"
  shows "filters_ok traits chats (fs\<lparr>fs_list := xs\<rparr>)"
proof -
  have "set xs = set (fs_list fs)" using assms(2) by (rule mset_eq_setD)
  moreover have "distinct (map cf_id xs) = distinct (map cf_id (fs_list fs))"
    using assms(2) by (intro mset_eq_imp_distinct_iff) simp
  ultimately show ?thesis using assms(1) by (simp add: filters_ok_def)
qed

lemma find_filter_split:
  assumes "n \<le> length xs"
  shows "n \<le> find_filter i n xs" "find_filter i n xs \<le> length xs" "find_filter i n xs < length xs \<Longrightarrow> cf_id (xs ! find_filter i n xs) = i"
    "find_filter i n xs = length xs \<Longrightarrow> \<forall>f \<in> set (drop n xs). cf_id f \<noteq> i"
proof -
  let ?w = "takeWhile (\<lambda>f. cf_id f \<noteq> i) (drop n xs)"
  have w: "length ?w \<le> length xs - n" using length_takeWhile_le [of "\<lambda>f. cf_id f \<noteq> i" "drop n xs"] by simp
  then show "n \<le> find_filter i n xs" "find_filter i n xs \<le> length xs" using assms by (simp_all add: find_filter_def)
  show "find_filter i n xs < length xs \<Longrightarrow> cf_id (xs ! find_filter i n xs) = i"
    using nth_length_takeWhile [of "\<lambda>f. cf_id f \<noteq> i" "drop n xs"] assms by (simp add: find_filter_def)
  show "\<forall>f \<in> set (drop n xs). cf_id f \<noteq> i" if "find_filter i n xs = length xs"
  proof -
    have "length ?w = length (drop n xs)" using that assms by (simp add: find_filter_def)
    then have "?w = drop n xs" by (metis append_take_drop_id drop_all order_refl append_Nil2 takeWhile_eq_take)
    then show ?thesis by (metis set_takeWhileD)
  qed
qed

lemma applyInsert_ok:
  assumes ok: "filters_ok traits chats fs" and p: "p \<le> length (fs_list fs)" and new: "cf_id f \<notin> cf_id ` set (fs_list fs)"
    and zero: "cf_id f = 0 \<Longrightarrow> f = filter_default"
  obtains fs' where "applyInsert traits chats f p fs = Some fs'" "filters_ok traits chats fs'" "fs_list fs' = insert_at p f (fs_list fs)" "fs_loaded fs' = fs_loaded fs"
proof -
  let ?fs = "fs\<lparr>fs_list := insert_at p (filter_empty (cf_id f)) (fs_list fs)\<rparr>"
  have "distinct (map cf_id (insert_at p (filter_empty (cf_id f)) (fs_list fs)))"
  proof -
    have "mset (map cf_id (insert_at p (filter_empty (cf_id f)) (fs_list fs))) = mset (cf_id f # map cf_id (fs_list fs))" by (simp add: mset_insert_at)
    then have "distinct (map cf_id (insert_at p (filter_empty (cf_id f)) (fs_list fs))) = distinct (cf_id f # map cf_id (fs_list fs))"
      by (rule mset_eq_imp_distinct_iff)
    then show ?thesis using ok new by (simp add: filters_ok_def)
  qed
  then have ok1: "filters_ok traits chats ?fs" using ok new by (auto simp: filters_ok_def filter_default_def)
  have at: "p < length (fs_list ?fs)" "cf_id (fs_list ?fs ! p) = cf_id f" using p by (simp_all add: insert_at_def nth_append)
  obtain fs' c where ch: "applyChange traits chats p f ?fs = Some (fs', c)" "filters_ok traits chats fs'" "fs_list fs' = (fs_list ?fs)[p := f]"
    "fs_loaded fs' = fs_loaded ?fs" using applyChange_ok [OF ok1 at zero] by blast
  have "(fs_list ?fs)[p := f] = insert_at p f (fs_list fs)" using p by (simp add: insert_at_def list_update_append)
  with ch p that show thesis by (simp add: applyInsert_def)
qed

lemma filters_ok_without:
  assumes ok: "filters_ok traits chats fs" and split: "fs_list fs = xs @ g # ys" and "fs_chats fs (cf_id g) = {}"
  shows "filters_ok traits chats (fs\<lparr>fs_list := xs @ ys\<rparr>)"
proof -
  have sub: "set (xs @ ys) \<subseteq> set (fs_list fs)" "cf_id ` set (fs_list fs) = insert (cf_id g) (cf_id ` set (xs @ ys))" by (auto simp: split)
  have "distinct (map cf_id (xs @ ys))" using ok by (auto simp: filters_ok_def split)
  moreover have "\<forall>f \<in> set (xs @ ys). (cf_id f = 0 \<longrightarrow> f = filter_default) \<and> fs_chats fs (cf_id f) = members traits chats f"
    using ok sub(1) unfolding filters_ok_def by blast
  moreover have "fs_chats fs i = {}" if "i \<notin> cf_id ` set (xs @ ys)" for i
  proof (cases "i = cf_id g")
    case False
    then have "i \<notin> cf_id ` set (fs_list fs)" using that sub(2) by simp
    then show ?thesis using ok by (simp add: filters_ok_def)
  qed (use assms(3) in simp)
  ultimately show ?thesis unfolding filters_ok_def by simp
qed

lemma applyRemove_ok:
  assumes ok: "filters_ok traits chats fs" and p: "p < length (fs_list fs)"
  obtains fs' where "applyRemove traits chats p fs = Some fs'" "filters_ok traits chats fs'" "fs_list fs' = erase_at p (fs_list fs)" "fs_loaded fs' = fs_loaded fs"
proof -
  let ?i = "cf_id (fs_list fs ! p)"
  obtain fs1 c where ch: "applyChange traits chats p (filter_empty ?i) fs = Some (fs1, c)" "filters_ok traits chats fs1"
    "fs_list fs1 = (fs_list fs)[p := filter_empty ?i]" "fs_loaded fs1 = fs_loaded fs"
    by (rule applyChange_ok [OF ok p, of "filter_empty ?i"]) (auto simp: filter_default_def)
  let ?fs = "fs1\<lparr>fs_list := erase_at p (fs_list fs1)\<rparr>"
  have e: "erase_at p (fs_list fs1) = erase_at p (fs_list fs)" using p ch(3) by (simp add: erase_at_def erase_range_def)
  have split: "fs_list fs1 = take p (fs_list fs) @ filter_empty ?i # drop (Suc p) (fs_list fs)" using p ch(3) by (simp add: upd_conv_take_nth_drop)
  have er: "erase_at p (fs_list fs1) = take p (fs_list fs) @ drop (Suc p) (fs_list fs)" unfolding e by (simp add: erase_at_def erase_range_def)
  have "fs_chats fs1 (cf_id (filter_empty ?i :: 'a chat_filter)) = members traits chats (filter_empty ?i)"
    using ch(2) split unfolding filters_ok_def by (metis in_set_conv_decomp)
  then have "filters_ok traits chats ?fs" unfolding er using filters_ok_without [OF ch(2) split] by simp
  with that ch e p show thesis by (simp add: applyRemove_def)
qed


section \<open>The list the server sends\<close>

definition parsed_ok :: "'h chat_filter list \<Rightarrow> bool" where
  "parsed_ok parsed \<longleftrightarrow> distinct (map cf_id parsed) \<and> (\<forall>f \<in> set parsed. cf_id f = 0 \<longrightarrow> f = filter_default)"

lemma swap_take: "p \<le> i \<Longrightarrow> i < length xs \<Longrightarrow> take p (swap_at i p xs) = take p xs"
  by (simp add: swap_at_def take_update_cancel)

lemma swap_mset: "i < length xs \<Longrightarrow> j < length xs \<Longrightarrow> mset (swap_at i j xs) = mset xs"
  unfolding swap_at_def by (rule mset_swap)

lemma received_loop_ok:
  assumes "filters_ok traits chats fs" "p \<le> length (fs_list fs)" "parsed_ok parsed" "cf_id ` set (take p (fs_list fs)) \<inter> cf_id ` set parsed = {}"
  shows "\<exists>c fs'. received_loop traits chats parsed p changed fs = Some (p + length parsed, c, fs') \<and> filters_ok traits chats fs'
    \<and> p + length parsed \<le> length (fs_list fs') \<and> take (p + length parsed) (fs_list fs') = take p (fs_list fs) @ parsed \<and> fs_loaded fs' = fs_loaded fs"
  using assms
proof (induction parsed arbitrary: p changed fs)
  case (Cons f parsed)
  let ?xs = "fs_list fs" and ?i = "find_filter (cf_id f) p (fs_list fs)"
  note find = find_filter_split [OF Cons.prems(2), of "cf_id f"]
  have zero: "cf_id f = 0 \<Longrightarrow> f = filter_default" and rest: "parsed_ok parsed" "cf_id f \<notin> cf_id ` set parsed" using Cons.prems(3) by (auto simp: parsed_ok_def)
  have step: "\<exists>c fs'. received_loop traits chats parsed (Suc p) ch fs1 = Some (Suc p + length parsed, c, fs') \<and> filters_ok traits chats fs'
      \<and> Suc p + length parsed \<le> length (fs_list fs') \<and> take (Suc p + length parsed) (fs_list fs') = take p ?xs @ f # parsed \<and> fs_loaded fs' = fs_loaded fs"
    if "filters_ok traits chats fs1" "Suc p \<le> length (fs_list fs1)" "take (Suc p) (fs_list fs1) = take p ?xs @ [f]" "fs_loaded fs1 = fs_loaded fs" for ch fs1
  proof -
    have "cf_id ` set (take (Suc p) (fs_list fs1)) \<inter> cf_id ` set parsed = {}" using that(3) Cons.prems(4) rest(2) by auto
    from Cons.IH [OF that(1,2) rest(1) this, of ch] show ?thesis using that(3,4) by auto
  qed
  show ?case
  proof (cases "?i = length ?xs")
    case True
    have "cf_id f \<notin> cf_id ` set ?xs"
    proof
      assume "cf_id f \<in> cf_id ` set ?xs"
      then have "cf_id f \<in> cf_id ` set (take p ?xs) \<or> cf_id f \<in> cf_id ` set (drop p ?xs)" by (metis append_take_drop_id image_Un set_append UnE)
      then show False using find(4) [OF True] Cons.prems(4) by auto
    qed
    then obtain fs1 where fs1: "applyInsert traits chats f p fs = Some fs1" "filters_ok traits chats fs1" "fs_list fs1 = insert_at p f ?xs" "fs_loaded fs1 = fs_loaded fs"
      using applyInsert_ok [OF Cons.prems(1,2)] zero by blast
    have "take (Suc p) (fs_list fs1) = take p ?xs @ [f]" "Suc p \<le> length (fs_list fs1)" using fs1(3) Cons.prems(2) by (simp_all add: insert_at_def)
    from step [OF fs1(2) this(2,1) fs1(4), of True] show ?thesis using True fs1(1) by (simp add: Let_def)
  next
    case False
    then have i: "?i < length ?xs" "cf_id (?xs ! ?i) = cf_id f" "p \<le> ?i" using find by auto
    show ?thesis
    proof (cases "?i = p")
      case eq: True
      obtain fs1 c where fs1: "applyChange traits chats p f fs = Some (fs1, c)" "filters_ok traits chats fs1" "fs_list fs1 = ?xs[p := f]" "fs_loaded fs1 = fs_loaded fs"
        by (rule applyChange_ok [OF Cons.prems(1), of p f]) (use i eq zero in auto)
      have "take (Suc p) (fs_list fs1) = take p ?xs @ [f]" "Suc p \<le> length (fs_list fs1)" using fs1(3) i eq by (simp_all add: take_Suc_conv_app_nth)
      from step [OF fs1(2) this(2,1) fs1(4), of "changed \<or> c"] show ?thesis using False eq fs1(1) by (simp add: Let_def)
    next
      case ne: False
      let ?fs = "fs\<lparr>fs_list := swap_at ?i p ?xs\<rparr>"
      have p: "p < length ?xs" using i by simp
      have ok: "filters_ok traits chats ?fs" by (rule filters_ok_perm [OF Cons.prems(1) swap_mset [OF i(1) p]])
      obtain fs1 c where fs1: "applyChange traits chats p f ?fs = Some (fs1, c)" "filters_ok traits chats fs1" "fs_list fs1 = (swap_at ?i p ?xs)[p := f]"
        "fs_loaded fs1 = fs_loaded fs"
        by (rule applyChange_ok [OF ok, of p f]) (use i p zero in \<open>auto simp: swap_at_def nth_list_update\<close>)
      have "take (Suc p) (fs_list fs1) = take p ?xs @ [f]" "Suc p \<le> length (fs_list fs1)"
        using fs1(3) i p swap_take [OF i(3,1)] by (simp_all add: take_Suc_conv_app_nth)
      from step [OF fs1(2) this(2,1) fs1(4), of True] show ?thesis using False ne fs1(1) by (simp add: Let_def)
    qed
  qed
qed simp

lemma received_remove_ok:
  assumes "filters_ok traits chats fs" "p \<le> length (fs_list fs)"
  shows "\<exists>c fs'. received_remove traits chats p changed fs = Some (c, fs') \<and> filters_ok traits chats fs' \<and> fs_list fs' = take p (fs_list fs) \<and> fs_loaded fs' = fs_loaded fs"
  using assms
proof (induction traits chats p changed fs rule: received_remove.induct)
  case (1 traits chats p changed fs)
  show ?case
  proof (cases "p < length (fs_list fs)")
    case True
    obtain fs1 where fs1: "applyRemove traits chats p fs = Some fs1" "filters_ok traits chats fs1" "fs_list fs1 = erase_at p (fs_list fs)" "fs_loaded fs1 = fs_loaded fs"
      by (rule applyRemove_ok [OF 1(2) True])
    have "p \<le> length (fs_list fs1)" "take p (fs_list fs1) = take p (fs_list fs)" using fs1(3) True by (simp_all add: erase_at_def erase_range_def)
    with 1(1) [OF True fs1(1) fs1(2)] fs1 True show ?thesis by simp
  next
    case False
    with 1(2,3) show ?thesis by simp
  qed
qed

lemma received_ok:
  assumes ok: "filters_ok traits chats fs" and parsed: "parsed_ok parsed"
  obtains fs' c where "filters_received traits chats parsed fs = Some (fs', c)" "filters_ok traits chats fs'" "fs_loaded fs'"
    "fs_list fs' = (if 0 \<in> cf_id ` set parsed then parsed else filter_default # parsed)"
proof -
  obtain c1 fs1 where 1: "received_loop traits chats parsed 0 False fs = Some (length parsed, c1, fs1)" "filters_ok traits chats fs1"
    "length parsed \<le> length (fs_list fs1)" "take (length parsed) (fs_list fs1) = parsed" "fs_loaded fs1 = fs_loaded fs"
    using received_loop_ok [OF ok _ parsed, of 0 False] by auto
  obtain c2 fs2 where 2: "received_remove traits chats (length parsed) c1 fs1 = Some (c2, fs2)" "filters_ok traits chats fs2" "fs_list fs2 = parsed" "fs_loaded fs2 = fs_loaded fs"
    using received_remove_ok [OF 1(2,3), of c1] 1(4,5) by auto
  let ?fs3 = "if \<not> (\<exists>f \<in> set (fs_list fs2). cf_id f = 0) then fs2\<lparr>fs_list := filter_default # fs_list fs2\<rparr> else fs2"
  have ok3: "filters_ok traits chats ?fs3"
  proof (cases "\<exists>f \<in> set (fs_list fs2). cf_id f = 0")
    case False
    then have "0 \<notin> cf_id ` set (fs_list fs2)" by auto
    then have "fs_chats fs2 0 = {}" using 2(2) by (simp add: filters_ok_def)
    with 2(2) False show ?thesis by (auto simp: filters_ok_def filter_default_def)
  qed (use 2(2) in simp)
  have "filters_ok traits chats (?fs3\<lparr>fs_loaded := True\<rparr>)" using ok3 by (simp add: filters_ok_def split del: if_split)
  moreover have "fs_list ?fs3 = (if 0 \<in> cf_id ` set parsed then parsed else filter_default # parsed)" using 2(3) by auto
  moreover have "filters_received traits chats parsed fs = Some (?fs3\<lparr>fs_loaded := True\<rparr>, c2 \<or> \<not> fs_loaded ?fs3)"
    using 1(1) 2(1) by (simp add: filters_received_def Let_def)
  ultimately show thesis using that by simp
qed


section \<open>Reordering\<close>

lemma swap_rest:
  assumes "b \<le> n" "n < length xs"
  shows "mset (drop (Suc b) (swap_at n b xs)) = mset (drop b xs) - {#xs ! n#}" "take (Suc b) (swap_at n b xs) = take b xs @ [xs ! n]"
proof -
  have b: "b < length xs" using assms by simp
  have t: "take b (swap_at n b xs) = take b xs" by (rule swap_take [OF assms])
  have at: "swap_at n b xs ! b = xs ! n" using assms b by (simp add: swap_at_def nth_list_update)
  show "take (Suc b) (swap_at n b xs) = take b xs @ [xs ! n]" using b t at by (simp add: take_Suc_conv_app_nth)
  have "mset (take b (swap_at n b xs)) + mset (drop b (swap_at n b xs)) = mset (take b xs) + mset (drop b xs)"
    using swap_mset [OF assms(2) b] by (simp flip: mset_append)
  then have "mset (drop b (swap_at n b xs)) = mset (drop b xs)" using t by simp
  moreover have "drop b (swap_at n b xs) = xs ! n # drop (Suc b) (swap_at n b xs)" using b at by (metis Cons_nth_drop_Suc length_swap_at)
  ultimately show "mset (drop (Suc b) (swap_at n b xs)) = mset (drop b xs) - {#xs ! n#}" by (metis add_mset_remove_trivial mset.simps(2))
qed

lemma swap_here: "b < length xs \<Longrightarrow> swap_at b b xs = xs"
  by (simp add: swap_at_def)

lemma length_takeWhile_all: "length (takeWhile P ys) = length ys \<longleftrightarrow> (\<forall>y \<in> set ys. P y)"
  by (induction ys) auto

lemma order_find:
  fixes i :: 'a
  assumes "b \<le> length xs"
  defines "n \<equiv> b + length (takeWhile (\<lambda>x. x \<noteq> i) (drop b xs))"
  shows "n = length xs \<longleftrightarrow> i \<notin> set (drop b xs)" "n \<noteq> length xs \<Longrightarrow> b \<le> n \<and> n < length xs \<and> xs ! n = i"
proof -
  have w: "length (takeWhile (\<lambda>x. x \<noteq> i) (drop b xs)) \<le> length xs - b" using length_takeWhile_le [of "\<lambda>x. x \<noteq> i" "drop b xs"] by simp
  show "n \<noteq> length xs \<Longrightarrow> b \<le> n \<and> n < length xs \<and> xs ! n = i"
    using nth_length_takeWhile [of "\<lambda>x. x \<noteq> i" "drop b xs"] w assms(1) by (auto simp: n_def)
  then show "n = length xs \<longleftrightarrow> i \<notin> set (drop b xs)"
  proof -
    have "n = length xs \<longleftrightarrow> length (takeWhile (\<lambda>x. x \<noteq> i) (drop b xs)) = length (drop b xs)" using assms(1) w by (auto simp: n_def)
    also have "\<dots> \<longleftrightarrow> (\<forall>x \<in> set (drop b xs). x \<noteq> i)" by (rule length_takeWhile_all)
    also have "\<dots> \<longleftrightarrow> i \<notin> set (drop b xs)" by blast
    finally show ?thesis .
  qed
qed

lemma order_possible_iff: "b \<le> length indices \<Longrightarrow> order_possible order b indices \<longleftrightarrow> mset order \<subseteq># mset (drop b indices)"
proof (induction order b indices rule: order_possible.induct)
  case (2 i order b indices)
  let ?n = "b + length (takeWhile (\<lambda>x. x \<noteq> i) (drop b indices))"
  note find = order_find [OF 2(2), of i]
  show ?case
  proof (cases "?n = length indices")
    case True
    then show ?thesis using find(1) by (simp add: insert_subset_eq_iff)
  next
    case False
    then have n: "b \<le> ?n" "?n < length indices" "indices ! ?n = i" using find(2) by auto
    let ?next = "if ?n \<noteq> b then swap_at ?n b indices else indices"
    have nx: "?next = swap_at ?n b indices" using n swap_here [of b indices] by simp
    have "order_possible order (Suc b) ?next \<longleftrightarrow> mset order \<subseteq># mset (drop (Suc b) ?next)" using 2(1) [OF refl False] n by simp
    also have "\<dots> \<longleftrightarrow> mset order \<subseteq># mset (drop b indices) - {#i#}" unfolding nx using swap_rest(1) [OF n(1,2)] n(3) by simp
    also have "\<dots> \<longleftrightarrow> mset (i # order) \<subseteq># mset (drop b indices)" using find(1) False by (simp add: insert_subset_eq_iff)
    finally show ?thesis using False by simp
  qed
qed simp

lemma find_filter_index: "find_filter i b xs = b + length (takeWhile (\<lambda>x. x \<noteq> i) (drop b (map cf_id xs)))"
  by (simp add: find_filter_def drop_map takeWhile_map comp_def)

lemma order_filters_ok:
  assumes "b \<le> length xs" "mset order \<subseteq># mset (drop b (map cf_id xs))"
  shows "\<exists>ys c. order_filters order b changed xs = Some (ys, c) \<and> mset ys = mset xs
    \<and> take (b + length order) (map cf_id ys) = take b (map cf_id xs) @ order"
  using assms
proof (induction order b changed xs rule: order_filters.induct)
  case (2 i order b changed xs)
  let ?n = "find_filter i b xs"
  have b: "b \<le> length (map cf_id xs)" using 2(3) by simp
  have i: "i \<in> set (drop b (map cf_id xs))" "mset order \<subseteq># mset (drop b (map cf_id xs)) - {#i#}" using 2(4) by (auto simp: insert_subset_eq_iff)
  then have ne: "?n \<noteq> length xs" using order_find(1) [OF b, of i] by (simp add: find_filter_index)
  then have n: "b \<le> ?n" "?n < length xs" "map cf_id xs ! ?n = i" using order_find(2) [OF b, of i] by (auto simp: find_filter_index)
  have mp: "map cf_id (swap_at ?n b xs) = swap_at ?n b (map cf_id xs)" using n by (simp add: swap_at_def map_update)
  have rest: "mset order \<subseteq># mset (drop (Suc b) (map cf_id (swap_at ?n b xs)))" "Suc b \<le> length (swap_at ?n b xs)"
    unfolding mp using swap_rest(1) [of b ?n "map cf_id xs"] n i(2) by simp_all
  have pre: "take (Suc b) (map cf_id (swap_at ?n b xs)) = take b (map cf_id xs) @ [i]" unfolding mp using swap_rest(2) [of b ?n "map cf_id xs"] n by simp
  have swapped: "\<exists>ys c. order_filters order (Suc b) ch (swap_at ?n b xs) = Some (ys, c) \<and> mset ys = mset xs
      \<and> take (Suc b + length order) (map cf_id ys) = take b (map cf_id xs) @ i # order"
    if "\<exists>ys c. order_filters order (Suc b) ch (swap_at ?n b xs) = Some (ys, c) \<and> mset ys = mset (swap_at ?n b xs)
      \<and> take (Suc b + length order) (map cf_id ys) = take (Suc b) (map cf_id (swap_at ?n b xs)) @ order" for ch
    using that pre swap_mset [of ?n xs b] n by auto
  show ?case
  proof (cases "?n = b")
    case True
    then have same: "swap_at ?n b xs = xs" using n swap_here by simp
    from 2(2) [OF refl ne] True rest same have "\<exists>ys c. order_filters order (Suc b) changed (swap_at ?n b xs) = Some (ys, c) \<and> mset ys = mset (swap_at ?n b xs)
      \<and> take (Suc b + length order) (map cf_id ys) = take (Suc b) (map cf_id (swap_at ?n b xs)) @ order" by simp
    from swapped [OF this] show ?thesis using ne True same by simp
  next
    case False
    from swapped [OF 2(1) [OF refl ne False rest(2,1)]] show ?thesis using ne False by simp
  qed
qed simp

lemma applyOrder_ok:
  obtains fs' r c where "applyOrder order fs = Some (fs', r, c)" "r \<longleftrightarrow> mset order = mset (map cf_id (fs_list fs))"
    "mset (fs_list fs') = mset (fs_list fs)" "fs' = fs\<lparr>fs_list := fs_list fs'\<rparr>" "map cf_id (fs_list fs') = (if r then order else map cf_id (fs_list fs))"
proof -
  let ?ids = "map cf_id (fs_list fs)"
  have iff: "mset order = mset ?ids \<longleftrightarrow> length order = length ?ids \<and> mset order \<subseteq># mset ?ids"
  proof
    assume "length order = length ?ids \<and> mset order \<subseteq># mset ?ids"
    then show "mset order = mset ?ids" using mset_subset_size [of "mset order" "mset ?ids"] by (metis less_irrefl size_mset subset_mset.le_less)
  qed (simp add: mset_eq_length [of order ?ids])
  show thesis
  proof (cases "mset order = mset ?ids")
    case False
    have "applyOrder order fs = Some (fs, False, False)"
      using False iff order_possible_iff [of 0 ?ids order] by (auto simp: applyOrder_def)
    with that [of fs False False] False show thesis by simp
  next
    case True
    then have len: "length order = length (fs_list fs)" using mset_eq_length by fastforce
    show thesis
    proof (cases "fs_list fs = []")
      case nil: True
      then show thesis using that [of fs True False] len by (simp add: applyOrder_def)
    next
      case ne: False
      obtain ys c where ys: "order_filters order 0 False (fs_list fs) = Some (ys, c)" "mset ys = mset (fs_list fs)" "take (length order) (map cf_id ys) = order"
        using order_filters_ok [of 0 "fs_list fs" order False] True by auto
      have "length ys = length order" using ys(2) len mset_eq_length by metis
      then have "map cf_id ys = order" using ys(3) by simp
      moreover have "applyOrder order fs = Some (fs\<lparr>fs_list := ys\<rparr>, True, c)"
        using len ne order_possible_iff [of 0 ?ids order] True ys(1) by (simp add: applyOrder_def)
      ultimately show thesis using that [of "fs\<lparr>fs_list := ys\<rparr>" True c] True ys(2) by simp
    qed
  qed
qed


section \<open>Runs\<close>

lemma refresh_filter_keeps [simp]: "fs_list (refresh_filter traits h f fs) = fs_list fs" "fs_loaded (refresh_filter traits h f fs) = fs_loaded fs"
  by (simp_all add: refresh_filter_def filter_addChat_def filter_removeChat_def)

lemma refresh_filter_chats:
  "fs_chats (refresh_filter traits h f fs) i
    = (if i = cf_id f \<and> i \<noteq> 0 then (if filter_contains traits f h then insert h (fs_chats fs i) else fs_chats fs i - {h}) else fs_chats fs i)"
  by (auto simp: refresh_filter_def filter_addChat_def filter_removeChat_def)

lemma refresh_keeps: "fs_list (refresh_filters traits h xs fs) = fs_list fs" "fs_loaded (refresh_filters traits h xs fs) = fs_loaded fs"
  by (induction xs arbitrary: fs) simp_all

lemma refresh_other: "i \<notin> cf_id ` set xs \<or> i = 0 \<Longrightarrow> fs_chats (refresh_filters traits h xs fs) i = fs_chats fs i"
  by (induction xs arbitrary: fs) (auto simp: refresh_filter_chats)

lemma refresh_at:
  assumes "distinct (map cf_id xs)" "f \<in> set xs" "cf_id f \<noteq> 0"
  shows "fs_chats (refresh_filters traits h xs fs) (cf_id f)
    = (if filter_contains traits f h then insert h (fs_chats fs (cf_id f)) else fs_chats fs (cf_id f) - {h})"
  using assms
proof (induction xs arbitrary: fs)
  case (Cons g rest)
  show ?case
  proof (cases "f = g")
    case True
    then have "cf_id f \<notin> cf_id ` set rest" using Cons.prems(1) by auto
    then show ?thesis using True Cons.prems(3) refresh_other [of "cf_id f" rest] by (simp add: refresh_filter_chats)
  next
    case False
    then have f: "f \<in> set rest" using Cons.prems(2) by auto
    moreover have "cf_id g \<notin> cf_id ` set rest" using Cons.prems(1) by simp
    ultimately have "cf_id f \<noteq> cf_id g" by (metis imageI)
    with f show ?thesis using Cons by (simp add: refresh_filter_chats)
  qed
qed simp

lemma leave_keeps: "fs_list (leave_filters h xs fs) = fs_list fs" "fs_loaded (leave_filters h xs fs) = fs_loaded fs"
  by (induction h xs fs rule: leave_filters.induct) (simp_all add: filter_removeChat_def)

lemma leave_at: "fs_chats (leave_filters h xs fs) i = (if i \<in> cf_id ` set xs \<and> i \<noteq> 0 then fs_chats fs i - {h} else fs_chats fs i)"
  by (induction h xs fs rule: leave_filters.induct) (auto simp: filter_removeChat_def)

lemma contains_default [simp]: "\<not> filter_contains traits filter_default h"
  by (simp add: filter_default_def)

lemma members_changed:
  assumes "set chats' = insert h (set chats)"
  shows "members (traits(h := t)) chats' f = (if filter_contains (traits(h := t)) f h then insert h (members traits chats f) else members traits chats f - {h})"
proof -
  have "filter_contains (traits(h := t)) f h' = filter_contains traits f h'" if "h' \<noteq> h" for h' using that by (simp add: filter_contains_def)
  then have "x \<in> members (traits(h := t)) chats' f
    \<longleftrightarrow> x \<in> (if filter_contains (traits(h := t)) f h then insert h (members traits chats f) else members traits chats f - {h})" for x
    by (cases "x = h") (simp_all add: members_def assms del: fun_upd_apply)
  then show ?thesis by blast
qed

lemma refresh_ok:
  assumes ok: "filters_ok traits chats fs" and chats: "set chats' = insert h (set chats)"
  shows "filters_ok (traits(h := t)) chats' (refresh_filters (traits(h := t)) h (fs_list fs) fs)"
proof -
  let ?fs = "refresh_filters (traits(h := t)) h (fs_list fs) fs"
  have ids: "distinct (map cf_id (fs_list fs))" "\<forall>f \<in> set (fs_list fs). cf_id f = 0 \<longrightarrow> f = filter_default" using ok by (auto simp: filters_ok_def)
  have "fs_chats ?fs (cf_id f) = members (traits(h := t)) chats' f" if f: "f \<in> set (fs_list fs)" for f
  proof (cases "cf_id f = 0")
    case True
    then have "f = filter_default" using ids(2) f by blast
    moreover have "fs_chats fs 0 = {}" using ok f True \<open>f = filter_default\<close> unfolding filters_ok_def by (metis filter_default_def members_empty)
    ultimately show ?thesis using True refresh_other [of 0 "fs_list fs" "traits(h := t)" h fs] by (simp add: members_def del: fun_upd_apply)
  next
    case False
    have "fs_chats fs (cf_id f) = members traits chats f" using ok f by (simp add: filters_ok_def)
    then show ?thesis unfolding refresh_at [OF ids(1) f False] members_changed [OF chats] by simp
  qed
  moreover have "fs_chats ?fs i = {}" if "i \<notin> cf_id ` set (fs_list fs)" for i using ok that refresh_other [of i "fs_list fs"] by (simp add: filters_ok_def)
  ultimately show ?thesis using ids unfolding filters_ok_def refresh_keeps by blast
qed

lemma leave_ok:
  assumes ok: "filters_ok traits chats fs"
  shows "filters_ok traits (removeAll h chats) (leave_filters h (fs_list fs) fs)"
proof -
  have ids: "\<forall>f \<in> set (fs_list fs). cf_id f = 0 \<longrightarrow> f = filter_default" using ok by (auto simp: filters_ok_def)
  have m: "members traits (removeAll h chats) f = members traits chats f - {h}" for f by (auto simp: members_def)
  have "fs_chats (leave_filters h (fs_list fs) fs) (cf_id f) = members traits (removeAll h chats) f" if f: "f \<in> set (fs_list fs)" for f
  proof (cases "cf_id f = 0")
    case True
    then have "f = filter_default" using ids f by blast
    moreover have "fs_chats fs (cf_id f) = members traits chats f" using ok f by (simp add: filters_ok_def)
    ultimately show ?thesis using True by (simp add: leave_at members_def)
  next
    case False
    have "fs_chats fs (cf_id f) = members traits chats f" using ok f by (simp add: filters_ok_def)
    then show ?thesis using False f by (simp add: leave_at m)
  qed
  moreover have "fs_chats (leave_filters h (fs_list fs) fs) i = {}" if "i \<notin> cf_id ` set (fs_list fs)" for i using ok that by (simp add: leave_at filters_ok_def)
  ultimately show ?thesis using ok unfolding filters_ok_def leave_keeps by blast
qed

lemma set_ok:
  assumes ok: "filters_ok traits chats fs"
  obtains fs' c where "filters_set traits chats f fs = Some (fs', c)" "filters_ok traits chats fs'"
proof (cases "cf_id f = 0")
  case True
  with that [of fs False] ok show thesis by (simp add: filters_set_def)
next
  case False
  let ?i = "find_filter (cf_id f) 0 (fs_list fs)"
  note find = find_filter_split [of 0 "fs_list fs" "cf_id f", simplified]
  show thesis
  proof (cases "?i = length (fs_list fs)")
    case True
    then have "cf_id f \<notin> cf_id ` set (fs_list fs)" using find_filter_split(4) [of 0 "fs_list fs" "cf_id f"] by auto
    then obtain fs' where "applyInsert traits chats f (length (fs_list fs)) fs = Some fs'" "filters_ok traits chats fs'"
      using applyInsert_ok [OF ok order_refl, of f] False by blast
    with that True False show thesis by (simp add: filters_set_def)
  next
    case ne: False
    then have i: "?i < length (fs_list fs)" "cf_id (fs_list fs ! ?i) = cf_id f" using find by auto
    obtain fs' c where "applyChange traits chats ?i f fs = Some (fs', c)" "filters_ok traits chats fs'" using applyChange_ok [OF ok i] False by blast
    with that ne False show thesis by (simp add: filters_set_def)
  qed
qed

lemma remove_ok:
  assumes ok: "filters_ok traits chats fs"
  obtains fs' c where "filters_remove traits chats i fs = Some (fs', c)" "filters_ok traits chats fs'"
proof (cases "find_filter i 0 (fs_list fs) = length (fs_list fs)")
  case True
  with that [of fs False] ok show thesis by (simp add: filters_remove_def)
next
  case False
  then have "find_filter i 0 (fs_list fs) < length (fs_list fs)" using find_filter_split(2) [of 0 "fs_list fs" i] by simp
  from applyRemove_ok [OF ok this] False that show thesis by (auto simp: filters_remove_def)
qed

lemma moveAllToFront_ok:
  assumes ok: "filters_ok traits chats fs"
  shows "filters_ok traits chats (moveAllToFront fs)"
proof -
  let ?i = "find_filter 0 0 (fs_list fs)"
  note find = find_filter_split [of 0 "fs_list fs" 0, simplified]
  show ?thesis
  proof (cases "?i = length (fs_list fs)")
    case True
    then have no: "0 \<notin> cf_id ` set (fs_list fs)" using find_filter_split(4) [of 0 "fs_list fs" 0] by auto
    then have "fs_chats fs 0 = {}" using ok by (simp add: filters_ok_def)
    then have "filters_ok traits chats (fs\<lparr>fs_list := filter_default # fs_list fs\<rparr>)" using ok no by (auto simp: filters_ok_def filter_default_def)
    then show ?thesis using True ok by (auto simp: moveAllToFront_def Let_def)
  next
    case False
    then have i: "?i < length (fs_list fs)" "cf_id (fs_list fs ! ?i) = 0" using find by auto
    then have d: "fs_list fs ! ?i = filter_default" using ok by (simp add: filters_ok_def)
    have "fs_list fs = take ?i (fs_list fs) @ filter_default # drop (Suc ?i) (fs_list fs)" using id_take_nth_drop [OF i(1)] d by simp
    then have "mset (fs_list fs) = mset (filter_default # erase_at ?i (fs_list fs))"
      by (metis erase_at_def erase_range_def mset.simps(2) mset_append union_mset_add_mset_right)
    then have "filters_ok traits chats (fs\<lparr>fs_list := filter_default # erase_at ?i (fs_list fs)\<rparr>)" by (intro filters_ok_perm [OF ok]) simp
    then show ?thesis using False ok by (auto simp: moveAllToFront_def Let_def)
  qed
qed


text \<open>
  Runs: the filters change by the server and by the user, chats appear in the main lists, change and leave them.
\<close>

inductive filters_run :: "('h::linorder \<Rightarrow> history_traits) \<Rightarrow> 'h list \<Rightarrow> 'h filters \<Rightarrow> bool" where
  new: "filters_run traits [] filters_new"
| received: "filters_run traits chats fs \<Longrightarrow> parsed_ok parsed \<Longrightarrow> filters_received traits chats parsed fs = Some (fs', c) \<Longrightarrow> filters_run traits chats fs'"
| set_filter: "filters_run traits chats fs \<Longrightarrow> filters_set traits chats f fs = Some (fs', c) \<Longrightarrow> filters_run traits chats fs'"
| remove: "filters_run traits chats fs \<Longrightarrow> filters_remove traits chats i fs = Some (fs', c) \<Longrightarrow> filters_run traits chats fs'"
| front: "filters_run traits chats fs \<Longrightarrow> filters_run traits chats (moveAllToFront fs)"
| order: "filters_run traits chats fs \<Longrightarrow> applyOrder order fs = Some (fs', r, c) \<Longrightarrow> filters_run traits chats fs'"
| pinned: "filters_run traits chats fs \<Longrightarrow> applyUpdatedPinned traits chats limit i dialogs fs = Some (fs', c) \<Longrightarrow> filters_run traits chats fs'"
| chat: "filters_run traits chats fs \<Longrightarrow> set chats' = insert h (set chats)
    \<Longrightarrow> filters_run (traits(h := t)) chats' (refresh_filters (traits(h := t)) h (fs_list fs) fs)"
| leave: "filters_run traits chats fs \<Longrightarrow> filters_run traits (removeAll h chats) (leave_filters h (fs_list fs) fs)"

lemma filters_run_ok: "filters_run traits chats fs \<Longrightarrow> filters_ok traits chats fs"
proof (induction rule: filters_run.induct)
  case (new traits)
  then show ?case by (simp add: filters_ok_def filters_new_def filter_default_def)
next
  case (received traits chats fs parsed fs' c)
  then show ?case using received_ok [OF received.IH received.hyps(2)] by (metis option.inject prod.inject)
next
  case (set_filter traits chats fs f fs' c)
  then show ?case using set_ok [OF set_filter.IH, of f] by (metis option.inject prod.inject)
next
  case (remove traits chats fs i fs' c)
  then show ?case using remove_ok [OF remove.IH, of i] by (metis option.inject prod.inject)
next
  case (front traits chats fs)
  then show ?case by (simp add: moveAllToFront_ok)
next
  case (order traits chats fs order fs' r c)
  obtain fs1 r1 c1 where 1: "applyOrder order fs = Some (fs1, r1, c1)" "mset (fs_list fs1) = mset (fs_list fs)" "fs1 = fs\<lparr>fs_list := fs_list fs1\<rparr>"
    by (rule applyOrder_ok [of order fs])
  then have "fs' = fs\<lparr>fs_list := fs_list fs1\<rparr>" using order.hyps(2) by simp
  then show ?case using filters_ok_perm [OF order.IH 1(2)] by simp
next
  case (pinned traits chats fs limit i dialogs fs' c)
  then obtain g where "filters_set traits chats g fs = Some (fs', c)" by (auto simp: applyUpdatedPinned_def Let_def split: if_splits prod.splits)
  then show ?case using set_ok [OF pinned.IH, of g] by (metis option.inject prod.inject)
next
  case (chat traits chats fs chats' h t)
  show ?case by (rule refresh_ok [OF chat.IH chat.hyps(2)])
next
  case (leave traits chats fs h)
  show ?case by (rule leave_ok [OF leave.IH])
qed


definition sample_traits :: "nat \<Rightarrow> history_traits" where
  "sample_traits h = \<lparr>ht_peer = (if h = 0 then PeerChat else PeerUser False True), ht_mute = False, ht_unreadMentions = False, ht_folderKnown = True,
     ht_inFolder = False, ht_unreadCount = 0, ht_unreadMark = False, ht_fakeUnreadWhileOpened = False\<rparr>"

definition sample_filter :: "nat chat_filter" where
  "sample_filter = \<lparr>cf_id = 2, cf_title = ''groups'', cf_iconEmoji = [], cf_flags = flag_Groups, cf_always = [], cf_pinned = [], cf_never = []\<rparr>"


text \<open>
  C22. An order of the ids is applied exactly when it is a permutation of those of the filters: then the filters
  are the same, in that order; otherwise nothing changes. No assertion fails.
\<close>

theorem applyOrder_exact:
  "\<exists>fs' r c. applyOrder order fs = Some (fs', r, c) \<and> (r \<longleftrightarrow> mset order = mset (map cf_id (fs_list fs)))
    \<and> mset (fs_list fs') = mset (fs_list fs) \<and> map cf_id (fs_list fs') = (if r then order else map cf_id (fs_list fs))"
  using applyOrder_ok [of order fs] by blast

section \<open>Round trip\<close>

lemma to_histories_map: "(\<And>h. to_history (input h) = Some h) \<Longrightarrow> to_histories to_history (map input hs) = hs"
  by (induction hs) (simp_all add: to_histories_def)

lemma remove_all_sorted:
  assumes "sorted_wrt (<) (xs :: 'h::linorder list)"
  shows "sorted_wrt (<) (fold (\<lambda>h always. fst (flat_set_remove (<) h always)) hs xs) \<and> set (fold (\<lambda>h always. fst (flat_set_remove (<) h always)) hs xs) = set xs - set hs"
  using assms
proof (induction hs arbitrary: xs)
  case (Cons h hs)
  have "sorted_wrt (<) (fst (flat_set_remove (<) h xs))" "set (fst (flat_set_remove (<) h xs)) = set xs - {h}"
    using flat_set_less.invar_del [OF Cons.prems, of h] flat_set_less.elems_del [OF Cons.prems, of h] by auto
  with Cons.IH show ?case by auto
qed simp

lemma construct_sorted_eq:
  fixes xs ys :: "'h::linorder list"
  assumes "sorted_wrt (<) ys" "set xs = set ys"
  shows "flat_set_construct (<) xs = ys"
proof -
  have "flat_set_construct (<) xs = flat_set_merge (<) xs []"
    by (simp add: flat_set_construct_def flat_set_merge_def flat_multi_set_construct_def flat_multi_set_merge_def)
  then have "sorted_wrt (<) (flat_set_construct (<) xs)" "set (flat_set_construct (<) xs) = set ys"
    using flat_set_less.invar_mrg [of xs "[]"] flat_set_less.elems_mrg [of xs "[]"] assms(2) by auto
  then show ?thesis using assms(1) by (intro strict_sorted_unique [where R = "(<)"]) auto
qed

lemma flags_bits:
  fixes fl :: filter_flags
  shows "(if has_flag fl flag_Contacts then flag_Contacts else 0) OR (if has_flag fl flag_NonContacts then flag_NonContacts else 0)
    OR (if has_flag fl flag_Groups then flag_Groups else 0) OR (if has_flag fl flag_Channels then flag_Channels else 0)
    OR (if has_flag fl flag_Bots then flag_Bots else 0) OR (if has_flag fl flag_NoMuted then flag_NoMuted else 0)
    OR (if has_flag fl flag_NoRead then flag_NoRead else 0) OR (if has_flag fl flag_NoArchived then flag_NoArchived else 0) = fl"
proof -
  have mask: "fl AND 2 ^ n = (if bit fl n then 2 ^ n else 0)" for n :: nat by (rule bit_eqI) (auto simp: bit_and_iff bit_exp_iff)
  have bit: "(if has_flag fl m then m else 0) = fl AND m" if "m = 2 ^ n" for n :: nat and m using that by (simp add: has_flag_def mask)
  have "fl AND 2 ^ 0 OR fl AND 2 ^ 1 OR fl AND 2 ^ 2 OR fl AND 2 ^ 3 OR fl AND 2 ^ 4 OR fl AND 2 ^ 5 OR fl AND 2 ^ 6 OR fl AND 2 ^ 7
    = fl AND (2 ^ 0 OR 2 ^ 1 OR 2 ^ 2 OR 2 ^ 3 OR 2 ^ 4 OR 2 ^ 5 OR 2 ^ 6 OR 2 ^ 7)" by (simp only: bit.conj_disj_distrib)
  also have "(2 ^ 0 OR 2 ^ 1 OR 2 ^ 2 OR 2 ^ 3 OR 2 ^ 4 OR 2 ^ 5 OR 2 ^ 6 OR 2 ^ 7 :: filter_flags) = -1" by simp
  finally have all: "fl AND 0x01 OR fl AND 0x02 OR fl AND 0x04 OR fl AND 0x08 OR fl AND 0x10 OR fl AND 0x20 OR fl AND 0x40 OR fl AND 0x80 = fl" by simp
  have bits: "(if has_flag fl 0x01 then 0x01 else 0) = fl AND 0x01" "(if has_flag fl 0x02 then 0x02 else 0) = fl AND 0x02"
    "(if has_flag fl 0x04 then 0x04 else 0) = fl AND 0x04" "(if has_flag fl 0x08 then 0x08 else 0) = fl AND 0x08"
    "(if has_flag fl 0x10 then 0x10 else 0) = fl AND 0x10" "(if has_flag fl 0x20 then 0x20 else 0) = fl AND 0x20"
    "(if has_flag fl 0x40 then 0x40 else 0) = fl AND 0x40" "(if has_flag fl 0x80 then 0x80 else 0) = fl AND 0x80"
    by (rule bit [of _ 0] bit [of _ 1] bit [of _ 2] bit [of _ 3] bit [of _ 4] bit [of _ 5] bit [of _ 6] bit [of _ 7], simp; fail)+
  show ?thesis unfolding bits by (rule all)
qed


text \<open>
  C23. A filter written for the server and read back is the same filter, when its pinned chats are among those it
  always contains and the server's peers name the same histories.
\<close>

theorem filter_tl_roundtrip:
  assumes "sorted_wrt (<) (cf_always f)" "sorted_wrt (<) (cf_never f)" "set (cf_pinned f) \<subseteq> set (cf_always f)" "\<And>h. to_history (input h) = Some h"
  shows "FromTL to_history (Some (filter_tl input 0 f)) = f"
proof -
  let ?rest = "fold (\<lambda>h always. fst (flat_set_remove (<) h always)) (cf_pinned f) (cf_always f)"
  have "set (?rest @ cf_pinned f) = set (cf_always f)" using remove_all_sorted [OF assms(1), of "cf_pinned f"] assms(3) by auto
  then have always: "flat_set_construct (<) (?rest @ cf_pinned f) = cf_always f" by (rule construct_sorted_eq [OF assms(1)])
  have never: "flat_set_construct (<) (cf_never f) = cf_never f" by (rule construct_sorted_eq [OF assms(2) refl])
  have read: "to_histories to_history (map input hs) = hs" for hs using to_histories_map [of to_history input hs] assms(4) by blast
  show ?thesis
    by (rule filter_eqI) (simp_all add: FromTL_def filter_tl_def Let_def read always never flags_bits)
qed

theorem filter_tl_roundtrip_witness: "FromTL Some (Some (filter_tl id 0 sample_filter)) = sample_filter"
  by (rule filter_tl_roundtrip) (simp_all add: sample_filter_def)

section \<open>The exceptions of a filter\<close>

lemma exceptions_all_at_once:
  assumes "find_filter i 0 xs \<noteq> length xs" "inputs = filter (\<lambda>h. \<not> ht_folderKnown (traits h)) (cf_always (xs ! find_filter i 0 xs))"
    "length inputs > kLoadExceptionsPerRequest"
  shows "exceptions_loop traits xs (i # queue) [] = Some (i # queue, inputs)"
  using assms by (auto simp: collectExceptions_def Let_def)


end
